(* ===== verification/Prelude.thy ===== *)
theory Prelude
  imports Main "HOL-Library.Word"
begin

unbundle bit_operations_syntax

text \<open>
  Shared vocabulary of the development: bytes and machine integers, the little language of
  operations that either fail or return a value while they advance a state (the C convention
  of returning 0 or 1 and writing results through pointers), the bridge from bit operations
  on words to arithmetic on natural numbers, and big- and little-endian byte strings.
\<close>

type_synonym byte = "8 word"
type_synonym bytes = "8 word list"
type_synonym u16 = "16 word"
type_synonym u32 = "32 word"
type_synonym u64 = "64 word"

text \<open>Facts that turn word operations into arithmetic are collected in \<open>word_arith\<close>,
  definitions of primitive operations that proofs unfold are collected per component.\<close>

named_theorems word_arith

section \<open>Operations that may fail\<close>

text \<open>
  A C function that returns 0 or 1, updates an object through a pointer and hands back a
  result is a function from the object's state to an optional result and the new state.
  On failure the state is whatever the code left behind: it is not rolled back.
\<close>

type_synonym ('s, 'a) cop = "'s \<Rightarrow> 'a option \<times> 's"

definition c_ret :: "'a \<Rightarrow> ('s, 'a) cop" where
  "c_ret x = (\<lambda>s. (Some x, s))"

definition c_fail :: "('s, 'a) cop" where
  "c_fail = (\<lambda>s. (None, s))"

definition c_bind :: "('s, 'a) cop \<Rightarrow> ('a \<Rightarrow> ('s, 'b) cop) \<Rightarrow> ('s, 'b) cop" where
  "c_bind m f = (\<lambda>s. case m s of (None, s') \<Rightarrow> (None, s') | (Some x, s') \<Rightarrow> f x s')"

definition c_seq :: "('s, 'a) cop \<Rightarrow> ('s, 'b) cop \<Rightarrow> ('s, 'b) cop" where
  "c_seq m n = c_bind m (\<lambda>_. n)"

definition c_guard :: "bool \<Rightarrow> ('s, unit) cop" where
  "c_guard b = (if b then c_ret () else c_fail)"

definition c_get :: "('s, 's) cop" where
  "c_get = (\<lambda>s. (Some s, s))"

text \<open>Run an operation on each element of a list, stopping at the first failure: the shape of
  the loops \<open>for (...) if (!f(...)) return 0\<close>.\<close>

primrec c_each :: "('a \<Rightarrow> ('s, unit) cop) \<Rightarrow> 'a list \<Rightarrow> ('s, unit) cop" where
  "c_each f [] = c_ret ()"
| "c_each f (x # xs) = c_seq (f x) (c_each f xs)"

lemma c_ret_apply [simp]: "c_ret x s = (Some x, s)"
  by (simp add: c_ret_def)

lemma c_fail_apply [simp]: "c_fail s = (None, s)"
  by (simp add: c_fail_def)

lemma c_get_apply [simp]: "c_get s = (Some s, s)"
  by (simp add: c_get_def)

lemma c_guard_simps [simp]: "c_guard True = c_ret ()" "c_guard False = c_fail"
  by (simp_all add: c_guard_def)

lemma c_bind_apply: "c_bind m f s = (case m s of (None, s') \<Rightarrow> (None, s') | (Some x, s') \<Rightarrow> f x s')"
  by (simp add: c_bind_def)

lemma c_bind_Some [simp]: "m s = (Some x, s') \<Longrightarrow> c_bind m f s = f x s'"
  by (simp add: c_bind_def)

lemma c_bind_None [simp]: "m s = (None, s') \<Longrightarrow> c_bind m f s = (None, s')"
  by (simp add: c_bind_def)

lemma c_bind_ret [simp]: "c_bind (c_ret x) f = f x"
  by (simp add: c_bind_def c_ret_def)

lemma c_bind_fail [simp]: "c_bind c_fail f = c_fail"
  by (simp add: c_bind_def c_fail_def)

lemma c_seq_apply: "c_seq m n s = (case m s of (None, s') \<Rightarrow> (None, s') | (Some x, s') \<Rightarrow> n s')"
  by (simp add: c_seq_def c_bind_def)

lemma c_seq_Some [simp]: "m s = (Some x, s') \<Longrightarrow> c_seq m n s = n s'"
  by (simp add: c_seq_def)

lemma c_seq_None [simp]: "m s = (None, s') \<Longrightarrow> c_seq m n s = (None, s')"
  by (simp add: c_seq_def)

lemma c_bind_eq_Some:
  "c_bind m f s = (Some y, t) \<longleftrightarrow> (\<exists>x s'. m s = (Some x, s') \<and> f x s' = (Some y, t))"
  by (auto simp: c_bind_def split: prod.splits option.splits)

lemma c_seq_eq_Some:
  "c_seq m n s = (Some y, t) \<longleftrightarrow> (\<exists>x s'. m s = (Some x, s') \<and> n s' = (Some y, t))"
  by (simp add: c_seq_def c_bind_eq_Some)

lemma c_guard_eq_Some [simp]: "c_guard b s = (Some u, t) \<longleftrightarrow> b \<and> t = s"
  by (cases b) auto

lemma c_bind_guard_eq_Some: "c_bind (c_guard b) f s = (Some y, t) \<longleftrightarrow> b \<and> f () s = (Some y, t)"
  by (cases b) auto

lemma c_seq_guard_eq_Some: "c_seq (c_guard b) n s = (Some y, t) \<longleftrightarrow> b \<and> n s = (Some y, t)"
  by (cases b) (auto simp: c_seq_def)

lemmas c_Some_iffs = c_bind_eq_Some c_seq_eq_Some

text \<open>A relation between the states before and after that is reflexive and transitive holds
  of a composition when it holds of its parts.\<close>

definition c_preserves :: "('s \<Rightarrow> 's \<Rightarrow> bool) \<Rightarrow> ('s, 'a) cop \<Rightarrow> bool" where
  "c_preserves R m \<longleftrightarrow> (\<forall>s. R s (snd (m s)))"

lemma c_preservesD: "c_preserves R m \<Longrightarrow> m s = (r, t) \<Longrightarrow> R s t"
  by (metis c_preserves_def snd_conv)

lemma c_preservesI: "(\<And>s r t. m s = (r, t) \<Longrightarrow> R s t) \<Longrightarrow> c_preserves R m"
  by (metis c_preserves_def surjective_pairing)

lemma c_preserves_bind:
  assumes m: "c_preserves R m" and f: "\<And>x. c_preserves R (f x)"
    and tr: "\<And>a b c. R a b \<Longrightarrow> R b c \<Longrightarrow> R a c"
  shows "c_preserves R (c_bind m f)"
proof (rule c_preservesI)
  fix s r t
  assume run: "c_bind m f s = (r, t)"
  obtain o1 s1 where m1: "m s = (o1, s1)" by (cases "m s")
  from m m1 have R1: "R s s1" by (rule c_preservesD)
  show "R s t"
  proof (cases o1)
    case None
    with run m1 R1 show ?thesis by simp
  next
    case (Some x)
    with run m1 have "f x s1 = (r, t)" by simp
    with f have "R s1 t" by (rule c_preservesD)
    with R1 show ?thesis by (rule tr)
  qed
qed

section \<open>Words and natural numbers\<close>

lemma unat_byte_lt [simp]: "unat (b :: byte) < 256"
  using unsigned_less [of b] by simp

lemma unat_byte_le [simp]: "unat (b :: byte) \<le> 255"
  using unat_byte_lt [of b] by linarith

lemma unat_drop_bit_div [word_arith]: "unat (drop_bit n (w :: 'a::len word)) = unat w div 2 ^ n"
  unfolding unat_drop_bit_eq by (simp add: drop_bit_eq_div)

lemma unat_and_mask [word_arith]: "unat ((w :: 'a::len word) AND mask n) = unat w mod 2 ^ n"
  unfolding take_bit_eq_mask [symmetric] unsigned_take_bit_eq by (simp add: take_bit_eq_mod)

lemma unat_ucast_mod [word_arith]:
  "unat (ucast (w :: 'a::len word) :: 'b::len word) = unat w mod 2 ^ LENGTH('b)"
  by (simp add: unsigned_ucast_eq take_bit_eq_mod)

lemma unat_ucast_up [word_arith]:
  assumes "LENGTH('a) \<le> LENGTH('b)"
  shows "unat (ucast (w :: 'a::len word) :: 'b::len word) = unat w"
proof -
  have "unat w < 2 ^ LENGTH('a)" by (rule unsigned_less)
  also have "(2 :: nat) ^ LENGTH('a) \<le> 2 ^ LENGTH('b)"
    using assms by (intro power_increasing) simp_all
  finally show ?thesis by (simp add: unat_ucast_mod)
qed

lemma word_and_127: "(w :: 'a::len word) AND 127 = w AND mask 7"
  by (simp add: mask_eq_exp_minus_1)

lemma word_and_63: "(w :: 'a::len word) AND 63 = w AND mask 6"
  by (simp add: mask_eq_exp_minus_1)

lemma word_and_31: "(w :: 'a::len word) AND 31 = w AND mask 5"
  by (simp add: mask_eq_exp_minus_1)

lemma word_and_255: "(w :: 'a::len word) AND 255 = w AND mask 8"
  by (simp add: mask_eq_exp_minus_1)

lemmas word_and_masks = word_and_127 word_and_63 word_and_31 word_and_255

text \<open>Shifting left and adding low bits: the accumulation step of every big-endian reader.\<close>

lemma unat_push_bit_small:
  fixes v :: "'a::len word"
  assumes "unat v * 2 ^ k < 2 ^ LENGTH('a)"
  shows "unat (push_bit k v) = unat v * 2 ^ k"
proof -
  have "unat (push_bit k v) = take_bit LENGTH('a) (push_bit k (unat v))"
    by (rule unsigned_push_bit_eq)
  also have "\<dots> = push_bit k (unat v)"
    using assms by (intro take_bit_nat_eq_self) (simp add: push_bit_eq_mult)
  finally show ?thesis by (simp add: push_bit_eq_mult)
qed

lemma take_bit_word_self:
  fixes x :: "'a::len word"
  assumes "unat x < 2 ^ k"
  shows "take_bit k x = x"
  using assms by (simp add: word_eq_iff_unsigned [where 'a = nat] unsigned_take_bit_eq
      take_bit_nat_eq_self)

lemma unat_push_or:
  fixes v x :: "'a::len word"
  assumes v: "unat v * 2 ^ k + unat x < 2 ^ LENGTH('a)" and x: "unat x < 2 ^ k"
  shows "unat (push_bit k v OR x) = unat v * 2 ^ k + unat x"
proof -
  have xt: "x = take_bit k x"
    using x by (simp add: take_bit_word_self)
  have "push_bit k v AND x = 0"
    by (subst xt) (auto simp: bit_eq_iff bit_simps)
  then have "push_bit k v OR x = push_bit k v + x"
    by (simp add: disjunctive_add_eq_or)
  moreover have "unat (push_bit k v) = unat v * 2 ^ k"
    using v by (intro unat_push_bit_small) simp
  ultimately show ?thesis
    using v by (simp add: unat_word_ariths)
qed

lemma byte_and_128: "b AND 128 = 0 \<longleftrightarrow> unat (b :: byte) < 128"
proof -
  have "b AND 2 ^ 7 = 0 \<longleftrightarrow> \<not> bit b 7"
    by (rule and_exp_eq_0_iff_not_bit)
  also have "bit b 7 \<longleftrightarrow> odd (unat b div 2 ^ 7)"
    using bit_unsigned_iff [where 'a = nat and w = b and n = 7] by (simp add: bit_iff_odd)
  also have "\<dots> \<longleftrightarrow> \<not> unat b < 128"
  proof -
    have "unat b div 128 = 1" if "\<not> unat b < 128"
      using that unat_byte_lt [of b] by (intro div_nat_eqI) (simp_all del: unat_byte_lt unat_byte_le)
    then show ?thesis by (cases "unat b < 128") simp_all
  qed
  finally show ?thesis by simp
qed

section \<open>size_t\<close>

text \<open>Lengths are natural numbers; where the C code adds or multiplies them before a check,
  the 64-bit wrap-around of size_t is written out with these operations.\<close>

definition size_mod :: nat where
  "size_mod = 2 ^ 64"

definition size_add :: "nat \<Rightarrow> nat \<Rightarrow> nat" where
  "size_add a b = (a + b) mod size_mod"

definition size_mult :: "nat \<Rightarrow> nat \<Rightarrow> nat" where
  "size_mult a b = (a * b) mod size_mod"

lemma size_mod_pos [simp]: "0 < size_mod"
  by (simp add: size_mod_def)

lemma size_add_small [simp]: "a + b < size_mod \<Longrightarrow> size_add a b = a + b"
  by (simp add: size_add_def)

lemma size_add_lt [simp]: "size_add a b < size_mod"
  by (simp add: size_add_def)

lemma size_add_wraps_iff:
  "a < size_mod \<Longrightarrow> b < size_mod \<Longrightarrow> size_add a b < a \<longleftrightarrow> size_mod \<le> a + b"
proof (cases "a + b < size_mod")
  case False
  assume "a < size_mod" "b < size_mod"
  with False have "size_add a b = a + b - size_mod"
    by (simp add: size_add_def mod_if le_mod_geq)
  with False \<open>b < size_mod\<close> show ?thesis by linarith
qed simp

lemma size_mult_small [simp]: "a * b < size_mod \<Longrightarrow> size_mult a b = a * b"
  by (simp add: size_mult_def)

section \<open>Big- and little-endian byte strings\<close>

definition be_nat :: "bytes \<Rightarrow> nat" where
  "be_nat bs = foldl (\<lambda>a b. a * 256 + unat b) 0 bs"

primrec be_bytes :: "nat \<Rightarrow> nat \<Rightarrow> bytes" where
  "be_bytes 0 v = []"
| "be_bytes (Suc n) v = be_bytes n (v div 256) @ [word_of_nat v]"

lemma be_nat_simps [simp]:
  "be_nat [] = 0" "be_nat (bs @ [b]) = be_nat bs * 256 + unat b"
  by (simp_all add: be_nat_def)

lemma be_nat_append: "be_nat (xs @ ys) = be_nat xs * 256 ^ length ys + be_nat ys"
proof (induction ys rule: rev_induct)
  case (snoc y ys)
  have "be_nat (xs @ ys @ [y]) = be_nat ((xs @ ys) @ [y])" by simp
  also have "\<dots> = be_nat (xs @ ys) * 256 + unat y" by (rule be_nat_simps(2))
  finally show ?case using snoc by (simp add: algebra_simps)
qed simp

lemma be_nat_Cons: "be_nat (b # bs) = unat b * 256 ^ length bs + be_nat bs"
  using be_nat_append [of "[b]" bs] be_nat_simps(2) [of "[]" b] by simp

lemma length_be_bytes [simp]: "length (be_bytes n v) = n"
  by (induction n arbitrary: v) auto

lemma unat_byte_of_nat [word_arith]: "unat (word_of_nat v :: byte) = v mod 256"
  by (simp add: unsigned_of_nat take_bit_eq_mod)

lemma be_nat_be_bytes: "be_nat (be_bytes n v) = v mod 256 ^ n"
proof (induction n arbitrary: v)
  case (Suc n)
  have "be_nat (be_bytes (Suc n) v) = (v div 256) mod 256 ^ n * 256 + v mod 256"
    by (simp add: Suc unat_byte_of_nat)
  also have "\<dots> = v mod 256 ^ Suc n"
    by (simp add: mod_mult2_eq mult.commute)
  finally show ?case .
qed simp

lemma be_nat_be_bytes_small [simp]: "v < 256 ^ n \<Longrightarrow> be_nat (be_bytes n v) = v"
  by (simp add: be_nat_be_bytes)

lemma be_nat_bound: "be_nat bs < 256 ^ length bs"
proof (induction bs rule: rev_induct)
  case (snoc b bs)
  have "be_nat bs * 256 + unat b < (be_nat bs + 1) * 256"
    by simp
  also have "\<dots> \<le> 256 ^ length bs * 256"
    using snoc by (intro mult_le_mono1) simp
  finally show ?case by simp
qed simp

lemma be_bytes_be_nat: "be_bytes (length bs) (be_nat bs) = bs"
proof (induction bs rule: rev_induct)
  case (snoc b bs)
  have "(be_nat bs * 256 + unat b) div 256 = be_nat bs"
    by (intro div_nat_eqI) simp_all
  moreover have "word_of_nat (be_nat bs * 256 + unat b) = b"
  proof (rule word_unat_eq_iff [THEN iffD2])
    show "unat (word_of_nat (be_nat bs * 256 + unat b) :: byte) = unat b"
      unfolding unat_byte_of_nat by (simp del: of_nat_add)
  qed
  ultimately show ?case using snoc by simp
qed simp

lemma be_bytes_inj: "be_bytes n v = be_bytes n w \<Longrightarrow> v < 256 ^ n \<Longrightarrow> w < 256 ^ n \<Longrightarrow> v = w"
  by (metis be_nat_be_bytes_small)

lemma be_nat_eqD: "length xs = length ys \<Longrightarrow> be_nat xs = be_nat ys \<Longrightarrow> xs = ys"
  by (metis be_bytes_be_nat)

text \<open>The accumulation of a big-endian value in a 64-bit register.\<close>

definition be_shift_in :: "u64 \<Rightarrow> byte \<Rightarrow> u64" where
  "be_shift_in r b = push_bit 8 r OR ucast b"

lemma unat_be_shift_in:
  assumes "unat r < 2 ^ 56"
  shows "unat (be_shift_in r b) = unat r * 256 + unat b"
proof -
  have "unat (ucast b :: u64) = unat b"
    by (simp add: unat_ucast_up)
  moreover have "unat r * 256 + unat b < 2 ^ 64"
  proof -
    have "unat r < 72057594037927936" using assms by simp
    then have "unat r * 256 + unat b < 18446744073709551616"
      using unat_byte_lt [of b] by linarith
    then show ?thesis by simp
  qed
  ultimately show ?thesis
    using unat_push_or [of r 8 "ucast b"] by (simp add: be_shift_in_def)
qed

lemma unat_be_fold:
  "length bs \<le> 8 \<Longrightarrow> unat (foldl be_shift_in 0 bs) = be_nat bs"
proof (induction bs rule: rev_induct)
  case (snoc b bs)
  have "be_nat bs < 256 ^ length bs" by (rule be_nat_bound)
  also have "(256 :: nat) ^ length bs \<le> 256 ^ 7"
    using snoc.prems by (intro power_increasing) simp_all
  finally have "be_nat bs < 2 ^ 56" by simp
  with snoc show ?case by (simp add: unat_be_shift_in)
qed simp

end
