(* ===== verification/Mem.thy ===== *)
theory Mem
  imports Prelude
begin

text \<open>
  Memory and C-string helpers of BoringSSL's \<open>crypto/mem.c\<close>: the size-prefixed allocator, the
  constant-time comparison, the FNV-1a hash, and the bounded string functions. A buffer is the
  list of its bytes. The C library's \<open>malloc\<close> is a parameter: a function from the requested
  size to the block it returns (its bytes are whatever was there) or \<open>None\<close> for NULL; what the
  code relies on is \<open>allocator_ok\<close>, that a block has the size asked for.
\<close>

type_synonym allocator = "nat \<Rightarrow> bytes option"

definition allocator_ok :: "allocator \<Rightarrow> bool" where
  "allocator_ok al \<longleftrightarrow> (\<forall>n blk. al n = Some blk \<longrightarrow> length blk = n)"

lemma allocator_okD: "allocator_ok al \<Longrightarrow> al n = Some blk \<Longrightarrow> length blk = n"
  by (simp add: allocator_ok_def)

text \<open>memcpy/memmove of \<open>src\<close> into the buffer at an offset, and memset.\<close>

definition mem_write :: "nat \<Rightarrow> bytes \<Rightarrow> bytes \<Rightarrow> bytes" where
  "mem_write off src buf = take off buf @ src @ drop (off + length src) buf"

lemma length_mem_write [simp]:
  "off + length src \<le> length buf \<Longrightarrow> length (mem_write off src buf) = length buf"
  by (simp add: mem_write_def)

lemma take_mem_write_same:
  "off \<le> length buf \<Longrightarrow> take (off + length src) (mem_write off src buf) = take off buf @ src"
  by (simp add: mem_write_def)

lemma take_mem_write_below:
  "n \<le> off \<Longrightarrow> off \<le> length buf \<Longrightarrow> take n (mem_write off src buf) = take n buf"
  by (simp add: mem_write_def min_def)

lemma mem_write_nil [simp]: "mem_write off [] buf = buf"
  by (simp add: mem_write_def)

lemma nth_mem_write:
  "off + length src \<le> length buf \<Longrightarrow> i < length buf \<Longrightarrow>
     mem_write off src buf ! i = (if off \<le> i \<and> i < off + length src then src ! (i - off) else buf ! i)"
  by (auto simp: mem_write_def nth_append min_def)

section \<open>Allocation\<close>

text \<open>OPENSSL_MALLOC_PREFIX is 8 bytes that hold the block's size in front of what is returned.\<close>

definition OPENSSL_MALLOC_PREFIX :: nat where
  "OPENSSL_MALLOC_PREFIX = 8"

record os_block =
  blk_size :: nat
  blk_data :: bytes

definition OPENSSL_malloc :: "allocator \<Rightarrow> nat \<Rightarrow> os_block option" where
  "OPENSSL_malloc malloc n =
     (case malloc (size_add n OPENSSL_MALLOC_PREFIX) of
        None \<Rightarrow> None
      | Some ptr \<Rightarrow> Some \<lparr>blk_size = n, blk_data = drop OPENSSL_MALLOC_PREFIX ptr\<rparr>)"

definition OPENSSL_realloc :: "allocator \<Rightarrow> os_block option \<Rightarrow> nat \<Rightarrow> os_block option" where
  "OPENSSL_realloc malloc orig new_size =
     (case orig of
        None \<Rightarrow> OPENSSL_malloc malloc new_size
      | Some p \<Rightarrow>
          (case OPENSSL_malloc malloc new_size of
             None \<Rightarrow> None
           | Some ret \<Rightarrow>
               (let to_copy = (if blk_size p < new_size then blk_size p else new_size)
                in Some (ret\<lparr>blk_data := mem_write 0 (take to_copy (blk_data p)) (blk_data ret)\<rparr>))))"

definition block_ok :: "os_block \<Rightarrow> bool" where
  "block_ok p \<longleftrightarrow> length (blk_data p) = blk_size p"

lemma OPENSSL_malloc_ok:
  assumes "allocator_ok malloc" "OPENSSL_malloc malloc n = Some p" "n + OPENSSL_MALLOC_PREFIX < size_mod"
  shows "block_ok p \<and> blk_size p = n"
  using assms by (auto simp: OPENSSL_malloc_def block_ok_def split: option.splits dest: allocator_okD)

lemma OPENSSL_realloc_ok:
  assumes al: "allocator_ok malloc" and p: "block_ok p"
    and r: "OPENSSL_realloc malloc (Some p) n = Some q" and n: "n + OPENSSL_MALLOC_PREFIX < size_mod"
  shows "block_ok q \<and> blk_size q = n \<and>
         take (min (blk_size p) n) (blk_data q) = take n (blk_data p)"
proof -
  from r obtain ret where ret: "OPENSSL_malloc malloc n = Some ret"
    and q: "q = ret\<lparr>blk_data := mem_write 0 (take (min (blk_size p) n) (blk_data p)) (blk_data ret)\<rparr>"
    by (auto simp: OPENSSL_realloc_def Let_def min_def split: option.splits if_splits)
  from OPENSSL_malloc_ok [OF al ret n] have "length (blk_data ret) = n" "blk_size ret = n"
    by (simp_all add: block_ok_def)
  with p show ?thesis
    by (auto simp: q block_ok_def mem_write_def min_def)
qed

text \<open>
  \<open>OPENSSL_malloc\<close> adds the prefix to the size without checking for overflow: for one of the
  eight largest sizes the sum wraps, the C library is asked for fewer than eight bytes, and
  the caller gets a non-NULL block with no room in it.
\<close>

lemma OPENSSL_malloc_overflow:
  assumes "allocator_ok malloc" "malloc (size_add n OPENSSL_MALLOC_PREFIX) \<noteq> None"
    "n < size_mod" "size_mod \<le> n + OPENSSL_MALLOC_PREFIX"
  shows "\<exists>p. OPENSSL_malloc malloc n = Some p \<and> blk_size p = n \<and> blk_data p = []"
proof -
  from assms(2) obtain ptr where ptr: "malloc (size_add n OPENSSL_MALLOC_PREFIX) = Some ptr" by blast
  have "n + 8 - size_mod < 8" "(n + 8) mod size_mod = n + 8 - size_mod"
    using assms(3,4) by (simp_all add: OPENSSL_MALLOC_PREFIX_def le_mod_geq size_mod_def)
  then have "length ptr < 8"
    using allocator_okD [OF assms(1) ptr] by (simp add: size_add_def OPENSSL_MALLOC_PREFIX_def)
  then show ?thesis
    using ptr by (simp add: OPENSSL_malloc_def OPENSSL_MALLOC_PREFIX_def)
qed

text \<open>\<open>OPENSSL_cleanse\<close> zeroes a buffer; \<open>OPENSSL_memdup\<close> copies one.\<close>

definition OPENSSL_cleanse :: "bytes \<Rightarrow> nat \<Rightarrow> bytes" where
  "OPENSSL_cleanse ptr len = mem_write 0 (replicate len 0) ptr"

definition OPENSSL_memdup :: "allocator \<Rightarrow> bytes \<Rightarrow> bytes option" where
  "OPENSSL_memdup alloc data =
     (if length data = 0 then None
      else case alloc (length data) of
             None \<Rightarrow> None
           | Some ret \<Rightarrow> Some (mem_write 0 data ret))"

lemma OPENSSL_memdup_eq:
  "allocator_ok al \<Longrightarrow> OPENSSL_memdup al d = Some p \<Longrightarrow> p = d"
  by (auto simp: OPENSSL_memdup_def mem_write_def split: if_splits option.splits dest: allocator_okD)

section \<open>Comparison and hashing\<close>

definition CRYPTO_memcmp :: "bytes \<Rightarrow> bytes \<Rightarrow> nat \<Rightarrow> byte" where
  "CRYPTO_memcmp a b len =
     foldl (\<lambda>x (p, q). x OR (p XOR q)) 0 (zip (take len a) (take len b))"

lemma xor_eq_0_iff [simp]: "(a :: 'a::len word) XOR b = 0 \<longleftrightarrow> a = b"
proof
  assume "a XOR b = 0"
  then have "(a XOR b) XOR b = b" by simp
  then show "a = b" by (simp add: xor.assoc)
qed simp

lemma memcmp_fold_eq_0:
  "foldl (\<lambda>x (p, q). x OR (p XOR q)) acc (zip a b) = (0 :: byte) \<longleftrightarrow>
     acc = 0 \<and> list_all2 (=) (take (min (length a) (length b)) a) (take (min (length a) (length b)) b)"
proof (induction a arbitrary: b acc)
  case (Cons p a)
  then show ?case
    by (cases b) (auto simp: or_eq_0_iff)
qed simp

lemma CRYPTO_memcmp_eq_0:
  assumes "len \<le> length a" "len \<le> length b"
  shows "CRYPTO_memcmp a b len = 0 \<longleftrightarrow> take len a = take len b"
  using assms by (simp add: CRYPTO_memcmp_def memcmp_fold_eq_0 list_all2_eq)

definition OPENSSL_hash32 :: "bytes \<Rightarrow> nat \<Rightarrow> u32" where
  "OPENSSL_hash32 ptr len = foldl (\<lambda>h b. (h XOR ucast b) * 16777619) 2166136261 (take len ptr)"

text \<open>The C library's \<open>memcmp\<close> on unsigned bytes: the difference at the first place the two
  buffers differ. Only its sign is specified.\<close>

fun OPENSSL_memcmp :: "bytes \<Rightarrow> bytes \<Rightarrow> nat \<Rightarrow> int" where
  "OPENSSL_memcmp (a # as) (b # bs) (Suc n) =
     (if a = b then OPENSSL_memcmp as bs n else uint a - uint b)"
| "OPENSSL_memcmp _ _ _ = 0"

lemma OPENSSL_memcmp_code [code]:
  "OPENSSL_memcmp xs ys n =
     (if n = 0 then 0
      else case (xs, ys) of
        (a # as, b # bs) \<Rightarrow> if a = b then OPENSSL_memcmp as bs (n - 1) else uint a - uint b
      | _ \<Rightarrow> 0)"
  by (cases n; cases xs; cases ys) auto

definition OPENSSL_memchr :: "bytes \<Rightarrow> byte \<Rightarrow> nat \<Rightarrow> nat option" where
  "OPENSSL_memchr s c n =
     (if n = 0 \<or> c \<notin> set (take n s) then None
      else Some (length (takeWhile (\<lambda>b. b \<noteq> c) s)))"

section \<open>Sorting\<close>

text \<open>The C library's \<open>qsort\<close>, here by insertion. The standard leaves the order of elements that
  compare equal open; no lemma about it says more than that the result is an ordered rearrangement.\<close>

fun qsort_insert :: "('a \<Rightarrow> 'a \<Rightarrow> int) \<Rightarrow> 'a \<Rightarrow> 'a list \<Rightarrow> 'a list" where
  "qsort_insert cmp x [] = [x]"
| "qsort_insert cmp x (y # ys) = (if cmp x y \<le> 0 then x # y # ys else y # qsort_insert cmp x ys)"

definition qsort :: "('a \<Rightarrow> 'a \<Rightarrow> int) \<Rightarrow> 'a list \<Rightarrow> 'a list" where
  "qsort cmp xs = foldr (qsort_insert cmp) xs []"

text \<open>What a comparison function has to be: a total preorder whose sign flips with its arguments.\<close>

definition comparator :: "('a \<Rightarrow> 'a \<Rightarrow> int) \<Rightarrow> bool" where
  "comparator cmp \<longleftrightarrow> (\<forall>x y. sgn (cmp y x) = - sgn (cmp x y)) \<and>
     (\<forall>x y z. cmp x y \<le> 0 \<longrightarrow> cmp y z \<le> 0 \<longrightarrow> cmp x z \<le> 0)"

lemma sgn_int_signs: "sgn (a :: int) \<le> 0 \<longleftrightarrow> a \<le> 0" "0 \<le> sgn a \<longleftrightarrow> 0 \<le> a" "sgn a < 0 \<longleftrightarrow> a < 0" "0 < sgn a \<longleftrightarrow> 0 < a" "sgn a = 0 \<longleftrightarrow> a = 0"
  by (simp_all add: sgn_if)

lemma comparator_flip:
  assumes "comparator cmp"
  shows "cmp y x \<le> 0 \<longleftrightarrow> 0 \<le> cmp x y" "cmp y x < 0 \<longleftrightarrow> 0 < cmp x y" "cmp y x = 0 \<longleftrightarrow> cmp x y = 0"
proof -
  have s: "sgn (cmp y x) = - sgn (cmp x y)" using assms unfolding comparator_def by blast
  show "cmp y x \<le> 0 \<longleftrightarrow> 0 \<le> cmp x y" using arg_cong [OF s, of "\<lambda>z. z \<le> 0"] by (simp add: sgn_int_signs)
  show "cmp y x < 0 \<longleftrightarrow> 0 < cmp x y" using arg_cong [OF s, of "\<lambda>z. z < 0"] by (simp add: sgn_int_signs)
  show "cmp y x = 0 \<longleftrightarrow> cmp x y = 0" using arg_cong [OF s, of "\<lambda>z. z = 0"] by (simp add: sgn_int_signs)
qed

lemma comparator_trans: "comparator cmp \<Longrightarrow> cmp x y \<le> 0 \<Longrightarrow> cmp y z \<le> 0 \<Longrightarrow> cmp x z \<le> 0"
  unfolding comparator_def by blast

lemma set_qsort_insert: "set (qsort_insert cmp x ys) = insert x (set ys)"
  by (induction ys) auto

lemma set_qsort [simp]: "set (qsort cmp xs) = set xs"
  by (induction xs) (simp_all add: qsort_def set_qsort_insert)

lemma length_qsort_insert: "length (qsort_insert cmp x ys) = Suc (length ys)"
  by (induction ys) auto

lemma length_qsort [simp]: "length (qsort cmp xs) = length xs"
  by (induction xs) (simp_all add: qsort_def length_qsort_insert)

lemma qsort_insert_ordered:
  assumes c: "comparator cmp"
  shows "sorted_wrt (\<lambda>a b. cmp a b \<le> 0) ys \<Longrightarrow> sorted_wrt (\<lambda>a b. cmp a b \<le> 0) (qsort_insert cmp x ys)"
proof (induction ys)
  case (Cons y ys)
  show ?case
  proof (cases "cmp x y \<le> 0")
    case True
    with Cons.prems comparator_trans [OF c True] show ?thesis by simp
  next
    case False
    then have "cmp y x \<le> 0" using comparator_flip(1) [OF c, of x y] by simp
    with False Cons show ?thesis by (simp add: set_qsort_insert)
  qed
qed simp

lemma qsort_ordered: "comparator cmp \<Longrightarrow> sorted_wrt (\<lambda>a b. cmp a b \<le> 0) (qsort cmp xs)"
  by (induction xs) (simp_all add: qsort_def qsort_insert_ordered)

section \<open>C strings\<close>

text \<open>The string a char buffer holds: its bytes before the first NUL.\<close>

definition c_str :: "bytes \<Rightarrow> bytes" where
  "c_str s = takeWhile (\<lambda>b. b \<noteq> 0) s"

definition c_strlen :: "bytes \<Rightarrow> nat" where
  "c_strlen s = length (c_str s)"

lemma c_str_no_nul: "0 \<notin> set (c_str s)"
  by (auto simp: c_str_def dest: set_takeWhileD)

lemma c_str_append_nul [simp]: "0 \<notin> set xs \<Longrightarrow> c_str (xs @ 0 # ys) = xs"
  unfolding c_str_def by (subst takeWhile_append2) auto

fun OPENSSL_strnlen :: "bytes \<Rightarrow> nat \<Rightarrow> nat" where
  "OPENSSL_strnlen (c # s) (Suc n) = (if c = 0 then 0 else Suc (OPENSSL_strnlen s n))"
| "OPENSSL_strnlen _ _ = 0"

lemma OPENSSL_strnlen_eq: "OPENSSL_strnlen s n = min n (c_strlen s)"
  by (induction s n rule: OPENSSL_strnlen.induct) (auto simp: c_strlen_def c_str_def)

definition OPENSSL_strdup :: "allocator \<Rightarrow> bytes \<Rightarrow> bytes option" where
  "OPENSSL_strdup alloc s =
     (let len = c_strlen s + 1
      in case alloc len of
           None \<Rightarrow> None
         | Some ret \<Rightarrow> Some (mem_write 0 (take len s) ret))"

definition OPENSSL_strndup :: "allocator \<Rightarrow> bytes \<Rightarrow> nat \<Rightarrow> bytes option" where
  "OPENSSL_strndup alloc str n =
     (let sz = OPENSSL_strnlen str n; alloc_size = size_add sz 1
      in if alloc_size < sz then None
         else case alloc alloc_size of
                None \<Rightarrow> None
              | Some ret \<Rightarrow> Some ((mem_write 0 (take sz str) ret)[sz := 0]))"

definition OPENSSL_tolower :: "int \<Rightarrow> int" where
  "OPENSSL_tolower c = (if 65 \<le> c \<and> c \<le> 90 then c + (97 - 65) else c)"

fun OPENSSL_strncasecmp :: "bytes \<Rightarrow> bytes \<Rightarrow> nat \<Rightarrow> int" where
  "OPENSSL_strncasecmp (a # as) (b # bs) (Suc n) =
     (let aa = OPENSSL_tolower (sint a); bb = OPENSSL_tolower (sint b)
      in if aa < bb then -1 else if aa > bb then 1 else if aa = 0 then 0
         else OPENSSL_strncasecmp as bs n)"
| "OPENSSL_strncasecmp _ _ _ = 0"

text \<open>\<open>strlcpy\<close> and \<open>strlcat\<close>: \<open>dst\<close> is the destination buffer of \<open>dst_size\<close> bytes, the
  result the returned length and the buffer afterwards.\<close>

fun strlcpy_loop :: "bytes \<Rightarrow> bytes \<Rightarrow> nat \<Rightarrow> nat \<times> bytes" where
  "strlcpy_loop (d # dst) (c # src) dst_size =
     (if dst_size > 1 \<and> c \<noteq> 0
      then (let (l, dst') = strlcpy_loop dst src (dst_size - 1) in (Suc l, c # dst'))
      else (c_strlen (c # src), if dst_size > 0 then 0 # dst else d # dst))"
| "strlcpy_loop (d # dst) [] dst_size = (0, if dst_size > 0 then 0 # dst else d # dst)"
| "strlcpy_loop [] src dst_size = (c_strlen src, [])"

definition OPENSSL_strlcpy :: "bytes \<Rightarrow> bytes \<Rightarrow> nat \<Rightarrow> nat \<times> bytes" where
  "OPENSSL_strlcpy dst src dst_size = strlcpy_loop dst src dst_size"

fun OPENSSL_strlcat :: "bytes \<Rightarrow> bytes \<Rightarrow> nat \<Rightarrow> nat \<times> bytes" where
  "OPENSSL_strlcat (d # dst) src (Suc dst_size) =
     (if d \<noteq> 0 then (let (l, dst') = OPENSSL_strlcat dst src dst_size in (Suc l, d # dst'))
      else OPENSSL_strlcpy (d # dst) src (Suc dst_size))"
| "OPENSSL_strlcat dst src dst_size = OPENSSL_strlcpy dst src dst_size"

lemma strlcpy_loop_spec:
  assumes "length dst = dst_size" "strlcpy_loop dst src dst_size = (l, dst')"
  shows "l = c_strlen src \<and> length dst' = length dst \<and>
         (0 < dst_size \<longrightarrow> take (Suc (min (dst_size - 1) (c_strlen src))) dst' =
                           take (dst_size - 1) (c_str src) @ [0])"
  using assms
proof (induction dst src dst_size arbitrary: l dst' rule: strlcpy_loop.induct)
  case (1 d dst c src n)
  show ?case
  proof (cases "n > 1 \<and> c \<noteq> 0")
    case True
    obtain l1 d1 where rec: "strlcpy_loop dst src (n - 1) = (l1, d1)"
      by (cases "strlcpy_loop dst src (n - 1)")
    with 1 True have IH: "l1 = c_strlen src" "length d1 = length dst"
      "take (Suc (min (n - 1 - 1) (c_strlen src))) d1 = take (n - 1 - 1) (c_str src) @ [0]"
      by auto
    obtain m where n: "n = Suc (Suc m)" using True by (cases n; cases "n - 1") auto
    from rec True 1 have "l = Suc l1" "dst' = c # d1" by auto
    with IH True n show ?thesis
      by (simp add: c_strlen_def c_str_def)
  next
    case False
    with 1 show ?thesis by (auto simp: c_strlen_def c_str_def)
  qed
qed (auto simp: c_strlen_def c_str_def)

lemma OPENSSL_strlcpy_spec:
  assumes "length dst = dst_size" "OPENSSL_strlcpy dst src dst_size = (l, dst')"
  shows "l = c_strlen src" "length dst' = length dst"
    "0 < dst_size \<Longrightarrow> c_str dst' = take (dst_size - 1) (c_str src)"
proof -
  note spec = strlcpy_loop_spec [OF assms [unfolded OPENSSL_strlcpy_def]]
  from spec show "l = c_strlen src" "length dst' = length dst" by auto
  assume "0 < dst_size"
  with spec have "take (Suc (min (dst_size - 1) (c_strlen src))) dst' = take (dst_size - 1) (c_str src) @ [0]"
    by blast
  then have "dst' = take (dst_size - 1) (c_str src) @ 0 # drop (Suc (min (dst_size - 1) (c_strlen src))) dst'"
    by (metis append_Cons append_Nil append_assoc append_take_drop_id)
  moreover have "0 \<notin> set (take (dst_size - 1) (c_str src))"
    using c_str_no_nul set_take_subset by fastforce
  ultimately show "c_str dst' = take (dst_size - 1) (c_str src)"
    by (metis c_str_append_nul)
qed


section \<open>Comparing C strings\<close>

text \<open>The C library's \<open>strcmp\<close>: the strings with their terminators.\<close>

definition c_strcmp :: "bytes \<Rightarrow> bytes \<Rightarrow> int" where
  "c_strcmp a b = OPENSSL_memcmp (c_str a @ [0]) (c_str b @ [0]) (min (c_strlen a) (c_strlen b) + 1)"

lemma OPENSSL_memcmp_eq_0:
  "n \<le> length a \<Longrightarrow> n \<le> length b \<Longrightarrow> OPENSSL_memcmp a b n = 0 \<longleftrightarrow> take n a = take n b"
  by (induction a b n rule: OPENSSL_memcmp.induct) (auto dest: word_uint_eq_iff [THEN iffD2])

lemma c_strcmp_eq_0: "c_strcmp a b = 0 \<longleftrightarrow> c_str a = c_str b"
proof -
  define x y where "x = c_str a" and "y = c_str b"
  have nul: "0 \<notin> set x" "0 \<notin> set y" by (simp_all add: x_def y_def c_str_no_nul)
  have "c_strcmp a b = 0 \<longleftrightarrow>
      take (min (length x) (length y) + 1) (x @ [0]) = take (min (length x) (length y) + 1) (y @ [0])"
    unfolding c_strcmp_def c_strlen_def x_def y_def by (rule OPENSSL_memcmp_eq_0) simp_all
  also have "\<dots> \<longleftrightarrow> x = y"
  proof
    assume eq: "take (min (length x) (length y) + 1) (x @ [0]) = take (min (length x) (length y) + 1) (y @ [0])"
    show "x = y"
    proof (cases "length x" "length y" rule: linorder_cases)
      case less
      with eq have "x @ [0] = take (Suc (length x)) y" by simp
      then have "0 \<in> set y" by (metis in_set_conv_decomp in_set_takeD)
      with nul show ?thesis by simp
    next
      case greater
      with eq have "take (Suc (length y)) x = y @ [0]" by simp
      then have "0 \<in> set x" by (metis in_set_conv_decomp in_set_takeD)
      with nul show ?thesis by simp
    next
      case equal
      with eq show ?thesis by simp
    qed
  qed simp
  finally show ?thesis by (simp add: x_def y_def)
qed

end
