(* ===== verification/Stack.thy ===== *)
theory Stack
  imports Mem "HOL-Library.Code_Target_Nat"
begin

text \<open>
  The array of pointers under every list of certificates, extensions and names in BoringSSL,
  \<open>crypto/stack/stack.c\<close>: growth by doubling, insertion and deletion by moving the tail, sorting, and a search
  that is linear or binary depending on a flag. A pointer is its address, 0 being \<open>NULL\<close>; so is a comparison
  function, and \<open>call_cmp\<close> says what calling one returns. The cells of \<open>data\<close> behind \<open>num\<close> are kept.
\<close>

section \<open>The code\<close>

type_synonym ptr = nat
type_synonym stack_cmp_func = nat
type_synonym call_cmp_func = "stack_cmp_func \<Rightarrow> ptr \<Rightarrow> ptr \<Rightarrow> int"

record stack =
  st_num :: nat
  st_data :: "ptr list"
  st_sorted :: bool
  st_num_alloc :: nat
  st_comp :: stack_cmp_func

definition kMinSize :: nat where "kMinSize = 4"

text \<open>What the allocator answers to a request of so many bytes: \<open>NULL\<close> or a block of cells.\<close>

type_synonym cell_mem = "nat \<Rightarrow> ptr list option"

definition cell_mem_ok :: "cell_mem \<Rightarrow> bool" where
  "cell_mem_ok m \<longleftrightarrow> (\<forall>n cells. m n = Some cells \<longrightarrow> length cells = n div 8)"

definition realloc_cells :: "cell_mem \<Rightarrow> ptr list \<Rightarrow> nat \<Rightarrow> ptr list option" where
  "realloc_cells m data bytes =
     (case m bytes of None \<Rightarrow> None
      | Some cells \<Rightarrow> Some (take (length cells) data @ drop (length data) cells))"

definition memmove_cells :: "ptr list \<Rightarrow> nat \<Rightarrow> nat \<Rightarrow> nat \<Rightarrow> ptr list" where
  "memmove_cells data dst src n = take dst data @ take n (drop src data) @ drop (dst + n) data"

text \<open>\<open>struct_mem\<close>: whether the allocation of the \<open>_STACK\<close> itself succeeds.\<close>

definition sk_new :: "bool \<Rightarrow> cell_mem \<Rightarrow> stack_cmp_func \<Rightarrow> stack option" where
  "sk_new struct_mem m cmp =
     (if \<not> struct_mem then None
      else case m (8 * kMinSize) of None \<Rightarrow> None
        | Some cells \<Rightarrow>
            Some \<lparr>st_num = 0, st_data = replicate kMinSize 0 @ drop kMinSize cells, st_sorted = False,
                  st_num_alloc = kMinSize, st_comp = cmp\<rparr>)"

definition sk_new_null :: "bool \<Rightarrow> cell_mem \<Rightarrow> stack option" where
  "sk_new_null struct_mem m = sk_new struct_mem m 0"

definition sk_num :: "stack option \<Rightarrow> nat" where
  "sk_num sk = (case sk of None \<Rightarrow> 0 | Some sk \<Rightarrow> st_num sk)"

definition sk_zero :: "stack option \<Rightarrow> stack option" where
  "sk_zero sk = (case sk of None \<Rightarrow> None
     | Some sk \<Rightarrow>
         if st_num sk = 0 then Some sk
         else Some (sk\<lparr>st_data := replicate (st_num sk) 0 @ drop (st_num sk) (st_data sk),
                       st_num := 0, st_sorted := False\<rparr>))"

definition sk_value :: "stack option \<Rightarrow> nat \<Rightarrow> ptr" where
  "sk_value sk i = (case sk of None \<Rightarrow> 0
     | Some sk \<Rightarrow> if i \<ge> st_num sk then 0 else st_data sk ! i)"

definition sk_set :: "stack option \<Rightarrow> nat \<Rightarrow> ptr \<Rightarrow> ptr \<times> stack option" where
  "sk_set sk i p = (case sk of None \<Rightarrow> (0, None)
     | Some sk \<Rightarrow> if i \<ge> st_num sk then (0, Some sk)
                 else (p, Some (sk\<lparr>st_data := (st_data sk)[i := p]\<rparr>)))"

text \<open>The pointers handed to the user's \<open>free\<close>, in order.\<close>

definition sk_pop_free_ex :: "stack option \<Rightarrow> ptr list" where
  "sk_pop_free_ex sk = (case sk of None \<Rightarrow> []
     | Some sk \<Rightarrow> filter (\<lambda>p. p \<noteq> 0) (map (\<lambda>i. st_data sk ! i) [0..<st_num sk]))"

definition sk_grow :: "cell_mem \<Rightarrow> stack \<Rightarrow> stack option" where
  "sk_grow m sk =
     (if st_num_alloc sk \<le> size_add (st_num sk) 1 then
        let new_alloc = size_mult (st_num_alloc sk) 2;
            alloc_size = size_mult new_alloc 8;
            overflow = new_alloc < st_num_alloc sk \<or> alloc_size div 8 \<noteq> new_alloc;
            new_alloc = (if overflow then size_add (st_num_alloc sk) 1 else new_alloc);
            alloc_size = (if overflow then size_mult new_alloc 8 else alloc_size)
        in if new_alloc < st_num_alloc sk \<or> alloc_size div 8 \<noteq> new_alloc then None
           else case realloc_cells m (st_data sk) alloc_size of None \<Rightarrow> None
             | Some data \<Rightarrow> Some (sk\<lparr>st_data := data, st_num_alloc := new_alloc\<rparr>)
      else Some sk)"

definition sk_insert :: "cell_mem \<Rightarrow> stack option \<Rightarrow> ptr \<Rightarrow> nat \<Rightarrow> nat \<times> stack option" where
  "sk_insert m sk p i = (case sk of None \<Rightarrow> (0, None)
     | Some sk0 \<Rightarrow> (case sk_grow m sk0 of None \<Rightarrow> (0, Some sk0)
         | Some sk \<Rightarrow>
             let data = (if i \<ge> st_num sk then (st_data sk)[st_num sk := p]
                         else (memmove_cells (st_data sk) (i + 1) i (st_num sk - i))[i := p]);
                 num = size_add (st_num sk) 1
             in (num, Some (sk\<lparr>st_data := data, st_num := num, st_sorted := False\<rparr>))))"

definition sk_delete :: "stack option \<Rightarrow> nat \<Rightarrow> ptr \<times> stack option" where
  "sk_delete sk i = (case sk of None \<Rightarrow> (0, None)
     | Some sk \<Rightarrow>
         if i \<ge> st_num sk then (0, Some sk)
         else
           let ret = st_data sk ! i;
               data = (if i \<noteq> st_num sk - 1
                       then memmove_cells (st_data sk) i (i + 1) (st_num sk - i - 1) else st_data sk)
           in (ret, Some (sk\<lparr>st_data := data, st_num := st_num sk - 1\<rparr>)))"

text \<open>The loops \<open>for (size_t i = 0; i < sk->num; i++)\<close> that look for an element.\<close>

function find_loop :: "(ptr \<Rightarrow> bool) \<Rightarrow> ptr list \<Rightarrow> nat \<Rightarrow> nat \<Rightarrow> nat option" where
  "find_loop P data i n =
     (if i < n then if P (data ! i) then Some i else find_loop P data (i + 1) n else None)"
  by pat_completeness auto
termination by (relation "measure (\<lambda>(P, data, i, n). n - i)") auto

declare find_loop.simps [simp del]

definition sk_delete_ptr :: "stack option \<Rightarrow> ptr \<Rightarrow> ptr \<times> stack option" where
  "sk_delete_ptr sk p = (case sk of None \<Rightarrow> (0, None)
     | Some s \<Rightarrow> (case find_loop (\<lambda>x. x = p) (st_data s) 0 (st_num s) of
           Some i \<Rightarrow> sk_delete sk i
         | None \<Rightarrow> (0, sk)))"

definition sk_is_sorted :: "stack option \<Rightarrow> bool" where
  "sk_is_sorted sk = (case sk of None \<Rightarrow> True | Some sk \<Rightarrow> st_sorted sk)"

function binary_search :: "(ptr \<Rightarrow> int) \<Rightarrow> ptr list \<Rightarrow> nat \<Rightarrow> nat \<Rightarrow> nat option" where
  "binary_search cmp data lo hi =
     (if lo < hi then
        let mid = lo + (hi - lo - 1) div 2; r = cmp (data ! mid)
        in if r > 0 then binary_search cmp data (mid + 1) hi
           else if r < 0 then binary_search cmp data lo mid
           else if hi - lo = 1 then Some mid
           else binary_search cmp data lo (mid + 1)
      else None)"
  by pat_completeness auto
termination by (relation "measure (\<lambda>(cmp, data, lo, hi). hi - lo)") auto

declare binary_search.simps [simp del]

text \<open>\<open>sk_find\<close> returns the index when the C function returns 1 and writes \<open>*out_index\<close>.\<close>

definition sk_find :: "call_cmp_func \<Rightarrow> stack option \<Rightarrow> ptr \<Rightarrow> nat option" where
  "sk_find call_cmp sk p = (case sk of None \<Rightarrow> None
     | Some s \<Rightarrow>
         if st_comp s = 0 then find_loop (\<lambda>x. x = p) (st_data s) 0 (st_num s)
         else if p = 0 then None
         else if \<not> sk_is_sorted sk
              then find_loop (\<lambda>elem. call_cmp (st_comp s) p elem = 0) (st_data s) 0 (st_num s)
         else binary_search (call_cmp (st_comp s) p) (st_data s) 0 (st_num s))"

definition sk_shift :: "stack option \<Rightarrow> ptr \<times> stack option" where
  "sk_shift sk = (case sk of None \<Rightarrow> (0, None)
     | Some s \<Rightarrow> if st_num s = 0 then (0, sk) else sk_delete sk 0)"

text \<open>\<open>sk_push\<close> and \<open>sk_set_cmp_func\<close> read their stack without the test for \<open>NULL\<close> of the other operations.\<close>

definition sk_push :: "cell_mem \<Rightarrow> stack \<Rightarrow> ptr \<Rightarrow> nat \<times> stack option" where
  "sk_push m sk p = sk_insert m (Some sk) p (st_num sk)"

definition sk_pop :: "stack option \<Rightarrow> ptr \<times> stack option" where
  "sk_pop sk = (case sk of None \<Rightarrow> (0, None)
     | Some s \<Rightarrow> if st_num s = 0 then (0, sk) else sk_delete sk (st_num s - 1))"

text \<open>\<open>m2\<close> answers the second allocation, the \<open>realloc\<close>.\<close>

definition sk_dup :: "bool \<Rightarrow> cell_mem \<Rightarrow> cell_mem \<Rightarrow> stack option \<Rightarrow> stack option" where
  "sk_dup struct_mem m m2 sk = (case sk of None \<Rightarrow> None
     | Some sk \<Rightarrow> (case sk_new struct_mem m (st_comp sk) of None \<Rightarrow> None
         | Some ret \<Rightarrow> (case realloc_cells m2 (st_data ret) (size_mult 8 (st_num_alloc sk)) of None \<Rightarrow> None
             | Some s \<Rightarrow>
                 Some (ret\<lparr>st_data := take (st_num sk) (st_data sk) @ drop (st_num sk) s,
                           st_num := st_num sk, st_sorted := st_sorted sk,
                           st_num_alloc := st_num_alloc sk, st_comp := st_comp sk\<rparr>))))"

definition sk_sort :: "call_cmp_func \<Rightarrow> stack option \<Rightarrow> stack option" where
  "sk_sort call_cmp sk = (case sk of None \<Rightarrow> None
     | Some s \<Rightarrow>
         if st_comp s = 0 \<or> st_sorted s then sk
         else
           let data = (if st_num s \<ge> 2
                       then qsort (call_cmp (st_comp s)) (take (st_num s) (st_data s)) @ drop (st_num s) (st_data s)
                       else st_data s)
           in Some (s\<lparr>st_data := data, st_sorted := True\<rparr>))"

definition sk_set_cmp_func :: "stack \<Rightarrow> stack_cmp_func \<Rightarrow> stack_cmp_func \<times> stack" where
  "sk_set_cmp_func sk cmp =
     (let old = st_comp sk; s = (if st_comp sk \<noteq> cmp then sk\<lparr>st_sorted := False\<rparr> else sk)
      in (old, s\<lparr>st_comp := cmp\<rparr>))"

text \<open>\<open>copy i p\<close> is what the user's function returns when it is called for entry \<open>i\<close>. The loop returns the
  data, or the copies it handed to \<open>free\<close> when a call returned \<open>NULL\<close>.\<close>

function deep_copy_loop :: "(nat \<Rightarrow> ptr \<Rightarrow> ptr) \<Rightarrow> ptr list \<Rightarrow> nat \<Rightarrow> nat \<Rightarrow> ptr list + ptr list" where
  "deep_copy_loop copy data i n =
     (if i < n then
        if data ! i = 0 then deep_copy_loop copy data (i + 1) n
        else
          let data = data[i := copy i (data ! i)]
          in if data ! i = 0 then Inl (filter (\<lambda>p. p \<noteq> 0) (take i data))
             else deep_copy_loop copy data (i + 1) n
      else Inr data)"
  by pat_completeness auto
termination by (relation "measure (\<lambda>(copy, data, i, n). n - i)") auto

declare deep_copy_loop.simps [simp del]

definition sk_deep_copy ::
  "bool \<Rightarrow> cell_mem \<Rightarrow> cell_mem \<Rightarrow> (nat \<Rightarrow> ptr \<Rightarrow> ptr) \<Rightarrow> stack option \<Rightarrow> stack option \<times> ptr list" where
  "sk_deep_copy struct_mem m m2 copy sk =
     (case sk_dup struct_mem m m2 sk of None \<Rightarrow> (None, [])
      | Some ret \<Rightarrow> (case deep_copy_loop copy (st_data ret) 0 (st_num ret) of
            Inl freed \<Rightarrow> (None, freed)
          | Inr data \<Rightarrow> (Some (ret\<lparr>st_data := data\<rparr>), [])))"


section \<open>The list a stack holds\<close>

definition elems :: "stack \<Rightarrow> ptr list" where
  "elems s = take (st_num s) (st_data s)"

definition stack_ok :: "stack \<Rightarrow> bool" where
  "stack_ok s \<longleftrightarrow> st_num s \<le> st_num_alloc s \<and> length (st_data s) = st_num_alloc s \<and>
     0 < st_num_alloc s \<and> 8 * st_num_alloc s < size_mod"

text \<open>What the flag promises.\<close>

definition flag_ok :: "call_cmp_func \<Rightarrow> stack \<Rightarrow> bool" where
  "flag_ok cc s \<longleftrightarrow> (st_sorted s \<longrightarrow> st_comp s \<noteq> 0 \<and> sorted_wrt (\<lambda>a b. cc (st_comp s) a b \<le> 0) (elems s))"

lemma length_elems [simp]: "stack_ok s \<Longrightarrow> length (elems s) = st_num s"
  by (simp add: elems_def stack_ok_def)

lemma nth_elems [simp]: "i < st_num s \<Longrightarrow> elems s ! i = st_data s ! i"
  by (simp add: elems_def)

lemma stack_ok_num: "stack_ok s \<Longrightarrow> Suc (st_num s) < size_mod"
  by (simp add: stack_ok_def)

text \<open>An operation takes a stack to another one that is well formed and holds the list \<open>xs\<close>.\<close>

definition becomes :: "stack \<Rightarrow> ptr list \<Rightarrow> stack_cmp_func \<Rightarrow> bool" where
  "becomes s xs c \<longleftrightarrow> stack_ok s \<and> elems s = xs \<and> st_comp s = c"

lemma sk_new_becomes:
  assumes "cell_mem_ok m" "sk_new b m c = Some s"
  shows "becomes s [] c \<and> \<not> st_sorted s"
proof -
  from assms(2) obtain cells where "m (8 * kMinSize) = Some cells"
    "s = \<lparr>st_num = 0, st_data = replicate kMinSize 0 @ drop kMinSize cells, st_sorted = False,
                  st_num_alloc = kMinSize, st_comp = c\<rparr>"
    by (auto simp: sk_new_def split: if_splits option.splits)
  with assms(1) show ?thesis
    by (simp add: becomes_def stack_ok_def elems_def cell_mem_ok_def kMinSize_def size_mod_def)
qed

lemma realloc_cells_spec:
  assumes "cell_mem_ok m" "realloc_cells m data n = Some data'" "length data \<le> n div 8"
  shows "length data' = n div 8 \<and> take (length data) data' = data"
  using assms by (auto simp: realloc_cells_def cell_mem_ok_def split: option.splits)

lemma sk_grow_spec:
  assumes ok: "stack_ok s" and m: "cell_mem_ok m" and run: "sk_grow m s = Some s'"
  shows "stack_ok s' \<and> st_num s' < st_num_alloc s' \<and> st_num s' = st_num s \<and> elems s' = elems s \<and>
    st_comp s' = st_comp s"
proof (cases "st_num_alloc s \<le> size_add (st_num s) 1")
  case False
  with run stack_ok_num [OF ok] ok show ?thesis by (simp add: sk_grow_def)
next
  case True
  let ?a = "st_num_alloc s"
  have a: "0 < ?a" "8 * ?a < size_mod" "length (st_data s) = ?a" "st_num s \<le> ?a" using ok by (simp_all add: stack_ok_def)
  then have "size_mult ?a 2 = 2 * ?a" "size_add ?a 1 = ?a + 1" by (simp_all add: mult.commute size_mod_def)
  moreover define n where "n = (if size_mult (2 * ?a) 8 div 8 \<noteq> 2 * ?a then ?a + 1 else 2 * ?a)"
  ultimately have n: "?a < n" "size_mult n 8 div 8 = n"
    and "\<exists>data. realloc_cells m (st_data s) (size_mult n 8) = Some data \<and> s' = s\<lparr>st_data := data, st_num_alloc := n\<rparr>"
    using run True a(1) by (auto simp: sk_grow_def Let_def split: if_splits option.splits)
  then obtain data where d: "realloc_cells m (st_data s) (size_mult n 8) = Some data"
    and s': "s' = s\<lparr>st_data := data, st_num_alloc := n\<rparr>" by blast
  have "size_mult n 8 < size_mod" by (simp add: size_mult_def)
  then have "8 * n < size_mod" using n(2) by linarith
  moreover have "length data = n \<and> take ?a data = st_data s"
    using realloc_cells_spec [OF m d] n a(3) by simp
  moreover have "take (st_num s) (take ?a data) = take (st_num s) data" using a(4) by (simp add: min_absorb1)
  ultimately show ?thesis using n(1) a(4) s' by (simp add: stack_ok_def elems_def)
qed

lemma sk_insert_becomes:
  assumes ok: "stack_ok s" and m: "cell_mem_ok m" and run: "sk_insert m (Some s) p i = (r, s')"
  shows "r = 0 \<and> s' = Some s \<or>
    (\<exists>t. s' = Some t \<and> r = Suc (st_num s) \<and> \<not> st_sorted t \<and>
       becomes t (take i (elems s) @ p # drop i (elems s)) (st_comp s))"
proof (cases "sk_grow m s")
  case (Some g)
  note g = sk_grow_spec [OF ok m Some]
  let ?n = "st_num s"
  define data where "data = (if i \<ge> ?n then (st_data g)[?n := p]
    else (memmove_cells (st_data g) (i + 1) i (?n - i))[i := p])"
  have len: "length (st_data g) = st_num_alloc g" using g by (simp add: stack_ok_def)
  have e: "elems s = take ?n (st_data g)" using g unfolding elems_def by metis
  have d: "length data = st_num_alloc g \<and> take (Suc ?n) data = take i (elems s) @ p # drop i (elems s)"
  proof (cases "i \<ge> ?n")
    case True
    then show ?thesis using g len by (simp add: data_def e take_Suc_conv_app_nth)
  next
    case False
    then have "data = take i (st_data g) @ p # take (?n - i) (drop i (st_data g)) @ drop (Suc ?n) (st_data g)"
      using g len by (simp add: data_def memmove_cells_def take_Suc_conv_app_nth list_update_append)
    moreover have "min (st_num_alloc g - i) (?n - i) = ?n - i" using g by linarith
    ultimately show ?thesis using False g len by (simp add: e drop_take Suc_diff_le)
  qed
  have "size_add ?n 1 = Suc ?n" using stack_ok_num [OF ok] by simp
  with run Some g have "r = Suc ?n" "s' = Some (g\<lparr>st_data := data, st_num := Suc ?n, st_sorted := False\<rparr>)"
    by (auto simp: sk_insert_def Let_def data_def)
  then show ?thesis using d g by (simp add: becomes_def stack_ok_def elems_def)
qed (use run in \<open>simp add: sk_insert_def\<close>)

lemma sk_delete_becomes:
  assumes ok: "stack_ok s" and i: "i < st_num s"
  shows "\<exists>t. sk_delete (Some s) i = (elems s ! i, Some t) \<and> st_sorted t = st_sorted s \<and>
    becomes t (take i (elems s) @ drop (Suc i) (elems s)) (st_comp s)"
proof -
  let ?n = "st_num s"
  define data where "data = (if i \<noteq> ?n - 1 then memmove_cells (st_data s) i (i + 1) (?n - i - 1) else st_data s)"
  have len: "length (st_data s) = st_num_alloc s" "?n \<le> st_num_alloc s" using ok by (simp_all add: stack_ok_def)
  have "length data = st_num_alloc s \<and> take (?n - 1) data = take i (elems s) @ drop (Suc i) (elems s)"
  proof (cases "i = ?n - 1")
    case True
    with i len show ?thesis by (simp add: data_def elems_def min_absorb1)
  next
    case False
    with i have "min (?n - 1) i = i" "min (length (st_data s)) i = i" "?n - Suc 0 - i = ?n - Suc i" using len by simp_all
    with False i len show ?thesis by (simp add: data_def elems_def memmove_cells_def drop_take min_absorb2)
  qed
  moreover have "?n - 1 \<le> st_num_alloc s" using len by simp
  moreover have "sk_delete (Some s) i = (elems s ! i, Some (s\<lparr>st_data := data, st_num := ?n - 1\<rparr>))"
    using i unfolding sk_delete_def data_def by (simp add: Let_def)
  ultimately show ?thesis using ok by (simp add: becomes_def stack_ok_def elems_def)
qed

lemma sk_delete_out: "\<not> i < st_num s \<Longrightarrow> sk_delete (Some s) i = (0, Some s)"
  by (simp add: sk_delete_def)


lemma sk_zero_becomes:
  "stack_ok s \<Longrightarrow> \<exists>t. sk_zero (Some s) = Some t \<and> (st_sorted t \<longrightarrow> st_sorted s) \<and> becomes t [] (st_comp s)"
  by (simp add: sk_zero_def becomes_def stack_ok_def elems_def)

lemma sk_sort_becomes:
  assumes "stack_ok s" "st_comp s \<noteq> 0" "\<not> st_sorted s"
  shows "\<exists>t. sk_sort cc (Some s) = Some t \<and> becomes t (qsort (cc (st_comp s)) (elems s)) (st_comp s)"
proof -
  have "qsort cmp xs = xs" if "length xs < 2" for cmp and xs :: "ptr list"
    using that by (cases xs) (auto simp: qsort_def)
  with assms show ?thesis by (auto simp: sk_sort_def Let_def becomes_def stack_ok_def elems_def)
qed

lemma sk_set_cmp_func_becomes:
  assumes "stack_ok s"
  shows "\<exists>t. sk_set_cmp_func s c = (st_comp s, t) \<and> becomes t (elems s) c \<and>
    st_sorted t = (st_sorted s \<and> st_comp s = c)"
  using assms by (simp add: sk_set_cmp_func_def Let_def becomes_def stack_ok_def elems_def)

lemma sk_dup_becomes:
  assumes ok: "stack_ok s" and m: "cell_mem_ok m" "cell_mem_ok m2" and run: "sk_dup b m m2 (Some s) = Some t"
  shows "becomes t (elems s) (st_comp s) \<and> st_sorted t = st_sorted s"
proof -
  from run obtain r d where r: "sk_new b m (st_comp s) = Some r"
    and d: "realloc_cells m2 (st_data r) (size_mult 8 (st_num_alloc s)) = Some d"
    and t: "t = r\<lparr>st_data := take (st_num s) (st_data s) @ drop (st_num s) d, st_num := st_num s,
      st_sorted := st_sorted s, st_num_alloc := st_num_alloc s, st_comp := st_comp s\<rparr>"
    by (auto simp: sk_dup_def split: option.splits)
  have "size_mult 8 (st_num_alloc s) = 8 * st_num_alloc s" using ok by (simp add: stack_ok_def)
  with d m(2) have "length d = st_num_alloc s"
    by (auto simp: realloc_cells_def cell_mem_ok_def split: option.splits)
  with t ok show ?thesis by (simp add: becomes_def stack_ok_def elems_def)
qed

section \<open>Searching\<close>

primrec first_index :: "('a \<Rightarrow> bool) \<Rightarrow> 'a list \<Rightarrow> nat option" where
  "first_index P [] = None"
| "first_index P (x # xs) = (if P x then Some 0 else map_option Suc (first_index P xs))"

lemma first_index_None: "first_index P xs = None \<longleftrightarrow> (\<forall>x\<in>set xs. \<not> P x)"
  by (induction xs) auto

lemma first_index_Some:
  "first_index P xs = Some k \<longleftrightarrow> k < length xs \<and> P (xs ! k) \<and> (\<forall>j<k. \<not> P (xs ! j))"
proof (induction xs arbitrary: k)
  case (Cons x xs)
  show ?case
  proof (cases k)
    case (Suc n)
    then show ?thesis using Cons [of n] by (auto simp: All_less_Suc2)
  qed auto
qed simp

lemma find_loop_first:
  "n \<le> length data \<Longrightarrow> i \<le> n \<Longrightarrow>
   find_loop P data i n = map_option (\<lambda>k. i + k) (first_index P (drop i (take n data)))"
proof (induction P data i n rule: find_loop.induct)
  case (1 P data i n)
  show ?case
  proof (cases "i < n")
    case True
    then have "drop i (take n data) = data ! i # drop (Suc i) (take n data)"
      using 1(2) by (simp add: Cons_nth_drop_Suc [symmetric])
    with True 1 show ?thesis
      by (subst find_loop.simps) (cases "first_index P (drop (Suc i) (take n data))", auto)
  next
    case False
    with 1 show ?thesis by (subst find_loop.simps) simp
  qed
qed

lemma find_loop_elems: "stack_ok s \<Longrightarrow> find_loop P (st_data s) 0 (st_num s) = first_index P (elems s)"
  by (simp add: find_loop_first elems_def stack_ok_def option.map_ident)

text \<open>The binary search: before \<open>lo\<close> everything compares less, and if anything matches, something between \<open>lo\<close>
  and \<open>hi\<close> does.\<close>

definition window :: "(ptr \<Rightarrow> int) \<Rightarrow> ptr list \<Rightarrow> nat \<Rightarrow> nat \<Rightarrow> nat \<Rightarrow> bool" where
  "window f xs n lo hi \<longleftrightarrow> hi \<le> n \<and> (\<forall>i<lo. 0 < f (xs ! i)) \<and>
     (\<forall>i<n. f (xs ! i) = 0 \<longrightarrow> (\<exists>j. lo \<le> j \<and> j < hi \<and> f (xs ! j) = 0))"

definition earliest :: "(ptr \<Rightarrow> int) \<Rightarrow> ptr list \<Rightarrow> nat \<Rightarrow> nat option \<Rightarrow> bool" where
  "earliest f xs n r \<longleftrightarrow> (case r of None \<Rightarrow> \<forall>i<n. f (xs ! i) \<noteq> 0
     | Some k \<Rightarrow> k < n \<and> f (xs ! k) = 0 \<and> (\<forall>j<k. f (xs ! j) \<noteq> 0))"

definition descends :: "(ptr \<Rightarrow> int) \<Rightarrow> ptr list \<Rightarrow> nat \<Rightarrow> bool" where
  "descends f xs n \<longleftrightarrow> (\<forall>i j. i \<le> j \<longrightarrow> j < n \<longrightarrow> sgn (f (xs ! j)) \<le> sgn (f (xs ! i)))"

lemma descendsD:
  assumes "descends f xs n" "i \<le> j" "j < n"
  shows "0 < f (xs ! j) \<Longrightarrow> 0 < f (xs ! i)" "f (xs ! i) < 0 \<Longrightarrow> f (xs ! j) < 0"
proof -
  have "sgn (f (xs ! j)) \<le> sgn (f (xs ! i))" using assms unfolding descends_def by blast
  then show "0 < f (xs ! j) \<Longrightarrow> 0 < f (xs ! i)" "f (xs ! i) < 0 \<Longrightarrow> f (xs ! j) < 0"
    by (simp_all add: sgn_if split: if_splits)
qed

lemma window_right:
  assumes "descends f xs n" "window f xs n lo hi" "mid < hi" "0 < f (xs ! mid)"
  shows "window f xs n (mid + 1) hi"
proof -
  have below: "0 < f (xs ! i)" if "i < mid + 1" for i
    using descendsD(1) [OF assms(1), of i mid] assms that by (simp add: window_def)
  moreover have "\<exists>j. mid + 1 \<le> j \<and> j < hi \<and> f (xs ! j) = 0" if "i < n" "f (xs ! i) = 0" for i
  proof -
    from assms(2) that obtain j where j: "j < hi" "f (xs ! j) = 0" unfolding window_def by blast
    with below [of j] have "mid + 1 \<le> j" by (cases "j < mid + 1") simp_all
    with j show ?thesis by blast
  qed
  ultimately show ?thesis using assms(2) by (simp add: window_def)
qed

lemma window_left:
  assumes "descends f xs n" "window f xs n lo hi" "lo \<le> mid" "mid < hi" "f (xs ! mid) < 0"
  shows "window f xs n lo mid"
proof -
  have "\<exists>j. lo \<le> j \<and> j < mid \<and> f (xs ! j) = 0" if "i < n" "f (xs ! i) = 0" for i
  proof -
    from assms(2) that obtain j where j: "lo \<le> j" "j < hi" "f (xs ! j) = 0" unfolding window_def by blast
    moreover have "f (xs ! j) < 0" if "mid \<le> j"
      using descendsD(2) [OF assms(1) that _ assms(5)] j assms(2) by (simp add: window_def)
    ultimately have "j < mid" by (cases "mid \<le> j") simp_all
    with j show ?thesis by blast
  qed
  with assms(2,4) show ?thesis by (simp add: window_def)
qed

lemma window_match: "window f xs n lo hi \<Longrightarrow> lo \<le> mid \<Longrightarrow> mid < hi \<Longrightarrow> f (xs ! mid) = 0 \<Longrightarrow> window f xs n lo (mid + 1)"
  by (auto simp: window_def intro!: exI [of _ mid])

lemma binary_search_earliest:
  assumes "descends f xs n" "window f xs n lo hi"
  shows "earliest f xs n (binary_search f xs lo hi)"
  using assms(2)
proof (induction "hi - lo" arbitrary: lo hi rule: less_induct)
  case less
  show ?case
  proof (cases "lo < hi")
    case False
    with less.prems show ?thesis by (subst binary_search.simps) (auto simp: window_def earliest_def)
  next
    case True
    define mid where "mid = lo + (hi - lo - 1) div 2"
    have m: "lo \<le> mid" "mid < hi" "hi - lo \<noteq> 1 \<Longrightarrow> mid + 1 < hi" using True by (auto simp: mid_def)
    note step = binary_search.simps [of f xs lo hi, unfolded if_P [OF True] mid_def [symmetric] Let_def]
    consider (low) "0 < f (xs ! mid)" | (high) "f (xs ! mid) < 0" | (hit) "f (xs ! mid) = 0" "hi - lo = 1"
      | (near) "f (xs ! mid) = 0" "hi - lo \<noteq> 1" by linarith
    then show ?thesis
    proof cases
      case low
      with less.hyps [OF _ window_right [OF assms(1) less.prems m(2) low]] m show ?thesis by (simp add: step)
    next
      case high
      with less.hyps [OF _ window_left [OF assms(1) less.prems m(1,2) high]] m show ?thesis by (simp add: step)
    next
      case hit
      with m less.prems have "mid = lo" by linarith
      with hit less.prems m show ?thesis by (auto simp: step earliest_def window_def)
    next
      case near
      with less.hyps [OF _ window_match [OF less.prems m(1,2)]] m show ?thesis by (simp add: step)
    qed
  qed
qed

lemma earliest_first_index:
  assumes "earliest f xs n r" "n \<le> length xs"
  shows "r = first_index (\<lambda>x. f x = 0) (take n xs)"
proof (cases r)
  case None
  with assms show ?thesis by (auto simp: earliest_def first_index_None in_set_conv_nth eq_commute [of None])
next
  case (Some k)
  with assms show ?thesis by (auto simp: earliest_def first_index_Some eq_commute [of "Some k"])
qed

lemma ordered_descends:
  assumes c: "comparator cmp" and s: "sorted_wrt (\<lambda>a b. cmp a b \<le> 0) (take n xs)" and n: "n \<le> length xs"
  shows "descends (cmp p) xs n"
  unfolding descends_def
proof (intro allI impI)
  fix i j assume ij: "i \<le> j" "j < n"
  show "sgn (cmp p (xs ! j)) \<le> sgn (cmp p (xs ! i))"
  proof (cases "i = j")
    case False
    with s n ij have le: "cmp (xs ! i) (xs ! j) \<le> 0" by (auto simp: sorted_wrt_iff_nth_less)
    have "cmp p (xs ! i) \<le> 0 \<Longrightarrow> cmp p (xs ! j) \<le> 0" using comparator_trans [OF c _ le] by blast
    moreover have "0 \<le> cmp p (xs ! j) \<Longrightarrow> 0 \<le> cmp p (xs ! i)"
      using comparator_trans [OF c le, of p] comparator_flip(1) [OF c, where x = p] by blast
    ultimately show ?thesis by (auto simp: sgn_if less_le)
  qed simp
qed

text \<open>On an array that its comparison function orders, the binary search of \<open>sk_find\<close> returns exactly what a
  linear scan for the first match would, duplicates included.\<close>

lemma binary_search_is_linear:
  assumes "comparator cmp" "sorted_wrt (\<lambda>a b. cmp a b \<le> 0) (take n xs)" "n \<le> length xs"
  shows "binary_search (cmp p) xs 0 n = find_loop (\<lambda>x. cmp p x = 0) xs 0 n"
proof -
  have "window (cmp p) xs n 0 n" by (auto simp: window_def)
  from earliest_first_index [OF binary_search_earliest [OF ordered_descends [OF assms] this] assms(3)]
  show ?thesis by (simp add: find_loop_first assms(3) option.map_ident)
qed


lemma sk_find_is_first:
  assumes ok: "stack_ok s" "flag_ok cc s" and c: "\<And>c. comparator (cc c)"
  shows "sk_find cc (Some s) p =
    (if st_comp s = 0 then first_index (\<lambda>x. x = p) (elems s)
     else if p = 0 then None else first_index (\<lambda>x. cc (st_comp s) p x = 0) (elems s))"
proof -
  have "binary_search (cc (st_comp s) p) (st_data s) 0 (st_num s) = find_loop (\<lambda>x. cc (st_comp s) p x = 0) (st_data s) 0 (st_num s)"
    if "st_sorted s"
    by (rule binary_search_is_linear [OF c]) (use ok that in \<open>simp_all add: flag_ok_def elems_def stack_ok_def\<close>)
  with ok(1) show ?thesis by (simp add: sk_find_def sk_is_sorted_def find_loop_elems)
qed

section \<open>Runs of operations\<close>

text \<open>What a program does with a stack; the answers of the allocator are part of the operation. \<open>Dup\<close> goes on
  with the copy when there is one.\<close>

datatype stack_op = Insert cell_mem ptr nat | Push cell_mem ptr | Delete nat | DeletePtr ptr | Shift | Pop
  | Zero | Sort | SetCmp stack_cmp_func | Dup bool cell_mem cell_mem

fun sk_step :: "call_cmp_func \<Rightarrow> stack_op \<Rightarrow> stack \<Rightarrow> nat \<times> stack" where
  "sk_step cc (Insert m p i) s = apsnd the (sk_insert m (Some s) p i)"
| "sk_step cc (Push m p) s = apsnd the (sk_push m s p)"
| "sk_step cc (Delete i) s = apsnd the (sk_delete (Some s) i)"
| "sk_step cc (DeletePtr p) s = apsnd the (sk_delete_ptr (Some s) p)"
| "sk_step cc Shift s = apsnd the (sk_shift (Some s))"
| "sk_step cc Pop s = apsnd the (sk_pop (Some s))"
| "sk_step cc Zero s = (0, the (sk_zero (Some s)))"
| "sk_step cc Sort s = (0, the (sk_sort cc (Some s)))"
| "sk_step cc (SetCmp c) s = sk_set_cmp_func s c"
| "sk_step cc (Dup b m m2) s = (0, case sk_dup b m m2 (Some s) of None \<Rightarrow> s | Some t \<Rightarrow> t)"

fun sk_run :: "call_cmp_func \<Rightarrow> stack_op list \<Rightarrow> stack \<Rightarrow> nat list \<times> stack" where
  "sk_run cc [] s = ([], s)"
| "sk_run cc (x # xs) s = (case sk_step cc x s of (r, s1) \<Rightarrow> apfst (Cons r) (sk_run cc xs s1))"

text \<open>The same on a list and a comparison function, with no array, no flag and no allocator: an insertion
  only takes from the run whether it reported success.\<close>

definition without :: "nat \<Rightarrow> ptr list \<Rightarrow> nat \<times> ptr list" where
  "without i xs = (if i < length xs then (xs ! i, take i xs @ drop (Suc i) xs) else (0, xs))"

definition inserted :: "nat \<Rightarrow> nat \<Rightarrow> ptr \<Rightarrow> ptr list \<Rightarrow> nat \<times> ptr list" where
  "inserted r i p xs = (if r = 0 then (0, xs) else (Suc (length xs), take i xs @ p # drop i xs))"

fun list_step :: "call_cmp_func \<Rightarrow> stack_op \<Rightarrow> nat \<Rightarrow> ptr list \<Rightarrow> stack_cmp_func \<Rightarrow> nat \<times> ptr list \<times> stack_cmp_func" where
  "list_step cc (Insert m p i) r xs c = (case inserted r i p xs of (v, ys) \<Rightarrow> (v, ys, c))"
| "list_step cc (Push m p) r xs c = (case inserted r (length xs) p xs of (v, ys) \<Rightarrow> (v, ys, c))"
| "list_step cc (Delete i) r xs c = (case without i xs of (v, ys) \<Rightarrow> (v, ys, c))"
| "list_step cc (DeletePtr p) r xs c = (if p \<in> set xs then (p, remove1 p xs, c) else (0, xs, c))"
| "list_step cc Shift r xs c = (case xs of [] \<Rightarrow> (0, [], c) | x # ys \<Rightarrow> (x, ys, c))"
| "list_step cc Pop r xs c = (if xs = [] then (0, [], c) else (last xs, butlast xs, c))"
| "list_step cc Zero r xs c = (0, [], c)"
| "list_step cc Sort r xs c = (0, if c = 0 then xs else qsort (cc c) xs, c)"
| "list_step cc (SetCmp d) r xs c = (c, xs, d)"
| "list_step cc (Dup b m m2) r xs c = (0, xs, c)"

fun list_run :: "call_cmp_func \<Rightarrow> stack_op list \<Rightarrow> nat list \<Rightarrow> ptr list \<Rightarrow> stack_cmp_func \<Rightarrow>
    nat list \<times> ptr list \<times> stack_cmp_func" where
  "list_run cc (x # xs) (r # rs) l c = (case list_step cc x r l c of (v, l1, c1) \<Rightarrow> apfst (Cons v) (list_run cc xs rs l1 c1))"
| "list_run cc _ _ l c = ([], l, c)"

fun op_mem_ok :: "stack_op \<Rightarrow> bool" where
  "op_mem_ok (Insert m p i) = cell_mem_ok m"
| "op_mem_ok (Push m p) = cell_mem_ok m"
| "op_mem_ok (Dup b m m2) = (cell_mem_ok m \<and> cell_mem_ok m2)"
| "op_mem_ok _ = True"

definition stack_inv :: "call_cmp_func \<Rightarrow> stack \<Rightarrow> bool" where
  "stack_inv cc s \<longleftrightarrow> stack_ok s \<and> flag_ok cc s"


lemma sorted_wrt_without: "sorted_wrt P xs \<Longrightarrow> sorted_wrt P (take i xs @ drop (Suc i) xs)"
proof (induction xs arbitrary: i)
  case (Cons x xs)
  then show ?case by (cases i) (auto dest: in_set_takeD in_set_dropD)
qed simp

lemma qsort_of_ordered: "sorted_wrt (\<lambda>a b. cmp a b \<le> 0) xs \<Longrightarrow> qsort cmp xs = xs"
proof (induction xs)
  case (Cons x xs)
  then have "qsort_insert cmp x xs = x # xs" by (cases xs) auto
  with Cons show ?case by (simp add: qsort_def)
qed (simp add: qsort_def)

lemma remove1_at_first: "first_index (\<lambda>x. x = p) xs = Some k \<Longrightarrow> remove1 p xs = take k xs @ drop (Suc k) xs"
  by (induction xs arbitrary: k) (auto split: if_splits)

lemma stack_inv_becomes:
  assumes "becomes t xs c" "st_sorted t \<Longrightarrow> c \<noteq> 0 \<and> sorted_wrt (\<lambda>a b. cc c a b \<le> 0) xs"
  shows "stack_inv cc t" "elems t = xs" "st_comp t = c"
  using assms by (auto simp: stack_inv_def becomes_def flag_ok_def)

lemma insert_refines:
  assumes "stack_inv cc s" "cell_mem_ok m" "apsnd the (sk_insert m (Some s) p i) = (r, t)"
  shows "stack_inv cc t \<and> inserted r i p (elems s) = (r, elems t) \<and> st_comp t = st_comp s"
proof -
  have ok: "stack_ok s" using assms(1) by (simp add: stack_inv_def)
  obtain s' where i: "sk_insert m (Some s) p i = (r, s')" "t = the s'"
    using assms(3) by (cases "sk_insert m (Some s) p i") auto
  from sk_insert_becomes [OF ok assms(2) i(1)] show ?thesis
  proof (elim disjE exE conjE)
    assume "r = 0" "s' = Some s"
    with i(2) assms(1) show ?thesis by (simp add: inserted_def)
  next
    fix u assume u: "s' = Some u" "r = Suc (st_num s)" "\<not> st_sorted u"
      "becomes u (take i (elems s) @ p # drop i (elems s)) (st_comp s)"
    from stack_inv_becomes [OF u(4), of cc] u ok i(2) show ?thesis by (simp add: inserted_def)
  qed
qed

lemma delete_refines:
  assumes "stack_inv cc s" "apsnd the (sk_delete (Some s) i) = (r, t)"
  shows "stack_inv cc t \<and> without i (elems s) = (r, elems t) \<and> st_comp t = st_comp s"
proof (cases "i < st_num s")
  case True
  have ok: "stack_ok s" "flag_ok cc s" using assms(1) by (simp_all add: stack_inv_def)
  from sk_delete_becomes [OF ok(1) True] assms(2) have t: "r = elems s ! i" "st_sorted t = st_sorted s"
    "becomes t (take i (elems s) @ drop (Suc i) (elems s)) (st_comp s)" by auto
  from stack_inv_becomes [OF t(3), of cc] t ok True show ?thesis
    by (simp add: without_def flag_ok_def sorted_wrt_without)
next
  case False
  with assms show ?thesis by (auto simp: sk_delete_out without_def stack_inv_def)
qed

lemma sk_step_refines:
  assumes inv: "stack_inv cc s" and c: "\<And>c. comparator (cc c)" and m: "op_mem_ok x" and run: "sk_step cc x s = (r, t)"
  shows "stack_inv cc t \<and> list_step cc x r (elems s) (st_comp s) = (r, elems t, st_comp t)"
proof (cases x)
  case (Insert m' p i)
  with insert_refines [OF inv, of m' p i r t] m run show ?thesis by simp
next
  case (Push m' p)
  have "st_num s = length (elems s)" using inv by (simp add: stack_inv_def)
  with Push insert_refines [OF inv, of m' p "st_num s" r t] m run show ?thesis by (simp add: sk_push_def)
next
  case (Delete i)
  with delete_refines [OF inv, of i r t] run show ?thesis by simp
next
  case (DeletePtr p)
  have f: "find_loop (\<lambda>x. x = p) (st_data s) 0 (st_num s) = first_index (\<lambda>x. x = p) (elems s)"
    using inv by (simp add: stack_inv_def find_loop_elems)
  show ?thesis
  proof (cases "first_index (\<lambda>x. x = p) (elems s)")
    case None
    with DeletePtr run inv f show ?thesis by (auto simp: sk_delete_ptr_def first_index_None)
  next
    case (Some k)
    then have "k < length (elems s)" "elems s ! k = p" by (simp_all add: first_index_Some)
    then have "without k (elems s) = (p, remove1 p (elems s))" "p \<in> set (elems s)"
      using remove1_at_first [OF Some] by (auto simp: without_def)
    with delete_refines [OF inv, of k r t] DeletePtr run f Some show ?thesis by (auto simp: sk_delete_ptr_def)
  qed
next
  case Shift
  show ?thesis
  proof (cases "elems s")
    case Nil
    with inv have "st_num s = 0" using length_elems [of s] by (simp add: stack_inv_def)
    with Nil Shift run inv show ?thesis by (auto simp: sk_shift_def)
  next
    case (Cons a ys)
    with inv have "st_num s \<noteq> 0" using length_elems [of s] by (auto simp: stack_inv_def)
    with delete_refines [OF inv, of 0 r t] Cons Shift run show ?thesis by (simp add: sk_shift_def without_def)
  qed
next
  case Pop
  have n: "st_num s = length (elems s)" using inv by (simp add: stack_inv_def)
  show ?thesis
  proof (cases "elems s = []")
    case True
    with n Pop run inv show ?thesis by (auto simp: sk_pop_def)
  next
    case False
    then have "without (length (elems s) - 1) (elems s) = (last (elems s), butlast (elems s))"
      by (simp add: without_def last_conv_nth butlast_conv_take)
    with delete_refines [OF inv, of "st_num s - 1" r t] n False Pop run show ?thesis by (simp add: sk_pop_def)
  qed
next
  case Zero
  from sk_zero_becomes [of s] inv run Zero have t: "r = 0" "becomes t [] (st_comp s)" "st_sorted t \<longrightarrow> st_sorted s"
    by (auto simp: stack_inv_def)
  from stack_inv_becomes [OF t(2), of cc] t inv Zero show ?thesis by (simp add: stack_inv_def flag_ok_def)
next
  case Sort
  show ?thesis
  proof (cases "st_comp s = 0 \<or> st_sorted s")
    case True
    then have "sk_sort cc (Some s) = Some s" by (simp add: sk_sort_def)
    moreover have "st_comp s \<noteq> 0 \<Longrightarrow> qsort (cc (st_comp s)) (elems s) = elems s"
      using True inv by (intro qsort_of_ordered) (simp add: stack_inv_def flag_ok_def)
    ultimately show ?thesis using Sort run inv by simp
  next
    case False
    with sk_sort_becomes [of s cc] inv Sort run have t: "r = 0" "becomes t (qsort (cc (st_comp s)) (elems s)) (st_comp s)"
      by (auto simp: stack_inv_def)
    from stack_inv_becomes [OF t(2), of cc] t False Sort show ?thesis by (simp add: qsort_ordered [OF c])
  qed
next
  case (SetCmp d)
  from sk_set_cmp_func_becomes [of s d] inv SetCmp run
  have t: "r = st_comp s" "becomes t (elems s) d" "st_sorted t = (st_sorted s \<and> st_comp s = d)"
    by (auto simp: stack_inv_def)
  from stack_inv_becomes [OF t(2), of cc] t inv SetCmp show ?thesis by (auto simp: stack_inv_def flag_ok_def)
next
  case (Dup b m1 m2)
  show ?thesis
  proof (cases "sk_dup b m1 m2 (Some s)")
    case None
    with Dup run inv show ?thesis by simp
  next
    case (Some u)
    with Dup run sk_dup_becomes [OF _ _ _ Some] inv m
    have t: "r = 0" "becomes t (elems s) (st_comp s)" "st_sorted t = st_sorted s" by (simp_all add: stack_inv_def)
    from stack_inv_becomes [OF t(2), of cc] t inv Dup show ?thesis by (simp add: stack_inv_def flag_ok_def)
  qed
qed

lemma sk_run_refines:
  assumes "stack_inv cc s" "\<And>c. comparator (cc c)" "\<forall>x\<in>set xs. op_mem_ok x" "sk_run cc xs s = (rs, t)"
  shows "stack_inv cc t \<and> list_run cc xs rs (elems s) (st_comp s) = (rs, elems t, st_comp t)"
  using assms
proof (induction xs arbitrary: s rs)
  case (Cons x xs)
  obtain r u where u: "sk_step cc x s = (r, u)" by fastforce
  obtain rs' t' where "sk_run cc xs u = (rs', t')" by fastforce
  with u Cons.prems(4) have t: "sk_run cc xs u = (rs', t)" "rs = r # rs'" by simp_all
  have "op_mem_ok x" "\<forall>x\<in>set xs. op_mem_ok x" using Cons.prems(3) by simp_all
  with sk_step_refines [OF Cons.prems(1,2) _ u] Cons.IH [OF _ Cons.prems(2) _ t(1)]
  show ?case using t(2) by simp
qed auto


text \<open>C29: After any run of insertions, deletions, shifts, pops, sorts, changes of the comparison function and
  duplications on a fresh stack, whatever the allocator answers, every result is the one a plain list gives and
  \<open>sk_find\<close> returns the first match in that list, although it searches by bisection whenever the flag is set.\<close>

theorem stack_is_a_list:
  assumes "cell_mem_ok m" "sk_new b m c = Some s0" "\<And>c. comparator (cc c)" "\<forall>x\<in>set xs. op_mem_ok x"
    and "sk_run cc xs s0 = (rs, s)"
  shows "list_run cc xs rs [] c = (rs, elems s, st_comp s) \<and>
    sk_find cc (Some s) p =
      (if st_comp s = 0 then first_index (\<lambda>x. x = p) (elems s)
       else if p = 0 then None else first_index (\<lambda>x. cc (st_comp s) p x = 0) (elems s))"
proof -
  have "becomes s0 [] c" "\<not> st_sorted s0" using sk_new_becomes [OF assms(1,2)] by simp_all
  then have "stack_inv cc s0" "elems s0 = []" "st_comp s0 = c" by (simp_all add: stack_inv_def becomes_def flag_ok_def)
  with sk_run_refines [OF _ assms(3-5)] have s: "stack_inv cc s"
    "list_run cc xs rs [] c = (rs, elems s, st_comp s)" by auto
  moreover have "sk_find cc (Some s) p =
      (if st_comp s = 0 then first_index (\<lambda>x. x = p) (elems s)
       else if p = 0 then None else first_index (\<lambda>x. cc (st_comp s) p x = 0) (elems s))"
    by (rule sk_find_is_first) (use s assms(3) in \<open>simp_all add: stack_inv_def\<close>)
  ultimately show ?thesis by blast
qed

definition by_value :: call_cmp_func where
  "by_value c x y = int x - int y"

lemma comparator_by_value: "comparator (by_value c)"
  by (simp add: comparator_def by_value_def sgn_if)

definition zero_cells :: cell_mem where
  "zero_cells n = Some (replicate (n div 8) 0)"

lemma zero_cells_ok: "cell_mem_ok zero_cells"
  by (simp add: cell_mem_ok_def zero_cells_def)

definition sample_run :: "stack_op list" where
  "sample_run = [Push zero_cells 9, Push zero_cells 4, Insert zero_cells 7 1, Insert (\<lambda>n. None) 5 0,
     Push zero_cells 4, Push zero_cells 2, Sort, Pop, DeletePtr 2]"

theorem stack_is_a_list_witness:
  "case sk_new True zero_cells 1 of None \<Rightarrow> False
   | Some s0 \<Rightarrow> (case sk_run by_value sample_run s0 of (rs, s) \<Rightarrow>
       rs = [1, 2, 3, 0, 4, 5, 0, 9, 2] \<and> elems s = [4, 4, 7] \<and> sk_is_sorted (Some s) \<and>
       list_run by_value sample_run rs [] 1 = (rs, [4, 4, 7], 1) \<and> sk_find by_value (Some s) 4 = Some 0)"
proof -
  define s0 where "s0 = \<lparr>st_num = 0, st_data = [0, 0, 0, 0], st_sorted = False, st_num_alloc = 4, st_comp = 1\<rparr>"
  have n: "sk_new True zero_cells 1 = Some s0" unfolding s0_def by code_simp
  have "fst (sk_run by_value sample_run s0) = [1, 2, 3, 0, 4, 5, 0, 9, 2] \<and> elems (snd (sk_run by_value sample_run s0)) = [4, 4, 7] \<and>
    st_comp (snd (sk_run by_value sample_run s0)) = 1 \<and> st_sorted (snd (sk_run by_value sample_run s0))"
    unfolding s0_def by code_simp
  then obtain s where r: "sk_run by_value sample_run s0 = ([1, 2, 3, 0, 4, 5, 0, 9, 2], s)" "elems s = [4, 4, 7]"
    "st_comp s = 1" "st_sorted s" by (cases "sk_run by_value sample_run s0") simp
  have m: "\<forall>x\<in>set sample_run. op_mem_ok x" by (simp add: sample_run_def zero_cells_ok) (simp add: cell_mem_ok_def)
  note both = stack_is_a_list [OF zero_cells_ok n comparator_by_value m r(1)]
  note t = conjunct1 [OF both] conjunct2 [OF both]
  from t(2) [of 4] r(2,3) have "sk_find by_value (Some s) 4 = Some 0" by (simp add: by_value_def)
  with t(1) n r show ?thesis by (simp add: sk_is_sorted_def)
qed

text \<open>C32: \<open>sk_set\<close> stores into the array and leaves the flag, which \<open>stack.h\<close> says is set only when the values are in
  ascending order. After it, \<open>sk_find\<close> searches by bisection an array that is not ordered and reports that an
  element of the stack is not in it, and \<open>sk_sort\<close> does nothing.\<close>

theorem sk_set_leaves_the_flag:
  "\<exists>s t. sk_run by_value [Push zero_cells 1, Push zero_cells 2, Push zero_cells 3, Sort]
       (the (sk_new True zero_cells 1)) = ([1, 2, 3, 0], s) \<and>
     sk_set (Some s) 0 5 = (5, Some t) \<and> elems t = [5, 2, 3] \<and>
     sk_find by_value (Some t) 5 = None \<and> sk_sort by_value (Some t) = Some t"
proof -
  define r where "r = sk_run by_value [Push zero_cells 1, Push zero_cells 2, Push zero_cells 3, Sort]
       (the (sk_new True zero_cells 1))"
  have "fst r = [1, 2, 3, 0]" unfolding r_def by code_simp
  moreover have "fst (sk_set (Some (snd r)) 0 5) = 5 \<and> snd (sk_set (Some (snd r)) 0 5) \<noteq> None" unfolding r_def by code_simp
  then obtain t where t: "sk_set (Some (snd r)) 0 5 = (5, Some t)" by (cases "sk_set (Some (snd r)) 0 5") auto
  moreover have "elems (the (snd (sk_set (Some (snd r)) 0 5))) = [5, 2, 3] \<and>
    sk_find by_value (snd (sk_set (Some (snd r)) 0 5)) 5 = None \<and> st_sorted (the (snd (sk_set (Some (snd r)) 0 5)))"
    unfolding r_def by code_simp
  then have "elems t = [5, 2, 3]" "sk_find by_value (Some t) 5 = None" "st_sorted t" by (simp_all add: t)
  moreover from this have "sk_sort by_value (Some t) = Some t" by (simp add: sk_sort_def)
  ultimately show ?thesis unfolding r_def [symmetric] by (metis prod.collapse)
qed

section \<open>Copying what the pointers point to\<close>

text \<open>The copies of the entries in front of \<open>i\<close>, \<open>NULL\<close> entries aside.\<close>

definition copies :: "(nat \<Rightarrow> ptr \<Rightarrow> ptr) \<Rightarrow> ptr list \<Rightarrow> nat \<Rightarrow> ptr list" where
  "copies copy xs n = map (\<lambda>i. if xs ! i = 0 then 0 else copy i (xs ! i)) [0..<n]"

lemma copies_Suc: "copies copy xs (Suc i) = copies copy xs i @ [if xs ! i = 0 then 0 else copy i (xs ! i)]"
  by (simp add: copies_def)

lemma length_copies [simp]: "length (copies copy xs n) = n"
  by (simp add: copies_def)

lemma nth_copies: "j < n \<Longrightarrow> copies copy xs n ! j = (if xs ! j = 0 then 0 else copy j (xs ! j))"
  by (simp add: copies_def)

lemma filter_copies:
  assumes "\<forall>j<k. xs ! j \<noteq> 0 \<longrightarrow> copy j (xs ! j) \<noteq> 0"
  shows "filter (\<lambda>p. p \<noteq> 0) (copies copy xs k) = map (\<lambda>j. copy j (xs ! j)) (filter (\<lambda>j. xs ! j \<noteq> 0) [0..<k])"
  using assms by (induction k) (simp_all add: copies_Suc copies_def)

lemma deep_copy_loop_spec:
  assumes "i \<le> n" "n \<le> length xs"
  shows "deep_copy_loop copy (copies copy xs i @ drop i xs) i n =
    (case find (\<lambda>j. xs ! j \<noteq> 0 \<and> copy j (xs ! j) = 0) [i..<n] of
       None \<Rightarrow> Inr (copies copy xs n @ drop n xs)
     | Some k \<Rightarrow> Inl (filter (\<lambda>p. p \<noteq> 0) (copies copy xs k)))"
  using assms
proof (induction "n - i" arbitrary: i)
  case 0
  then show ?case by (subst deep_copy_loop.simps) simp
next
  case (Suc d)
  let ?data = "copies copy xs i @ drop i xs"
  from Suc.hyps(2) Suc.prems have i: "i < n" "[i..<n] = i # [Suc i..<n]" by (simp_all add: upt_conv_Cons)
  with Suc.prems have d: "drop i xs = xs ! i # drop (Suc i) xs" by (simp add: Cons_nth_drop_Suc)
  then have at: "?data ! i = xs ! i" "take i ?data = copies copy xs i" by (simp_all add: nth_append)
  have IH: "deep_copy_loop copy (copies copy xs (Suc i) @ drop (Suc i) xs) (Suc i) n =
    (case find (\<lambda>j. xs ! j \<noteq> 0 \<and> copy j (xs ! j) = 0) [Suc i..<n] of
       None \<Rightarrow> Inr (copies copy xs n @ drop n xs)
     | Some k \<Rightarrow> Inl (filter (\<lambda>p. p \<noteq> 0) (copies copy xs k)))"
    using Suc.hyps i(1) Suc.prems(2) by simp
  have upd: "?data[i := v] = copies copy xs i @ v # drop (Suc i) xs" for v by (simp add: d list_update_append)
  show ?case
  proof (cases "xs ! i = 0")
    case True
    with d have "?data = copies copy xs (Suc i) @ drop (Suc i) xs" by (simp add: copies_Suc)
    with IH i True at(1) show ?thesis by (subst deep_copy_loop.simps) simp
  next
    case False
    then have "?data[i := copy i (xs ! i)] = copies copy xs (Suc i) @ drop (Suc i) xs" by (simp add: upd copies_Suc)
    moreover have "(copies copy xs (Suc i) @ drop (Suc i) xs) ! i = copy i (xs ! i)"
      "take i (copies copy xs (Suc i)) = copies copy xs i"
      using False by (simp_all add: copies_Suc nth_append)
    ultimately show ?thesis using IH i False at(1)
      by (subst deep_copy_loop.simps) (simp add: Let_def)
  qed
qed

text \<open>C30: \<open>sk_deep_copy\<close> copies all or nothing. Without memory for the new stack it returns \<open>NULL\<close> and has called
  nothing. Otherwise it succeeds exactly when the user's function has returned something for every entry that is
  not \<open>NULL\<close>: then the new stack holds the copies in order, \<open>NULL\<close> entries kept, and nothing is freed. If the
  function returned \<open>NULL\<close>, first for entry \<open>k\<close>, the result is \<open>NULL\<close>, and the copies of the entries before \<open>k\<close>
  are freed, each once and in order, and nothing else is.\<close>

theorem deep_copy_frees_what_it_copied:
  assumes "stack_ok s" "cell_mem_ok m" "cell_mem_ok m2" "sk_deep_copy b m m2 copy (Some s) = (r, freed)"
  shows "if sk_dup b m m2 (Some s) = None then r = None \<and> freed = []
    else if \<forall>j < st_num s. elems s ! j \<noteq> 0 \<longrightarrow> copy j (elems s ! j) \<noteq> 0
    then freed = [] \<and>
      (\<exists>t. r = Some t \<and> stack_ok t \<and> st_comp t = st_comp s \<and> st_sorted t = st_sorted s \<and> length (elems t) = st_num s \<and>
         (\<forall>j < st_num s. elems t ! j = (if elems s ! j = 0 then 0 else copy j (elems s ! j))))
    else r = None \<and>
      (\<exists>k < st_num s. elems s ! k \<noteq> 0 \<and> copy k (elems s ! k) = 0 \<and>
         (\<forall>j<k. elems s ! j \<noteq> 0 \<longrightarrow> copy j (elems s ! j) \<noteq> 0) \<and>
         freed = map (\<lambda>j. copy j (elems s ! j)) (filter (\<lambda>j. elems s ! j \<noteq> 0) [0..<k]))"
proof (cases "sk_dup b m m2 (Some s)")
  case None
  with assms(4) show ?thesis by (simp add: sk_deep_copy_def)
next
  case (Some t)
  let ?n = "st_num s"
  let ?bad = "find (\<lambda>j. elems s ! j \<noteq> 0 \<and> copy j (elems s ! j) = 0) [0..<?n]"
  have t: "stack_ok t" "elems t = elems s" "st_comp t = st_comp s" "st_sorted t = st_sorted s"
    using sk_dup_becomes [OF assms(1-3) Some] by (simp_all add: becomes_def)
  then have n: "st_num t = ?n" using assms(1) length_elems by metis
  have len: "?n \<le> length (st_data t)" using t(1) n by (simp add: stack_ok_def)
  have nth: "st_data t ! j = elems s ! j" if "j < ?n" for j using that t(2) n nth_elems [of j t] by simp
  have c: "copies copy (st_data t) k = copies copy (elems s) k" if "k \<le> ?n" for k
    using that nth by (simp add: copies_def)
  have "find (\<lambda>j. st_data t ! j \<noteq> 0 \<and> copy j (st_data t ! j) = 0) [0..<?n] = ?bad"
    using nth by (intro find_cong) auto
  moreover have "copies copy (st_data t) 0 = []" by (simp add: copies_def)
  ultimately have loop: "deep_copy_loop copy (st_data t) 0 ?n =
    (case ?bad of None \<Rightarrow> Inr (copies copy (elems s) ?n @ drop ?n (st_data t))
     | Some k \<Rightarrow> Inl (filter (\<lambda>p. p \<noteq> 0) (copies copy (st_data t) k)))"
    using deep_copy_loop_spec [OF le0 len, of copy] c [OF order_refl] by (simp cong: option.case_cong)
  show ?thesis
  proof (cases ?bad)
    case None
    then have good: "\<forall>j<?n. elems s ! j \<noteq> 0 \<longrightarrow> copy j (elems s ! j) \<noteq> 0" by (auto simp: find_None_iff)
    define u where "u = t\<lparr>st_data := copies copy (elems s) ?n @ drop ?n (st_data t)\<rparr>"
    have "r = Some u" "freed = []"
      using loop None assms(4) \<open>sk_dup b m m2 (Some s) = Some t\<close> n by (simp_all add: sk_deep_copy_def u_def)
    moreover have "stack_ok u" "elems u = copies copy (elems s) ?n" "st_comp u = st_comp s" "st_sorted u = st_sorted s"
      using t n len by (simp_all add: u_def stack_ok_def elems_def)
    ultimately show ?thesis
      using good \<open>sk_dup b m m2 (Some s) = Some t\<close> by (simp add: nth_copies)
  next
    case (Some k)
    then have k: "k < ?n" "elems s ! k \<noteq> 0" "copy k (elems s ! k) = 0"
      and less: "\<forall>j<k. elems s ! j \<noteq> 0 \<longrightarrow> copy j (elems s ! j) \<noteq> 0"
      by (auto simp: find_Some_iff)
    have "r = None" "freed = filter (\<lambda>p. p \<noteq> 0) (copies copy (elems s) k)"
      using loop Some assms(4) \<open>sk_dup b m m2 (Some s) = Some t\<close> n c [of k] k(1) by (simp_all add: sk_deep_copy_def)
    moreover have "filter (\<lambda>p. p \<noteq> 0) (copies copy (elems s) k) =
        map (\<lambda>j. copy j (elems s ! j)) (filter (\<lambda>j. elems s ! j \<noteq> 0) [0..<k])"
      by (rule filter_copies) (rule less)
    moreover have "\<not> (\<forall>j<?n. elems s ! j \<noteq> 0 \<longrightarrow> copy j (elems s ! j) \<noteq> 0)" using k by blast
    ultimately show ?thesis
      using k less \<open>sk_dup b m m2 (Some s) = Some t\<close> by auto
  qed
qed

theorem deep_copy_frees_what_it_copied_witness:
  "case sk_run by_value [Push zero_cells 3, Push zero_cells 0, Push zero_cells 5, Push zero_cells 6]
       (the (sk_new True zero_cells 1)) of (rs, s) \<Rightarrow>
     sk_deep_copy True zero_cells zero_cells (\<lambda>i p. if p = 6 then 0 else 100 + i) (Some s) = (None, [100, 102])"
proof -
  define s where "s = snd (sk_run by_value [Push zero_cells 3, Push zero_cells 0, Push zero_cells 5, Push zero_cells 6]
       (the (sk_new True zero_cells 1)))"
  define copy where "copy = (\<lambda>i (p :: ptr). if p = 6 then 0 else 100 + i :: ptr)"
  have s: "s = \<lparr>st_num = 4, st_data = [3, 0, 5, 6, 0, 0, 0, 0], st_sorted = False, st_num_alloc = 8, st_comp = 1\<rparr>"
    unfolding s_def by code_simp
  then have ok: "stack_ok s" "elems s = [3, 0, 5, 6]" by (simp_all add: stack_ok_def elems_def size_mod_def)
  obtain r freed where run: "sk_deep_copy True zero_cells zero_cells copy (Some s) = (r, freed)" by fastforce
  have dup: "sk_dup True zero_cells zero_cells (Some s) \<noteq> None"
    by (simp add: sk_dup_def sk_new_def realloc_cells_def zero_cells_def)
  have "st_num s = 4" "elems s ! 3 = 6" by (simp_all add: s elems_def)
  then have bad: "\<not> (\<forall>j < st_num s. elems s ! j \<noteq> 0 \<longrightarrow> copy j (elems s ! j) \<noteq> 0)"
    by (auto simp: copy_def intro!: exI [of _ 3])
  from deep_copy_frees_what_it_copied [OF ok(1) zero_cells_ok zero_cells_ok run, unfolded if_not_P [OF dup] if_not_P [OF bad]]
  obtain k where none: "r = None" and k: "k < st_num s" "elems s ! k \<noteq> 0" "copy k (elems s ! k) = 0"
    "freed = map (\<lambda>j. copy j (elems s ! j)) (filter (\<lambda>j. elems s ! j \<noteq> 0) [0..<k])" by blast
  from k(1-3) have "k = 3" by (auto simp: ok(2) copy_def s less_Suc_eq numeral_nat split: if_splits)
  with k(4) have "freed = [100, 102]" by (simp add: ok(2) copy_def upt_rec numeral_nat)
  with run none show ?thesis by (simp add: s_def copy_def split_beta)
qed

section \<open>Queues and stacks\<close>

text \<open>What a user of an indexed sequence relies on: insertion and deletion at a position.\<close>

fun drain :: "('s \<Rightarrow> 'a \<times> 's) \<Rightarrow> nat \<Rightarrow> 's \<Rightarrow> 'a list \<times> 's" where
  "drain f 0 s = ([], s)"
| "drain f (Suc n) s = (case f s of (x, s1) \<Rightarrow> apfst (Cons x) (drain f n s1))"

inductive feed :: "('a \<Rightarrow> 's \<Rightarrow> 's \<Rightarrow> bool) \<Rightarrow> 'a list \<Rightarrow> 's \<Rightarrow> 's \<Rightarrow> bool" for put where
  feed_Nil: "feed put [] s s"
| feed_Cons: "put x s s1 \<Longrightarrow> feed put xs s1 s2 \<Longrightarrow> feed put (x # xs) s s2"

locale deque =
  fixes ok :: "'s \<Rightarrow> bool" and list_of :: "'s \<Rightarrow> 'a list"
    and put :: "'a \<Rightarrow> 's \<Rightarrow> 's \<Rightarrow> bool" and front :: "'s \<Rightarrow> 'a \<times> 's" and rear :: "'s \<Rightarrow> 'a \<times> 's"
  assumes put_law: "ok s \<Longrightarrow> put x s s' \<Longrightarrow> ok s' \<and> list_of s' = list_of s @ [x]"
    and front_law: "ok s \<Longrightarrow> list_of s = x # xs \<Longrightarrow> \<exists>s'. front s = (x, s') \<and> ok s' \<and> list_of s' = xs"
    and back_law: "ok s \<Longrightarrow> list_of s = xs @ [x] \<Longrightarrow> \<exists>s'. rear s = (x, s') \<and> ok s' \<and> list_of s' = xs"
begin

lemma feed_list: "feed put xs s s' \<Longrightarrow> ok s \<Longrightarrow> ok s' \<and> list_of s' = list_of s @ xs"
  by (induction rule: feed.induct) (simp_all add: put_law)

lemma drain_front: "ok s \<Longrightarrow> list_of s = xs @ ys \<Longrightarrow> \<exists>s'. drain front (length xs) s = (xs, s') \<and> ok s' \<and> list_of s' = ys"
proof (induction xs arbitrary: s)
  case (Cons x xs)
  from front_law [OF Cons.prems(1), of x "xs @ ys"] Cons.prems(2) obtain u where
    "front s = (x, u)" "ok u" "list_of u = xs @ ys" by auto
  with Cons.IH [of u] show ?case by auto
qed simp

lemma drain_back: "ok s \<Longrightarrow> list_of s = ys @ rev xs \<Longrightarrow> \<exists>s'. drain rear (length xs) s = (xs, s') \<and> ok s' \<and> list_of s' = ys"
proof (induction xs arbitrary: s)
  case (Cons x xs)
  from back_law [OF Cons.prems(1), of "ys @ rev xs" x] Cons.prems(2) obtain u where
    "rear s = (x, u)" "ok u" "list_of u = ys @ rev xs" by auto
  with Cons.IH [of u] show ?case by auto
qed simp

lemma first_in_first_out: "ok s \<Longrightarrow> list_of s = [] \<Longrightarrow> feed put xs s t \<Longrightarrow> fst (drain front (length xs) t) = xs"
  using feed_list [of xs s t] drain_front [of t xs "[]"] by auto

lemma last_in_first_out: "ok s \<Longrightarrow> feed put xs s t \<Longrightarrow>
    \<exists>u. drain rear (length xs) t = (rev xs, u) \<and> ok u \<and> list_of u = list_of s"
  using feed_list [of xs s t] drain_back [of t "list_of s" "rev xs"] by simp

end

definition pushed :: "ptr \<Rightarrow> stack \<Rightarrow> stack \<Rightarrow> bool" where
  "pushed p s t \<longleftrightarrow> (\<exists>m. cell_mem_ok m \<and> sk_push m s p = (Suc (st_num s), Some t))"

interpretation sk: deque stack_ok elems pushed "\<lambda>s. apsnd the (sk_shift (Some s))" "\<lambda>s. apsnd the (sk_pop (Some s))"
proof unfold_locales
  fix s t p assume ok: "stack_ok s" and "pushed p s t"
  then obtain m where "cell_mem_ok m" "sk_insert m (Some s) p (st_num s) = (Suc (st_num s), Some t)"
    by (auto simp: pushed_def sk_push_def)
  with sk_insert_becomes [OF ok] ok show "stack_ok t \<and> elems t = elems s @ [p]"
    by (force simp: becomes_def)
next
  fix s p xs assume ok: "stack_ok s" and e: "elems s = p # xs"
  then have "0 < st_num s" using length_elems [OF ok] by simp
  with sk_delete_becomes [OF ok this] e
  show "\<exists>s'. apsnd the (sk_shift (Some s)) = (p, s') \<and> stack_ok s' \<and> elems s' = xs"
    by (auto simp: sk_shift_def becomes_def)
next
  fix s p xs assume ok: "stack_ok s" and e: "elems s = xs @ [p]"
  then have n: "st_num s = Suc (length xs)" using length_elems [OF ok] by simp
  with sk_delete_becomes [OF ok, of "length xs"] e
  show "\<exists>s'. apsnd the (sk_pop (Some s)) = (p, s') \<and> stack_ok s' \<and> elems s' = xs"
    by (auto simp: sk_pop_def becomes_def)
qed


text \<open>C31: What \<open>sk_push\<close> put on an empty stack comes back in the same order through \<open>sk_shift\<close> and in the
  opposite order through \<open>sk_pop\<close>, however often the array had to grow.\<close>

theorem pushes_come_back_in_order:
  assumes "stack_ok s" "elems s = []" "feed pushed ps s t"
  shows "fst (drain (\<lambda>s. apsnd the (sk_shift (Some s))) (length ps) t) = ps \<and>
    fst (drain (\<lambda>s. apsnd the (sk_pop (Some s))) (length ps) t) = rev ps"
  using sk.first_in_first_out [OF assms] sk.last_in_first_out [OF assms(1,3)] by auto

theorem pushes_come_back_in_order_witness:
  "\<exists>t. feed pushed [7, 8] \<lparr>st_num = 0, st_data = [1, 2], st_sorted = False, st_num_alloc = 2, st_comp = 0\<rparr> t \<and>
     fst (drain (\<lambda>s. apsnd the (sk_shift (Some s))) 2 t) = [7, 8] \<and>
     fst (drain (\<lambda>s. apsnd the (sk_pop (Some s))) 2 t) = [8, 7]"
proof -
  define s where "s = \<lparr>st_num = 0, st_data = [1, 2], st_sorted = False, st_num_alloc = 2, st_comp = 0\<rparr>"
  define u where "u = \<lparr>st_num = 1, st_data = [7, 2], st_sorted = False, st_num_alloc = 2, st_comp = 0\<rparr>"
  define t where "t = \<lparr>st_num = 2, st_data = [7, 8, 0, 0], st_sorted = False, st_num_alloc = 4, st_comp = 0\<rparr>"
  have "sk_push zero_cells s 7 = (1, Some u)" "sk_push zero_cells u 8 = (2, Some t)"
    unfolding s_def u_def t_def by code_simp+
  then have p: "pushed 7 s u" "pushed 8 u t" using zero_cells_ok unfolding pushed_def by (auto simp: s_def u_def)
  have f: "feed pushed [7, 8] s t" using feed_Cons [of pushed, OF p(1)] feed_Cons [of pushed, OF p(2)] feed_Nil [of pushed] by blast
  have "stack_ok s" "elems s = []" by (simp_all add: s_def stack_ok_def elems_def size_mod_def)
  note o = pushes_come_back_in_order [OF this f]
  have "length [7, 8 :: ptr] = 2" "rev [7, 8 :: ptr] = [8, 7]" by simp_all
  with o f show ?thesis unfolding s_def by metis
qed

end
