(* ===== verification/Modes.thy ===== *)
theory Modes
  imports Mem "HOL-Library.Code_Target_Nat"
begin

text \<open>
  The modes of operation that turn a block cipher into a stream cipher, \<open>crypto/fipsmodule/modes/\<close> \<open>ctr.c\<close>,
  \<open>ofb.c\<close> and \<open>cfb.c\<close>. The block cipher with its key is an argument. Input and output are separate or the
  same buffer: every position is read before it is written, and never again. The loops over
  \<open>size_t\<close> words of a block exclusive-or bytes at the same positions and are written over bytes.
\<close>

section \<open>The three loops\<close>

type_synonym block128_f = "bytes \<Rightarrow> bytes"

definition xor_bytes :: "bytes \<Rightarrow> bytes \<Rightarrow> bytes" where
  "xor_bytes a b = map2 (XOR) a b"

text \<open>\<open>while (n && len)\<close>: what is left of the current block of key stream. \<open>step n x k\<close> is what a mode does
  with the input byte \<open>x\<close> at position \<open>n\<close> of the block.\<close>

fun lead_loop :: "(nat \<Rightarrow> byte \<Rightarrow> 'k \<Rightarrow> byte \<times> 'k) \<Rightarrow> bytes \<Rightarrow> 'k \<Rightarrow> nat \<Rightarrow> bytes \<times> 'k \<times> nat \<times> bytes" where
  "lead_loop step (x # xs) k n =
     (if n \<noteq> 0 then
        case step n x k of (y, k) \<Rightarrow>
        case lead_loop step xs k ((n + 1) mod 16) of (ys, k, n, rest) \<Rightarrow> (y # ys, k, n, rest)
      else ([], k, n, x # xs))"
| "lead_loop step [] k n = ([], k, n, [])"

text \<open>\<open>while (len >= 16)\<close>: whole blocks, each with fresh key stream.\<close>

function block_loop :: "('k \<Rightarrow> 'k) \<Rightarrow> (bytes \<Rightarrow> 'k \<Rightarrow> bytes \<times> 'k) \<Rightarrow> bytes \<Rightarrow> 'k \<Rightarrow> nat \<Rightarrow> bytes \<times> 'k \<times> nat \<times> bytes" where
  "block_loop refresh whole inp k n =
     (if length inp \<ge> 16 then
        case whole (take 16 inp) (refresh k) of (out, k) \<Rightarrow>
        case block_loop refresh whole (drop 16 inp) k 0 of (outs, k, n, rest) \<Rightarrow> (out @ outs, k, n, rest)
      else ([], k, n, inp))"
  by pat_completeness auto
termination by (relation "measure (\<lambda>(refresh, whole, inp, k, n). length inp)") auto

declare block_loop.simps [simp del]

text \<open>\<open>while (len--)\<close>: the bytes that do not fill a block.\<close>

fun tail_loop :: "(nat \<Rightarrow> byte \<Rightarrow> 'k \<Rightarrow> byte \<times> 'k) \<Rightarrow> bytes \<Rightarrow> 'k \<Rightarrow> nat \<Rightarrow> bytes \<times> 'k \<times> nat" where
  "tail_loop step (x # xs) k n =
     (case step n x k of (y, k) \<Rightarrow> case tail_loop step xs k (n + 1) of (ys, k, n) \<Rightarrow> (y # ys, k, n))"
| "tail_loop step [] k n = ([], k, n)"

definition stream_run ::
  "('k \<Rightarrow> 'k) \<Rightarrow> (nat \<Rightarrow> byte \<Rightarrow> 'k \<Rightarrow> byte \<times> 'k) \<Rightarrow> (bytes \<Rightarrow> 'k \<Rightarrow> bytes \<times> 'k) \<Rightarrow> bytes \<Rightarrow> 'k \<times> nat \<Rightarrow> bytes \<times> 'k \<times> nat" where
  "stream_run refresh step whole inp s =
     (case lead_loop step inp (fst s) (snd s) of (out1, k, n, inp) \<Rightarrow>
      case block_loop refresh whole inp k n of (out2, k, n, inp) \<Rightarrow>
      if inp \<noteq> [] then
        case tail_loop step inp (refresh k) n of (out3, k, n) \<Rightarrow> (out1 @ out2 @ out3, k, n)
      else (out1 @ out2, k, n))"

section \<open>Counter mode\<close>

text \<open>The loop of \<open>ctr128_inc\<close> and \<open>ctr96_inc\<close>, from the last byte of the counter to its first.\<close>

fun inc_loop :: "nat \<Rightarrow> u32 \<Rightarrow> bytes \<Rightarrow> bytes" where
  "inc_loop (Suc n) c counter =
     (let c = c + ucast (counter ! n) in inc_loop n (drop_bit 8 c) (counter[n := ucast c]))"
| "inc_loop 0 c counter = counter"

definition ctr128_inc :: "bytes \<Rightarrow> bytes" where
  "ctr128_inc counter = inc_loop 16 1 counter"

definition ctr96_inc :: "bytes \<Rightarrow> bytes" where
  "ctr96_inc counter = inc_loop 12 1 counter"

text \<open>The state is \<open>ivec\<close> and \<open>ecount_buf\<close>.\<close>

type_synonym ctr_state = "bytes \<times> bytes"

definition ctr_refresh :: "block128_f \<Rightarrow> ctr_state \<Rightarrow> ctr_state" where
  "ctr_refresh block = (\<lambda>(ivec, ecount). (ctr128_inc ivec, block ivec))"

definition ctr_step :: "nat \<Rightarrow> byte \<Rightarrow> ctr_state \<Rightarrow> byte \<times> ctr_state" where
  "ctr_step n x = (\<lambda>(ivec, ecount). (x XOR ecount ! n, ivec, ecount))"

definition ctr_whole :: "bytes \<Rightarrow> ctr_state \<Rightarrow> bytes \<times> ctr_state" where
  "ctr_whole inp = (\<lambda>(ivec, ecount). (xor_bytes inp ecount, ivec, ecount))"

definition CRYPTO_ctr128_encrypt ::
  "block128_f \<Rightarrow> bytes \<Rightarrow> ctr_state \<times> nat \<Rightarrow> bytes \<times> ctr_state \<times> nat" where
  "CRYPTO_ctr128_encrypt block = stream_run (ctr_refresh block) ctr_step ctr_whole"

text \<open>The same with a function for whole runs of blocks that counts in the last 32 bits of \<open>ivec\<close> only and
  leaves \<open>ivec\<close> alone: \<open>func inp blocks ivec\<close> is what it writes.\<close>

type_synonym ctr128_f = "bytes \<Rightarrow> nat \<Rightarrow> bytes \<Rightarrow> bytes"

definition GETU32 :: "bytes \<Rightarrow> u32" where
  "GETU32 b = word_of_nat (be_nat (take 4 b))"

definition PUTU32 :: "bytes \<Rightarrow> nat \<Rightarrow> u32 \<Rightarrow> bytes" where
  "PUTU32 b at v = take at b @ be_bytes 4 (unat v) @ drop (at + 4) b"

function ctr32_loop :: "ctr128_f \<Rightarrow> bytes \<Rightarrow> bytes \<Rightarrow> u32 \<Rightarrow> bytes \<times> bytes \<times> u32 \<times> bytes" where
  "ctr32_loop func inp ivec ctr32 =
     (if length inp \<ge> 16 then
        let blocks = length inp div 16;
            blocks = (if blocks > 2 ^ 28 then 2 ^ 28 else blocks);
            ctr32 = ctr32 + word_of_nat blocks;
            wrapped = unat ctr32 < blocks;
            blocks = (if wrapped then blocks - unat ctr32 else blocks);
            ctr32 = (if wrapped then 0 else ctr32);
            out = func (take (16 * blocks) inp) blocks ivec;
            ivec = PUTU32 ivec 12 ctr32;
            ivec = (if ctr32 = 0 then ctr96_inc ivec else ivec)
        in case ctr32_loop func (drop (16 * blocks) inp) ivec ctr32 of (outs, r) \<Rightarrow> (out @ outs, r)
      else ([], ivec, ctr32, inp))"
  by pat_completeness auto
termination
  by (relation "measure (\<lambda>(func, inp, ivec, ctr32). length inp)") auto

declare ctr32_loop.simps [simp del]

definition CRYPTO_ctr128_encrypt_ctr32 ::
  "ctr128_f \<Rightarrow> bytes \<Rightarrow> ctr_state \<times> nat \<Rightarrow> bytes \<times> ctr_state \<times> nat" where
  "CRYPTO_ctr128_encrypt_ctr32 func inp s =
     (case lead_loop ctr_step inp (fst s) (snd s) of (out1, (ivec, ecount), n, inp) \<Rightarrow>
      case ctr32_loop func inp ivec (GETU32 (drop 12 ivec)) of (out2, ivec, ctr32, inp) \<Rightarrow>
      if inp \<noteq> [] then
        let ecount = func (replicate 16 0) 1 ivec;
            ctr32 = ctr32 + 1;
            ivec = PUTU32 ivec 12 ctr32;
            ivec = (if ctr32 = 0 then ctr96_inc ivec else ivec)
        in case tail_loop ctr_step inp (ivec, ecount) n of (out3, k, n) \<Rightarrow> (out1 @ out2 @ out3, k, n)
      else (out1 @ out2, (ivec, ecount), n))"

section \<open>Output feedback and cipher feedback\<close>

definition ofb_step :: "nat \<Rightarrow> byte \<Rightarrow> bytes \<Rightarrow> byte \<times> bytes" where
  "ofb_step n x ivec = (x XOR ivec ! n, ivec)"

definition ofb_whole :: "bytes \<Rightarrow> bytes \<Rightarrow> bytes \<times> bytes" where
  "ofb_whole inp ivec = (xor_bytes inp ivec, ivec)"

definition CRYPTO_ofb128_encrypt :: "block128_f \<Rightarrow> bytes \<Rightarrow> bytes \<times> nat \<Rightarrow> bytes \<times> bytes \<times> nat" where
  "CRYPTO_ofb128_encrypt block = stream_run block ofb_step ofb_whole"

definition cfb_step :: "bool \<Rightarrow> nat \<Rightarrow> byte \<Rightarrow> bytes \<Rightarrow> byte \<times> bytes" where
  "cfb_step enc n x ivec =
     (if enc then (ivec ! n XOR x, ivec[n := ivec ! n XOR x]) else (ivec ! n XOR x, ivec[n := x]))"

definition cfb_whole :: "bool \<Rightarrow> bytes \<Rightarrow> bytes \<Rightarrow> bytes \<times> bytes" where
  "cfb_whole enc inp ivec =
     (if enc then (xor_bytes ivec inp, xor_bytes ivec inp) else (xor_bytes ivec inp, inp))"

definition CRYPTO_cfb128_encrypt :: "block128_f \<Rightarrow> bool \<Rightarrow> bytes \<Rightarrow> bytes \<times> nat \<Rightarrow> bytes \<times> bytes \<times> nat" where
  "CRYPTO_cfb128_encrypt block enc = stream_run block (cfb_step enc) (cfb_whole enc)"

text \<open>Feedback of \<open>nbits\<close> bits. \<open>ovec\<close> holds the old \<open>ivec\<close> and the ciphertext, and is shifted left.\<close>

definition cfbr_encrypt_block :: "block128_f \<Rightarrow> bool \<Rightarrow> nat \<Rightarrow> bytes \<Rightarrow> bytes \<Rightarrow> bytes \<times> bytes" where
  "cfbr_encrypt_block block enc nbits inp ivec0 =
     (let ivec = block ivec0;
          num = (nbits + 7) div 8;
          out = xor_bytes (take num inp) ivec;
          ovec = ivec0 @ (if enc then out else take num inp);
          rem = nbits mod 8;
          num = nbits div 8;
          ivec = (if rem = 0 then take 16 (drop num ovec)
                  else map (\<lambda>n. push_bit rem (ovec ! (n + num)) OR drop_bit (8 - rem) (ovec ! (n + num + 1))) [0..<16])
      in (out, ivec))"

text \<open>One bit at a time, most significant first, into a buffer \<open>out\<close> whose other bits are kept.\<close>

definition cfb1_input :: "bytes \<Rightarrow> nat \<Rightarrow> bytes" where
  "cfb1_input inp n = [if inp ! (n div 8) AND push_bit (7 - n mod 8) 1 \<noteq> 0 then 0x80 else 0]"

definition cfb1_store :: "bytes \<Rightarrow> nat \<Rightarrow> byte \<Rightarrow> bytes" where
  "cfb1_store out n d =
     out[n div 8 := (out ! (n div 8) AND NOT (push_bit (7 - n mod 8) 1)) OR drop_bit (n mod 8) (d AND 0x80)]"

function cfb1_loop :: "block128_f \<Rightarrow> bool \<Rightarrow> bytes \<Rightarrow> nat \<Rightarrow> nat \<Rightarrow> bytes \<Rightarrow> bytes \<Rightarrow> bytes \<times> bytes" where
  "cfb1_loop block enc inp n bits out ivec =
     (if n < bits then
        case cfbr_encrypt_block block enc 1 (cfb1_input inp n) ivec of (d, ivec) \<Rightarrow>
          cfb1_loop block enc inp (n + 1) bits (cfb1_store out n (d ! 0)) ivec
      else (out, ivec))"
  by pat_completeness auto
termination by (relation "measure (\<lambda>(block, enc, inp, n, bits, out, ivec). bits - n)") auto

declare cfb1_loop.simps [simp del]

definition CRYPTO_cfb128_1_encrypt :: "block128_f \<Rightarrow> bool \<Rightarrow> bytes \<Rightarrow> bytes \<Rightarrow> nat \<Rightarrow> bytes \<Rightarrow> bytes \<times> bytes" where
  "CRYPTO_cfb128_1_encrypt block enc inp out bits ivec = cfb1_loop block enc inp 0 bits out ivec"

fun CRYPTO_cfb128_8_encrypt :: "block128_f \<Rightarrow> bool \<Rightarrow> bytes \<Rightarrow> bytes \<Rightarrow> bytes \<times> bytes" where
  "CRYPTO_cfb128_8_encrypt block enc (x # xs) ivec =
     (case cfbr_encrypt_block block enc 8 [x] ivec of (out, ivec) \<Rightarrow>
      case CRYPTO_cfb128_8_encrypt block enc xs ivec of (outs, ivec) \<Rightarrow> (out @ outs, ivec))"
| "CRYPTO_cfb128_8_encrypt block enc [] ivec = ([], ivec)"


section \<open>Byte by byte\<close>

text \<open>The reference: every byte on its own, with new key stream whenever the position in the block is 0.\<close>

fun byte_stream ::
  "('k \<Rightarrow> 'k) \<Rightarrow> (nat \<Rightarrow> byte \<Rightarrow> 'k \<Rightarrow> byte \<times> 'k) \<Rightarrow> bytes \<Rightarrow> 'k \<times> nat \<Rightarrow> bytes \<times> 'k \<times> nat" where
  "byte_stream refresh step (x # xs) (k, n) =
     (case step n x (if n = 0 then refresh k else k) of (y, k) \<Rightarrow>
      case byte_stream refresh step xs (k, (n + 1) mod 16) of (ys, s) \<Rightarrow> (y # ys, s))"
| "byte_stream refresh step [] s = ([], s)"

lemma byte_stream_append:
  "byte_stream refresh step (xs @ ys) s =
     (case byte_stream refresh step xs s of (as, t) \<Rightarrow>
      case byte_stream refresh step ys t of (bs, u) \<Rightarrow> (as @ bs, u))"
proof (induction xs arbitrary: s)
  case (Cons x xs)
  obtain k n where s: "s = (k, n)" by (cases s)
  obtain y k1 where "step n x (if n = 0 then refresh k else k) = (y, k1)" by fastforce
  with Cons [of "(k1, (n + 1) mod 16)"] show ?case by (simp add: s split: prod.splits)
qed simp

lemma length_byte_stream: "length (fst (byte_stream refresh step xs s)) = length xs"
proof (induction xs arbitrary: s)
  case (Cons x xs)
  obtain k n where s: "s = (k, n)" by (cases s)
  obtain y k1 where "step n x (if n = 0 then refresh k else k) = (y, k1)" by fastforce
  with Cons [of "(k1, (n + 1) mod 16)"] show ?case by (simp add: s split_beta)
qed simp

locale stream_mode =
  fixes ok :: "'k \<Rightarrow> bool" and refresh :: "'k \<Rightarrow> 'k"
    and step :: "nat \<Rightarrow> byte \<Rightarrow> 'k \<Rightarrow> byte \<times> 'k" and whole :: "bytes \<Rightarrow> 'k \<Rightarrow> bytes \<times> 'k"
  assumes refresh_ok: "ok k \<Longrightarrow> ok (refresh k)"
    and step_ok: "ok k \<Longrightarrow> n < 16 \<Longrightarrow> step n x k = (y, k') \<Longrightarrow> ok k'"
    and whole_law: "ok k \<Longrightarrow> length xs = 16 \<Longrightarrow> tail_loop step xs k 0 = (ys, k', m) \<Longrightarrow> whole xs k = (ys, k')"
begin

lemma tail_bytes:
  assumes "tail_loop step xs k n = (ys, k', m)" "ok k" "n + length xs \<le> 16"
  shows "m = n + length xs \<and> ok k' \<and> (0 < n \<longrightarrow> byte_stream refresh step xs (k, n) = (ys, k', if xs = [] then n else m mod 16))"
  using assms
proof (induction xs arbitrary: k n ys)
  case (Cons x xs)
  obtain y k1 where s: "step n x k = (y, k1)" by fastforce
  obtain zs k2 m2 where t: "tail_loop step xs k1 (n + 1) = (zs, k2, m2)" by (cases "tail_loop step xs k1 (n + 1)") auto
  with s Cons.prems have e: "ys = y # zs" "k2 = k'" "m2 = m" and k1: "ok k1" using step_ok [OF _ _ s] by auto
  from Cons.IH [OF t [unfolded e] k1] Cons.prems(3) have IH: "m = n + 1 + length xs" "ok k'"
    "byte_stream refresh step xs (k1, n + 1) = (zs, k', if xs = [] then n + 1 else m mod 16)" by auto
  show ?case
  proof (cases xs)
    case Nil
    with t e s IH show ?thesis by auto
  next
    case (Cons a list)
    with Cons.prems(3) have "(n + 1) mod 16 = n + 1" by simp
    with IH e s Cons show ?thesis by simp
  qed
qed auto

lemma tail_is_bytewise:
  assumes "tail_loop step xs (refresh k) 0 = (ys, k', m)" "ok k" "xs \<noteq> []" "length xs \<le> 16"
  shows "byte_stream refresh step xs (k, 0) = (ys, k', m mod 16)" "m = length xs" "ok k'"
proof -
  obtain x zs where xs: "xs = x # zs" using assms(3) by (cases xs) auto
  obtain y k1 where s: "step 0 x (refresh k) = (y, k1)" by fastforce
  obtain ys1 k2 m2 where t: "tail_loop step zs k1 1 = (ys1, k2, m2)" by (cases "tail_loop step zs k1 1") auto
  with xs s assms(1) have e: "ys = y # ys1" "k2 = k'" "m2 = m" by auto
  have k1: "ok k1" using step_ok [OF refresh_ok [OF assms(2)] _ s] by simp
  from tail_bytes [OF t k1] assms(4) have "m2 = 1 + length zs" "ok k2"
    "byte_stream refresh step zs (k1, 1) = (ys1, k2, if zs = [] then 1 else m2 mod 16)" by (simp_all add: xs)
  with e s show "byte_stream refresh step xs (k, 0) = (ys, k', m mod 16)" "m = length xs" "ok k'" by (auto simp: xs)
qed

lemma lead_is_bytewise:
  assumes "lead_loop step xs k n = (ys, k', m, rest)" "ok k" "n < 16"
  shows "ok k' \<and> m < 16 \<and> (rest = [] \<or> m = 0) \<and>
    byte_stream refresh step xs (k, n) = (case byte_stream refresh step rest (k', m) of (zs, s) \<Rightarrow> (ys @ zs, s))"
  using assms
proof (induction xs arbitrary: k n ys k' m rest)
  case (Cons x xs)
  show ?case
  proof (cases "n = 0")
    case False
    obtain y k1 where s: "step n x k = (y, k1)" by fastforce
    obtain zs k2 m2 r where t: "lead_loop step xs k1 ((n + 1) mod 16) = (zs, k2, m2, r)"
      by (cases "lead_loop step xs k1 ((n + 1) mod 16)") auto
    have "ok k1" using step_ok [OF Cons.prems(2,3) s] .
    from Cons.IH [OF t this] s t False Cons.prems show ?thesis by (auto split: prod.splits)
  qed (use Cons.prems in \<open>auto split: prod.splits\<close>)
qed auto

lemma blocks_are_bytewise:
  assumes "block_loop refresh whole xs k 0 = (ys, k', m, rest)" "ok k"
  shows "ok k' \<and> m = 0 \<and> length rest < 16 \<and>
    byte_stream refresh step xs (k, 0) = (case byte_stream refresh step rest (k', 0) of (zs, s) \<Rightarrow> (ys @ zs, s))"
  using assms
proof (induction "length xs" arbitrary: xs k ys k' m rest rule: less_induct)
  case less
  show ?case
  proof (cases "length xs \<ge> 16")
    case True
    define b where "b = take 16 xs"
    have b: "xs = b @ drop 16 xs" "length b = 16" using True by (simp_all add: b_def)
    obtain o1 k1 n1 where t: "tail_loop step b (refresh k) 0 = (o1, k1, n1)" by (cases "tail_loop step b (refresh k) 0") auto
    have w: "whole b (refresh k) = (o1, k1)" using whole_law [OF refresh_ok [OF less.prems(2)] b(2) t] .
    have first: "byte_stream refresh step b (k, 0) = (o1, k1, 0)" "ok k1"
      using tail_is_bytewise [OF t less.prems(2)] b(2) by (cases "b = []"; simp)+
    obtain o2 k2 m2 r where rec: "block_loop refresh whole (drop 16 xs) k1 0 = (o2, k2, m2, r)"
      by (cases "block_loop refresh whole (drop 16 xs) k1 0") auto
    have "block_loop refresh whole xs k 0 = (o1 @ o2, k2, m2, r)"
      using True w rec by (subst block_loop.simps) (simp add: b_def)
    with less.prems(1) have e: "ys = o1 @ o2" "k' = k2" "m = m2" "rest = r" by simp_all
    have "length (drop 16 xs) < length xs" using True by simp
    from less.hyps [OF this rec first(2)] have IH: "ok k2 \<and> m2 = 0 \<and> length r < 16 \<and>
      byte_stream refresh step (drop 16 xs) (k1, 0) = (case byte_stream refresh step r (k2, 0) of (zs, s) \<Rightarrow> (o2 @ zs, s))" .
    have "byte_stream refresh step xs (k, 0) = byte_stream refresh step (b @ drop 16 xs) (k, 0)" using b(1) by simp
    also have "\<dots> = (case byte_stream refresh step r (k2, 0) of (zs, s) \<Rightarrow> (o1 @ o2 @ zs, s))"
      unfolding byte_stream_append first(1) prod.case using IH by (simp split: prod.splits)
    finally show ?thesis using IH e by simp
  next
    case False
    with less.prems show ?thesis by (subst (asm) block_loop.simps) (auto split: prod.splits)
  qed
qed

theorem run_is_bytewise:
  assumes "ok k" "n < 16"
  shows "stream_run refresh step whole xs (k, n) = byte_stream refresh step xs (k, n)"
proof -
  obtain o1 k1 n1 r1 where 1: "lead_loop step xs k n = (o1, k1, n1, r1)" by (cases "lead_loop step xs k n") auto
  obtain o2 k2 n2 r2 where 2: "block_loop refresh whole r1 k1 n1 = (o2, k2, n2, r2)"
    by (cases "block_loop refresh whole r1 k1 n1") auto
  note l = lead_is_bytewise [OF 1 assms]
  show ?thesis
  proof (cases "n1 = 0")
    case False
    with l have "r1 = []" by blast
    with 2 have "o2 = []" "k2 = k1" "n2 = n1" "r2 = []" by (simp_all add: block_loop.simps)
    with 1 2 l \<open>r1 = []\<close> show ?thesis by (simp add: stream_run_def)
  next
    case True
    from blocks_are_bytewise [OF 2 [unfolded True]] l have b: "ok k2" "n2 = 0" "length r2 < 16"
      "byte_stream refresh step r1 (k1, 0) = (case byte_stream refresh step r2 (k2, 0) of (zs, s) \<Rightarrow> (o2 @ zs, s))" by auto
    show ?thesis
    proof (cases "r2 = []")
      case True
      with 1 2 l b \<open>n1 = 0\<close> show ?thesis by (simp add: stream_run_def)
    next
      case False
      obtain o3 k3 n3 where 3: "tail_loop step r2 (refresh k2) 0 = (o3, k3, n3)"
        by (cases "tail_loop step r2 (refresh k2) 0") auto
      from tail_is_bytewise [OF 3 b(1) False] b(3)
      have "byte_stream refresh step r2 (k2, 0) = (o3, k3, n3)" by simp
      with 1 2 3 l b \<open>n1 = 0\<close> False show ?thesis by (simp add: stream_run_def)
    qed
  qed
qed

text \<open>So the places at which the data is cut into calls do not matter, and the state stays in shape.\<close>

lemma byte_stream_ok:
  "ok k \<Longrightarrow> n < 16 \<Longrightarrow> byte_stream refresh step xs (k, n) = (ys, k', m) \<Longrightarrow> ok k' \<and> m < 16"
proof (induction xs arbitrary: k n ys)
  case (Cons x xs)
  obtain y k1 where s: "step n x (if n = 0 then refresh k else k) = (y, k1)" by fastforce
  have "ok k1" using step_ok [OF _ Cons.prems(2) s] Cons.prems(1) refresh_ok by simp
  with Cons.IH [of k1 "(n + 1) mod 16"] Cons.prems(3) s show ?case by (auto split: prod.splits)
qed auto

lemma run_append:
  assumes "ok k" "n < 16"
  shows "stream_run refresh step whole (xs @ ys) (k, n) =
    (case stream_run refresh step whole xs (k, n) of (as, t) \<Rightarrow>
     case stream_run refresh step whole ys t of (bs, u) \<Rightarrow> (as @ bs, u))"
proof -
  obtain as k1 n1 where a: "byte_stream refresh step xs (k, n) = (as, k1, n1)"
    by (cases "byte_stream refresh step xs (k, n)") auto
  with byte_stream_ok [OF assms a] show ?thesis by (simp add: run_is_bytewise assms byte_stream_append)
qed

end

locale inverse_modes =
  enc: stream_mode ok refresh step whole + dec: stream_mode ok refresh step' whole'
  for ok :: "'k \<Rightarrow> bool" and refresh and step and whole and step' and whole' +
  assumes undo: "ok k \<Longrightarrow> n < 16 \<Longrightarrow> step n x k = (y, k') \<Longrightarrow> step' n y k = (x, k')"
begin

lemma bytes_undone:
  "ok k \<Longrightarrow> n < 16 \<Longrightarrow> byte_stream refresh step xs (k, n) = (ys, s) \<Longrightarrow> byte_stream refresh step' ys (k, n) = (xs, s)"
proof (induction xs arbitrary: k n ys s)
  case (Cons x xs)
  let ?k = "if n = 0 then refresh k else k"
  obtain y k1 where s: "step n x ?k = (y, k1)" by fastforce
  have k: "ok ?k" using Cons.prems(1) enc.refresh_ok by simp
  obtain zs t where r: "byte_stream refresh step xs (k1, (n + 1) mod 16) = (zs, t)"
    by (cases "byte_stream refresh step xs (k1, (n + 1) mod 16)")
  have "byte_stream refresh step' zs (k1, (n + 1) mod 16) = (xs, t)"
    using Cons.IH [OF enc.step_ok [OF k Cons.prems(2) s] _ r] by simp
  with undo [OF k Cons.prems(2) s] s r Cons.prems(3) show ?case by auto
qed auto

lemma run_undone:
  assumes "ok k" "n < 16" "stream_run refresh step whole xs (k, n) = (ys, s)"
  shows "stream_run refresh step' whole' ys (k, n) = (xs, s)"
  using bytes_undone assms by (simp add: enc.run_is_bytewise dec.run_is_bytewise)

end


section \<open>The modes\<close>

definition block16 :: "block128_f \<Rightarrow> bool" where
  "block16 block \<longleftrightarrow> (\<forall>b. length b = 16 \<longrightarrow> length (block b) = 16)"

lemma length_inc_loop [simp]: "length (inc_loop n c s) = length s"
  by (induction n arbitrary: c s) (simp_all add: Let_def)

lemma length_xor_bytes [simp]: "length (xor_bytes a b) = min (length a) (length b)"
  by (simp add: xor_bytes_def)

lemma xor_twice [simp]: "((a :: byte) XOR b) XOR b = a" "(b XOR (b XOR a)) = a" "b XOR (a XOR b) = a"
  by (simp_all add: xor.assoc xor.left_commute)

lemma xor_bytes_Cons: "n < length k \<Longrightarrow> xor_bytes (x # xs) (drop n k) = (x XOR k ! n) # xor_bytes xs (drop (Suc n) k)"
  by (simp add: xor_bytes_def Cons_nth_drop_Suc [symmetric])

text \<open>A loop over a key stream that does not change.\<close>

lemma tail_loop_xor:
  assumes "\<And>n x. n < 16 \<Longrightarrow> step n x k = (x XOR ks ! n, k)" "length ks = 16" "n + length xs \<le> 16"
  shows "tail_loop step xs k n = (xor_bytes xs (drop n ks), k, n + length xs)"
  using assms(3) by (induction xs arbitrary: n) (simp_all add: assms(1,2) xor_bytes_Cons, simp add: xor_bytes_def)

lemma tail_loop_cfb:
  assumes "length ivec = 16" "n + length xs \<le> 16"
  shows "tail_loop (cfb_step enc) xs ivec n =
    (xor_bytes (drop n ivec) xs,
     take n ivec @ (if enc then xor_bytes (drop n ivec) xs else xs) @ drop (n + length xs) ivec, n + length xs)"
  using assms
proof (induction xs arbitrary: ivec n)
  case (Cons x xs)
  define c where "c = (if enc then ivec ! n XOR x else x)"
  have n: "n < length ivec" using Cons.prems by simp
  have d: "drop n ivec = ivec ! n # drop (Suc n) ivec" using n by (simp add: Cons_nth_drop_Suc)
  have "cfb_step enc n x ivec = (ivec ! n XOR x, ivec[n := c])" by (simp add: cfb_step_def c_def)
  moreover have "take (Suc n) (ivec[n := c]) = take n ivec @ [c]" using n by (simp add: take_Suc_conv_app_nth)
  ultimately show ?case using Cons.IH [of "ivec[n := c]" "Suc n"] Cons.prems
    by (simp add: d) (simp add: xor_bytes_def c_def)
qed (simp add: xor_bytes_def)

text \<open>The state is in shape, and the block cipher returns blocks.\<close>

definition ctr_ok :: "block128_f \<Rightarrow> ctr_state \<Rightarrow> bool" where
  "ctr_ok block s \<longleftrightarrow> block16 block \<and> length (fst s) = 16 \<and> length (snd s) = 16"

definition iv_ok :: "block128_f \<Rightarrow> bytes \<Rightarrow> bool" where
  "iv_ok block ivec \<longleftrightarrow> block16 block \<and> length ivec = 16"

lemma cfb_undone:
  "iv_ok block k \<Longrightarrow> n < 16 \<Longrightarrow> cfb_step enc n x k = (y, k') \<Longrightarrow> cfb_step (\<not> enc) n y k = (x, k')"
  by (auto simp: cfb_step_def split: if_splits)

interpretation ctr: inverse_modes "ctr_ok block" "ctr_refresh block" ctr_step ctr_whole ctr_step ctr_whole for block
proof unfold_locales
  fix k xs ys k' m assume "ctr_ok block k" "length (xs :: bytes) = 16" "tail_loop ctr_step xs k 0 = (ys, k', m)"
  moreover from this have "tail_loop ctr_step xs k 0 = (xor_bytes xs (drop 0 (snd k)), k, 0 + length xs)"
    by (intro tail_loop_xor) (auto simp: ctr_step_def ctr_ok_def split_beta)
  ultimately show "ctr_whole xs k = (ys, k')" by (auto simp: ctr_whole_def split_beta)
qed (auto simp: ctr_ok_def ctr_refresh_def ctr_step_def block16_def ctr128_inc_def split_beta)

interpretation ofb: inverse_modes "iv_ok block" block ofb_step ofb_whole ofb_step ofb_whole for block
proof unfold_locales
  fix k xs ys k' m assume "iv_ok block k" "length (xs :: bytes) = 16" "tail_loop ofb_step xs k 0 = (ys, k', m)"
  moreover from this have "tail_loop ofb_step xs k 0 = (xor_bytes xs (drop 0 k), k, 0 + length xs)"
    by (intro tail_loop_xor) (auto simp: ofb_step_def iv_ok_def)
  ultimately show "ofb_whole xs k = (ys, k')" by (auto simp: ofb_whole_def)
qed (auto simp: iv_ok_def ofb_step_def block16_def)

interpretation cfb: inverse_modes "iv_ok block" block "cfb_step enc" "cfb_whole enc" "cfb_step (\<not> enc)" "cfb_whole (\<not> enc)"
  for block enc
proof unfold_locales
  fix k xs ys k' m assume "iv_ok block k" "length (xs :: bytes) = 16" "tail_loop (cfb_step enc) xs k 0 = (ys, k', m)"
  with tail_loop_cfb [of k 0 xs enc] show "cfb_whole enc xs k = (ys, k')" by (auto simp: cfb_whole_def iv_ok_def)
next
  fix k xs ys k' m assume "iv_ok block k" "length (xs :: bytes) = 16" "tail_loop (cfb_step (\<not> enc)) xs k 0 = (ys, k', m)"
  with tail_loop_cfb [of k 0 xs "\<not> enc"] show "cfb_whole (\<not> enc) xs k = (ys, k')" by (auto simp: cfb_whole_def iv_ok_def)
qed (auto simp: iv_ok_def cfb_step_def block16_def split: if_splits)

section \<open>The counter\<close>

definition ctr_add :: "bytes \<Rightarrow> nat \<Rightarrow> bytes" where
  "ctr_add iv i = be_bytes (length iv) (be_nat iv + i)"

lemma inc_loop_adds:
  assumes "n \<le> length s" "unat c \<le> 1"
  shows "inc_loop n c s = be_bytes n (be_nat (take n s) + unat c) @ drop n s"
  using assms
proof (induction n arbitrary: c s)
  case (Suc n)
  define v where "v = be_nat (take n s)"
  let ?sum = "c + ucast (s ! n) :: u32"
  have b: "unat (s ! n) + unat c < 4294967296" using Suc.prems(2) unat_byte_le [of "s ! n"] by linarith
  moreover have u: "unat (ucast (s ! n) :: u32) = unat (s ! n)" by (rule unat_ucast_up) simp
  ultimately have "unat c + unat (ucast (s ! n) :: u32) < 2 ^ LENGTH(32)" by simp
  then have sum: "unat ?sum = unat (s ! n) + unat c" using u unat_add_lem [of c "ucast (s ! n)"] by linarith
  then have c1: "unat (drop_bit 8 ?sum) = (unat (s ! n) + unat c) div 256" by (simp add: unat_drop_bit_div)
  also have "\<dots> \<le> 1" using Suc.prems(2) unat_byte_le [of "s ! n"] by linarith
  finally have c1': "unat (drop_bit 8 ?sum) \<le> 1" .
  have byte: "(ucast ?sum :: byte) = word_of_nat (unat (s ! n) + unat c)"
    by (rule word_unat_eq_iff [THEN iffD2], unfold unat_ucast_mod unat_byte_of_nat sum) simp
  have t: "take (Suc n) s = take n s @ [s ! n]" using Suc.prems(1) by (simp add: take_Suc_conv_app_nth)
  have "(v * 256 + unat (s ! n) + unat c) div 256 = v + (unat (s ! n) + unat c) div 256"
    by (simp add: add.assoc)
  moreover have "(word_of_nat (v * 256 + unat (s ! n) + unat c) :: byte) = word_of_nat (unat (s ! n) + unat c)"
    by (rule word_unat_eq_iff [THEN iffD2]) (simp add: unat_byte_of_nat add.assoc del: of_nat_add)
  ultimately have split: "be_bytes (Suc n) (v * 256 + unat (s ! n) + unat c) =
    be_bytes n (v + (unat (s ! n) + unat c) div 256) @ [word_of_nat (unat (s ! n) + unat c)]" by simp
  have "inc_loop (Suc n) c s = inc_loop n (drop_bit 8 ?sum) (s[n := ucast ?sum])" by (simp add: Let_def)
  also have "\<dots> = be_bytes n (v + unat (drop_bit 8 ?sum)) @ drop n (s[n := ucast ?sum])"
    using Suc.IH [OF _ c1', of "s[n := ucast ?sum]"] Suc.prems(1) by (simp add: v_def)
  also have "drop n (s[n := ucast ?sum]) = ucast ?sum # drop (Suc n) s"
    using Suc.prems(1) by (simp add: drop_update_swap Cons_nth_drop_Suc [symmetric])
  finally show ?case using split t by (simp add: c1 byte v_def del: of_nat_add be_bytes.simps)
qed simp


lemma be_bytes_split: "be_bytes (m + n) v = be_bytes m (v div 256 ^ n) @ be_bytes n v"
  by (induction n arbitrary: v) (simp_all add: div_mult2_eq)

lemma be_bytes_wraps: "be_bytes n (a * 256 ^ n + v) = be_bytes n v"
proof (induction n arbitrary: a v)
  case (Suc n)
  have "(a * 256 ^ Suc n + v) div 256 = a * 256 ^ n + v div 256"
    by (simp add: mult.left_commute [of a])
  moreover have "(word_of_nat (a * 256 ^ Suc n + v) :: byte) = word_of_nat v"
    by (rule word_unat_eq_iff [THEN iffD2], unfold unat_byte_of_nat) (simp add: mult.left_commute [of a])
  ultimately show ?case using Suc [of a "v div 256"] by simp
qed simp

definition low32 :: "bytes \<Rightarrow> nat" where
  "low32 iv = be_nat (drop 12 iv)"

lemma ctr_add_split:
  assumes "length iv = 16"
  shows "ctr_add iv i = be_bytes 12 (be_nat (take 12 iv) + (low32 iv + i) div 2 ^ 32) @ be_bytes 4 (low32 iv + i)"
proof -
  have "be_nat iv = be_nat (take 12 iv) * 256 ^ 4 + low32 iv"
    using be_nat_append [of "take 12 iv" "drop 12 iv"] assms by (simp add: low32_def)
  then have "ctr_add iv i = be_bytes (12 + 4) (be_nat (take 12 iv) * 256 ^ 4 + (low32 iv + i))"
    using assms by (simp add: ctr_add_def add.assoc)
  then show ?thesis unfolding be_bytes_split be_bytes_wraps by simp
qed

lemma low32_lt: "length iv = 16 \<Longrightarrow> low32 iv < 2 ^ 32"
  using be_nat_bound [of "drop 12 iv"] by (simp add: low32_def)

lemma ctr_add_small:
  assumes "length iv = 16" "low32 iv + i < 2 ^ 32"
  shows "ctr_add iv i = take 12 iv @ be_bytes 4 (low32 iv + i)"
proof -
  have "be_bytes (length (take 12 iv)) (be_nat (take 12 iv)) = take 12 iv" by (rule be_bytes_be_nat)
  with assms show ?thesis by (simp add: ctr_add_split)
qed

lemma ctr_add_0 [simp]: "ctr_add iv 0 = iv"
  by (simp add: ctr_add_def be_bytes_be_nat)

lemma ctr_add_add: "length iv = 16 \<Longrightarrow> ctr_add (ctr_add iv i) j = ctr_add iv (i + j)"
proof -
  assume "length iv = 16"
  have "be_bytes 16 (v mod 256 ^ 16 + j) = be_bytes 16 (v + j)" for v
    using be_bytes_wraps [of 16 "v div 256 ^ 16" "v mod 256 ^ 16 + j"] by (simp add: add.assoc [symmetric])
  then show ?thesis using \<open>length iv = 16\<close> by (simp add: ctr_add_def be_nat_be_bytes add.assoc)
qed

lemma length_ctr_add [simp]: "length (ctr_add iv i) = length iv"
  by (simp add: ctr_add_def)

lemma ctr128_inc_adds: "length iv = 16 \<Longrightarrow> ctr128_inc iv = ctr_add iv 1"
  using inc_loop_adds [of 16 iv 1] by (simp add: ctr128_inc_def ctr_add_def)

lemma low32_ctr_add: "length iv = 16 \<Longrightarrow> low32 (ctr_add iv i) = (low32 iv + i) mod 2 ^ 32"
  by (simp add: ctr_add_split low32_def [of "_ @ _"] be_nat_be_bytes)

text \<open>What the caller of a 32-bit counter does after \<open>b\<close> blocks is to add \<open>b\<close> to the 128-bit counter.\<close>

lemma ctr32_advances:
  assumes iv: "length iv = 16" and b: "0 < b" "low32 iv + b \<le> 2 ^ 32" and c: "c = (word_of_nat (low32 iv + b) :: u32)"
  shows "(if c = 0 then ctr96_inc (PUTU32 iv 12 c) else PUTU32 iv 12 c) = ctr_add iv b"
proof (cases "low32 iv + b = 2 ^ 32")
  case True
  then have c0: "c = 0" by (simp add: c)
  then have "PUTU32 iv 12 c = take 12 iv @ be_bytes 4 0" using iv by (simp add: PUTU32_def)
  then have "ctr96_inc (PUTU32 iv 12 c) = be_bytes 12 (be_nat (take 12 iv) + 1) @ be_bytes 4 0"
    using inc_loop_adds [of 12 "take 12 iv @ be_bytes 4 0" 1] iv by (simp add: ctr96_inc_def)
  moreover have "be_bytes 4 (2 ^ 32) = be_bytes 4 0" using be_bytes_wraps [of 4 1 0] by simp
  ultimately show ?thesis using c0 True by (simp add: ctr_add_split [OF iv])
next
  case False
  with b have lt: "low32 iv + b < 2 ^ 32" by simp
  then have u: "unat c = low32 iv + b" unfolding c by (subst unat_of_nat) simp
  then have "c \<noteq> 0" using b(1) by auto
  then show ?thesis using iv u ctr_add_small [OF iv lt] by (simp add: PUTU32_def)
qed


text \<open>What is asked of the function for runs of blocks: the key stream of a counter in the last 32 bits, as
  long as these do not overflow.\<close>

fun ctr_blocks :: "block128_f \<Rightarrow> bytes \<Rightarrow> bytes \<Rightarrow> nat \<Rightarrow> nat \<Rightarrow> bytes" where
  "ctr_blocks block iv inp i 0 = []"
| "ctr_blocks block iv inp i (Suc b) =
     xor_bytes (take 16 inp) (block (take 12 iv @ be_bytes 4 (low32 iv + i))) @ ctr_blocks block iv (drop 16 inp) (Suc i) b"

definition ctr32_func :: "block128_f \<Rightarrow> ctr128_f \<Rightarrow> bool" where
  "ctr32_func block func \<longleftrightarrow>
     (\<forall>inp b iv. length iv = 16 \<and> length inp = 16 * b \<and> low32 iv + b \<le> 2 ^ 32 \<longrightarrow>
        func inp b iv = ctr_blocks block iv inp 0 b)"

lemma ctr_blocks_take: "16 * b \<le> m \<Longrightarrow> ctr_blocks block iv (take m inp) i b = ctr_blocks block iv inp i b"
proof (induction b arbitrary: m inp i)
  case (Suc b)
  then have "ctr_blocks block iv (take (m - 16) (drop 16 inp)) (Suc i) b = ctr_blocks block iv (drop 16 inp) (Suc i) b"
    by (intro Suc.IH) simp
  with Suc.prems show ?case by (simp add: drop_take min_absorb1)
qed simp

lemma block_loop_runs:
  assumes "length iv = 16" "low32 iv + i + b \<le> 2 ^ 32" "16 * b \<le> length inp"
  shows "\<exists>ec'. block_loop (ctr_refresh block) ctr_whole inp (ctr_add iv i, ec) 0 =
    (case block_loop (ctr_refresh block) ctr_whole (drop (16 * b) inp) (ctr_add iv (i + b), ec') 0 of
       (outs, r) \<Rightarrow> (ctr_blocks block iv inp i b @ outs, r))"
  using assms(2,3)
proof (induction b arbitrary: inp i ec)
  case (Suc b)
  define ks where "ks = block (ctr_add iv i)"
  have ks: "ks = block (take 12 iv @ be_bytes 4 (low32 iv + i))"
    unfolding ks_def using ctr_add_small [OF assms(1), of i] Suc.prems(1) by simp
  have k: "ctr_refresh block (ctr_add iv i, ec) = (ctr_add iv (Suc i), ks)"
    using ctr128_inc_adds [of "ctr_add iv i"] ctr_add_add [OF assms(1), of i 1] assms(1)
    by (simp add: ctr_refresh_def ks_def)
  have "low32 iv + Suc i + b \<le> 2 ^ 32" "16 * b \<le> length (drop 16 inp)" using Suc.prems by simp_all
  from Suc.IH [OF this, of ks] obtain ec' where
    "block_loop (ctr_refresh block) ctr_whole (drop 16 inp) (ctr_add iv (Suc i), ks) 0 =
      (case block_loop (ctr_refresh block) ctr_whole (drop (16 * b) (drop 16 inp)) (ctr_add iv (Suc i + b), ec') 0 of
       (outs, r) \<Rightarrow> (ctr_blocks block iv (drop 16 inp) (Suc i) b @ outs, r))" by blast
  then have "block_loop (ctr_refresh block) ctr_whole inp (ctr_add iv i, ec) 0 =
    (case block_loop (ctr_refresh block) ctr_whole (drop (16 * Suc b) inp) (ctr_add iv (i + Suc b), ec') 0 of
       (outs, r) \<Rightarrow> (ctr_blocks block iv inp i (Suc b) @ outs, r))"
    using Suc.prems by (subst block_loop.simps) (simp add: k ks ctr_whole_def split_beta add.commute [of "16 * b" 16])
  then show ?case by blast
qed (auto split: prod.splits)

lemma ctr32_loop_is_block_loop:
  assumes "ctr32_func block func" "length iv = 16" "unat ctr32 = low32 iv"
    and "ctr32_loop func inp iv ctr32 = (outs, iv', ctr32', rest)"
  shows "(\<exists>ec'. block_loop (ctr_refresh block) ctr_whole inp (iv, ec) 0 = (outs, (iv', ec'), 0, rest)) \<and>
    length iv' = 16 \<and> unat ctr32' = low32 iv' \<and> length rest < 16"
  using assms(2-)
proof (induction "length inp" arbitrary: inp iv ctr32 outs ec rule: less_induct)
  case less
  show ?case
  proof (cases "length inp \<ge> 16")
    case False
    with less.prems show ?thesis by (simp add: ctr32_loop.simps block_loop.simps)
  next
    case True
    define b0 where "b0 = (if length inp div 16 > 2 ^ 28 then 2 ^ 28 else length inp div 16)"
    define c0 where "c0 = ctr32 + (word_of_nat b0 :: u32)"
    define wrapped where "wrapped = (unat c0 < b0)"
    define b where "b = (if wrapped then b0 - unat c0 else b0)"
    define c where "c = (if wrapped then 0 else c0)"
    define iv1 where "iv1 = (if c = 0 then ctr96_inc (PUTU32 iv 12 c) else PUTU32 iv 12 c)"
    define out where "out = func (take (16 * b) inp) b iv"
    have b0: "0 < b0" "16 * b0 \<le> length inp" "b0 \<le> 2 ^ 28" using True by (auto simp: b0_def)
    have L: "low32 iv < 2 ^ 32" using low32_lt less.prems(1) by blast
    have b0w: "unat (word_of_nat b0 :: u32) = b0" using b0(3) by (subst unat_of_nat) simp
    have c0: "unat c0 = (low32 iv + b0) mod 2 ^ 32"
      unfolding c0_def unat_word_ariths(1) b0w less.prems(2) by simp
    have b: "0 < b \<and> low32 iv + b \<le> 2 ^ 32 \<and> c = word_of_nat (low32 iv + b) \<and> b \<le> b0"
    proof (cases "low32 iv + b0 < 2 ^ 32")
      case False
      then have u: "unat c0 = low32 iv + b0 - 2 ^ 32" using c0 L b0(3) by (simp add: mod_if)
      with L False have n: "low32 iv < 4294967296" "4294967296 \<le> low32 iv + b0" "unat c0 = low32 iv + b0 - 4294967296"
        by simp_all
      then have w: wrapped unfolding wrapped_def using b0(1) by linarith
      moreover have "low32 iv + (b0 - unat c0) = 4294967296" using n by linarith
      ultimately have w: wrapped "low32 iv + b = 2 ^ 32" by (simp_all add: b_def)
      have "(word_of_nat (2 ^ 32) :: u32) = 0" by simp
      with w b_def b0 L show ?thesis by (simp add: c_def del: of_nat_add of_nat_power)
    next
      case True
      then have u: "unat c0 = low32 iv + b0" using c0 by simp
      then have "\<not> wrapped" by (simp add: wrapped_def)
      moreover have "c0 = word_of_nat (low32 iv + b0)"
        by (rule word_unat_eq_iff [THEN iffD2], unfold u unat_of_nat) (use True in simp)
      ultimately show ?thesis using True b0 by (simp add: b_def c_def)
    qed
    from b have iv1: "iv1 = ctr_add iv b" unfolding iv1_def by (intro ctr32_advances [OF less.prems(1)]) auto
    have out: "out = ctr_blocks block iv inp 0 b"
    proof -
      have "length (take (16 * b) inp) = 16 * b" using b b0(2) by simp
      then have "out = ctr_blocks block iv (take (16 * b) inp) 0 b"
        using assms(1) b less.prems(1) unfolding ctr32_func_def out_def by blast
      then show ?thesis by (simp add: ctr_blocks_take)
    qed
    obtain outs1 ivf cf r where rec: "ctr32_loop func (drop (16 * b) inp) iv1 c = (outs1, ivf, cf, r)"
      by (cases "ctr32_loop func (drop (16 * b) inp) iv1 c") auto
    have "ctr32_loop func inp iv ctr32 = (out @ outs1, ivf, cf, r)"
      by (subst ctr32_loop.simps)
        (simp only: True if_True Let_def b0_def [symmetric] c0_def [symmetric] wrapped_def [symmetric] b_def [symmetric]
           c_def [symmetric] iv1_def [symmetric] out_def [symmetric] rec prod.case)
    with less.prems(3) have e: "outs = out @ outs1" "ivf = iv'" "cf = ctr32'" "r = rest" by simp_all
    have c: "unat c = low32 iv1"
    proof -
      have "unat c = (low32 iv + b) mod 2 ^ 32" using b by (simp only: unat_of_nat) simp
      then show ?thesis by (simp add: iv1 low32_ctr_add [OF less.prems(1)])
    qed
    from block_loop_runs [OF less.prems(1), of 0 b inp block ec] b b0 obtain ec1 where run:
      "block_loop (ctr_refresh block) ctr_whole inp (iv, ec) 0 =
        (case block_loop (ctr_refresh block) ctr_whole (drop (16 * b) inp) (iv1, ec1) 0 of
          (outs, r) \<Rightarrow> (out @ outs, r))" by (auto simp: iv1 out)
    have "length (drop (16 * b) inp) < length inp" using conjunct1 [OF b] True by simp
    from less.hyps [OF this _ c rec [unfolded e(2-4)], of ec1] run e show ?thesis by (auto simp: iv1 less.prems(1))
  qed
qed

text \<open>C33: \<open>CRYPTO_ctr128_encrypt_ctr32\<close>, which hands whole runs of blocks to a function that only counts in 32 bits,
  writes what \<open>CRYPTO_ctr128_encrypt\<close> writes and leaves the same counter and position, wherever the 32-bit counter
  overflows; of the key stream block it keeps what is still to be used.\<close>

theorem ctr32_is_ctr128:
  assumes "ctr32_func block func" "ctr_ok block (iv, ec)" "n < 16"
    and "CRYPTO_ctr128_encrypt_ctr32 func inp ((iv, ec), n) = (out, (iv', ec'), n')"
  shows "\<exists>ec''. CRYPTO_ctr128_encrypt block inp ((iv, ec), n) = (out, (iv', ec''), n') \<and> (n' \<noteq> 0 \<longrightarrow> ec'' = ec')"
proof -
  obtain o1 k1 n1 r1 where 1: "lead_loop ctr_step inp (iv, ec) n = (o1, k1, n1, r1)"
    by (cases "lead_loop ctr_step inp (iv, ec) n") auto
  obtain iv1 ec1 where k1: "k1 = (iv1, ec1)" by (cases k1)
  note l = ctr.enc.lead_is_bytewise [OF 1 assms(2,3)]
  have iv1: "length iv1 = 16" "ctr_ok block (iv1, ec1)" using l k1 by (simp_all add: ctr_ok_def)
  have g: "unat (GETU32 (drop 12 iv1)) = low32 iv1"
    using low32_lt [OF iv1(1)] iv1(1) by (simp add: GETU32_def low32_def unat_of_nat)
  obtain o2 iv2 c2 r2 where 2: "ctr32_loop func r1 iv1 (GETU32 (drop 12 iv1)) = (o2, iv2, c2, r2)"
    by (cases "ctr32_loop func r1 iv1 (GETU32 (drop 12 iv1))") auto
  from ctr32_loop_is_block_loop [OF assms(1) iv1(1) g 2, of ec1] obtain ec2 where
    b: "block_loop (ctr_refresh block) ctr_whole r1 (iv1, ec1) 0 = (o2, (iv2, ec2), 0, r2)"
    and iv2: "length iv2 = 16" "unat c2 = low32 iv2" "length r2 < 16" by blast
  have b': "block_loop (ctr_refresh block) ctr_whole r1 (iv1, ec1) n1 = (o2, (iv2, if r1 = [] then ec1 else ec2), n1, r2) \<and> (r1 \<noteq> [] \<longrightarrow> n1 = 0)"
  proof (cases "r1 = []")
    case True
    with b show ?thesis by (simp add: block_loop.simps)
  next
    case False
    with l b show ?thesis by auto
  qed
  show ?thesis
  proof (cases "r2 = []")
    case True
    with 1 2 k1 assms(4) have e: "out = o1 @ o2" "iv' = iv2" "ec' = ec1" "n' = n1"
      by (simp_all add: CRYPTO_ctr128_encrypt_ctr32_def)
    with 1 k1 b' True show ?thesis by (simp add: CRYPTO_ctr128_encrypt_def stream_run_def)
  next
    case False
    have r1: "r1 \<noteq> []" using False b' b by (auto simp: block_loop.simps)
    define c where "c = c2 + 1"
    have L: "low32 iv2 + 1 \<le> 2 ^ 32" using low32_lt [OF iv2(1)] by simp
    have "c = word_of_nat (low32 iv2 + 1)" unfolding c_def iv2(2) [symmetric] by simp
    then have adv: "(if c = 0 then ctr96_inc (PUTU32 iv2 12 c) else PUTU32 iv2 12 c) = ctr128_inc iv2"
      unfolding ctr128_inc_adds [OF iv2(1)] by (intro ctr32_advances [OF iv2(1) _ L]) simp_all
    have len: "length (block iv2) = 16" using assms(2) iv2(1) by (simp add: ctr_ok_def block16_def)
    have "func (replicate 16 0) 1 iv2 = ctr_blocks block iv2 (replicate 16 0) 0 1"
      using assms(1) iv2(1) L unfolding ctr32_func_def by simp
    also have "\<dots> = xor_bytes (replicate 16 0) (block iv2)"
      using ctr_add_small [OF iv2(1), of 0] low32_lt [OF iv2(1)] by simp
    also have "\<dots> = block iv2" using len unfolding xor_bytes_def
      by (intro nth_equalityI) auto
    finally have f: "func (replicate 16 0) 1 iv2 = block iv2" .
    obtain o3 k3 n3 where 3: "tail_loop ctr_step r2 (ctr128_inc iv2, block iv2) n1 = (o3, k3, n3)"
      by (cases "tail_loop ctr_step r2 (ctr128_inc iv2, block iv2) n1") auto
    from 1 2 3 k1 False f adv [unfolded c_def] assms(4) have e: "out = o1 @ o2 @ o3" "k3 = (iv', ec')" "n3 = n'"
      by (auto simp: CRYPTO_ctr128_encrypt_ctr32_def Let_def)
    moreover have "ctr_refresh block (iv2, ec2) = (ctr128_inc iv2, block iv2)" by (simp add: ctr_refresh_def)
    then have "stream_run (ctr_refresh block) ctr_step ctr_whole inp ((iv, ec), n) = (o1 @ o2 @ o3, k3, n3)"
      using 1 3 k1 b' r1 False by (auto simp: stream_run_def)
    ultimately show ?thesis by (simp add: CRYPTO_ctr128_encrypt_def)
  qed
qed

lemma block16_rev: "block16 rev"
  by (simp add: block16_def)

theorem ctr32_is_ctr128_witness:
  "let iv = replicate 16 255; func = (\<lambda>inp b iv. ctr_blocks rev iv inp 0 b) in
   \<exists>out ec ec'. CRYPTO_ctr128_encrypt_ctr32 func (replicate 40 0) ((iv, replicate 16 0), 0) = (out, (be_bytes 16 2, ec), 8) \<and>
     CRYPTO_ctr128_encrypt rev (replicate 40 0) ((iv, replicate 16 0), 0) = (out, (be_bytes 16 2, ec'), 8) \<and> ec' = ec"
proof -
  define iv :: bytes where "iv = replicate 16 255"
  define func where "func = (\<lambda>inp b iv. ctr_blocks rev iv inp 0 b)"
  have f: "ctr32_func rev func" by (simp add: ctr32_func_def func_def)
  have ok: "ctr_ok rev (iv, replicate 16 0)" by (simp add: ctr_ok_def block16_rev iv_def)
  obtain out iv' ec n' where run: "CRYPTO_ctr128_encrypt_ctr32 func (replicate 40 0) ((iv, replicate 16 0), 0) = (out, (iv', ec), n')"
    by (cases "CRYPTO_ctr128_encrypt_ctr32 func (replicate 40 0) ((iv, replicate 16 0), 0)") auto
  have "(case CRYPTO_ctr128_encrypt_ctr32 func (replicate 40 0) ((iv, replicate 16 0), 0) of
    (out, (iv', ec), n') \<Rightarrow> iv' = be_bytes 16 2 \<and> n' = 8)" unfolding func_def iv_def by code_simp
  with run have "iv' = be_bytes 16 2" "n' = 8" by simp_all
  with ctr32_is_ctr128 [OF f ok _ run] run show ?thesis unfolding iv_def func_def Let_def by auto
qed

section \<open>Bits of feedback\<close>

definition bit_at :: "bytes \<Rightarrow> nat \<Rightarrow> bool" where
  "bit_at bs n = bit (bs ! (n div 8)) (7 - n mod 8)"

lemma bit_0x80: "bit (0x80 :: byte) i \<longleftrightarrow> i = 7"
proof -
  have e: "(0x80 :: byte) = push_bit 7 1" by simp
  show ?thesis unfolding e by (auto simp only: bit_push_bit_iff bit_1_iff) simp_all
qed

lemma bit_128_int: "bit (128 :: int) i \<longleftrightarrow> i = 7"
proof -
  have e: "(128 :: int) = push_bit 7 1" by simp
  show ?thesis unfolding e by (auto simp only: bit_push_bit_iff bit_1_iff) simp_all
qed

lemma cfb1_input_bit: "cfb1_input inp n = [if bit_at inp n then 0x80 else 0]"
  by (simp add: cfb1_input_def bit_at_def bit_iff_and_push_bit_not_eq_0)

lemma length_cfb1_store [simp]: "length (cfb1_store out n d) = length out"
  by (simp add: cfb1_store_def)

lemma bit_stored:
  "a < 8 \<Longrightarrow> i < 8 \<Longrightarrow> bit ((w AND NOT (push_bit (7 - a) 1)) OR drop_bit a (d AND 0x80) :: byte) i \<longleftrightarrow>
     (if i = 7 - a then bit d 7 else bit w i)"
  by (auto simp: bit_or_iff bit_and_iff bit_not_iff bit_push_bit_iff bit_drop_bit_eq bit_exp_iff bit_0x80 bit_128_int)

lemma bit_at_store:
  assumes "n < 8 * length out"
  shows "bit_at (cfb1_store out n d) j = (if j = n then bit d 7 else bit_at out j)"
proof (cases "j div 8 = n div 8")
  case True
  have "n div 8 < length out" using assms by (simp add: less_mult_imp_div_less mult.commute)
  then have "bit_at (cfb1_store out n d) j =
    (if 7 - j mod 8 = 7 - n mod 8 then bit d 7 else bit (out ! (n div 8)) (7 - j mod 8))"
    using True by (simp only: bit_at_def cfb1_store_def nth_list_update_eq) (subst bit_stored, simp_all)
  moreover have "j mod 8 < 8" "n mod 8 < 8" by simp_all
  then have "7 - j mod 8 = 7 - n mod 8 \<longleftrightarrow> j mod 8 = n mod 8" by linarith
  moreover have "j mod 8 = n mod 8 \<longleftrightarrow> j = n" using True by (metis div_mult_mod_eq)
  ultimately show ?thesis using True by (simp add: bit_at_def)
next
  case False
  then show ?thesis by (auto simp: bit_at_def cfb1_store_def)
qed

text \<open>One step of encryption and the step of decryption on its result: the feedback is the same.\<close>

lemma cfbr8_undone:
  assumes "length (block iv) = 16" "cfbr_encrypt_block block True 8 [x] iv = (d, iv')"
  shows "\<exists>y. d = [y] \<and> cfbr_encrypt_block block False 8 [y] iv = ([x], iv')"
proof -
  obtain k ks where k: "block iv = k # ks" using assms(1) by (cases "block iv") auto
  with assms(2) have "d = [x XOR k]" "iv' = take 16 (drop 1 (iv @ [x XOR k]))"
    by (auto simp: cfbr_encrypt_block_def Let_def xor_bytes_def)
  with k show ?thesis by (simp add: cfbr_encrypt_block_def Let_def xor_bytes_def)
qed

lemma cfb8_undone:
  assumes "block16 block"
  shows "length iv = 16 \<Longrightarrow> CRYPTO_cfb128_8_encrypt block True xs iv = (ys, iv') \<Longrightarrow>
    CRYPTO_cfb128_8_encrypt block False ys iv = (xs, iv')"
proof (induction xs arbitrary: iv ys)
  case (Cons x xs)
  obtain d iv1 where s: "cfbr_encrypt_block block True 8 [x] iv = (d, iv1)" by fastforce
  have len: "length (block iv) = 16" using assms Cons.prems(1) by (simp add: block16_def)
  from cfbr8_undone [OF len s] obtain y where y: "d = [y]" "cfbr_encrypt_block block False 8 [y] iv = ([x], iv1)" by blast
  have "length iv1 = 16" using s Cons.prems(1) len by (auto simp: cfbr_encrypt_block_def Let_def)
  with Cons y s show ?case by (auto split: prod.splits)
qed simp

lemma cfbr1_step:
  assumes "length iv = 16" "length (block iv) = 16" "cfbr_encrypt_block block True 1 [x] iv = (d, iv')"
    and "x = (if b then 0x80 else 0)" "y = (if bit (d ! 0) 7 then 0x80 else 0)"
    and "cfbr_encrypt_block block False 1 [y] iv = (e, iv'')"
  shows "iv'' = iv' \<and> length iv' = 16 \<and> (bit (e ! 0) 7 \<longleftrightarrow> b)"
proof -
  obtain k ks where k: "block iv = k # ks" using assms(2) by (cases "block iv") auto
  have one: "(1 + 7) div 8 = (1 :: nat)" "(1 :: nat) mod 8 = 1" "(1 :: nat) div 8 = 0" by simp_all
  define f where "f c = map (\<lambda>n. push_bit 1 ((iv @ [c]) ! n) OR drop_bit 7 ((iv @ [c]) ! Suc n)) [0..<16]" for c :: byte
  have top: "drop_bit 7 c = drop_bit 7 c'" if "bit c 7 = bit c' 7" for c c' :: byte
  proof (rule bit_eqI)
    fix i show "bit (drop_bit 7 c) i = bit (drop_bit 7 c') i"
    proof (cases i)
      case 0
      with that show ?thesis by (simp add: bit_drop_bit_eq)
    next
      case (Suc m)
      then have "\<not> bit (c :: byte) (7 + i)" "\<not> bit c' (7 + i)" by (auto dest: bit_imp_le_length)
      then show ?thesis by (simp add: bit_drop_bit_eq)
    qed
  qed
  have f: "f c = f c'" if "bit c 7 = bit c' 7" for c c'
    unfolding f_def using top [OF that] assms(1) by (intro map_cong) (auto simp: nth_append)
  have enc: "d = [x XOR k]" "iv' = f (x XOR k)"
    using assms(3) k by (auto simp: cfbr_encrypt_block_def Let_def xor_bytes_def f_def)
  have dec: "e = [y XOR k]" "iv'' = f y"
    using assms(6) k by (auto simp: cfbr_encrypt_block_def Let_def xor_bytes_def f_def)
  have y: "bit y 7 = bit (x XOR k) 7" using assms(5) enc by (simp add: bit_0x80)
  have x: "bit x 7 = b" using assms(4) by (simp add: bit_0x80)
  from f [OF y] y x show ?thesis unfolding enc dec by (auto simp: bit_xor_iff f_def)
qed


lemma cfb1_keeps_earlier:
  "cfb1_loop block enc inp n bits out iv = (out', iv') \<Longrightarrow> bits \<le> 8 * length out \<Longrightarrow>
   length out' = length out \<and> (\<forall>j. j < n \<or> bits \<le> j \<longrightarrow> bit_at out' j = bit_at out j)"
proof (induction "bits - n" arbitrary: n out iv)
  case 0
  then show ?case by (simp add: cfb1_loop.simps)
next
  case (Suc m)
  then have n: "n < bits" by simp
  obtain d iv1 where s: "cfbr_encrypt_block block enc 1 (cfb1_input inp n) iv = (d, iv1)" by fastforce
  with Suc.prems(1) n have "cfb1_loop block enc inp (Suc n) bits (cfb1_store out n (d ! 0)) iv1 = (out', iv')"
    by (simp add: cfb1_loop.simps [of _ _ _ n])
  from Suc.hyps(1) [OF _ this] Suc.hyps(2) Suc.prems(2) n show ?case by (auto simp: bit_at_store)
qed

lemma cfb1_undone:
  assumes "block16 block" "bits \<le> 8 * length out1" "bits \<le> 8 * length out2"
    and "length iv = 16" "cfb1_loop block True inp n bits out1 iv = (c, iv1)"
    and "cfb1_loop block False c n bits out2 iv = (p, iv2)"
  shows "iv2 = iv1 \<and> (\<forall>j. n \<le> j \<longrightarrow> j < bits \<longrightarrow> bit_at p j = bit_at inp j)"
  using assms(2-)
proof (induction "bits - n" arbitrary: n out1 out2 iv)
  case 0
  then show ?case by (simp add: cfb1_loop.simps)
next
  case (Suc m)
  then have n: "n < bits" by simp
  obtain d iv' where e: "cfbr_encrypt_block block True 1 (cfb1_input inp n) iv = (d, iv')" by fastforce
  obtain x iv'' where x: "cfbr_encrypt_block block False 1 (cfb1_input c n) iv = (x, iv'')" by fastforce
  have c: "cfb1_loop block True inp (Suc n) bits (cfb1_store out1 n (d ! 0)) iv' = (c, iv1)"
    using Suc.prems(4) n e by (simp add: cfb1_loop.simps [of _ _ _ n])
  have p: "cfb1_loop block False c (Suc n) bits (cfb1_store out2 n (x ! 0)) iv'' = (p, iv2)"
    using Suc.prems(5) n x by (simp add: cfb1_loop.simps [of _ _ _ n])
  have "bit_at c n = bit (d ! 0) 7"
    using cfb1_keeps_earlier [OF c] Suc.prems(1) n by (simp add: bit_at_store)
  then have "cfb1_input c n = [if bit (d ! 0) 7 then 0x80 else 0]" unfolding cfb1_input_bit by (simp only:)
  note x' = x [unfolded this]
  have len: "length (block iv) = 16" using assms(1) Suc.prems(3) by (simp add: block16_def)
  note s = cfbr1_step [OF Suc.prems(3) len e [unfolded cfb1_input_bit] refl refl x']
  have "m = bits - Suc n" "bits \<le> 8 * length (cfb1_store out1 n (d ! 0))" "bits \<le> 8 * length (cfb1_store out2 n (x ! 0))"
    using Suc.hyps(2) Suc.prems(1,2) by simp_all
  from Suc.hyps(1) [OF this _ c p [unfolded conjunct1 [OF s]]] s
  have IH: "iv2 = iv1 \<and> (\<forall>j. Suc n \<le> j \<longrightarrow> j < bits \<longrightarrow> bit_at p j = bit_at inp j)" by blast
  have "bit_at p n = bit_at inp n"
    using cfb1_keeps_earlier [OF p] Suc.prems(2) n s by (simp add: bit_at_store)
  with IH show ?case using Suc_leI le_neq_implies_less by metis
qed

text \<open>C34: Where the data is cut into calls does not matter to the stream modes: encrypting or decrypting two
  pieces with the state carried over gives what the whole gives, and the same state.\<close>

theorem stream_modes_ignore_cuts:
  assumes "ctr_ok block k" "iv_ok block iv" "n < 16"
  shows "CRYPTO_ctr128_encrypt block (xs @ ys) (k, n) =
      (case CRYPTO_ctr128_encrypt block xs (k, n) of (as, t) \<Rightarrow>
       case CRYPTO_ctr128_encrypt block ys t of (bs, u) \<Rightarrow> (as @ bs, u)) \<and>
    CRYPTO_ofb128_encrypt block (xs @ ys) (iv, n) =
      (case CRYPTO_ofb128_encrypt block xs (iv, n) of (as, t) \<Rightarrow>
       case CRYPTO_ofb128_encrypt block ys t of (bs, u) \<Rightarrow> (as @ bs, u)) \<and>
    CRYPTO_cfb128_encrypt block enc (xs @ ys) (iv, n) =
      (case CRYPTO_cfb128_encrypt block enc xs (iv, n) of (as, t) \<Rightarrow>
       case CRYPTO_cfb128_encrypt block enc ys t of (bs, u) \<Rightarrow> (as @ bs, u))"
  unfolding CRYPTO_ctr128_encrypt_def CRYPTO_ofb128_encrypt_def CRYPTO_cfb128_encrypt_def
  using ctr.enc.run_append [OF assms(1,3)] ofb.enc.run_append [OF assms(2,3)] cfb.enc.run_append [OF assms(2,3)]
  by (intro conjI)

theorem stream_modes_ignore_cuts_witness:
  "CRYPTO_ctr128_encrypt rev ([1, 2, 3] @ replicate 30 4) ((replicate 16 9, replicate 16 0), 0) =
     (case CRYPTO_ctr128_encrypt rev [1, 2, 3] ((replicate 16 9, replicate 16 0), 0) of (as, t) \<Rightarrow>
      case CRYPTO_ctr128_encrypt rev (replicate 30 4) t of (bs, u) \<Rightarrow> (as @ bs, u))"
  by (rule conjunct1 [OF stream_modes_ignore_cuts [where iv = "replicate 16 0"]])
    (simp_all add: ctr_ok_def iv_ok_def block16_rev)

text \<open>C35: Each stream mode undoes itself: running it on the ciphertext from the same state, in the decrypting direction
  for cipher feedback, gives the plaintext and leaves the same state; so do the variants of cipher feedback
  that work a byte and a bit at a time.\<close>

theorem stream_modes_decrypt:
  assumes "ctr_ok block k" "iv_ok block iv" "n < 16"
  shows "(CRYPTO_ctr128_encrypt block xs (k, n) = (ys, s) \<longrightarrow> CRYPTO_ctr128_encrypt block ys (k, n) = (xs, s)) \<and>
    (CRYPTO_ofb128_encrypt block xs (iv, n) = (ys, t) \<longrightarrow> CRYPTO_ofb128_encrypt block ys (iv, n) = (xs, t)) \<and>
    (CRYPTO_cfb128_encrypt block True xs (iv, n) = (ys, t) \<longrightarrow> CRYPTO_cfb128_encrypt block False ys (iv, n) = (xs, t)) \<and>
    (CRYPTO_cfb128_8_encrypt block True xs iv = (ys, iv') \<longrightarrow> CRYPTO_cfb128_8_encrypt block False ys iv = (xs, iv')) \<and>
    (CRYPTO_cfb128_1_encrypt block True xs out bits iv = (ys, iv') \<and> bits \<le> 8 * length out \<and> bits \<le> 8 * length out' \<longrightarrow>
      (\<exists>p. CRYPTO_cfb128_1_encrypt block False ys out' bits iv = (p, iv') \<and> (\<forall>j<bits. bit_at p j = bit_at xs j)))"
proof -
  have "CRYPTO_ctr128_encrypt block xs (k, n) = (ys, s) \<longrightarrow> CRYPTO_ctr128_encrypt block ys (k, n) = (xs, s)"
    unfolding CRYPTO_ctr128_encrypt_def using ctr.run_undone [OF assms(1,3)] by blast
  moreover have "CRYPTO_ofb128_encrypt block xs (iv, n) = (ys, t) \<longrightarrow> CRYPTO_ofb128_encrypt block ys (iv, n) = (xs, t)"
    unfolding CRYPTO_ofb128_encrypt_def using ofb.run_undone [OF assms(2,3)] by blast
  moreover have "CRYPTO_cfb128_encrypt block True xs (iv, n) = (ys, t) \<longrightarrow> CRYPTO_cfb128_encrypt block False ys (iv, n) = (xs, t)"
    unfolding CRYPTO_cfb128_encrypt_def using cfb.run_undone [OF assms(2,3), of True xs ys t] by simp
  moreover have "CRYPTO_cfb128_8_encrypt block True xs iv = (ys, iv') \<longrightarrow> CRYPTO_cfb128_8_encrypt block False ys iv = (xs, iv')"
    using cfb8_undone assms(2) unfolding iv_ok_def by blast
  moreover have "\<exists>p. CRYPTO_cfb128_1_encrypt block False ys out' bits iv = (p, iv') \<and> (\<forall>j<bits. bit_at p j = bit_at xs j)"
    if c: "CRYPTO_cfb128_1_encrypt block True xs out bits iv = (ys, iv') \<and> bits \<le> 8 * length out \<and> bits \<le> 8 * length out'"
  proof -
    obtain p iv2 where "CRYPTO_cfb128_1_encrypt block False ys out' bits iv = (p, iv2)" by fastforce
    with cfb1_undone [of block bits out out' iv xs 0 ys iv' p iv2] assms(2) c show ?thesis
      by (simp add: CRYPTO_cfb128_1_encrypt_def iv_ok_def)
  qed
  ultimately show ?thesis by blast
qed


theorem stream_modes_decrypt_witness:
  "\<exists>ys t. CRYPTO_cfb128_encrypt rev True [1, 2, 3] (be_bytes 16 5, 0) = (ys, t) \<and> ys = [4, 2, 3] \<and>
     CRYPTO_cfb128_encrypt rev False ys (be_bytes 16 5, 0) = ([1, 2, 3], t)"
proof -
  have ok: "ctr_ok rev (be_bytes 16 5, be_bytes 16 5)" "iv_ok rev (be_bytes 16 5)"
    by (simp_all add: ctr_ok_def iv_ok_def block16_rev)
  obtain ys t where run: "CRYPTO_cfb128_encrypt rev True [1, 2, 3] (be_bytes 16 5, 0) = (ys, t)"
    by (cases "CRYPTO_cfb128_encrypt rev True [1, 2, 3] (be_bytes 16 5, 0)")
  have "fst (CRYPTO_cfb128_encrypt rev True [1, 2, 3] (be_bytes 16 5, 0)) = [4, 2, 3]" by code_simp
  with run have "ys = [4, 2, 3]" by simp
  with stream_modes_decrypt [OF ok, of 0 "[1, 2, 3]" ys undefined t] run show ?thesis by auto
qed

end
