(* ===== verification/CBC.thy ===== *)
theory CBC
  imports Modes
begin

text \<open>
  Cipher block chaining, \<open>crypto/fipsmodule/modes/cbc.c\<close>. Encryption works on lists, for separate buffers or the
  same one. Decryption may shift the data to lower addresses while it works, and the code chooses
  between two loops by comparing the pointers; it is modelled on a flat memory, where \<open>in\<close> and
  \<open>out\<close> are addresses. \<open>ivec\<close> lies apart from both.
\<close>

section \<open>Encryption\<close>

text \<open>The loop over whole blocks returns the last ciphertext block and what is left of the input.\<close>

function cbc_encrypt_blocks :: "block128_f \<Rightarrow> bytes \<Rightarrow> bytes \<Rightarrow> bytes \<times> bytes \<times> bytes" where
  "cbc_encrypt_blocks block iv inp =
     (if length inp \<ge> 16 then
        let c = block (xor_bytes (take 16 inp) iv)
        in case cbc_encrypt_blocks block c (drop 16 inp) of (out, r) \<Rightarrow> (c @ out, r)
      else ([], iv, inp))"
  by pat_completeness auto
termination by (relation "measure (\<lambda>(block, iv, inp). length inp)") auto

declare cbc_encrypt_blocks.simps [simp del]

function cbc_encrypt_tail :: "block128_f \<Rightarrow> bytes \<Rightarrow> bytes \<Rightarrow> bytes \<times> bytes" where
  "cbc_encrypt_tail block iv inp =
     (if inp \<noteq> [] then
        let n = min 16 (length inp);
            c = block (xor_bytes (take n inp) iv @ drop n iv)
        in if length inp \<le> 16 then (c, c)
           else case cbc_encrypt_tail block c (drop 16 inp) of (out, iv) \<Rightarrow> (c @ out, iv)
      else ([], iv))"
  by pat_completeness auto
termination by (relation "measure (\<lambda>(block, iv, inp). length inp)") auto

declare cbc_encrypt_tail.simps [simp del]

definition CRYPTO_cbc128_encrypt :: "block128_f \<Rightarrow> bytes \<Rightarrow> bytes \<Rightarrow> bytes \<times> bytes" where
  "CRYPTO_cbc128_encrypt block inp ivec =
     (case cbc_encrypt_blocks block ivec inp of (out1, iv, inp) \<Rightarrow>
      case cbc_encrypt_tail block iv inp of (out2, iv) \<Rightarrow> (out1 @ out2, iv))"

section \<open>Decryption\<close>

type_synonym memory = "nat \<Rightarrow> byte"

definition load_bytes :: "memory \<Rightarrow> nat \<Rightarrow> nat \<Rightarrow> bytes" where
  "load_bytes m a n = map (\<lambda>i. m (a + i)) [0..<n]"

definition store_bytes :: "memory \<Rightarrow> nat \<Rightarrow> bytes \<Rightarrow> memory" where
  "store_bytes m a xs = (\<lambda>i. if a \<le> i \<and> i < a + length xs then xs ! (i - a) else m i)"

text \<open>The loop for \<open>out\<close> two blocks behind \<open>in\<close> or apart from it: the block is decrypted to \<open>out\<close>, and \<open>iv\<close>
  points to \<open>ivec\<close> (\<open>None\<close>) or to the ciphertext block before.\<close>

definition iv_at :: "memory \<Rightarrow> bytes \<Rightarrow> nat option \<Rightarrow> bytes" where
  "iv_at m ivec iv = (case iv of None \<Rightarrow> ivec | Some a \<Rightarrow> load_bytes m a 16)"

function cbc_direct_loop ::
  "block128_f \<Rightarrow> bytes \<Rightarrow> nat option \<Rightarrow> memory \<Rightarrow> nat \<Rightarrow> nat \<Rightarrow> nat \<Rightarrow> memory \<times> nat option \<times> nat \<times> nat \<times> nat" where
  "cbc_direct_loop block ivec iv m inp out len =
     (if len \<ge> 16 then
        let m = store_bytes m out (block (load_bytes m inp 16));
            m = store_bytes m out (xor_bytes (load_bytes m out 16) (iv_at m ivec iv))
        in cbc_direct_loop block ivec (Some inp) m (inp + 16) (out + 16) (len - 16)
      else (m, iv, inp, out, len))"
  by pat_completeness auto
termination by (relation "measure (\<lambda>(block, ivec, iv, m, inp, out, len). len)") auto

declare cbc_direct_loop.simps [simp del]

text \<open>The loop through a temporary block, \<open>sizeof(size_t)\<close> bytes at a time.\<close>

definition cbc_word_step :: "bytes \<Rightarrow> nat \<Rightarrow> nat \<Rightarrow> nat \<Rightarrow> memory \<times> bytes \<Rightarrow> memory \<times> bytes" where
  "cbc_word_step tmp inp out n = (\<lambda>(m, ivec).
     let c = load_bytes m (inp + n) 8
     in (store_bytes m (out + n) (xor_bytes (take 8 (drop n tmp)) (take 8 (drop n ivec))),
         take n ivec @ c @ drop (n + 8) ivec))"

function cbc_tmp_loop ::
  "block128_f \<Rightarrow> bytes \<Rightarrow> memory \<Rightarrow> nat \<Rightarrow> nat \<Rightarrow> nat \<Rightarrow> memory \<times> bytes \<times> nat \<times> nat \<times> nat" where
  "cbc_tmp_loop block ivec m inp out len =
     (if len \<ge> 16 then
        let tmp = block (load_bytes m inp 16)
        in case cbc_word_step tmp inp out 8 (cbc_word_step tmp inp out 0 (m, ivec)) of
             (m, ivec) \<Rightarrow> cbc_tmp_loop block ivec m (inp + 16) (out + 16) (len - 16)
      else (m, ivec, inp, out, len))"
  by pat_completeness auto
termination by (relation "measure (\<lambda>(block, ivec, m, inp, out, len). len)") auto

declare cbc_tmp_loop.simps [simp del]

text \<open>The last, partial block: its ciphertext is read in full.\<close>

function cbc_tail_bytes :: "bytes \<Rightarrow> nat \<Rightarrow> nat \<Rightarrow> nat \<Rightarrow> nat \<Rightarrow> memory \<Rightarrow> bytes \<Rightarrow> memory \<times> bytes" where
  "cbc_tail_bytes tmp inp out len n m ivec =
     (if n < 16 \<and> n < len then
        let c = m (inp + n)
        in cbc_tail_bytes tmp inp out len (n + 1) (m(out + n := tmp ! n XOR ivec ! n)) (ivec[n := c])
      else (m, ivec))"
  by pat_completeness auto
termination by (relation "measure (\<lambda>(tmp, inp, out, len, n, m, ivec). 16 - n)") auto

declare cbc_tail_bytes.simps [simp del]

function cbc_decrypt_tail :: "block128_f \<Rightarrow> bytes \<Rightarrow> memory \<Rightarrow> nat \<Rightarrow> nat \<Rightarrow> nat \<Rightarrow> memory \<times> bytes" where
  "cbc_decrypt_tail block ivec m inp out len =
     (if len > 0 then
        case cbc_tail_bytes (block (load_bytes m inp 16)) inp out len 0 m ivec of (m, ivec) \<Rightarrow>
          if len \<le> 16 then (m, take len ivec @ load_bytes m (inp + len) (16 - len))
          else cbc_decrypt_tail block ivec m (inp + 16) (out + 16) (len - 16)
      else (m, ivec))"
  by pat_completeness auto
termination by (relation "measure (\<lambda>(block, ivec, m, inp, out, len). len)") auto

declare cbc_decrypt_tail.simps [simp del]

definition CRYPTO_cbc128_decrypt :: "block128_f \<Rightarrow> nat \<Rightarrow> nat \<Rightarrow> nat \<Rightarrow> bytes \<Rightarrow> memory \<Rightarrow> memory \<times> bytes" where
  "CRYPTO_cbc128_decrypt block inptr outptr len ivec m =
     (if inptr \<ge> 32 \<and> outptr \<le> inptr - 32 \<or> inptr < outptr then
        case cbc_direct_loop block ivec None m inptr outptr len of (m, iv, inp, out, len) \<Rightarrow>
          cbc_decrypt_tail block (iv_at m ivec iv) m inp out len
      else
        case cbc_tmp_loop block ivec m inptr outptr len of (m, ivec, inp, out, len) \<Rightarrow>
          cbc_decrypt_tail block ivec m inp out len)"

section \<open>What decryption computes\<close>

lemma length_load_bytes [simp]: "length (load_bytes m a n) = n"
  by (simp add: load_bytes_def)

lemma nth_load_bytes [simp]: "i < n \<Longrightarrow> load_bytes m a n ! i = m (a + i)"
  by (simp add: load_bytes_def)

lemma load_bytes_0 [simp]: "load_bytes m a 0 = []"
  by (simp add: load_bytes_def)

lemma load_bytes_add: "load_bytes m a (n + k) = load_bytes m a n @ load_bytes m (a + n) k"
  by (rule nth_equalityI) (auto simp: nth_append)

lemma take_load_bytes: "take k (load_bytes m a n) = load_bytes m a (min k n)"
  by (rule nth_equalityI) auto

lemma drop_load_bytes: "drop k (load_bytes m a n) = load_bytes m (a + k) (n - k)"
  by (rule nth_equalityI) (auto simp: add.assoc)

lemma load_bytes_eq: "(\<And>i. a \<le> i \<Longrightarrow> i < a + n \<Longrightarrow> m i = m' i) \<Longrightarrow> load_bytes m a n = load_bytes m' a n"
  by (simp add: load_bytes_def)

lemma load_stored: "load_bytes (store_bytes m a xs) a (length xs) = xs"
  by (rule nth_equalityI) (auto simp: store_bytes_def)

definition same_but :: "nat \<Rightarrow> nat \<Rightarrow> memory \<Rightarrow> memory \<Rightarrow> bool" where
  "same_but a n m m' \<longleftrightarrow> (\<forall>i. i < a \<or> a + n \<le> i \<longrightarrow> m' i = m i)"

lemma same_but_store: "same_but a (length xs) m (store_bytes m a xs)"
  by (auto simp: same_but_def store_bytes_def)

lemma same_but_refl: "same_but a n m m"
  by (simp add: same_but_def)

lemma same_but_load: "same_but a n m m' \<Longrightarrow> b + k \<le> a \<or> a + n \<le> b \<Longrightarrow> load_bytes m' b k = load_bytes m b k"
  by (rule load_bytes_eq) (auto simp: same_but_def)

lemma same_but_join: "same_but a n m m1 \<Longrightarrow> same_but (a + n) k m1 m2 \<Longrightarrow> same_but a (n + k) m m2"
  by (simp add: same_but_def)

function cbc_plain :: "block128_f \<Rightarrow> bytes \<Rightarrow> bytes \<Rightarrow> bytes" where
  "cbc_plain block iv cs =
     (if length cs \<ge> 16 then xor_bytes (block (take 16 cs)) iv @ cbc_plain block (take 16 cs) (drop 16 cs) else [])"
  by pat_completeness auto
termination by (relation "measure (\<lambda>(block, iv, cs). length cs)") auto

declare cbc_plain.simps [simp del]

text \<open>One block was decrypted: where the output is, and nothing else changed.\<close>

definition cbc_step :: "block128_f \<Rightarrow> bytes \<Rightarrow> memory \<Rightarrow> nat \<Rightarrow> nat \<Rightarrow> memory \<Rightarrow> bool" where
  "cbc_step block iv m inp out m' \<longleftrightarrow>
     same_but out 16 m m' \<and> load_bytes m' out 16 = xor_bytes (block (load_bytes m inp 16)) iv"

definition cbc_run :: "block128_f \<Rightarrow> bytes \<Rightarrow> memory \<Rightarrow> nat \<Rightarrow> nat \<Rightarrow> nat \<Rightarrow> memory \<Rightarrow> bool" where
  "cbc_run block iv m inp out k m' \<longleftrightarrow>
     same_but out (16 * k) m m' \<and> load_bytes m' out (16 * k) = cbc_plain block iv (load_bytes m inp (16 * k))"

text \<open>The buffers are placed so that nothing is overwritten before it was read for the last time.\<close>

definition placed :: "nat \<Rightarrow> nat \<Rightarrow> nat \<Rightarrow> bool" where
  "placed inp out n \<longleftrightarrow> out \<le> inp \<or> inp + n \<le> out"

lemma cbc_run_0: "cbc_run block iv m inp out 0 m"
  by (simp add: cbc_run_def same_but_refl cbc_plain.simps load_bytes_def)

lemma cbc_run_Suc:
  assumes "cbc_step block iv m inp out m1" "cbc_run block (load_bytes m inp 16) m1 (inp + 16) (out + 16) k m2"
    and "placed inp out (16 * Suc k)"
  shows "cbc_run block iv m inp out (Suc k) m2"
proof -
  have s: "same_but out 16 m m1" "load_bytes m1 out 16 = xor_bytes (block (load_bytes m inp 16)) iv"
    using assms(1) by (simp_all add: cbc_step_def)
  have r: "same_but (out + 16) (16 * k) m1 m2"
    "load_bytes m2 (out + 16) (16 * k) = cbc_plain block (load_bytes m inp 16) (load_bytes m1 (inp + 16) (16 * k))"
    using assms(2) by (simp_all add: cbc_run_def)
  have "load_bytes m1 (inp + 16) (16 * k) = load_bytes m (inp + 16) (16 * k)"
    by (rule same_but_load [OF s(1)]) (use assms(3) in \<open>auto simp: placed_def\<close>)
  moreover have "load_bytes m2 out 16 = load_bytes m1 out 16" by (rule same_but_load [OF r(1)]) simp
  ultimately have "load_bytes m2 out (16 + 16 * k) = cbc_plain block iv (load_bytes m inp (16 + 16 * k))"
    using s r by (subst cbc_plain.simps) (simp add: load_bytes_add)
  moreover have "same_but out (16 + 16 * k) m m2" by (rule same_but_join [OF s(1) r(1)])
  ultimately show ?thesis by (simp add: cbc_run_def)
qed


definition last_block :: "bytes \<Rightarrow> bytes \<Rightarrow> bytes" where
  "last_block iv cs = (if length cs < 16 then iv else drop (length cs - 16) cs)"

lemma last_block_load: "last_block iv (load_bytes m a (16 * k)) = (if k = 0 then iv else load_bytes m (a + 16 * (k - 1)) 16)"
  by (cases k) (simp_all add: last_block_def drop_load_bytes)

lemma last_block_none [simp]: "last_block iv [] = iv"
  by (simp add: last_block_def)

lemma last_block_step:
  assumes "cbc_step block iv m inp out m1" "placed inp out (16 * Suc k)"
  shows "last_block (load_bytes m inp 16) (load_bytes m1 (inp + 16) (16 * k)) = last_block iv (load_bytes m inp (16 * Suc k))"
proof (cases k)
  case (Suc j)
  have "load_bytes m1 (inp + 16 + 16 * j) 16 = load_bytes m (inp + 16 + 16 * j) 16"
    by (rule same_but_load [where a = out and n = 16])
      (use assms Suc in \<open>auto simp: cbc_step_def placed_def\<close>)
  then show ?thesis unfolding last_block_load by (simp add: Suc add.assoc)
qed (simp add: last_block_load, simp add: last_block_def)

lemma cbc_direct_loop_runs:
  assumes b: "block16 block" and n: "k = len div 16" "out + 32 \<le> inp \<or> inp + 16 * k \<le> out"
    and iv: "\<And>a. iv = Some a \<Longrightarrow> a + 16 = inp" "length (iv_at m ivec iv) = 16"
    and run: "cbc_direct_loop block ivec iv m inp out len = (m', iv', inp', out', len')"
  shows "inp' = inp + 16 * k \<and> out' = out + 16 * k \<and> len' = len mod 16 \<and> cbc_run block (iv_at m ivec iv) m inp out k m' \<and>
    iv_at m' ivec iv' = last_block (iv_at m ivec iv) (load_bytes m inp (16 * k))"
  using n iv run
proof (induction k arbitrary: iv m inp out len)
  case 0
  then have "\<not> 16 \<le> len" by linarith
  with 0 show ?case by (simp add: cbc_direct_loop.simps cbc_run_0 last_block_load)
next
  case (Suc k)
  then have len: "16 \<le> len" by (cases "16 \<le> len") simp_all
  then have k: "k = (len - 16) div 16" "len mod 16 = (len - 16) mod 16" using Suc.prems(1) by (simp_all add: le_div_geq le_mod_geq)
  define c where "c = load_bytes m inp 16"
  define ma where "ma = store_bytes m out (block c)"
  define m1 where "m1 = store_bytes ma out (xor_bytes (load_bytes ma out 16) (iv_at ma ivec iv))"
  have lb: "length (block c) = 16" using b by (simp add: c_def block16_def)
  have "iv_at ma ivec iv = iv_at m ivec iv"
  proof (cases iv)
    case (Some a)
    with Suc.prems(2,3) have "a + 16 \<le> out \<or> out + 16 \<le> a" by auto
    then have "load_bytes ma a 16 = load_bytes m a 16"
      by (intro same_but_load [where a = out and n = 16]) (use same_but_store [of out "block c" m] lb in \<open>simp_all add: ma_def\<close>)
    with Some show ?thesis by (simp add: iv_at_def)
  qed (simp add: iv_at_def)
  moreover have "load_bytes ma out 16 = block c" using load_stored [of m out "block c"] lb by (simp add: ma_def)
  ultimately have m1: "m1 = store_bytes ma out (xor_bytes (block c) (iv_at m ivec iv))" by (simp add: m1_def)
  have lx: "length (xor_bytes (block c) (iv_at m ivec iv)) = 16" using lb Suc.prems(4) by simp
  have s: "cbc_step block (iv_at m ivec iv) m inp out m1"
    using same_but_store [of out "block c" m] same_but_store [of out "xor_bytes (block c) (iv_at m ivec iv)" ma]
      load_stored [of ma out "xor_bytes (block c) (iv_at m ivec iv)"] lb lx
    by (simp add: cbc_step_def m1 ma_def [symmetric] c_def [symmetric] same_but_def)
  have p: "placed inp out (16 * Suc k)" using Suc.prems(2) by (auto simp: placed_def)
  have "load_bytes m1 inp 16 = c" unfolding c_def
    by (rule same_but_load [where a = out and n = 16]) (use s Suc.prems(2) in \<open>auto simp: cbc_step_def\<close>)
  then have ivn: "iv_at m1 ivec (Some inp) = c" by (simp add: iv_at_def)
  have rec: "cbc_direct_loop block ivec (Some inp) m1 (inp + 16) (out + 16) (len - 16) = (m', iv', inp', out', len')"
    using Suc.prems(5) len by (simp add: cbc_direct_loop.simps [of _ _ iv] Let_def m1_def ma_def c_def)
  have near: "out + 16 + 32 \<le> inp + 16 \<or> inp + 16 + 16 * k \<le> out + 16" using Suc.prems(2) by auto
  have at: "a + 16 = inp + 16" if "Some inp = Some a" for a using that by simp
  have lc: "length (iv_at m1 ivec (Some inp)) = 16" unfolding ivn c_def by simp
  note IH = Suc.IH [OF k(1) near at lc rec, unfolded ivn]
  then have "cbc_run block (iv_at m ivec iv) m inp out (Suc k) m'"
    using cbc_run_Suc [OF s _ p] unfolding c_def by blast
  moreover have "iv_at m' ivec iv' = last_block (iv_at m ivec iv) (load_bytes m inp (16 * Suc k))"
    using IH last_block_step [OF s p] unfolding c_def by metis
  ultimately show ?case using IH k(2) by simp
qed

lemma cbc_word_steps:
  assumes "length tmp = 16" "length ivec = 16" "placed inp out 16"
    and run: "cbc_word_step tmp inp out 8 (cbc_word_step tmp inp out 0 (m, ivec)) = (m', ivec')"
  shows "same_but out 16 m m' \<and> load_bytes m' out 16 = xor_bytes tmp ivec \<and> ivec' = load_bytes m inp 16"
proof -
  define x where "x = xor_bytes (take 8 tmp) (take 8 ivec)"
  define y where "y = xor_bytes (drop 8 tmp) (drop 8 ivec)"
  define m1 where "m1 = store_bytes m out x"
  have l: "length x = 8" "length y = 8" using assms(1,2) by (simp_all add: x_def y_def)
  have "load_bytes m1 (inp + 8) 8 = load_bytes m (inp + 8) 8"
    using same_but_store [of out x m] l assms(3)
    by (intro same_but_load [where a = out and n = 8]) (auto simp: m1_def placed_def)
  then have m': "m' = store_bytes m1 (out + 8) y" "ivec' = load_bytes m inp 8 @ load_bytes m (inp + 8) 8"
    using run assms(1,2) by (auto simp: cbc_word_step_def Let_def m1_def x_def y_def)
  have s: "same_but out 8 m m1" "same_but (out + 8) 8 m1 m'"
    using same_but_store [of out x m] same_but_store [of "out + 8" y m1] l by (simp_all add: m1_def m')
  have "load_bytes m' out 8 = x" "load_bytes m' (out + 8) 8 = y"
    using same_but_load [OF s(2), of out 8] load_stored [of m out x] load_stored [of m1 "out + 8" y] l
    by (simp_all add: m1_def m')
  then have "load_bytes m' out (8 + 8) = x @ y" by (simp only: load_bytes_add)
  also have "x @ y = xor_bytes (take 8 tmp @ drop 8 tmp) (take 8 ivec @ drop 8 ivec)"
    using assms(1,2) unfolding x_def y_def xor_bytes_def by (subst zip_append) simp_all
  finally have "load_bytes m' out (8 + 8) = xor_bytes tmp ivec" by simp
  moreover have "ivec' = load_bytes m inp (8 + 8)" by (simp only: m' load_bytes_add)
  ultimately show ?thesis using same_but_join [OF s] by simp
qed

lemma cbc_tmp_loop_runs:
  assumes b: "block16 block" and n: "k = len div 16" "placed inp out (16 * k)" and iv: "length ivec = 16"
    and run: "cbc_tmp_loop block ivec m inp out len = (m', ivec', inp', out', len')"
  shows "inp' = inp + 16 * k \<and> out' = out + 16 * k \<and> len' = len mod 16 \<and> cbc_run block ivec m inp out k m' \<and>
    ivec' = last_block ivec (load_bytes m inp (16 * k))"
  using n iv run
proof (induction k arbitrary: ivec m inp out len)
  case 0
  then have "\<not> 16 \<le> len" by linarith
  with 0 show ?case by (simp add: cbc_tmp_loop.simps cbc_run_0 last_block_load)
next
  case (Suc k)
  then have len: "16 \<le> len" by (cases "16 \<le> len") simp_all
  then have k: "k = (len - 16) div 16" "len mod 16 = (len - 16) mod 16" using Suc.prems(1) by (simp_all add: le_div_geq le_mod_geq)
  have tmp: "length (block (load_bytes m inp 16)) = 16" using b by (simp add: block16_def)
  have p: "placed inp out 16" "placed (inp + 16) (out + 16) (16 * k)" using Suc.prems(2) by (auto simp: placed_def)
  obtain m1 iv1 where w: "cbc_word_step (block (load_bytes m inp 16)) inp out 8
      (cbc_word_step (block (load_bytes m inp 16)) inp out 0 (m, ivec)) = (m1, iv1)" by fastforce
  from cbc_word_steps [OF tmp Suc.prems(3) p(1) w] have s: "cbc_step block ivec m inp out m1"
    and iv1: "iv1 = load_bytes m inp 16" by (simp_all add: cbc_step_def)
  have "cbc_tmp_loop block iv1 m1 (inp + 16) (out + 16) (len - 16) = (m', ivec', inp', out', len')"
    using Suc.prems(4) len w by (simp add: cbc_tmp_loop.simps [of _ ivec] Let_def)
  from Suc.IH [OF k(1) p(2) _ this] iv1 have IH: "inp' = inp + 16 + 16 * k" "out' = out + 16 + 16 * k"
    "len' = (len - 16) mod 16" "cbc_run block iv1 m1 (inp + 16) (out + 16) k m'"
    "ivec' = last_block iv1 (load_bytes m1 (inp + 16) (16 * k))" by auto
  with cbc_run_Suc [OF s _ Suc.prems(2)] last_block_step [OF s Suc.prems(2)] k(2) iv1 show ?case by simp
qed


lemma cbc_tail_bytes_runs:
  assumes "len \<le> 16" "placed inp out 16" "length ivec = 16" "length tmp = 16"
    and "cbc_tail_bytes tmp inp out len 0 m ivec = (m', ivec')"
  shows "same_but out len m m' \<and> load_bytes m' out len = take len (xor_bytes tmp ivec) \<and>
    take len ivec' = load_bytes m inp len"
proof -
  have "same_but out len m m' \<and> load_bytes m' out len = take len (xor_bytes tmp ivec) \<and> take len ivec' = load_bytes m inp len"
    if "n \<le> len" "same_but out n m m1" "load_bytes m1 out n = take n (xor_bytes tmp ivec)" "length iv1 = 16"
      "take n iv1 = load_bytes m inp n" "drop n iv1 = drop n ivec" "cbc_tail_bytes tmp inp out len n m1 iv1 = (m', ivec')" for n m1 iv1
    using that
  proof (induction "len - n" arbitrary: n m1 iv1)
    case 0
    then show ?case by (simp add: cbc_tail_bytes.simps)
  next
    case (Suc d)
    then have n: "n < len" "n < 16" using assms(1) by simp_all
    have c: "m1 (inp + n) = m (inp + n)" using Suc.prems(2) assms(2) n by (auto simp: same_but_def placed_def)
    have i: "iv1 ! n = ivec ! n"
      using Suc.prems(4,6) assms(3) n by (metis Cons_nth_drop_Suc list.inject)
    define m2 where "m2 = m1(out + n := tmp ! n XOR ivec ! n)"
    have "cbc_tail_bytes tmp inp out len (Suc n) m2 (iv1[n := m (inp + n)]) = (m', ivec')"
      using Suc.prems(7) n c i by (simp add: cbc_tail_bytes.simps [of _ _ _ _ n] m2_def Let_def)
    moreover have "same_but out (Suc n) m m2" using Suc.prems(2) by (auto simp: same_but_def m2_def)
    moreover have "load_bytes m2 out (Suc n) = take (Suc n) (xor_bytes tmp ivec)"
    proof -
      have "load_bytes m2 out n = load_bytes m1 out n" by (rule load_bytes_eq) (simp add: m2_def)
      moreover have "load_bytes m2 (out + n) 1 = [tmp ! n XOR ivec ! n]" by (simp add: load_bytes_def m2_def)
      moreover have "take (Suc n) (xor_bytes tmp ivec) = take n (xor_bytes tmp ivec) @ [tmp ! n XOR ivec ! n]"
        using n assms(3,4) by (simp add: take_Suc_conv_app_nth) (simp add: xor_bytes_def)
      ultimately show ?thesis using Suc.prems(3) load_bytes_add [of m2 out n 1] by simp
    qed
    moreover have "take (Suc n) (iv1[n := m (inp + n)]) = load_bytes m inp (Suc n)"
      using Suc.prems(4,5) n load_bytes_add [of m inp n 1] by (simp add: take_Suc_conv_app_nth) (simp add: load_bytes_def)
    moreover have "drop (Suc n) (iv1[n := m (inp + n)]) = drop (Suc n) ivec"
      using Suc.prems(6) by (metis drop_Suc drop_update_cancel lessI tl_drop)
    ultimately show ?case using Suc.hyps(1) [of "Suc n" m2 "iv1[n := m (inp + n)]"] Suc.hyps(2) Suc.prems(4) n by simp
  qed
  from this [of 0 m ivec] assms show ?thesis by (simp add: same_but_refl load_bytes_def)
qed

text \<open>Whole blocks and the partial one together. \<open>blocks_for n\<close> is the size of the ciphertext of \<open>n\<close> bytes.\<close>

definition blocks_for :: "nat \<Rightarrow> nat" where
  "blocks_for n = 16 * (n div 16) + (if n mod 16 = 0 then 0 else 16)"

lemma cbc_plain_append:
  "length xs = 16 * k \<Longrightarrow> length iv = 16 \<Longrightarrow> cbc_plain block iv (xs @ ys) = cbc_plain block iv xs @ cbc_plain block (last_block iv xs) ys"
proof (induction k arbitrary: xs iv)
  case 0
  then show ?case by (simp add: cbc_plain.simps [of _ _ "[]"] last_block_def)
next
  case (Suc k)
  have "last_block (take 16 xs) (drop 16 xs) = last_block iv xs"
    using Suc.prems by (cases k) (simp_all add: last_block_def add.commute)
  moreover have "length (drop 16 xs) = 16 * k" "length (take 16 xs) = 16" using Suc.prems by simp_all
  ultimately show ?case using Suc.IH [of "drop 16 xs" "take 16 xs"] Suc.prems
    by (simp add: cbc_plain.simps [of _ iv])
qed

lemma cbc_decrypt_tail_runs:
  assumes b: "block16 block" and l: "len < 16" "placed inp out (blocks_for len)" "length ivec = 16"
    and run: "cbc_decrypt_tail block ivec m inp out len = (m', ivec')"
  shows "same_but out len m m' \<and>
    load_bytes m' out len = take len (cbc_plain block ivec (load_bytes m inp (blocks_for len))) \<and>
    ivec' = last_block ivec (load_bytes m inp (blocks_for len))"
proof (cases "len = 0")
  case True
  with run show ?thesis by (simp add: cbc_decrypt_tail.simps blocks_for_def same_but_refl load_bytes_def last_block_def)
next
  case False
  then have r: "blocks_for len = 16" using l(1) by (simp add: blocks_for_def)
  let ?c = "load_bytes m inp 16"
  have tmp: "length (block ?c) = 16" using b by (simp add: block16_def)
  obtain m1 iv1 where t: "cbc_tail_bytes (block ?c) inp out len 0 m ivec = (m1, iv1)" by fastforce
  from cbc_tail_bytes_runs [OF _ l(2) [unfolded r] l(3) tmp t] l(1)
  have s: "same_but out len m m1" "load_bytes m1 out len = take len (xor_bytes (block ?c) ivec)" "take len iv1 = load_bytes m inp len" by auto
  have "load_bytes m1 (inp + len) (16 - len) = load_bytes m (inp + len) (16 - len)"
    by (rule same_but_load [OF s(1)]) (use l(1,2) r in \<open>auto simp: placed_def\<close>)
  moreover have "?c = load_bytes m inp len @ load_bytes m (inp + len) (16 - len)"
    using load_bytes_add [of m inp len "16 - len"] l(1) by simp
  ultimately have "m' = m1" "ivec' = ?c" using run t False l(1) s(3) by (simp_all add: cbc_decrypt_tail.simps)
  moreover have "cbc_plain block ivec ?c = xor_bytes (block ?c) ivec" by (simp add: cbc_plain.simps)
  ultimately show ?thesis using s r by (simp add: last_block_def)
qed

lemma decrypt_computes_cbc_plain:
  assumes b: "block16 block" and p: "placed inp out (blocks_for len)" and iv: "length ivec = 16"
    and run: "CRYPTO_cbc128_decrypt block inp out len ivec m = (m', ivec')"
  shows "same_but out len m m' \<and>
    load_bytes m' out len = take len (cbc_plain block ivec (load_bytes m inp (blocks_for len))) \<and>
    ivec' = last_block ivec (load_bytes m inp (blocks_for len))"
proof -
  define k where "k = len div 16"
  have R: "blocks_for len = 16 * k + blocks_for (len mod 16)" "len = 16 * k + len mod 16" by (auto simp: blocks_for_def k_def)
  have pk: "placed inp out (16 * k)" "placed (inp + 16 * k) (out + 16 * k) (blocks_for (len mod 16))"
    using p R(1) by (auto simp: placed_def)
  define lb where "lb = last_block ivec (load_bytes m inp (16 * k))"
  have lb: "length lb = 16" using iv by (auto simp: lb_def last_block_def)
  obtain m1 where r: "cbc_run block ivec m inp out k m1"
    and t: "cbc_decrypt_tail block lb m1 (inp + 16 * k) (out + 16 * k) (len mod 16) = (m', ivec')"
  proof (cases "inp \<ge> 32 \<and> out \<le> inp - 32 \<or> inp < out")
    case True
    obtain m1 iv1 i o1 l where d: "cbc_direct_loop block ivec None m inp out len = (m1, iv1, i, o1, l)"
      by (cases "cbc_direct_loop block ivec None m inp out len") auto
    have "out + 32 \<le> inp \<or> inp + 16 * k \<le> out" using True pk(1) by (auto simp: placed_def)
    from cbc_direct_loop_runs [OF b k_def this _ _ d] iv have "i = inp + 16 * k \<and> o1 = out + 16 * k \<and> l = len mod 16 \<and>
      cbc_run block ivec m inp out k m1 \<and> iv_at m1 ivec iv1 = lb" by (simp add: iv_at_def lb_def)
    with that [of m1] run d True show thesis by (simp add: CRYPTO_cbc128_decrypt_def)
  next
    case False
    obtain m1 iv1 i o1 l where d: "cbc_tmp_loop block ivec m inp out len = (m1, iv1, i, o1, l)"
      by (cases "cbc_tmp_loop block ivec m inp out len") auto
    from cbc_tmp_loop_runs [OF b k_def pk(1) iv d] have "i = inp + 16 * k \<and> o1 = out + 16 * k \<and> l = len mod 16 \<and>
      cbc_run block ivec m inp out k m1 \<and> iv1 = lb" by (simp add: lb_def)
    with that [of m1] run d False show thesis by (simp add: CRYPTO_cbc128_decrypt_def)
  qed
  from r have r: "same_but out (16 * k) m m1" "load_bytes m1 out (16 * k) = cbc_plain block ivec (load_bytes m inp (16 * k))"
    by (simp_all add: cbc_run_def)
  let ?rest = "load_bytes m (inp + 16 * k) (blocks_for (len mod 16))"
  have "load_bytes m1 (inp + 16 * k) (blocks_for (len mod 16)) = ?rest"
    by (rule same_but_load [OF r(1)]) (use p R(1) in \<open>auto simp: placed_def\<close>)
  with cbc_decrypt_tail_runs [OF b _ pk(2) lb t] have t: "same_but (out + 16 * k) (len mod 16) m1 m'"
    "load_bytes m' (out + 16 * k) (len mod 16) = take (len mod 16) (cbc_plain block lb ?rest)"
    "ivec' = last_block lb ?rest" by simp_all
  have "load_bytes m' out (16 * k) = load_bytes m1 out (16 * k)" by (rule same_but_load [OF t(1)]) simp
  then have "load_bytes m' out (16 * k + len mod 16) =
    cbc_plain block ivec (load_bytes m inp (16 * k)) @ take (len mod 16) (cbc_plain block lb ?rest)"
    unfolding load_bytes_add using r(2) t(2) by simp
  moreover have pl: "length (cbc_plain block ivec (load_bytes m inp (16 * k))) = 16 * k"
    using r(2) by (metis length_load_bytes)
  moreover have whole: "load_bytes m inp (blocks_for len) = load_bytes m inp (16 * k) @ ?rest"
    unfolding R(1) load_bytes_add ..
  moreover have "cbc_plain block ivec (load_bytes m inp (blocks_for len)) =
    cbc_plain block ivec (load_bytes m inp (16 * k)) @ cbc_plain block lb ?rest"
    unfolding whole lb_def by (rule cbc_plain_append) (simp_all add: iv)
  moreover have "last_block ivec (load_bytes m inp (blocks_for len)) = last_block lb ?rest"
    unfolding whole by (auto simp: last_block_def lb_def blocks_for_def)
  moreover have "same_but out (16 * k + len mod 16) m m'" by (rule same_but_join [OF r(1) t(1)])
  ultimately show ?thesis using R(2) t(3) by (metis (no_types, lifting) append_take_drop_id take_add take_all_iff append_eq_conv_conj le_refl take_append)
qed


section \<open>Decryption undoes encryption\<close>

lemma xor_bytes_undo: "length a = length b \<Longrightarrow> xor_bytes (xor_bytes a b) b = a"
  by (rule nth_equalityI) (simp_all add: xor_bytes_def)

lemma cbc_encrypt_blocks_plain:
  assumes E: "block16 E" and D: "\<And>b. length b = 16 \<Longrightarrow> D (E b) = b"
    and "length iv = 16" "cbc_encrypt_blocks E iv inp = (out, iv', rest)"
  shows "\<exists>k. length out = 16 * k \<and> k = length inp div 16 \<and> rest = drop (16 * k) inp \<and> length iv' = 16 \<and>
    iv' = last_block iv out \<and> cbc_plain D iv out = take (16 * k) inp"
  using assms(3,4)
proof (induction "length inp" arbitrary: inp iv out rule: less_induct)
  case less
  show ?case
  proof (cases "16 \<le> length inp")
    case False
    with less.prems show ?thesis
      by (intro exI [of _ 0]) (simp add: cbc_encrypt_blocks.simps cbc_plain.simps last_block_def)
  next
    case True
    define c where "c = E (xor_bytes (take 16 inp) iv)"
    have c: "length c = 16" "D c = xor_bytes (take 16 inp) iv"
      using E D less.prems(1) True by (simp_all add: c_def block16_def)
    obtain o1 iv1 r where rec: "cbc_encrypt_blocks E c (drop 16 inp) = (o1, iv1, r)"
      by (cases "cbc_encrypt_blocks E c (drop 16 inp)") auto
    then have e: "out = c @ o1" "iv' = iv1" "rest = r"
      using less.prems(2) True by (auto simp: cbc_encrypt_blocks.simps [of _ iv] Let_def c_def)
    have "length (drop 16 inp) < length inp" using True by simp
    from less.hyps [OF this c(1) rec [folded e]] obtain k where
      k: "length o1 = 16 * k" "k = length (drop 16 inp) div 16" "rest = drop (16 * k) (drop 16 inp)" "length iv' = 16"
        "iv' = last_block c o1" "cbc_plain D c o1 = take (16 * k) (drop 16 inp)" by blast
    have "cbc_plain D iv out = take 16 inp @ take (16 * k) (drop 16 inp)"
      using c k(6) less.prems(1) True by (simp add: cbc_plain.simps [of _ iv] e xor_bytes_undo)
    also have "\<dots> = take (16 * Suc k) inp" by (simp add: take_add)
    finally have "cbc_plain D iv out = take (16 * Suc k) inp" .
    moreover have "last_block iv out = last_block c o1" using c(1) k(1) by (cases k) (simp_all add: e last_block_def)
    moreover have "Suc k = length inp div 16" using k(2) True by (simp add: le_div_geq)
    moreover have "length out = 16 * Suc k" "rest = drop (16 * Suc k) inp" using c(1) k(1,3) e(1) by (simp_all add: add.commute)
    ultimately show ?thesis using k(4,5) by metis
  qed
qed

lemma encrypt_then_plain:
  assumes E: "block16 E" and D: "\<And>b. length b = 16 \<Longrightarrow> D (E b) = b"
    and iv: "length iv = 16" and run: "CRYPTO_cbc128_encrypt E inp iv = (cs, iv')"
  shows "length cs = blocks_for (length inp) \<and> take (length inp) (cbc_plain D iv cs) = inp \<and> iv' = last_block iv cs"
proof -
  obtain o1 iv1 rest where 1: "cbc_encrypt_blocks E iv inp = (o1, iv1, rest)"
    by (cases "cbc_encrypt_blocks E iv inp") auto
  from cbc_encrypt_blocks_plain [OF E D iv 1] obtain k where k: "length o1 = 16 * k" "k = length inp div 16"
    "rest = drop (16 * k) inp" "length iv1 = 16" "iv1 = last_block iv o1" "cbc_plain D iv o1 = take (16 * k) inp" by auto
  have len: "length rest = length inp mod 16" using k(2,3) by (simp add: minus_mult_div_eq_mod)
  show ?thesis
  proof (cases "rest = []")
    case True
    with len have "length inp mod 16 = 0" "16 * k = length inp" using k(2) by auto
    with run 1 True k show ?thesis by (auto simp: CRYPTO_cbc128_encrypt_def cbc_encrypt_tail.simps blocks_for_def)
  next
    case False
    define x where "x = xor_bytes rest iv1 @ drop (length rest) iv1"
    have lt: "length rest < 16" using len by simp
    have x: "length x = 16" using lt k(4) by (simp add: x_def)
    then have Ex: "length (E x) = 16" "D (E x) = x" using E D by (simp_all add: block16_def)
    have run': "cs = o1 @ E x" "iv' = E x"
      using run 1 False lt by (auto simp: CRYPTO_cbc128_encrypt_def cbc_encrypt_tail.simps [of _ _ rest] Let_def x_def)
    have "cbc_plain D iv cs = cbc_plain D iv o1 @ cbc_plain D iv1 (E x)"
      unfolding run' k(5) by (rule cbc_plain_append [OF k(1) iv])
    moreover have "cbc_plain D iv1 (E x) = xor_bytes x iv1" using Ex by (simp add: cbc_plain.simps)
    moreover have "take (length rest) (xor_bytes x iv1) = rest"
      by (rule nth_equalityI) (use lt k(4) in \<open>simp_all add: x_def xor_bytes_def nth_append\<close>)
    moreover have "length inp = 16 * k + length rest" using len k(2) by simp
    moreover have "length (cbc_plain D iv o1) = 16 * k" unfolding k(6) using \<open>length inp = 16 * k + length rest\<close> by simp
    ultimately have "take (length inp) (cbc_plain D iv cs) = take (16 * k) inp @ rest" using k(6) by simp
    then have "take (length inp) (cbc_plain D iv cs) = inp" using k(3) by simp
    moreover have "last_block iv cs = E x" using Ex(1) by (simp add: run' last_block_def)
    moreover have "length cs = blocks_for (length inp)" using run'(1) k(1,2) Ex(1) len False
      by (cases "length inp mod 16 = 0") (simp_all add: blocks_for_def)
    ultimately show ?thesis using run'(2) by simp
  qed
qed

text \<open>C36: If the buffers are apart or the output does not start behind the input, as the assertion of
  \<open>CRYPTO_cbc128_decrypt\<close> asks, decrypting what \<open>CRYPTO_cbc128_encrypt\<close> wrote gives the plaintext at \<open>out\<close>, whichever loop
  the pointers select; nothing else in memory changes, and both leave the same \<open>ivec\<close> for the next call.\<close>

theorem cbc_decrypts_in_place:
  assumes "block16 E" "block16 D" "\<And>b. length b = 16 \<Longrightarrow> D (E b) = b" "length iv = 16"
    and "CRYPTO_cbc128_encrypt E plain iv = (cs, iv1)" "load_bytes m inp (length cs) = cs"
    and "out \<le> inp \<or> inp + length cs \<le> out"
    and "CRYPTO_cbc128_decrypt D inp out (length plain) iv m = (m', iv2)"
  shows "load_bytes m' out (length plain) = plain \<and> iv2 = iv1 \<and>
    (\<forall>a. a < out \<or> out + length plain \<le> a \<longrightarrow> m' a = m a)"
proof -
  note e = encrypt_then_plain [OF assms(1,3,4,5)]
  have "placed inp out (blocks_for (length plain))" using e assms(7) by (simp add: placed_def)
  from decrypt_computes_cbc_plain [OF assms(2) this assms(4,8)] e assms(6) show ?thesis by (auto simp: same_but_def)
qed

theorem cbc_decrypts_in_place_witness:
  "let iv = be_bytes 16 1; plain = replicate 20 7; cs = fst (CRYPTO_cbc128_encrypt rev plain iv);
       m = store_bytes (\<lambda>a. 0) 40 cs; m' = fst (CRYPTO_cbc128_decrypt rev 40 30 20 iv m)
   in length cs = 32 \<and> load_bytes m' 30 20 = plain \<and> m' 29 = 0"
proof -
  define iv where "iv = be_bytes 16 1"
  define plain :: bytes where "plain = replicate 20 7"
  obtain cs iv1 where e: "CRYPTO_cbc128_encrypt rev plain iv = (cs, iv1)" by fastforce
  define m :: memory where "m = store_bytes (\<lambda>a. 0) 40 cs"
  have n: "length plain = 20" by (simp add: plain_def)
  obtain m' iv2 where d: "CRYPTO_cbc128_decrypt rev 40 30 (length plain) iv m = (m', iv2)" by fastforce
  have "length (fst (CRYPTO_cbc128_encrypt rev plain iv)) = 32" unfolding plain_def iv_def by code_simp
  then have l: "length cs = 32" by (simp add: e)
  have ld: "load_bytes m 40 (length cs) = cs" unfolding m_def by (rule load_stored)
  have iv: "length iv = 16" by (simp add: iv_def)
  have r: "rev (rev b) = b" for b :: bytes by simp
  have p: "30 \<le> (40 :: nat) \<or> 40 + length cs \<le> 30" by simp
  note t = cbc_decrypts_in_place [OF block16_rev block16_rev r iv e ld p d]
  have "m 29 = 0" by (simp add: m_def store_bytes_def)
  with t n have "load_bytes m' 30 20 = plain \<and> m' 29 = 0" by auto
  with l e d n show ?thesis unfolding Let_def by (simp add: iv_def plain_def m_def)
qed

end
