(* ===== verification/ConstTime.thy ===== *)
theory ConstTime
  imports Mem
begin

text \<open>
  The constant-time primitives of \<open>crypto/internal.h\<close> on 64-bit machine words: comparisons that
  return an all-ones or all-zeros mask without branching, and the selection that uses such a mask.
  They are proved to compute the comparison and the selection they stand for.
\<close>

type_synonym crypto_word = "64 word"

definition constant_time_msb_w :: "crypto_word \<Rightarrow> crypto_word" where
  "constant_time_msb_w a = 0 - drop_bit 63 a"

definition constant_time_lt_w :: "crypto_word \<Rightarrow> crypto_word \<Rightarrow> crypto_word" where
  "constant_time_lt_w a b = constant_time_msb_w (a XOR ((a XOR b) OR ((a - b) XOR a)))"

definition constant_time_lt_8 :: "crypto_word \<Rightarrow> crypto_word \<Rightarrow> byte" where
  "constant_time_lt_8 a b = ucast (constant_time_lt_w a b)"

definition constant_time_ge_w :: "crypto_word \<Rightarrow> crypto_word \<Rightarrow> crypto_word" where
  "constant_time_ge_w a b = NOT (constant_time_lt_w a b)"

definition constant_time_ge_8 :: "crypto_word \<Rightarrow> crypto_word \<Rightarrow> byte" where
  "constant_time_ge_8 a b = ucast (constant_time_ge_w a b)"

definition constant_time_is_zero_w :: "crypto_word \<Rightarrow> crypto_word" where
  "constant_time_is_zero_w a = constant_time_msb_w (NOT a AND (a - 1))"

definition constant_time_is_zero_8 :: "crypto_word \<Rightarrow> byte" where
  "constant_time_is_zero_8 a = ucast (constant_time_is_zero_w a)"

definition constant_time_eq_w :: "crypto_word \<Rightarrow> crypto_word \<Rightarrow> crypto_word" where
  "constant_time_eq_w a b = constant_time_is_zero_w (a XOR b)"

definition constant_time_eq_8 :: "crypto_word \<Rightarrow> crypto_word \<Rightarrow> byte" where
  "constant_time_eq_8 a b = ucast (constant_time_eq_w a b)"

definition constant_time_select_w :: "crypto_word \<Rightarrow> crypto_word \<Rightarrow> crypto_word \<Rightarrow> crypto_word" where
  "constant_time_select_w msk a b = (msk AND a) OR (NOT msk AND b)"

definition constant_time_select_8 :: "byte \<Rightarrow> byte \<Rightarrow> byte \<Rightarrow> byte" where
  "constant_time_select_8 msk a b = ucast (constant_time_select_w (ucast msk) (ucast a) (ucast b))"

section \<open>What they compute\<close>

lemma bit_63_iff: "bit (w :: crypto_word) 63 \<longleftrightarrow> 2 ^ 63 \<le> unat w"
proof -
  have lt: "unat w < 2 ^ 64" using unsigned_less [of w] by simp
  have "bit w 63 \<longleftrightarrow> odd (unat w div 2 ^ 63)"
    using bit_unsigned_iff [where 'a = nat and w = w and n = 63] by (simp add: bit_iff_odd)
  also have "\<dots> \<longleftrightarrow> 2 ^ 63 \<le> unat w"
  proof (cases "2 ^ 63 \<le> unat w")
    case True
    with lt have "unat w div 2 ^ 63 = 1" by (intro div_nat_eqI) simp_all
    with True show ?thesis by simp
  qed simp
  finally show ?thesis .
qed

lemma drop_bit_63: "drop_bit 63 (w :: crypto_word) = (if bit w 63 then 1 else 0)"
proof -
  have "unat w < 2 ^ 64" using unsigned_less [of w] by simp
  then have "unat w div 2 ^ 63 = (if 2 ^ 63 \<le> unat w then 1 else 0)"
    by (auto intro: div_nat_eqI)
  then have "unat (drop_bit 63 w) = unat (if bit w 63 then 1 else 0 :: crypto_word)"
    by (simp add: unat_drop_bit_div bit_63_iff)
  then show ?thesis by (simp only: word_unat_eq_iff)
qed

lemma constant_time_msb_w_eq: "constant_time_msb_w w = (if bit w 63 then -1 else 0)"
  by (simp add: constant_time_msb_w_def drop_bit_63)

lemma bit_63_diff:
  fixes a b :: crypto_word
  assumes "bit a 63 \<longleftrightarrow> bit b 63"
  shows "bit (a - b) 63 \<longleftrightarrow> a < b"
proof -
  have "unat a < 18446744073709551616" "unat b < 18446744073709551616"
    using unsigned_less [of a] unsigned_less [of b] by simp_all
  moreover have "(9223372036854775808 \<le> unat a) = (9223372036854775808 \<le> unat b)"
    using assms by (simp add: bit_63_iff)
  ultimately show ?thesis
    by (auto simp: bit_63_iff word_less_nat_alt word_le_nat_alt unat_sub_if_size word_size)
qed

lemma constant_time_lt_w_eq: "constant_time_lt_w a b = (if a < b then -1 else 0)"
proof -
  have "bit (a XOR ((a XOR b) OR ((a - b) XOR a))) 63 \<longleftrightarrow> a < b"
  proof (cases "bit a 63 \<longleftrightarrow> bit b 63")
    case True
    then show ?thesis using bit_63_diff [OF True] by (auto simp: bit_simps)
  next
    case False
    then have "bit b 63 \<longleftrightarrow> a < b" by (auto simp: bit_63_iff word_less_nat_alt)
    with False show ?thesis by (auto simp: bit_simps)
  qed
  then show ?thesis by (simp add: constant_time_lt_w_def constant_time_msb_w_eq)
qed

lemma constant_time_is_zero_w_eq: "constant_time_is_zero_w a = (if a = 0 then -1 else 0)"
proof -
  have "bit (NOT a AND (a - 1)) 63 \<longleftrightarrow> a = 0"
  proof (cases "a = 0")
    case False
    then have "unat (a - 1) < unat a" by (simp add: unat_gt_0 unat_minus_one)
    then have "\<not> (\<not> bit a 63 \<and> bit (a - 1) 63)" by (simp add: bit_63_iff) linarith
    with False show ?thesis by (simp add: bit_and_iff bit_not_iff)
  qed (simp add: bit_simps)
  then show ?thesis by (simp add: constant_time_is_zero_w_def constant_time_msb_w_eq)
qed

lemma constant_time_eq_w_eq: "constant_time_eq_w a b = (if a = b then -1 else 0)"
  by (simp add: constant_time_eq_w_def constant_time_is_zero_w_eq xor_eq_0_iff)

lemma ucast_minus_one [simp]: "(ucast (-1 :: crypto_word) :: byte) = -1"
  by (auto simp: bit_eq_iff bit_simps)

lemma constant_time_8_eq:
  "constant_time_lt_8 a b = (if a < b then -1 else 0)"
  "constant_time_ge_8 a b = (if b \<le> a then -1 else 0)"
  "constant_time_is_zero_8 a = (if a = 0 then -1 else 0)"
  "constant_time_eq_8 a b = (if a = b then -1 else 0)"
  by (simp_all add: constant_time_lt_8_def constant_time_lt_w_eq constant_time_ge_8_def constant_time_ge_w_def
      constant_time_is_zero_8_def constant_time_is_zero_w_eq constant_time_eq_8_def constant_time_eq_w_eq
      not_le [symmetric])

lemma constant_time_select_8_eq:
  "constant_time_select_8 (-1) a b = a" "constant_time_select_8 0 a b = b"
  by (auto simp: constant_time_select_8_def constant_time_select_w_def bit_eq_iff bit_simps)

lemma constant_time_select_8_if: "constant_time_select_8 (if P then -1 else 0) a b = (if P then a else b)"
  by (simp add: constant_time_select_8_eq)

end
