(* ===== verification/BNWords.thy ===== *)
theory BNWords
  imports ConstTime "HOL-Library.Code_Target_Nat"
begin

text \<open>
  Arithmetic on arrays of 64-bit words, least significant first, under BoringSSL's bignums:
  \<open>crypto/fipsmodule/bn/generic.c\<close> (with \<open>BN_ULLONG\<close>, the unsigned 128-bit integers; its loops are unrolled four
  times, here they are not), and the array functions of \<open>cmp.c\<close>, \<open>shift.c\<close> and \<open>div.c\<close>. The number an array
  stands for is \<open>val\<close>; every function is shown to compute on numbers what it is named after.
\<close>

type_synonym ulong = "64 word"
type_synonym ullong = "128 word"

definition BN_MASK2 :: ulong where "BN_MASK2 = 0xffffffffffffffff"

section \<open>The code\<close>

definition Lw :: "ullong \<Rightarrow> ulong" where "Lw t = ucast t"
definition Hw :: "ullong \<Rightarrow> ulong" where "Hw t = ucast (drop_bit 64 t)"

text \<open>The loops return the carry and the words written.\<close>

fun add_words_loop :: "ullong \<Rightarrow> ulong list \<Rightarrow> ulong list \<Rightarrow> ulong \<times> ulong list" where
  "add_words_loop ll (a # as) (b # bs) =
     (let ll = ll + (ucast a + ucast b)
      in case add_words_loop (drop_bit 64 ll) as bs of (c, r) \<Rightarrow> (c, ucast ll # r))"
| "add_words_loop ll _ _ = (ucast ll, [])"

definition bn_add_words :: "ulong list \<Rightarrow> ulong list \<Rightarrow> nat \<Rightarrow> ulong \<times> ulong list" where
  "bn_add_words a b n = add_words_loop 0 (take n a) (take n b)"

fun sub_words_loop :: "ulong \<Rightarrow> ulong list \<Rightarrow> ulong list \<Rightarrow> ulong \<times> ulong list" where
  "sub_words_loop c (t1 # as) (t2 # bs) =
     (let r0 = t1 - t2 - c; c = (if t1 \<noteq> t2 then (if t1 < t2 then 1 else 0) else c)
      in case sub_words_loop c as bs of (c, r) \<Rightarrow> (c, r0 # r))"
| "sub_words_loop c _ _ = (c, [])"

definition bn_sub_words :: "ulong list \<Rightarrow> ulong list \<Rightarrow> nat \<Rightarrow> ulong \<times> ulong list" where
  "bn_sub_words a b n = sub_words_loop 0 (take n a) (take n b)"

fun mul_words_loop :: "ulong \<Rightarrow> ulong list \<Rightarrow> ulong \<Rightarrow> ulong \<times> ulong list" where
  "mul_words_loop w (a # as) c =
     (let t = ucast w * ucast a + ucast c
      in case mul_words_loop w as (Hw t) of (c, r) \<Rightarrow> (c, Lw t # r))"
| "mul_words_loop w [] c = (c, [])"

definition bn_mul_words :: "ulong list \<Rightarrow> nat \<Rightarrow> ulong \<Rightarrow> ulong \<times> ulong list" where
  "bn_mul_words ap num w = mul_words_loop w (take num ap) 0"

fun mul_add_words_loop :: "ulong \<Rightarrow> ulong list \<Rightarrow> ulong list \<Rightarrow> ulong \<Rightarrow> ulong \<times> ulong list" where
  "mul_add_words_loop w (r # rs) (a # as) c =
     (let t = ucast w * ucast a + ucast r + ucast c
      in case mul_add_words_loop w rs as (Hw t) of (c, r) \<Rightarrow> (c, Lw t # r))"
| "mul_add_words_loop w _ _ c = (c, [])"

definition bn_mul_add_words :: "ulong list \<Rightarrow> ulong list \<Rightarrow> nat \<Rightarrow> ulong \<Rightarrow> ulong \<times> ulong list" where
  "bn_mul_add_words rp ap num w = mul_add_words_loop w (take num rp) (take num ap) 0"

fun sqr_words_loop :: "ulong list \<Rightarrow> ulong list" where
  "sqr_words_loop (a # as) = (let t = ucast a * ucast a in Lw t # Hw t # sqr_words_loop as)"
| "sqr_words_loop [] = []"

definition bn_sqr_words :: "ulong list \<Rightarrow> nat \<Rightarrow> ulong list" where
  "bn_sqr_words a n = sqr_words_loop (take n a)"

definition bn_select_words :: "ulong \<Rightarrow> ulong list \<Rightarrow> ulong list \<Rightarrow> nat \<Rightarrow> ulong list" where
  "bn_select_words msk a b num = map (\<lambda>i. constant_time_select_w msk (a ! i) (b ! i)) [0..<num]"

text \<open>The OR of the words from \<open>i\<close> on.\<close>

definition or_words :: "ulong list \<Rightarrow> ulong" where
  "or_words ws = foldl (OR) 0 ws"

definition constant_time_select_int :: "ulong \<Rightarrow> int \<Rightarrow> int \<Rightarrow> int" where
  "constant_time_select_int msk a b = sint (ucast (constant_time_select_w msk (word_of_int a) (word_of_int b)) :: 32 word)"

fun cmp_words_loop :: "int \<Rightarrow> ulong list \<Rightarrow> ulong list \<Rightarrow> int" where
  "cmp_words_loop ret (a # as) (b # bs) =
     (let eq = constant_time_eq_w a b; lt = constant_time_lt_w a b
      in cmp_words_loop (constant_time_select_int eq ret (constant_time_select_int lt (-1) 1)) as bs)"
| "cmp_words_loop ret _ _ = ret"

definition bn_cmp_words_consttime :: "ulong list \<Rightarrow> ulong list \<Rightarrow> int" where
  "bn_cmp_words_consttime a b =
     (let ret = cmp_words_loop 0 a b
      in if length a < length b
         then constant_time_select_int (constant_time_is_zero_w (or_words (drop (length a) b))) ret (-1)
         else if length b < length a
         then constant_time_select_int (constant_time_is_zero_w (or_words (drop (length b) a))) ret 1
         else ret)"

definition bn_less_than_words :: "ulong list \<Rightarrow> ulong list \<Rightarrow> nat \<Rightarrow> bool" where
  "bn_less_than_words a b len = (bn_cmp_words_consttime (take len a) (take len b) < 0)"

text \<open>The words of the shifted array, for \<open>num\<close> words of \<open>a\<close>.\<close>

definition bn_rshift_words :: "ulong list \<Rightarrow> nat \<Rightarrow> nat \<Rightarrow> ulong list" where
  "bn_rshift_words a shift num =
     (let shift_bits = shift mod 64; shift_words = shift div 64
      in if shift_words \<ge> num then replicate num 0
         else
           (if shift_bits = 0 then take (num - shift_words) (drop shift_words a)
            else map (\<lambda>i. drop_bit shift_bits (a ! i) OR push_bit (64 - shift_bits) (a ! (i + 1))) [shift_words..<num - 1] @
                 [drop_bit shift_bits (a ! (num - 1))]) @
           replicate shift_words 0)"

definition bn_rshift1_words :: "ulong list \<Rightarrow> nat \<Rightarrow> ulong list" where
  "bn_rshift1_words a num =
     (if num = 0 then []
      else map (\<lambda>i. drop_bit 1 (a ! i) OR push_bit 63 (a ! (i + 1))) [0..<num - 1] @ [drop_bit 1 (a ! (num - 1))])"

definition bn_is_bit_set_words :: "ulong list \<Rightarrow> nat \<Rightarrow> nat \<Rightarrow> bool" where
  "bn_is_bit_set_words a num b =
     (let i = b div 64; j = b mod 64 in if i \<ge> num then False else drop_bit j (a ! i) AND 1 = 1)"

text \<open>\<open>bn_reduce_once\<close> returns the mask with which it selected.\<close>

definition bn_reduce_once :: "ulong list \<Rightarrow> ulong \<Rightarrow> ulong list \<Rightarrow> nat \<Rightarrow> ulong \<times> ulong list" where
  "bn_reduce_once a carry m num =
     (case bn_sub_words a m num of (borrow, r) \<Rightarrow>
        let carry = carry - borrow in (carry, bn_select_words carry a r num))"

definition bn_reduce_once_in_place :: "ulong list \<Rightarrow> ulong \<Rightarrow> ulong list \<Rightarrow> nat \<Rightarrow> ulong \<times> ulong list" where
  "bn_reduce_once_in_place r carry m num =
     (case bn_sub_words r m num of (borrow, tmp) \<Rightarrow>
        let carry = carry - borrow in (carry, bn_select_words carry r tmp num))"

definition bn_mod_sub_words :: "ulong list \<Rightarrow> ulong list \<Rightarrow> ulong list \<Rightarrow> nat \<Rightarrow> ulong list" where
  "bn_mod_sub_words a b m num =
     (case bn_sub_words a b num of (borrow, r) \<Rightarrow>
      case bn_add_words r m num of (_, tmp) \<Rightarrow> bn_select_words (0 - borrow) tmp r num)"

definition bn_mod_add_words :: "ulong list \<Rightarrow> ulong list \<Rightarrow> ulong list \<Rightarrow> nat \<Rightarrow> ulong list" where
  "bn_mod_add_words a b m num =
     (case bn_add_words a b num of (carry, r) \<Rightarrow> snd (bn_reduce_once_in_place r carry m num))"

section \<open>The numbers\<close>

definition BB :: nat where "BB = 2 ^ 64"

primrec val :: "ulong list \<Rightarrow> nat" where
  "val [] = 0"
| "val (x # xs) = unat x + BB * val xs"

lemma BB_pos [simp]: "0 < BB"
  by (simp add: BB_def)

lemma BB_neq_0 [simp]: "BB \<noteq> 0"
  by (simp add: BB_def)

lemma BB_gt_1: "1 < BB"
  by (simp add: BB_def)

lemma ulong_lt [simp]: "unat (x :: ulong) < BB"
  using unsigned_less [of x] by (simp add: BB_def)

lemma ullong_lt: "unat (x :: ullong) < BB * BB"
  using unsigned_less [of x] by (simp add: BB_def)

lemma val_append: "val (xs @ ys) = val xs + BB ^ length xs * val ys"
  by (induction xs) (simp_all add: algebra_simps)

lemma val_lt: "val xs < BB ^ length xs"
proof (induction xs)
  case (Cons x xs)
  have "unat x + BB * val xs < BB * (val xs + 1)" by simp
  also have "\<dots> \<le> BB * BB ^ length xs" using Cons by (intro mult_left_mono) simp_all
  finally show ?case by simp
qed simp

lemma val_replicate_0 [simp]: "val (replicate n 0) = 0"
  by (induction n) simp_all

lemma val_eq_0: "val xs = 0 \<longleftrightarrow> (\<forall>x\<in>set xs. x = 0)"
  by (induction xs) (simp_all add: unat_eq_zero)

lemma val_take_drop: "val xs = val (take n xs) + BB ^ min n (length xs) * val (drop n xs)"
  using val_append [of "take n xs" "drop n xs"] by (simp add: min.commute)

lemma val_mod: "val (x # xs) mod BB = unat x" "val (x # xs) div BB = val xs"
  using ulong_lt [of x] by (simp_all add: div_mult_self4)

lemma val_inj: "length xs = length ys \<Longrightarrow> val xs = val ys \<Longrightarrow> xs = ys"
proof (induction xs ys rule: list_induct2)
  case (Cons x xs y ys)
  then show ?case using val_mod [of x xs] val_mod [of y ys] by (simp add: word_unat_eq_iff del: val.simps)
qed simp

lemma unat_Lw: "unat (Lw t) = unat t mod BB"
  by (simp add: Lw_def unat_ucast_mod BB_def)

lemma unat_Hw: "unat (Hw t) = unat t div BB"
proof -
  have "unat t div BB < BB" using ullong_lt [of t] by (intro less_mult_imp_div_less) simp
  then show ?thesis by (simp add: Hw_def unat_ucast_mod unat_drop_bit_div BB_def)
qed

lemma unat_up [simp]: "unat (ucast (x :: ulong) :: ullong) = unat x"
  by (rule unat_ucast_up) simp

text \<open>Sums and products of words do not overflow in 128 bits.\<close>

lemma unat_add_ullong: "unat x + unat y < BB * BB \<Longrightarrow> unat (x + y :: ullong) = unat x + unat y"
  using unat_add_lem [of x y] by (simp add: BB_def)

lemma unat_mult_ulong: "unat (ucast (w :: ulong) * ucast (a :: ulong) :: ullong) = unat w * unat a"
proof -
  have "unat w * unat a < BB * BB" using ulong_lt [of w] ulong_lt [of a] by (intro mult_strict_mono) simp_all
  then show ?thesis using unat_mult_lem [of "ucast w :: ullong" "ucast a"] by (simp add: BB_def)
qed

lemma ulong_le: "unat (x :: ulong) \<le> BB - 1"
  using ulong_lt [of x] by linarith

text \<open>The largest product leaves room for two more words.\<close>

lemma product_room: "unat (w :: ulong) * unat (a :: ulong) + unat (x :: ulong) + unat (y :: ulong) < BB * BB"
proof -
  have "unat w * unat a \<le> (BB - 1) * (BB - 1)" by (intro mult_le_mono ulong_le)
  then have "unat w * unat a + unat x + unat y \<le> (BB - 1) * (BB - 1) + (BB - 1) + (BB - 1)"
    using ulong_le [of x] ulong_le [of y] by linarith
  also have "\<dots> < BB * BB" by (simp add: BB_def)
  finally show ?thesis .
qed

text \<open>One digit of a result, and what is carried to the next.\<close>

lemma carry_step:
  assumes "R + P * C = V + s div BB"
  shows "s mod BB + BB * R + BB * P * C = s + BB * V"
proof -
  have "BB * R + BB * P * C = BB * (R + P * C)" by (simp add: algebra_simps)
  also have "\<dots> = BB * V + BB * (s div BB)" unfolding assms by (simp add: algebra_simps)
  finally have "s mod BB + (BB * R + BB * P * C) = BB * V + (BB * (s div BB) + s mod BB)" by linarith
  then show ?thesis by simp
qed

lemma add_words_loop_val:
  assumes "length as = length bs" "unat ll \<le> 1" "add_words_loop ll as bs = (c, r)"
  shows "length r = length as \<and> unat c \<le> 1 \<and> val r + BB ^ length as * unat c = val as + val bs + unat ll"
  using assms
proof (induction as bs arbitrary: ll c r rule: list_induct2)
  case Nil
  then show ?case by (auto simp: unat_ucast_mod)
next
  case (Cons a as b bs)
  define s where "s = unat ll + unat a + unat b"
  define l where "l = ll + (ucast a + ucast b)"
  have s2: "s < 2 * BB" using ulong_lt [of a] ulong_lt [of b] Cons.prems(1) unfolding s_def by linarith
  then have s3: "s < BB * BB" by (simp add: BB_def)
  have "unat (ucast a + ucast b :: ullong) = unat a + unat b"
    using unat_add_ullong [of "ucast a" "ucast b"] s3 by (simp add: s_def)
  then have l: "unat l = s" using unat_add_ullong [of ll "ucast a + ucast b"] s3 by (simp add: l_def s_def)
  have "s div BB \<le> 1" using less_mult_imp_div_less [OF s2] by simp
  then have d: "unat (drop_bit 64 l) = s div BB" "unat (drop_bit 64 l) \<le> 1" by (simp_all add: unat_drop_bit_div l BB_def)
  obtain r' where r: "add_words_loop (drop_bit 64 l) as bs = (c, r')" "r = ucast l # r'"
    using Cons.prems(2) by (auto simp: Let_def l_def split: prod.splits)
  from Cons.IH [OF d(2) r(1)] d(1) have IH: "length r' = length as" "unat c \<le> 1"
    "val r' + BB ^ length as * unat c = (val as + val bs) + s div BB" by auto
  have "unat (ucast l :: ulong) = s mod BB" by (simp add: unat_ucast_mod l BB_def)
  with carry_step [OF IH(3)] IH(1,2) show ?case by (simp add: r(2) s_def algebra_simps)
qed

lemma sub_words_loop_val:
  assumes "length as = length bs" "unat c \<le> 1" "sub_words_loop c as bs = (c', r)"
  shows "length r = length as \<and> unat c' \<le> 1 \<and> val r + val bs + unat c = val as + BB ^ length as * unat c'"
  using assms
proof (induction as bs arbitrary: c c' r rule: list_induct2)
  case (Cons a as b bs)
  define c1 where "c1 = (if a \<noteq> b then (if a < b then 1 else 0) else c)"
  have c1: "unat c1 \<le> 1" using Cons.prems(1) by (simp add: c1_def)
  obtain r' where r: "sub_words_loop c1 as bs = (c', r')" "r = (a - b - c) # r'"
    using Cons.prems(2) by (auto simp: Let_def c1_def split: prod.splits)
  from Cons.IH [OF c1 r(1)] have IH: "length r' = length as" "unat c' \<le> 1"
    "val r' + val bs + unat c1 = val as + BB ^ length as * unat c'" by auto
  have digit: "unat (a - b - c) + unat b + unat c = unat a + BB * unat c1"
    using Cons.prems(1) ulong_lt [of a] ulong_lt [of b]
    by (auto simp: c1_def unat_sub_if_size word_size word_less_nat_alt word_unat_eq_iff BB_def split: if_splits)
  have "BB * (val r' + val bs + unat c1) = BB * (val as + BB ^ length as * unat c')" by (simp only: IH(3))
  with digit IH(1,2) show ?case by (simp add: r(2) algebra_simps del: diff_diff_eq)
qed auto

lemma mul_words_loop_val:
  assumes "mul_words_loop w as c = (c', r)"
  shows "length r = length as \<and> val r + BB ^ length as * unat c' = val as * unat w + unat c"
  using assms
proof (induction as arbitrary: c c' r)
  case (Cons a as)
  define t where "t = ucast w * ucast a + (ucast c :: ullong)"
  define s where "s = unat w * unat a + unat c"
  have t: "unat t = s"
    using unat_add_ullong [of "ucast w * ucast a" "ucast c"] product_room [of w a c 0] by (simp add: t_def s_def unat_mult_ulong)
  obtain r' where r: "mul_words_loop w as (Hw t) = (c', r')" "r = Lw t # r'"
    using Cons.prems by (auto simp: Let_def t_def split: prod.splits)
  from Cons.IH [OF r(1)] have IH: "length r' = length as" "val r' + BB ^ length as * unat c' = val as * unat w + s div BB"
    by (auto simp: unat_Hw t)
  from carry_step [OF IH(2)] IH(1) show ?case by (simp add: r(2) unat_Lw t s_def algebra_simps)
qed auto

lemma mul_add_words_loop_val:
  assumes "length rs = length as" "mul_add_words_loop w rs as c = (c', r)"
  shows "length r = length as \<and> val r + BB ^ length as * unat c' = val rs + val as * unat w + unat c"
  using assms
proof (induction rs as arbitrary: c c' r rule: list_induct2)
  case (Cons x rs a as)
  define t where "t = ucast w * ucast a + ucast x + (ucast c :: ullong)"
  define s where "s = unat w * unat a + unat x + unat c"
  have s: "s < BB * BB" using product_room [of w a x c] by (simp add: s_def)
  then have "unat (ucast w * ucast a + ucast x :: ullong) = unat w * unat a + unat x"
    using unat_add_ullong [of "ucast w * ucast a" "ucast x"] by (simp add: s_def unat_mult_ulong)
  then have t: "unat t = s" using unat_add_ullong [of "ucast w * ucast a + ucast x" "ucast c"] s by (simp add: t_def s_def)
  obtain r' where r: "mul_add_words_loop w rs as (Hw t) = (c', r')" "r = Lw t # r'"
    using Cons.prems by (auto simp: Let_def t_def split: prod.splits)
  from Cons.IH [OF r(1)] have IH: "length r' = length as"
    "val r' + BB ^ length as * unat c' = (val rs + val as * unat w) + s div BB" by (auto simp: unat_Hw t)
  from carry_step [OF IH(2)] IH(1) show ?case by (simp add: r(2) unat_Lw t s_def algebra_simps)
qed auto


lemma bn_add_words_val:
  assumes "n \<le> length a" "n \<le> length b" "bn_add_words a b n = (c, r)"
  shows "length r = n" "unat c \<le> 1" "val r + BB ^ n * unat c = val (take n a) + val (take n b)"
  using add_words_loop_val [of "take n a" "take n b" 0 c r] assms by (simp_all add: bn_add_words_def)

lemma bn_sub_words_val:
  assumes "n \<le> length a" "n \<le> length b" "bn_sub_words a b n = (c, r)"
  shows "length r = n" "unat c \<le> 1" "val r + val (take n b) = val (take n a) + BB ^ n * unat c"
  using sub_words_loop_val [of "take n a" "take n b" 0 c r] assms by (simp_all add: bn_sub_words_def)

lemma bn_mul_words_val:
  assumes "n \<le> length a" "bn_mul_words a n w = (c, r)"
  shows "length r = n" "val r + BB ^ n * unat c = val (take n a) * unat w"
  using mul_words_loop_val [of w "take n a" 0 c r] assms by (simp_all add: bn_mul_words_def)

lemma bn_mul_add_words_val:
  assumes "n \<le> length rp" "n \<le> length a" "bn_mul_add_words rp a n w = (c, r)"
  shows "length r = n" "val r + BB ^ n * unat c = val (take n rp) + val (take n a) * unat w"
  using mul_add_words_loop_val [of "take n rp" "take n a" w 0 c r] assms by (simp_all add: bn_mul_add_words_def)

section \<open>Comparison and selection\<close>

lemma or_words_eq_0: "or_words ws = 0 \<longleftrightarrow> val ws = 0"
proof -
  have "foldl (OR) w ws = 0 \<longleftrightarrow> w = 0 \<and> val ws = 0" for w
  proof (induction ws arbitrary: w)
    case (Cons x ws)
    have "w OR x = 0 \<longleftrightarrow> w = 0 \<and> x = 0" by (rule or_eq_0_iff)
    with Cons [of "w OR x"] show ?case by (simp add: unat_eq_zero)
  qed simp
  then show ?thesis by (simp add: or_words_def)
qed

lemma select_w [simp]: "constant_time_select_w (-1) a b = a" "constant_time_select_w 0 a b = b"
  by (simp_all add: constant_time_select_w_def)

lemma sint_small: "sint (ucast (word_of_int r :: ulong) :: 32 word) = r" if "r \<in> {-1, 0, 1}"
proof -
  have "(ucast (-1 :: ulong) :: 32 word) = -1" by (auto simp: bit_eq_iff bit_simps)
  then show ?thesis using that by auto
qed

lemma select_int_if:
  "a \<in> {-1, 0, 1} \<Longrightarrow> b \<in> {-1, 0, 1} \<Longrightarrow> constant_time_select_int (if P then -1 else 0) a b = (if P then a else b)"
  by (simp add: constant_time_select_int_def sint_small)

lemma digits_less: "x < B \<Longrightarrow> y < B \<Longrightarrow> x + B * p < y + B * q \<longleftrightarrow> p < q \<or> p = q \<and> x < (y :: nat)"
proof (cases p q rule: linorder_cases)
  case less
  then have "B * p + B \<le> B * q" using mult_le_mono2 [of "p + 1" q B] by simp
  then show "x < B \<Longrightarrow> y < B \<Longrightarrow> ?thesis" using less by simp
next
  case greater
  then have "B * q + B \<le> B * p" using mult_le_mono2 [of "q + 1" p B] by simp
  then show "x < B \<Longrightarrow> y < B \<Longrightarrow> ?thesis" using greater by simp
qed simp

lemma val_Cons_less: "val (a # as) < val (b # bs) \<longleftrightarrow> val as < val bs \<or> val as = val bs \<and> unat a < unat b"
  by (simp add: digits_less)

lemma cmp_words_loop_val:
  "length as = length bs \<Longrightarrow> ret \<in> {-1, 0, 1} \<Longrightarrow>
   cmp_words_loop ret as bs = (if val as < val bs then -1 else if val bs < val as then 1 else ret)"
proof (induction as bs arbitrary: ret rule: list_induct2)
  case (Cons a as b bs)
  have lt: "constant_time_select_int (constant_time_lt_w a b) (-1) 1 = (if a < b then -1 else 1)"
    unfolding constant_time_lt_w_eq by (rule select_int_if) simp_all
  have step: "cmp_words_loop ret (a # as) (b # bs) = cmp_words_loop (if a = b then ret else if a < b then -1 else 1) as bs"
    unfolding cmp_words_loop.simps Let_def lt unfolding constant_time_eq_w_eq
    by (subst select_int_if) (use Cons.prems in simp_all)
  have IH: "cmp_words_loop (if a = b then ret else if a < b then -1 else 1) as bs =
    (if val as < val bs then -1 else if val bs < val as then 1 else if a = b then ret else if a < b then -1 else 1)"
    by (rule Cons.IH) (use Cons.prems in auto)
  have ab: "a = b \<longleftrightarrow> unat a = unat b" "a < b \<longleftrightarrow> unat a < unat b" by (simp_all add: word_unat_eq_iff word_less_nat_alt)
  show ?case unfolding step IH unfolding val_Cons_less ab by auto
qed simp

lemma cmp_words_loop_take:
  "cmp_words_loop ret as bs = cmp_words_loop ret (take (min (length as) (length bs)) as) (take (min (length as) (length bs)) bs)"
  by (induction ret as bs rule: cmp_words_loop.induct) simp_all

text \<open>The comparison of arrays is that of their numbers, whatever their lengths.\<close>

lemma cmp_words_val: "bn_cmp_words_consttime a b = (if val a < val b then -1 else if val b < val a then 1 else 0)"
proof -
  define m where "m = min (length a) (length b)"
  have loop: "cmp_words_loop 0 a b = (if val (take m a) < val (take m b) then -1 else if val (take m b) < val (take m a) then 1 else 0)"
    unfolding m_def by (subst cmp_words_loop_take, rule cmp_words_loop_val) simp_all
  consider (lt) "length a < length b" | (gt) "length b < length a" | (eq) "length a = length b" by linarith
  then show ?thesis
  proof cases
    case lt
    have v: "val b = val (take m b) + BB ^ m * val (drop m b)" "take m a = a"
      using val_take_drop [of b m] lt by (simp_all add: m_def)
    have "val a < BB ^ m" using val_lt [of a] lt by (simp add: m_def)
    then have "val (drop m b) \<noteq> 0 \<Longrightarrow> val a < val b" unfolding v(1) by (cases "val (drop m b)") simp_all
    moreover have "bn_cmp_words_consttime a b = (if val (drop m b) = 0 then cmp_words_loop 0 a b else -1)"
      using lt unfolding bn_cmp_words_consttime_def Let_def constant_time_is_zero_w_eq or_words_eq_0
      by (simp add: m_def loop [unfolded m_def] select_int_if)
    ultimately show ?thesis using v loop by auto
  next
    case gt
    have v: "val a = val (take m a) + BB ^ m * val (drop m a)" "take m b = b"
      using val_take_drop [of a m] gt by (simp_all add: m_def)
    have "val b < BB ^ m" using val_lt [of b] gt by (simp add: m_def)
    then have "val (drop m a) \<noteq> 0 \<Longrightarrow> val b < val a" unfolding v(1) by (cases "val (drop m a)") simp_all
    moreover have "bn_cmp_words_consttime a b = (if val (drop m a) = 0 then cmp_words_loop 0 a b else 1)"
      using gt unfolding bn_cmp_words_consttime_def Let_def constant_time_is_zero_w_eq or_words_eq_0
      by (simp add: m_def loop [unfolded m_def] select_int_if)
    ultimately show ?thesis using v loop by auto
  next
    case eq
    then show ?thesis using loop by (simp add: bn_cmp_words_consttime_def m_def)
  qed
qed

lemma bn_select_words_all:
  "num \<le> length a \<Longrightarrow> num \<le> length b \<Longrightarrow> bn_select_words (-1) a b num = take num a"
  "num \<le> length a \<Longrightarrow> num \<le> length b \<Longrightarrow> bn_select_words 0 a b num = take num b"
  by (auto simp: bn_select_words_def intro!: nth_equalityI)

text \<open>The conditional subtraction of the modulus: one is enough below twice the modulus.\<close>

lemma bn_reduce_once_val:
  assumes "n \<le> length a" "n \<le> length m" "unat carry \<le> 1"
    and "val (take n a) + BB ^ n * unat carry < 2 * val (take n m)"
    and "bn_reduce_once a carry m n = (c, r)"
  shows "length r = n" "c = (if val (take n a) + BB ^ n * unat carry < val (take n m) then -1 else 0)"
    "val r = (val (take n a) + BB ^ n * unat carry) mod val (take n m)"
proof -
  let ?a = "val (take n a)" and ?m = "val (take n m)"
  obtain borrow d where s: "bn_sub_words a m n = (borrow, d)" by fastforce
  note d = bn_sub_words_val [OF assms(1,2) s]
  have lt: "?a < BB ^ n" "?m < BB ^ n" "val d < BB ^ n"
    using val_lt [of "take n a"] val_lt [of "take n m"] val_lt [of d] assms(1,2) d(1) by simp_all
  have r: "c = carry - borrow" "r = bn_select_words (carry - borrow) a d n"
    using assms(5) s by (auto simp: bn_reduce_once_def Let_def)
  have one: "x = 0 \<or> x = 1" if "unat x \<le> 1" for x :: ulong
    using that by (metis One_nat_def le_Suc_eq le_zero_eq unat_1 unat_eq_zero word_unat_eq_iff)
  from one [OF assms(3)] one [OF d(2)] consider (same) "carry = borrow" | (less) "carry = 0" "borrow = 1" | (more) "carry = 1" "borrow = 0"
    by auto
  then have "c = (if ?a + BB ^ n * unat carry < ?m then -1 else 0) \<and> length r = n \<and> val r = (?a + BB ^ n * unat carry) mod ?m"
  proof cases
    case same
    then have "?a + BB ^ n * unat carry = val d + ?m" using d(3) by simp
    moreover from this assms(4) have "val d < ?m" by simp
    ultimately show ?thesis using same r d(1) assms(1) by (simp add: bn_select_words_all)
  next
    case less
    then have "?a < ?m" using d(3) lt by simp
    with less r d(1) assms(1) show ?thesis by (simp add: bn_select_words_all)
  next
    case more
    then show ?thesis using d(3) lt assms(4) by simp
  qed
  then show "length r = n" "c = (if ?a + BB ^ n * unat carry < ?m then -1 else 0)" "val r = (?a + BB ^ n * unat carry) mod ?m"
    by simp_all
qed

lemma reduce_in_place_is_reduce: "bn_reduce_once_in_place r carry m num = bn_reduce_once r carry m num"
  by (simp add: bn_reduce_once_in_place_def bn_reduce_once_def)

lemma bn_mod_add_words_val:
  assumes "length a = n" "length b = n" "length m = n" "val a < val m" "val b < val m"
  shows "length (bn_mod_add_words a b m n) = n" "val (bn_mod_add_words a b m n) = (val a + val b) mod val m"
proof -
  obtain c s where s: "bn_add_words a b n = (c, s)" by fastforce
  note add = bn_add_words_val [OF _ _ s]
  obtain c' r where r: "bn_reduce_once s c m n = (c', r)" by fastforce
  have "bn_mod_add_words a b m n = r" using s r by (simp add: bn_mod_add_words_def reduce_in_place_is_reduce)
  moreover have "val s + BB ^ n * unat c = val a + val b" "length s = n" "unat c \<le> 1" using add assms(1,2) by simp_all
  ultimately show "length (bn_mod_add_words a b m n) = n" "val (bn_mod_add_words a b m n) = (val a + val b) mod val m"
    using bn_reduce_once_val [of n s m c c' r] r assms by simp_all
qed

lemma bn_mod_sub_words_val:
  assumes "length a = n" "length b = n" "length m = n" "val a < val m" "val b < val m"
  shows "length (bn_mod_sub_words a b m n) = n" "int (val (bn_mod_sub_words a b m n)) = (int (val a) - int (val b)) mod int (val m)"
proof -
  obtain borrow d where d: "bn_sub_words a b n = (borrow, d)" by fastforce
  note sub = bn_sub_words_val [OF _ _ d]
  have d': "length d = n" "unat borrow \<le> 1" "val d + val b = val a + BB ^ n * unat borrow" using sub assms(1,2) by simp_all
  obtain c s where s: "bn_add_words d m n = (c, s)" by fastforce
  have s': "length s = n" "unat c \<le> 1" "val s + BB ^ n * unat c = val d + val m"
    using bn_add_words_val [OF _ _ s] d'(1) assms(3) by simp_all
  have eq: "bn_mod_sub_words a b m n = bn_select_words (0 - borrow) s d n" using d s by (simp add: bn_mod_sub_words_def)
  have lt: "val s < BB ^ n" "val m < BB ^ n" "val d < BB ^ n" using val_lt [of s] val_lt [of m] val_lt [of d] s' d' assms by simp_all
  have "borrow = 0 \<or> borrow = 1" using d'(2) by (metis One_nat_def le_Suc_eq le_zero_eq unat_1 unat_eq_zero word_unat_eq_iff)
  then have "length (bn_mod_sub_words a b m n) = n \<and> int (val (bn_mod_sub_words a b m n)) = (int (val a) - int (val b)) mod int (val m)"
  proof
    assume "borrow = 0"
    then have "bn_mod_sub_words a b m n = d" "int (val a) - int (val b) = int (val d)" using eq d' s' by (simp_all add: bn_select_words_all)
    moreover have "val d < val m" using d'(3) \<open>borrow = 0\<close> assms(4) by simp
    ultimately show ?thesis using d'(1) by simp
  next
    assume b: "borrow = 1"
    then have r: "bn_mod_sub_words a b m n = s" using eq d' s' by (simp add: bn_select_words_all)
    have "c = 0 \<or> c = 1" using s'(2) by (metis One_nat_def le_Suc_eq le_zero_eq unat_1 unat_eq_zero word_unat_eq_iff)
    then have e: "int (val s) = int (val a) - int (val b) + int (val m)"
    proof
      assume "c = 1" with s' d' b show ?thesis by simp
    next
      assume "c = 0" with s'(3) d'(3) b lt assms(5) have False by simp
      then show ?thesis ..
    qed
    have "int (val a) - int (val b) < 0" using d'(3) b lt(3) by simp
    then have "0 \<le> int (val s)" "int (val s) < int (val m)" using e by simp_all
    then have "int (val s) mod int (val m) = int (val s)" by (rule mod_pos_pos_trivial)
    moreover have "(int (val a) - int (val b) + int (val m)) mod int (val m) = (int (val a) - int (val b)) mod int (val m)"
      by (rule mod_add_self2)
    ultimately show ?thesis using r s'(1) unfolding e [symmetric] by simp
  qed
  then show "length (bn_mod_sub_words a b m n) = n" "int (val (bn_mod_sub_words a b m n)) = (int (val a) - int (val b)) mod int (val m)" by simp_all
qed


section \<open>Shifts\<close>

text \<open>Two neighbours give a digit of the array shifted right.\<close>

lemma unat_funnel:
  assumes "0 < s" "s < 64"
  shows "unat (drop_bit s (x :: ulong) OR push_bit (64 - s) y) = unat x div 2 ^ s + (unat y mod 2 ^ s) * 2 ^ (64 - s)"
proof -
  have P: "(2 :: nat) ^ s * 2 ^ (64 - s) = 2 ^ 64" using assms by (simp add: power_add [symmetric])
  have x: "unat (drop_bit s x) < 2 ^ (64 - s)"
    using ulong_lt [of x] P by (simp add: unat_drop_bit_div BB_def less_mult_imp_div_less mult.commute)
  define z where "z = take_bit s y"
  have z: "unat z = unat y mod 2 ^ s" unfolding z_def unsigned_take_bit_eq by (rule take_bit_eq_mod)
  have "push_bit (64 - s) y = push_bit (64 - s) z"
    using assms by (auto simp: bit_eq_iff bit_simps z_def)
  moreover have "unat z * 2 ^ (64 - s) + unat (drop_bit s x) < 2 ^ LENGTH(64)"
  proof -
    have "unat z < 2 ^ s" by (simp add: z)
    then have "(unat z + 1) * 2 ^ (64 - s) \<le> 2 ^ s * 2 ^ (64 - s)" by (intro mult_right_mono) simp_all
    with x P show ?thesis by simp
  qed
  ultimately show ?thesis using unat_push_or [of z "64 - s" "drop_bit s x"] x z
    by (simp add: or.commute unat_drop_bit_div)
qed

fun rsh :: "nat \<Rightarrow> ulong list \<Rightarrow> ulong list" where
  "rsh s (x # y # zs) = (drop_bit s x OR push_bit (64 - s) y) # rsh s (y # zs)"
| "rsh s [x] = [drop_bit s x]"
| "rsh s [] = []"

lemma val_rsh: "0 < s \<Longrightarrow> s < 64 \<Longrightarrow> length (rsh s xs) = length xs \<and> val (rsh s xs) = val xs div 2 ^ s"
proof (induction s xs rule: rsh.induct)
  case (1 s x y zs)
  define v where "v = val (y # zs)"
  have IH: "val (rsh s (y # zs)) = v div 2 ^ s" "length (rsh s (y # zs)) = length (y # zs)" using 1 by (simp_all add: v_def)
  have B: "BB = 2 ^ s * 2 ^ (64 - s)" using 1(2,3) by (simp add: BB_def power_add [symmetric])
  have y: "v mod 2 ^ s = unat y mod 2 ^ s" by (simp add: v_def B mult.assoc)
  have "val (x # y # zs) div 2 ^ s = (unat x + 2 ^ s * (2 ^ (64 - s) * v)) div 2 ^ s" by (simp add: v_def B mult.assoc)
  also have "\<dots> = unat x div 2 ^ s + 2 ^ (64 - s) * v" by simp
  also have "\<dots> = unat x div 2 ^ s + 2 ^ (64 - s) * (v mod 2 ^ s + 2 ^ s * (v div 2 ^ s))" by simp
  also have "\<dots> = val (rsh s (x # y # zs))"
    using unat_funnel [OF 1(2,3), of x y] by (simp add: IH y B algebra_simps)
  finally show ?case using IH(2) by simp
next
  case (2 s x)
  then show ?case by (simp add: unat_drop_bit_div)
qed simp

lemma rsh_nth:
  "rsh s xs = (if xs = [] then [] else
     map (\<lambda>i. drop_bit s (xs ! i) OR push_bit (64 - s) (xs ! (i + 1))) [0..<length xs - 1] @ [drop_bit s (xs ! (length xs - 1))])"
proof (induction s xs rule: rsh.induct)
  case (1 s x y zs)
  have "[0..<Suc (length zs)] = 0 # map Suc [0..<length zs]" by (metis map_Suc_upt upt_conv_Cons zero_less_Suc)
  then have "[0..<length (x # y # zs) - 1] = 0 # map Suc [0..<length (y # zs) - 1]" by simp
  with 1 show ?case by (simp del: upt_Suc)
qed simp_all

lemma pow2_split: "2 ^ n = BB ^ (n div 64) * 2 ^ (n mod 64)"
proof -
  have "(2 :: nat) ^ n = 2 ^ (64 * (n div 64) + n mod 64)" by simp
  also have "\<dots> = (2 ^ 64) ^ (n div 64) * 2 ^ (n mod 64)" by (simp only: power_add power_mult)
  finally show ?thesis by (simp only: BB_def)
qed

lemma bn_rshift_words_val:
  assumes "num \<le> length a"
  shows "length (bn_rshift_words a shift num) = num \<and> val (bn_rshift_words a shift num) = val (take num a) div 2 ^ shift"
proof -
  define s where "s = shift mod 64"
  define w where "w = shift div 64"
  have sh: "2 ^ shift = BB ^ w * 2 ^ s"
    unfolding s_def w_def by (rule pow2_split)
  show ?thesis
  proof (cases "w \<ge> num")
    case True
    have "val (take num a) < BB ^ num" using val_lt [of "take num a"] assms by simp
    also have "\<dots> \<le> BB ^ w * 2 ^ s" using True power_increasing [of num w BB] by (simp add: le_trans Suc_leI)
    finally have "val (take num a) div 2 ^ shift = 0" by (simp add: sh)
    with True show ?thesis by (simp add: bn_rshift_words_def w_def)
  next
    case False
    define xs where "xs = take (num - w) (drop w a)"
    have xs: "length xs = num - w" "xs \<noteq> []" using assms False by (auto simp: xs_def)
    have "val (take num a) = val (take w a) + BB ^ w * val xs"
      using val_take_drop [of "take num a" w] assms False by (simp add: xs_def drop_take min_def)
    moreover have "val (take w a) < BB ^ w" using val_lt [of "take w a"] assms False by simp
    ultimately have d: "val (take num a) div 2 ^ shift = val xs div 2 ^ s" by (simp add: sh div_mult2_eq)
    show ?thesis
    proof (cases "s = 0")
      case True
      with False d xs show ?thesis by (simp add: bn_rshift_words_def w_def [symmetric] s_def [symmetric] xs_def [symmetric] val_append)
    next
      case s: False
      then have ss: "0 < s" "s < 64" by (simp_all add: s_def)
      have "[w..<num - 1] = map (\<lambda>i. i + w) [0..<length xs - 1]" 
        using map_add_upt [of w "length xs - 1"] xs False by simp
      then have "map (\<lambda>i. drop_bit s (a ! i) OR push_bit (64 - s) (a ! (i + 1))) [w..<num - 1] @ [drop_bit s (a ! (num - 1))] = rsh s xs"
        using xs assms False by (simp add: rsh_nth xs_def add.commute)
      then have "bn_rshift_words a shift num = rsh s xs @ replicate w 0"
        using False s by (simp add: bn_rshift_words_def w_def [symmetric] s_def [symmetric])
      with val_rsh [OF ss, of xs] d xs False show ?thesis by (simp add: val_append)
    qed
  qed
qed

lemma bn_rshift1_words_val:
  "num \<le> length a \<Longrightarrow> length (bn_rshift1_words a num) = num \<and> val (bn_rshift1_words a num) = val (take num a) div 2"
proof (cases "num = 0")
  case False
  assume "num \<le> length a"
  with False have "bn_rshift1_words a num = rsh 1 (take num a)"
    by (auto simp: bn_rshift1_words_def rsh_nth)
  with val_rsh [of 1 "take num a"] \<open>num \<le> length a\<close> show ?thesis by simp
qed (simp add: bn_rshift1_words_def)

lemma val_div_mod_digit: "i < length xs \<Longrightarrow> val xs div BB ^ i mod BB = unat (xs ! i)"
proof (induction xs arbitrary: i)
  case (Cons x xs)
  show ?case
  proof (cases i)
    case (Suc j)
    with Cons show ?thesis by (simp add: div_mult2_eq val_mod(2) del: val.simps)
  qed (simp add: val_mod del: val.simps)
qed simp

lemma bn_is_bit_set_words_val:
  assumes "num \<le> length a"
  shows "bn_is_bit_set_words a num b \<longleftrightarrow> bit (val (take num a)) b"
proof -
  note b = pow2_split [of b]
  show ?thesis
  proof (cases "b div 64 \<ge> num")
    case True
    have "val (take num a) < BB ^ num" using val_lt [of "take num a"] assms by simp
    also have "\<dots> \<le> BB ^ (b div 64) * 2 ^ (b mod 64)" using True power_increasing [of num "b div 64" BB] by (simp add: le_trans Suc_leI)
    finally have "val (take num a) div 2 ^ b = 0" by (simp add: b)
    with True show ?thesis by (simp add: bn_is_bit_set_words_def bit_iff_odd)
  next
    case False
    define w where "w = take num a ! (b div 64)"
    have w: "unat w = val (take num a) div BB ^ (b div 64) mod BB"
      using val_div_mod_digit [of "b div 64" "take num a"] False assms by (simp add: w_def)
    have "bn_is_bit_set_words a num b \<longleftrightarrow> bit w (b mod 64)"
      using False by (simp add: bn_is_bit_set_words_def Let_def w_def bit_iff_odd_drop_bit and_one_eq) (simp add: odd_iff_mod_2_eq_one)
    also have "\<dots> \<longleftrightarrow> bit (unat w) (b mod 64)" by (simp add: bit_unsigned_iff)
    also have "\<dots> \<longleftrightarrow> odd (val (take num a) div BB ^ (b div 64) mod BB div 2 ^ (b mod 64))" by (simp add: bit_iff_odd w)
    also have "\<dots> \<longleftrightarrow> odd (val (take num a) div BB ^ (b div 64) div 2 ^ (b mod 64))"
    proof -
      have "v mod BB = take_bit 64 v" for v by (simp add: BB_def take_bit_eq_mod)
      then have "bit (v mod BB) (b mod 64) = bit v (b mod 64)" for v by (simp add: bit_take_bit_iff)
      then show ?thesis by (simp add: bit_iff_odd)
    qed
    finally show ?thesis by (simp add: bit_iff_odd b div_mult2_eq)
  qed
qed

end
