(* ===== verification/BN.thy ===== *)
theory BN
  imports BNWords
begin

text \<open>
  Signed integers of any size: \<open>crypto/fipsmodule/bn/\<close> \<open>bn.c\<close>, \<open>cmp.c\<close>, \<open>add.c\<close>, \<open>shift.c\<close> and \<open>bytes.c\<close>. The array of a
  \<open>BIGNUM\<close> has \<open>dmax\<close> words, of which \<open>width\<close> count and the rest are whatever was left there; leading zero words are
  allowed. Where the result may be one of the operands, each word is read before it is written,
  so operands are passed by value. An operation returns whether it succeeded, and the result.
\<close>

record bignum =
  bn_d :: "ulong list"
  bn_width :: nat
  bn_neg :: bool
  bn_static :: bool

text \<open>What the allocator answers to a request of so many bytes.\<close>

type_synonym word_mem = "nat \<Rightarrow> ulong list option"

definition word_mem_ok :: "word_mem \<Rightarrow> bool" where
  "word_mem_ok m \<longleftrightarrow> (\<forall>n ws. m n = Some ws \<longrightarrow> length ws = n div 8)"

section \<open>\<open>bn.c\<close>\<close>

definition BN_init :: bignum where
  "BN_init = \<lparr>bn_d = [], bn_width = 0, bn_neg = False, bn_static = False\<rparr>"

definition MAX_WORDS :: nat where "MAX_WORDS = (2 ^ 31 - 1) div (4 * 64)"

definition bn_wexpand :: "word_mem \<Rightarrow> bignum \<Rightarrow> nat \<Rightarrow> bool \<times> bignum" where
  "bn_wexpand m bn words =
     (if words \<le> length (bn_d bn) then (True, bn)
      else if words > MAX_WORDS then (False, bn)
      else if bn_static bn then (False, bn)
      else case m (8 * words) of None \<Rightarrow> (False, bn)
        | Some a \<Rightarrow> (True, bn\<lparr>bn_d := take (bn_width bn) (bn_d bn) @ drop (bn_width bn) a\<rparr>))"

definition bn_expand :: "word_mem \<Rightarrow> bignum \<Rightarrow> nat \<Rightarrow> bool \<times> bignum" where
  "bn_expand m bn bits =
     (if size_add bits 63 < bits then (False, bn) else bn_wexpand m bn (size_add bits 63 div 64))"

definition bn_fits_in_words :: "bignum \<Rightarrow> nat \<Rightarrow> bool" where
  "bn_fits_in_words bn num = (or_words (drop num (take (bn_width bn) (bn_d bn))) = 0)"

definition BN_is_zero :: "bignum \<Rightarrow> bool" where
  "BN_is_zero bn = bn_fits_in_words bn 0"

fun minimal_width_loop :: "ulong list \<Rightarrow> nat \<Rightarrow> nat" where
  "minimal_width_loop d (Suc n) = (if d ! n = 0 then minimal_width_loop d n else Suc n)"
| "minimal_width_loop d 0 = 0"

definition bn_minimal_width :: "bignum \<Rightarrow> nat" where
  "bn_minimal_width bn = minimal_width_loop (bn_d bn) (bn_width bn)"

definition bn_set_minimal_width :: "bignum \<Rightarrow> bignum" where
  "bn_set_minimal_width bn =
     (let w = bn_minimal_width bn; bn = bn\<lparr>bn_width := w\<rparr> in if w = 0 then bn\<lparr>bn_neg := False\<rparr> else bn)"

definition BN_copy :: "word_mem \<Rightarrow> bignum \<Rightarrow> bignum \<Rightarrow> bool \<times> bignum" where
  "BN_copy m dest src =
     (case bn_wexpand m dest (bn_width src) of
        (False, dest) \<Rightarrow> (False, dest)
      | (True, dest) \<Rightarrow>
          (True, dest\<lparr>bn_d := take (bn_width src) (bn_d src) @ drop (bn_width src) (bn_d dest),
                      bn_width := bn_width src, bn_neg := bn_neg src\<rparr>))"

definition BN_clear :: "bignum \<Rightarrow> bignum" where
  "BN_clear bn = bn\<lparr>bn_d := replicate (length (bn_d bn)) 0, bn_width := 0, bn_neg := False\<rparr>"

text \<open>The number of bits of a word, without branching: each step looks whether the upper half of what is left
  is zero, and goes on with it or with the lower half.\<close>

definition num_bits_step :: "nat \<Rightarrow> ulong \<times> ulong \<Rightarrow> ulong \<times> ulong" where
  "num_bits_step k = (\<lambda>(bits, l).
     let x = drop_bit k l;
         msk = 0 - drop_bit 63 (0 - x)
     in (bits + (word_of_nat k AND msk), l XOR ((x XOR l) AND msk)))"

definition BN_num_bits_word :: "ulong \<Rightarrow> nat" where
  "BN_num_bits_word l =
     unat (fst (num_bits_step 1 (num_bits_step 2 (num_bits_step 4 (num_bits_step 8
       (num_bits_step 16 (num_bits_step 32 (if l \<noteq> 0 then 1 else 0, l))))))))"

definition BN_num_bits :: "bignum \<Rightarrow> nat" where
  "BN_num_bits bn =
     (let width = bn_minimal_width bn
      in if width = 0 then 0 else (width - 1) * 64 + BN_num_bits_word (bn_d bn ! (width - 1)))"

definition BN_num_bytes :: "bignum \<Rightarrow> nat" where
  "BN_num_bytes bn = (BN_num_bits bn + 7) div 8"

definition BN_zero :: "bignum \<Rightarrow> bignum" where
  "BN_zero bn = bn\<lparr>bn_width := 0, bn_neg := False\<rparr>"

definition BN_set_word :: "word_mem \<Rightarrow> bignum \<Rightarrow> ulong \<Rightarrow> bool \<times> bignum" where
  "BN_set_word m bn v =
     (if v = 0 then (True, BN_zero bn)
      else case bn_wexpand m bn 1 of
        (False, bn) \<Rightarrow> (False, bn)
      | (True, bn) \<Rightarrow> (True, bn\<lparr>bn_neg := False, bn_d := (bn_d bn)[0 := v], bn_width := 1\<rparr>))"

definition BN_one :: "word_mem \<Rightarrow> bignum \<Rightarrow> bool \<times> bignum" where
  "BN_one m bn = BN_set_word m bn 1"

definition bn_set_words :: "word_mem \<Rightarrow> bignum \<Rightarrow> ulong list \<Rightarrow> bool \<times> bignum" where
  "bn_set_words m bn words =
     (case bn_wexpand m bn (length words) of
        (False, bn) \<Rightarrow> (False, bn)
      | (True, bn) \<Rightarrow> (True, bn\<lparr>bn_d := words @ drop (length words) (bn_d bn), bn_width := length words, bn_neg := False\<rparr>))"

definition bn_copy_words :: "nat \<Rightarrow> bignum \<Rightarrow> ulong list option" where
  "bn_copy_words num bn =
     (if bn_neg bn then None
      else if bn_width bn > num \<and> \<not> bn_fits_in_words bn num then None
      else let width = min (bn_width bn) num in Some (take width (bn_d bn) @ replicate (num - width) 0))"

definition BN_set_negative :: "bignum \<Rightarrow> bool \<Rightarrow> bignum" where
  "BN_set_negative bn sign = bn\<lparr>bn_neg := (if sign \<and> \<not> BN_is_zero bn then True else False)\<rparr>"

definition bn_resize_words :: "word_mem \<Rightarrow> bignum \<Rightarrow> nat \<Rightarrow> bool \<times> bignum" where
  "bn_resize_words m bn words =
     (if bn_width bn \<le> words then
        case bn_wexpand m bn words of
          (False, bn) \<Rightarrow> (False, bn)
        | (True, bn) \<Rightarrow>
            (True, bn\<lparr>bn_d := take (bn_width bn) (bn_d bn) @ replicate (words - bn_width bn) 0 @ drop words (bn_d bn),
                      bn_width := words\<rparr>)
      else if \<not> bn_fits_in_words bn words then (False, bn)
      else (True, bn\<lparr>bn_width := words\<rparr>))"

section \<open>\<open>cmp.c\<close>\<close>

definition BN_ucmp :: "bignum \<Rightarrow> bignum \<Rightarrow> int" where
  "BN_ucmp a b = bn_cmp_words_consttime (take (bn_width a) (bn_d a)) (take (bn_width b) (bn_d b))"

text \<open>\<open>None\<close> is \<open>NULL\<close>.\<close>

definition BN_cmp :: "bignum option \<Rightarrow> bignum option \<Rightarrow> int" where
  "BN_cmp a b =
     (case (a, b) of
        (Some _, None) \<Rightarrow> -1
      | (None, Some _) \<Rightarrow> 1
      | (None, None) \<Rightarrow> 0
      | (Some a, Some b) \<Rightarrow>
          if bn_neg a \<noteq> bn_neg b then (if bn_neg a then -1 else 1)
          else let ret = BN_ucmp a b in if bn_neg a then - ret else ret)"

definition BN_abs_is_word :: "bignum \<Rightarrow> ulong \<Rightarrow> bool" where
  "BN_abs_is_word bn w =
     (if bn_width bn = 0 then w = 0
      else (bn_d bn ! 0 XOR w) OR or_words (drop 1 (take (bn_width bn) (bn_d bn))) = 0)"

definition BN_cmp_word :: "bignum \<Rightarrow> ulong \<Rightarrow> int" where
  "BN_cmp_word a b =
     BN_cmp (Some a) (Some \<lparr>bn_d = [b], bn_width = (if b > 0 then 1 else 0), bn_neg = False, bn_static = True\<rparr>)"

definition BN_is_one :: "bignum \<Rightarrow> bool" where
  "BN_is_one bn = (\<not> bn_neg bn \<and> BN_abs_is_word bn 1)"

definition BN_is_word :: "bignum \<Rightarrow> ulong \<Rightarrow> bool" where
  "BN_is_word bn w = (BN_abs_is_word bn w \<and> (w = 0 \<or> \<not> bn_neg bn))"

definition BN_is_odd :: "bignum \<Rightarrow> bool" where
  "BN_is_odd bn = (bn_width bn > 0 \<and> bn_d bn ! 0 AND 1 = 1)"

definition BN_is_pow2 :: "bignum \<Rightarrow> bool" where
  "BN_is_pow2 bn =
     (let width = bn_minimal_width bn
      in if width = 0 \<or> bn_neg bn then False
         else if list_ex (\<lambda>w. w \<noteq> 0) (take (width - 1) (bn_d bn)) then False
         else bn_d bn ! (width - 1) AND (bn_d bn ! (width - 1) - 1) = 0)"

definition BN_equal_consttime :: "bignum \<Rightarrow> bignum \<Rightarrow> bool" where
  "BN_equal_consttime a b =
     (let aw = take (bn_width a) (bn_d a); bw = take (bn_width b) (bn_d b);
          msk = or_words (drop (length aw) bw) OR or_words (drop (length bw) aw) OR or_words (map2 (XOR) aw bw)
      in msk OR (if bn_neg a \<noteq> bn_neg b then 1 else 0) = 0)"

section \<open>\<open>add.c\<close>\<close>

text \<open>The loops that run a carry or a borrow through the words only one operand has.\<close>

fun carry_loop :: "ulong \<Rightarrow> ulong list \<Rightarrow> ulong \<times> ulong list" where
  "carry_loop carry (x # xs) =
     (let tmp = carry + x
      in case carry_loop (if tmp < x then 1 else 0) xs of (carry, r) \<Rightarrow> (carry, tmp # r))"
| "carry_loop carry [] = (carry, [])"

fun borrow_loop :: "ulong \<Rightarrow> ulong list \<Rightarrow> ulong \<times> ulong list" where
  "borrow_loop borrow (x # xs) =
     (let r0 = x - borrow
      in case borrow_loop (if x < r0 then 1 else 0) xs of (borrow, r) \<Rightarrow> (borrow, r0 # r))"
| "borrow_loop borrow [] = (borrow, [])"

definition bn_uadd_consttime :: "word_mem \<Rightarrow> bignum \<Rightarrow> bignum \<Rightarrow> bignum \<Rightarrow> bool \<times> bignum" where
  "bn_uadd_consttime m r a b =
     (let (a, b) = (if bn_width a < bn_width b then (b, a) else (a, b));
          mx = bn_width a; mn = bn_width b
      in case bn_wexpand m r (mx + 1) of
           (False, r) \<Rightarrow> (False, r)
         | (True, r) \<Rightarrow>
             (case bn_add_words (bn_d a) (bn_d b) mn of (carry, r1) \<Rightarrow>
              case carry_loop carry (drop mn (take mx (bn_d a))) of (carry, r2) \<Rightarrow>
                (True, r\<lparr>bn_width := mx + 1, bn_d := r1 @ r2 @ [carry] @ drop (mx + 1) (bn_d r)\<rparr>)))"

definition BN_uadd :: "word_mem \<Rightarrow> bignum \<Rightarrow> bignum \<Rightarrow> bignum \<Rightarrow> bool \<times> bignum" where
  "BN_uadd m r a b =
     (case bn_uadd_consttime m r a b of (False, r) \<Rightarrow> (False, r) | (True, r) \<Rightarrow> (True, bn_set_minimal_width r))"

definition bn_usub_consttime :: "word_mem \<Rightarrow> bignum \<Rightarrow> bignum \<Rightarrow> bignum \<Rightarrow> bool \<times> bignum" where
  "bn_usub_consttime m r a b =
     (if bn_width b > bn_width a \<and> \<not> bn_fits_in_words b (bn_width a) then (False, r)
      else let b_width = min (bn_width b) (bn_width a)
        in case bn_wexpand m r (bn_width a) of
             (False, r) \<Rightarrow> (False, r)
           | (True, r) \<Rightarrow>
               (case bn_sub_words (bn_d a) (bn_d b) b_width of (borrow, r1) \<Rightarrow>
                case borrow_loop borrow (drop b_width (take (bn_width a) (bn_d a))) of (borrow, r2) \<Rightarrow>
                  let r = r\<lparr>bn_d := r1 @ r2 @ drop (bn_width a) (bn_d r)\<rparr>
                  in if borrow \<noteq> 0 then (False, r) else (True, r\<lparr>bn_width := bn_width a, bn_neg := False\<rparr>)))"

definition BN_usub :: "word_mem \<Rightarrow> bignum \<Rightarrow> bignum \<Rightarrow> bignum \<Rightarrow> bool \<times> bignum" where
  "BN_usub m r a b =
     (case bn_usub_consttime m r a b of (False, r) \<Rightarrow> (False, r) | (True, r) \<Rightarrow> (True, bn_set_minimal_width r))"

definition BN_add :: "word_mem \<Rightarrow> bignum \<Rightarrow> bignum \<Rightarrow> bignum \<Rightarrow> bool \<times> bignum" where
  "BN_add m r a b =
     (if bn_neg a \<noteq> bn_neg b then
        let (a, b) = (if bn_neg a then (b, a) else (a, b))
        in if BN_ucmp a b < 0 then
             case BN_usub m r b a of (False, r) \<Rightarrow> (False, r) | (True, r) \<Rightarrow> (True, r\<lparr>bn_neg := True\<rparr>)
           else
             case BN_usub m r a b of (False, r) \<Rightarrow> (False, r) | (True, r) \<Rightarrow> (True, r\<lparr>bn_neg := False\<rparr>)
      else case BN_uadd m r a b of (ret, r) \<Rightarrow> (ret, r\<lparr>bn_neg := bn_neg a\<rparr>))"

definition BN_sub :: "word_mem \<Rightarrow> bignum \<Rightarrow> bignum \<Rightarrow> bignum \<Rightarrow> bool \<times> bignum" where
  "BN_sub m r a b =
     (let add = (bn_neg a \<noteq> bn_neg b); neg = (bn_neg a \<and> \<not> bn_neg b);
          (a, b) = (if bn_neg a \<and> bn_neg b then (b, a) else (a, b))
      in if add then
           case BN_uadd m r a b of (False, r) \<Rightarrow> (False, r) | (True, r) \<Rightarrow> (True, r\<lparr>bn_neg := neg\<rparr>)
         else if BN_ucmp a b < 0 then
           case BN_usub m r b a of (False, r) \<Rightarrow> (False, r) | (True, r) \<Rightarrow> (True, r\<lparr>bn_neg := True\<rparr>)
         else
           case BN_usub m r a b of (False, r) \<Rightarrow> (False, r) | (True, r) \<Rightarrow> (True, r\<lparr>bn_neg := False\<rparr>))"

text \<open>The loops of \<open>BN_add_word\<close> and \<open>BN_sub_word\<close>. The second returns the index at which it stopped; it is only
  entered when some word stops it.\<close>

fun add_word_loop :: "ulong \<Rightarrow> ulong list \<Rightarrow> ulong \<times> ulong list" where
  "add_word_loop w (x # xs) =
     (if w \<noteq> 0 then
        let l = x + w
        in case add_word_loop (if w > l then 1 else 0) xs of (w, r) \<Rightarrow> (w, l # r)
      else (w, x # xs))"
| "add_word_loop w [] = (w, [])"

fun sub_word_loop :: "ulong \<Rightarrow> ulong list \<Rightarrow> nat \<times> ulong list" where
  "sub_word_loop w (x # xs) =
     (if x \<ge> w then (0, (x - w) # xs)
      else case sub_word_loop 1 xs of (i, r) \<Rightarrow> (Suc i, (x - w) # r))"
| "sub_word_loop w [] = (0, [])"

function (sequential) BN_add_word :: "word_mem \<Rightarrow> bignum \<Rightarrow> ulong \<Rightarrow> bool \<times> bignum"
  and BN_sub_word :: "word_mem \<Rightarrow> bignum \<Rightarrow> ulong \<Rightarrow> bool \<times> bignum" where
  "BN_add_word m a w =
     (if w = 0 then (True, a)
      else if BN_is_zero a then BN_set_word m a w
      else if bn_neg a then
        case BN_sub_word m (a\<lparr>bn_neg := False\<rparr>) w of (i, a) \<Rightarrow>
          (i, if \<not> BN_is_zero a then a\<lparr>bn_neg := \<not> bn_neg a\<rparr> else a)
      else
        case add_word_loop w (take (bn_width a) (bn_d a)) of (w, r) \<Rightarrow>
          let a = a\<lparr>bn_d := r @ drop (bn_width a) (bn_d a)\<rparr>
          in if w \<noteq> 0 then
               case bn_wexpand m a (bn_width a + 1) of
                 (False, a) \<Rightarrow> (False, a)
               | (True, a) \<Rightarrow> (True, a\<lparr>bn_width := bn_width a + 1, bn_d := (bn_d a)[bn_width a := w]\<rparr>)
             else (True, a))"
| "BN_sub_word m a w =
     (if w = 0 then (True, a)
      else if BN_is_zero a then
        case BN_set_word m a w of (i, a) \<Rightarrow> (i, if i then BN_set_negative a True else a)
      else if bn_neg a then
        case BN_add_word m (a\<lparr>bn_neg := False\<rparr>) w of (i, a) \<Rightarrow> (i, a\<lparr>bn_neg := True\<rparr>)
      else if bn_minimal_width a = 1 \<and> bn_d a ! 0 < w then
        (True, a\<lparr>bn_d := (bn_d a)[0 := w - bn_d a ! 0], bn_neg := True\<rparr>)
      else
        case sub_word_loop w (take (bn_width a) (bn_d a)) of (i, r) \<Rightarrow>
          let a = a\<lparr>bn_d := r @ drop (bn_width a) (bn_d a)\<rparr>
          in (True, if bn_d a ! i = 0 \<and> i = bn_width a - 1 then a\<lparr>bn_width := bn_width a - 1\<rparr> else a))"
  by pat_completeness auto
termination
  by (relation "measure (\<lambda>x. case x of Inl (m, a, w) \<Rightarrow> if bn_neg a then 1 else 0 | Inr (m, a, w) \<Rightarrow> if bn_neg a then 1 else 0)") auto

declare BN_add_word.simps [simp del] BN_sub_word.simps [simp del]


section \<open>\<open>shift.c\<close>\<close>

text \<open>The loops of \<open>BN_lshift\<close>, from the last word of \<open>a\<close> to its first.\<close>

fun lshift_words_loop :: "ulong list \<Rightarrow> nat \<Rightarrow> nat \<Rightarrow> ulong list \<Rightarrow> ulong list" where
  "lshift_words_loop f nw (Suc i) t = lshift_words_loop f nw i (t[nw + i := f ! i])"
| "lshift_words_loop f nw 0 t = t"

fun lshift_bits_loop :: "ulong list \<Rightarrow> nat \<Rightarrow> nat \<Rightarrow> nat \<Rightarrow> ulong list \<Rightarrow> ulong list" where
  "lshift_bits_loop f nw lb (Suc i) t =
     (let l = f ! i;
          t = t[nw + i + 1 := t ! (nw + i + 1) OR drop_bit (64 - lb) l];
          t = t[nw + i := push_bit lb l]
      in lshift_bits_loop f nw lb i t)"
| "lshift_bits_loop f nw lb 0 t = t"

definition BN_lshift :: "word_mem \<Rightarrow> bignum \<Rightarrow> bignum \<Rightarrow> int \<Rightarrow> bool \<times> bignum" where
  "BN_lshift m r a n =
     (if n < 0 then (False, r)
      else
        let r = r\<lparr>bn_neg := bn_neg a\<rparr>; nw = nat n div 64
        in case bn_wexpand m r (bn_width a + nw + 1) of
             (False, r) \<Rightarrow> (False, r)
           | (True, r) \<Rightarrow>
               let lb = nat n mod 64;
                   t = (bn_d r)[bn_width a + nw := 0];
                   t = (if lb = 0 then lshift_words_loop (bn_d a) nw (bn_width a) t
                        else lshift_bits_loop (bn_d a) nw lb (bn_width a) t);
                   t = replicate nw 0 @ drop nw t
               in (True, bn_set_minimal_width (r\<lparr>bn_d := t, bn_width := bn_width a + nw + 1\<rparr>)))"

fun lshift1_loop :: "ulong \<Rightarrow> ulong list \<Rightarrow> ulong \<times> ulong list" where
  "lshift1_loop c (t # ap) =
     (case lshift1_loop (drop_bit 63 t) ap of (c', r) \<Rightarrow> (c', (push_bit 1 t OR c) # r))"
| "lshift1_loop c [] = (c, [])"

definition BN_lshift1 :: "word_mem \<Rightarrow> bignum \<Rightarrow> bignum \<Rightarrow> bool \<times> bignum" where
  "BN_lshift1 m r a =
     (case bn_wexpand m (r\<lparr>bn_neg := bn_neg a\<rparr>) (bn_width a + 1) of
        (False, r) \<Rightarrow> (False, r)
      | (True, r) \<Rightarrow>
          (case lshift1_loop 0 (take (bn_width a) (bn_d a)) of (c, rp) \<Rightarrow>
             let r = r\<lparr>bn_d := rp @ drop (bn_width a) (bn_d r), bn_width := bn_width a\<rparr>
             in (True, if c \<noteq> 0 then r\<lparr>bn_d := (bn_d r)[bn_width a := 1], bn_width := bn_width a + 1\<rparr> else r)))"

definition BN_rshift :: "word_mem \<Rightarrow> bignum \<Rightarrow> bignum \<Rightarrow> int \<Rightarrow> bool \<times> bignum" where
  "BN_rshift m r a n =
     (if n < 0 then (False, r)
      else case bn_wexpand m r (bn_width a) of
        (False, r) \<Rightarrow> (False, r)
      | (True, r) \<Rightarrow>
          (True, bn_set_minimal_width
             (r\<lparr>bn_d := bn_rshift_words (bn_d a) (nat n) (bn_width a) @ drop (bn_width a) (bn_d r),
               bn_neg := bn_neg a, bn_width := bn_width a\<rparr>)))"

definition BN_rshift1 :: "word_mem \<Rightarrow> bignum \<Rightarrow> bignum \<Rightarrow> bool \<times> bignum" where
  "BN_rshift1 m r a =
     (case bn_wexpand m r (bn_width a) of
        (False, r) \<Rightarrow> (False, r)
      | (True, r) \<Rightarrow>
          (True, bn_set_minimal_width
             (r\<lparr>bn_d := bn_rshift1_words (bn_d a) (bn_width a) @ drop (bn_width a) (bn_d r),
               bn_width := bn_width a, bn_neg := bn_neg a\<rparr>)))"

definition BN_set_bit :: "word_mem \<Rightarrow> bignum \<Rightarrow> int \<Rightarrow> bool \<times> bignum" where
  "BN_set_bit m a n =
     (if n < 0 then (False, a)
      else
        let i = nat n div 64; j = nat n mod 64;
            set = (\<lambda>a. (True, a\<lparr>bn_d := (bn_d a)[i := bn_d a ! i OR push_bit j 1]\<rparr>))
        in if bn_width a \<le> i then
             case bn_wexpand m a (i + 1) of
               (False, a) \<Rightarrow> (False, a)
             | (True, a) \<Rightarrow>
                 set (a\<lparr>bn_d := take (bn_width a) (bn_d a) @ replicate (i + 1 - bn_width a) 0 @ drop (i + 1) (bn_d a),
                        bn_width := i + 1\<rparr>)
           else set a)"

definition BN_clear_bit :: "bignum \<Rightarrow> int \<Rightarrow> bool \<times> bignum" where
  "BN_clear_bit a n =
     (if n < 0 then (False, a)
      else
        let i = nat n div 64; j = nat n mod 64
        in if bn_width a \<le> i then (False, a)
           else (True, bn_set_minimal_width (a\<lparr>bn_d := (bn_d a)[i := bn_d a ! i AND NOT (push_bit j 1)]\<rparr>)))"

definition BN_is_bit_set :: "bignum \<Rightarrow> int \<Rightarrow> bool" where
  "BN_is_bit_set a n = (if n < 0 then False else bn_is_bit_set_words (bn_d a) (bn_width a) (nat n))"

definition BN_mask_bits :: "bignum \<Rightarrow> int \<Rightarrow> bool \<times> bignum" where
  "BN_mask_bits a n =
     (if n < 0 then (False, a)
      else
        let w = nat n div 64; b = nat n mod 64
        in if w \<ge> bn_width a then (True, a)
           else if b = 0 then (True, bn_set_minimal_width (a\<lparr>bn_width := w\<rparr>))
           else (True, bn_set_minimal_width
                  (a\<lparr>bn_width := w + 1, bn_d := (bn_d a)[w := bn_d a ! w AND NOT (push_bit b BN_MASK2)]\<rparr>)))"

section \<open>\<open>bytes.c\<close>\<close>

text \<open>The bytes of an array in memory, on the little-endian platforms the code supports.\<close>

definition word_bytes :: "ulong \<Rightarrow> bytes" where
  "word_bytes w = map (\<lambda>i. ucast (drop_bit (8 * i) w)) [0..<8]"

definition bytes_of :: "ulong list \<Rightarrow> bytes" where
  "bytes_of ws = concat (map word_bytes ws)"

fun words_of :: "nat \<Rightarrow> bytes \<Rightarrow> ulong list" where
  "words_of 0 bs = []"
| "words_of (Suc n) bs = foldr (\<lambda>b w. ucast b OR push_bit 8 w) (take 8 bs) 0 # words_of n (drop 8 bs)"

text \<open>The loop of \<open>BN_bin2bn\<close>, over the bytes that are left; \<open>ret\<close> is not \<open>NULL\<close>.\<close>

fun bin2bn_loop :: "bytes \<Rightarrow> ulong \<Rightarrow> nat \<Rightarrow> nat \<Rightarrow> ulong list \<Rightarrow> ulong list" where
  "bin2bn_loop (b # inp) word m num_words d =
     (let word = push_bit 8 word OR ucast b
      in if m = 0 then bin2bn_loop inp 0 7 (num_words - 1) (d[num_words - 1 := word])
         else bin2bn_loop inp word (m - 1) num_words d)"
| "bin2bn_loop [] word m num_words d = d"

definition BN_bin2bn :: "word_mem \<Rightarrow> bytes \<Rightarrow> bignum \<Rightarrow> bool \<times> bignum" where
  "BN_bin2bn mem inp ret =
     (if inp = [] then (True, ret\<lparr>bn_width := 0\<rparr>)
      else
        let num_words = (length inp - 1) div 8 + 1; m = (length inp - 1) mod 8
        in case bn_wexpand mem ret num_words of
             (False, ret) \<Rightarrow> (False, ret)
           | (True, ret) \<Rightarrow>
               (True, ret\<lparr>bn_width := num_words, bn_neg := False, bn_d := bin2bn_loop inp 0 m num_words (bn_d ret)\<rparr>))"

text \<open>In the value read back from \<open>ret->d\<close> the bytes behind \<open>in\<close> in its last word are zero; \<open>neg\<close> is left as it was.\<close>

definition BN_le2bn :: "word_mem \<Rightarrow> bytes \<Rightarrow> bignum \<Rightarrow> bool \<times> bignum" where
  "BN_le2bn mem inp ret =
     (if inp = [] then (True, ret\<lparr>bn_width := 0, bn_neg := False\<rparr>)
      else
        let num_words = (length inp - 1) div 8 + 1
        in case bn_wexpand mem ret num_words of
             (False, ret) \<Rightarrow> (False, ret)
           | (True, ret) \<Rightarrow>
               (True, ret\<lparr>bn_width := num_words,
                 bn_d := words_of num_words (inp @ replicate (8 * num_words - length inp) 0) @ drop num_words (bn_d ret)\<rparr>))"

definition BN_bn2bin :: "bignum \<Rightarrow> bytes" where
  "BN_bn2bin bn =
     map (\<lambda>i. ucast (drop_bit (8 * (i mod 8)) (bn_d bn ! (i div 8)))) (rev [0..<BN_num_bytes bn])"

definition fits_in_bytes :: "bytes \<Rightarrow> nat \<Rightarrow> bool" where
  "fits_in_bytes bs len = (foldl (OR) 0 (drop len bs) = 0)"

definition BN_bn2le_padded :: "nat \<Rightarrow> bignum \<Rightarrow> bytes option" where
  "BN_bn2le_padded len bn =
     (let bs = bytes_of (take (bn_width bn) (bn_d bn))
      in if len < length bs \<and> \<not> fits_in_bytes bs len then None
         else let num_bytes = min (length bs) len in Some (take num_bytes bs @ replicate (len - num_bytes) 0))"

definition BN_bn2bin_padded :: "nat \<Rightarrow> bignum \<Rightarrow> bytes option" where
  "BN_bn2bin_padded len bn =
     (let bs = bytes_of (take (bn_width bn) (bn_d bn))
      in if len < length bs \<and> \<not> fits_in_bytes bs len then None
         else let num_bytes = min (length bs) len in Some (replicate (len - num_bytes) 0 @ rev (take num_bytes bs)))"

definition BN_get_word :: "bignum \<Rightarrow> ulong" where
  "BN_get_word bn = (case bn_minimal_width bn of 0 \<Rightarrow> 0 | Suc 0 \<Rightarrow> bn_d bn ! 0 | _ \<Rightarrow> BN_MASK2)"

definition BN_get_u64 :: "bignum \<Rightarrow> u64 option" where
  "BN_get_u64 bn = (case bn_minimal_width bn of 0 \<Rightarrow> Some 0 | Suc 0 \<Rightarrow> Some (bn_d bn ! 0) | _ \<Rightarrow> None)"

end
