(* ===== verification/BN_Correct.thy ===== *)
theory BN_Correct
  imports BN
begin

text \<open>
  What the operations on \<open>BIGNUM\<close>s compute, as integers, for operands of any width.
\<close>

definition bn_ok :: "bignum \<Rightarrow> bool" where
  "bn_ok bn \<longleftrightarrow> bn_width bn \<le> length (bn_d bn)"

definition words :: "bignum \<Rightarrow> ulong list" where
  "words bn = take (bn_width bn) (bn_d bn)"

definition bn_abs :: "bignum \<Rightarrow> nat" where
  "bn_abs bn = val (words bn)"

definition bn_int :: "bignum \<Rightarrow> int" where
  "bn_int bn = (if bn_neg bn then - int (bn_abs bn) else int (bn_abs bn))"

lemma length_words [simp]: "bn_ok bn \<Longrightarrow> length (words bn) = bn_width bn"
  by (simp add: words_def bn_ok_def)

lemma nth_words: "i < bn_width bn \<Longrightarrow> words bn ! i = bn_d bn ! i"
  by (simp add: words_def)

lemma bn_abs_lt: "bn_ok bn \<Longrightarrow> bn_abs bn < BB ^ bn_width bn"
  using val_lt [of "words bn"] by (simp add: bn_abs_def)

section \<open>Storage\<close>

text \<open>The allocator works, and the array may be replaced.\<close>

definition can_grow :: "word_mem \<Rightarrow> bignum \<Rightarrow> nat \<Rightarrow> bool" where
  "can_grow m bn n \<longleftrightarrow> n \<le> length (bn_d bn) \<or> n \<le> MAX_WORDS \<and> \<not> bn_static bn \<and> m (8 * n) \<noteq> None"

lemma bn_wexpand_spec:
  assumes "word_mem_ok m" "bn_ok bn" "bn_wexpand m bn n = (ok, bn')"
  shows "ok \<longleftrightarrow> can_grow m bn n" "bn_ok bn'" "words bn' = words bn" "bn_width bn' = bn_width bn" "bn_neg bn' = bn_neg bn"
    "bn_static bn' = bn_static bn" "ok \<Longrightarrow> n \<le> length (bn_d bn')" "length (bn_d bn) \<le> length (bn_d bn')"
proof -
  have "(ok \<longleftrightarrow> can_grow m bn n) \<and> bn_ok bn' \<and> words bn' = words bn \<and> bn_width bn' = bn_width bn \<and> bn_neg bn' = bn_neg bn \<and>
    bn_static bn' = bn_static bn \<and> (ok \<longrightarrow> n \<le> length (bn_d bn')) \<and> length (bn_d bn) \<le> length (bn_d bn')"
  proof (cases "n \<le> length (bn_d bn) \<or> n > MAX_WORDS \<or> bn_static bn \<or> m (8 * n) = None")
    case True
    with assms show ?thesis by (auto simp: bn_wexpand_def can_grow_def split: if_splits option.splits)
  next
    case False
    then obtain a where a: "m (8 * n) = Some a" by auto
    with assms(1) have "length a = n" by (simp add: word_mem_ok_def)
    with a False assms(2,3) show ?thesis
      by (auto simp: bn_wexpand_def can_grow_def bn_ok_def words_def)
  qed
  then show "ok \<longleftrightarrow> can_grow m bn n" "bn_ok bn'" "words bn' = words bn" "bn_width bn' = bn_width bn" "bn_neg bn' = bn_neg bn"
    "bn_static bn' = bn_static bn" "ok \<Longrightarrow> n \<le> length (bn_d bn')" "length (bn_d bn) \<le> length (bn_d bn')" by simp_all
qed

lemma fits_in_words_iff: "bn_fits_in_words bn n \<longleftrightarrow> val (drop n (words bn)) = 0"
  by (simp add: bn_fits_in_words_def words_def or_words_eq_0)

lemma is_zero_iff [simp]: "BN_is_zero bn \<longleftrightarrow> bn_abs bn = 0"
  by (simp add: BN_is_zero_def fits_in_words_iff bn_abs_def)

lemma minimal_width_loop_spec:
  assumes "n \<le> length d"
  shows "minimal_width_loop d n \<le> n \<and> val (take (minimal_width_loop d n) d) = val (take n d) \<and>
    (minimal_width_loop d n = 0 \<or> d ! (minimal_width_loop d n - 1) \<noteq> 0)"
  using assms
proof (induction d n rule: minimal_width_loop.induct)
  case (1 d n)
  have "val (take (Suc n) d) = val (take n d) + BB ^ n * unat (d ! n)"
    using 1(2) by (simp add: take_Suc_conv_app_nth val_append)
  with 1 show ?case by auto
qed simp

lemma val_top_digit: "xs \<noteq> [] \<Longrightarrow> last xs \<noteq> 0 \<Longrightarrow> BB ^ (length xs - 1) \<le> val xs"
proof (induction xs rule: rev_induct)
  case (snoc x xs)
  then have "1 \<le> unat x" by (simp add: Suc_le_eq unat_gt_0)
  then have "BB ^ length xs * 1 \<le> BB ^ length xs * unat x" by (intro mult_left_mono) simp_all
  moreover have "val (xs @ [x]) = val xs + BB ^ length xs * unat x" "length (xs @ [x]) - 1 = length xs" by (simp_all add: val_append)
  ultimately show ?case by (metis mult.right_neutral trans_le_add2)
qed simp

lemma bn_minimal_width_spec:
  assumes "bn_ok bn"
  shows "bn_minimal_width bn \<le> bn_width bn" "val (take (bn_minimal_width bn) (bn_d bn)) = bn_abs bn"
    "bn_minimal_width bn \<noteq> 0 \<Longrightarrow> bn_d bn ! (bn_minimal_width bn - 1) \<noteq> 0"
    "bn_minimal_width bn = 0 \<longleftrightarrow> bn_abs bn = 0"
proof -
  let ?w = "bn_minimal_width bn"
  have s: "?w \<le> bn_width bn \<and> val (take ?w (bn_d bn)) = bn_abs bn \<and> (?w = 0 \<or> bn_d bn ! (?w - 1) \<noteq> 0)"
    using minimal_width_loop_spec [of "bn_width bn" "bn_d bn"] assms
    by (simp add: bn_minimal_width_def bn_ok_def bn_abs_def words_def)
  then show "?w \<le> bn_width bn" "val (take ?w (bn_d bn)) = bn_abs bn" "?w \<noteq> 0 \<Longrightarrow> bn_d bn ! (?w - 1) \<noteq> 0" by auto
  show "?w = 0 \<longleftrightarrow> bn_abs bn = 0"
  proof
    assume "?w = 0" with s show "bn_abs bn = 0" by (metis take_0 val.simps(1))
  next
    assume z: "bn_abs bn = 0"
    show "?w = 0"
    proof (rule ccontr)
      assume "?w \<noteq> 0"
      with s assms have w: "length (take ?w (bn_d bn)) = ?w" "bn_d bn ! (?w - 1) \<noteq> 0" by (auto simp: bn_ok_def)
      with \<open>?w \<noteq> 0\<close> have "take ?w (bn_d bn) \<noteq> []" by (metis list.size(3))
      moreover from this w have "last (take ?w (bn_d bn)) \<noteq> 0" by (simp add: last_conv_nth)
      ultimately show False using val_top_digit s z by (metis BB_pos le_zero_eq less_numeral_extra(3) zero_less_power)
    qed
  qed
qed

lemma bn_set_minimal_width_spec:
  assumes "bn_ok bn"
  shows "bn_ok (bn_set_minimal_width bn)" "bn_abs (bn_set_minimal_width bn) = bn_abs bn"
    "bn_int (bn_set_minimal_width bn) = bn_int bn" "bn_neg (bn_set_minimal_width bn) = (bn_neg bn \<and> bn_abs bn \<noteq> 0)"
    "bn_d (bn_set_minimal_width bn) = bn_d bn" "bn_width (bn_set_minimal_width bn) = bn_minimal_width bn"
proof -
  note m = bn_minimal_width_spec [OF assms]
  have a: "bn_abs (bn_set_minimal_width bn) = bn_abs bn"
    using m(2,4) by (cases "bn_minimal_width bn = 0") (simp_all add: bn_set_minimal_width_def Let_def bn_abs_def words_def)
  then show "bn_abs (bn_set_minimal_width bn) = bn_abs bn" .
  have n: "bn_neg (bn_set_minimal_width bn) = (bn_neg bn \<and> bn_abs bn \<noteq> 0)" using m(4) by (simp add: bn_set_minimal_width_def Let_def)
  show "bn_int (bn_set_minimal_width bn) = bn_int bn" unfolding bn_int_def a n by simp
  show "bn_ok (bn_set_minimal_width bn)" using m(1) assms by (simp add: bn_set_minimal_width_def Let_def bn_ok_def)
  show "bn_d (bn_set_minimal_width bn) = bn_d bn" "bn_width (bn_set_minimal_width bn) = bn_minimal_width bn"
    by (simp_all add: bn_set_minimal_width_def Let_def)
  show "bn_neg (bn_set_minimal_width bn) = (bn_neg bn \<and> bn_abs bn \<noteq> 0)" by (rule n)
qed

section \<open>Comparison\<close>

lemma BN_ucmp_spec: "BN_ucmp a b = (if bn_abs a < bn_abs b then -1 else if bn_abs b < bn_abs a then 1 else 0)"
  by (simp add: BN_ucmp_def cmp_words_val bn_abs_def words_def)

text \<open>A negative zero is less than zero; without it, \<open>BN_cmp\<close> compares the integers.\<close>

lemma BN_cmp_spec:
  assumes "bn_neg a \<Longrightarrow> bn_abs a \<noteq> 0" "bn_neg b \<Longrightarrow> bn_abs b \<noteq> 0"
  shows "BN_cmp (Some a) (Some b) = sgn (bn_int a - bn_int b)"
  using assms by (auto simp: BN_cmp_def BN_ucmp_spec bn_int_def Let_def sgn_if)

section \<open>Addition and subtraction of magnitudes\<close>

lemma ulong_bool: "unat (w :: ulong) \<le> 1 \<Longrightarrow> w = 0 \<or> w = 1"
  by (metis One_nat_def le_Suc_eq le_zero_eq unat_1 unat_eq_zero word_unat_eq_iff)

lemma carry_loop_val:
  assumes "carry_loop c xs = (c', r)" "unat c \<le> 1"
  shows "length r = length xs \<and> unat c' \<le> 1 \<and> val r + BB ^ length xs * unat c' = val xs + unat c"
  using assms
proof (induction xs arbitrary: c c' r)
  case (Cons x xs)
  define c1 :: ulong where "c1 = (if c + x < x then 1 else 0)"
  have c1: "unat c1 \<le> 1" by (simp add: c1_def)
  obtain r' where r: "carry_loop c1 xs = (c', r')" "r = (c + x) # r'"
    using Cons.prems(1) by (auto simp: Let_def c1_def split: prod.splits)
  have "unat (c + x) + BB * unat c1 = unat c + unat x"
  proof (cases "unat c + unat x < BB")
    case True
    then have "unat (c + x) = unat c + unat x" using unat_add_lem [of c x] by (simp add: BB_def)
    then show ?thesis by (simp add: c1_def word_less_nat_alt)
  next
    case False
    then have x: "unat c + unat x = BB" "0 < unat x" using Cons.prems(2) ulong_lt [of x] BB_gt_1 by linarith+
    then have "unat (c + x) = 0" by (simp add: unat_word_ariths BB_def)
    with x show ?thesis by (simp add: c1_def word_less_nat_alt)
  qed
  moreover from Cons.IH [OF r(1) c1] have "length r' = length xs" "unat c' \<le> 1"
    "BB * (val r' + BB ^ length xs * unat c') = BB * (val xs + unat c1)" by simp_all
  ultimately show ?case by (simp add: r(2) algebra_simps)
qed auto

lemma borrow_loop_val:
  assumes "borrow_loop c xs = (c', r)" "unat c \<le> 1"
  shows "length r = length xs \<and> unat c' \<le> 1 \<and> val r + unat c = val xs + BB ^ length xs * unat c'"
  using assms
proof (induction xs arbitrary: c c' r)
  case (Cons x xs)
  define c1 :: ulong where "c1 = (if x < x - c then 1 else 0)"
  have c1: "unat c1 \<le> 1" by (simp add: c1_def)
  obtain r' where r: "borrow_loop c1 xs = (c', r')" "r = (x - c) # r'"
    using Cons.prems(1) by (auto simp: Let_def c1_def split: prod.splits)
  have "unat (x - c) + unat c = unat x + BB * unat c1"
  proof (cases "unat c \<le> unat x")
    case True
    then have "unat (x - c) = unat x - unat c" by (simp add: unat_sub word_le_nat_alt)
    with True show ?thesis by (simp add: c1_def word_less_nat_alt)
  next
    case False
    then have x: "x = 0" "c = 1" using ulong_bool [OF Cons.prems(2)] by (auto simp: not_le unat_eq_zero)
    have "unat (0 - 1 :: ulong) + 1 = BB" "0 < unat (0 - 1 :: ulong)" by (simp_all add: unsigned_minus_1_eq_mask mask_eq_exp_minus_1 BB_def)
    then show ?thesis unfolding c1_def x word_less_nat_alt by simp
  qed
  moreover from Cons.IH [OF r(1) c1] have "length r' = length xs" "unat c' \<le> 1"
    "BB * (val r' + unat c1) = BB * (val xs + BB ^ length xs * unat c')" by simp_all
  ultimately show ?case by (simp add: r(2) algebra_simps)
qed auto

text \<open>What a successful operation leaves.\<close>

definition holds :: "bignum \<Rightarrow> nat \<Rightarrow> bool" where
  "holds r v \<longleftrightarrow> bn_ok r \<and> bn_abs r = v"

lemma bn_uadd_spec:
  assumes m: "word_mem_ok m" and ok: "bn_ok r" "bn_ok a" "bn_ok b" and run: "bn_uadd_consttime m r a b = (s, r')"
  shows "s \<longleftrightarrow> can_grow m r (max (bn_width a) (bn_width b) + 1)" "bn_ok r'"
    "s \<Longrightarrow> bn_abs r' = bn_abs a + bn_abs b" "s \<Longrightarrow> bn_width r' = max (bn_width a) (bn_width b) + 1"
proof -
  define x where "x = (if bn_width a < bn_width b then b else a)"
  define y where "y = (if bn_width a < bn_width b then a else b)"
  let ?n = "bn_width x" and ?k = "bn_width y"
  have xy: "bn_ok x" "bn_ok y" "?k \<le> ?n" "?n = max (bn_width a) (bn_width b)" "bn_abs x + bn_abs y = bn_abs a + bn_abs b"
    using ok by (auto simp: x_def y_def)
  obtain e r1 where w: "bn_wexpand m r (?n + 1) = (e, r1)" by fastforce
  note w = this bn_wexpand_spec [OF m ok(1) this]
  obtain c s1 where a: "bn_add_words (bn_d x) (bn_d y) ?k = (c, s1)" by fastforce
  obtain c' s2 where c: "carry_loop c (drop ?k (take ?n (bn_d x))) = (c', s2)" by fastforce
  have len: "?k \<le> length (bn_d x)" "?k \<le> length (bn_d y)" "?n \<le> length (bn_d x)" using xy(1-3) unfolding bn_ok_def by linarith+
  note av = bn_add_words_val [OF len(1,2) a]
  note cv = carry_loop_val [OF c av(2)]
  have run': "(s, r') = (if e then (True, r1\<lparr>bn_width := ?n + 1, bn_d := s1 @ s2 @ [c'] @ drop (?n + 1) (bn_d r1)\<rparr>) else (False, r1))"
    using run w(1) a c unfolding bn_uadd_consttime_def Let_def x_def y_def by (auto split: if_splits)
  have xv: "bn_abs x = val (take ?k (bn_d x)) + BB ^ ?k * val (drop ?k (take ?n (bn_d x)))"
    using val_take_drop [of "words x" ?k] xy len by (simp add: bn_abs_def words_def min_def)
  have yv: "bn_abs y = val (take ?k (bn_d y))" by (simp add: bn_abs_def words_def)
  have "val (s1 @ s2 @ [c']) = val s1 + BB ^ ?k * (val s2 + BB ^ (?n - ?k) * unat c')"
    using av(1) cv len by (simp add: val_append)
  also have "\<dots> = val s1 + BB ^ ?k * (val (drop ?k (take ?n (bn_d x))) + unat c)" using cv len by simp
  also have "\<dots> = bn_abs x + bn_abs y" using av(3) xv yv by (simp add: algebra_simps)
  finally have v: "val (s1 @ s2 @ [c']) = bn_abs a + bn_abs b" using xy(5) by simp
  have l: "length (s1 @ s2 @ [c']) = ?n + 1" using av(1) cv len xy(3) by simp
  show "s \<longleftrightarrow> can_grow m r (max (bn_width a) (bn_width b) + 1)" using run' w xy(4) by (auto split: if_splits)
  show "bn_ok r'" using run' w l by (auto simp: bn_ok_def split: if_splits)
  show "s \<Longrightarrow> bn_abs r' = bn_abs a + bn_abs b" "s \<Longrightarrow> bn_width r' = max (bn_width a) (bn_width b) + 1"
    using run' v l xy(4) by (auto simp: bn_abs_def words_def split: if_splits)
qed


lemma bn_usub_spec:
  assumes m: "word_mem_ok m" and ok: "bn_ok r" "bn_ok a" "bn_ok b" and run: "bn_usub_consttime m r a b = (s, r')"
  shows "s \<longleftrightarrow> can_grow m r (bn_width a) \<and> bn_abs b \<le> bn_abs a" "bn_ok r'"
    "s \<Longrightarrow> bn_abs r' = bn_abs a - bn_abs b" "s \<Longrightarrow> bn_width r' = bn_width a"
proof -
  let ?n = "bn_width a" and ?k = "min (bn_width b) (bn_width a)"
  have bv: "bn_abs b = val (take ?k (bn_d b)) + BB ^ ?k * val (drop ?n (words b))"
  proof (cases "bn_width b \<le> ?n")
    case True
    with ok(3) have "drop ?n (words b) = []" by simp
    with True show ?thesis by (simp add: bn_abs_def words_def min_def)
  next
    case False
    then show ?thesis using val_take_drop [of "words b" ?n] ok(3) by (simp add: bn_abs_def words_def bn_ok_def min_def)
  qed
  have alt: "bn_abs a < BB ^ ?n" using bn_abs_lt [OF ok(2)] .
  have "(s \<longleftrightarrow> can_grow m r ?n \<and> bn_abs b \<le> bn_abs a) \<and> bn_ok r' \<and>
    (s \<longrightarrow> bn_abs r' = bn_abs a - bn_abs b \<and> bn_width r' = ?n)"
  proof (cases "bn_width b > ?n \<and> \<not> bn_fits_in_words b ?n")
    case True
    then have "1 \<le> val (drop ?n (words b))" "?k = ?n" by (auto simp: fits_in_words_iff)
    then have "BB ^ ?n * 1 \<le> BB ^ ?n * val (drop ?n (words b))" by (intro mult_left_mono) simp_all
    then have "BB ^ ?n \<le> bn_abs b" unfolding bv \<open>?k = ?n\<close> by linarith
    with alt have "bn_abs a < bn_abs b" by (rule less_le_trans)
    with True run ok(1) show ?thesis by (simp add: bn_usub_consttime_def)
  next
    case nf: False
    note False = nf
    have "val (drop ?n (words b)) = 0"
    proof (cases "bn_width b > ?n")
      case True
      with False show ?thesis by (simp add: fits_in_words_iff)
    next
      case False
      with ok(3) have "drop ?n (words b) = []" by simp
      then show ?thesis by simp
    qed
    then have bv: "bn_abs b = val (take ?k (bn_d b))" using bv by simp
    obtain e r1 where w: "bn_wexpand m r ?n = (e, r1)" by fastforce
    note w = this bn_wexpand_spec [OF m ok(1) this]
    obtain c s1 where a: "bn_sub_words (bn_d a) (bn_d b) ?k = (c, s1)" by fastforce
    obtain c' s2 where c: "borrow_loop c (drop ?k (take ?n (bn_d a))) = (c', s2)" by fastforce
    have len: "?k \<le> length (bn_d a)" "?k \<le> length (bn_d b)" "?n \<le> length (bn_d a)" using ok unfolding bn_ok_def by linarith+
    note sv = bn_sub_words_val [OF len(1,2) a]
    note cv = borrow_loop_val [OF c sv(2)]
    have "(s, r') = (if e then (if c' \<noteq> 0 then (False, r1\<lparr>bn_d := s1 @ s2 @ drop ?n (bn_d r1)\<rparr>)
        else (True, r1\<lparr>bn_d := s1 @ s2 @ drop ?n (bn_d r1), bn_width := ?n, bn_neg := False\<rparr>)) else (False, r1))"
      unfolding run [symmetric] bn_usub_consttime_def if_not_P [OF nf] Let_def w(1) prod.case a c by (cases e) simp_all
    note run' = this
    have av: "bn_abs a = val (take ?k (bn_d a)) + BB ^ ?k * val (drop ?k (take ?n (bn_d a)))"
    proof -
      have "take ?k (words a) = take ?k (bn_d a)" by (simp add: words_def)
      moreover have "min ?k (length (words a)) = ?k" using ok(2) by simp
      ultimately show ?thesis using val_take_drop [of "words a" ?k] unfolding bn_abs_def words_def by simp
    qed
    have l2: "length (drop ?k (take ?n (bn_d a))) = ?n - ?k" using len by simp
    have P: "BB ^ ?k * BB ^ (?n - ?k) = BB ^ ?n" by (simp add: power_add [symmetric])
    have "val (s1 @ s2) + bn_abs b = val s1 + val (take ?k (bn_d b)) + BB ^ ?k * val s2" using sv(1) bv by (simp add: val_append)
    also have "\<dots> = val (take ?k (bn_d a)) + BB ^ ?k * (val s2 + unat c)" using sv(3) by (simp add: algebra_simps)
    also have "\<dots> = val (take ?k (bn_d a)) + BB ^ ?k * (val (drop ?k (take ?n (bn_d a))) + BB ^ (?n - ?k) * unat c')"
      using cv l2 by simp
    also have "\<dots> = bn_abs a + BB ^ ?n * unat c'" unfolding av P [symmetric] by (simp add: algebra_simps)
    finally have v: "val (s1 @ s2) + bn_abs b = bn_abs a + BB ^ ?n * unat c'" .
    have l: "length (s1 @ s2) = ?n" using sv(1) cv l2 by simp
    have "val (s1 @ s2) < BB ^ ?n" using val_lt [of "s1 @ s2"] unfolding l .
    then have c0: "c' = 0 \<longleftrightarrow> bn_abs b \<le> bn_abs a"
      using v ulong_bool [of c'] cv by (cases "c' = 0") auto
    have rok: "bn_ok (r1\<lparr>bn_d := s1 @ s2 @ drop ?n (bn_d r1)\<rparr>)" if e
      using w(3,5,8) ok(1) that l w by (auto simp: bn_ok_def)
    have abs: "bn_abs (r1\<lparr>bn_d := s1 @ s2 @ drop ?n (bn_d r1), bn_width := ?n, bn_neg := False\<rparr>) = val (s1 @ s2)"
      using l by (simp add: bn_abs_def words_def)
    show ?thesis
    proof (cases e)
      case e: True
      then have g: "can_grow m r ?n" using w(2) by simp
      show ?thesis
      proof (cases "c' = 0")
        case True
        then have sr: "s" "r' = r1\<lparr>bn_d := s1 @ s2 @ drop ?n (bn_d r1), bn_width := ?n, bn_neg := False\<rparr>"
          using run' e by simp_all
        have "bn_ok r'" using l unfolding sr(2) bn_ok_def by simp
        moreover have "bn_abs r' = bn_abs a - bn_abs b" using v True unfolding sr(2) abs by simp
        moreover have "bn_width r' = ?n" unfolding sr(2) by simp
        ultimately show ?thesis using g sr(1) c0 True by blast
      next
        case False
        then have sr: "\<not> s" "r' = r1\<lparr>bn_d := s1 @ s2 @ drop ?n (bn_d r1)\<rparr>" using run' e by simp_all
        with False c0 rok [OF e] show ?thesis by blast
      qed
    next
      case False
      with w(2,3) run' show ?thesis by auto
    qed
  qed
  then show "s \<longleftrightarrow> can_grow m r (bn_width a) \<and> bn_abs b \<le> bn_abs a" "bn_ok r'"
    "s \<Longrightarrow> bn_abs r' = bn_abs a - bn_abs b" "s \<Longrightarrow> bn_width r' = bn_width a" by simp_all
qed

lemma BN_uadd_spec:
  assumes "word_mem_ok m" "bn_ok r" "bn_ok a" "bn_ok b" "BN_uadd m r a b = (s, r')"
  shows "s \<longleftrightarrow> can_grow m r (max (bn_width a) (bn_width b) + 1)" "bn_ok r'" "s \<Longrightarrow> bn_abs r' = bn_abs a + bn_abs b"
proof -
  obtain s1 r1 where u: "bn_uadd_consttime m r a b = (s1, r1)" by fastforce
  note u' = bn_uadd_spec [OF assms(1-4) u]
  note n = bn_set_minimal_width_spec [OF u'(2)]
  show "s \<longleftrightarrow> can_grow m r (max (bn_width a) (bn_width b) + 1)" "bn_ok r'" "s \<Longrightarrow> bn_abs r' = bn_abs a + bn_abs b"
    using assms(5) u u' n by (auto simp: BN_uadd_def split: bool.splits)
qed

lemma BN_usub_spec:
  assumes "word_mem_ok m" "bn_ok r" "bn_ok a" "bn_ok b" "BN_usub m r a b = (s, r')"
  shows "s \<longleftrightarrow> can_grow m r (bn_width a) \<and> bn_abs b \<le> bn_abs a" "bn_ok r'" "s \<Longrightarrow> bn_abs r' = bn_abs a - bn_abs b"
proof -
  obtain s1 r1 where u: "bn_usub_consttime m r a b = (s1, r1)" by fastforce
  note u' = bn_usub_spec [OF assms(1-4) u]
  note n = bn_set_minimal_width_spec [OF u'(2)]
  show "s \<longleftrightarrow> can_grow m r (bn_width a) \<and> bn_abs b \<le> bn_abs a" "bn_ok r'" "s \<Longrightarrow> bn_abs r' = bn_abs a - bn_abs b"
    using assms(5) u u' n by (auto simp: BN_usub_def split: bool.splits)
qed

section \<open>Signed arithmetic\<close>

text \<open>An operation that computes \<open>v\<close>: it fails only for want of memory.\<close>

definition computes :: "bool \<times> bignum \<Rightarrow> bool \<Rightarrow> int \<Rightarrow> bool" where
  "computes res mem v \<longleftrightarrow> (mem \<longrightarrow> fst res) \<and> bn_ok (snd res) \<and> (fst res \<longrightarrow> bn_int (snd res) = v)"

definition bn_room :: "word_mem \<Rightarrow> bignum \<Rightarrow> nat \<Rightarrow> bool" where
  "bn_room m r n \<longleftrightarrow> (\<forall>k\<le>n. can_grow m r k)"

lemma bn_ok_neg [simp]: "bn_ok (r\<lparr>bn_neg := b\<rparr>) = bn_ok r" "bn_abs (r\<lparr>bn_neg := b\<rparr>) = bn_abs r"
  by (simp_all add: bn_ok_def bn_abs_def words_def)

lemma subtract_computes:
  assumes "word_mem_ok m" "bn_ok r" "bn_ok a" "bn_ok b"
  shows "computes (if BN_ucmp a b < 0
      then case BN_usub m r b a of (False, r) \<Rightarrow> (False, r) | (True, r) \<Rightarrow> (True, r\<lparr>bn_neg := True\<rparr>)
      else case BN_usub m r a b of (False, r) \<Rightarrow> (False, r) | (True, r) \<Rightarrow> (True, r\<lparr>bn_neg := False\<rparr>))
    (bn_room m r (max (bn_width a) (bn_width b) + 1)) (int (bn_abs a) - int (bn_abs b))"
proof (cases "bn_abs a < bn_abs b")
  case True
  obtain s r' where u: "BN_usub m r b a = (s, r')" by fastforce
  note u' = BN_usub_spec [OF assms(1,2,4,3) u]
  from True u u' show ?thesis by (auto simp: computes_def BN_ucmp_spec bn_room_def bn_int_def split: bool.splits)
next
  case False
  obtain s r' where u: "BN_usub m r a b = (s, r')" by fastforce
  note u' = BN_usub_spec [OF assms u]
  from False u u' show ?thesis by (auto simp: computes_def BN_ucmp_spec bn_room_def bn_int_def split: bool.splits)
qed

lemma BN_add_computes:
  assumes "word_mem_ok m" "bn_ok r" "bn_ok a" "bn_ok b"
  shows "computes (BN_add m r a b) (bn_room m r (max (bn_width a) (bn_width b) + 1)) (bn_int a + bn_int b)"
proof (cases "bn_neg a = bn_neg b")
  case True
  obtain s r' where u: "BN_uadd m r a b = (s, r')" by fastforce
  note u' = BN_uadd_spec [OF assms u]
  from True u u' show ?thesis by (auto simp: BN_add_def computes_def bn_room_def bn_int_def)
next
  case False
  show ?thesis
  proof (cases "bn_neg a")
    case True
    with False subtract_computes [OF assms(1,2,4,3)] show ?thesis
      by (simp add: BN_add_def bn_int_def max.commute Let_def)
  next
    case neg: False
    with False subtract_computes [OF assms] show ?thesis by (simp add: BN_add_def bn_int_def Let_def)
  qed
qed

lemma BN_sub_computes:
  assumes "word_mem_ok m" "bn_ok r" "bn_ok a" "bn_ok b"
  shows "computes (BN_sub m r a b) (bn_room m r (max (bn_width a) (bn_width b) + 1)) (bn_int a - bn_int b)"
proof (cases "bn_neg a = bn_neg b")
  case False
  obtain s r' where u: "BN_uadd m r a b = (s, r')" by fastforce
  note u' = BN_uadd_spec [OF assms u]
  from False u u' show ?thesis by (auto simp: BN_sub_def Let_def computes_def bn_room_def bn_int_def split: bool.splits)
next
  case True
  show ?thesis
  proof (cases "bn_neg a")
    case True
    with \<open>bn_neg a = bn_neg b\<close> subtract_computes [OF assms(1,2,4,3)] show ?thesis
      by (simp add: BN_sub_def bn_int_def max.commute Let_def)
  next
    case False
    with \<open>bn_neg a = bn_neg b\<close> subtract_computes [OF assms] show ?thesis by (simp add: BN_sub_def bn_int_def Let_def)
  qed
qed

end
