(* ===== verification/BN_Ops.thy ===== *)
theory BN_Ops
  imports BN_Correct
begin

text \<open>
  Shifts of big numbers and addition of single words, against the integers.
\<close>

section \<open>Shifts\<close>

lemma lshift_words_loop_spec:
  assumes "nw + k \<le> length t" "k \<le> length f"
  shows "lshift_words_loop f nw k t = take nw t @ take k f @ drop (nw + k) t"
  using assms
proof (induction k arbitrary: t)
  case (Suc k)
  have "drop (nw + k) (t[nw + k := f ! k]) = f ! k # drop (nw + Suc k) t"
    using Suc.prems by (simp add: Cons_nth_drop_Suc [symmetric])
  with Suc show ?case by (simp add: take_Suc_conv_app_nth)
qed simp

lemma unat_push: "0 < s \<Longrightarrow> s < 64 \<Longrightarrow> unat (push_bit s y :: ulong) = (unat y mod 2 ^ (64 - s)) * 2 ^ s"
  using unat_funnel [of "64 - s" 0 y] by simp

lemma BB_split: "s \<le> 64 \<Longrightarrow> BB = 2 ^ s * 2 ^ (64 - s)"
  unfolding BB_def power_add [symmetric] by simp

lemma push_with_carry:
  assumes "0 < s" "s < 64"
  shows "unat (push_bit s l :: ulong) + BB * (unat l div 2 ^ (64 - s)) = unat l * 2 ^ s"
proof -
  have "unat l * 2 ^ s = (unat l mod 2 ^ (64 - s) + 2 ^ (64 - s) * (unat l div 2 ^ (64 - s))) * 2 ^ s" by simp
  then show ?thesis unfolding unat_push [OF assms] BB_split [OF less_imp_le [OF assms(2)]] by (simp only: algebra_simps)
qed

lemma lshift_bits_loop_spec:
  assumes "nw + k < length t" "k \<le> length f" "0 < lb" "lb < 64" "t ! (nw + k) = push_bit lb y"
  shows "length (lshift_bits_loop f nw lb k t) = length t \<and>
    drop (nw + k + 1) (lshift_bits_loop f nw lb k t) = drop (nw + k + 1) t \<and>
    val (take (k + 1) (drop nw (lshift_bits_loop f nw lb k t))) = val (take k f) * 2 ^ lb + BB ^ k * unat (t ! (nw + k))"
  using assms
proof (induction k arbitrary: t y)
  case 0
  then have "take 1 (drop nw t) = [t ! nw]" by (simp add: take_Suc_conv_app_nth)
  then show ?case by simp
next
  case (Suc k)
  define l where "l = f ! k"
  define hi where "hi = t ! (nw + k + 1) OR drop_bit (64 - lb) l"
  define t2 where "t2 = t[nw + k + 1 := hi, nw + k := push_bit lb l]"
  define t' where "t' = lshift_bits_loop f nw lb k t2"
  have t': "lshift_bits_loop f nw lb (Suc k) t = t'" by (simp add: t'_def t2_def hi_def l_def Let_def)
  have L: "nw + k + 1 < length t" using Suc.prems(1) by simp
  have t2: "length t2 = length t" "t2 ! (nw + k) = push_bit lb l" "t2 ! (nw + k + 1) = hi"
    "drop (nw + k + 2) t2 = drop (nw + k + 2) t" using L by (simp_all add: t2_def)
  have ih: "length t' = length t2 \<and> drop (nw + k + 1) t' = drop (nw + k + 1) t2 \<and>
    val (take (k + 1) (drop nw t')) = val (take k f) * 2 ^ lb + BB ^ k * unat (t2 ! (nw + k))"
    unfolding t'_def using Suc.prems(2-4) L t2(1,2) by (intro Suc.IH [of t2 l]) simp_all
  have hiv: "unat hi = unat (t ! (nw + k + 1)) + unat l div 2 ^ (64 - lb)"
    using unat_funnel [of "64 - lb" l y] Suc.prems(3-5) unat_push [of lb y] unfolding hi_def by (simp add: or.commute)
  have n: "t' ! (nw + k + 1) = hi"
    using ih t2 L by (metis Cons_nth_drop_Suc list.inject)
  have "take (Suc k + 1) (drop nw t') = take (k + 1) (drop nw t') @ [hi]"
    using n ih t2(1) L by (simp add: take_Suc_conv_app_nth add.assoc)
  then have "val (take (Suc k + 1) (drop nw t')) = val (take k f) * 2 ^ lb + BB ^ k * unat (push_bit lb l) + BB ^ (k + 1) * unat hi"
    using ih t2 L by (simp add: val_append)
  also have "\<dots> = val (take k f) * 2 ^ lb + BB ^ k * (unat (push_bit lb l) + BB * (unat l div 2 ^ (64 - lb))) + BB ^ (k + 1) * unat (t ! (nw + k + 1))"
    unfolding hiv by (simp add: algebra_simps)
  also have "\<dots> = (val (take k f) + BB ^ k * unat l) * 2 ^ lb + BB ^ (k + 1) * unat (t ! (nw + k + 1))"
    unfolding push_with_carry [OF Suc.prems(3,4)] by (simp add: algebra_simps)
  also have "val (take k f) + BB ^ k * unat l = val (take (Suc k) f)"
    using Suc.prems(2) by (simp add: take_Suc_conv_app_nth val_append l_def)
  finally have v: "val (take (Suc k + 1) (drop nw t')) = val (take (Suc k) f) * 2 ^ lb + BB ^ (k + 1) * unat (t ! (nw + k + 1))" .
  have "drop (nw + k + 2) t' = drop (nw + k + 2) t2" using ih
    by (metis (no_types, lifting) add.assoc add.commute drop_drop one_add_one)
  with v ih t2 show ?case unfolding t' by simp
qed

lemma lshift_array:
  assumes "length t = N" "k + nw < N" "k \<le> length f" "s < 64"
  shows "let t1 = t[k + nw := 0];
      t2 = (if s = 0 then lshift_words_loop f nw k t1 else lshift_bits_loop f nw s k t1);
      t3 = replicate nw 0 @ drop nw t2
    in length t3 = N \<and> val (take (k + nw + 1) t3) = val (take k f) * (BB ^ nw * 2 ^ s)"
proof -
  define t1 where "t1 = t[k + nw := 0]"
  define t2 where "t2 = (if s = 0 then lshift_words_loop f nw k t1 else lshift_bits_loop f nw s k t1)"
  have t1: "length t1 = N" "t1 ! (nw + k) = 0" using assms(1,2) by (simp_all add: t1_def add.commute)
  have "length t2 = N \<and> val (take (k + 1) (drop nw t2)) = val (take k f) * 2 ^ s"
  proof (cases "s = 0")
    case True
    then have "t2 = take nw t1 @ take k f @ drop (nw + k) t1"
      using lshift_words_loop_spec [of nw k t1 f] t1 assms by (simp add: t2_def)
    moreover have "drop (nw + k) t1 = 0 # drop (nw + k + 1) t1" using t1 assms(2) by (metis Cons_nth_drop_Suc Suc_eq_plus1 add.commute)
    ultimately show ?thesis using True t1 assms by (simp add: val_append)
  next
    case False
    then show ?thesis using lshift_bits_loop_spec [of nw k t1 f s 0] t1 assms by (simp add: t2_def add.commute)
  qed
  moreover have "take (k + nw + 1) (replicate nw 0 @ drop nw t2) = replicate nw 0 @ take (k + 1) (drop nw t2)" by simp
  ultimately show ?thesis using assms(2) unfolding Let_def t1_def [symmetric] t2_def [symmetric] by (simp add: val_append algebra_simps)
qed

lemma BN_lshift_computes:
  assumes "word_mem_ok m" "bn_ok r" "bn_ok a" "0 \<le> n"
  shows "computes (BN_lshift m r a n) (can_grow m r (bn_width a + nat n div 64 + 1)) (bn_int a * 2 ^ nat n)"
proof -
  let ?nw = "nat n div 64" and ?lb = "nat n mod 64"
  let ?W = "bn_width a + ?nw + 1"
  obtain e r1 where w: "bn_wexpand m (r\<lparr>bn_neg := bn_neg a\<rparr>) ?W = (e, r1)" by fastforce
  have g: "can_grow m (r\<lparr>bn_neg := bn_neg a\<rparr>) ?W = can_grow m r ?W" by (simp add: can_grow_def)
  note w' = bn_wexpand_spec [OF assms(1) _ w, simplified g]
  have ok: "bn_ok (r\<lparr>bn_neg := bn_neg a\<rparr>)" using assms(2) by simp
  show ?thesis
  proof (cases e)
    case False
    then show ?thesis using w w' ok assms(4) by (simp add: computes_def BN_lshift_def Let_def)
  next
    case True
    define t where "t = replicate ?nw 0 @ drop ?nw (if ?lb = 0 then lshift_words_loop (bn_d a) ?nw (bn_width a) ((bn_d r1)[bn_width a + ?nw := 0])
        else lshift_bits_loop (bn_d a) ?nw ?lb (bn_width a) ((bn_d r1)[bn_width a + ?nw := 0]))"
    define r2 where "r2 = r1\<lparr>bn_d := t, bn_width := ?W\<rparr>"
    have run: "BN_lshift m r a n = (True, bn_set_minimal_width r2)"
      using w True assms(4) by (simp add: BN_lshift_def Let_def r2_def t_def)
    have L: "bn_width a + ?nw < length (bn_d r1)" "bn_width a \<le> length (bn_d a)" "?lb < 64"
      using w'(7) [OF ok True] assms(3) by (simp_all add: bn_ok_def)
    have t: "length t = length (bn_d r1)" "val (take ?W t) = val (take (bn_width a) (bn_d a)) * (BB ^ ?nw * 2 ^ ?lb)"
      using lshift_array [OF refl L] unfolding Let_def t_def [symmetric] by simp_all
    have r2: "bn_ok r2" using t(1) L(1) by (simp add: r2_def bn_ok_def)
    have "bn_abs r2 = bn_abs a * 2 ^ nat n"
      using t(2) unfolding pow2_split [of "nat n"] by (simp add: r2_def bn_abs_def words_def)
    moreover have "bn_neg r2 = bn_neg a" using w'(5) [OF ok] by (simp add: r2_def)
    ultimately have "bn_int r2 = bn_int a * 2 ^ nat n" by (simp add: bn_int_def)
    with run bn_set_minimal_width_spec [OF r2] show ?thesis by (simp add: computes_def)
  qed
qed


text \<open>A result written over the first words of a grown array.\<close>

lemma stored:
  assumes "length xs = w" "w \<le> length (bn_d r)"
  shows "bn_ok (r\<lparr>bn_d := xs @ drop w (bn_d r), bn_width := w, bn_neg := s\<rparr>)"
    "bn_abs (r\<lparr>bn_d := xs @ drop w (bn_d r), bn_width := w, bn_neg := s\<rparr>) = val xs"
  using assms by (simp_all add: bn_ok_def bn_abs_def words_def)

lemma BN_rshift_computes:
  assumes "word_mem_ok m" "bn_ok r" "bn_ok a" "0 \<le> n"
  shows "computes (BN_rshift m r a n) (can_grow m r (bn_width a)) (sgn (bn_int a) * (\<bar>bn_int a\<bar> div 2 ^ nat n))"
proof -
  obtain e r1 where w: "bn_wexpand m r (bn_width a) = (e, r1)" by fastforce
  note w' = bn_wexpand_spec [OF assms(1,2) w]
  show ?thesis
  proof (cases e)
    case False
    with w w' assms(4) show ?thesis by (simp add: computes_def BN_rshift_def)
  next
    case True
    define xs where "xs = bn_rshift_words (bn_d a) (nat n) (bn_width a)"
    define r2 where "r2 = r1\<lparr>bn_d := xs @ drop (bn_width a) (bn_d r1), bn_neg := bn_neg a, bn_width := bn_width a\<rparr>"
    have run: "BN_rshift m r a n = (True, bn_set_minimal_width r2)"
      using w True assms(4) by (simp add: BN_rshift_def r2_def xs_def)
    have xs: "length xs = bn_width a" "val xs = bn_abs a div 2 ^ nat n"
      using bn_rshift_words_val [of "bn_width a" "bn_d a" "nat n"] assms(3) by (simp_all add: xs_def bn_ok_def bn_abs_def words_def)
    have r2: "bn_ok r2" "bn_abs r2 = bn_abs a div 2 ^ nat n" "bn_neg r2 = bn_neg a"
      using xs w'(7) [OF True] by (simp_all add: r2_def bn_ok_def bn_abs_def words_def)
    then have "bn_int r2 = sgn (bn_int a) * (\<bar>bn_int a\<bar> div 2 ^ nat n)"
      by (cases "bn_abs a = 0") (simp_all add: bn_int_def zdiv_int)
    with run bn_set_minimal_width_spec [OF r2(1)] show ?thesis by (simp add: computes_def)
  qed
qed

lemma BN_rshift1_computes:
  assumes "word_mem_ok m" "bn_ok r" "bn_ok a"
  shows "computes (BN_rshift1 m r a) (can_grow m r (bn_width a)) (sgn (bn_int a) * (\<bar>bn_int a\<bar> div 2))"
proof -
  obtain e r1 where w: "bn_wexpand m r (bn_width a) = (e, r1)" by fastforce
  note w' = bn_wexpand_spec [OF assms(1,2) w]
  show ?thesis
  proof (cases e)
    case False
    with w w' show ?thesis by (simp add: computes_def BN_rshift1_def)
  next
    case True
    define xs where "xs = bn_rshift1_words (bn_d a) (bn_width a)"
    define r2 where "r2 = r1\<lparr>bn_d := xs @ drop (bn_width a) (bn_d r1), bn_width := bn_width a, bn_neg := bn_neg a\<rparr>"
    have run: "BN_rshift1 m r a = (True, bn_set_minimal_width r2)" using w True by (simp add: BN_rshift1_def r2_def xs_def)
    have xs: "length xs = bn_width a" "val xs = bn_abs a div 2"
      using bn_rshift1_words_val [of "bn_width a" "bn_d a"] assms(3) by (simp_all add: xs_def bn_ok_def bn_abs_def words_def)
    have r2: "bn_ok r2" "bn_abs r2 = bn_abs a div 2" "bn_neg r2 = bn_neg a"
      using stored [OF xs(1) w'(7) [OF True]] xs(2) by (simp_all add: r2_def)
    then have "bn_int r2 = sgn (bn_int a) * (\<bar>bn_int a\<bar> div 2)"
      by (cases "bn_abs a = 0") (simp_all add: bn_int_def zdiv_int)
    with run bn_set_minimal_width_spec [OF r2(1)] show ?thesis by (simp add: computes_def)
  qed
qed

lemma lshift1_loop_val:
  assumes "lshift1_loop (drop_bit 63 x0) xs = (c', r)"
  shows "length r = length xs \<and> unat c' \<le> 1 \<and> val r + BB ^ length xs * unat c' = 2 * val xs + unat x0 div 2 ^ 63"
  using assms
proof (induction xs arbitrary: x0 c' r)
  case Nil
  have "unat x0 div 2 ^ 63 \<le> 1" using ulong_lt [of x0] unfolding BB_def by (simp add: div_le_mono [of _ "2 ^ 64 - 1" "2 ^ 63", simplified])
  with Nil show ?case by (auto simp: unat_drop_bit_div)
next
  case (Cons x xs)
  obtain r' where r: "lshift1_loop (drop_bit 63 x) xs = (c', r')" "r = (push_bit 1 x OR drop_bit 63 x0) # r'"
    using Cons.prems by (auto split: prod.splits)
  have "unat (push_bit 1 x OR drop_bit 63 x0) = unat x0 div 2 ^ 63 + unat (push_bit 1 x)"
    using unat_funnel [of 63 x0 x] unat_push [of 1 x] by (simp add: or.commute)
  moreover have "unat (push_bit 1 x) + BB * (unat x div 2 ^ 63) = 2 * unat x" using push_with_carry [of 1 x] by simp
  moreover from Cons.IH [OF r(1)] have "length r' = length xs" "unat c' \<le> 1"
    "BB * (val r' + BB ^ length xs * unat c') = BB * (2 * val xs + unat x div 2 ^ 63)" by simp_all
  ultimately show ?case by (simp add: r(2) algebra_simps)
qed

lemma BN_lshift1_computes:
  assumes "word_mem_ok m" "bn_ok r" "bn_ok a"
  shows "computes (BN_lshift1 m r a) (can_grow m r (bn_width a + 1)) (2 * bn_int a)"
proof -
  let ?r = "r\<lparr>bn_neg := bn_neg a\<rparr>" and ?w = "bn_width a"
  obtain e r1 where w: "bn_wexpand m ?r (?w + 1) = (e, r1)" by fastforce
  have ok: "bn_ok ?r" using assms(2) by simp
  note w' = bn_wexpand_spec [OF assms(1) ok w]
  have g: "can_grow m ?r (?w + 1) = can_grow m r (?w + 1)" by (simp add: can_grow_def)
  obtain c xs where l: "lshift1_loop 0 (take ?w (bn_d a)) = (c, xs)" by fastforce
  have len: "length (take ?w (bn_d a)) = ?w" using assms(3) by (simp add: bn_ok_def)
  have "lshift1_loop (drop_bit 63 0) (take ?w (bn_d a)) = (c, xs)" using l by simp
  from lshift1_loop_val [OF this] len have lv: "length xs = ?w" "unat c \<le> 1" "val xs + BB ^ ?w * unat c = 2 * bn_abs a"
    by (simp_all add: bn_abs_def words_def)
  show ?thesis
  proof (cases e)
    case False
    with w w' g show ?thesis by (simp add: computes_def BN_lshift1_def)
  next
    case True
    note L = w'(7) [OF True]
    define r2 where "r2 = r1\<lparr>bn_d := xs @ drop ?w (bn_d r1), bn_width := ?w\<rparr>"
    define r3 where "r3 = (if c \<noteq> 0 then r2\<lparr>bn_d := (bn_d r2)[?w := 1], bn_width := ?w + 1\<rparr> else r2)"
    have run: "BN_lshift1 m r a = (True, r3)" using w True l by (simp add: BN_lshift1_def Let_def r3_def r2_def)
    have d: "drop ?w (bn_d r1) = bn_d r1 ! ?w # drop (?w + 1) (bn_d r1)" using L by (metis Cons_nth_drop_Suc Suc_eq_plus1 Suc_le_lessD)
    have "bn_ok r3 \<and> bn_abs r3 = 2 * bn_abs a \<and> bn_neg r3 = bn_neg a"
    proof (cases "c = 0")
      case True
      with lv L w'(5) show ?thesis by (simp add: r3_def r2_def bn_ok_def bn_abs_def words_def)
    next
      case False
      then have c: "c = 1" using ulong_bool [OF lv(2)] by blast
      have "bn_d r3 = xs @ 1 # drop (?w + 1) (bn_d r1)" using False lv(1) unfolding r3_def r2_def by (simp add: d list_update_append)
      with c lv L w'(5) show ?thesis by (simp add: r3_def r2_def bn_ok_def bn_abs_def words_def val_append)
    qed
    then show ?thesis by (simp add: run computes_def bn_int_def)
  qed
qed

section \<open>Adding and subtracting a word\<close>

lemma add_word_loop_val:
  assumes "add_word_loop w xs = (c, r)"
  shows "length r = length xs \<and> val r + BB ^ length xs * unat c = val xs + unat w"
  using assms
proof (induction xs arbitrary: w c r)
  case (Cons x xs)
  show ?case
  proof (cases "w = 0")
    case False
    define c1 :: ulong where "c1 = (if w > x + w then 1 else 0)"
    obtain r' where r: "add_word_loop c1 xs = (c, r')" "r = (x + w) # r'"
      using Cons.prems False by (auto simp: Let_def c1_def split: prod.splits)
    have "unat (x + w) + BB * unat c1 = unat x + unat w"
    proof (cases "unat x + unat w < BB")
      case True
      then have "unat (x + w) = unat x + unat w" using unat_add_lem [of x w] by (simp add: BB_def)
      then show ?thesis by (simp add: c1_def word_less_nat_alt)
    next
      case f: False
      have b: "unat x < BB" "unat w < BB" by simp_all
      have "unat (x + w) = (unat x + unat w) mod BB" by (simp add: unat_word_ariths BB_def)
      also have "\<dots> = unat x + unat w - BB" 
      proof -
        have "unat x + unat w - BB < BB" using b by linarith
        with f show ?thesis by (subst le_mod_geq) (simp_all add: not_less)
      qed
      finally have "unat (x + w) = unat x + unat w - BB" .
      moreover have "unat x + unat w - BB < unat w" using f b by linarith
      ultimately show ?thesis using f by (simp add: c1_def word_less_nat_alt)
    qed
    moreover from Cons.IH [OF r(1)] have "length r' = length xs" "BB * (val r' + BB ^ length xs * unat c) = BB * (val xs + unat c1)" by simp_all
    ultimately show ?thesis by (simp add: r(2) algebra_simps)
  qed (use Cons.prems in auto)
qed auto

lemma sub_word_loop_val:
  assumes "sub_word_loop w xs = (i, r)" "unat w \<le> val xs" "xs \<noteq> []"
  shows "length r = length xs \<and> val r + unat w = val xs \<and> i < length xs"
  using assms
proof (induction xs arbitrary: w i r)
  case (Cons x xs)
  show ?case
  proof (cases "x \<ge> w")
    case True
    with Cons.prems show ?thesis by (auto simp: unat_sub word_le_nat_alt)
  next
    case False
    obtain j r' where r: "sub_word_loop 1 xs = (j, r')" "i = Suc j" "r = (x - w) # r'"
      using Cons.prems False by (auto split: prod.splits)
    have lt: "unat x < unat w" using False by (simp add: word_le_nat_alt)
    have ne: "val xs \<noteq> 0"
    proof
      assume "val xs = 0"
      with Cons.prems(2) lt show False by simp
    qed
    then have "unat (1 :: ulong) \<le> val xs" "xs \<noteq> []" by (auto simp: Suc_le_eq)
    from Cons.IH [OF r(1) this] have IH: "length r' = length xs" "val r' + 1 = val xs" "j < length xs" by simp_all
    have "unat (x - w) + unat w = unat x + BB"
      using lt unat_sub_if_size [of x w] ulong_lt [of w] by (simp add: word_size BB_def)
    moreover have "BB * val xs = BB * val r' + BB" unfolding IH(2) [symmetric] by simp
    ultimately show ?thesis using IH r by simp
  qed
qed simp

lemma BN_set_word_computes:
  assumes "word_mem_ok m" "bn_ok a" "BN_set_word m a w = (s, a')"
  shows "s \<longleftrightarrow> w = 0 \<or> can_grow m a 1" "bn_ok a'" "s \<Longrightarrow> bn_abs a' = unat w" "s \<Longrightarrow> \<not> bn_neg a'"
proof -
  have "(s \<longleftrightarrow> w = 0 \<or> can_grow m a 1) \<and> bn_ok a' \<and> (s \<longrightarrow> bn_abs a' = unat w \<and> \<not> bn_neg a')"
  proof (cases "w = 0")
    case True
    with assms(2,3) show ?thesis by (auto simp: BN_set_word_def BN_zero_def bn_ok_def bn_abs_def words_def)
  next
    case False
    obtain e a1 where w: "bn_wexpand m a 1 = (e, a1)" by fastforce
    note w' = bn_wexpand_spec [OF assms(1,2) w]
    show ?thesis
    proof (cases e)
      case True
      then obtain x xs where d: "bn_d a1 = x # xs" using w'(7) by (cases "bn_d a1") auto
      with True False w w' assms(3) show ?thesis by (auto simp: BN_set_word_def bn_ok_def bn_abs_def words_def)
    qed (use False w w' assms(3) in \<open>auto simp: BN_set_word_def\<close>)
  qed
  then show "s \<longleftrightarrow> w = 0 \<or> can_grow m a 1" "bn_ok a'" "s \<Longrightarrow> bn_abs a' = unat w" "s \<Longrightarrow> \<not> bn_neg a'" by auto
qed

text \<open>The sign that does not change: a magnitude plus a word.\<close>

lemma add_word_magnitude:
  assumes "word_mem_ok m" "bn_ok a" "\<not> bn_neg a"
  shows "computes (BN_add_word m a w) (bn_room m a (bn_width a + 1)) (bn_int a + int (unat w))"
proof (cases "w = 0 \<or> bn_abs a = 0")
  case True
  obtain s a' where u: "BN_set_word m a w = (s, a')" by fastforce
  note u' = BN_set_word_computes [OF assms(1,2) u]
  from True u u' assms show ?thesis by (cases "w = 0") (auto simp: BN_add_word.simps computes_def bn_int_def bn_room_def)
next
  case False
  let ?w = "bn_width a"
  obtain c r where l: "add_word_loop w (take ?w (bn_d a)) = (c, r)" by fastforce
  have len: "length (take ?w (bn_d a)) = ?w" using assms(2) by (simp add: bn_ok_def)
  from add_word_loop_val [OF l] len have lv: "length r = ?w" "val r + BB ^ ?w * unat c = bn_abs a + unat w"
    by (simp_all add: bn_abs_def words_def)
  define a1 where "a1 = a\<lparr>bn_d := r @ drop ?w (bn_d a)\<rparr>"
  have a1: "bn_ok a1" "words a1 = r" "bn_width a1 = ?w" "\<not> bn_neg a1" "length (bn_d a1) = length (bn_d a)"
    using lv(1) assms(2,3) by (simp_all add: a1_def bn_ok_def words_def)
  have g: "can_grow m a1 (?w + 1) = can_grow m a (?w + 1)" using a1(5) by (simp add: can_grow_def a1_def)
  show ?thesis
  proof (cases "c = 0")
    case True
    then have "BN_add_word m a w = (True, a1)" using False assms(3) l by (simp add: BN_add_word.simps Let_def a1_def)
    with a1 lv True assms(3) show ?thesis by (simp add: computes_def bn_int_def bn_abs_def)
  next
    case c: False
    obtain e a2 where w: "bn_wexpand m a1 (?w + 1) = (e, a2)" by fastforce
    note w' = bn_wexpand_spec [OF assms(1) a1(1) w]
    have run: "BN_add_word m a w = (if e then (True, a2\<lparr>bn_width := ?w + 1, bn_d := (bn_d a2)[?w := c]\<rparr>) else (False, a2))"
      using False assms(3) l c w w'(4) a1(3) by (simp add: BN_add_word.simps Let_def a1_def [symmetric])
    show ?thesis
    proof (cases e)
      case True
      have L: "?w < length (bn_d a2)" using w'(7) [OF True] by simp
      have "take ?w (bn_d a2) = r" using w'(3,4) a1 by (simp add: words_def)
      then have "words (a2\<lparr>bn_width := ?w + 1, bn_d := (bn_d a2)[?w := c]\<rparr>) = r @ [c]"
        using L by (simp add: words_def take_Suc_conv_app_nth)
      with run True L lv w'(5) a1(4) assms(3) show ?thesis by (simp add: computes_def bn_int_def bn_abs_def val_append bn_ok_def)
    next
      case False
      with run w'(1,2) g show ?thesis by (auto simp: computes_def bn_room_def)
    qed
  qed
qed

lemma sub_word_magnitude:
  assumes "word_mem_ok m" "bn_ok a" "\<not> bn_neg a"
  shows "computes (BN_sub_word m a w) (bn_room m a (bn_width a + 1)) (bn_int a - int (unat w))"
proof (cases "w = 0 \<or> bn_abs a = 0")
  case True
  obtain s a' where u: "BN_set_word m a w = (s, a')" by fastforce
  note u' = BN_set_word_computes [OF assms(1,2) u]
  have "w \<noteq> 0 \<Longrightarrow> unat w \<noteq> 0" by (simp add: unat_eq_zero)
  with True u u' assms show ?thesis
    by (cases "w = 0") (auto simp: BN_sub_word.simps computes_def bn_int_def bn_room_def BN_set_negative_def)
next
  case False
  let ?w = "bn_width a"
  note mw = bn_minimal_width_spec [OF assms(2)]
  have L: "length (take ?w (bn_d a)) = ?w" using assms(2) by (simp add: bn_ok_def)
  have W: "0 < ?w" using False mw by (metis gr0I le_zero_eq)
  then obtain x xs where d: "bn_d a = x # xs" using assms(2) by (cases "bn_d a") (auto simp: bn_ok_def)
  show ?thesis
  proof (cases "bn_minimal_width a = 1 \<and> bn_d a ! 0 < w")
    case True
    then have v: "bn_abs a = unat x" using mw(2) d by simp
    then have z: "val (take (?w - 1) xs) = 0" using W d by (cases ?w) (simp_all add: bn_abs_def words_def)
    define a1 where "a1 = a\<lparr>bn_d := (bn_d a)[0 := w - bn_d a ! 0], bn_neg := True\<rparr>"
    have run: "BN_sub_word m a w = (True, a1)" using True False assms(3) by (simp add: BN_sub_word.simps a1_def)
    have lt: "unat x < unat w" using True d by (simp add: word_less_nat_alt)
    have "bn_abs a1 = unat (w - x)" using W z d by (cases ?w) (simp_all add: a1_def bn_abs_def words_def)
    also have "\<dots> = unat w - unat x" using lt by (intro unat_sub) (simp add: word_le_nat_alt)
    finally have "bn_abs a1 = unat w - unat x" .
    moreover have "bn_ok a1" "bn_neg a1" using assms(2) by (simp_all add: a1_def bn_ok_def)
    ultimately show ?thesis using run lt v assms(3) by (simp add: computes_def bn_int_def)
  next
    case nb: False
    obtain i r where l: "sub_word_loop w (take ?w (bn_d a)) = (i, r)" by fastforce
    have le: "unat w \<le> bn_abs a"
    proof (cases "bn_minimal_width a = 1")
      case True
      then show ?thesis using nb mw(2) d by (simp add: word_le_nat_alt not_less)
    next
      case g: False
      let ?k = "bn_minimal_width a"
      have k: "2 \<le> ?k" using g False mw(4) by linarith
      have len: "length (take ?k (bn_d a)) = ?k" using mw(1) assms(2) by (simp add: bn_ok_def)
      then have ne: "take ?k (bn_d a) \<noteq> []" using k by (metis list.size(3) not_numeral_le_zero)
      have "last (take ?k (bn_d a)) \<noteq> 0" using mw(3) k len ne by (simp add: last_conv_nth)
      then have "BB ^ (?k - 1) \<le> bn_abs a" using val_top_digit [OF ne] len mw(2) by simp
      moreover have "BB ^ 1 \<le> BB ^ (?k - 1)" using k BB_gt_1 by (intro power_increasing) simp_all
      ultimately show ?thesis using ulong_lt [of w] unfolding power_one_right by linarith
    qed
    have "take ?w (bn_d a) \<noteq> []" using W L by (metis list.size(3) less_numeral_extra(3))
    then have lv: "length r = ?w" "val r + unat w = bn_abs a" "i < ?w"
      using sub_word_loop_val [OF l] le L by (simp_all add: bn_abs_def words_def)
    define a1 where "a1 = a\<lparr>bn_d := r @ drop ?w (bn_d a)\<rparr>"
    define a2 where "a2 = (if bn_d a1 ! i = 0 \<and> i = ?w - 1 then a1\<lparr>bn_width := ?w - 1\<rparr> else a1)"
    have run: "BN_sub_word m a w = (True, a2)"
    proof -
      have wa: "bn_width a1 = ?w" by (simp add: a1_def)
      have c: "w \<noteq> 0" "\<not> BN_is_zero a" using False by simp_all
      show ?thesis
        unfolding BN_sub_word.simps [of m a w] if_not_P [OF c(1)] if_not_P [OF c(2)] if_not_P [OF assms(3)] if_not_P [OF nb] l
        by (simp only: prod.case Let_def a1_def [symmetric] a2_def wa)
    qed
    have "bn_ok a2 \<and> bn_abs a2 = val r \<and> \<not> bn_neg a2"
    proof (cases "bn_d a1 ! i = 0 \<and> i = ?w - 1")
      case True
      have "r ! (?w - 1) = 0" using True lv(1,3) by (auto simp: a1_def nth_append)
      then have r: "take (?w - 1) r @ [0] = r" using lv(1) W by (metis Suc_pred' diff_less order_refl take_Suc_conv_app_nth take_all zero_less_one)
      have "bn_abs a2 = val (take (?w - 1) r)" unfolding a2_def if_P [OF True] using lv(1) by (simp add: a1_def bn_abs_def words_def)
      also have "\<dots> = val (take (?w - 1) r @ [0])" by (simp add: val_append)
      finally have "bn_abs a2 = val r" unfolding r .
      then show ?thesis unfolding a2_def if_P [OF True] using lv(1) assms(2,3) by (simp add: a1_def bn_ok_def)
    next
      case False
      then show ?thesis using lv(1) assms(2,3) by (auto simp: a2_def a1_def bn_ok_def bn_abs_def words_def)
    qed
    moreover have "int (bn_abs a) - int (unat w) = int (val r)" unfolding lv(2) [symmetric] by (simp only: of_nat_add)
    ultimately show ?thesis using assms(3) unfolding run computes_def fst_conv snd_conv bn_int_def by simp
  qed
qed

lemma neg_flip:
  assumes "bn_ok a" "bn_neg a"
  shows "bn_ok (a\<lparr>bn_neg := False\<rparr>)" "bn_int (a\<lparr>bn_neg := False\<rparr>) = - bn_int a" "bn_width (a\<lparr>bn_neg := False\<rparr>) = bn_width a"
    "bn_room m (a\<lparr>bn_neg := False\<rparr>) k = bn_room m a k"
  using assms by (simp_all add: bn_int_def bn_room_def can_grow_def)

lemma BN_add_word_computes:
  assumes "word_mem_ok m" "bn_ok a"
  shows "computes (BN_add_word m a w) (bn_room m a (bn_width a + 1)) (bn_int a + int (unat w))"
proof (cases "bn_neg a \<and> w \<noteq> 0 \<and> bn_abs a \<noteq> 0")
  case True
  note f = neg_flip [OF assms(2)]
  obtain i a1 where s: "BN_sub_word m (a\<lparr>bn_neg := False\<rparr>) w = (i, a1)" by fastforce
  have "computes (i, a1) (bn_room m a (bn_width a + 1)) (- bn_int a - int (unat w))"
    using sub_word_magnitude [OF assms(1) f(1), of w] f True s by simp
  with True s show ?thesis by (auto simp: BN_add_word.simps computes_def bn_int_def split: if_splits)
next
  case False
  show ?thesis
  proof (cases "bn_neg a")
    case True
    obtain s a' where u: "BN_set_word m a w = (s, a')" by fastforce
    note u' = BN_set_word_computes [OF assms u]
    from False True u u' assms show ?thesis by (cases "w = 0") (auto simp: BN_add_word.simps computes_def bn_int_def bn_room_def)
  qed (use add_word_magnitude [OF assms] in simp)
qed

lemma BN_sub_word_computes:
  assumes "word_mem_ok m" "bn_ok a"
  shows "computes (BN_sub_word m a w) (bn_room m a (bn_width a + 1)) (bn_int a - int (unat w))"
proof (cases "bn_neg a \<and> w \<noteq> 0 \<and> bn_abs a \<noteq> 0")
  case True
  note f = neg_flip [OF assms(2)]
  obtain i a1 where s: "BN_add_word m (a\<lparr>bn_neg := False\<rparr>) w = (i, a1)" by fastforce
  have c: "computes (i, a1) (bn_room m a (bn_width a + 1)) (- bn_int a + int (unat w))"
    using add_word_magnitude [OF assms(1) f(1), of w] f True s by simp
  have "bn_int a < 0" using True by (simp add: bn_int_def)
  then have "0 < - bn_int a + int (unat w)" using of_nat_0_le_iff [of "unat w"] by linarith
  with c have "\<not> bn_neg a1" if i using that by (auto simp: computes_def bn_int_def)
  with True s c show ?thesis by (auto simp: BN_sub_word.simps computes_def bn_int_def split: if_splits)
next
  case False
  show ?thesis
  proof (cases "bn_neg a")
    case True
    obtain s a' where u: "BN_set_word m a w = (s, a')" by fastforce
    note u' = BN_set_word_computes [OF assms u]
    have "w \<noteq> 0 \<Longrightarrow> unat w \<noteq> 0" by (simp add: unat_eq_zero)
    with False True u u' assms show ?thesis
      by (cases "w = 0") (auto simp: BN_sub_word.simps computes_def bn_int_def bn_room_def BN_set_negative_def)
  qed (use sub_word_magnitude [OF assms] in simp)
qed


text \<open>C37: The operations on big numbers compute the integers: for operands of any width, zero-padded or not, each fails only
  when the result cannot get its words, and a result it reports is the exact sum, difference, product or quotient by a power of two
  (rounded towards zero), of the right sign. \<open>BN_cmp\<close> compares the integers of numbers that are not a negative zero.\<close>

theorem big_numbers_compute_the_integers:
  assumes "word_mem_ok m" "bn_ok r" "bn_ok a" "bn_ok b" "0 \<le> n"
  shows "computes (BN_add m r a b) (bn_room m r (max (bn_width a) (bn_width b) + 1)) (bn_int a + bn_int b) \<and>
    computes (BN_sub m r a b) (bn_room m r (max (bn_width a) (bn_width b) + 1)) (bn_int a - bn_int b) \<and>
    computes (BN_add_word m a w) (bn_room m a (bn_width a + 1)) (bn_int a + int (unat w)) \<and>
    computes (BN_sub_word m a w) (bn_room m a (bn_width a + 1)) (bn_int a - int (unat w)) \<and>
    computes (BN_lshift m r a n) (can_grow m r (bn_width a + nat n div 64 + 1)) (bn_int a * 2 ^ nat n) \<and>
    computes (BN_rshift m r a n) (can_grow m r (bn_width a)) (sgn (bn_int a) * (\<bar>bn_int a\<bar> div 2 ^ nat n)) \<and>
    computes (BN_lshift1 m r a) (can_grow m r (bn_width a + 1)) (2 * bn_int a) \<and>
    computes (BN_rshift1 m r a) (can_grow m r (bn_width a)) (sgn (bn_int a) * (\<bar>bn_int a\<bar> div 2)) \<and>
    ((bn_neg a \<longrightarrow> bn_abs a \<noteq> 0) \<longrightarrow> (bn_neg b \<longrightarrow> bn_abs b \<noteq> 0) \<longrightarrow> BN_cmp (Some a) (Some b) = sgn (bn_int a - bn_int b))"
  by (intro conjI impI BN_add_computes BN_sub_computes BN_add_word_computes BN_sub_word_computes BN_lshift_computes BN_rshift_computes
      BN_lshift1_computes BN_rshift1_computes assms) (rule BN_cmp_spec; blast)

theorem big_numbers_compute_the_integers_witness:
  "let m = (\<lambda>n. Some (replicate (n div 8) 7));
       a = \<lparr>bn_d = [3, 1, 9], bn_width = 2, bn_neg = True, bn_static = False\<rparr>;
       b = \<lparr>bn_d = [5], bn_width = 1, bn_neg = False, bn_static = True\<rparr>
   in fst (BN_add m BN_init a b) \<and> bn_int (snd (BN_add m BN_init a b)) = 2 - 2 ^ 64 \<and>
      fst (BN_rshift m BN_init a 1) \<and> bn_int (snd (BN_rshift m BN_init a 1)) = - (2 ^ 63 + 1) \<and>
      BN_cmp (Some a) (Some b) = - 1"
proof -
  define m :: word_mem where "m = (\<lambda>n. Some (replicate (n div 8) 7))"
  define a where "a = \<lparr>bn_d = [3 :: ulong, 1, 9], bn_width = 2, bn_neg = True, bn_static = False\<rparr>"
  define b where "b = \<lparr>bn_d = [5 :: ulong], bn_width = 1, bn_neg = False, bn_static = True\<rparr>"
  have m: "word_mem_ok m" by (simp add: m_def word_mem_ok_def)
  have ok: "bn_ok BN_init" "bn_ok a" "bn_ok b" by (simp_all add: BN_init_def a_def b_def bn_ok_def)
  have abs: "bn_abs a = 3 + 2 ^ 64" "bn_abs b = 5" by (simp_all add: a_def b_def bn_abs_def words_def BB_def)
  then have i: "bn_int a = - (3 + 2 ^ 64)" "bn_int b = 5" by (simp_all add: bn_int_def) (simp_all add: a_def b_def)
  have g: "can_grow m BN_init k" if "k \<le> 4" for k using that by (simp add: can_grow_def m_def BN_init_def MAX_WORDS_def)
  then have room: "bn_room m BN_init (max (bn_width a) (bn_width b) + 1)" "can_grow m BN_init (bn_width a)"
    by (simp_all add: bn_room_def a_def b_def)
  note all = big_numbers_compute_the_integers [OF m ok, of 1]
  from all room have "fst (BN_add m BN_init a b)" "bn_int (snd (BN_add m BN_init a b)) = bn_int a + bn_int b"
    "fst (BN_rshift m BN_init a 1)" "bn_int (snd (BN_rshift m BN_init a 1)) = sgn (bn_int a) * (\<bar>bn_int a\<bar> div 2 ^ nat 1)"
    by (simp_all add: computes_def)
  moreover have "BN_cmp (Some a) (Some b) = sgn (bn_int a - bn_int b)" using all abs by simp
  ultimately show ?thesis unfolding Let_def m_def [symmetric] a_def [symmetric] b_def [symmetric] by (simp add: i)
qed

end
