(* ===== verification/BN_Bytes.thy ===== *)
theory BN_Bytes
  imports BN_Ops
begin

text \<open>
  The conversions of \<open>bytes.c\<close> between big numbers and byte strings, and the number of bits.
\<close>

section \<open>Bytes of words\<close>

lemma be_nat_eq_0: "be_nat xs = 0 \<longleftrightarrow> (\<forall>x\<in>set xs. x = 0)"
  by (induction xs) (auto simp: be_nat_Cons unat_eq_zero)

lemma be_nat_digits:
  "(\<And>i. i < n \<Longrightarrow> unat (f i) = v div 256 ^ i mod 256) \<Longrightarrow> be_nat (rev (map f [0..<n])) = v mod 256 ^ n"
proof (induction n)
  case (Suc n)
  then have "be_nat (rev (map f [0..<Suc n])) = v div 256 ^ n mod 256 * 256 ^ n + v mod 256 ^ n" by (simp add: be_nat_Cons)
  also have "\<dots> = v mod (256 ^ n * 256)" by (simp add: mod_mult2_eq)
  finally show ?case by (simp add: mult.commute)
qed simp

lemma BB_256: "BB = 256 ^ 8"
  by (simp add: BB_def)

lemma length_word_bytes [simp]: "length (word_bytes w) = 8"
  by (simp add: word_bytes_def)

lemma word_bytes_val: "be_nat (rev (word_bytes w)) = unat w"
proof -
  have "unat (ucast (drop_bit (8 * i) w) :: byte) = unat w div 256 ^ i mod 256" for i
  proof -
    have "(2 :: nat) ^ (8 * i) = 256 ^ i" by (simp add: power_mult)
    then show ?thesis by (simp add: unsigned_ucast_eq take_bit_eq_mod unat_drop_bit_div)
  qed
  then have "be_nat (rev (word_bytes w)) = unat w mod 256 ^ 8" unfolding word_bytes_def by (rule be_nat_digits)
  then show ?thesis using ulong_lt [of w] unfolding BB_256 by simp
qed

lemma length_bytes_of [simp]: "length (bytes_of ws) = 8 * length ws"
  by (induction ws) (simp_all add: bytes_of_def)

lemma bytes_of_val: "be_nat (rev (bytes_of ws)) = val ws"
proof (induction ws)
  case (Cons w ws)
  have "rev (bytes_of (w # ws)) = rev (bytes_of ws) @ rev (word_bytes w)" by (simp add: bytes_of_def)
  with Cons show ?case by (simp add: be_nat_append word_bytes_val BB_256)
qed (simp add: bytes_of_def)

lemma fits_in_bytes_iff: "fits_in_bytes bs len \<longleftrightarrow> be_nat (rev (drop len bs)) = 0"
proof -
  have "foldl (OR) (b :: byte) xs = 0 \<longleftrightarrow> b = 0 \<and> (\<forall>x\<in>set xs. x = 0)" for b xs
    by (induction xs arbitrary: b) (auto simp: or_eq_0_iff)
  then show ?thesis by (simp add: fits_in_bytes_def be_nat_eq_0)
qed

section \<open>Padded output\<close>

lemma le_padded_bytes:
  assumes "bn_ok bn"
  shows "BN_bn2le_padded len bn = (if bn_abs bn < 256 ^ len then Some (rev (be_bytes len (bn_abs bn))) else None)"
proof -
  define bs where "bs = bytes_of (words bn)"
  have v: "be_nat (rev bs) = bn_abs bn" "length bs = 8 * bn_width bn" using assms by (simp_all add: bs_def bytes_of_val bn_abs_def)
  have cut: "bn_abs bn = be_nat (rev (drop len bs)) * 256 ^ min len (length bs) + be_nat (rev (take len bs))"
    using be_nat_append [of "rev (drop len bs)" "rev (take len bs)"] v(1) by (simp flip: rev_append add: min.commute)
  have ub: "be_nat (rev (take len bs)) < 256 ^ min len (length bs)" using be_nat_bound [of "rev (take len bs)"] by (simp add: min.commute)
  have run: "BN_bn2le_padded len bn = (if len < length bs \<and> \<not> fits_in_bytes bs len then None
      else Some (take (min (length bs) len) bs @ replicate (len - min (length bs) len) 0))"
    by (simp add: BN_bn2le_padded_def bs_def words_def Let_def)
  show ?thesis
  proof (cases "len < length bs \<and> \<not> fits_in_bytes bs len")
    case True
    then have "256 ^ len * 1 \<le> 256 ^ len * be_nat (rev (drop len bs))"
      by (intro mult_left_mono) (simp_all add: fits_in_bytes_iff Suc_le_eq)
    moreover have "min len (length bs) = len" using True by simp
    ultimately have "256 ^ len \<le> bn_abs bn" using cut by (simp only: mult.commute mult_1)
    then have "\<not> bn_abs bn < 256 ^ len" by simp
    with True run show ?thesis by simp
  next
    case False
    have "be_nat (rev (drop len bs)) = 0" using False by (cases "len < length bs") (auto simp: fits_in_bytes_iff)
    then have t: "bn_abs bn = be_nat (rev (take len bs))" using cut by simp
    have "(256 :: nat) ^ min len (length bs) \<le> 256 ^ len" by (intro power_increasing) simp_all
    with ub have lt: "bn_abs bn < 256 ^ len" unfolding t by (rule less_le_trans)
    define xs where "xs = take (min (length bs) len) bs @ replicate (len - min (length bs) len) 0"
    have xs: "length xs = len" by (simp add: xs_def)
    have "be_nat (rev xs) = be_nat (rev (take len bs))"
      by (simp add: xs_def be_nat_append be_nat_eq_0 min_def)
    then have "rev xs = be_bytes len (bn_abs bn)" using be_bytes_be_nat [of "rev xs"] xs t by simp
    then have "xs = rev (be_bytes len (bn_abs bn))" by (metis rev_rev_ident)
    moreover have "BN_bn2le_padded len bn = Some xs" unfolding run if_not_P [OF False] xs_def ..
    ultimately show ?thesis using lt by simp
  qed
qed

lemma padded_reversed: "BN_bn2bin_padded len bn = map_option rev (BN_bn2le_padded len bn)"
  by (simp add: BN_bn2bin_padded_def BN_bn2le_padded_def Let_def rev_append rev_replicate)

lemma bin_padded_bytes:
  assumes "bn_ok bn"
  shows "BN_bn2bin_padded len bn = (if bn_abs bn < 256 ^ len then Some (be_bytes len (bn_abs bn)) else None)"
  unfolding padded_reversed le_padded_bytes [OF assms] by simp

section \<open>Input\<close>

lemma shift_in_byte:
  assumes "unat w * 256 < BB"
  shows "unat (push_bit 8 w OR ucast (b :: byte) :: ulong) = unat w * 256 + unat b"
proof -
  have "ucast b = drop_bit 56 (push_bit 56 (ucast b :: ulong))"
    by (rule bit_word_eqI) (auto simp: bit_simps dest: bit_imp_le_length)
  then have "unat (push_bit 8 w OR ucast b) = unat (push_bit 56 (ucast b :: ulong)) div 2 ^ 56 + (unat w mod 2 ^ 56) * 2 ^ 8"
    using unat_funnel [of 56 "push_bit 56 (ucast b :: ulong)" w] by (simp add: or.commute)
  moreover have "unat w mod 2 ^ 56 = unat w" using assms by (simp add: BB_def)
  moreover have "unat (push_bit 56 (ucast b :: ulong)) div 2 ^ 56 = unat b"
    using unat_push [of 56 "ucast b :: ulong"] unat_byte_lt [of b] by (simp add: unsigned_ucast_eq take_bit_eq_mod)
  ultimately show ?thesis by simp
qed

lemma bin2bn_loop_spec:
  assumes "length inp = (if inp = [] then 0 else 8 * (nw - 1) + m + 1)" "inp = [] \<Longrightarrow> nw = 0 \<and> word = 0" "inp \<noteq> [] \<Longrightarrow> 0 < nw"
    "nw \<le> length d" "unat word < 256 ^ (7 - m)" "m \<le> 7"
  shows "length (bin2bn_loop inp word m nw d) = length d \<and> drop nw (bin2bn_loop inp word m nw d) = drop nw d \<and>
    val (take nw (bin2bn_loop inp word m nw d)) = unat word * 256 ^ length inp + be_nat inp"
  using assms
proof (induction inp word m nw d rule: bin2bn_loop.induct)
  case (1 b inp word m nw d)
  define w' where "w' = push_bit 8 word OR ucast b"
  have P: "256 * (256 :: nat) ^ (7 - m) = 256 ^ (8 - m)" using 1(8) by (simp add: Suc_diff_le flip: power_Suc)
  have "(256 :: nat) ^ (8 - m) \<le> BB" unfolding BB_256 by (intro power_increasing) simp_all
  moreover have "256 * (unat word + 1) \<le> 256 * 256 ^ (7 - m)" using 1(7) by (intro mult_left_mono) simp_all
  ultimately have lim: "unat word * 256 + 256 \<le> 256 ^ (8 - m)" "unat word * 256 < BB" unfolding P by auto
  have w': "unat w' = unat word * 256 + unat b" unfolding w'_def using lim(2) by (rule shift_in_byte)
  have len: "length inp = 8 * (nw - 1) + m" and nw: "0 < nw" using 1(3,5) by simp_all
  show ?case
  proof (cases "m = 0")
    case True
    define d1 where "d1 = d[nw - 1 := w']"
    define d' where "d' = bin2bn_loop inp 0 7 (nw - 1) d1"
    have run: "bin2bn_loop (b # inp) word m nw d = d'" using True by (simp add: d'_def d1_def w'_def Let_def)
    have "length d' = length d1 \<and> drop (nw - 1) d' = drop (nw - 1) d1 \<and>
        val (take (nw - 1) d') = unat (0 :: ulong) * 256 ^ length inp + be_nat inp"
      unfolding d'_def d1_def w'_def
    proof (intro 1(1))
      show "length inp = (if inp = [] then 0 else 8 * (nw - 1 - 1) + 7 + 1)" using len True by (cases inp) auto
      show "inp \<noteq> [] \<Longrightarrow> 0 < nw - 1" "inp = [] \<Longrightarrow> nw - 1 = 0 \<and> (0 :: ulong) = 0" using len True nw by (cases inp; simp)+
    qed (use True 1(6) in simp_all)
    then have IH: "length d' = length d" "drop (nw - 1) d' = drop (nw - 1) d1" "val (take (nw - 1) d') = be_nat inp"
      by (simp_all add: d1_def)
    have dr: "drop (nw - 1) d1 = w' # drop nw d" using nw 1(6) by (simp add: d1_def Cons_nth_drop_Suc [symmetric])
    have "drop nw d' = tl (drop (nw - 1) d')" using nw by (simp flip: drop_Suc add: tl_drop)
    then have drop: "drop nw d' = drop nw d" unfolding IH(2) dr by simp
    have "take nw d' = take (nw - 1) d' @ [d' ! (nw - 1)]" using nw 1(6) IH(1)
      by (metis Suc_pred' le_trans less_eq_Suc_le order_refl take_Suc_conv_app_nth)
    moreover have "d' ! (nw - 1) = w'" using IH(1,2) dr nw 1(6) by (metis Suc_pred' hd_drop_conv_nth less_eq_Suc_le list.sel(1))
    ultimately have "val (take nw d') = be_nat inp + BB ^ (nw - 1) * unat w'" using IH(1,3) nw 1(6) by (simp add: val_append)
    also have "BB ^ (nw - 1) = 256 ^ length inp" using len True by (simp add: BB_256 power_mult)
    finally show ?thesis unfolding run using IH(1) drop w' by (simp add: be_nat_Cons algebra_simps)
  next
    case False
    have run: "bin2bn_loop (b # inp) word m nw d = bin2bn_loop inp w' (m - 1) nw d" using False by (simp add: w'_def Let_def)
    have ne: "inp \<noteq> []" using len False by auto
    have "unat w' < 256 ^ (8 - m)" using w' lim(1) unat_byte_lt [of b] by linarith
    also have "8 - m = 7 - (m - 1)" using False by simp
    finally have "unat w' < 256 ^ (7 - (m - 1))" .
    then have "length (bin2bn_loop inp w' (m - 1) nw d) = length d \<and> drop nw (bin2bn_loop inp w' (m - 1) nw d) = drop nw d \<and>
        val (take nw (bin2bn_loop inp w' (m - 1) nw d)) = unat w' * 256 ^ length inp + be_nat inp"
      unfolding w'_def using False ne len nw 1(6,8) by (intro 1(2)) auto
    then show ?thesis unfolding run using w' by (simp add: be_nat_Cons algebra_simps)
  qed
qed simp

lemma BN_bin2bn_spec:
  assumes "word_mem_ok m" "bn_ok ret" "BN_bin2bn m inp ret = (s, r)"
  shows "s \<longleftrightarrow> inp = [] \<or> can_grow m ret ((length inp - 1) div 8 + 1)" "bn_ok r" "s \<Longrightarrow> bn_abs r = be_nat inp"
    "s \<Longrightarrow> inp \<noteq> [] \<Longrightarrow> \<not> bn_neg r" "inp = [] \<Longrightarrow> bn_neg r = bn_neg ret"
proof -
  have "(s \<longleftrightarrow> inp = [] \<or> can_grow m ret ((length inp - 1) div 8 + 1)) \<and> bn_ok r \<and> (s \<longrightarrow> bn_abs r = be_nat inp) \<and>
    (s \<longrightarrow> inp \<noteq> [] \<longrightarrow> \<not> bn_neg r) \<and> (inp = [] \<longrightarrow> bn_neg r = bn_neg ret)"
  proof (cases "inp = []")
    case True
    with assms(2,3) show ?thesis by (auto simp: BN_bin2bn_def bn_ok_def bn_abs_def words_def)
  next
    case False
    let ?n = "(length inp - 1) div 8 + 1" and ?m = "(length inp - 1) mod 8"
    obtain e r1 where w: "bn_wexpand m ret ?n = (e, r1)" by fastforce
    note w' = bn_wexpand_spec [OF assms(1,2) w]
    define d where "d = bin2bn_loop inp 0 ?m ?n (bn_d r1)"
    have run: "(s, r) = (if e then (True, r1\<lparr>bn_width := ?n, bn_neg := False, bn_d := d\<rparr>) else (False, r1))"
      unfolding assms(3) [symmetric] BN_bin2bn_def if_not_P [OF False] Let_def w prod.case d_def by (cases e) simp_all
    have l: "length inp = 8 * (?n - 1) + ?m + 1" using False by (cases inp) simp_all
    show ?thesis
    proof (cases e)
      case True
      have "length d = length (bn_d r1) \<and> drop ?n d = drop ?n (bn_d r1) \<and> val (take ?n d) = unat (0 :: ulong) * 256 ^ length inp + be_nat inp"
        unfolding d_def using l False w'(7) [OF True] by (intro bin2bn_loop_spec) simp_all
      with True run w' False show ?thesis by (auto simp: bn_ok_def bn_abs_def words_def)
    next
      case e: False
      with run w' False show ?thesis by simp
    qed
  qed
  then show "s \<longleftrightarrow> inp = [] \<or> can_grow m ret ((length inp - 1) div 8 + 1)" "bn_ok r" "s \<Longrightarrow> bn_abs r = be_nat inp"
    "s \<Longrightarrow> inp \<noteq> [] \<Longrightarrow> \<not> bn_neg r" "inp = [] \<Longrightarrow> bn_neg r = bn_neg ret" by auto
qed

lemma gather_bytes:
  "length bs \<le> 8 \<Longrightarrow> unat (foldr (\<lambda>b w. ucast b OR push_bit 8 w) bs (0 :: ulong)) = be_nat (rev bs)"
proof (induction bs)
  case (Cons b bs)
  define w :: ulong where "w = foldr (\<lambda>b w. ucast b OR push_bit 8 w) bs 0"
  have "be_nat (rev bs) < 256 ^ length bs" using be_nat_bound [of "rev bs"] by simp
  also have "(256 :: nat) ^ length bs \<le> 256 ^ 7" using Cons.prems by (intro power_increasing) simp_all
  finally have "unat w * 256 < BB" using Cons unfolding w_def BB_def by simp
  from shift_in_byte [OF this, of b] Cons show ?case by (simp add: w_def or.commute)
qed simp

lemma words_of_val: "length bs = 8 * n \<Longrightarrow> length (words_of n bs) = n \<and> val (words_of n bs) = be_nat (rev bs)"
proof (induction n bs rule: words_of.induct)
  case (2 n bs)
  have "unat (foldr (\<lambda>b w. ucast b OR push_bit 8 w) (take 8 bs) (0 :: ulong)) = be_nat (rev (take 8 bs))" by (intro gather_bytes) simp
  moreover have "be_nat (rev bs) = be_nat (rev (drop 8 bs) @ rev (take 8 bs))" by (simp flip: rev_append)
  moreover have "length (take 8 bs) = 8" using 2(2) by simp
  ultimately show ?case using 2 by (simp add: be_nat_append BB_256)
qed simp

lemma BN_le2bn_spec:
  assumes "word_mem_ok m" "bn_ok ret" "BN_le2bn m inp ret = (s, r)"
  shows "s \<longleftrightarrow> inp = [] \<or> can_grow m ret ((length inp - 1) div 8 + 1)" "bn_ok r" "s \<Longrightarrow> bn_abs r = be_nat (rev inp)"
    "inp \<noteq> [] \<Longrightarrow> bn_neg r = bn_neg ret"
proof -
  have "(s \<longleftrightarrow> inp = [] \<or> can_grow m ret ((length inp - 1) div 8 + 1)) \<and> bn_ok r \<and> (s \<longrightarrow> bn_abs r = be_nat (rev inp)) \<and>
    (inp \<noteq> [] \<longrightarrow> bn_neg r = bn_neg ret)"
  proof (cases "inp = []")
    case True
    with assms(2,3) show ?thesis by (auto simp: BN_le2bn_def bn_ok_def bn_abs_def words_def)
  next
    case False
    let ?n = "(length inp - 1) div 8 + 1"
    obtain e r1 where w: "bn_wexpand m ret ?n = (e, r1)" by fastforce
    note w' = bn_wexpand_spec [OF assms(1,2) w]
    define xs where "xs = words_of ?n (inp @ replicate (8 * ?n - length inp) 0)"
    have run: "(s, r) = (if e then (True, r1\<lparr>bn_width := ?n, bn_d := xs @ drop ?n (bn_d r1)\<rparr>) else (False, r1))"
      unfolding assms(3) [symmetric] BN_le2bn_def if_not_P [OF False] Let_def w prod.case xs_def by (cases e) simp_all
    have "Suc l \<le> 8 * (l div 8 + 1)" for l :: nat
      using dividend_less_times_div [of 8 l] by simp
    from this [of "length inp - 1"] False have "length inp \<le> 8 * ?n" by (simp only: Suc_diff_1 length_greater_0_conv)
    then have "length xs = ?n" "val xs = be_nat (rev inp)"
      using words_of_val [of "inp @ replicate (8 * ?n - length inp) 0" ?n]
      by (simp_all add: xs_def be_nat_append be_nat_eq_0 del: replicate_Suc mult_Suc_right)
    with run w' False show ?thesis by (cases e) (simp_all add: bn_ok_def bn_abs_def words_def)
  qed
  then show "s \<longleftrightarrow> inp = [] \<or> can_grow m ret ((length inp - 1) div 8 + 1)" "bn_ok r" "s \<Longrightarrow> bn_abs r = be_nat (rev inp)"
    "inp \<noteq> [] \<Longrightarrow> bn_neg r = bn_neg ret" by auto
qed

lemma BN_le2bn_sign:
  assumes "word_mem_ok m" "bn_ok ret" "BN_le2bn m inp ret = (s, r)"
  shows "bn_neg r \<longleftrightarrow> inp \<noteq> [] \<and> bn_neg ret"
proof (cases "inp = []")
  case True
  with assms(3) show ?thesis by (auto simp: BN_le2bn_def)
next
  case False
  with BN_le2bn_spec(4) [OF assms] show ?thesis by simp
qed

section \<open>The number of bits\<close>

definition bits_inv :: "ulong \<Rightarrow> nat \<Rightarrow> ulong \<times> ulong \<Rightarrow> bool" where
  "bits_inv l0 k = (\<lambda>(b, l). unat l < 2 ^ k \<and>
     (if l0 = 0 then b = 0 \<and> l = 0 else 1 \<le> unat b \<and> unat b \<le> 65 - k \<and> l \<noteq> 0 \<and> unat l = unat l0 div 2 ^ (unat b - 1)))"

lemma sign_of_negation:
  assumes "unat (x :: ulong) < 2 ^ 63"
  shows "0 - drop_bit 63 (0 - x) = (if x = 0 then 0 else - 1)"
proof (cases "x = 0")
  case False
  then have "unat (0 - x) = 2 ^ 64 - unat x" using unat_sub_if_size [of 0 x] by (simp add: word_size unat_eq_zero)
  moreover have "0 < unat x" using False by (simp add: unat_gt_0)
  ultimately have "unat (drop_bit 63 (0 - x)) = 1"
    using assms div_nat_eqI [of 1 "2 ^ 63" "2 ^ 64 - unat x"] by (simp add: unat_drop_bit_div)
  then have "drop_bit 63 (0 - x) = 1" by (metis unat_1 word_unat_eq_iff)
  with False show ?thesis by simp
qed simp

lemma num_bits_step_inv:
  assumes "bits_inv l0 (2 * k) s" "1 \<le> k" "k \<le> 32"
  shows "bits_inv l0 k (num_bits_step k s)"
proof -
  obtain b l where s: "s = (b, l)" by fastforce
  define x where "x = drop_bit k l"
  have xv: "unat x = unat l div 2 ^ k" by (simp add: x_def unat_drop_bit_div)
  have "unat l < 2 ^ k * 2 ^ k" using assms(1) s by (simp add: bits_inv_def mult_2 power_add)
  then have xk: "unat x < 2 ^ k" unfolding xv by (simp add: less_mult_imp_div_less)
  also have "(2 :: nat) ^ k \<le> 2 ^ 63" using assms(3) by (intro power_increasing) simp_all
  finally have m: "0 - drop_bit 63 (0 - x) = (if x = 0 then 0 else - 1)" by (rule sign_of_negation)
  have step: "num_bits_step k s = (if x = 0 then (b, l) else (b + word_of_nat k, x))"
    unfolding num_bits_step_def s prod.case Let_def x_def [symmetric] m by (simp add: xor.left_commute [of l] xor.commute [of x])
  show ?thesis
  proof (cases "x = 0")
    case True
    then have "unat l < 2 ^ k" using xv by (metis div_eq_0_iff power_not_zero unat_0 zero_neq_numeral)
    with True assms(1) s have "bits_inv l0 k (b, l)" by (auto simp: bits_inv_def split: if_splits)
    with True step show ?thesis by simp
  next
    case False
    have l0: "l0 \<noteq> 0" using False assms(1) s by (auto simp: bits_inv_def x_def)
    with assms(1) s have b: "1 \<le> unat b" "unat b \<le> 65 - 2 * k" "unat l = unat l0 div 2 ^ (unat b - 1)" by (simp_all add: bits_inv_def)
    have kk: "unat (word_of_nat k :: ulong) = k" using assms(3) by (simp add: unsigned_of_nat take_bit_eq_mod)
    have "unat b + k < 2 ^ 64" using b(2) assms(3) by simp
    then have "unat (b + word_of_nat k) = unat b + k" using unat_add_lem [of b "word_of_nat k"] unfolding kk by simp
    moreover have "unat x = unat l0 div 2 ^ (unat b + k - 1)"
    proof -
      have "unat b - 1 + k = unat b + k - 1" using b(1) by simp
      then show ?thesis unfolding xv b(3) by (simp add: div_mult2_eq [symmetric] power_add [symmetric])
    qed
    ultimately show ?thesis using False l0 b xk assms(2,3) unfolding step by (simp add: bits_inv_def)
  qed
qed

lemma num_bits_steps_inv:
  assumes "bits_inv l 64 s"
  shows "bits_inv l 1 (num_bits_step 1 (num_bits_step 2 (num_bits_step 4 (num_bits_step 8 (num_bits_step 16 (num_bits_step 32 s))))))"
proof -
  have "bits_inv l (2 * 32) s" using assms by simp
  from num_bits_step_inv [OF this] have "bits_inv l (2 * 16) (num_bits_step 32 s)" by simp
  from num_bits_step_inv [OF this] have "bits_inv l (2 * 8) (num_bits_step 16 (num_bits_step 32 s))" by simp
  from num_bits_step_inv [OF this] have "bits_inv l (2 * 4) (num_bits_step 8 (num_bits_step 16 (num_bits_step 32 s)))" by simp
  from num_bits_step_inv [OF this]
  have "bits_inv l (2 * 2) (num_bits_step 4 (num_bits_step 8 (num_bits_step 16 (num_bits_step 32 s))))" by simp
  from num_bits_step_inv [OF this]
  have "bits_inv l (2 * 1) (num_bits_step 2 (num_bits_step 4 (num_bits_step 8 (num_bits_step 16 (num_bits_step 32 s)))))" by simp
  from num_bits_step_inv [OF this] show ?thesis by simp
qed

lemma BN_num_bits_word_spec:
  "unat l < 2 ^ BN_num_bits_word l" "l \<noteq> 0 \<Longrightarrow> 2 ^ (BN_num_bits_word l - 1) \<le> unat l" "l \<noteq> 0 \<longleftrightarrow> 0 < BN_num_bits_word l"
    "BN_num_bits_word l \<le> 64"
proof -
  define s where "s = num_bits_step 1 (num_bits_step 2 (num_bits_step 4 (num_bits_step 8
       (num_bits_step 16 (num_bits_step 32 (if l \<noteq> 0 then 1 else 0, l))))))"
  have "bits_inv l 64 (if l \<noteq> 0 then 1 else 0, l)" using ulong_lt [of l] by (simp add: bits_inv_def BB_def)
  then have "bits_inv l 1 s" unfolding s_def by (rule num_bits_steps_inv)
  moreover obtain b x where s: "s = (b, x)" by fastforce
  ultimately have i: "unat x < 2" "l = 0 \<Longrightarrow> b = 0"
    "l \<noteq> 0 \<Longrightarrow> 1 \<le> unat b \<and> unat b \<le> 64 \<and> x \<noteq> 0 \<and> unat x = unat l div 2 ^ (unat b - 1)"
    by (simp_all add: bits_inv_def split: if_splits)
  have n: "BN_num_bits_word l = unat b" unfolding BN_num_bits_word_def s_def [symmetric] s by simp
  have "unat l < 2 ^ unat b \<and> (l \<noteq> 0 \<longrightarrow> 2 ^ (unat b - 1) \<le> unat l)"
  proof (cases "l = 0")
    case False
    with i(3) have "x \<noteq> 0" by blast
    then have "unat x \<noteq> 0" by (simp only: unat_eq_zero not_False_eq_True)
    then have one: "unat l div 2 ^ (unat b - 1) = 1" using i(1) i(3) [OF False] by simp
    obtain j where j: "unat b = Suc j" using i(3) [OF False] by (cases "unat b") auto
    define P :: nat where "P = 2 ^ j"
    have "unat l div P * P + unat l mod P = unat l" by (rule div_mult_mod_eq)
    moreover have "unat l mod P < P" by (simp add: P_def)
    moreover have "unat l div P = 1" using one by (simp add: j P_def)
    ultimately have "P \<le> unat l" "unat l < 2 * P" by simp_all
    then show ?thesis by (simp add: j P_def)
  qed (use i(2) in simp)
  then show "unat l < 2 ^ BN_num_bits_word l" "l \<noteq> 0 \<Longrightarrow> 2 ^ (BN_num_bits_word l - 1) \<le> unat l" by (simp_all add: n)
  have "(l \<noteq> 0 \<longleftrightarrow> 0 < BN_num_bits_word l) \<and> BN_num_bits_word l \<le> 64"
  proof -
    have "l \<noteq> 0 \<Longrightarrow> 1 \<le> unat b \<and> unat b \<le> 64" using i(3) by blast
    moreover have "l = 0 \<Longrightarrow> unat b = 0" using i(2) by simp
    ultimately show ?thesis unfolding n by (cases "l = 0") simp_all
  qed
  then show "l \<noteq> 0 \<longleftrightarrow> 0 < BN_num_bits_word l" "BN_num_bits_word l \<le> 64" by simp_all
qed

lemma BN_num_bits_spec:
  assumes "bn_ok bn"
  shows "bn_abs bn < 2 ^ BN_num_bits bn" "bn_abs bn \<noteq> 0 \<Longrightarrow> 2 ^ (BN_num_bits bn - 1) \<le> bn_abs bn"
    "bn_abs bn = 0 \<longleftrightarrow> BN_num_bits bn = 0"
proof -
  note mw = bn_minimal_width_spec [OF assms]
  let ?w = "bn_minimal_width bn"
  have "bn_abs bn < 2 ^ BN_num_bits bn \<and> (bn_abs bn \<noteq> 0 \<longrightarrow> 2 ^ (BN_num_bits bn - 1) \<le> bn_abs bn) \<and> (bn_abs bn = 0 \<longleftrightarrow> BN_num_bits bn = 0)"
  proof (cases "?w = 0")
    case True
    with mw(4) show ?thesis by (simp add: BN_num_bits_def)
  next
    case False
    define t where "t = bn_d bn ! (?w - 1)"
    define n where "n = BN_num_bits_word t"
    have t: "t \<noteq> 0" using mw(3) False by (simp add: t_def)
    note nb = BN_num_bits_word_spec [of t, folded n_def]
    have n: "BN_num_bits bn = (?w - 1) * 64 + n" "0 < n" using False nb(3) t by (simp_all add: BN_num_bits_def Let_def t_def n_def)
    have B: "2 ^ ((?w - 1) * 64) = BB ^ (?w - 1)" unfolding BB_def power_mult [symmetric] by (simp only: mult.commute)
    have lo: "val (take (?w - 1) (bn_d bn)) < BB ^ (?w - 1)" using val_lt [of "take (?w - 1) (bn_d bn)"] mw(1) assms by (simp add: bn_ok_def)
    have "take ?w (bn_d bn) = take (?w - 1) (bn_d bn) @ [t]" unfolding t_def using False mw(1) assms
    proof -
      have "?w - 1 < length (bn_d bn)" "Suc (?w - 1) = ?w" using False mw(1) assms unfolding bn_ok_def by linarith+
      then show "take ?w (bn_d bn) = take (?w - 1) (bn_d bn) @ [bn_d bn ! (?w - 1)]" using take_Suc_conv_app_nth [of "?w - 1" "bn_d bn"] by simp
    qed
    then have v: "bn_abs bn = val (take (?w - 1) (bn_d bn)) + BB ^ (?w - 1) * unat t"
      using mw(1,2) assms by (simp add: val_append bn_ok_def)
    have "bn_abs bn < BB ^ (?w - 1) * (unat t + 1)" unfolding v using lo by simp
    also have "\<dots> \<le> BB ^ (?w - 1) * 2 ^ n" using nb(1) by (intro mult_left_mono) simp_all
    finally have up: "bn_abs bn < BB ^ (?w - 1) * 2 ^ n" .
    have "BB ^ (?w - 1) * 2 ^ (n - 1) \<le> BB ^ (?w - 1) * unat t" using nb(2) t by (intro mult_left_mono) simp_all
    then have dn: "BB ^ (?w - 1) * 2 ^ (n - 1) \<le> bn_abs bn" unfolding v by (rule trans_le_add2)
    have e: "BN_num_bits bn - 1 = (?w - 1) * 64 + (n - 1)" using n by simp
    have "2 ^ BN_num_bits bn = BB ^ (?w - 1) * 2 ^ n" "2 ^ (BN_num_bits bn - 1) = BB ^ (?w - 1) * 2 ^ (n - 1)"
      unfolding e unfolding n(1) by (simp_all only: power_add B)
    moreover have "bn_abs bn \<noteq> 0" "BN_num_bits bn \<noteq> 0" using mw(4) False n by simp_all
    ultimately show ?thesis using up dn by metis
  qed
  then show "bn_abs bn < 2 ^ BN_num_bits bn" "bn_abs bn \<noteq> 0 \<Longrightarrow> 2 ^ (BN_num_bits bn - 1) \<le> bn_abs bn"
    "bn_abs bn = 0 \<longleftrightarrow> BN_num_bits bn = 0" by auto
qed

section \<open>Minimal output\<close>

lemma digit_of_word:
  assumes "r < 8"
  shows "V div 256 ^ r mod 256 = V mod BB div 256 ^ r mod (256 :: nat)"
proof -
  have "(256 :: nat) ^ 8 = 256 ^ r * (256 * 256 ^ (7 - r))" using assms by (simp flip: power_Suc power_add)
  then have "V = 256 ^ r * (256 * 256 ^ (7 - r)) * (V div BB) + V mod BB" unfolding BB_256 by (metis mult_div_mod_eq)
  then have "V div 256 ^ r = (V mod BB + 256 ^ r * (256 * 256 ^ (7 - r) * (V div BB))) div 256 ^ r"
    by (simp only: mult.assoc add.commute)
  also have "\<dots> = 256 * (256 ^ (7 - r) * (V div BB)) + V mod BB div 256 ^ r" by (simp add: mult.assoc)
  finally show ?thesis by (simp only: mod_mult_self4)
qed

lemma BN_num_bytes_spec:
  assumes "bn_ok bn"
  shows "bn_abs bn < 256 ^ BN_num_bytes bn" "bn_abs bn \<noteq> 0 \<Longrightarrow> 256 ^ (BN_num_bytes bn - 1) \<le> bn_abs bn"
    "bn_abs bn = 0 \<longleftrightarrow> BN_num_bytes bn = 0" "BN_num_bytes bn \<le> 8 * bn_width bn"
proof -
  let ?n = "BN_num_bytes bn" and ?b = "BN_num_bits bn"
  note nb = BN_num_bits_spec [OF assms]
  have P: "(256 :: nat) ^ k = 2 ^ (8 * k)" for k by (simp add: power_mult)
  have "?b + 7 < 8 + 8 * ?n" "8 * ?n \<le> ?b + 7"
    using dividend_less_times_div [of 8 "?b + 7"] div_times_less_eq_dividend [of "?b + 7" 8] unfolding BN_num_bytes_def by simp_all
  then have n: "?b \<le> 8 * ?n" "8 * (?n - 1) \<le> ?b - 1" "?n = 0 \<longleftrightarrow> ?b = 0" by auto
  have "(2 :: nat) ^ ?b \<le> 2 ^ (8 * ?n)" using n(1) by (intro power_increasing) simp_all
  with nb(1) show "bn_abs bn < 256 ^ ?n" unfolding P by (rule less_le_trans)
  have "(2 :: nat) ^ (8 * (?n - 1)) \<le> 2 ^ (?b - 1)" using n(2) by (intro power_increasing) simp_all
  with nb(2) show "bn_abs bn \<noteq> 0 \<Longrightarrow> 256 ^ (?n - 1) \<le> bn_abs bn" unfolding P by (meson le_trans)
  show "bn_abs bn = 0 \<longleftrightarrow> ?n = 0" using nb(3) n(3) by simp
  have "?b \<le> 64 * bn_width bn"
  proof (cases "bn_minimal_width bn")
    case (Suc w)
    then show ?thesis using bn_minimal_width_spec(1) [OF assms] BN_num_bits_word_spec(4) [of "bn_d bn ! w"]
      by (simp add: BN_num_bits_def)
  qed (simp add: BN_num_bits_def)
  then show "?n \<le> 8 * bn_width bn" unfolding BN_num_bytes_def by linarith
qed

lemma bn2bin_bytes:
  assumes "bn_ok bn"
  shows "BN_bn2bin bn = be_bytes (BN_num_bytes bn) (bn_abs bn)"
proof -
  let ?n = "BN_num_bytes bn"
  define f :: "nat \<Rightarrow> byte" where "f i = ucast (drop_bit (8 * (i mod 8)) (bn_d bn ! (i div 8)))" for i
  note nb = BN_num_bytes_spec [OF assms]
  have "unat (f i) = bn_abs bn div 256 ^ i mod 256" if "i < ?n" for i
  proof -
    have j: "i div 8 < bn_width bn" using that nb(4) by linarith
    then have w: "unat (bn_d bn ! (i div 8)) = bn_abs bn div BB ^ (i div 8) mod BB"
      using val_div_mod_digit [of "i div 8" "words bn"] assms by (simp add: bn_abs_def nth_words)
    have P: "(2 :: nat) ^ (8 * (i mod 8)) = 256 ^ (i mod 8)" by (simp add: power_mult)
    have "unat (f i) = unat (bn_d bn ! (i div 8)) div 256 ^ (i mod 8) mod 256"
      by (simp add: f_def unsigned_ucast_eq take_bit_eq_mod unat_drop_bit_div P)
    also have "\<dots> = bn_abs bn div BB ^ (i div 8) div 256 ^ (i mod 8) mod 256"
      unfolding w by (rule digit_of_word [symmetric]) simp
    also have "bn_abs bn div BB ^ (i div 8) div 256 ^ (i mod 8) = bn_abs bn div 256 ^ (8 * (i div 8) + i mod 8)"
      by (simp only: BB_256 power_add power_mult div_mult2_eq)
    finally show ?thesis by simp
  qed
  then have "be_nat (rev (map f [0..<?n])) = bn_abs bn mod 256 ^ ?n" by (rule be_nat_digits)
  with nb(1) have "be_nat (rev (map f [0..<?n])) = bn_abs bn" by simp
  then have "rev (map f [0..<?n]) = be_bytes ?n (bn_abs bn)" using be_bytes_be_nat [of "rev (map f [0..<?n])"] by simp
  then show ?thesis unfolding BN_bn2bin_def rev_map [symmetric] f_def .
qed

lemma be_nat_stripped: "be_nat (dropWhile (\<lambda>b. b = 0) bs) = be_nat bs"
  by (induction bs) (simp_all add: be_nat_Cons)

lemma be_nat_leading: "bs \<noteq> [] \<Longrightarrow> hd bs \<noteq> 0 \<Longrightarrow> 256 ^ (length bs - 1) \<le> be_nat bs"
  by (cases bs) (auto simp: be_nat_Cons Suc_le_eq unat_gt_0 intro: trans_le_add1)

lemma bytes_minimal:
  assumes "v < 256 ^ n" "v \<noteq> 0 \<Longrightarrow> 256 ^ (n - 1) \<le> v" "v = 0 \<longleftrightarrow> n = 0" "be_nat bs = v"
  shows "be_bytes n v = dropWhile (\<lambda>b. b = 0) bs"
proof -
  define ys where "ys = dropWhile (\<lambda>b. b = 0) bs"
  have ys: "be_nat ys = v" using assms(4) by (simp add: ys_def be_nat_stripped)
  have "length ys = n"
  proof (cases "v = 0")
    case True
    then have "ys = []" using assms(4) by (simp add: ys_def be_nat_eq_0)
    with True assms(3) show ?thesis by simp
  next
    case False
    have ne: "ys \<noteq> []" using False ys by auto
    then have "hd ys \<noteq> 0" unfolding ys_def using hd_dropWhile [of "\<lambda>b. b = 0" bs] by simp
    with ne have "256 ^ (length ys - 1) \<le> v" "v < 256 ^ length ys" using be_nat_leading [of ys] be_nat_bound [of ys] unfolding ys by blast+
    then have "(256 :: nat) ^ (length ys - 1) < 256 ^ n" "(256 :: nat) ^ (n - 1) < 256 ^ length ys"
      using le_less_trans [OF _ assms(1)] le_less_trans [OF assms(2) [OF False]] by blast+
    then have "length ys - 1 < n" "n - 1 < length ys"
      using power_less_imp_less_exp [of "256 :: nat" "length ys - 1" n] power_less_imp_less_exp [of "256 :: nat" "n - 1" "length ys"]
      by simp_all
    moreover have "n \<noteq> 0" "length ys \<noteq> 0" using ne assms(3) False by auto
    ultimately show ?thesis by linarith
  qed
  then show ?thesis using be_bytes_be_nat [of ys] ys by (simp add: ys_def)
qed

text \<open>C38: Bytes survive the way through a big number. Let the number that is overwritten not be negative, where its
  sign would survive (\<open>BN_bin2bn\<close> with no bytes, \<open>BN_le2bn\<close> with some). Then \<open>BN_bin2bn\<close> of the bytes and
  \<open>BN_le2bn\<close> of the reversed bytes are the number the bytes are the digits of, and compare equal with
  \<open>BN_cmp\<close>; \<open>BN_bn2bin_padded\<close> and \<open>BN_bn2le_padded\<close> write it back as the same bytes to the same
  length, \<open>BN_bn2bin\<close> without the leading zeros.\<close>

theorem bytes_survive_big_numbers:
  assumes "word_mem_ok m" "bn_ok ret" "bn_ok ret2" "BN_bin2bn m inp ret = (True, r)" "BN_le2bn m (rev inp) ret2 = (True, r2)"
    and "inp = [] \<Longrightarrow> \<not> bn_neg ret" "inp \<noteq> [] \<Longrightarrow> \<not> bn_neg ret2"
  shows "bn_int r = int (be_nat inp) \<and> bn_int r2 = int (be_nat inp) \<and> BN_cmp (Some r) (Some r2) = 0 \<and>
    BN_bn2bin_padded (length inp) r = Some inp \<and> BN_bn2le_padded (length inp) r = Some (rev inp) \<and>
    BN_bn2bin r = dropWhile (\<lambda>b. b = 0) inp"
proof -
  have r: "bn_ok r" "bn_abs r = be_nat inp" "\<not> bn_neg r"
    using BN_bin2bn_spec [OF assms(1,2,4)] assms(6) by auto
  have r2: "bn_abs r2 = be_nat inp" "\<not> bn_neg r2"
    using BN_le2bn_spec(3) [OF assms(1,3,5)] BN_le2bn_sign [OF assms(1,3,5)] assms(7) by auto
  have "BN_bn2bin_padded (length inp) r = Some inp" "BN_bn2le_padded (length inp) r = Some (rev inp)"
    using be_nat_bound [of inp] by (simp_all add: bin_padded_bytes [OF r(1)] le_padded_bytes [OF r(1)] r(2) be_bytes_be_nat)
  moreover have "BN_bn2bin r = dropWhile (\<lambda>b. b = 0) inp"
    unfolding bn2bin_bytes [OF r(1)] by (intro bytes_minimal BN_num_bytes_spec [OF r(1)]) (simp_all add: r(2))
  moreover have "BN_cmp (Some r) (Some r2) = 0" using r r2 by (simp add: BN_cmp_def BN_ucmp_spec)
  ultimately show ?thesis using r r2 by (simp add: bn_int_def)
qed

theorem bytes_survive_big_numbers_witness:
  "\<exists>r. BN_bin2bn (\<lambda>n. Some (replicate (n div 8) 0)) [0, 0, 1, 2, 3, 4, 5, 6, 7, 8, 9] BN_init = (True, r) \<and>
     BN_bn2bin_padded 11 r = Some [0, 0, 1, 2, 3, 4, 5, 6, 7, 8, 9] \<and> BN_bn2bin r = [1, 2, 3, 4, 5, 6, 7, 8, 9]"
proof -
  define m :: word_mem where "m = (\<lambda>n. Some (replicate (n div 8) 0))"
  define inp :: bytes where "inp = [0, 0, 1, 2, 3, 4, 5, 6, 7, 8, 9]"
  have m: "word_mem_ok m" by (simp add: m_def word_mem_ok_def)
  have ok: "bn_ok BN_init" by (simp add: BN_init_def bn_ok_def)
  have "can_grow m BN_init ((length inp - 1) div 8 + 1)" "length (rev inp) = length inp"
    by (simp_all add: can_grow_def m_def inp_def BN_init_def MAX_WORDS_def)
  then have "fst (BN_bin2bn m inp BN_init)" "fst (BN_le2bn m (rev inp) BN_init)"
    using BN_bin2bn_spec(1) [OF m ok, of inp] BN_le2bn_spec(1) [OF m ok, of "rev inp"] by (metis prod.collapse)+
  then obtain r r2 where r: "BN_bin2bn m inp BN_init = (True, r)" "BN_le2bn m (rev inp) BN_init = (True, r2)"
    by (metis prod.collapse)
  have pos: "\<not> bn_neg BN_init" by (simp add: BN_init_def)
  from bytes_survive_big_numbers [OF m ok ok r pos pos]
  have "BN_bn2bin_padded (length inp) r = Some inp" "BN_bn2bin r = dropWhile (\<lambda>b. b = 0) inp" by blast+
  moreover have "length inp = 11" "dropWhile (\<lambda>b. b = 0) inp = [1, 2, 3, 4, 5, 6, 7, 8, 9]" by (simp_all add: inp_def)
  ultimately have "BN_bn2bin_padded 11 r = Some inp" "BN_bn2bin r = [1, 2, 3, 4, 5, 6, 7, 8, 9]" by simp_all
  with r(1) show ?thesis unfolding m_def inp_def by blast
qed

text \<open>C39: The sign of the number a conversion overwrites can survive it. On no input \<open>BN_bin2bn\<close> leaves a negative zero, which
  \<open>BN_cmp\<close> puts below zero; on any other input \<open>BN_le2bn\<close> leaves the negated number.\<close>

theorem reading_bytes_keeps_an_old_sign:
  "BN_cmp (Some (snd (BN_bin2bn (\<lambda>_. None) [] \<lparr>bn_d = [7], bn_width = 1, bn_neg = True, bn_static = False\<rparr>))) (Some BN_init) = - 1 \<and>
   BN_is_zero (snd (BN_bin2bn (\<lambda>_. None) [] \<lparr>bn_d = [7], bn_width = 1, bn_neg = True, bn_static = False\<rparr>)) \<and>
   bn_int (snd (BN_le2bn (\<lambda>_. None) [5] \<lparr>bn_d = [7], bn_width = 1, bn_neg = True, bn_static = False\<rparr>)) = - 5"
proof -
  define m :: word_mem where "m = (\<lambda>_. None)"
  define ret where "ret = \<lparr>bn_d = [7 :: ulong], bn_width = 1, bn_neg = True, bn_static = False\<rparr>"
  have m: "word_mem_ok m" and ok: "bn_ok ret" by (simp_all add: m_def word_mem_ok_def ret_def bn_ok_def)
  have "BN_cmp (Some (snd (BN_bin2bn m [] ret))) (Some BN_init) = - 1"
    by (simp add: BN_bin2bn_def ret_def BN_cmp_def BN_init_def)
  moreover have "BN_is_zero (snd (BN_bin2bn m [] ret))" by (simp add: BN_bin2bn_def ret_def bn_abs_def words_def)
  moreover have "bn_int (snd (BN_le2bn m [5] ret)) = - 5"
  proof -
    obtain s r where r: "BN_le2bn m [5] ret = (s, r)" by fastforce
    have "can_grow m ret 1" "bn_neg ret" by (simp_all add: ret_def can_grow_def)
    with BN_le2bn_spec [OF m ok r] have "bn_abs r = be_nat [5]" "bn_neg r" by simp_all
    then show ?thesis by (simp add: r bn_int_def be_nat_Cons)
  qed
  ultimately show ?thesis by (simp add: ret_def m_def)
qed

end
