(* ===== verification/Codec.thy ===== *)
theory Codec
  imports Prelude
begin

text \<open>
  The interfaces the serialisation components are proved against. A \<open>reader\<close> consumes a prefix
  of its input, whatever it returns; a \<open>codec\<close> pairs a writer (what is appended to the output)
  with a reader that gives the written value back and leaves the rest of the input; a
  \<open>strict_codec\<close> accepts nothing but what its writer produces, so that encodings are unique.
  The integer, ASN.1, UTF-8 and protobuf readers and writers are interpretations of them.
\<close>

definition is_suffix :: "bytes \<Rightarrow> bytes \<Rightarrow> bool" where
  "is_suffix s t \<longleftrightarrow> (\<exists>p. s = p @ t)"

lemma is_suffix_refl [simp, intro]: "is_suffix s s"
  by (simp add: is_suffix_def)

lemma is_suffix_trans: "is_suffix a b \<Longrightarrow> is_suffix b c \<Longrightarrow> is_suffix a c"
  by (auto simp: is_suffix_def)

lemma is_suffix_drop [simp, intro]: "is_suffix s (drop n s)"
  unfolding is_suffix_def by (metis append_take_drop_id)

lemma is_suffix_tl [simp, intro]: "is_suffix (x # s) s"
  by (auto simp: is_suffix_def)

lemma is_suffix_Cons: "is_suffix s t \<Longrightarrow> is_suffix (x # s) t"
  by (auto simp: is_suffix_def)

lemma is_suffix_length: "is_suffix s t \<Longrightarrow> length t \<le> length s"
  by (auto simp: is_suffix_def)

lemma is_suffix_take:
  assumes "is_suffix s t"
  shows "s = take (length s - length t) s @ t"
  using assms by (auto simp: is_suffix_def)

abbreviation reads :: "(bytes, 'a) cop \<Rightarrow> bool" where
  "reads \<equiv> c_preserves is_suffix"

lemma reads_ret [intro]: "reads (c_ret x)"
  by (auto intro!: c_preservesI)

lemma reads_fail [intro]: "reads c_fail"
  by (auto intro!: c_preservesI)

lemma reads_guard [intro]: "reads (c_guard b)"
  by (cases b) auto

lemma reads_bind: "reads m \<Longrightarrow> (\<And>x. reads (f x)) \<Longrightarrow> reads (c_bind m f)"
  by (rule c_preserves_bind) (auto intro: is_suffix_trans)

lemma reads_seq: "reads m \<Longrightarrow> reads n \<Longrightarrow> reads (c_seq m n)"
  unfolding c_seq_def by (rule reads_bind)

lemmas reads_intros = reads_ret reads_fail reads_guard reads_bind reads_seq

locale reader =
  fixes rd :: "(bytes, 'a) cop"
  assumes reads_rd: "reads rd"
begin

lemma consumed: "rd s = (r, t) \<Longrightarrow> s = take (length s - length t) s @ t"
  by (rule is_suffix_take) (rule c_preservesD [OF reads_rd])

lemma never_grows: "rd s = (r, t) \<Longrightarrow> length t \<le> length s"
  by (rule is_suffix_length) (rule c_preservesD [OF reads_rd])

lemma on_empty: "rd [] = (r, t) \<Longrightarrow> t = []"
  using never_grows by fastforce

end

locale codec =
  fixes enc :: "'a \<Rightarrow> bytes" and dec :: "(bytes, 'a) cop" and valid :: "'a \<Rightarrow> bool"
  assumes dec_enc: "valid x \<Longrightarrow> dec (enc x @ rest) = (Some x, rest)"
begin

lemma enc_prefix_free:
  assumes "valid x" "valid y" "enc x @ r = enc y @ r'"
  shows "x = y \<and> r = r'"
proof -
  from dec_enc [OF assms(1), of r] assms(3) have "dec (enc y @ r') = (Some x, r)" by simp
  moreover from assms(2) have "dec (enc y @ r') = (Some y, r')" by (rule dec_enc)
  ultimately show ?thesis by simp
qed

lemma enc_inj: "valid x \<Longrightarrow> valid y \<Longrightarrow> enc x = enc y \<Longrightarrow> x = y"
  by (rule enc_prefix_free [THEN conjunct1]) simp_all

lemma enc_seq_inj:
  assumes "list_all valid xs" "list_all valid ys" "length xs = length ys"
    "concat (map enc xs) @ r = concat (map enc ys) @ r'"
  shows "xs = ys \<and> r = r'"
  using assms(3,1,2,4)
proof (induction xs ys arbitrary: r r' rule: list_induct2)
  case (Cons x xs y ys)
  from Cons.prems have v: "valid x" "valid y" "list_all valid xs" "list_all valid ys"
    and e: "enc x @ (concat (map enc xs) @ r) = enc y @ (concat (map enc ys) @ r')"
    by simp_all
  from enc_prefix_free [OF v(1,2) e]
  have "x = y" "concat (map enc xs) @ r = concat (map enc ys) @ r'" by blast+
  with Cons.IH [OF v(3,4)] show ?case by blast
qed simp

end

locale strict_codec = codec +
  assumes canonical: "dec s = (Some x, t) \<Longrightarrow> valid x \<and> s = enc x @ t"
begin

lemma accepts_iff: "dec s = (Some x, t) \<longleftrightarrow> valid x \<and> s = enc x @ t"
  using canonical dec_enc by metis

lemma rejects_iff: "fst (dec s) = None \<longleftrightarrow> \<not> (\<exists>x t. valid x \<and> s = enc x @ t)"
  by (metis accepts_iff fst_conv not_None_eq prod.collapse)

text \<open>Changing the bytes behind what was read changes nothing.\<close>

lemma no_lookahead: "dec (p @ t) = (Some x, t) \<Longrightarrow> dec (p @ u) = (Some x, u)"
  using accepts_iff by force

end

text \<open>
  The loop \<open>while (CBS_len(in) > 0) { read an element }\<close>. The fuel is the number of iterations
  allowed; an element is never empty, so the number of input bytes is enough
  (\<open>read_all_fuel_enough\<close>).
\<close>

fun read_all_fuel :: "(bytes, 'a) cop \<Rightarrow> nat \<Rightarrow> bytes \<Rightarrow> 'a list option" where
  "read_all_fuel rd fuel [] = Some []"
| "read_all_fuel rd 0 s = None"
| "read_all_fuel rd (Suc fuel) s =
     (case rd s of
        (None, t) \<Rightarrow> None
      | (Some x, t) \<Rightarrow> map_option ((#) x) (read_all_fuel rd fuel t))"

definition read_all :: "(bytes, 'a) cop \<Rightarrow> bytes \<Rightarrow> 'a list option" where
  "read_all rd s = read_all_fuel rd (length s) s"

locale seq_codec = strict_codec +
  assumes enc_nonempty: "valid x \<Longrightarrow> enc x \<noteq> []"
begin

lemma progress: "dec s = (Some x, t) \<Longrightarrow> length t < length s"
  using canonical enc_nonempty by fastforce

lemma read_all_fuel_enough:
  "length s \<le> fuel \<Longrightarrow> read_all_fuel dec fuel s = read_all_fuel dec (length s) s"
proof (induction s arbitrary: fuel rule: length_induct)
  case (1 s)
  show ?case
  proof (cases s)
    case (Cons b s')
    with 1 obtain f where f: "fuel = Suc f" "length s' \<le> f" by (cases fuel) auto
    show ?thesis
    proof (cases "dec s")
      case (Pair r t)
      have "read_all_fuel dec f t = read_all_fuel dec (length s') t" if "r = Some x" for x
      proof -
        from that Pair have "length t \<le> length s'" using progress [of s x t] Cons by simp
        then show ?thesis using "1.IH" f(2) Cons
          by (metis le_trans length_Cons less_Suc_eq_le)
      qed
      with Pair Cons f show ?thesis by (auto split: option.splits)
    qed
  qed simp
qed

lemma read_all_Nil: "read_all dec [] = Some []"
  by (simp add: read_all_def)

lemma read_all_step:
  "dec s = (Some x, t) \<Longrightarrow> read_all dec s = map_option ((#) x) (read_all dec t)"
proof -
  assume d: "dec s = (Some x, t)"
  from progress [OF d] obtain b s' where s: "s = b # s'" by (cases s) auto
  have "read_all_fuel dec (length s') t = read_all_fuel dec (length t) t"
    using progress [OF d] s by (intro read_all_fuel_enough) simp
  then show ?thesis using d s by (simp add: read_all_def)
qed

lemma read_all_concat: "list_all valid xs \<Longrightarrow> read_all dec (concat (map enc xs)) = Some xs"
  by (induction xs) (simp_all add: read_all_Nil read_all_step [OF dec_enc])

lemma read_all_eq_Some:
  "read_all dec s = Some xs \<longleftrightarrow> list_all valid xs \<and> s = concat (map enc xs)"
proof
  show "read_all dec s = Some xs \<Longrightarrow> list_all valid xs \<and> s = concat (map enc xs)"
  proof (induction xs arbitrary: s)
    case Nil
    then show ?case
      by (cases s) (auto simp: read_all_def split: prod.splits option.splits)
  next
    case (Cons x xs)
    then obtain b s' where "s = b # s'" by (cases s) (auto simp: read_all_def)
    with Cons.prems obtain y t where d: "dec s = (Some y, t)"
      by (auto simp: read_all_def split: prod.splits option.splits)
    from Cons.prems read_all_step [OF d] have "y = x" "read_all dec t = Some xs" by auto
    with Cons.IH canonical [OF d] show ?case by simp
  qed
qed (auto intro: read_all_concat)

end

end
