(* ===== verification/CBS.thy ===== *)
theory CBS
  imports Mem Codec
begin

text \<open>
  The byte-string parser of BoringSSL, \<open>crypto/bytestring/cbs.c\<close>. A \<open>CBS\<close> is a pointer and a
  length into constant memory: the model is the list of bytes it covers, and an operation that
  advances it is a function to an optional result and the remaining view. A failing operation
  returns the view where the code left it, which is not always where it started.
\<close>

type_synonym cbs = bytes

definition CBS_init :: "bytes \<Rightarrow> nat \<Rightarrow> cbs" where
  "CBS_init data len = take len data"

definition cbs_get :: "nat \<Rightarrow> (cbs, bytes) cop" where
  "cbs_get n cbs = (if length cbs < n then (None, cbs) else (Some (take n cbs), drop n cbs))"

definition CBS_skip :: "nat \<Rightarrow> (cbs, unit) cop" where
  "CBS_skip len = c_bind (cbs_get len) (\<lambda>dummy. c_ret ())"

definition CBS_data :: "cbs \<Rightarrow> bytes" where
  "CBS_data cbs = cbs"

definition CBS_len :: "cbs \<Rightarrow> nat" where
  "CBS_len cbs = length cbs"

text \<open>The results are the return code, \<open>*out_ptr\<close> and \<open>*out_len\<close>.\<close>

definition CBS_stow :: "allocator \<Rightarrow> cbs \<Rightarrow> bool \<times> bytes option \<times> nat" where
  "CBS_stow alloc cbs =
     (if CBS_len cbs = 0 then (True, None, 0)
      else case OPENSSL_memdup alloc (CBS_data cbs) of
             None \<Rightarrow> (False, None, 0)
           | Some p \<Rightarrow> (True, Some p, CBS_len cbs))"

definition CBS_strdup :: "allocator \<Rightarrow> cbs \<Rightarrow> bytes option" where
  "CBS_strdup alloc cbs = OPENSSL_strndup alloc (CBS_data cbs) (CBS_len cbs)"

definition CBS_contains_zero_byte :: "cbs \<Rightarrow> bool" where
  "CBS_contains_zero_byte cbs \<longleftrightarrow> OPENSSL_memchr (CBS_data cbs) 0 (CBS_len cbs) \<noteq> None"

definition CBS_mem_equal :: "cbs \<Rightarrow> bytes \<Rightarrow> nat \<Rightarrow> bool" where
  "CBS_mem_equal cbs data len =
     (if len \<noteq> CBS_len cbs then False else CRYPTO_memcmp (CBS_data cbs) data len = 0)"

section \<open>Fixed-width integers\<close>

definition cbs_get_u :: "nat \<Rightarrow> (cbs, u64) cop" where
  "cbs_get_u len = c_bind (cbs_get len) (\<lambda>data. c_ret (foldl be_shift_in 0 data))"

definition CBS_get_u8 :: "(cbs, byte) cop" where
  "CBS_get_u8 = c_bind (cbs_get 1) (\<lambda>v. c_ret (hd v))"

definition CBS_get_u16 :: "(cbs, u16) cop" where
  "CBS_get_u16 = c_bind (cbs_get_u 2) (\<lambda>v. c_ret (ucast v))"

text \<open>The byte swaps, as the portable branch of \<open>crypto/internal.h\<close> computes them.\<close>

definition CRYPTO_bswap2 :: "u16 \<Rightarrow> u16" where
  "CRYPTO_bswap2 x = drop_bit 8 x OR push_bit 8 x"

definition CRYPTO_bswap4 :: "u32 \<Rightarrow> u32" where
  "CRYPTO_bswap4 x =
     (let y = drop_bit 16 x OR push_bit 16 x
      in drop_bit 8 (y AND 0xff00ff00) OR push_bit 8 (y AND 0x00ff00ff))"

definition CRYPTO_bswap8 :: "u64 \<Rightarrow> u64" where
  "CRYPTO_bswap8 x =
     ucast (CRYPTO_bswap4 (ucast (drop_bit 32 x))) OR push_bit 32 (ucast (CRYPTO_bswap4 (ucast x)))"

definition CBS_get_u16le :: "(cbs, u16) cop" where
  "CBS_get_u16le = c_bind CBS_get_u16 (\<lambda>out. c_ret (CRYPTO_bswap2 out))"

definition CBS_get_u24 :: "(cbs, u32) cop" where
  "CBS_get_u24 = c_bind (cbs_get_u 3) (\<lambda>v. c_ret (ucast v))"

definition CBS_get_u32 :: "(cbs, u32) cop" where
  "CBS_get_u32 = c_bind (cbs_get_u 4) (\<lambda>v. c_ret (ucast v))"

definition CBS_get_u32le :: "(cbs, u32) cop" where
  "CBS_get_u32le = c_bind CBS_get_u32 (\<lambda>out. c_ret (CRYPTO_bswap4 out))"

definition CBS_get_u64 :: "(cbs, u64) cop" where
  "CBS_get_u64 = cbs_get_u 8"

definition CBS_get_u64le :: "(cbs, u64) cop" where
  "CBS_get_u64le = c_bind (cbs_get_u 8) (\<lambda>out. c_ret (CRYPTO_bswap8 out))"

definition CBS_get_last_u8 :: "(cbs, byte) cop" where
  "CBS_get_last_u8 cbs = (if CBS_len cbs = 0 then (None, cbs) else (Some (last cbs), butlast cbs))"

section \<open>Byte ranges and length prefixes\<close>

definition CBS_get_bytes :: "nat \<Rightarrow> (cbs, cbs) cop" where
  "CBS_get_bytes len = c_bind (cbs_get len) (\<lambda>v. c_ret (CBS_init v len))"

definition CBS_copy_bytes :: "bytes \<Rightarrow> nat \<Rightarrow> (cbs, bytes) cop" where
  "CBS_copy_bytes out len = c_bind (cbs_get len) (\<lambda>v. c_ret (mem_write 0 v out))"

definition cbs_get_length_prefixed :: "nat \<Rightarrow> (cbs, cbs) cop" where
  "cbs_get_length_prefixed len_len =
     c_bind (cbs_get_u len_len) (\<lambda>len. CBS_get_bytes (unat len))"

definition CBS_get_u8_length_prefixed :: "(cbs, cbs) cop" where
  "CBS_get_u8_length_prefixed = cbs_get_length_prefixed 1"

definition CBS_get_u16_length_prefixed :: "(cbs, cbs) cop" where
  "CBS_get_u16_length_prefixed = cbs_get_length_prefixed 2"

definition CBS_get_u24_length_prefixed :: "(cbs, cbs) cop" where
  "CBS_get_u24_length_prefixed = cbs_get_length_prefixed 3"

section \<open>ASN.1 tags and elements\<close>

text \<open>The do-while loop of \<open>parse_base128_integer\<close>, with the value so far.\<close>

fun parse_base128_loop :: "u64 \<Rightarrow> (cbs, u64) cop" where
  "parse_base128_loop v [] = (None, [])"
| "parse_base128_loop v (b # cbs) =
     (if drop_bit (64 - 7) v \<noteq> 0 then (None, cbs)
      else if v = 0 \<and> b = 0x80 then (None, cbs)
      else let v' = push_bit 7 v OR ucast (b AND 0x7f)
           in if b AND 0x80 \<noteq> 0 then parse_base128_loop v' cbs else (Some v', cbs))"

definition parse_base128_integer :: "(cbs, u64) cop" where
  "parse_base128_integer = parse_base128_loop 0"

definition CBS_ASN1_TAG_SHIFT :: nat where
  "CBS_ASN1_TAG_SHIFT = 24"

definition CBS_ASN1_CONSTRUCTED :: u32 where
  "CBS_ASN1_CONSTRUCTED = push_bit CBS_ASN1_TAG_SHIFT 0x20"

definition CBS_ASN1_TAG_NUMBER_MASK :: u32 where
  "CBS_ASN1_TAG_NUMBER_MASK = push_bit (5 + CBS_ASN1_TAG_SHIFT) 1 - 1"

definition CBS_ASN1_BOOLEAN :: u32 where
  "CBS_ASN1_BOOLEAN = 0x1"

definition CBS_ASN1_INTEGER :: u32 where
  "CBS_ASN1_INTEGER = 0x2"

definition CBS_ASN1_OCTETSTRING :: u32 where
  "CBS_ASN1_OCTETSTRING = 0x4"

definition CBS_ASN1_SEQUENCE :: u32 where
  "CBS_ASN1_SEQUENCE = 0x10 OR CBS_ASN1_CONSTRUCTED"

definition CBS_ASN1_SET :: u32 where
  "CBS_ASN1_SET = 0x11 OR CBS_ASN1_CONSTRUCTED"

definition parse_asn1_tag :: "(cbs, u32) cop" where
  "parse_asn1_tag = c_bind CBS_get_u8 (\<lambda>tag_byte.
     let tag = push_bit CBS_ASN1_TAG_SHIFT (ucast tag_byte AND 0xe0);
         tag_number = ucast tag_byte AND 0x1f
     in if tag_number = 0x1f
        then c_bind parse_base128_integer (\<lambda>v.
               c_seq (c_guard (\<not> (v > ucast CBS_ASN1_TAG_NUMBER_MASK \<or> v < 0x1f)))
                     (c_ret (tag OR ucast v)))
        else c_ret (tag OR tag_number))"

text \<open>Returns the element with its header, its tag and the length of the header. The view is
  advanced on success only: the header is read through a copy.\<close>

definition cbs_get_any_asn1_element :: "bool \<Rightarrow> (cbs, cbs \<times> u32 \<times> nat) cop" where
  "cbs_get_any_asn1_element ber_ok cbs =
     (case parse_asn1_tag cbs of
        (None, _) \<Rightarrow> (None, cbs)
      | (Some tag, header) \<Rightarrow>
     (case CBS_get_u8 header of
        (None, _) \<Rightarrow> (None, cbs)
      | (Some length_byte, header) \<Rightarrow>
     (let header_len = CBS_len cbs - CBS_len header;
          element = (\<lambda>len out_header_len.
            c_bind (CBS_get_bytes len) (\<lambda>out. c_ret (out, tag, out_header_len)) cbs)
      in if length_byte AND 0x80 = 0
         then element (unat length_byte + header_len) header_len
         else let num_bytes = unat (length_byte AND 0x7f)
              in if ber_ok \<and> tag AND CBS_ASN1_CONSTRUCTED \<noteq> 0 \<and> num_bytes = 0
                 then element header_len header_len
                 else if num_bytes = 0 \<or> num_bytes > 4 then (None, cbs)
                 else (case cbs_get_u num_bytes header of
                         (None, _) \<Rightarrow> (None, cbs)
                       | (Some len64, _) \<Rightarrow>
                           if len64 < 128 then (None, cbs)
                           else if drop_bit ((num_bytes - 1) * 8) len64 = 0 then (None, cbs)
                           else let len = unat len64
                                in if size_add (size_add len header_len) num_bytes < len
                                   then (None, cbs)
                                   else element (size_add len (size_add header_len num_bytes))
                                                (header_len + num_bytes)))))"

definition CBS_get_any_asn1_element :: "(cbs, cbs \<times> u32 \<times> nat) cop" where
  "CBS_get_any_asn1_element = cbs_get_any_asn1_element False"

definition CBS_get_any_ber_asn1_element :: "(cbs, cbs \<times> u32 \<times> nat) cop" where
  "CBS_get_any_ber_asn1_element = cbs_get_any_asn1_element True"

definition CBS_get_any_asn1 :: "(cbs, cbs \<times> u32) cop" where
  "CBS_get_any_asn1 = c_bind CBS_get_any_asn1_element (\<lambda>(out, tag, header_len).
     case CBS_skip header_len out of
       (None, _) \<Rightarrow> c_fail
     | (Some _, out) \<Rightarrow> c_ret (out, tag))"

definition cbs_get_asn1 :: "u32 \<Rightarrow> bool \<Rightarrow> (cbs, cbs) cop" where
  "cbs_get_asn1 tag_value skip_header = c_bind CBS_get_any_asn1_element (\<lambda>(out, tag, header_len).
     c_seq (c_guard (tag = tag_value))
       (if skip_header
        then (case CBS_skip header_len out of (None, _) \<Rightarrow> c_fail | (Some _, out) \<Rightarrow> c_ret out)
        else c_ret out))"

definition CBS_get_asn1 :: "u32 \<Rightarrow> (cbs, cbs) cop" where
  "CBS_get_asn1 tag_value = cbs_get_asn1 tag_value True"

definition CBS_get_asn1_element :: "u32 \<Rightarrow> (cbs, cbs) cop" where
  "CBS_get_asn1_element tag_value = cbs_get_asn1 tag_value False"

definition CBS_peek_asn1_tag :: "cbs \<Rightarrow> u32 \<Rightarrow> bool" where
  "CBS_peek_asn1_tag cbs tag_value =
     (if CBS_len cbs < 1 then False
      else case parse_asn1_tag cbs of
             (None, _) \<Rightarrow> False
           | (Some actual_tag, _) \<Rightarrow> tag_value = actual_tag)"

end
