(* ===== verification/DER.thy ===== *)
theory DER
  imports CBS
begin

text \<open>
  The abstract encoding that \<open>cbs.c\<close> parses and \<open>cbb.c\<close> builds: base-128 integers, DER tags,
  lengths and elements, written down as functions from values to bytes; and the proof that the
  parsers of \<open>CBS\<close> read exactly these encodings (they are interpretations of \<open>strict_codec\<close>).
\<close>

section \<open>Reading bytes and fixed-width integers\<close>

lemma reads_cbs_get [intro]: "reads (cbs_get n)"
  by (rule c_preservesI) (auto simp: cbs_get_def split: if_splits)

lemma cbs_get_append [simp]: "length p = n \<Longrightarrow> cbs_get n (p @ t) = (Some p, t)"
  by (simp add: cbs_get_def)

lemma cbs_get_eq_Some: "cbs_get n s = (Some p, t) \<longleftrightarrow> length p = n \<and> s = p @ t"
  by (auto simp: cbs_get_def)

lemma cbs_get_eq_None: "cbs_get n s = (None, t) \<longleftrightarrow> length s < n \<and> t = s"
  by (auto simp: cbs_get_def)

lemma CBS_get_u8_simps [simp]:
  "CBS_get_u8 [] = (None, [])" "CBS_get_u8 (b # s) = (Some b, s)"
  by (simp_all add: CBS_get_u8_def cbs_get_def c_bind_def)

lemma reads_CBS_get_u8 [intro]: "reads CBS_get_u8"
  unfolding CBS_get_u8_def by (rule reads_bind) auto

lemma CBS_get_bytes_simp: "CBS_get_bytes n = cbs_get n"
  by (rule ext) (simp add: CBS_get_bytes_def cbs_get_def c_bind_def CBS_init_def)

lemma CBS_skip_append [simp]: "length p = n \<Longrightarrow> CBS_skip n (p @ t) = (Some (), t)"
  by (simp add: CBS_skip_def c_bind_def)

lemma cbs_get_u_append:
  "length p = n \<Longrightarrow> cbs_get_u n (p @ t) = (Some (foldl be_shift_in 0 p), t)"
  by (simp add: cbs_get_u_def c_bind_def)

lemma cbs_get_u_eq_Some:
  "cbs_get_u n s = (Some v, t) \<longleftrightarrow> (\<exists>p. length p = n \<and> s = p @ t \<and> v = foldl be_shift_in 0 p)"
  by (auto simp: cbs_get_u_def c_bind_eq_Some cbs_get_eq_Some)

lemma unat_less_pow: "unat (v :: 'a::len word) < 2 ^ LENGTH('a)"
  by (rule unsigned_less)

text \<open>All the big-endian readers at once: \<open>k\<close> bytes into a word of \<open>8 * k\<close> or more bits.\<close>

lemma be_fold_codec:
  assumes k: "k \<le> 8" and v: "unat (v :: u64) < 256 ^ k"
  shows "cbs_get_u k (be_bytes k (unat v) @ t) = (Some v, t)"
proof -
  have "unat (foldl be_shift_in 0 (be_bytes k (unat v))) = unat v"
    using k v by (simp add: unat_be_fold)
  then have "foldl be_shift_in 0 (be_bytes k (unat v)) = v"
    by (simp add: word_unat_eq_iff)
  then show ?thesis by (simp add: cbs_get_u_append)
qed

lemma be_fold_canonical:
  assumes k: "k \<le> 8" and g: "cbs_get_u k s = (Some v, t)"
  shows "unat v < 256 ^ k \<and> s = be_bytes k (unat v) @ t"
proof -
  from g obtain p where p: "length p = k" "s = p @ t" "v = foldl be_shift_in 0 p"
    by (auto simp: cbs_get_u_eq_Some)
  then have "unat v = be_nat p" using k by (simp add: unat_be_fold)
  with p show ?thesis using be_nat_bound [of p] be_bytes_be_nat [of p] by simp
qed

interpretation u64_codec: seq_codec "\<lambda>v. be_bytes 8 (unat v)" CBS_get_u64 "\<lambda>_ :: u64. True"
proof unfold_locales
  show "CBS_get_u64 (be_bytes 8 (unat x) @ rest) = (Some x, rest)" for x :: u64 and rest
    unfolding CBS_get_u64_def using unat_less_pow [of x] by (intro be_fold_codec) simp_all
  show "True \<and> s = be_bytes 8 (unat x) @ t" if "CBS_get_u64 s = (Some x, t)" for s t and x :: u64
    using that be_fold_canonical [of 8 s x t] by (simp add: CBS_get_u64_def)
  show "be_bytes 8 (unat x) \<noteq> []" for x :: u64
    by (metis length_be_bytes list.size(3) zero_neq_numeral)
qed

lemma unat_ucast_64_lt:
  "unat (v :: u64) < 2 ^ LENGTH('b) \<Longrightarrow> unat (ucast v :: 'b::len word) = unat v"
  by (simp add: unat_ucast_mod)

lemma narrow_codec:
  fixes x :: "'b::len word"
  assumes "k \<le> 8" "LENGTH('b) \<le> 64" "2 ^ LENGTH('b) = (256 :: nat) ^ k"
  shows "c_bind (cbs_get_u k) (\<lambda>v. c_ret (ucast v)) (be_bytes k (unat x) @ t) = (Some x, t)"
proof -
  have e: "unat (ucast x :: u64) = unat x"
    using assms(2) by (simp add: unat_ucast_up)
  have lt: "unat (ucast x :: u64) < 256 ^ k"
    using unat_less_pow [of x] e assms(3) by simp
  have "ucast (ucast x :: u64) = x"
    using e lt assms by (simp add: word_unat_eq_iff unat_ucast_64_lt)
  then show ?thesis
    using be_fold_codec [OF assms(1) lt, of t] by (simp add: e)
qed

lemma narrow_canonical:
  fixes x :: "'b::len word"
  assumes "k \<le> 8" "(256 :: nat) ^ k \<le> 2 ^ LENGTH('b)"
    "c_bind (cbs_get_u k) (\<lambda>v. c_ret (ucast v)) s = (Some x, t)"
  shows "unat x < 256 ^ k \<and> s = be_bytes k (unat x) @ t"
proof -
  from assms(3) obtain v where g: "cbs_get_u k s = (Some v, t)" and x: "x = ucast v"
    by (auto simp: c_bind_eq_Some)
  from be_fold_canonical [OF assms(1) g] have "unat v < 256 ^ k" "s = be_bytes k (unat v) @ t"
    by auto
  moreover from this(1) assms(2) have "unat x = unat v"
    unfolding x by (intro unat_ucast_64_lt) simp
  ultimately show ?thesis by simp
qed

interpretation u16_codec: seq_codec "\<lambda>v. be_bytes 2 (unat v)" CBS_get_u16 "\<lambda>_ :: u16. True"
proof unfold_locales
  show "CBS_get_u16 (be_bytes 2 (unat x) @ rest) = (Some x, rest)" for x rest
    unfolding CBS_get_u16_def by (rule narrow_codec) simp_all
  show "True \<and> s = be_bytes 2 (unat x) @ t" if "CBS_get_u16 s = (Some x, t)" for s t x
    using that narrow_canonical [of 2 s x t] by (simp add: CBS_get_u16_def)
  show "be_bytes 2 (unat x) \<noteq> []" for x :: u16
    by (metis length_be_bytes list.size(3) zero_neq_numeral)
qed

interpretation u32_codec: seq_codec "\<lambda>v. be_bytes 4 (unat v)" CBS_get_u32 "\<lambda>_ :: u32. True"
proof unfold_locales
  show "CBS_get_u32 (be_bytes 4 (unat x) @ rest) = (Some x, rest)" for x rest
    unfolding CBS_get_u32_def by (rule narrow_codec) simp_all
  show "True \<and> s = be_bytes 4 (unat x) @ t" if "CBS_get_u32 s = (Some x, t)" for s t x
    using that narrow_canonical [of 4 s x t] by (simp add: CBS_get_u32_def)
  show "be_bytes 4 (unat x) \<noteq> []" for x :: u32
    by (metis length_be_bytes list.size(3) zero_neq_numeral)
qed

interpretation u8_codec: seq_codec "\<lambda>b. [b]" CBS_get_u8 "\<lambda>_ :: byte. True"
proof unfold_locales
  show "True \<and> s = [x] @ t" if "CBS_get_u8 s = (Some x, t)" for s t x
    using that by (cases s) auto
qed simp_all

text \<open>A 24-bit value lives in 32 bits: only values below \<open>2 ^ 24\<close> are encoded.\<close>

lemma u24_codec_dec:
  "unat (x :: u32) < 2 ^ 24 \<Longrightarrow> CBS_get_u24 (be_bytes 3 (unat x) @ t) = (Some x, t)"
proof -
  assume x: "unat x < 2 ^ 24"
  have e: "unat (ucast x :: u64) = unat x" by (simp add: unat_ucast_up)
  have "cbs_get_u 3 (be_bytes 3 (unat x) @ t) = (Some (ucast x), t)"
    using be_fold_codec [of 3 "ucast x" t] x by (simp add: e)
  moreover have "ucast (ucast x :: u64) = x"
    using x by (simp add: word_unat_eq_iff unat_ucast_mod e)
  ultimately show ?thesis by (simp add: CBS_get_u24_def)
qed

interpretation u24_codec: seq_codec "\<lambda>v. be_bytes 3 (unat v)" CBS_get_u24 "\<lambda>v :: u32. unat v < 2 ^ 24"
proof unfold_locales
  show "CBS_get_u24 (be_bytes 3 (unat x) @ rest) = (Some x, rest)" if "unat x < 2 ^ 24" for x rest
    using that by (rule u24_codec_dec)
  show "unat x < 2 ^ 24 \<and> s = be_bytes 3 (unat x) @ t" if "CBS_get_u24 s = (Some x, t)" for s t x
    using that narrow_canonical [of 3 s x t] by (simp add: CBS_get_u24_def)
  show "be_bytes 3 (unat x) \<noteq> []" for x :: u32
    by (metis length_be_bytes list.size(3) zero_neq_numeral)
qed

section \<open>Base-128 integers\<close>

text \<open>The continuation bytes of a number: its base-128 digits, most significant first, each with
  the high bit set; none for zero. A base-128 integer is all digits but the last as
  continuation bytes and then the last digit.\<close>

fun b128_cont :: "nat \<Rightarrow> bytes" where
  "b128_cont n = (if n = 0 then [] else b128_cont (n div 128) @ [word_of_nat (128 + n mod 128)])"

declare b128_cont.simps [simp del]

definition base128 :: "nat \<Rightarrow> bytes" where
  "base128 n = b128_cont (n div 128) @ [word_of_nat (n mod 128)]"

lemma b128_cont_0 [simp]: "b128_cont 0 = []"
  by (simp add: b128_cont.simps)

lemma b128_cont_pos: "0 < n \<Longrightarrow> b128_cont n = b128_cont (n div 128) @ [word_of_nat (128 + n mod 128)]"
  by (simp add: b128_cont.simps [of n])

lemma base128_small: "n < 128 \<Longrightarrow> base128 n = [word_of_nat n]"
  by (simp add: base128_def)

lemma base128_nonempty [simp]: "base128 n \<noteq> []"
  by (simp add: base128_def)

lemma unat_b128_step:
  assumes "unat (v :: u64) < 2 ^ 57"
  shows "unat (push_bit 7 v OR ucast (b AND 127)) = unat v * 128 + unat (b :: byte) mod 128"
proof -
  have e: "unat (ucast (b AND 127) :: u64) = unat b mod 128"
    by (simp add: unat_ucast_up word_and_masks unat_and_mask)
  have "unat v < 144115188075855872" using assms by simp
  then have "unat v * 128 + unat b mod 128 < 18446744073709551616"
    using mod_less_divisor [of 128 "unat b"] by linarith
  then show ?thesis
    using unat_push_or [of v 7 "ucast (b AND 127)"] by (simp add: e)
qed

lemma drop_bit_0_iff: "drop_bit n (v :: 'a::len word) = 0 \<longleftrightarrow> unat v < 2 ^ n"
proof -
  have "drop_bit n v = 0 \<longleftrightarrow> unat (drop_bit n v) = 0"
    by (simp add: unsigned_eq_0_iff)
  then show ?thesis by (simp add: unat_drop_bit_div div_eq_0_iff)
qed

lemma word_zero_iff: "(v :: 'a::len word) = 0 \<longleftrightarrow> unat v = 0"
  by (simp add: unsigned_eq_0_iff)

lemma parse_base128_loop_Cons:
  "parse_base128_loop v (b # cbs) =
     (if 2 ^ 57 \<le> unat v \<or> unat v = 0 \<and> unat b = 128 then (None, cbs)
      else if 128 \<le> unat b
      then parse_base128_loop (push_bit 7 v OR ucast (b AND 127)) cbs
      else (Some (push_bit 7 v OR ucast (b AND 127)), cbs))"
proof -
  have "drop_bit 57 v = 0 \<longleftrightarrow> unat v < 2 ^ 57" by (rule drop_bit_0_iff)
  moreover have "v = 0 \<longleftrightarrow> unat v = 0" by (rule word_zero_iff)
  moreover have "b = 128 \<longleftrightarrow> unat b = 128" by (simp add: word_unat_eq_iff)
  ultimately show ?thesis
    by (simp add: byte_and_128 Let_def not_less)
qed

declare parse_base128_loop.simps(2) [simp del]

lemma unat_cont_byte: "unat (word_of_nat (128 + n mod 128) :: byte) = 128 + n mod 128"
proof -
  have "128 + n mod 128 < 256" using mod_less_divisor [of 128 n] by linarith
  then show ?thesis by (simp only: unat_byte_of_nat mod_less)
qed

lemma unat_last_byte: "unat (word_of_nat (n mod 128) :: byte) = n mod 128"
proof -
  have "n mod 128 < 256" using mod_less_divisor [of 128 n] by linarith
  then show ?thesis by (simp only: unat_byte_of_nat mod_less)
qed

lemma word_of_nat_unat_eq: "unat (w :: 'a::len word) = n \<Longrightarrow> w = word_of_nat n"
  by auto

lemma parse_base128_cont:
  "n < 2 ^ 64 \<Longrightarrow> parse_base128_loop 0 (b128_cont n @ s) = parse_base128_loop (word_of_nat n) s"
proof (induction n arbitrary: s rule: b128_cont.induct)
  case (1 n)
  show ?case
  proof (cases "n = 0")
    case False
    define c :: byte where "c = word_of_nat (128 + n mod 128)"
    define v :: u64 where "v = word_of_nat (n div 128)"
    have c: "unat c = 128 + n mod 128" by (simp only: c_def unat_cont_byte)
    have v57: "n div 128 < 2 ^ 57" using 1(2) by (simp add: less_mult_imp_div_less)
    then have v: "unat v = n div 128" by (simp add: v_def unsigned_of_nat take_bit_nat_eq_self)
    have nz: "\<not> (unat v = 0 \<and> unat c = 128)"
      using False by (auto simp: v c div_eq_0_iff)
    have "unat (push_bit 7 v OR ucast (c AND 127)) = n"
      using v57 by (subst unat_b128_step) (simp_all add: v c)
    then have step: "push_bit 7 v OR ucast (c AND 127) = word_of_nat n"
      by (rule word_of_nat_unat_eq)
    have "parse_base128_loop 0 (b128_cont n @ s) = parse_base128_loop v (c # s)"
      using 1 False b128_cont_pos [of n] by (simp add: c_def v_def)
    also have "\<dots> = parse_base128_loop (word_of_nat n) s"
    proof -
      have "128 \<le> unat c" "\<not> 2 ^ 57 \<le> unat v" using v57 by (simp_all add: c v)
      with nz show ?thesis by (simp only: parse_base128_loop_Cons step if_True if_False simp_thms)
    qed
    finally show ?thesis .
  qed simp
qed

lemma parse_base128_base128:
  assumes "n < 2 ^ 64"
  shows "parse_base128_integer (base128 n @ s) = (Some (word_of_nat n), s)"
proof -
  define c :: byte where "c = word_of_nat (n mod 128)"
  define v :: u64 where "v = word_of_nat (n div 128)"
  have c: "unat c = n mod 128" by (simp only: c_def unat_last_byte)
  have v57: "n div 128 < 2 ^ 57" using assms by (simp add: less_mult_imp_div_less)
  then have v: "unat v = n div 128" by (simp add: v_def unsigned_of_nat take_bit_nat_eq_self)
  have "unat (push_bit 7 v OR ucast (c AND 127)) = n"
    using v57 by (subst unat_b128_step) (simp_all add: v c)
  then have step: "push_bit 7 v OR ucast (c AND 127) = word_of_nat n"
    by (rule word_of_nat_unat_eq)
  have "c # s = [c] @ s" by simp
  have "parse_base128_integer (base128 n @ s) = parse_base128_loop v (c # s)"
    using parse_base128_cont [of "n div 128" "c # s"] v57
    by (simp add: parse_base128_integer_def base128_def c_def v_def)
  also have "\<dots> = (Some (word_of_nat n), s)"
  proof -
    have "\<not> 128 \<le> unat c" "\<not> 2 ^ 57 \<le> unat v" "unat c \<noteq> 128"
      using v57 mod_less_divisor [of 128 n] by (simp_all add: c v)
    then show ?thesis by (simp only: parse_base128_loop_Cons step if_False simp_thms)
  qed
  finally show ?thesis .
qed

lemma parse_base128_loop_canonical:
  "parse_base128_loop v s = (Some w, t) \<Longrightarrow> b128_cont (unat v) @ s = base128 (unat w) @ t"
proof (induction v s rule: parse_base128_loop.induct)
  case (2 v b s)
  define v' where "v' = push_bit 7 v OR ucast (b AND 127)"
  from 2(2) have v57: "unat v < 2 ^ 57" and nz: "\<not> (unat v = 0 \<and> unat b = 128)"
    by (auto simp: parse_base128_loop_Cons split: if_splits)
  from v57 have v': "unat v' = unat v * 128 + unat b mod 128"
    unfolding v'_def by (rule unat_b128_step)
  then have d: "unat v' div 128 = unat v" "unat v' mod 128 = unat b mod 128" by simp_all
  show ?case
  proof (cases "128 \<le> unat b")
    case True
    then have "b AND 128 \<noteq> 0" by (simp add: byte_and_128)
    moreover from v57 have "drop_bit (64 - 7) v = 0" by (simp add: drop_bit_0_iff)
    moreover have "\<not> (v = 0 \<and> b = 128)"
      using nz by auto
    moreover have "parse_base128_loop v' s = (Some w, t)"
      using 2(2) True v57 nz by (simp add: parse_base128_loop_Cons v'_def)
    ultimately have IH: "b128_cont (unat v') @ s = base128 (unat w) @ t"
      using 2(1) by (simp add: v'_def)
    have bm: "128 + unat b mod 128 = unat b"
    proof -
      have "unat b - 128 < 128" using unat_byte_lt [of b] True by linarith
      with True show ?thesis by (simp add: le_mod_geq)
    qed
    then have "0 < unat v'" using nz v' by (cases "unat v = 0") auto
    then have "b128_cont (unat v') = b128_cont (unat v) @ [b]"
      by (simp add: b128_cont_pos d bm)
    with IH show ?thesis by simp
  next
    case False
    then have "w = v'" "t = s"
      using 2(2) v57 nz by (auto simp: parse_base128_loop_Cons v'_def)
    moreover have "word_of_nat (unat b mod 128) = b" using False by simp
    ultimately show ?thesis by (simp add: base128_def d)
  qed
qed simp

interpretation base128_codec: seq_codec "\<lambda>v. base128 (unat v)" parse_base128_integer "\<lambda>_ :: u64. True"
proof unfold_locales
  show "parse_base128_integer (base128 (unat x) @ rest) = (Some x, rest)" for x rest
    using parse_base128_base128 [of "unat x" rest] unat_less_pow [of x] by simp
  show "True \<and> s = base128 (unat x) @ t" if "parse_base128_integer s = (Some x, t)" for s t x
    using that parse_base128_loop_canonical [of 0 s x t] by (simp add: parse_base128_integer_def)
qed simp

section \<open>Tags\<close>

text \<open>A tag is a class and constructed bit in its top three bits and a number in the other 29. Numbers
  below 31 share the leading byte, others follow it in base 128.\<close>

definition der_tag :: "u32 \<Rightarrow> bytes" where
  "der_tag t =
     (let hi = unat t div 2 ^ 29; num = unat t mod 2 ^ 29
      in if num < 31 then [word_of_nat (hi * 32 + num)]
         else word_of_nat (hi * 32 + 31) # base128 num)"

lemma der_tag_nonempty [simp]: "der_tag t \<noteq> []"
  by (simp add: der_tag_def Let_def)

lemma byte_and_224: "(b :: byte) AND 224 = push_bit 5 (drop_bit 5 b)"
proof -
  have "(224 :: byte) = push_bit 5 (mask 3)" by (simp add: mask_eq_exp_minus_1 push_bit_eq_mult)
  then show ?thesis
    by (auto simp: bit_eq_iff bit_simps)
qed

lemma u32_and_224: "(ucast (b :: byte) :: u32) AND 224 = push_bit 5 (ucast (drop_bit 5 b))"
proof -
  have "(224 :: u32) = push_bit 5 (mask 3)" by (simp add: mask_eq_exp_minus_1 push_bit_eq_mult)
  then show ?thesis
    by (auto simp: bit_eq_iff bit_simps dest: bit_imp_le_length)
qed

text \<open>The tag value the parser computes from the leading byte and a number.\<close>

lemma unat_tag_or:
  assumes "unat (x :: u32) < 2 ^ 29"
  shows "unat (push_bit 24 (ucast (b :: byte) AND 224) OR x) = (unat b div 32) * 2 ^ 29 + unat x"
proof -
  have h: "unat (ucast (drop_bit 5 b) :: u32) = unat b div 32"
    by (simp add: unat_ucast_up unat_drop_bit_div)
  have "unat b div 32 \<le> 7"
    using unat_byte_lt [of b] by (simp add: less_mult_imp_div_less less_Suc_eq_le [symmetric] del: unat_byte_lt)
  moreover have "unat x < 536870912" using assms by simp
  ultimately have "unat b div 32 * 536870912 + unat x < 4294967296" by linarith
  then have "unat (push_bit 29 (ucast (drop_bit 5 b)) OR x) = unat b div 32 * 2 ^ 29 + unat x"
    using unat_push_or [of "ucast (drop_bit 5 b)" 29 x] assms by (simp add: h)
  moreover have "push_bit 24 (ucast b AND 224) = push_bit 29 (ucast (drop_bit 5 b) :: u32)"
    by (simp add: u32_and_224)
  ultimately show ?thesis by simp
qed

lemma CBS_ASN1_TAG_NUMBER_MASK_eq: "CBS_ASN1_TAG_NUMBER_MASK = mask 29"
  by (simp add: CBS_ASN1_TAG_NUMBER_MASK_def CBS_ASN1_TAG_SHIFT_def push_bit_eq_mult
      mask_eq_exp_minus_1)

lemma unat_low5: "unat ((ucast (b :: byte) :: u32) AND 31) = unat b mod 32"
  by (simp add: word_and_masks unat_and_mask unat_ucast_up)

lemma parse_asn1_tag_Cons:
  "parse_asn1_tag (b # s) =
     (if unat b mod 32 = 31
      then (case parse_base128_integer s of
              (None, t) \<Rightarrow> (None, t)
            | (Some v, t) \<Rightarrow> if 2 ^ 29 \<le> unat v \<or> unat v < 31 then (None, t)
                             else (Some (word_of_nat (unat b div 32 * 2 ^ 29 + unat v)), t))
      else (Some (word_of_nat (unat b div 32 * 2 ^ 29 + unat b mod 32)), s))"
proof -
  have low: "(ucast b :: u32) AND 31 = 31 \<longleftrightarrow> unat b mod 32 = 31"
    by (simp add: word_unat_eq_iff unat_low5)
  have tag_low: "push_bit 24 (ucast b AND 224) OR ((ucast b :: u32) AND 31) =
      word_of_nat (unat b div 32 * 2 ^ 29 + unat b mod 32)"
  proof (rule word_of_nat_unat_eq)
    have "unat b mod 32 < 2 ^ 29" using mod_less_divisor [of 32 "unat b"] by simp
    then show "unat (push_bit 24 (ucast b AND 224) OR ((ucast b :: u32) AND 31)) =
        unat b div 32 * 2 ^ 29 + unat b mod 32"
      by (subst unat_tag_or) (simp_all add: unat_low5)
  qed
  have mask: "v > ucast CBS_ASN1_TAG_NUMBER_MASK \<longleftrightarrow> 2 ^ 29 \<le> unat v" for v :: u64
    by (simp add: CBS_ASN1_TAG_NUMBER_MASK_eq word_less_nat_alt unat_ucast_up mask_eq_exp_minus_1)
      auto
  have low31: "v < 31 \<longleftrightarrow> unat v < 31" for v :: u64
    by (simp add: word_less_nat_alt)
  have tag_high: "push_bit 24 (ucast b AND 224) OR (ucast v :: u32) =
      word_of_nat (unat b div 32 * 2 ^ 29 + unat v)" if "unat v < 2 ^ 29" for v :: u64
  proof (rule word_of_nat_unat_eq)
    have "unat (ucast v :: u32) = unat v" using that by (intro unat_ucast_64_lt) simp
    with that show "unat (push_bit 24 (ucast b AND 224) OR (ucast v :: u32)) =
        unat b div 32 * 2 ^ 29 + unat v"
      by (subst unat_tag_or) simp_all
  qed
  show ?thesis
    by (simp add: parse_asn1_tag_def c_bind_def c_seq_def CBS_ASN1_TAG_SHIFT_def Let_def low tag_low
        mask low31 tag_high c_guard_def not_le split: option.splits prod.splits
        del: push_bit_and of_nat_add of_nat_mult)
qed

lemma parse_asn1_tag_Nil [simp]: "parse_asn1_tag [] = (None, [])"
  by (simp add: parse_asn1_tag_def)

lemma u32_split:
  "hi \<le> 7 \<Longrightarrow> num < 2 ^ 29 \<Longrightarrow> unat (word_of_nat (hi * 2 ^ 29 + num) :: u32) = hi * 2 ^ 29 + num"
  by (simp add: unsigned_of_nat take_bit_nat_eq_self del: of_nat_add of_nat_mult)

lemma tag_parts:
  "unat (t :: u32) div 2 ^ 29 \<le> 7" "unat t = unat t div 2 ^ 29 * 2 ^ 29 + unat t mod 2 ^ 29"
proof -
  have "unat t < 2 ^ 32" using unat_less_pow [of t] by simp
  then have "unat t div 2 ^ 29 < 8" by (simp add: less_mult_imp_div_less)
  then show "unat t div 2 ^ 29 \<le> 7" by simp
qed simp

lemma unat_tag_byte:
  assumes "hi \<le> 7" "low < 32"
  shows "unat (word_of_nat (hi * 32 + low) :: byte) = hi * 32 + low"
proof -
  have "hi * 32 + low < 256" using assms by linarith
  then show ?thesis by (simp only: unat_byte_of_nat mod_less)
qed

lemma parse_der_tag: "parse_asn1_tag (der_tag t @ s) = (Some t, s)"
proof -
  define hi where "hi = unat t div 2 ^ 29"
  define num where "num = unat t mod 2 ^ 29"
  have t: "t = word_of_nat (hi * 2 ^ 29 + num)" and hi: "hi \<le> 7" and num: "num < 2 ^ 29"
    using tag_parts [of t] by (simp_all add: hi_def num_def word_of_nat_unat_eq del: of_nat_add of_nat_mult)
  show ?thesis
  proof (cases "num < 31")
    case True
    then have "unat (word_of_nat (hi * 32 + num) :: byte) = hi * 32 + num"
      using hi by (intro unat_tag_byte) simp_all
    moreover have "der_tag t = [word_of_nat (hi * 32 + num)]"
      using True by (simp add: der_tag_def hi_def num_def)
    ultimately show ?thesis
      using True by (simp add: parse_asn1_tag_Cons del: of_nat_add of_nat_mult) (simp add: t)
  next
    case False
    have "unat (word_of_nat (hi * 32 + 31) :: byte) = hi * 32 + 31"
      using hi by (intro unat_tag_byte) simp_all
    moreover have "der_tag t = word_of_nat (hi * 32 + 31) # base128 num"
      using False by (simp add: der_tag_def hi_def num_def)
    moreover have "unat (word_of_nat num :: u64) = num"
      using num by (simp add: unsigned_of_nat take_bit_nat_eq_self)
    ultimately show ?thesis
      using False num
      by (simp add: parse_asn1_tag_Cons parse_base128_base128 del: of_nat_add of_nat_mult)
        (simp add: t)
  qed
qed

lemma parse_asn1_tag_canonical:
  assumes "parse_asn1_tag s = (Some t, r)"
  shows "s = der_tag t @ r"
proof (cases s)
  case (Cons b s')
  define hi where "hi = unat b div 32"
  have b: "unat b = hi * 32 + unat b mod 32" and bm: "unat b mod 32 < 32" by (simp_all add: hi_def)
  have hi: "hi \<le> 7"
    using unat_byte_lt [of b] by (simp add: hi_def less_mult_imp_div_less less_Suc_eq_le [symmetric] del: unat_byte_lt)
  show ?thesis
  proof (cases "unat b mod 32 = 31")
    case False
    with assms Cons have t: "t = word_of_nat (hi * 2 ^ 29 + unat b mod 32)" and r: "r = s'"
      by (simp_all add: parse_asn1_tag_Cons hi_def del: of_nat_add of_nat_mult)
    have "unat t = hi * 2 ^ 29 + unat b mod 32"
      unfolding t using hi bm by (intro u32_split) simp_all
    then have "unat t div 2 ^ 29 = hi" "unat t mod 2 ^ 29 = unat b mod 32"
      using bm by simp_all
    moreover have "word_of_nat (hi * 32 + unat b mod 32) = b"
      by (rule word_of_nat_unat_eq [OF b, symmetric])
    moreover have "unat b mod 32 < 31" using False bm by linarith
    ultimately show ?thesis
      using Cons r by (simp add: der_tag_def Let_def del: of_nat_add of_nat_mult)
  next
    case True
    with assms Cons obtain v where v: "parse_base128_integer s' = (Some v, r)"
      and rng: "unat v < 2 ^ 29" "31 \<le> unat v"
      and t: "t = word_of_nat (hi * 2 ^ 29 + unat v)"
      by (auto simp: parse_asn1_tag_Cons hi_def not_le not_less simp del: of_nat_add of_nat_mult
          split: option.splits prod.splits if_splits)
    have "unat t = hi * 2 ^ 29 + unat v"
      unfolding t using hi rng by (intro u32_split) simp_all
    then have "unat t div 2 ^ 29 = hi" "unat t mod 2 ^ 29 = unat v"
      using rng by simp_all
    moreover have "word_of_nat (hi * 32 + 31) = b"
      using word_of_nat_unat_eq [OF b] True by simp
    moreover have "s' = base128 (unat v) @ r"
      using base128_codec.canonical [OF v] by simp
    ultimately show ?thesis
      using rng Cons by (simp add: der_tag_def Let_def del: of_nat_add of_nat_mult)
  qed
qed (use assms in simp)

interpretation tag_codec: seq_codec der_tag parse_asn1_tag "\<lambda>_. True"
  by unfold_locales (simp_all add: parse_der_tag parse_asn1_tag_canonical)

section \<open>Lengths\<close>

text \<open>The number of bytes a number needs, and the DER length octets: short form below 128, then
  the minimal big-endian bytes behind their count.\<close>

fun nbytes :: "nat \<Rightarrow> nat" where
  "nbytes n = (if n = 0 then 0 else Suc (nbytes (n div 256)))"

declare nbytes.simps [simp del]

definition der_len :: "nat \<Rightarrow> bytes" where
  "der_len n = (if n < 128 then [word_of_nat n]
                else word_of_nat (128 + nbytes n) # be_bytes (nbytes n) n)"

lemma nbytes_0 [simp]: "nbytes 0 = 0"
  by (simp add: nbytes.simps)

lemma nbytes_unique:
  "0 < n \<Longrightarrow> nbytes n = k \<longleftrightarrow> 0 < k \<and> 256 ^ (k - 1) \<le> n \<and> n < 256 ^ k"
proof (induction n arbitrary: k rule: nbytes.induct)
  case (1 n)
  have s: "nbytes n = Suc (nbytes (n div 256))"
    using 1(2) by (simp add: nbytes.simps)
  show ?case
  proof (cases "n < 256")
    case True
    then have "nbytes n = 1" by (simp add: s)
    moreover have "256 ^ (k - 1) \<le> n \<Longrightarrow> 0 < k \<Longrightarrow> k = 1"
    proof (rule ccontr)
      assume "256 ^ (k - 1) \<le> n" "0 < k" "k \<noteq> 1"
      then have "(256 :: nat) ^ 1 \<le> 256 ^ (k - 1)" by (intro power_increasing) simp_all
      with True \<open>256 ^ (k - 1) \<le> n\<close> show False by simp
    qed
    ultimately show ?thesis using True 1(2) by auto
  next
    case False
    then have pos: "0 < n div 256" by (simp add: div_greater_zero_iff)
    have IH: "nbytes (n div 256) = j \<longleftrightarrow> 0 < j \<and> 256 ^ (j - 1) \<le> n div 256 \<and> n div 256 < 256 ^ j" for j
      using 1 pos by simp
    show ?thesis
    proof (cases k)
      case (Suc j)
      have "256 ^ (j - 1) \<le> n div 256 \<longleftrightarrow> 256 ^ j \<le> n" if "0 < j"
        using that by (cases j) (simp_all add: less_eq_div_iff_mult_less_eq mult.commute)
      moreover have "n div 256 < 256 ^ j \<longleftrightarrow> n < 256 ^ Suc j"
        by (simp add: div_less_iff_less_mult mult.commute)
      ultimately show ?thesis
        using IH [of j] Suc s False by (cases "j = 0") simp_all
    qed (simp add: s)
  qed
qed

lemma nbytes_bound: "n < 256 ^ nbytes n"
  using nbytes_unique [of n "nbytes n"] by (cases "n = 0") auto

lemma nbytes_le: "n < 256 ^ k \<Longrightarrow> nbytes n \<le> k"
proof (rule ccontr)
  assume n: "n < 256 ^ k" and "\<not> nbytes n \<le> k"
  then have "0 < n" "k \<le> nbytes n - 1" by (cases "n = 0"; simp)+
  then have "(256 :: nat) ^ k \<le> 256 ^ (nbytes n - 1)" by (intro power_increasing) simp_all
  also have "\<dots> \<le> n" using nbytes_unique [of n "nbytes n"] \<open>0 < n\<close> by simp
  finally show False using n by simp
qed

lemma der_len_nonempty [simp]: "der_len n \<noteq> []"
  by (simp add: der_len_def)

definition der_elem :: "u32 \<Rightarrow> bytes \<Rightarrow> bytes" where
  "der_elem tag body = der_tag tag @ der_len (length body) @ body"

definition der_hdr :: "u32 \<Rightarrow> bytes \<Rightarrow> nat" where
  "der_hdr tag body = length (der_tag tag) + length (der_len (length body))"

lemma der_elem_nonempty [simp]: "der_elem t b \<noteq> []"
  by (simp add: der_elem_def)

lemma length_der_elem: "length (der_elem tag body) = der_hdr tag body + length body"
  by (simp add: der_elem_def der_hdr_def)

lemma drop_der_hdr [simp]: "drop (der_hdr tag body) (der_elem tag body) = body"
  by (simp add: der_hdr_def der_elem_def)

section \<open>Elements\<close>

lemma length_b128_cont: "length (b128_cont n) \<le> n"
proof (induction n rule: b128_cont.induct)
  case (1 n)
  show ?case
  proof (cases "n = 0")
    case False
    then have "length (b128_cont n) = Suc (length (b128_cont (n div 128)))"
      by (simp add: b128_cont_pos)
    also have "\<dots> \<le> Suc (n div 128)" using 1 False by simp
    also have "\<dots> \<le> n" using False by (simp add: Suc_le_eq div_less_dividend)
    finally show ?thesis .
  qed simp
qed

lemma length_der_tag: "length (der_tag t) \<le> 2 ^ 29 + 1"
proof -
  have "unat t mod 2 ^ 29 div 128 \<le> unat t mod 2 ^ 29" by (rule div_le_dividend)
  also have "\<dots> < 2 ^ 29" by simp
  finally have "length (b128_cont (unat t mod 2 ^ 29 div 128)) < 2 ^ 29"
    using length_b128_cont le_less_trans by blast
  then show ?thesis by (simp add: der_tag_def Let_def base128_def)
qed

text \<open>What is left of the element parser once the tag and the first length byte are read: the
  word operations are gone and the overflow check is discharged, since it cannot fire.\<close>

definition elem_at :: "cbs \<Rightarrow> u32 \<Rightarrow> nat \<Rightarrow> nat \<Rightarrow> (cbs \<times> u32 \<times> nat) option \<times> cbs" where
  "elem_at s tag len hl = (if length s < len then (None, s) else (Some (take len s, tag, hl), drop len s))"

lemma elem_at_bind: "c_bind (CBS_get_bytes len) (\<lambda>out. c_ret (out, tag, hl)) s = elem_at s tag len hl"
  by (simp add: CBS_get_bytes_simp c_bind_def cbs_get_def elem_at_def)

lemma cbs_element_step:
  assumes "parse_asn1_tag s = (Some tag, lb # h)"
  defines "hl \<equiv> length s - length h" and "k \<equiv> unat lb - 128"
  shows "cbs_get_any_asn1_element ber_ok s =
    (if unat lb < 128 then elem_at s tag (unat lb + hl) hl
     else if ber_ok \<and> tag AND CBS_ASN1_CONSTRUCTED \<noteq> 0 \<and> k = 0 then elem_at s tag hl hl
     else if k = 0 \<or> 4 < k \<or> length h < k then (None, s)
     else if be_nat (take k h) < 128 \<or> be_nat (take k h) < 256 ^ (k - 1) then (None, s)
     else elem_at s tag (be_nat (take k h) + hl + k) (hl + k))"
proof -
  from tag_codec.canonical [OF assms(1)] have s: "s = der_tag tag @ lb # h" by simp
  then have hl: "hl = Suc (length (der_tag tag))" by (simp add: hl_def)
  have small: "unat lb < 128 \<longleftrightarrow> lb AND 128 = 0" by (simp add: byte_and_128)
  have k7: "unat (lb AND 127) = k" if "\<not> unat lb < 128"
  proof -
    have "unat lb - 128 < 128" using unat_byte_lt [of lb] by linarith
    with that show ?thesis by (simp add: word_and_masks unat_and_mask k_def le_mod_geq)
  qed
  have long: "cbs_get_any_asn1_element ber_ok s = (None, s)" if "\<not> unat lb < 128" "k \<noteq> 0" "k \<le> 4" "length h < k"
    using that assms(1) k7 small
    by (simp add: cbs_get_any_asn1_element_def cbs_get_u_def c_bind_def cbs_get_def)
  have full: "cbs_get_any_asn1_element ber_ok s =
     (if be_nat (take k h) < 128 \<or> be_nat (take k h) < 256 ^ (k - 1) then (None, s)
      else elem_at s tag (be_nat (take k h) + hl + k) (hl + k))"
    if c: "\<not> unat lb < 128" "k \<noteq> 0" "k \<le> 4" "\<not> length h < k"
  proof -
    define n where "n = be_nat (take k h)"
    define w where "w = foldl be_shift_in 0 (take k h)"
    have w: "unat w = n" using c by (simp add: w_def n_def unat_be_fold)
    have get: "cbs_get_u k h = (Some w, drop k h)"
      using c by (simp add: cbs_get_u_def c_bind_def cbs_get_def w_def)
    have "n < 256 ^ k" using be_nat_bound [of "take k h"] c by (simp add: n_def)
    also have "(256 :: nat) ^ k \<le> 256 ^ 4" using c by (intro power_increasing) simp_all
    finally have n: "n < 4294967296" by simp
    have hs: "hl \<le> 536870914" using length_der_tag [of tag] by (simp add: hl)
    have no_wrap: "size_add (size_add n hl) k = n + hl + k" "size_add n (size_add hl k) = n + hl + k"
      using n hs c by (simp_all add: size_mod_def)
    have d: "drop_bit ((k - 1) * 8) w = 0 \<longleftrightarrow> n < 256 ^ (k - 1)"
    proof -
      have "(2 :: nat) ^ ((k - 1) * 8) = 256 ^ (k - 1)"
        by (simp only: mult.commute [of _ 8] power_mult) simp
      then show ?thesis by (simp only: drop_bit_0_iff w)
    qed
    have l: "w < 128 \<longleftrightarrow> n < 128" by (simp add: word_less_nat_alt w)
    show ?thesis
      using c assms(1) k7 small get
      by (simp add: cbs_get_any_asn1_element_def Let_def CBS_len_def elem_at_bind hl_def [symmetric]
          no_wrap w d [unfolded One_nat_def] l n_def [symmetric])
  qed
  show ?thesis
  proof (cases "unat lb < 128")
    case True
    with assms(1) small show ?thesis
      by (simp add: cbs_get_any_asn1_element_def Let_def CBS_len_def elem_at_bind hl_def [symmetric])
  next
    case False
    show ?thesis
    proof (cases "k \<noteq> 0 \<and> k \<le> 4")
      case True
      with False long full show ?thesis by (cases "length h < k") simp_all
    next
      case out: False
      with False assms(1) k7 small show ?thesis
        by (auto simp: cbs_get_any_asn1_element_def Let_def CBS_len_def elem_at_bind hl_def [symmetric])
    qed
  qed
qed

lemma cbs_element_None:
  "parse_asn1_tag s = (None, h) \<Longrightarrow> cbs_get_any_asn1_element ber_ok s = (None, s)"
  "parse_asn1_tag s = (Some tag, []) \<Longrightarrow> cbs_get_any_asn1_element ber_ok s = (None, s)"
  by (simp_all add: cbs_get_any_asn1_element_def)

lemma cbs_element_fail_frame:
  "cbs_get_any_asn1_element ber_ok s = (None, t) \<Longrightarrow> t = s"
proof (cases "parse_asn1_tag s")
  case (Pair r h)
  assume run: "cbs_get_any_asn1_element ber_ok s = (None, t)"
  show ?thesis
  proof (cases r)
    case (Some tag)
    with Pair run show ?thesis
      by (cases h) (auto simp: cbs_element_None cbs_element_step elem_at_def Let_def split: if_splits)
  qed (use Pair run cbs_element_None in simp)
qed

text \<open>The parser reads what the encoding writes, \<open>ber_ok\<close> or not.\<close>

lemma cbs_element_der_elem:
  assumes body: "length body < 2 ^ 32"
  shows "cbs_get_any_asn1_element ber_ok (der_elem tag body @ s) =
         (Some (der_elem tag body, tag, der_hdr tag body), s)"
proof -
  define n where "n = length body"
  define all where "all = der_elem tag body @ s"
  have all: "all = der_tag tag @ der_len n @ body @ s" by (simp add: all_def der_elem_def n_def)
  show ?thesis
  proof (cases "n < 128")
    case True
    then have "parse_asn1_tag all = (Some tag, word_of_nat n # body @ s)"
      by (simp add: all der_len_def parse_der_tag)
    moreover have "unat (word_of_nat n :: byte) = n"
      using True by (simp only: unat_byte_of_nat) simp
    ultimately show ?thesis
      unfolding all_def [symmetric] using True
      by (simp add: cbs_element_step elem_at_def all der_len_def der_elem_def der_hdr_def n_def [symmetric])
  next
    case False
    define k where "k = nbytes n"
    have kb: "0 < k" "k \<le> 4" "256 ^ (k - 1) \<le> n" "n < 256 ^ k"
    proof -
      have "0 < n" using False by simp
      then show "0 < k" "256 ^ (k - 1) \<le> n" "n < 256 ^ k"
        using nbytes_unique [of n k] by (simp_all add: k_def)
      show "k \<le> 4" unfolding k_def using body by (intro nbytes_le) (simp add: n_def)
    qed
    have lb: "unat (word_of_nat (128 + k) :: byte) = 128 + k"
    proof -
      have "128 + k < 256" using kb by simp
      then show ?thesis by (simp only: unat_byte_of_nat mod_less)
    qed
    have "parse_asn1_tag all = (Some tag, word_of_nat (128 + k) # be_bytes k n @ body @ s)"
      using False by (simp add: all der_len_def parse_der_tag k_def del: of_nat_add)
    then show ?thesis
      unfolding all_def [symmetric] using False kb lb
      by (simp add: cbs_element_step elem_at_def all der_len_def der_elem_def der_hdr_def
          n_def [symmetric] k_def [symmetric] not_less del: of_nat_add)
  qed
qed

text \<open>And conversely: what it accepts is the encoding of a tag and a body shorter than \<open>2 ^ 32\<close>
  bytes, or, in BER mode, the header of an indefinite-length constructed element.\<close>

lemma elem_at_eq_Some:
  "elem_at s tag len hl = (Some (out, tag', hl'), t) \<longleftrightarrow>
     length out = len \<and> s = out @ t \<and> tag' = tag \<and> hl' = hl"
  by (auto simp: elem_at_def)

lemma append_eq_drop: "a @ t = b @ h \<Longrightarrow> length a = length b + m \<Longrightarrow> a = b @ take m h \<and> t = drop m h"
  by (auto simp: append_eq_append_conv2)

lemma cbs_element_canonical:
  assumes "cbs_get_any_asn1_element ber_ok s = (Some (out, tag, hl), t)"
  shows "s = out @ t \<and>
    ((\<exists>body. length body < 2 ^ 32 \<and> out = der_elem tag body \<and> hl = der_hdr tag body) \<or>
     (ber_ok \<and> tag AND CBS_ASN1_CONSTRUCTED \<noteq> 0 \<and> out = der_tag tag @ [128] \<and> hl = length out))"
proof -
  from assms obtain tag0 lb h where tg: "parse_asn1_tag s = (Some tag0, lb # h)"
    by (cases "parse_asn1_tag s"; cases "fst (parse_asn1_tag s)"; cases "snd (parse_asn1_tag s)")
      (auto simp: cbs_element_None)
  from tag_codec.canonical [OF tg] have s: "s = der_tag tag0 @ lb # h" by simp
  define L where "L = length (der_tag tag0)"
  have hl0: "length s - length h = Suc L" by (simp add: s L_def)
  have start: "s = (der_tag tag0 @ [lb]) @ h" "length (der_tag tag0 @ [lb]) = Suc L"
    by (simp_all add: s L_def)
  note step = assms [unfolded cbs_element_step [OF tg] hl0]
  show ?thesis
  proof (cases "unat lb < 128")
    case True
    with step have e: "length out = unat lb + Suc L" "s = out @ t" "tag = tag0" "hl = Suc L"
      by (simp_all add: elem_at_eq_Some)
    then have "out = (der_tag tag0 @ [lb]) @ take (unat lb) h" "t = drop (unat lb) h"
      using append_eq_drop [of out t "der_tag tag0 @ [lb]" h "unat lb"] start by auto
    moreover have "length (take (unat lb) h) = unat lb"
      using e(1) calculation(1) by (simp add: L_def)
    ultimately have "out = der_elem tag (take (unat lb) h) \<and> hl = der_hdr tag (take (unat lb) h)"
      using True e by (simp add: der_elem_def der_hdr_def der_len_def L_def)
    moreover have "length (take (unat lb) h) < 2 ^ 32" using True by simp
    ultimately show ?thesis using e(2) by blast
  next
    case False
    define k where "k = unat lb - 128"
    have lb: "lb = word_of_nat (128 + k)"
      using False by (intro word_of_nat_unat_eq) (simp add: k_def)
    show ?thesis
    proof (cases "ber_ok \<and> tag0 AND CBS_ASN1_CONSTRUCTED \<noteq> 0 \<and> k = 0")
      case True
      with step False have e: "length out = Suc L" "s = out @ t" "tag = tag0" "hl = Suc L"
        by (simp_all add: elem_at_eq_Some k_def)
      then have "out = der_tag tag0 @ [lb]"
        using append_eq_drop [of out t "der_tag tag0 @ [lb]" h 0] start by auto
      with e True lb show ?thesis by simp
    next
      case no_ber: False
      define n where "n = be_nat (take k h)"
      from step False no_ber have k: "k \<noteq> 0" "k \<le> 4" "k \<le> length h" "128 \<le> n" "256 ^ (k - 1) \<le> n"
        and e: "length out = n + Suc L + k" "s = out @ t" "tag = tag0" "hl = Suc L + k"
        by (auto simp: elem_at_eq_Some k_def [symmetric] n_def [symmetric] split: if_splits)
      define body where "body = take n (drop k h)"
      have lk: "length (take k h) = k" using k by simp
      have o: "out = (der_tag tag0 @ [lb]) @ take (n + k) h" "t = drop (n + k) h"
        using append_eq_drop [of out t "der_tag tag0 @ [lb]" h "n + k"] start e by auto
      then have "length h \<ge> n + k" using e(1) by (simp add: L_def)
      then have lbody: "length body = n" by (simp add: body_def)
      have tk: "take (n + k) h = take k h @ body"
        by (simp add: body_def take_add add.commute)
      have n256: "n < 256 ^ k" using be_nat_bound [of "take k h"] k by (simp add: n_def)
      have nk: "nbytes n = k" using nbytes_unique [of n k] k n256 by auto
      have bk: "take k h = be_bytes k n" using be_bytes_be_nat [of "take k h"] lk by (simp add: n_def)
      have "(256 :: nat) ^ k \<le> 256 ^ 4" using k by (intro power_increasing) simp_all
      with n256 have "length body < 2 ^ 32" by (simp add: lbody)
      moreover have "out = der_elem tag body \<and> hl = der_hdr tag body"
        using o(1) e k nk bk lb lbody
        by (simp add: tk der_elem_def der_hdr_def der_len_def L_def del: of_nat_add)
      ultimately show ?thesis using e(2) by blast
    qed
  qed
qed

text \<open>Reading an element and dropping its header, as \<open>CBS_get_any_asn1\<close> does: DER elements with
  their bodies are a strict codec, and never empty, so sequences of them parse uniquely.\<close>

lemma CBS_get_any_asn1_unfold:
  "CBS_get_any_asn1 s =
     (case CBS_get_any_asn1_element s of
        (None, t) \<Rightarrow> (None, t)
      | (Some (out, tag, hl), t) \<Rightarrow> (Some (drop hl out, tag), t))"
proof (cases "CBS_get_any_asn1_element s")
  case (Pair r t)
  show ?thesis
  proof (cases r)
    case (Some x)
    obtain out tag hl where x: "x = (out, tag, hl)" by (cases x)
    with Some Pair have run: "cbs_get_any_asn1_element False s = (Some (out, tag, hl), t)"
      by (simp add: CBS_get_any_asn1_element_def)
    from cbs_element_canonical [OF run] have "hl \<le> length out"
      by (auto simp: length_der_elem)
    then show ?thesis
      using Some Pair x by (simp add: CBS_get_any_asn1_def CBS_skip_def c_bind_def cbs_get_def)
  qed (use Pair in \<open>simp add: CBS_get_any_asn1_def\<close>)
qed

interpretation element_codec: seq_codec "\<lambda>(body, tag). der_elem tag body" CBS_get_any_asn1
  "\<lambda>(body, tag). length body < 2 ^ 32"
proof unfold_locales
  show "CBS_get_any_asn1 ((\<lambda>(body, tag). der_elem tag body) x @ rest) = (Some x, rest)"
    if "(\<lambda>(body, tag). length body < 2 ^ 32) x" for x :: "bytes \<times> u32" and rest
    using that by (cases x)
      (simp add: CBS_get_any_asn1_unfold CBS_get_any_asn1_element_def cbs_element_der_elem)
  show "(\<lambda>(body, tag). length body < 2 ^ 32) x \<and> s = (\<lambda>(body, tag). der_elem tag body) x @ t"
    if run: "CBS_get_any_asn1 s = (Some x, t)" for s t and x :: "bytes \<times> u32"
  proof -
    from run obtain out tag hl where e: "cbs_get_any_asn1_element False s = (Some (out, tag, hl), t)"
      and x: "x = (drop hl out, tag)"
      by (auto simp: CBS_get_any_asn1_unfold CBS_get_any_asn1_element_def split: prod.splits option.splits)
    from cbs_element_canonical [OF e] show ?thesis by (auto simp: x length_der_elem)
  qed
qed (auto split: prod.splits)

end
