(* ===== verification/CBS_Values.thy ===== *)
theory CBS_Values
  imports DER
begin

text \<open>
  The typed readers at the end of \<open>crypto/bytestring/cbs.c\<close>: INTEGER as an unsigned or signed
  64-bit value, BOOLEAN, optional explicitly tagged values, and BIT STRING. INTEGER is proved
  to be a strict codec: exactly the minimal two's-complement encodings are accepted.
\<close>

section \<open>Elements with a known tag\<close>

lemma CBS_get_asn1_unfold:
  "CBS_get_asn1 tag_value s =
     (case CBS_get_any_asn1 s of
        (None, t) \<Rightarrow> (None, t)
      | (Some (body, tag), t) \<Rightarrow> if tag = tag_value then (Some body, t) else (None, t))"
proof (cases "CBS_get_any_asn1_element s")
  case (Pair r t)
  show ?thesis
  proof (cases r)
    case (Some x)
    obtain out tag hl where x: "x = (out, tag, hl)" by (cases x)
    with Some Pair have run: "cbs_get_any_asn1_element False s = (Some (out, tag, hl), t)"
      by (simp add: CBS_get_any_asn1_element_def)
    from cbs_element_canonical [OF run] have "hl \<le> length out"
      by (auto simp: length_der_elem)
    then show ?thesis
      using Some Pair x
      by (simp add: CBS_get_asn1_def cbs_get_asn1_def CBS_get_any_asn1_unfold CBS_skip_def c_bind_def
          c_seq_def cbs_get_def c_guard_def)
  qed (use Pair in \<open>simp add: CBS_get_asn1_def cbs_get_asn1_def CBS_get_any_asn1_unfold\<close>)
qed

lemma CBS_get_asn1_eq_Some:
  "CBS_get_asn1 tag s = (Some body, t) \<longleftrightarrow> length body < 2 ^ 32 \<and> s = der_elem tag body @ t"
proof -
  have "CBS_get_asn1 tag s = (Some body, t) \<longleftrightarrow> CBS_get_any_asn1 s = (Some (body, tag), t)"
    by (auto simp: CBS_get_asn1_unfold split: prod.splits option.splits if_splits)
  then show ?thesis by (simp add: element_codec.accepts_iff)
qed

lemma CBS_get_asn1_der_elem:
  "length body < 2 ^ 32 \<Longrightarrow> CBS_get_asn1 tag (der_elem tag body @ t) = (Some body, t)"
  by (simp add: CBS_get_asn1_eq_Some)

lemma CBS_peek_der_elem:
  "CBS_peek_asn1_tag (der_elem tag' body @ t) tag \<longleftrightarrow> tag = tag'"
  by (simp add: CBS_peek_asn1_tag_def CBS_len_def der_elem_def parse_der_tag)

text \<open>A value carried as the body of an element with a fixed tag: the body's codec (which must
  use up the body) lifts to one for the element.\<close>

definition tagged :: "u32 \<Rightarrow> (cbs \<Rightarrow> 'a option) \<Rightarrow> (cbs, 'a) cop" where
  "tagged tag f = c_bind (CBS_get_asn1 tag) (\<lambda>body. case f body of None \<Rightarrow> c_fail | Some x \<Rightarrow> c_ret x)"

lemma tagged_eq_Some:
  "tagged tag f s = (Some x, t) \<longleftrightarrow>
     (\<exists>body. length body < 2 ^ 32 \<and> s = der_elem tag body @ t \<and> f body = Some x)"
  by (auto simp: tagged_def c_bind_eq_Some CBS_get_asn1_eq_Some split: option.splits)

section \<open>INTEGER, unsigned\<close>

fun asn1_uint64_loop :: "u64 \<Rightarrow> bytes \<Rightarrow> u64 option" where
  "asn1_uint64_loop out [] = Some out"
| "asn1_uint64_loop out (b # data) =
     (if drop_bit 56 out \<noteq> 0 then None else asn1_uint64_loop (be_shift_in out b) data)"

definition CBS_get_asn1_uint64 :: "(cbs, u64) cop" where
  "CBS_get_asn1_uint64 = c_bind (CBS_get_asn1 CBS_ASN1_INTEGER) (\<lambda>data.
     let len = CBS_len data
     in if len = 0 then c_fail
        else if data ! 0 AND 0x80 \<noteq> 0 then c_fail
        else if data ! 0 = 0 \<and> len > 1 \<and> data ! 1 AND 0x80 = 0 then c_fail
        else case asn1_uint64_loop 0 data of None \<Rightarrow> c_fail | Some out \<Rightarrow> c_ret out)"

text \<open>The contents octets of a non-negative INTEGER: the minimal big-endian bytes, with a zero byte
  in front when the first of them would read as a sign.\<close>

definition uint_body :: "nat \<Rightarrow> bytes" where
  "uint_body n =
     (if n = 0 then [0]
      else let bs = be_bytes (nbytes n) n in if hd bs AND 0x80 \<noteq> 0 then 0 # bs else bs)"

lemma be_bytes_Cons: "be_bytes (Suc k) n = word_of_nat (n div 256 ^ k) # be_bytes k n"
proof (induction k arbitrary: n)
  case (Suc k)
  have "n div 256 div 256 ^ k = n div 256 ^ Suc k"
    by (simp add: div_mult2_eq)
  with Suc [of "n div 256"] show ?case by simp
qed simp

lemma nbytes_be_nat: "bs \<noteq> [] \<Longrightarrow> hd bs \<noteq> 0 \<Longrightarrow> nbytes (be_nat bs) = length bs"
proof (cases bs)
  case (Cons b bs')
  assume "hd bs \<noteq> 0"
  with Cons have b: "1 \<le> unat b" by (simp add: word_zero_iff Suc_le_eq)
  have "256 ^ length bs' \<le> unat b * 256 ^ length bs'" using b by simp
  moreover have "be_nat bs = unat b * 256 ^ length bs' + be_nat bs'" by (simp add: Cons be_nat_Cons)
  ultimately have "256 ^ length bs' \<le> be_nat bs" by linarith
  then have "256 ^ (length bs - 1) \<le> be_nat bs" by (simp add: Cons)
  moreover have "0 < be_nat bs" using b by (simp add: Cons be_nat_Cons)
  ultimately show ?thesis
    using nbytes_unique [of "be_nat bs" "length bs"] be_nat_bound [of bs] Cons by simp
qed simp

lemma uint_body_be_nat:
  assumes "bs \<noteq> []" "hd bs AND 128 = 0" "\<not> (hd bs = 0 \<and> 1 < length bs \<and> bs ! 1 AND 128 = 0)"
  shows "uint_body (be_nat bs) = bs"
proof (cases bs)
  case (Cons b bs')
  show ?thesis
  proof (cases "b = 0")
    case False
    then have "nbytes (be_nat bs) = length bs" using Cons by (intro nbytes_be_nat) simp_all
    moreover have "0 < be_nat bs" using False Cons by (simp add: be_nat_Cons word_zero_iff)
    ultimately show ?thesis
      using assms(2) by (simp add: uint_body_def be_bytes_be_nat)
  next
    case zero: True
    show ?thesis
    proof (cases bs')
      case Nil
      then show ?thesis using Cons zero by (simp add: uint_body_def be_nat_Cons)
    next
      case (Cons c cs)
      with assms(3) zero \<open>bs = b # bs'\<close> have c: "c AND 128 \<noteq> 0" by simp
      then have c0: "c \<noteq> 0" by auto
      then have "nbytes (be_nat bs') = length bs'" using Cons by (intro nbytes_be_nat) simp_all
      then have "be_bytes (nbytes (be_nat bs')) (be_nat bs') = bs'" by (simp only: be_bytes_be_nat)
      moreover have "0 < be_nat bs'" using c0 Cons by (simp add: be_nat_Cons word_zero_iff)
      moreover have "be_nat bs = be_nat bs'" using zero \<open>bs = b # bs'\<close> by (simp add: be_nat_Cons)
      ultimately show ?thesis
        using c zero \<open>bs = b # bs'\<close> by (simp add: uint_body_def) (simp add: Cons)
    qed
  qed
qed (use assms in simp)

lemma hd_be_bytes_nbytes: "0 < n \<Longrightarrow> \<exists>b bs. be_bytes (nbytes n) n = b # bs \<and> b \<noteq> 0"
proof -
  assume n: "0 < n"
  define k where "k = nbytes n - 1"
  have k: "nbytes n = Suc k" "256 ^ k \<le> n" "n < 256 ^ Suc k"
    using nbytes_unique [of n "nbytes n"] n by (auto simp: k_def)
  have "n div 256 ^ k < 256" using k(3) by (simp add: less_mult_imp_div_less mult.commute)
  then have "unat (word_of_nat (n div 256 ^ k) :: byte) = n div 256 ^ k"
    by (simp only: unat_byte_of_nat mod_less)
  moreover have "0 < n div 256 ^ k" using k(2) by (simp add: div_greater_zero_iff)
  ultimately have "(word_of_nat (n div 256 ^ k) :: byte) \<noteq> 0" by (simp only: word_zero_iff)
  then show ?thesis by (simp only: k(1) be_bytes_Cons) blast
qed

lemma uint_body_facts:
  "uint_body n \<noteq> []" "hd (uint_body n) AND 128 = 0" "be_nat (uint_body n) = n"
  "\<not> (hd (uint_body n) = 0 \<and> 1 < length (uint_body n) \<and> uint_body n ! 1 AND 128 = 0)"
  "length (uint_body n) \<le> Suc (nbytes n)"
proof -
  have "uint_body n \<noteq> [] \<and> hd (uint_body n) AND 128 = 0 \<and> be_nat (uint_body n) = n \<and>
    \<not> (hd (uint_body n) = 0 \<and> 1 < length (uint_body n) \<and> uint_body n ! 1 AND 128 = 0) \<and>
    length (uint_body n) \<le> Suc (nbytes n)"
  proof (cases "n = 0")
    case False
    then obtain b bs where bs: "be_bytes (nbytes n) n = b # bs" "b \<noteq> 0"
      using hd_be_bytes_nbytes [of n] by auto
    have v: "be_nat (b # bs) = n"
      using be_nat_be_bytes_small [OF nbytes_bound] bs(1) by metis
    have l: "length (b # bs) = nbytes n" by (metis bs(1) length_be_bytes)
    have "be_nat (0 # b # bs) = n" using v by (simp add: be_nat_Cons)
    with False bs v l show ?thesis
      by (auto simp: uint_body_def Let_def)
  qed (simp add: uint_body_def be_nat_Cons)
  then show "uint_body n \<noteq> []" "hd (uint_body n) AND 128 = 0" "be_nat (uint_body n) = n"
    "\<not> (hd (uint_body n) = 0 \<and> 1 < length (uint_body n) \<and> uint_body n ! 1 AND 128 = 0)"
    "length (uint_body n) \<le> Suc (nbytes n)" by blast+
qed

lemma asn1_uint64_loop_eq:
  "asn1_uint64_loop r bs =
     (if bs = [] \<or> unat r * 256 ^ length bs + be_nat bs < 2 ^ 64
      then Some (word_of_nat (unat r * 256 ^ length bs + be_nat bs)) else None)"
proof (induction bs arbitrary: r)
  case (Cons b bs)
  show ?case
  proof (cases "unat r < 2 ^ 56")
    case True
    have s: "unat (be_shift_in r b) = unat r * 256 + unat b"
      using True by (rule unat_be_shift_in)
    have "(unat r * 256 + unat b) * 256 ^ length bs + be_nat bs =
        unat r * 256 ^ length (b # bs) + be_nat (b # bs)"
      by (simp add: be_nat_Cons algebra_simps)
    moreover have "unat r * 256 + unat b < 2 ^ 64"
      using unat_less_pow [of "be_shift_in r b"] by (simp add: s)
    ultimately show ?thesis
      using True by (auto simp: Cons.IH s drop_bit_0_iff simp del: of_nat_add of_nat_mult)
  next
    case False
    have "2 ^ 56 * 256 ^ 1 \<le> unat r * 256 ^ length (b # bs)"
      using False by (intro mult_le_mono power_increasing) simp_all
    with False show ?thesis by (simp add: drop_bit_0_iff)
  qed
qed simp

definition uint_dec :: "cbs \<Rightarrow> u64 option" where
  "uint_dec data =
     (if data = [] \<or> hd data AND 128 \<noteq> 0 \<or> (hd data = 0 \<and> 1 < length data \<and> data ! 1 AND 128 = 0)
         \<or> 2 ^ 64 \<le> be_nat data
      then None else Some (word_of_nat (be_nat data)))"

lemma CBS_get_asn1_uint64_tagged: "CBS_get_asn1_uint64 = tagged CBS_ASN1_INTEGER uint_dec"
proof -
  have "(let len = CBS_len data
     in if len = 0 then c_fail
        else if data ! 0 AND 0x80 \<noteq> 0 then c_fail
        else if data ! 0 = 0 \<and> len > 1 \<and> data ! 1 AND 0x80 = 0 then c_fail
        else case asn1_uint64_loop 0 data of None \<Rightarrow> c_fail | Some out \<Rightarrow> c_ret out) =
     ((case uint_dec data of None \<Rightarrow> c_fail | Some x \<Rightarrow> c_ret x) :: (cbs, u64) cop)" for data
    by (cases data) (simp_all add: uint_dec_def CBS_len_def asn1_uint64_loop_eq)
  then show ?thesis by (simp add: CBS_get_asn1_uint64_def tagged_def)
qed

lemma uint_dec_eq_Some: "uint_dec data = Some v \<longleftrightarrow> data = uint_body (unat v)"
proof
  assume d: "uint_dec data = Some v"
  then have c: "data \<noteq> []" "hd data AND 128 = 0" "\<not> (hd data = 0 \<and> 1 < length data \<and> data ! 1 AND 128 = 0)"
    and lt: "be_nat data < 2 ^ 64" and v: "v = word_of_nat (be_nat data)"
    by (auto simp: uint_dec_def split: if_splits)
  from lt have "unat v = be_nat data" unfolding v by (simp add: unsigned_of_nat take_bit_nat_eq_self)
  then show "data = uint_body (unat v)" using uint_body_be_nat [OF c] by simp
next
  assume "data = uint_body (unat v)"
  then show "uint_dec data = Some v"
    using uint_body_facts [of "unat v"] unat_less_pow [of v] by (auto simp: uint_dec_def)
qed

lemma uint_body_length: "unat (v :: u64) < 2 ^ 64 \<Longrightarrow> length (uint_body (unat v)) \<le> 9"
  using uint_body_facts(5) [of "unat v"] nbytes_le [of "unat v" 8] by simp

interpretation uint64_codec: seq_codec "\<lambda>v. der_elem CBS_ASN1_INTEGER (uint_body (unat v))"
  CBS_get_asn1_uint64 "\<lambda>_ :: u64. True"
proof unfold_locales
  show "CBS_get_asn1_uint64 (der_elem CBS_ASN1_INTEGER (uint_body (unat x)) @ rest) = (Some x, rest)"
    for x rest
    using uint_body_length [of x] unat_less_pow [of x]
    by (auto simp: CBS_get_asn1_uint64_tagged tagged_eq_Some uint_dec_eq_Some)
  show "True \<and> s = der_elem CBS_ASN1_INTEGER (uint_body (unat x)) @ t"
    if "CBS_get_asn1_uint64 s = (Some x, t)" for s t x
    using that by (auto simp: CBS_get_asn1_uint64_tagged tagged_eq_Some uint_dec_eq_Some)
qed simp

section \<open>INTEGER, signed\<close>

text \<open>The union of \<open>int64_t\<close> with its bytes, on a little-endian machine.\<close>

definition int64_of_bytes :: "bytes \<Rightarrow> u64" where
  "int64_of_bytes bytes = foldl be_shift_in 0 (rev bytes)"

definition CBS_get_asn1_int64 :: "(cbs, u64) cop" where
  "CBS_get_asn1_int64 = c_bind (CBS_get_asn1 CBS_ASN1_INTEGER) (\<lambda>data.
     let len = CBS_len data
     in if len = 0 \<or> len > 8 then c_fail
        else if len > 1 \<and> data ! 0 = 0 \<and> data ! 1 AND 0x80 = 0 then c_fail
        else if len > 1 \<and> data ! 0 = 0xff \<and> data ! 1 AND 0x80 \<noteq> 0 then c_fail
        else let is_negative = (data ! 0 AND 0x80 \<noteq> 0);
                 u = replicate 8 (if is_negative then 0xff else 0);
                 u = foldl (\<lambda>u i. u[i := data ! (len - i - 1)]) u [0..<len]
             in c_ret (int64_of_bytes u))"

text \<open>Minimal two's complement: no leading byte that only repeats the sign of the next. Stripping
  such bytes and sign-extending to eight bytes undo each other.\<close>

definition redundant :: "byte \<Rightarrow> byte \<Rightarrow> bool" where
  "redundant a b \<longleftrightarrow> (a = 0 \<and> b AND 0x80 = 0) \<or> (a = 0xff \<and> b AND 0x80 \<noteq> 0)"

fun strip_sign :: "bytes \<Rightarrow> bytes" where
  "strip_sign (a # b # bs) = (if redundant a b then strip_sign (b # bs) else a # b # bs)"
| "strip_sign bs = bs"

definition minimal_int :: "bytes \<Rightarrow> bool" where
  "minimal_int bs \<longleftrightarrow> bs \<noteq> [] \<and> \<not> (1 < length bs \<and> redundant (bs ! 0) (bs ! 1))"

definition sign_byte :: "byte \<Rightarrow> byte" where
  "sign_byte a = (if a AND 0x80 \<noteq> 0 then 0xff else 0)"

definition sign_extend :: "bytes \<Rightarrow> bytes" where
  "sign_extend bs = replicate (8 - length bs) (sign_byte (hd bs)) @ bs"

definition int_body :: "u64 \<Rightarrow> bytes" where
  "int_body v = strip_sign (be_bytes 8 (unat v))"

lemma redundant_sign_byte [simp]: "redundant (sign_byte a) a"
  by (simp add: redundant_def sign_byte_def)

lemma redundant_imp: "redundant a b \<Longrightarrow> a = sign_byte b"
  by (auto simp: redundant_def sign_byte_def)

lemma sign_byte_idem [simp]: "sign_byte (sign_byte a) = sign_byte a"
  by (simp add: sign_byte_def)

lemma strip_sign_minimal: "bs \<noteq> [] \<Longrightarrow> minimal_int (strip_sign bs)"
  by (induction bs rule: strip_sign.induct) (auto simp: minimal_int_def)

lemma strip_sign_id: "minimal_int bs \<Longrightarrow> strip_sign bs = bs"
  by (cases bs rule: strip_sign.cases) (auto simp: minimal_int_def)

lemma length_strip_sign: "length (strip_sign bs) \<le> length bs"
  by (induction bs rule: strip_sign.induct) auto

lemma strip_sign_replicate:
  "bs \<noteq> [] \<Longrightarrow> strip_sign (replicate n (sign_byte (hd bs)) @ bs) = strip_sign bs"
proof (induction n)
  case (Suc n)
  show ?case
  proof (cases n)
    case 0
    with Suc.prems show ?thesis by (cases bs) simp_all
  next
    case (Suc m)
    have "redundant (sign_byte (hd bs)) (sign_byte (hd bs))"
      using redundant_sign_byte [of "sign_byte (hd bs)"] by simp
    with Suc Suc.IH Suc.prems show ?thesis by simp
  qed
qed simp

lemma strip_sign_decompose:
  "bs \<noteq> [] \<Longrightarrow> \<exists>n. bs = replicate n (sign_byte (hd (strip_sign bs))) @ strip_sign bs"
proof (induction bs rule: strip_sign.induct)
  case (1 a b bs)
  show ?case
  proof (cases "redundant a b")
    case True
    with 1 obtain n where n: "b # bs = replicate n (sign_byte (hd (strip_sign (b # bs)))) @ strip_sign (b # bs)"
      by auto
    define sg where "sg = sign_byte (hd (strip_sign (b # bs)))"
    have "sign_byte b = sg"
    proof (cases n)
      case 0
      with n have "b # bs = strip_sign (b # bs)" by simp
      then show ?thesis by (metis list.sel(1) sg_def)
    next
      case (Suc m)
      with n have "b = sg" by (simp add: sg_def)
      moreover have "sign_byte sg = sg" unfolding sg_def by (rule sign_byte_idem)
      ultimately show ?thesis by simp
    qed
    with redundant_imp [OF True] have "a = sg" by simp
    then have "a # b # bs = replicate (Suc n) sg @ strip_sign (b # bs)"
      using n by (simp add: sg_def)
    with True show ?thesis unfolding sg_def by (metis strip_sign.simps(1))
  next
    case False
    then show ?thesis by (intro exI [of _ 0]) simp
  qed
qed (auto intro: exI [of _ 0])

lemma sign_extend_strip: "length bs = 8 \<Longrightarrow> sign_extend (strip_sign bs) = bs"
proof -
  assume l: "length bs = 8"
  then have "bs \<noteq> []" by auto
  then obtain n where n: "bs = replicate n (sign_byte (hd (strip_sign bs))) @ strip_sign bs"
    using strip_sign_decompose by blast
  then have "n = 8 - length (strip_sign bs)"
    using l by (metis add_diff_cancel_right' length_append length_replicate)
  with n show ?thesis by (simp add: sign_extend_def)
qed

lemma strip_sign_extend: "minimal_int bs \<Longrightarrow> strip_sign (sign_extend bs) = bs"
  by (simp add: sign_extend_def strip_sign_replicate strip_sign_id minimal_int_def)

lemma length_sign_extend: "length bs \<le> 8 \<Longrightarrow> length (sign_extend bs) = 8"
  by (simp add: sign_extend_def)

lemma store_rev:
  assumes "n \<le> length data" "length data \<le> length u"
  shows "foldl (\<lambda>u i. u[i := data ! (length data - i - 1)]) u [0..<n] =
         take n (rev data) @ drop n u"
  using assms(1)
proof (induction n)
  case (Suc n)
  then have IH: "foldl (\<lambda>u i. u[i := data ! (length data - i - 1)]) u [0..<n] = take n (rev data) @ drop n u"
    by simp
  have "drop n u = u ! n # drop (Suc n) u"
    using Suc.prems assms(2) by (intro Cons_nth_drop_Suc [symmetric]) simp
  moreover have "take (Suc n) (rev data) = take n (rev data) @ [rev data ! n]"
    using Suc.prems by (intro take_Suc_conv_app_nth) simp
  moreover have "rev data ! n = data ! (length data - n - 1)"
    using Suc.prems by (simp add: rev_nth)
  ultimately show ?case
    using IH Suc.prems by (simp add: list_update_append min_def)
qed simp

definition int_dec :: "cbs \<Rightarrow> u64 option" where
  "int_dec data =
     (if minimal_int data \<and> length data \<le> 8
      then Some (foldl be_shift_in 0 (sign_extend data)) else None)"

lemma CBS_get_asn1_int64_tagged: "CBS_get_asn1_int64 = tagged CBS_ASN1_INTEGER int_dec"
proof -
  have "(let len = CBS_len data
     in if len = 0 \<or> len > 8 then c_fail
        else if len > 1 \<and> data ! 0 = 0 \<and> data ! 1 AND 0x80 = 0 then c_fail
        else if len > 1 \<and> data ! 0 = 0xff \<and> data ! 1 AND 0x80 \<noteq> 0 then c_fail
        else let is_negative = (data ! 0 AND 0x80 \<noteq> 0);
                 u = replicate 8 (if is_negative then 0xff else 0);
                 u = foldl (\<lambda>u i. u[i := data ! (len - i - 1)]) u [0..<len]
             in c_ret (int64_of_bytes u)) =
     ((case int_dec data of None \<Rightarrow> c_fail | Some x \<Rightarrow> c_ret x) :: (cbs, u64) cop)"
    (is "?lhs = ?rhs") for data
  proof (cases "minimal_int data \<and> length data \<le> 8")
    case True
    define u :: bytes where "u = replicate 8 (sign_byte (hd data))"
    have "foldl (\<lambda>u i. u[i := data ! (length data - i - 1)]) u [0..<length data] =
        rev data @ drop (length data) u"
      using True store_rev [of "length data" data u] by (simp add: u_def)
    also have "\<dots> = rev (sign_extend data)"
      by (simp add: sign_extend_def u_def)
    finally have "int64_of_bytes (foldl (\<lambda>u i. u[i := data ! (length data - i - 1)]) u [0..<length data]) =
        foldl be_shift_in 0 (sign_extend data)"
      by (simp add: int64_of_bytes_def)
    with True show ?thesis
      by (auto simp: int_dec_def CBS_len_def minimal_int_def redundant_def u_def sign_byte_def
          hd_conv_nth Let_def simp del: replicate.simps)
  next
    case False
    then show ?thesis
      by (auto simp: int_dec_def CBS_len_def minimal_int_def redundant_def Let_def)
  qed
  then show ?thesis by (simp add: CBS_get_asn1_int64_def tagged_def)
qed

lemma int_dec_eq_Some: "int_dec data = Some v \<longleftrightarrow> data = int_body v"
proof
  assume "int_dec data = Some v"
  then have m: "minimal_int data" "length data \<le> 8" and v: "v = foldl be_shift_in 0 (sign_extend data)"
    by (auto simp: int_dec_def split: if_splits)
  have "unat v = be_nat (sign_extend data)"
    unfolding v using m(2) by (intro unat_be_fold) (simp add: length_sign_extend)
  then have "be_bytes 8 (unat v) = sign_extend data"
    using be_bytes_be_nat [of "sign_extend data"] m(2) by (simp add: length_sign_extend)
  then show "data = int_body v" using m(1) by (simp add: int_body_def strip_sign_extend)
next
  assume d: "data = int_body v"
  have "be_bytes 8 (unat v) \<noteq> []" by (metis length_be_bytes list.size(3) zero_neq_numeral)
  then have "minimal_int data" "length data \<le> 8"
    using strip_sign_minimal length_strip_sign [of "be_bytes 8 (unat v)"]
    by (simp_all add: d int_body_def)
  moreover have "sign_extend data = be_bytes 8 (unat v)"
    by (simp add: d int_body_def sign_extend_strip)
  moreover have "foldl be_shift_in 0 (be_bytes 8 (unat v)) = v"
    using unat_be_fold [of "be_bytes 8 (unat v)"] unat_less_pow [of v] by (simp add: word_unat_eq_iff)
  ultimately show "int_dec data = Some v" by (simp add: int_dec_def)
qed

lemma int_body_length: "length (int_body v) \<le> 8"
  using length_strip_sign [of "be_bytes 8 (unat v)"] by (simp add: int_body_def)

interpretation int64_codec: seq_codec "\<lambda>v. der_elem CBS_ASN1_INTEGER (int_body v)"
  CBS_get_asn1_int64 "\<lambda>_ :: u64. True"
proof unfold_locales
  show "CBS_get_asn1_int64 (der_elem CBS_ASN1_INTEGER (int_body x) @ rest) = (Some x, rest)" for x rest
  proof -
    have "length (int_body x) < 2 ^ 32" using int_body_length [of x] by simp
    then show ?thesis by (auto simp: CBS_get_asn1_int64_tagged tagged_eq_Some int_dec_eq_Some)
  qed
  show "True \<and> s = der_elem CBS_ASN1_INTEGER (int_body x) @ t"
    if "CBS_get_asn1_int64 s = (Some x, t)" for s t x
    using that by (auto simp: CBS_get_asn1_int64_tagged tagged_eq_Some int_dec_eq_Some)
qed simp

text \<open>A value that is not negative as a signed integer has the unsigned encoding.\<close>

lemma int_body_nonneg:
  assumes "unat v < 2 ^ 63"
  shows "int_body v = uint_body (unat v)"
proof -
  define bs where "bs = uint_body (unat v)"
  note f = uint_body_facts [of "unat v", folded bs_def]
  have len: "length bs \<le> 8"
  proof (rule ccontr)
    assume "\<not> length bs \<le> 8"
    then obtain b bs' where bs: "bs = b # bs'" and l8: "8 \<le> length bs'" by (cases bs) auto
    have be: "unat b * 256 ^ length bs' + be_nat bs' < 2 ^ 63"
      using f(3) assms bs by (simp add: be_nat_Cons)
    have p8: "(256 :: nat) ^ 8 \<le> 256 ^ length bs'" using l8 by (intro power_increasing) simp_all
    have "b = 0"
    proof (rule ccontr)
      assume "b \<noteq> 0"
      then have "1 \<le> unat b" by (simp add: word_zero_iff Suc_le_eq)
      then have "1 * 256 ^ 8 \<le> unat b * 256 ^ length bs'" using p8 by (intro mult_le_mono)
      with be show False by simp
    qed
    obtain c cs where c: "bs' = c # cs" using l8 by (cases bs') auto
    with f(4) bs \<open>b = 0\<close> have "128 \<le> unat c" by (simp add: byte_and_128)
    then have "128 * 256 ^ 7 \<le> unat c * 256 ^ length cs"
      using l8 c by (intro mult_le_mono power_increasing) simp_all
    also have "\<dots> \<le> be_nat bs'" by (simp add: c be_nat_Cons)
    finally show False using be by simp
  qed
  have m: "minimal_int bs"
    using f(1,2,4) by (auto simp: minimal_int_def redundant_def hd_conv_nth)
  have sx: "sign_extend bs = replicate (8 - length bs) 0 @ bs"
    using f(2) by (simp add: sign_extend_def sign_byte_def)
  have "be_nat (replicate n 0 @ bs) = be_nat bs" for n
    by (induction n) (simp_all add: be_nat_Cons)
  then have "be_nat (sign_extend bs) = unat v" by (simp add: sx f(3))
  then have "be_bytes 8 (unat v) = sign_extend bs"
    using be_bytes_be_nat [of "sign_extend bs"] len by (simp add: length_sign_extend)
  then show ?thesis using m by (simp add: int_body_def strip_sign_extend bs_def)
qed

section \<open>BOOLEAN\<close>

definition CBS_get_asn1_bool :: "(cbs, bool) cop" where
  "CBS_get_asn1_bool = c_bind (CBS_get_asn1 CBS_ASN1_BOOLEAN) (\<lambda>bytes.
     if CBS_len bytes \<noteq> 1 then c_fail
     else let value = CBS_data bytes ! 0
          in if value \<noteq> 0 \<and> value \<noteq> 0xff then c_fail else c_ret (value \<noteq> 0))"

definition bool_body :: "bool \<Rightarrow> bytes" where
  "bool_body b = [if b then 0xff else 0]"

definition bool_dec :: "cbs \<Rightarrow> bool option" where
  "bool_dec data = (if data = [0xff] then Some True else if data = [0] then Some False else None)"

lemma CBS_get_asn1_bool_tagged: "CBS_get_asn1_bool = tagged CBS_ASN1_BOOLEAN bool_dec"
proof -
  have "(if CBS_len data \<noteq> 1 then c_fail
     else let value = CBS_data data ! 0
          in if value \<noteq> 0 \<and> value \<noteq> 0xff then c_fail else c_ret (value \<noteq> 0)) =
     ((case bool_dec data of None \<Rightarrow> c_fail | Some x \<Rightarrow> c_ret x) :: (cbs, bool) cop)" for data
    by (cases data; cases "tl data") (auto simp: CBS_len_def CBS_data_def bool_dec_def)
  then show ?thesis by (simp add: CBS_get_asn1_bool_def tagged_def)
qed

lemma bool_dec_eq_Some: "bool_dec data = Some b \<longleftrightarrow> data = bool_body b"
  by (cases b) (auto simp: bool_dec_def bool_body_def)

interpretation bool_codec: seq_codec "\<lambda>b. der_elem CBS_ASN1_BOOLEAN (bool_body b)"
  CBS_get_asn1_bool "\<lambda>_. True"
  by unfold_locales
    (auto simp: CBS_get_asn1_bool_tagged tagged_eq_Some bool_dec_eq_Some bool_body_def)

section \<open>Optional values\<close>

text \<open>The result says whether the element was there (\<open>*out_present\<close>) and, if so, gives its body.\<close>

definition CBS_get_optional_asn1 :: "u32 \<Rightarrow> (cbs, cbs option) cop" where
  "CBS_get_optional_asn1 tag cbs =
     (if CBS_peek_asn1_tag cbs tag
      then c_bind (CBS_get_asn1 tag) (\<lambda>out. c_ret (Some out)) cbs
      else (Some None, cbs))"

definition CBS_get_optional_asn1_octet_string :: "u32 \<Rightarrow> (cbs, cbs \<times> bool) cop" where
  "CBS_get_optional_asn1_octet_string tag = c_bind (CBS_get_optional_asn1 tag) (\<lambda>present.
     case present of
       Some child \<Rightarrow>
         (case CBS_get_asn1 CBS_ASN1_OCTETSTRING child of
            (None, _) \<Rightarrow> c_fail
          | (Some out, child) \<Rightarrow> if CBS_len child \<noteq> 0 then c_fail else c_ret (out, True))
     | None \<Rightarrow> c_ret (CBS_init [] 0, False))"

definition CBS_get_optional_asn1_uint64 :: "u32 \<Rightarrow> u64 \<Rightarrow> (cbs, u64) cop" where
  "CBS_get_optional_asn1_uint64 tag default_value = c_bind (CBS_get_optional_asn1 tag) (\<lambda>present.
     case present of
       Some child \<Rightarrow>
         (case CBS_get_asn1_uint64 child of
            (None, _) \<Rightarrow> c_fail
          | (Some out, child) \<Rightarrow> if CBS_len child \<noteq> 0 then c_fail else c_ret out)
     | None \<Rightarrow> c_ret default_value)"

definition CBS_get_optional_asn1_bool :: "u32 \<Rightarrow> int \<Rightarrow> (cbs, int) cop" where
  "CBS_get_optional_asn1_bool tag default_value = c_bind (CBS_get_optional_asn1 tag) (\<lambda>present.
     case present of
       Some child \<Rightarrow>
         (case CBS_get_asn1 CBS_ASN1_BOOLEAN child of
            (None, _) \<Rightarrow> c_fail
          | (Some child2, child) \<Rightarrow>
              if CBS_len child2 \<noteq> 1 \<or> CBS_len child \<noteq> 0 then c_fail
              else let boolean = CBS_data child2 ! 0
                   in if boolean = 0 then c_ret 0
                      else if boolean = 0xff then c_ret 1
                      else c_fail)
     | None \<Rightarrow> c_ret default_value)"

text \<open>A missing element leaves the input alone and is reported as such; a present one, in an
  explicit tag, must hold exactly one value.\<close>

lemma CBS_get_optional_asn1_absent:
  "\<not> CBS_peek_asn1_tag s tag \<Longrightarrow> CBS_get_optional_asn1 tag s = (Some None, s)"
  by (simp add: CBS_get_optional_asn1_def)

lemma CBS_get_optional_asn1_present:
  "length body < 2 ^ 32 \<Longrightarrow> CBS_get_optional_asn1 tag (der_elem tag body @ t) = (Some (Some body), t)"
  by (simp add: CBS_get_optional_asn1_def CBS_peek_der_elem CBS_get_asn1_der_elem)

lemma CBS_get_optional_asn1_eq_Some:
  "CBS_get_optional_asn1 tag s = (Some (Some body), t) \<longleftrightarrow>
     length body < 2 ^ 32 \<and> s = der_elem tag body @ t"
  by (auto simp: CBS_get_optional_asn1_def c_bind_eq_Some CBS_get_asn1_eq_Some CBS_peek_der_elem)

lemma CBS_get_optional_asn1_uint64_eq:
  "CBS_get_optional_asn1_uint64 tag d s = (Some v, t) \<longleftrightarrow>
     (\<not> CBS_peek_asn1_tag s tag \<and> v = d \<and> t = s) \<or>
     (s = der_elem tag (der_elem CBS_ASN1_INTEGER (uint_body (unat v))) @ t)"
  (is "?lhs \<longleftrightarrow> ?absent \<or> ?present")
proof
  assume lhs: ?lhs
  then obtain present u where o: "CBS_get_optional_asn1 tag s = (Some present, u)"
    by (auto simp: CBS_get_optional_asn1_uint64_def c_bind_eq_Some)
  consider (none) "CBS_get_optional_asn1 tag s = (Some None, s)" "\<not> CBS_peek_asn1_tag s tag" "v = d" "t = s"
    | (some) body where "CBS_get_optional_asn1 tag s = (Some (Some body), t)"
        "CBS_get_asn1_uint64 body = (Some v, [])"
  proof (cases present)
    case None
    with o have "\<not> CBS_peek_asn1_tag s tag" "u = s"
      by (auto simp: CBS_get_optional_asn1_def c_bind_eq_Some split: if_splits)
    moreover have "v = d" "t = u" using lhs o None by (auto simp: CBS_get_optional_asn1_uint64_def)
    ultimately show thesis using none o None by blast
  next
    case (Some body)
    have "t = u \<and> CBS_get_asn1_uint64 body = (Some v, [])"
      using lhs o Some
      by (auto simp: CBS_get_optional_asn1_uint64_def CBS_len_def split: option.splits prod.splits if_splits)
    with o Some show thesis using some by blast
  qed
  then show "?absent \<or> ?present"
  proof cases
    case some
    then show ?thesis
      using uint64_codec.canonical [OF some(2)] by (simp add: CBS_get_optional_asn1_eq_Some)
  qed simp
next
  assume "?absent \<or> ?present"
  then show ?lhs
  proof
    assume ?present
    moreover have "length (der_elem CBS_ASN1_INTEGER (uint_body (unat v))) < 2 ^ 32"
    proof -
      have "der_tag CBS_ASN1_INTEGER = [2]"
        by (simp add: der_tag_def CBS_ASN1_INTEGER_def)
      then show ?thesis
        using uint_body_length [of v] unat_less_pow [of v] by (simp add: der_elem_def der_len_def)
    qed
    ultimately show ?lhs
      using uint64_codec.dec_enc [of v "[]"]
      by (simp add: CBS_get_optional_asn1_uint64_def CBS_get_optional_asn1_present CBS_len_def)
  qed (simp add: CBS_get_optional_asn1_uint64_def CBS_get_optional_asn1_absent)
qed

section \<open>BIT STRING\<close>

definition CBS_is_valid_asn1_bitstring :: "cbs \<Rightarrow> bool" where
  "CBS_is_valid_asn1_bitstring cbs =
     (case CBS_get_u8 cbs of
        (None, _) \<Rightarrow> False
      | (Some num_unused_bits, inn) \<Rightarrow>
          if num_unused_bits > 7 then False
          else if num_unused_bits = 0 then True
          else (case CBS_get_last_u8 inn of
                  (None, _) \<Rightarrow> False
                | (Some last_byte, _) \<Rightarrow> last_byte AND (push_bit (unat num_unused_bits) 1 - 1) = 0))"

definition CBS_asn1_bitstring_has_bit :: "cbs \<Rightarrow> u32 \<Rightarrow> bool" where
  "CBS_asn1_bitstring_has_bit cbs bit_pos =
     (if \<not> CBS_is_valid_asn1_bitstring cbs then False
      else let byte_num = drop_bit 3 bit_pos + 1; bit_num = 7 - (bit_pos AND 7)
           in unat byte_num < CBS_len cbs \<and>
              CBS_data cbs ! unat byte_num AND push_bit (unat bit_num) 1 \<noteq> 0)"

text \<open>The bits of a bit string in order: the bits of each byte from the top, without the unused
  ones at the end.\<close>

definition bits_of_byte :: "byte \<Rightarrow> bool list" where
  "bits_of_byte b = map (\<lambda>i. bit b (7 - i)) [0..<8]"

definition bitstring_bits :: "cbs \<Rightarrow> bool list" where
  "bitstring_bits cbs =
     (let all = concat (map bits_of_byte (tl cbs)) in take (length all - unat (hd cbs)) all)"

lemma length_concat_bits: "length (concat (map bits_of_byte bs)) = 8 * length bs"
  by (induction bs) (simp_all add: bits_of_byte_def)

lemma nth_concat_bits:
  "n < 8 * length bs \<Longrightarrow> concat (map bits_of_byte bs) ! n = bit (bs ! (n div 8)) (7 - n mod 8)"
proof (induction bs arbitrary: n)
  case (Cons b bs)
  have l: "length (bits_of_byte b) = 8" by (simp add: bits_of_byte_def)
  show ?case
  proof (cases "n < 8")
    case True
    with l show ?thesis by (simp add: nth_append bits_of_byte_def)
  next
    case False
    then obtain m where m: "n = 8 + m" by (metis le_add_diff_inverse not_less)
    then have "n div 8 = Suc (m div 8)" "n mod 8 = m mod 8" by simp_all
    with Cons l m show ?thesis by (simp add: nth_append)
  qed
qed simp

lemma unused_bits_zero:
  "(b :: byte) AND (push_bit u 1 - 1) = 0 \<Longrightarrow> k < u \<Longrightarrow> \<not> bit b k"
proof
  assume a: "b AND (push_bit u 1 - 1) = 0" "k < u" "bit b k"
  then have "b AND mask u = 0" by (simp add: mask_eq_exp_minus_1 push_bit_eq_mult)
  then have "\<not> bit (b AND mask u) k" by simp
  with a show False using bit_imp_le_length [of b k] by (simp add: bit_simps)
qed

lemma CBS_asn1_bitstring_has_bit_iff:
  assumes valid: "CBS_is_valid_asn1_bitstring cbs"
  shows "CBS_asn1_bitstring_has_bit cbs b \<longleftrightarrow>
         unat b < length (bitstring_bits cbs) \<and> bitstring_bits cbs ! unat b"
proof -
  from valid obtain u bs where cbs: "cbs = u # bs" and u7: "unat u \<le> 7"
    by (cases cbs) (auto simp: CBS_is_valid_asn1_bitstring_def word_less_nat_alt not_less split: if_splits)
  define n where "n = unat b"
  have n32: "n < 4294967296" using unat_less_pow [of b] by (simp add: n_def)
  have bn: "unat (drop_bit 3 b + 1) = n div 8 + 1"
  proof -
    have "n div 8 < 536870912" using n32 by (simp add: less_mult_imp_div_less)
    then show ?thesis by (simp add: unat_word_ariths unat_drop_bit_div n_def)
  qed
  have bitn: "unat (7 - (b AND 7)) = 7 - n mod 8"
  proof -
    have "b AND 7 = b AND mask 3" by (simp add: mask_eq_exp_minus_1)
    then have m: "unat (b AND 7) = n mod 8" by (simp add: unat_and_mask n_def)
    then have "b AND 7 \<le> 7" by (simp add: word_le_nat_alt)
    then show ?thesis using m by (simp add: unat_sub)
  qed
  have has: "CBS_asn1_bitstring_has_bit cbs b \<longleftrightarrow> n div 8 < length bs \<and> bit (bs ! (n div 8)) (7 - n mod 8)"
    using valid by (simp add: CBS_asn1_bitstring_has_bit_def bn bitn CBS_len_def CBS_data_def cbs and_exp_eq_0_iff_not_bit)
  have idx: "n div 8 < length bs \<longleftrightarrow> n < 8 * length bs"
    by (simp add: div_less_iff_less_mult mult.commute)
  have unused: "\<not> bit (bs ! (n div 8)) (7 - n mod 8)"
    if "n < 8 * length bs" "8 * length bs - unat u \<le> n"
  proof -
    from that have "unat u \<noteq> 0" "bs \<noteq> []" by auto
    then have "u \<noteq> 0" by auto
    with valid cbs \<open>bs \<noteq> []\<close> have z: "last bs AND (push_bit (unat u) 1 - 1) = 0"
      by (auto simp: CBS_is_valid_asn1_bitstring_def CBS_get_last_u8_def CBS_len_def split: if_splits)
    have d: "n div 8 = length bs - 1" using that u7 by (intro div_nat_eqI) auto
    then have "bs ! (n div 8) = last bs" using \<open>bs \<noteq> []\<close> by (simp add: last_conv_nth)
    moreover have "7 - n mod 8 < unat u"
    proof -
      have "n = 8 * (length bs - 1) + n mod 8" using d by (metis mult_div_mod_eq)
      with that \<open>unat u \<noteq> 0\<close> show ?thesis by linarith
    qed
    ultimately show ?thesis using unused_bits_zero [OF z] by simp
  qed
  have len: "length (bitstring_bits cbs) = 8 * length bs - unat u"
    by (simp add: bitstring_bits_def cbs length_concat_bits)
  have "n < 8 * length bs - unat u \<Longrightarrow> bitstring_bits cbs ! n = bit (bs ! (n div 8)) (7 - n mod 8)"
    by (simp add: bitstring_bits_def cbs length_concat_bits nth_concat_bits)
  with has idx unused len show ?thesis unfolding n_def [symmetric]
    by (metis diff_le_self less_le_trans not_less)
qed

end
