(* ===== verification/CBB.thy ===== *)
theory CBB
  imports CBS_Values
begin

text \<open>
  The byte builder of BoringSSL, \<open>crypto/bytestring/cbb.c\<close>. A top-level \<open>CBB\<close> owns a growable or
  fixed buffer (\<open>cbb_buffer_st\<close>); a length-prefixed child writes into the same buffer, and its
  prefix is filled in when the parent is flushed. A parent has at most one live child, so the
  live \<open>CBB\<close>s of one buffer form a chain from the top down: the model keeps that chain as the
  list of children, outermost first, each with the address of the caller's object. A child that
  is no longer in the chain is one whose \<open>base\<close> the code has set to NULL. The buffer is the list
  of its \<open>cap\<close> bytes, of which the first \<open>len\<close> are written.
\<close>

record cbb_buffer =
  cbb_buf :: bytes
  cbb_len :: nat
  cbb_cap :: nat
  can_resize :: bool
  cbb_error :: bool
  cbb_alloc :: allocator  \<comment> \<open>the process's allocator\<close>

record cbb_child =
  addr :: nat
  offset :: nat
  pending_len_len :: nat
  pending_is_asn1 :: bool

record cbb =
  cbb_base :: "cbb_buffer option"  \<comment> \<open>None: \<open>cbb->base == NULL\<close>\<close>
  cbb_chain :: "cbb_child list"

text \<open>Which \<open>CBB\<close> a call is made on: the top-level one, or a child by its address.\<close>

datatype cbb_ref = Top | Sub nat

fun children_of :: "nat \<Rightarrow> cbb_child list \<Rightarrow> (cbb_child list \<times> cbb_child list) option" where
  "children_of a [] = None"
| "children_of a (c # cs) =
     (if addr c = a then Some ([c], cs)
      else map_option (\<lambda>(outer, kids). (c # outer, kids)) (children_of a cs))"

text \<open>The chain down to the addressed \<open>CBB\<close> and its descendants; \<open>None\<close> for a dead child.\<close>

fun split_chain :: "cbb_ref \<Rightarrow> cbb_child list \<Rightarrow> (cbb_child list \<times> cbb_child list) option" where
  "split_chain Top cs = Some ([], cs)"
| "split_chain (Sub a) cs = children_of a cs"

section \<open>The buffer\<close>

definition cbb_init :: "allocator \<Rightarrow> bytes \<Rightarrow> nat \<Rightarrow> cbb_buffer option" where
  "cbb_init alloc buf cap =
     (case alloc 32 of
        None \<Rightarrow> None
      | Some _ \<Rightarrow> Some \<lparr>cbb_buf = buf, cbb_len = 0, cbb_cap = cap, can_resize = True,
                      cbb_error = False, cbb_alloc = alloc\<rparr>)"

definition CBB_zero :: cbb where
  "CBB_zero = \<lparr>cbb_base = None, cbb_chain = []\<rparr>"

definition CBB_init :: "allocator \<Rightarrow> nat \<Rightarrow> bool \<times> cbb" where
  "CBB_init alloc initial_capacity =
     (case alloc initial_capacity of
        None \<Rightarrow> if initial_capacity > 0 then (False, CBB_zero)
                else (case cbb_init alloc [] 0 of
                        None \<Rightarrow> (False, CBB_zero)
                      | Some b \<Rightarrow> (True, CBB_zero\<lparr>cbb_base := Some b\<rparr>))
      | Some buf \<Rightarrow> (case cbb_init alloc buf initial_capacity of
                        None \<Rightarrow> (False, CBB_zero)
                      | Some b \<Rightarrow> (True, CBB_zero\<lparr>cbb_base := Some b\<rparr>)))"

definition CBB_init_fixed :: "allocator \<Rightarrow> bytes \<Rightarrow> bool \<times> cbb" where
  "CBB_init_fixed alloc buf =
     (case cbb_init alloc buf (length buf) of
        None \<Rightarrow> (False, CBB_zero)
      | Some b \<Rightarrow> (True, CBB_zero\<lparr>cbb_base := Some (b\<lparr>can_resize := False\<rparr>)\<rparr>))"

definition CBB_cleanup :: "cbb_ref \<Rightarrow> cbb \<Rightarrow> cbb" where
  "CBB_cleanup p cbb = (if p \<noteq> Top then cbb else cbb\<lparr>cbb_base := None\<rparr>)"

text \<open>\<open>OPENSSL_realloc\<close> of the buffer: a new block with the old bytes in front.\<close>

definition cbb_realloc :: "allocator \<Rightarrow> bytes \<Rightarrow> nat \<Rightarrow> bytes option" where
  "cbb_realloc alloc buf new_size =
     (case alloc new_size of
        None \<Rightarrow> None
      | Some blk \<Rightarrow> Some (mem_write 0 (take new_size buf) blk))"

definition cbb_buffer_reserve :: "nat \<Rightarrow> (cbb_buffer, nat) cop" where
  "cbb_buffer_reserve len base =
     (let newlen = size_add (cbb_len base) len;
          err = (None, base\<lparr>cbb_error := True\<rparr>)
      in if newlen < cbb_len base then err
         else if newlen > cbb_cap base
         then (if \<not> can_resize base then err
               else let newcap = size_mult (cbb_cap base) 2;
                        newcap = (if newcap < cbb_cap base \<or> newcap < newlen then newlen else newcap)
                    in case cbb_realloc (cbb_alloc base) (cbb_buf base) newcap of
                         None \<Rightarrow> err
                       | Some newbuf \<Rightarrow>
                           (Some (cbb_len base), base\<lparr>cbb_buf := newbuf, cbb_cap := newcap\<rparr>))
         else (Some (cbb_len base), base))"

text \<open>The result is the offset \<open>*out\<close> points to.\<close>

definition cbb_buffer_add :: "nat \<Rightarrow> (cbb_buffer, nat) cop" where
  "cbb_buffer_add len base =
     (case cbb_buffer_reserve len base of
        (None, base) \<Rightarrow> (None, base)
      | (Some out, base) \<Rightarrow> (Some out, base\<lparr>cbb_len := cbb_len base + len\<rparr>))"

text \<open>The loops that store a number big-endian, last byte first, and leave what did not fit.\<close>

fun put_be :: "nat \<Rightarrow> nat \<Rightarrow> nat \<Rightarrow> bytes \<Rightarrow> bytes \<times> nat" where
  "put_be off 0 v buf = (buf, v)"
| "put_be off (Suc i) v buf = put_be off i (v div 256) (buf[off + i := word_of_nat v])"

definition cbb_buffer_add_u :: "nat \<Rightarrow> nat \<Rightarrow> (cbb_buffer, unit) cop" where
  "cbb_buffer_add_u v len_len base =
     (if len_len = 0 then (Some (), base)
      else case cbb_buffer_add len_len base of
             (None, base) \<Rightarrow> (None, base)
           | (Some out, base) \<Rightarrow>
               (case put_be out len_len v (cbb_buf base) of
                  (buf, v) \<Rightarrow>
                    if v \<noteq> 0 then (None, base\<lparr>cbb_buf := buf, cbb_error := True\<rparr>)
                    else (Some (), base\<lparr>cbb_buf := buf\<rparr>)))"

section \<open>Flushing\<close>

text \<open>The length prefix of a child whose contents start at \<open>child_start\<close> and are \<open>len\<close> bytes long.
  For ASN.1 one byte was set aside; a longer form moves the contents up. \<open>None\<close> is \<open>goto err\<close>.\<close>

definition asn1_len_form :: "nat \<Rightarrow> (nat \<times> byte \<times> nat) option" where
  "asn1_len_form len =
     (if len > 0xfffffffe then None
      else if len > 0xffffff then Some (5, 0x80 OR 4, len)
      else if len > 0xffff then Some (4, 0x80 OR 3, len)
      else if len > 0xff then Some (3, 0x80 OR 2, len)
      else if len > 0x7f then Some (2, 0x80 OR 1, len)
      else Some (1, word_of_nat len, 0))"

definition write_prefix :: "cbb_child \<Rightarrow> nat \<Rightarrow> nat \<Rightarrow> (cbb_buffer, unit) cop" where
  "write_prefix c child_start len base =
     (let finish = (\<lambda>off n v base.
            case put_be off n v (cbb_buf base) of
              (buf, v) \<Rightarrow> if v \<noteq> 0 then (None, base\<lparr>cbb_buf := buf\<rparr>)
                         else (Some (), base\<lparr>cbb_buf := buf\<rparr>))
      in if pending_is_asn1 c
         then (case asn1_len_form len of
                 None \<Rightarrow> (None, base)
               | Some (len_len, initial_length_byte, v) \<Rightarrow>
                   (let extra_bytes = len_len - 1;
                        moved = (if len_len \<noteq> 1
                          then c_bind (cbb_buffer_add extra_bytes) (\<lambda>_ base.
                                 (Some (), base\<lparr>cbb_buf := mem_write (child_start + extra_bytes)
                                    (take len (drop child_start (cbb_buf base))) (cbb_buf base)\<rparr>)) base
                          else (Some (), base))
                    in case moved of
                         (None, base) \<Rightarrow> (None, base)
                       | (Some _, base) \<Rightarrow>
                           finish (offset c + 1) (len_len - 1) v
                             (base\<lparr>cbb_buf := (cbb_buf base)[offset c := initial_length_byte]\<rparr>)))
         else finish (offset c) (pending_len_len c) len base)"

text \<open>\<open>CBB_flush\<close> on a \<open>CBB\<close> with the given chain of descendants: the descendants that stay alive
  are returned beside the buffer. The recursion of the C code follows the child pointers.\<close>

fun flush_chain :: "cbb_child list \<Rightarrow> cbb_buffer \<Rightarrow> bool \<times> cbb_buffer \<times> cbb_child list" where
  "flush_chain [] base = (\<not> cbb_error base, base, [])"
| "flush_chain (c # cs) base =
     (if cbb_error base then (False, base, c # cs)
      else if pending_len_len c = 0 then (True, base, c # cs)
      else let child_start = size_add (offset c) (pending_len_len c)
           in case flush_chain cs base of
                (ok, base, cs) \<Rightarrow>
                  if \<not> ok \<or> child_start < offset c \<or> cbb_len base < child_start
                  then (False, base\<lparr>cbb_error := True\<rparr>, c # cs)
                  else (case write_prefix c child_start (cbb_len base - child_start) base of
                          (None, base) \<Rightarrow> (False, base\<lparr>cbb_error := True\<rparr>, c # cs)
                        | (Some _, base) \<Rightarrow> (True, base, [])))"

definition CBB_flush :: "cbb_ref \<Rightarrow> (cbb, unit) cop" where
  "CBB_flush p cbb =
     (case (cbb_base cbb, split_chain p (cbb_chain cbb)) of
        (Some b, Some (outer, kids)) \<Rightarrow>
          (case flush_chain kids b of
             (ok, b, kids) \<Rightarrow> (if ok then Some () else None,
                              cbb\<lparr>cbb_base := Some b, cbb_chain := outer @ kids\<rparr>))
      | _ \<Rightarrow> (None, cbb))"

text \<open>\<open>CBB_finish\<close> hands over the buffer and its length. \<open>want_out\<close> says that neither \<open>out_data\<close>
  nor \<open>out_len\<close> is NULL.\<close>

definition CBB_finish :: "cbb_ref \<Rightarrow> bool \<Rightarrow> (cbb, bytes \<times> nat) cop" where
  "CBB_finish p want_out cbb =
     (if p \<noteq> Top then (None, cbb)
      else case CBB_flush p cbb of
             (None, cbb) \<Rightarrow> (None, cbb)
           | (Some _, cbb) \<Rightarrow>
               (case cbb_base cbb of
                  None \<Rightarrow> (None, cbb)
                | Some b \<Rightarrow>
                    if can_resize b \<and> \<not> want_out then (None, cbb)
                    else (Some (cbb_buf b, cbb_len b), CBB_cleanup p cbb)))"

text \<open>An operation on the buffer of the addressed \<open>CBB\<close> after a flush: the shape of nearly every
  function below.\<close>

definition on_base :: "(cbb_buffer, 'a) cop \<Rightarrow> (cbb, 'a) cop" where
  "on_base f cbb =
     (case cbb_base cbb of
        None \<Rightarrow> (None, cbb)
      | Some b \<Rightarrow> (case f b of (r, b) \<Rightarrow> (r, cbb\<lparr>cbb_base := Some b\<rparr>)))"

text \<open>Start and length of what has been written to the addressed \<open>CBB\<close>.\<close>

definition cbb_start :: "cbb_ref \<Rightarrow> cbb \<Rightarrow> nat" where
  "cbb_start p cbb =
     (case split_chain p (cbb_chain cbb) of
        None \<Rightarrow> 0
      | Some (outer, kids) \<Rightarrow>
          if outer = [] then 0 else offset (last outer) + pending_len_len (last outer))"

definition CBB_data :: "cbb_ref \<Rightarrow> cbb \<Rightarrow> bytes" where
  "CBB_data p cbb =
     (case cbb_base cbb of None \<Rightarrow> [] | Some b \<Rightarrow> drop (cbb_start p cbb) (cbb_buf b))"

definition CBB_len :: "cbb_ref \<Rightarrow> cbb \<Rightarrow> nat" where
  "CBB_len p cbb =
     (case cbb_base cbb of None \<Rightarrow> 0 | Some b \<Rightarrow> cbb_len b - cbb_start p cbb)"

section \<open>Adding to the buffer\<close>

definition cbb_push_child :: "nat \<Rightarrow> nat \<Rightarrow> nat \<Rightarrow> bool \<Rightarrow> (cbb, unit) cop" where
  "cbb_push_child a off len_len is_asn1 cbb =
     (Some (), cbb\<lparr>cbb_chain := cbb_chain cbb @
        [\<lparr>addr = a, offset = off, pending_len_len = len_len, pending_is_asn1 = is_asn1\<rparr>]\<rparr>)"

text \<open>\<open>out_contents\<close> is the address of the caller's \<open>CBB\<close> that becomes the child.\<close>

definition cbb_add_length_prefixed :: "cbb_ref \<Rightarrow> nat \<Rightarrow> nat \<Rightarrow> (cbb, unit) cop" where
  "cbb_add_length_prefixed p out_contents len_len =
     c_seq (CBB_flush p)
       (c_bind (on_base (\<lambda>b. case cbb_buffer_add len_len b of
                  (None, b) \<Rightarrow> (None, b)
                | (Some off, b) \<Rightarrow>
                    (Some off, b\<lparr>cbb_buf := mem_write off (replicate len_len 0) (cbb_buf b)\<rparr>)))
         (\<lambda>off. cbb_push_child out_contents off len_len False))"

definition CBB_add_u8_length_prefixed :: "cbb_ref \<Rightarrow> nat \<Rightarrow> (cbb, unit) cop" where
  "CBB_add_u8_length_prefixed p out_contents = cbb_add_length_prefixed p out_contents 1"

definition CBB_add_u16_length_prefixed :: "cbb_ref \<Rightarrow> nat \<Rightarrow> (cbb, unit) cop" where
  "CBB_add_u16_length_prefixed p out_contents = cbb_add_length_prefixed p out_contents 2"

definition CBB_add_u24_length_prefixed :: "cbb_ref \<Rightarrow> nat \<Rightarrow> (cbb, unit) cop" where
  "CBB_add_u24_length_prefixed p out_contents = cbb_add_length_prefixed p out_contents 3"

definition CBB_add_bytes :: "cbb_ref \<Rightarrow> bytes \<Rightarrow> (cbb, unit) cop" where
  "CBB_add_bytes p data =
     c_seq (CBB_flush p)
       (on_base (\<lambda>b. case cbb_buffer_add (length data) b of
            (None, b) \<Rightarrow> (None, b)
          | (Some dest, b) \<Rightarrow> (Some (), b\<lparr>cbb_buf := mem_write dest data (cbb_buf b)\<rparr>)))"

definition CBB_add_space :: "cbb_ref \<Rightarrow> nat \<Rightarrow> (cbb, nat) cop" where
  "CBB_add_space p len = c_seq (CBB_flush p) (on_base (cbb_buffer_add len))"

definition CBB_reserve :: "cbb_ref \<Rightarrow> nat \<Rightarrow> (cbb, nat) cop" where
  "CBB_reserve p len = c_seq (CBB_flush p) (on_base (cbb_buffer_reserve len))"

definition CBB_did_write :: "cbb_ref \<Rightarrow> nat \<Rightarrow> (cbb, unit) cop" where
  "CBB_did_write p len cbb =
     (case (cbb_base cbb, split_chain p (cbb_chain cbb)) of
        (Some b, Some (outer, kids)) \<Rightarrow>
          (let newlen = size_add (cbb_len b) len
           in if kids \<noteq> [] \<or> newlen < cbb_len b \<or> newlen > cbb_cap b then (None, cbb)
              else (Some (), cbb\<lparr>cbb_base := Some (b\<lparr>cbb_len := newlen\<rparr>)\<rparr>))
      | _ \<Rightarrow> (None, cbb))"

definition CBB_add_u8 :: "cbb_ref \<Rightarrow> byte \<Rightarrow> (cbb, unit) cop" where
  "CBB_add_u8 p value = c_seq (CBB_flush p) (on_base (cbb_buffer_add_u (unat value) 1))"

definition CBB_add_u16 :: "cbb_ref \<Rightarrow> u16 \<Rightarrow> (cbb, unit) cop" where
  "CBB_add_u16 p value = c_seq (CBB_flush p) (on_base (cbb_buffer_add_u (unat value) 2))"

definition CBB_add_u16le :: "cbb_ref \<Rightarrow> u16 \<Rightarrow> (cbb, unit) cop" where
  "CBB_add_u16le p value = CBB_add_u16 p (CRYPTO_bswap2 value)"

definition CBB_add_u24 :: "cbb_ref \<Rightarrow> u32 \<Rightarrow> (cbb, unit) cop" where
  "CBB_add_u24 p value = c_seq (CBB_flush p) (on_base (cbb_buffer_add_u (unat value) 3))"

definition CBB_add_u32 :: "cbb_ref \<Rightarrow> u32 \<Rightarrow> (cbb, unit) cop" where
  "CBB_add_u32 p value = c_seq (CBB_flush p) (on_base (cbb_buffer_add_u (unat value) 4))"

definition CBB_add_u32le :: "cbb_ref \<Rightarrow> u32 \<Rightarrow> (cbb, unit) cop" where
  "CBB_add_u32le p value = CBB_add_u32 p (CRYPTO_bswap4 value)"

definition CBB_add_u64 :: "cbb_ref \<Rightarrow> u64 \<Rightarrow> (cbb, unit) cop" where
  "CBB_add_u64 p value = c_seq (CBB_flush p) (on_base (cbb_buffer_add_u (unat value) 8))"

definition CBB_add_u64le :: "cbb_ref \<Rightarrow> u64 \<Rightarrow> (cbb, unit) cop" where
  "CBB_add_u64le p value = CBB_add_u64 p (CRYPTO_bswap8 value)"

definition CBB_discard_child :: "cbb_ref \<Rightarrow> cbb \<Rightarrow> cbb" where
  "CBB_discard_child p cbb =
     (case (cbb_base cbb, split_chain p (cbb_chain cbb)) of
        (Some b, Some (outer, c # _)) \<Rightarrow>
          cbb\<lparr>cbb_base := Some (b\<lparr>cbb_len := offset c\<rparr>), cbb_chain := outer\<rparr>
      | _ \<Rightarrow> cbb)"

section \<open>ASN.1\<close>

text \<open>The number of base-128 digits: the loop that shifts \<open>copy\<close> down to zero.\<close>

fun base128_digits :: "nat \<Rightarrow> nat" where
  "base128_digits copy = (if copy > 0 then Suc (base128_digits (copy div 128)) else 0)"

declare base128_digits.simps [simp del]

definition add_base128_integer :: "cbb_ref \<Rightarrow> u64 \<Rightarrow> (cbb, unit) cop" where
  "add_base128_integer p v =
     (let len_len = base128_digits (unat v);
          len_len = (if len_len = 0 then 1 else len_len)
      in c_each (\<lambda>i. let byte = ucast (drop_bit (7 * i) v AND 0x7f);
                         byte = (if i \<noteq> 0 then byte OR 0x80 else byte)
                     in CBB_add_u8 p byte) (rev [0..<len_len]))"

definition CBB_add_asn1 :: "cbb_ref \<Rightarrow> nat \<Rightarrow> u32 \<Rightarrow> (cbb, unit) cop" where
  "CBB_add_asn1 p out_contents tag =
     c_seq (CBB_flush p)
       (let tag_bits = ucast (drop_bit CBS_ASN1_TAG_SHIFT tag AND 0xe0) :: byte;
            tag_number = tag AND CBS_ASN1_TAG_NUMBER_MASK
        in c_seq (if tag_number \<ge> 0x1f
                  then c_seq (CBB_add_u8 p (tag_bits OR 0x1f)) (add_base128_integer p (ucast tag_number))
                  else CBB_add_u8 p (tag_bits OR ucast tag_number))
             (\<lambda>cbb. case cbb_base cbb of
                None \<Rightarrow> (None, cbb)
              | Some b \<Rightarrow> c_seq (CBB_add_u8 p 0) (cbb_push_child out_contents (cbb_len b) 1 True) cbb))"

end
