(* ===== verification/CBB_Correct.thy ===== *)
theory CBB_Correct
  imports CBB
begin

text \<open>
  What the byte builder promises. \<open>contents\<close> is what has been written to a buffer, and
  \<open>close_chain\<close> what it becomes when the pending length prefixes of a chain of children are filled
  in; flushing implements \<open>close_chain\<close>, and every \<open>CBB_add_*\<close> operation flushes and appends.
\<close>

definition contents :: "cbb_buffer \<Rightarrow> bytes" where
  "contents b = take (cbb_len b) (cbb_buf b)"

definition buf_ok :: "cbb_buffer \<Rightarrow> bool" where
  "buf_ok b \<longleftrightarrow> length (cbb_buf b) = cbb_cap b \<and> cbb_len b \<le> cbb_cap b \<and> cbb_cap b < size_mod
     \<and> allocator_ok (cbb_alloc b)"

text \<open>Enough memory for \<open>n\<close> more bytes: in place, or because the buffer can grow and the allocator
  does not fail.\<close>

definition room :: "nat \<Rightarrow> cbb_buffer \<Rightarrow> bool" where
  "room n b \<longleftrightarrow> cbb_len b + n < size_mod \<and>
     (cbb_len b + n \<le> cbb_cap b \<or> can_resize b \<and> (\<forall>k. cbb_alloc b k \<noteq> None))"

lemma length_contents: "buf_ok b \<Longrightarrow> length (contents b) = cbb_len b"
  by (simp add: contents_def buf_ok_def)

lemma room_le: "room n b \<Longrightarrow> m \<le> n \<Longrightarrow> room m b"
  by (auto simp: room_def)

section \<open>Reserving and adding\<close>

lemma cbb_realloc_ok:
  assumes "allocator_ok al" "cbb_realloc al buf n = Some buf'" "length buf \<le> n"
  shows "length buf' = n \<and> take (length buf) buf' = buf"
  using assms by (auto simp: cbb_realloc_def mem_write_def split: option.splits dest: allocator_okD)

definition reserve_post :: "nat \<Rightarrow> cbb_buffer \<Rightarrow> nat option \<Rightarrow> cbb_buffer \<Rightarrow> bool" where
  "reserve_post n b r b' \<longleftrightarrow> buf_ok b' \<and> cbb_len b' = cbb_len b \<and> contents b' = contents b \<and>
     can_resize b' = can_resize b \<and> cbb_alloc b' = cbb_alloc b \<and>
     (r = None \<and> cbb_error b' \<or>
      r = Some (cbb_len b) \<and> cbb_len b + n \<le> cbb_cap b' \<and> cbb_error b' = cbb_error b)"

lemma cbb_buffer_reserve_post:
  assumes ok: "buf_ok b" and n: "n < size_mod" and run: "cbb_buffer_reserve n b = (r, b')"
  shows "reserve_post n b r b'"
proof -
  have len: "cbb_len b < size_mod" using ok by (simp add: buf_ok_def)
  show ?thesis
  proof (cases "size_mod \<le> cbb_len b + n")
    case True
    with size_add_wraps_iff [OF len n] run ok show ?thesis
      by (auto simp: cbb_buffer_reserve_def Let_def reserve_post_def buf_ok_def contents_def)
  next
    case False
    then have sum: "size_add (cbb_len b) n = cbb_len b + n" by simp
    show ?thesis
    proof (cases "cbb_len b + n \<le> cbb_cap b")
      case True
      with run sum ok show ?thesis
        by (auto simp: cbb_buffer_reserve_def reserve_post_def)
    next
      case grow: False
      define nc where "nc = (if size_mult (cbb_cap b) 2 < cbb_cap b \<or> size_mult (cbb_cap b) 2 < cbb_len b + n
        then cbb_len b + n else size_mult (cbb_cap b) 2)"
      have nc: "cbb_cap b \<le> nc" "cbb_len b + n \<le> nc" "nc < size_mod"
        using grow False by (auto simp: nc_def size_mult_def)
      show ?thesis
      proof (cases "can_resize b \<and> cbb_realloc (cbb_alloc b) (cbb_buf b) nc \<noteq> None")
        case True
        then obtain nb where nb: "cbb_realloc (cbb_alloc b) (cbb_buf b) nc = Some nb" by blast
        have "length nb = nc" "take (cbb_cap b) nb = cbb_buf b"
          using cbb_realloc_ok [OF _ nb] ok nc by (auto simp: buf_ok_def)
        moreover have "take (cbb_len b) nb = take (cbb_len b) (take (cbb_cap b) nb)"
          using ok by (simp add: buf_ok_def min_def)
        ultimately show ?thesis
          using run sum grow True nb nc ok
          by (simp add: cbb_buffer_reserve_def Let_def nc_def [symmetric])
            (auto simp: reserve_post_def buf_ok_def contents_def)
      next
        case False
        then show ?thesis
          using run sum grow ok
          by (cases "can_resize b")
            (auto simp: cbb_buffer_reserve_def Let_def nc_def [symmetric] reserve_post_def buf_ok_def contents_def)
      qed
    qed
  qed
qed

lemma cbb_buffer_reserve_room:
  assumes "room n b"
  shows "fst (cbb_buffer_reserve n b) \<noteq> None"
proof -
  have sum: "size_add (cbb_len b) n = cbb_len b + n"
    using assms by (simp add: room_def)
  show ?thesis
  proof (cases "cbb_len b + n \<le> cbb_cap b")
    case False
    with assms have "can_resize b" and mem: "\<And>k. cbb_alloc b k \<noteq> None" by (auto simp: room_def)
    moreover have "cbb_realloc (cbb_alloc b) (cbb_buf b) k \<noteq> None" for k
      using mem [of k] by (auto simp: cbb_realloc_def)
    ultimately show ?thesis
      using sum unfolding cbb_buffer_reserve_def Let_def
      by (simp split: option.split) (metis option.distinct(1))
  qed (use sum in \<open>simp add: cbb_buffer_reserve_def\<close>)
qed

lemma cbb_buffer_add_post:
  assumes ok: "buf_ok b" and n: "n < size_mod" and run: "cbb_buffer_add n b = (r, b')"
  shows "buf_ok b' \<and> can_resize b' = can_resize b \<and> cbb_alloc b' = cbb_alloc b \<and>
    (r = None \<and> cbb_error b' \<and> contents b' = contents b \<and> cbb_len b' = cbb_len b \<or>
     r = Some (cbb_len b) \<and> cbb_len b' = cbb_len b + n \<and> cbb_error b' = cbb_error b \<and>
     take (cbb_len b) (cbb_buf b') = contents b)"
proof (cases "cbb_buffer_reserve n b")
  case (Pair r1 b1)
  from cbb_buffer_reserve_post [OF ok n Pair] have "reserve_post n b r1 b1" .
  with run Pair show ?thesis
    by (auto simp: cbb_buffer_add_def reserve_post_def buf_ok_def contents_def split: option.splits)
qed

lemma cbb_buffer_add_room:
  assumes ok: "buf_ok b" and r: "room n b" and m: "m \<le> n"
  shows "\<exists>b'. cbb_buffer_add m b = (Some (cbb_len b), b') \<and> room (n - m) b'"
proof -
  obtain r1 b1 where run: "cbb_buffer_reserve m b = (r1, b1)" by fastforce
  have "r1 \<noteq> None" using cbb_buffer_reserve_room [OF room_le [OF r m]] run by simp
  moreover have "m < size_mod" using r m by (simp add: room_def)
  ultimately have p: "reserve_post m b (Some (cbb_len b)) b1"
    using cbb_buffer_reserve_post [OF ok _ run] by (auto simp: reserve_post_def)
  have "cbb_cap b \<le> cbb_cap b1"
    using run ok by (auto simp: cbb_buffer_reserve_def Let_def buf_ok_def split: if_splits option.splits)
  then have "room (n - m) (b1\<lparr>cbb_len := cbb_len b1 + m\<rparr>)"
    using r m p by (auto simp: room_def reserve_post_def)
  moreover have "r1 = Some (cbb_len b)"
    using cbb_buffer_reserve_post [OF ok _ run] \<open>r1 \<noteq> None\<close> \<open>m < size_mod\<close> by (auto simp: reserve_post_def)
  ultimately show ?thesis using run p by (simp add: cbb_buffer_add_def)
qed

section \<open>Storing numbers\<close>

lemma put_be_eq:
  "off + n \<le> length buf \<Longrightarrow> put_be off n v buf = (mem_write off (be_bytes n v) buf, v div 256 ^ n)"
proof (induction n arbitrary: v buf)
  case (Suc n)
  let ?b = "word_of_nat v :: byte"
  have "mem_write off (be_bytes n (v div 256)) (buf[off + n := ?b]) =
      mem_write off (be_bytes n (v div 256) @ [?b]) buf"
  proof (rule nth_equalityI)
    show "length (mem_write off (be_bytes n (v div 256)) (buf[off + n := ?b])) =
        length (mem_write off (be_bytes n (v div 256) @ [?b]) buf)"
      using Suc.prems by simp
    fix i
    assume "i < length (mem_write off (be_bytes n (v div 256)) (buf[off + n := ?b]))"
    then have i: "i < length buf" using Suc.prems by simp
    consider "i < off" | "off \<le> i" "i < off + n" | "i = off + n" | "off + n < i" by linarith
    then show "mem_write off (be_bytes n (v div 256)) (buf[off + n := ?b]) ! i =
        mem_write off (be_bytes n (v div 256) @ [?b]) buf ! i"
      using i Suc.prems
      by cases (auto simp: mem_write_def nth_append nth_list_update min_def)
  qed
  moreover have "v div 256 div 256 ^ n = v div 256 ^ Suc n"
    by (simp add: div_mult2_eq)
  ultimately show ?case using Suc by simp
qed simp

text \<open>Appending a block to the contents.\<close>

lemma contents_append:
  assumes "buf_ok b'" "cbb_len b' = cbb_len b + length d" "take (cbb_len b) (cbb_buf b') = contents b"
  shows "buf_ok (b'\<lparr>cbb_buf := mem_write (cbb_len b) d (cbb_buf b')\<rparr>) \<and>
    contents (b'\<lparr>cbb_buf := mem_write (cbb_len b) d (cbb_buf b')\<rparr>) = contents b @ d"
  using assms by (simp add: buf_ok_def contents_def take_mem_write_same)

text \<open>What every successful append does to a buffer, and what a failed one leaves.\<close>

definition appended :: "bytes \<Rightarrow> cbb_buffer \<Rightarrow> cbb_buffer \<Rightarrow> bool" where
  "appended d b b' \<longleftrightarrow> buf_ok b' \<and> contents b' = contents b @ d \<and> cbb_error b' = cbb_error b \<and>
     can_resize b' = can_resize b \<and> cbb_alloc b' = cbb_alloc b"

lemma appendedI_write:
  assumes "buf_ok b" "cbb_buffer_add (length d) b = (Some off, b1)" "length d < size_mod"
  shows "off = cbb_len b \<and> appended d b (b1\<lparr>cbb_buf := mem_write off d (cbb_buf b1)\<rparr>)"
proof -
  note post = cbb_buffer_add_post [OF assms(1,3,2)]
  with contents_append [of b1 b d] show ?thesis by (auto simp: appended_def)
qed

lemma appended_len: "appended d b b' \<Longrightarrow> buf_ok b \<Longrightarrow> cbb_len b' = cbb_len b + length d"
proof -
  assume a: "appended d b b'" and ok: "buf_ok b"
  from a have "buf_ok b'" "length (contents b') = length (contents b) + length d"
    by (simp_all add: appended_def)
  then show ?thesis by (simp add: length_contents ok)
qed

lemma appended_trans: "appended d b b1 \<Longrightarrow> appended e b1 b2 \<Longrightarrow> appended (d @ e) b b2"
  by (simp add: appended_def)

lemma appended_Nil: "buf_ok b \<Longrightarrow> appended [] b b"
  by (simp add: appended_def)

lemma cbb_buffer_add_u_post:
  assumes ok: "buf_ok b" and n: "0 < n" "n < size_mod" and run: "cbb_buffer_add_u v n b = (Some u, b')"
  shows "v < 256 ^ n \<and> appended (be_bytes n v) b b'"
proof -
  from run n obtain off b1 where add: "cbb_buffer_add n b = (Some off, b1)"
    by (auto simp: cbb_buffer_add_u_def split: prod.splits option.splits if_splits)
  from cbb_buffer_add_post [OF ok n(2) add] have p: "buf_ok b1" "off = cbb_len b" "cbb_len b1 = cbb_len b + n"
    by auto
  then have "put_be off n v (cbb_buf b1) = (mem_write off (be_bytes n v) (cbb_buf b1), v div 256 ^ n)"
    by (intro put_be_eq) (simp add: buf_ok_def)
  with run n add have "v div 256 ^ n = 0" "b' = b1\<lparr>cbb_buf := mem_write off (be_bytes n v) (cbb_buf b1)\<rparr>"
    by (auto simp: cbb_buffer_add_u_def split: if_splits)
  moreover have "appended (be_bytes n v) b (b1\<lparr>cbb_buf := mem_write off (be_bytes n v) (cbb_buf b1)\<rparr>)"
    using appendedI_write [of b "be_bytes n v" off b1] ok add n p by auto
  ultimately show ?thesis by (simp add: div_eq_0_iff)
qed

lemma cbb_buffer_add_u_room:
  assumes ok: "buf_ok b" and r: "room k b" and n: "0 < n" "n \<le> k" and v: "v < 256 ^ n"
  shows "\<exists>b'. cbb_buffer_add_u v n b = (Some (), b') \<and> room (k - n) b'"
proof -
  from cbb_buffer_add_room [OF ok r n(2)] obtain b1 where
    add: "cbb_buffer_add n b = (Some (cbb_len b), b1)" and r1: "room (k - n) b1" by blast
  have "n < size_mod" using r n by (simp add: room_def)
  from cbb_buffer_add_post [OF ok this add] have "buf_ok b1" "cbb_len b1 = cbb_len b + n" by auto
  then have "put_be (cbb_len b) n v (cbb_buf b1) = (mem_write (cbb_len b) (be_bytes n v) (cbb_buf b1), 0)"
    using v by (subst put_be_eq) (simp_all add: buf_ok_def)
  with add n r1 show ?thesis by (simp add: cbb_buffer_add_u_def room_def)
qed

section \<open>Flushing fills in the prefixes\<close>

definition child_ok :: "cbb_child \<Rightarrow> bool" where
  "child_ok c \<longleftrightarrow> 0 < pending_len_len c \<and> pending_len_len c \<le> 3 \<and>
     (pending_is_asn1 c \<longrightarrow> pending_len_len c = 1) \<and> offset c + pending_len_len c < size_mod"

text \<open>What a buffer becomes when the prefix of the child \<open>c\<close> is filled in: the bytes set aside for it
  are replaced by the encoded length of what follows them. \<open>None\<close>: the length does not fit.\<close>

definition put_prefix :: "cbb_child \<Rightarrow> bytes \<Rightarrow> bytes option" where
  "put_prefix c s =
     (let start = offset c + pending_len_len c; len = length s - start
      in if length s < start then None
         else if pending_is_asn1 c
         then (if len \<le> 0xfffffffe then Some (take (offset c) s @ der_len len @ drop start s) else None)
         else if len < 256 ^ pending_len_len c
         then Some (take (offset c) s @ be_bytes (pending_len_len c) len @ drop start s) else None)"

fun close_chain :: "cbb_child list \<Rightarrow> bytes \<Rightarrow> bytes option" where
  "close_chain [] s = Some s"
| "close_chain (c # cs) s = (case close_chain cs s of None \<Rightarrow> None | Some t \<Rightarrow> put_prefix c t)"

lemma nbytes_eqI: "0 < k \<Longrightarrow> 256 ^ (k - 1) \<le> n \<Longrightarrow> n < 256 ^ k \<Longrightarrow> nbytes n = k"
proof -
  assume a: "0 < k" "256 ^ (k - 1) \<le> n" "n < 256 ^ k"
  have "0 < n" using a(2) by (meson less_le_trans zero_less_numeral zero_less_power)
  with a nbytes_unique show ?thesis by blast
qed

lemma asn1_len_form_eq:
  "asn1_len_form len =
     (if len \<le> 0xfffffffe then Some (length (der_len len), hd (der_len len),
        if len < 128 then 0 else len) else None)"
proof -
  have nb: "nbytes len = 1" if "127 < len" "len \<le> 255" using that by (intro nbytes_eqI) simp_all
  have nb2: "nbytes len = 2" if "255 < len" "len \<le> 65535" using that by (intro nbytes_eqI) simp_all
  have nb3: "nbytes len = 3" if "65535 < len" "len \<le> 16777215" using that by (intro nbytes_eqI) simp_all
  have nb4: "nbytes len = 4" if "16777215 < len" "len \<le> 4294967294" using that by (intro nbytes_eqI) simp_all
  consider "len \<le> 127" | "127 < len" "len \<le> 255" | "255 < len" "len \<le> 65535"
    | "65535 < len" "len \<le> 16777215" | "16777215 < len" "len \<le> 4294967294" | "4294967294 < len"
    by linarith
  then show ?thesis
    by cases (simp_all add: asn1_len_form_def der_len_def nb nb2 nb3 nb4)
qed

lemma der_len_tl: "128 \<le> n \<Longrightarrow> der_len n = hd (der_len n) # be_bytes (length (der_len n) - 1) n"
  by (simp add: der_len_def)

lemma der_len_tl_small: "n < 128 \<Longrightarrow> der_len n = [hd (der_len n)]"
  by (simp add: der_len_def)

lemma length_der_len: "n < 256 ^ (length (der_len n) - 1) \<or> n < 128"
  using nbytes_bound [of n] by (auto simp: der_len_def)

lemma mem_write_self: "off + n \<le> length buf \<Longrightarrow> mem_write off (take n (drop off buf)) buf = buf"
  by (simp add: mem_write_def add.commute) (metis append_take_drop_id drop_drop)

text \<open>Making room for a longer prefix: move the contents up, set the first byte, store the rest.\<close>

lemma write_long_prefix:
  assumes "off + 1 \<le> L" "L + k \<le> length buf"
  shows "take (L + k) (mem_write (off + 1) (be_bytes k v)
           ((mem_write (off + 1 + k) (take (L - (off + 1)) (drop (off + 1) buf)) buf)[off := b])) =
         take off buf @ (b # be_bytes k v) @ take (L - (off + 1)) (drop (off + 1) buf)"
proof -
  have moved: "take (off + 1 + k) (mem_write (off + 1 + k) X buf) = take (off + 1 + k) buf"
    "take (length X) (drop (off + 1 + k) (mem_write (off + 1 + k) X buf)) = X"
    if "off + 1 + k + length X \<le> length buf" for X
    using that by (simp_all add: mem_write_def)
  define X where "X = take (L - (off + 1)) (drop (off + 1) buf)"
  have X: "length X = L - (off + 1)" using assms by (simp add: X_def)
  define m where "m = mem_write (off + 1 + k) X buf"
  have lm: "length m = length buf" using assms X by (simp add: m_def)
  have "take off m = take off buf" "take (length X) (drop (off + 1 + k) m) = X"
    using moved [of X] assms X by (auto simp: m_def mem_write_def)
  moreover have "m[off := b] = take off m @ b # drop (off + 1) m"
    using assms lm by (simp add: upd_conv_take_nth_drop)
  moreover have "L + k - off = Suc (k + length X)" using assms X by simp
  ultimately show ?thesis
    using assms X lm unfolding X_def [symmetric] m_def [symmetric]
    by (simp add: mem_write_def add.commute)
qed

lemma write_prefix_post:
  assumes ok: "buf_ok b" and c: "child_ok c" and le: "offset c + pending_len_len c \<le> cbb_len b"
    and run: "write_prefix c (offset c + pending_len_len c) (cbb_len b - (offset c + pending_len_len c)) b
      = (Some u, b')"
  shows "buf_ok b' \<and> put_prefix c (contents b) = Some (contents b') \<and> cbb_error b' = cbb_error b \<and>
    can_resize b' = can_resize b \<and> cbb_alloc b' = cbb_alloc b"
proof (cases "pending_is_asn1 c")
  case False
  let ?n = "pending_len_len c" and ?len = "cbb_len b - (offset c + pending_len_len c)"
  have "put_be (offset c) ?n ?len (cbb_buf b) =
      (mem_write (offset c) (be_bytes ?n ?len) (cbb_buf b), ?len div 256 ^ ?n)"
    using ok le by (intro put_be_eq) (simp add: buf_ok_def)
  with run False have "?len < 256 ^ ?n"
    and b': "b' = b\<lparr>cbb_buf := mem_write (offset c) (be_bytes ?n ?len) (cbb_buf b)\<rparr>"
    by (auto simp: write_prefix_def div_eq_0_iff split: if_splits)
  moreover have "contents b' = take (offset c) (contents b) @ be_bytes ?n ?len @ drop (offset c + ?n) (contents b)"
    using ok le c by (simp add: b' contents_def mem_write_def buf_ok_def child_ok_def drop_take)
  ultimately show ?thesis
    using ok False le by (simp add: put_prefix_def length_contents Let_def) (simp add: buf_ok_def)
next
  case asn1: True
  with c have pll: "pending_len_len c = 1" by (simp add: child_ok_def)
  define len where "len = cbb_len b - (offset c + 1)"
  define k where "k = length (der_len len) - 1"
  define v where "v = (if len < 128 then 0 else len)"
  have dl: "der_len len = hd (der_len len) # be_bytes k v"
    by (simp add: k_def v_def der_len_def)
  have lk: "length (der_len len) = Suc k" by (subst dl) simp
  have vk: "v < 256 ^ k" using length_der_len [of len] by (auto simp: v_def k_def)
  from run asn1 have le32: "len \<le> 0xfffffffe"
    by (auto simp: write_prefix_def asn1_len_form_eq len_def pll split: if_splits)
  have len: "length (contents b) = cbb_len b" using ok by (rule length_contents)
  have goal: "put_prefix c (contents b) =
      Some (take (offset c) (contents b) @ (hd (der_len len) # be_bytes k v) @ drop (offset c + 1) (contents b))"
    using asn1 le le32 by (subst dl [symmetric]) (simp add: put_prefix_def len pll Let_def len_def)
  obtain b1 where b1: "buf_ok b1" "cbb_len b1 = cbb_len b + k" "take (cbb_len b) (cbb_buf b1) = contents b"
    "cbb_error b1 = cbb_error b" "can_resize b1 = can_resize b" "cbb_alloc b1 = cbb_alloc b"
    and b': "b' = b1\<lparr>cbb_buf := mem_write (offset c + 1) (be_bytes k v)
      ((mem_write (offset c + 1 + k) (take len (drop (offset c + 1) (cbb_buf b1))) (cbb_buf b1))
        [offset c := hd (der_len len)])\<rparr>"
  proof (cases "k = 0")
    case True
    have form: "asn1_len_form len = Some (Suc 0, hd (der_len len), 0)"
      using le32 lk vk True by (simp add: asn1_len_form_eq v_def [symmetric])
    have "mem_write (offset c + 1) (take len (drop (offset c + 1) (cbb_buf b))) (cbb_buf b) = cbb_buf b"
      using le ok by (intro mem_write_self) (simp add: len_def pll buf_ok_def)
    then show thesis
      using run [unfolded write_prefix_def Let_def pll len_def [symmetric] form] asn1 True ok
      by (intro that [of b]) (simp_all add: contents_def)
  next
    case False
    obtain r b1 where add: "cbb_buffer_add k b = (r, b1)" by fastforce
    have kn: "k < size_mod"
      using nbytes_le [of len 4] le32 by (simp add: k_def der_len_def size_mod_def)
    have form: "asn1_len_form len = Some (Suc k, hd (der_len len), v)"
      using le32 lk by (simp add: asn1_len_form_eq v_def)
    note unfolded = run [unfolded write_prefix_def Let_def pll len_def [symmetric] form c_bind_apply]
    from unfolded asn1 False add obtain off where r: "r = Some off"
      by (cases r) simp_all
    note post = cbb_buffer_add_post [OF ok kn add [unfolded r]]
    define buf2 where "buf2 = (mem_write (offset c + 1 + k)
      (take len (drop (offset c + 1) (cbb_buf b1))) (cbb_buf b1))[offset c := hd (der_len len)]"
    have "length buf2 = length (cbb_buf b1)"
      using post le by (auto simp: buf2_def len_def buf_ok_def pll intro!: length_mem_write)
    then have put: "put_be (offset c + 1) k v buf2 = (mem_write (offset c + 1) (be_bytes k v) buf2, 0)"
      using post le vk by (subst put_be_eq) (auto simp: buf_ok_def pll)
    have "b' = b1\<lparr>cbb_buf := mem_write (offset c + 1) (be_bytes k v) buf2\<rparr>"
      using unfolded asn1 False add r put by (simp add: buf2_def)
    with post show thesis
      by (intro that [of b1]) (auto simp: buf2_def)
  qed
  have "contents b' = take (offset c) (cbb_buf b1) @ (hd (der_len len) # be_bytes k v) @
      take len (drop (offset c + 1) (cbb_buf b1))"
    using write_long_prefix [of "offset c" "cbb_len b" k "cbb_buf b1" v "hd (der_len len)"] b1(1,2) le
    by (simp add: b' contents_def buf_ok_def len_def pll)
  also have "\<dots> = take (offset c) (contents b) @ (hd (der_len len) # be_bytes k v) @ drop (offset c + 1) (contents b)"
    using le by (simp add: b1(3) [symmetric] drop_take len_def pll)
  finally have cont: "contents b' = \<dots>" .
  have lm: "length (mem_write (offset c + 1 + k) (take len (drop (offset c + 1) (cbb_buf b1))) (cbb_buf b1)) =
      length (cbb_buf b1)"
    using b1(1,2) le by (intro length_mem_write) (auto simp: buf_ok_def len_def pll min_def)
  have "length (cbb_buf b') = length (cbb_buf b1)"
    using b1(1,2) le lm by (simp add: b' buf_ok_def pll)
  then have "buf_ok b'" using b1(1) by (simp add: buf_ok_def b')
  with goal b1 cont show ?thesis by (simp add: b')
qed


text \<open>Success leaves no descendants, the closed contents, and everything else alone.\<close>

lemma flush_chain_refines:
  assumes "buf_ok b" "list_all child_ok cs" "flush_chain cs b = (True, b', kids)"
  shows "kids = [] \<and> buf_ok b' \<and> close_chain cs (contents b) = Some (contents b') \<and> \<not> cbb_error b \<and>
    \<not> cbb_error b' \<and> can_resize b' = can_resize b \<and> cbb_alloc b' = cbb_alloc b"
  using assms
proof (induction cs arbitrary: b' kids)
  case (Cons c cs)
  from Cons.prems have c: "child_ok c" and cs: "list_all child_ok cs" by simp_all
  then have st: "size_add (offset c) (pending_len_len c) = offset c + pending_len_len c"
    "pending_len_len c \<noteq> 0" by (auto simp: child_ok_def)
  from Cons.prems(3) st obtain b1 k1 where rec: "flush_chain cs b = (True, b1, k1)" and e: "\<not> cbb_error b"
    and le: "offset c + pending_len_len c \<le> cbb_len b1"
    by (auto simp: Let_def split: prod.splits if_splits)
  from Cons.IH [OF Cons.prems(1) cs rec] have IH: "buf_ok b1" "close_chain cs (contents b) = Some (contents b1)"
    "\<not> cbb_error b1" "can_resize b1 = can_resize b" "cbb_alloc b1 = cbb_alloc b" by blast+
  from Cons.prems(3) st rec e le obtain b2 where
    w: "write_prefix c (offset c + pending_len_len c) (cbb_len b1 - (offset c + pending_len_len c)) b1 = (Some (), b2)"
    and "b' = b2" "kids = []"
    by (auto simp: Let_def split: prod.splits option.splits)
  with write_prefix_post [OF IH(1) c le w] IH e show ?case by auto
qed auto


lemma put_prefix_length: "put_prefix c s = Some t \<Longrightarrow> child_ok c \<Longrightarrow> length s \<le> length t"
  by (auto simp: put_prefix_def Let_def child_ok_def der_len_def split: if_splits)

lemma close_chain_length: "close_chain cs s = Some t \<Longrightarrow> list_all child_ok cs \<Longrightarrow> length s \<le> length t"
proof (induction cs arbitrary: t)
  case (Cons c cs)
  then obtain u where "close_chain cs s = Some u" "put_prefix c u = Some t"
    by (auto split: option.splits)
  with Cons put_prefix_length [of c u t] show ?case by fastforce
qed simp

lemma write_prefix_room:
  assumes ok: "buf_ok b" and c: "child_ok c" and p: "put_prefix c (contents b) = Some t"
    and room: "room n b" and le: "length t \<le> cbb_len b + n"
  shows "\<exists>b'. write_prefix c (offset c + pending_len_len c) (cbb_len b - (offset c + pending_len_len c)) b
     = (Some (), b') \<and> room (n - (length t - cbb_len b)) b'"
proof (cases "pending_is_asn1 c")
  case False
  let ?n = "pending_len_len c" and ?len = "cbb_len b - (offset c + pending_len_len c)"
  have fits: "offset c + ?n \<le> cbb_len b" "?len < 256 ^ ?n" "length t = cbb_len b"
    using p False ok by (auto simp: put_prefix_def Let_def length_contents split: if_splits)
  have "put_be (offset c) ?n ?len (cbb_buf b) = (mem_write (offset c) (be_bytes ?n ?len) (cbb_buf b), 0)"
    using ok fits by (subst put_be_eq) (simp_all add: buf_ok_def)
  with False room fits show ?thesis
    by (auto simp: write_prefix_def room_def)
next
  case asn1: True
  with c have pll: "pending_len_len c = 1" by (simp add: child_ok_def)
  define len where "len = cbb_len b - (offset c + 1)"
  have fits: "offset c + 1 \<le> cbb_len b" "len \<le> 0xfffffffe"
    and t: "length t + 1 = cbb_len b + length (der_len len)"
    using p asn1 ok by (auto simp: put_prefix_def Let_def length_contents pll len_def split: if_splits)
  obtain k where k: "length (der_len len) = Suc k" by (metis der_len_nonempty length_greater_0_conv gr0_conv_Suc)
  define v where "v = (if len < 128 then 0 else len)"
  have vk: "v < 256 ^ k" using length_der_len [of len] k by (auto simp: v_def)
  have form: "asn1_len_form len = Some (Suc k, hd (der_len len), v)"
    using fits k by (simp add: asn1_len_form_eq v_def)
  have kn: "k \<le> n" "length t - cbb_len b = k" using t k le by simp_all
  show ?thesis
  proof (cases "k = 0")
    case True
    with form asn1 vk room kn show ?thesis
      by (simp add: write_prefix_def pll len_def Let_def room_def)
  next
    case False
    from cbb_buffer_add_room [OF ok room kn(1)] obtain b1 where
      add: "cbb_buffer_add k b = (Some (cbb_len b), b1)" and r1: "room (n - k) b1" by blast
    have "k < size_mod" using room kn by (simp add: room_def)
    note post = cbb_buffer_add_post [OF ok this add]
    define buf2 where "buf2 = (mem_write (offset c + 1 + k)
      (take len (drop (offset c + 1) (cbb_buf b1))) (cbb_buf b1))[offset c := hd (der_len len)]"
    have "length buf2 = length (cbb_buf b1)"
      using post fits by (auto simp: buf2_def len_def buf_ok_def intro!: length_mem_write)
    then have "put_be (offset c + 1) k v buf2 = (mem_write (offset c + 1) (be_bytes k v) buf2, 0)"
      using post fits vk by (subst put_be_eq) (auto simp: buf_ok_def)
    with asn1 False add r1 kn show ?thesis
      unfolding write_prefix_def pll Let_def len_def [symmetric] form
      by (simp add: c_bind_apply buf2_def room_def)
  qed
qed

text \<open>Flushing succeeds whenever the lengths fit their prefixes and there is room.\<close>

lemma flush_chain_succeeds:
  assumes "buf_ok b" "list_all child_ok cs" "\<not> cbb_error b" "close_chain cs (contents b) = Some t"
    "room n b" "length t \<le> cbb_len b + n"
  shows "\<exists>b'. flush_chain cs b = (True, b', []) \<and> room (n - (length t - cbb_len b)) b'"
  using assms
proof (induction cs arbitrary: t)
  case Nil
  then have "length t = cbb_len b" using length_contents [of b] by simp
  with Nil show ?case by simp
next
  case (Cons c cs)
  then obtain u where u: "close_chain cs (contents b) = Some u" and p: "put_prefix c u = Some t"
    by (auto split: option.splits)
  from Cons.prems have c: "child_ok c" and cs: "list_all child_ok cs" by simp_all
  have lens: "length u \<le> length t" "cbb_len b \<le> length u"
    using put_prefix_length [OF p c] close_chain_length [OF u cs] Cons.prems by (simp_all add: length_contents)
  then obtain b1 where b1: "flush_chain cs b = (True, b1, [])" "room (n - (length u - cbb_len b)) b1"
    using Cons.IH [OF Cons.prems(1) cs Cons.prems(3) u Cons.prems(5)] Cons.prems(6) by auto
  note r = flush_chain_refines [OF Cons.prems(1) cs b1(1)]
  then have u1: "contents b1 = u" "cbb_len b1 = length u" using u length_contents [of b1] by auto
  from write_prefix_room [OF _ c _ b1(2), of t] r u1 p lens Cons.prems(6) obtain b2 where
    w: "write_prefix c (offset c + pending_len_len c) (cbb_len b1 - (offset c + pending_len_len c)) b1 = (Some (), b2)"
    and r2: "room (n - (length u - cbb_len b) - (length t - cbb_len b1)) b2" by auto
  have "offset c + pending_len_len c \<le> length u"
    using p by (auto simp: put_prefix_def Let_def split: if_splits)
  moreover have "size_add (offset c) (pending_len_len c) = offset c + pending_len_len c" "pending_len_len c \<noteq> 0"
    using c by (auto simp: child_ok_def)
  moreover have "n - (length u - cbb_len b) - (length t - cbb_len b1) = n - (length t - cbb_len b)"
    using lens u1 by simp
  ultimately show ?case
    using Cons.prems(3) b1(1) w r2 u1(2) by (simp add: Let_def)
qed

end
