(* ===== verification/CBB_Build.thy ===== *)
theory CBB_Build
  imports CBB_Correct
begin

text \<open>
  The builder as its callers see it. \<open>cbb_at p outer s cbb\<close> says that the \<open>CBB\<close> addressed by \<open>p\<close>
  is live, that the children on the way to it are \<open>outer\<close>, and that its buffer will hold \<open>s\<close> once
  its own descendants are flushed. Every operation of \<open>cbb.c\<close> that writes is described by what it
  does to \<open>s\<close>; closing a child (any later operation on its parent does it) puts its length prefix
  in front of what was written to it.
\<close>

definition cbb_at :: "cbb_ref \<Rightarrow> cbb_child list \<Rightarrow> bytes \<Rightarrow> cbb \<Rightarrow> bool" where
  "cbb_at p outer s cbb \<longleftrightarrow>
     (\<exists>b kids. cbb_base cbb = Some b \<and> buf_ok b \<and> \<not> cbb_error b \<and>
        split_chain p (cbb_chain cbb) = Some (outer, kids) \<and> list_all child_ok (outer @ kids) \<and>
        close_chain kids (contents b) = Some s)"

text \<open>The same with \<open>n\<close> bytes of memory left.\<close>

definition cbb_room :: "nat \<Rightarrow> cbb_ref \<Rightarrow> cbb_child list \<Rightarrow> bytes \<Rightarrow> cbb \<Rightarrow> bool" where
  "cbb_room n p outer s cbb \<longleftrightarrow> cbb_at p outer s cbb \<and>
     (\<exists>b. cbb_base cbb = Some b \<and> room (n + (length s - cbb_len b)) b)"

lemma children_of_append: "children_of a cs = Some (outer, kids) \<Longrightarrow> cs = outer @ kids"
  by (induction cs arbitrary: outer) (auto split: if_splits)

lemma split_chain_append: "split_chain p cs = Some (outer, kids) \<Longrightarrow> cs = outer @ kids"
  by (cases p) (auto dest: children_of_append)

lemma children_of_kids:
  "children_of a cs = Some (outer, kids) \<Longrightarrow> children_of a (outer @ kids') = Some (outer, kids')"
  by (induction cs arbitrary: outer) (auto split: if_splits)

lemma split_chain_kids:
  "split_chain p cs = Some (outer, kids) \<Longrightarrow> split_chain p (outer @ kids') = Some (outer, kids')"
  by (cases p) (auto dest: children_of_kids)

lemma children_of_fresh:
  "a \<notin> addr ` set outer \<Longrightarrow> addr c = a \<Longrightarrow> children_of a (outer @ c # kids) = Some (outer @ [c], kids)"
  by (induction outer) auto

section \<open>Flush, then act on the buffer\<close>

lemma CBB_flush_at:
  assumes "cbb_at p outer s cbb" "CBB_flush p cbb = (Some u, cbb')"
  shows "cbb_at p outer s cbb' \<and> cbb_chain cbb' = outer \<and>
    (\<exists>b. cbb_base cbb' = Some b \<and> buf_ok b \<and> contents b = s \<and> \<not> cbb_error b)"
proof -
  from assms(1) obtain b kids where b: "cbb_base cbb = Some b" "buf_ok b" "\<not> cbb_error b"
    "split_chain p (cbb_chain cbb) = Some (outer, kids)" "list_all child_ok (outer @ kids)"
    "close_chain kids (contents b) = Some s" by (auto simp: cbb_at_def)
  with assms(2) obtain b' kids' where f: "flush_chain kids b = (True, b', kids')"
    and cbb': "cbb' = cbb\<lparr>cbb_base := Some b', cbb_chain := outer @ kids'\<rparr>"
    by (auto simp: CBB_flush_def split: prod.splits if_splits)
  from flush_chain_refines [OF b(2) _ f] b have "kids' = []" "buf_ok b'" "contents b' = s" "\<not> cbb_error b'"
    by auto
  with b(4,5) cbb' split_chain_kids [of p "cbb_chain cbb" outer kids "[]"] show ?thesis
    by (auto simp: cbb_at_def)
qed

lemma CBB_flush_room:
  assumes "cbb_room n p outer s cbb"
  shows "\<exists>cbb'. CBB_flush p cbb = (Some (), cbb') \<and> cbb_room n p outer s cbb'"
proof -
  from assms obtain b kids where b: "cbb_base cbb = Some b" "buf_ok b" "\<not> cbb_error b"
    "split_chain p (cbb_chain cbb) = Some (outer, kids)" "list_all child_ok (outer @ kids)"
    "close_chain kids (contents b) = Some s" "room (n + (length s - cbb_len b)) b"
    by (auto simp: cbb_room_def cbb_at_def)
  from b(5,6) b(2) close_chain_length [of kids "contents b" s] have le: "cbb_len b \<le> length s"
    by (simp add: length_contents)
  with flush_chain_succeeds [OF b(2) _ b(3,6,7)] b(5) obtain b' where
    f: "flush_chain kids b = (True, b', [])" and r: "room n b'" by auto
  define cbb' where "cbb' = cbb\<lparr>cbb_base := Some b', cbb_chain := outer\<rparr>"
  have run: "CBB_flush p cbb = (Some (), cbb')"
    using b f by (simp add: CBB_flush_def cbb'_def)
  have at: "cbb_at p outer s cbb" using assms by (simp add: cbb_room_def)
  from CBB_flush_at [OF at run] have "cbb_at p outer s cbb'" "cbb_len b' = length s"
    using length_contents [of b'] by (auto simp: cbb'_def)
  with r run show ?thesis by (auto simp: cbb_room_def cbb'_def)
qed

text \<open>The shape of the writing operations.\<close>

definition writes :: "bytes \<Rightarrow> (cbb_buffer, 'a) cop \<Rightarrow> bool" where
  "writes d f \<longleftrightarrow> (\<forall>b r b'. buf_ok b \<longrightarrow> f b = (Some r, b') \<longrightarrow> appended d b b')"

definition writes_in_room :: "bytes \<Rightarrow> (cbb_buffer, 'a) cop \<Rightarrow> bool" where
  "writes_in_room d f \<longleftrightarrow> (\<forall>b n. buf_ok b \<longrightarrow> room n b \<longrightarrow> length d \<le> n \<longrightarrow>
     (\<exists>r b'. f b = (Some r, b') \<and> room (n - length d) b'))"

lemma flush_on_base_at:
  assumes w: "writes d f" and at: "cbb_at p outer s cbb"
    and run: "c_seq (CBB_flush p) (on_base f) cbb = (Some r, cbb')"
  shows "cbb_at p outer (s @ d) cbb' \<and> cbb_chain cbb' = outer"
proof -
  from run obtain cbb1 where f1: "CBB_flush p cbb = (Some (), cbb1)" and run2: "on_base f cbb1 = (Some r, cbb')"
    by (auto simp: c_seq_eq_Some)
  from CBB_flush_at [OF at f1] obtain b where b: "cbb_at p outer s cbb1" "cbb_chain cbb1 = outer"
    "cbb_base cbb1 = Some b" "buf_ok b" "contents b = s" "\<not> cbb_error b" by blast
  with run2 obtain b' where fb: "f b = (Some r, b')" and cbb': "cbb' = cbb1\<lparr>cbb_base := Some b'\<rparr>"
    by (auto simp: on_base_def split: prod.splits)
  from w b(4) fb have "appended d b b'" by (auto simp: writes_def)
  moreover have "split_chain p outer = Some (outer, [])" "list_all child_ok outer"
    using b(1,2) split_chain_kids [of p outer outer _ "[]"] by (auto simp: cbb_at_def)
  ultimately show ?thesis
    using b cbb' by (auto simp: cbb_at_def appended_def)
qed

lemma flush_on_base_room:
  assumes w: "writes d f" "writes_in_room d f" and at: "cbb_room n p outer s cbb" and le: "length d \<le> n"
  shows "\<exists>r cbb'. c_seq (CBB_flush p) (on_base f) cbb = (Some r, cbb') \<and> cbb_room (n - length d) p outer (s @ d) cbb'"
proof -
  from CBB_flush_room [OF at] obtain cbb1 where f1: "CBB_flush p cbb = (Some (), cbb1)"
    and r1: "cbb_room n p outer s cbb1" by blast
  have at': "cbb_at p outer s cbb" using at by (simp add: cbb_room_def)
  from CBB_flush_at [OF at' f1] obtain b where b: "cbb_base cbb1 = Some b" "buf_ok b" "contents b = s" by blast
  then have "length s = cbb_len b" by (auto simp: length_contents)
  then have "room n b" using r1 b by (simp add: cbb_room_def)
  with w(2) b(2) le obtain r b' where fb: "f b = (Some r, b')" "room (n - length d) b'"
    unfolding writes_in_room_def by blast
  have run: "c_seq (CBB_flush p) (on_base f) cbb = (Some r, cbb1\<lparr>cbb_base := Some b'\<rparr>)"
    using f1 fb b by (simp add: on_base_def)
  from w(1) b(2) fb have "appended d b b'" by (auto simp: writes_def)
  then have "cbb_len b' = length (s @ d)"
    using b(3) length_contents [of b'] by (auto simp: appended_def)
  with run fb flush_on_base_at [OF w(1) at' run] show ?thesis
    by (auto simp: cbb_room_def)
qed

section \<open>The writing operations\<close>

lemma writes_bytes:
  assumes "length d < size_mod"
  shows "writes d (\<lambda>b. case cbb_buffer_add (length d) b of
            (None, b) \<Rightarrow> (None, b)
          | (Some dest, b) \<Rightarrow> (Some (x dest), b\<lparr>cbb_buf := mem_write dest d (cbb_buf b)\<rparr>))"
  unfolding writes_def using appendedI_write [OF _ _ assms] by (auto split: prod.splits option.splits)

lemma writes_bytes_room:
  "writes_in_room d (\<lambda>b. case cbb_buffer_add (length d) b of
            (None, b) \<Rightarrow> (None, b)
          | (Some dest, b) \<Rightarrow> (Some (x dest), b\<lparr>cbb_buf := mem_write dest d (cbb_buf b)\<rparr>))"
proof -
  have "\<exists>r b'. (case cbb_buffer_add (length d) b of
            (None, b) \<Rightarrow> (None, b)
          | (Some dest, b) \<Rightarrow> (Some (x dest), b\<lparr>cbb_buf := mem_write dest d (cbb_buf b)\<rparr>)) = (Some r, b')
          \<and> room (n - length d) b'" if a: "buf_ok b" "room n b" "length d \<le> n" for b n
    using cbb_buffer_add_room [OF a] by (auto simp: room_def)
  then show ?thesis by (simp add: writes_in_room_def)
qed

lemma writes_u: "0 < k \<Longrightarrow> k < size_mod \<Longrightarrow> writes (be_bytes k v) (cbb_buffer_add_u v k)"
  unfolding writes_def using cbb_buffer_add_u_post by blast

lemma writes_u_room: "0 < k \<Longrightarrow> v < 256 ^ k \<Longrightarrow> writes_in_room (be_bytes k v) (cbb_buffer_add_u v k)"
  unfolding writes_in_room_def using cbb_buffer_add_u_room by fastforce

text \<open>What an operation on \<open>p\<close> appends, partially and totally correct at once.\<close>

definition appends :: "(cbb, 'a) cop \<Rightarrow> cbb_ref \<Rightarrow> bytes \<Rightarrow> bool" where
  "appends op p d \<longleftrightarrow>
     (\<forall>outer s cbb r cbb'. cbb_at p outer s cbb \<longrightarrow> op cbb = (Some r, cbb') \<longrightarrow>
        cbb_at p outer (s @ d) cbb' \<and> cbb_chain cbb' = outer) \<and>
     (\<forall>n outer s cbb. cbb_room n p outer s cbb \<longrightarrow> length d \<le> n \<longrightarrow>
        (\<exists>r cbb'. op cbb = (Some r, cbb') \<and> cbb_room (n - length d) p outer (s @ d) cbb'))"

lemma appends_at:
  "appends op p d \<Longrightarrow> cbb_at p outer s cbb \<Longrightarrow> op cbb = (Some r, cbb') \<Longrightarrow>
     cbb_at p outer (s @ d) cbb' \<and> cbb_chain cbb' = outer"
  unfolding appends_def by (drule conjunct1) blast

lemma appends_room:
  "appends op p d \<Longrightarrow> cbb_room n p outer s cbb \<Longrightarrow> length d \<le> n \<Longrightarrow>
     \<exists>r cbb'. op cbb = (Some r, cbb') \<and> cbb_room (n - length d) p outer (s @ d) cbb'"
  unfolding appends_def by (drule conjunct2) blast

lemma appends_flush: "appends (CBB_flush p) p []"
  unfolding appends_def
  by (intro conjI allI impI; (drule CBB_flush_room | drule (1) CBB_flush_at)) auto

lemma appendsI_on_base:
  "writes d f \<Longrightarrow> writes_in_room d f \<Longrightarrow> appends (c_seq (CBB_flush p) (on_base f)) p d"
  unfolding appends_def
  by (intro conjI allI impI; (drule (3) flush_on_base_room | drule (2) flush_on_base_at)) simp_all

lemma appends_bytes: "length d < size_mod \<Longrightarrow> appends (CBB_add_bytes p d) p d"
  unfolding CBB_add_bytes_def by (rule appendsI_on_base [OF writes_bytes writes_bytes_room])

lemma be_bytes_1: "be_bytes 1 (unat (b :: byte)) = [b]"
  unfolding One_nat_def be_bytes.simps by simp

lemma appends_u8: "appends (CBB_add_u8 p v) p [v]"
  unfolding CBB_add_u8_def be_bytes_1 [symmetric]
  by (intro appendsI_on_base writes_u writes_u_room) (simp_all add: size_mod_def)

lemma appends_u16: "appends (CBB_add_u16 p v) p (be_bytes 2 (unat v))"
  unfolding CBB_add_u16_def using unat_less_pow [of v]
  by (intro appendsI_on_base writes_u writes_u_room) (simp_all add: size_mod_def)

lemma appends_u24: "unat v < 2 ^ 24 \<Longrightarrow> appends (CBB_add_u24 p v) p (be_bytes 3 (unat v))"
  unfolding CBB_add_u24_def
  by (intro appendsI_on_base writes_u writes_u_room) (simp_all add: size_mod_def)

lemma appends_u32: "appends (CBB_add_u32 p v) p (be_bytes 4 (unat v))"
  unfolding CBB_add_u32_def using unat_less_pow [of v]
  by (intro appendsI_on_base writes_u writes_u_room) (simp_all add: size_mod_def)

lemma appends_u64: "appends (CBB_add_u64 p v) p (be_bytes 8 (unat v))"
  unfolding CBB_add_u64_def using unat_less_pow [of v]
  by (intro appendsI_on_base writes_u writes_u_room) (simp_all add: size_mod_def)

text \<open>Sequencing.\<close>

lemma appends_seq:
  assumes m: "appends m p d" and n: "appends n p e"
  shows "appends (c_seq m n) p (d @ e)"
proof -
  have "cbb_at p outer (s @ d @ e) cbb' \<and> cbb_chain cbb' = outer"
    if "cbb_at p outer s cbb" "c_seq m n cbb = (Some r, cbb')" for outer s cbb r cbb'
  proof -
    from that(2) obtain x cbb1 where m1: "m cbb = (Some x, cbb1)" and n1: "n cbb1 = (Some r, cbb')"
      by (auto simp: c_seq_eq_Some)
    from appends_at [OF m that(1) m1] have "cbb_at p outer (s @ d) cbb1" ..
    from appends_at [OF n this n1] show ?thesis by simp
  qed
  moreover have "\<exists>r cbb'. c_seq m n cbb = (Some r, cbb') \<and> cbb_room (k - length (d @ e)) p outer (s @ d @ e) cbb'"
    if "cbb_room k p outer s cbb" "length (d @ e) \<le> k" for k outer s cbb
  proof -
    from that(2) have le: "length d \<le> k" "length e \<le> k - length d" by simp_all
    from appends_room [OF m that(1) le(1)] obtain x cbb1 where
      m1: "m cbb = (Some x, cbb1)" and r1: "cbb_room (k - length d) p outer (s @ d) cbb1" by blast
    from appends_room [OF n r1 le(2)] m1 show ?thesis by auto
  qed
  ultimately show ?thesis unfolding appends_def by simp
qed


lemma appends_each:
  "xs \<noteq> [] \<Longrightarrow> (\<And>x. x \<in> set xs \<Longrightarrow> appends (f x) p (g x)) \<Longrightarrow>
     appends (c_each f xs) p (concat (map g xs))"
proof (induction xs)
  case (Cons x xs)
  show ?case
  proof (cases xs)
    case Nil
    have "c_seq (f x) (c_ret ()) = f x" 
      by (rule ext) (simp add: c_seq_def c_bind_def split: prod.splits option.splits)
    with Cons.prems Nil show ?thesis by simp
  next
    case (Cons y ys)
    with Cons.IH Cons.prems appends_seq [of "f x" p "g x" "c_each f xs"] show ?thesis by simp
  qed
qed simp

section \<open>Base-128 integers and tags\<close>

lemma base128_digits_0 [simp]: "base128_digits 0 = 0"
  by (simp add: base128_digits.simps)

lemma base128_digits_pos: "0 < n \<Longrightarrow> base128_digits n = Suc (base128_digits (n div 128))"
  by (simp add: base128_digits.simps [of n])

lemma rev_upt_Suc: "rev [0..<Suc k] = map Suc (rev [0..<k]) @ [0]"
proof -
  have "[0..<Suc k] = 0 # map Suc [0..<k]" by (simp only: map_Suc_upt upt_conv_Cons zero_less_Suc)
  then show ?thesis by (simp add: rev_map del: upt_Suc)
qed

lemma b128_cont_digits:
  "b128_cont m = map (\<lambda>i. word_of_nat (128 + m div 128 ^ i mod 128)) (rev [0..<base128_digits m])"
proof (induction m rule: b128_cont.induct)
  case (1 m)
  show ?case
  proof (cases "m = 0")
    case False
    have "m div 128 div 128 ^ i = m div 128 ^ Suc i" for i
      by (simp add: div_mult2_eq)
    with False 1 show ?thesis
      by (simp add: b128_cont_pos base128_digits_pos rev_upt_Suc rev_map o_def del: upt_Suc of_nat_add)
  qed simp
qed

lemma base128_digit:
  "unat (ucast (drop_bit (7 * i) v AND 127 :: u64) :: byte) = unat v div 128 ^ i mod 128"
proof -
  have "(2 :: nat) ^ (7 * i) = 128 ^ i" by (simp add: power_mult)
  then have "unat (drop_bit (7 * i) v AND 127) = unat v div 128 ^ i mod 128"
    by (simp add: word_and_127 unat_and_mask unat_drop_bit_div)
  then show ?thesis by (simp add: unat_ucast_mod)
qed

lemma or_128: "unat (b :: byte) < 128 \<Longrightarrow> unat (b OR 128) = 128 + unat b"
  using unat_push_or [of "1 :: byte" 7 b] by (simp add: or.commute push_bit_eq_mult)

lemma base128_digits_eq:
  fixes v :: u64
  defines "k \<equiv> (if base128_digits (unat v) = 0 then 1 else base128_digits (unat v))"
  shows "map (\<lambda>i. let byte = ucast (drop_bit (7 * i) v AND 0x7f) :: byte
                  in if i \<noteq> 0 then byte OR 0x80 else byte) (rev [0..<k]) = base128 (unat v)"
proof -
  have k: "k = Suc (base128_digits (unat v div 128))"
    by (cases "unat v = 0") (simp_all add: k_def base128_digits_pos)
  have cont: "ucast (drop_bit (7 * Suc i) v AND 0x7f) OR 128 =
      (word_of_nat (128 + unat v div 128 div 128 ^ i mod 128) :: byte)" for i
  proof (rule word_of_nat_unat_eq)
    have "unat v div 128 ^ Suc i = unat v div 128 div 128 ^ i" by (simp add: div_mult2_eq)
    then show "unat (ucast (drop_bit (7 * Suc i) v AND 0x7f) OR (128 :: byte)) =
        128 + unat v div 128 div 128 ^ i mod 128"
      by (subst or_128) (simp_all only: base128_digit mod_less_divisor zero_less_numeral)
  qed
  have "ucast (drop_bit 0 v AND 0x7f) = (word_of_nat (unat v mod 128) :: byte)"
    using base128_digit [of 0 v] by (intro word_of_nat_unat_eq) simp
  then show ?thesis
    by (simp add: k rev_upt_Suc base128_def b128_cont_digits cont o_def Let_def rev_map
        del: upt_Suc of_nat_add mult_Suc_right)
qed

lemma appends_base128: "appends (add_base128_integer p v) p (base128 (unat v))"
proof -
  define k where "k = (if base128_digits (unat v) = 0 then 1 else base128_digits (unat v))"
  define byte where "byte = (\<lambda>i. let byte = ucast (drop_bit (7 * i) v AND 0x7f) :: byte
     in if i \<noteq> 0 then byte OR 0x80 else byte)"
  have "appends (c_each (\<lambda>i. CBB_add_u8 p (byte i)) (rev [0..<k])) p (concat (map (\<lambda>i. [byte i]) (rev [0..<k])))"
    by (intro appends_each appends_u8) (simp add: k_def)
  moreover have "concat (map (\<lambda>i. [byte i]) (rev [0..<k])) = map byte (rev [0..<k])"
    by (induction k) simp_all
  ultimately show ?thesis
    using base128_digits_eq [of v]
    by (simp add: add_base128_integer_def k_def byte_def Let_def)
qed

lemma tag_bits_or:
  assumes "unat low < 32"
  shows "ucast (drop_bit CBS_ASN1_TAG_SHIFT (t :: u32) AND 0xe0) OR low =
    (word_of_nat (unat t div 2 ^ 29 * 32 + unat low) :: byte)"
proof (rule word_of_nat_unat_eq)
  have e0: "(0xe0 :: u32) = push_bit 5 (mask 3)" by (simp add: mask_eq_exp_minus_1 push_bit_eq_mult)
  have "ucast (drop_bit CBS_ASN1_TAG_SHIFT t AND 0xe0) = push_bit 5 (ucast (drop_bit 29 t) :: byte)"
    unfolding e0 CBS_ASN1_TAG_SHIFT_def by (auto simp: bit_eq_iff bit_simps)
  moreover have "unat (ucast (drop_bit 29 t) :: byte) = unat t div 2 ^ 29"
    using tag_parts(1) [of t] by (simp add: unat_ucast_mod unat_drop_bit_div)
  ultimately show "unat (ucast (drop_bit CBS_ASN1_TAG_SHIFT t AND 0xe0) OR low) = unat t div 2 ^ 29 * 32 + unat low"
    using unat_push_or [of "ucast (drop_bit 29 t) :: byte" 5 low] tag_parts(1) [of t] assms by simp
qed

definition asn1_tag_op :: "cbb_ref \<Rightarrow> u32 \<Rightarrow> (cbb, unit) cop" where
  "asn1_tag_op p tag =
     (let tag_bits = ucast (drop_bit CBS_ASN1_TAG_SHIFT tag AND 0xe0) :: byte;
          tag_number = tag AND CBS_ASN1_TAG_NUMBER_MASK
      in if tag_number \<ge> 0x1f
         then c_seq (CBB_add_u8 p (tag_bits OR 0x1f)) (add_base128_integer p (ucast tag_number))
         else CBB_add_u8 p (tag_bits OR ucast tag_number))"

lemma appends_tag: "appends (asn1_tag_op p tag) p (der_tag tag)"
proof -
  define num where "num = tag AND CBS_ASN1_TAG_NUMBER_MASK"
  have num: "unat num = unat tag mod 2 ^ 29"
    by (simp add: num_def CBS_ASN1_TAG_NUMBER_MASK_eq unat_and_mask)
  show ?thesis
  proof (cases "num \<ge> 0x1f")
    case True
    then have "31 \<le> unat num" by (simp add: word_le_nat_alt)
    moreover have "unat (ucast num :: u64) = unat num" by (simp add: unat_ucast_up)
    ultimately show ?thesis
      using True appends_seq [OF appends_u8 appends_base128, of p "word_of_nat (unat tag div 2 ^ 29 * 32 + 31)" "ucast num"]
        tag_bits_or [of "0x1f" tag]
      by (simp add: asn1_tag_op_def num_def [symmetric] der_tag_def Let_def num del: of_nat_add of_nat_mult)
  next
    case False
    then have "unat num < 31" by (simp add: word_le_nat_alt)
    moreover then have "unat (ucast num :: byte) = unat num" by (simp add: unat_ucast_mod)
    ultimately show ?thesis
      using False appends_u8 [of p "word_of_nat (unat tag div 2 ^ 29 * 32 + unat num)"]
        tag_bits_or [of "ucast num" tag]
      by (simp add: asn1_tag_op_def num_def [symmetric] der_tag_def Let_def num del: of_nat_add of_nat_mult)
  qed
qed


section \<open>Children\<close>

text \<open>An operation that opens a child: it leaves room for a prefix, and the address \<open>a\<close> becomes the
  end of the chain.\<close>

definition opens :: "(cbb, 'a) cop \<Rightarrow> cbb_ref \<Rightarrow> nat \<Rightarrow> bytes \<Rightarrow> nat \<Rightarrow> bool \<Rightarrow> bool" where
  "opens op p a hdr k asn1 \<longleftrightarrow>
     (\<forall>outer s cbb r cbb'. cbb_at p outer s cbb \<longrightarrow> a \<notin> addr ` set outer \<longrightarrow> op cbb = (Some r, cbb') \<longrightarrow>
        cbb_at (Sub a) (outer @ [\<lparr>addr = a, offset = length (s @ hdr), pending_len_len = k, pending_is_asn1 = asn1\<rparr>])
          (s @ hdr @ replicate k 0) cbb') \<and>
     (\<forall>n outer s cbb. cbb_room n p outer s cbb \<longrightarrow> a \<notin> addr ` set outer \<longrightarrow> length hdr + k \<le> n \<longrightarrow>
        (\<exists>r cbb'. op cbb = (Some r, cbb') \<and> cbb_room (n - (length hdr + k)) (Sub a)
          (outer @ [\<lparr>addr = a, offset = length (s @ hdr), pending_len_len = k, pending_is_asn1 = asn1\<rparr>])
          (s @ hdr @ replicate k 0) cbb'))"

lemma opens_at:
  "opens op p a hdr k asn1 \<Longrightarrow> cbb_at p outer s cbb \<Longrightarrow> a \<notin> addr ` set outer \<Longrightarrow> op cbb = (Some r, cbb') \<Longrightarrow>
     cbb_at (Sub a) (outer @ [\<lparr>addr = a, offset = length (s @ hdr), pending_len_len = k, pending_is_asn1 = asn1\<rparr>])
          (s @ hdr @ replicate k 0) cbb'"
  unfolding opens_def by (drule conjunct1) blast

lemma opens_room:
  "opens op p a hdr k asn1 \<Longrightarrow> cbb_room n p outer s cbb \<Longrightarrow> a \<notin> addr ` set outer \<Longrightarrow> length hdr + k \<le> n \<Longrightarrow>
     \<exists>r cbb'. op cbb = (Some r, cbb') \<and> cbb_room (n - (length hdr + k)) (Sub a)
          (outer @ [\<lparr>addr = a, offset = length (s @ hdr), pending_len_len = k, pending_is_asn1 = asn1\<rparr>])
          (s @ hdr @ replicate k 0) cbb'"
  unfolding opens_def by (drule conjunct2) blast

lemma at_chain_end:
  assumes "cbb_at p outer s cbb" "cbb_chain cbb = outer"
  obtains b where "cbb_base cbb = Some b" "buf_ok b" "\<not> cbb_error b" "contents b = s" "cbb_len b = length s"
    "list_all child_ok outer"
  using assms by (auto simp: cbb_at_def length_contents dest!: split_chain_append)

lemma push_child_at:
  assumes at: "cbb_at p outer s cbb" "cbb_chain cbb = outer" and a: "a \<notin> addr ` set outer"
    and k: "0 < k" "k \<le> 3" "asn1 \<Longrightarrow> k = 1" "off + k \<le> length s"
    and c: "c = \<lparr>addr = a, offset = off, pending_len_len = k, pending_is_asn1 = asn1\<rparr>"
  shows "cbb_at (Sub a) (outer @ [c]) s (cbb\<lparr>cbb_chain := outer @ [c]\<rparr>)"
proof -
  from at_chain_end [OF at] obtain b where b: "cbb_base cbb = Some b" "buf_ok b" "\<not> cbb_error b"
    "contents b = s" "cbb_len b = length s" "list_all child_ok outer" .
  from b(2,5) have "length s < size_mod" by (simp add: buf_ok_def)
  with k have "child_ok c" by (auto simp: child_ok_def c)
  moreover have "split_chain (Sub a) (outer @ [c]) = Some (outer @ [c], [])"
    using children_of_fresh [OF a, of c "[]"] by (simp add: c)
  ultimately show ?thesis using b by (simp add: cbb_at_def)
qed

lemma opens_push:
  assumes op: "appends op p d" and d: "d = hdr @ replicate k 0" and k: "0 < k" "k \<le> 3" "asn1 \<Longrightarrow> k = 1"
    and comp: "\<And>outer s cbb r cbb'. cbb_at p outer s cbb \<Longrightarrow> op cbb = (Some r, cbb') \<Longrightarrow>
      op' cbb = (Some (), cbb'\<lparr>cbb_chain := outer @
        [\<lparr>addr = a, offset = length (s @ hdr), pending_len_len = k, pending_is_asn1 = asn1\<rparr>]\<rparr>)"
    and none: "\<And>cbb cbb'. op cbb = (None, cbb') \<Longrightarrow> fst (op' cbb) = None"
  shows "opens op' p a hdr k asn1"
proof -
  let ?c = "\<lambda>s. \<lparr>addr = a, offset = length (s @ hdr), pending_len_len = k, pending_is_asn1 = asn1\<rparr>"
  have push: "cbb_at (Sub a) (outer @ [?c s]) (s @ hdr @ replicate k 0) (cbb'\<lparr>cbb_chain := outer @ [?c s]\<rparr>)"
    if "cbb_at p outer s cbb" "op cbb = (Some r, cbb')" "a \<notin> addr ` set outer" for outer s cbb r cbb'
    using appends_at [OF op that(1,2)] that(3) k unfolding d
    by (intro push_child_at [of p]) auto
  show ?thesis
    unfolding opens_def
  proof (intro conjI allI impI)
    fix outer s cbb r cbb'
    assume at: "cbb_at p outer s cbb" and a: "a \<notin> addr ` set outer" and run: "op' cbb = (Some r, cbb')"
    obtain x cbb1 where "op cbb = (Some x, cbb1)"
      using none [of cbb] run by (cases "op cbb"; cases "fst (op cbb)") auto
    with push [OF at this a] comp [OF at this] run
    show "cbb_at (Sub a) (outer @ [?c s]) (s @ hdr @ replicate k 0) cbb'" by simp
  next
    fix n outer s cbb
    assume r: "cbb_room n p outer s cbb" and a: "a \<notin> addr ` set outer" and le: "length hdr + k \<le> n"
    then have at: "cbb_at p outer s cbb" and "length d \<le> n" by (simp_all add: cbb_room_def d)
    from appends_room [OF op r this(2)] obtain x cbb1 where
      run: "op cbb = (Some x, cbb1)" and r1: "cbb_room (n - length d) p outer (s @ d) cbb1" by blast
    from push [OF at run a] comp [OF at run] r1
    show "\<exists>r cbb'. op' cbb = (Some r, cbb') \<and> cbb_room (n - (length hdr + k)) (Sub a) (outer @ [?c s])
            (s @ hdr @ replicate k 0) cbb'"
      by (auto simp: cbb_room_def d)
  qed
qed

lemma opens_length_prefixed:
  assumes k: "0 < k" "k \<le> 3"
  shows "opens (cbb_add_length_prefixed p a k) p a [] k False"
proof -
  define op :: "(cbb, nat) cop" where "op = c_seq (CBB_flush p) (on_base (\<lambda>b. case cbb_buffer_add k b of
                  (None, b) \<Rightarrow> (None, b)
                | (Some off, b) \<Rightarrow>
                    (Some off, b\<lparr>cbb_buf := mem_write off (replicate k 0) (cbb_buf b)\<rparr>)))"
  have ap: "appends op p (replicate k 0)"
    using appendsI_on_base [OF writes_bytes [of "replicate k 0" "\<lambda>off. off"] writes_bytes_room, of p] k
    by (simp add: op_def size_mod_def)
  have alt: "cbb_add_length_prefixed p a k cbb = c_bind op (\<lambda>off. cbb_push_child a off k False) cbb" for cbb
    by (simp add: cbb_add_length_prefixed_def op_def c_seq_def c_bind_def split: prod.splits option.splits)
  show ?thesis
  proof (rule opens_push [OF ap])
    fix outer s cbb r cbb'
    assume at: "cbb_at p outer s cbb" and run: "op cbb = (Some r, cbb')"
    from run obtain cbb1 where f1: "CBB_flush p cbb = (Some (), cbb1)" by (auto simp: op_def c_seq_eq_Some)
    from CBB_flush_at [OF at f1] obtain b where b: "cbb_base cbb1 = Some b" "buf_ok b" "contents b = s" by blast
    have ks: "k < size_mod" using k by (simp add: size_mod_def)
    obtain x b1 where ad: "cbb_buffer_add k b = (Some x, b1)" and "x = r"
      using run f1 b by (auto simp: op_def c_seq_apply on_base_def split: prod.splits option.splits)
    with cbb_buffer_add_post [OF b(2) ks ad] b(3) have "r = length s" using length_contents [OF b(2)] by auto
    then show "cbb_add_length_prefixed p a k cbb = (Some (), cbb'\<lparr>cbb_chain := outer @
        [\<lparr>addr = a, offset = length (s @ []), pending_len_len = k, pending_is_asn1 = False\<rparr>]\<rparr>)"
      using run appends_at [OF ap at run] by (simp add: alt cbb_push_child_def)
  qed (use k in \<open>simp_all add: alt\<close>)
qed

lemma opens_asn1: "opens (CBB_add_asn1 p a tag) p a (der_tag tag) 1 True"
proof -
  define op where "op = c_seq (CBB_flush p) (c_seq (asn1_tag_op p tag) (CBB_add_u8 p 0))"
  have ap: "appends op p (der_tag tag @ replicate 1 0)"
    unfolding op_def
    using appends_seq [OF appends_flush [of p] appends_seq [OF appends_tag [of p tag] appends_u8 [of p 0]]]
    by simp
  have alt: "CBB_add_asn1 p a tag = c_seq (CBB_flush p) (c_seq (asn1_tag_op p tag)
     (\<lambda>cbb. case cbb_base cbb of None \<Rightarrow> (None, cbb)
       | Some b \<Rightarrow> c_seq (CBB_add_u8 p 0) (cbb_push_child a (cbb_len b) 1 True) cbb))"
    by (simp add: CBB_add_asn1_def asn1_tag_op_def Let_def)
  show ?thesis
  proof (rule opens_push [OF ap])
    fix outer s cbb r cbb'
    assume at: "cbb_at p outer s cbb" and run: "op cbb = (Some r, cbb')"
    from run obtain cbb1 cbb2 where f1: "CBB_flush p cbb = (Some (), cbb1)"
      and f2: "asn1_tag_op p tag cbb1 = (Some (), cbb2)" and f3: "CBB_add_u8 p 0 cbb2 = (Some (), cbb')"
      by (auto simp: op_def c_seq_eq_Some)
    from CBB_flush_at [OF at f1] have "cbb_at p outer s cbb1" by blast
    note at2 = appends_at [OF appends_tag this f2]
    obtain b where b: "cbb_base cbb2 = Some b" "cbb_len b = length (s @ der_tag tag)"
      using at_chain_end [OF conjunct1 [OF at2] conjunct2 [OF at2]] by blast
    show "CBB_add_asn1 p a tag cbb = (Some (), cbb'\<lparr>cbb_chain := outer @
        [\<lparr>addr = a, offset = length (s @ der_tag tag), pending_len_len = 1, pending_is_asn1 = True\<rparr>]\<rparr>)"
      using f1 f2 f3 b appends_at [OF ap at run] by (simp add: alt cbb_push_child_def)
  next
    fix cbb cbb'
    assume none: "op cbb = (None, cbb')"
    show "fst (CBB_add_asn1 p a tag cbb) = None"
      using none unfolding alt op_def c_seq_def c_bind_def
      by (auto split: prod.splits option.splits)
  qed simp_all
qed

section \<open>Closing children\<close>

text \<open>Seen from the parent, what was written to the child is closed.\<close>

lemma close_at:
  assumes at: "cbb_at (Sub a) (outer @ [c]) t cbb" and p: "split_chain p outer = Some (outer, [])"
    and put: "put_prefix c t = Some s"
  shows "cbb_at p outer s cbb"
proof -
  from at obtain b kids where b: "cbb_base cbb = Some b" "buf_ok b" "\<not> cbb_error b"
    "cbb_chain cbb = outer @ c # kids" "list_all child_ok (outer @ c # kids)"
    "close_chain kids (contents b) = Some t"
    by (auto simp: cbb_at_def dest!: children_of_append)
  with put split_chain_kids [OF p, of "c # kids"] show ?thesis
    by (auto simp: cbb_at_def)
qed

lemma close_room:
  assumes r: "cbb_room n (Sub a) (outer @ [c]) t cbb" and p: "split_chain p outer = Some (outer, [])"
    and put: "put_prefix c t = Some s" and le: "length s - length t \<le> n"
  shows "cbb_room (n - (length s - length t)) p outer s cbb"
proof -
  from r have at: "cbb_at (Sub a) (outer @ [c]) t cbb" by (simp add: cbb_room_def)
  then obtain b kids where b: "cbb_base cbb = Some b" "buf_ok b" "child_ok c" "list_all child_ok kids"
    "close_chain kids (contents b) = Some t"
    by (auto simp: cbb_at_def)
  have "cbb_len b \<le> length t" "length t \<le> length s"
    using close_chain_length [OF b(5,4)] put_prefix_length [OF put b(3)] length_contents [OF b(2)] by simp_all
  with r b(1) le close_at [OF at p put] show ?thesis
    by (auto simp: cbb_room_def)
qed

lemma put_prefix_len:
  assumes "length body < 256 ^ k"
  shows "put_prefix \<lparr>addr = a, offset = length s, pending_len_len = k, pending_is_asn1 = False\<rparr>
           (s @ replicate k 0 @ body) = Some (s @ be_bytes k (length body) @ body)"
  using assms by (simp add: put_prefix_def)

lemma put_prefix_asn1:
  assumes "length body \<le> 0xfffffffe"
  shows "put_prefix \<lparr>addr = a, offset = length s, pending_len_len = 1, pending_is_asn1 = True\<rparr>
           (s @ [0] @ body) = Some (s @ der_len (length body) @ body)"
  using assms by (simp add: put_prefix_def)


lemma flush_parent:
  assumes at: "cbb_at (Sub a) (outer @ [c]) t cbb" and p: "split_chain p outer = Some (outer, [])"
    and run: "CBB_flush p cbb = (Some u, cbb')"
  shows "\<exists>s. put_prefix c t = Some s \<and> cbb_at p outer s cbb' \<and> cbb_chain cbb' = outer"
proof -
  from at obtain b kids where b: "cbb_base cbb = Some b" "buf_ok b" "\<not> cbb_error b"
    "cbb_chain cbb = outer @ c # kids" "list_all child_ok (outer @ c # kids)"
    "close_chain kids (contents b) = Some t"
    by (auto simp: cbb_at_def dest!: children_of_append)
  with run split_chain_kids [OF p, of "c # kids"] obtain b' kids' where
    f: "flush_chain (c # kids) b = (True, b', kids')"
    by (auto simp: CBB_flush_def split: prod.splits if_splits)
  from flush_chain_refines [OF b(2) _ f] b obtain s where s: "put_prefix c t = Some s"
    by (auto split: option.splits)
  from CBB_flush_at [OF close_at [OF at p s] run] s show ?thesis by blast
qed

section \<open>Building trees\<close>

text \<open>Data a caller writes: bytes, ASN.1 elements and length-prefixed blocks, nested to any depth;
  the calls that write them, each child in a \<open>CBB\<close> of its own; and the bytes meant.\<close>

datatype item = Raw bytes | Elem u32 "item list" | Prefixed nat "item list"

fun encode :: "item \<Rightarrow> bytes" and encode_all :: "item list \<Rightarrow> bytes" where
  "encode (Raw d) = d"
| "encode (Elem tag xs) = der_elem tag (encode_all xs)"
| "encode (Prefixed k xs) = be_bytes k (length (encode_all xs)) @ encode_all xs"
| "encode_all [] = []"
| "encode_all (x # xs) = encode x @ encode_all xs"

fun fits :: "item \<Rightarrow> bool" and fits_all :: "item list \<Rightarrow> bool" where
  "fits (Raw d) = (length d < size_mod)"
| "fits (Elem tag xs) = (fits_all xs \<and> length (encode_all xs) \<le> 0xfffffffe)"
| "fits (Prefixed k xs) = (fits_all xs \<and> 0 < k \<and> k \<le> 3 \<and> length (encode_all xs) < 256 ^ k)"
| "fits_all [] = True"
| "fits_all (x # xs) = (fits x \<and> fits_all xs)"

fun build :: "cbb_ref \<Rightarrow> nat \<Rightarrow> item \<Rightarrow> (cbb, unit) cop"
  and build_all :: "cbb_ref \<Rightarrow> nat \<Rightarrow> item list \<Rightarrow> (cbb, unit) cop" where
  "build p a (Raw d) = CBB_add_bytes p d"
| "build p a (Elem tag xs) =
     c_seq (CBB_add_asn1 p a tag) (c_seq (build_all (Sub a) (Suc a) xs) (CBB_flush p))"
| "build p a (Prefixed k xs) =
     c_seq (if k = 1 then CBB_add_u8_length_prefixed p a
            else if k = 2 then CBB_add_u16_length_prefixed p a else CBB_add_u24_length_prefixed p a)
       (c_seq (build_all (Sub a) (Suc a) xs) (CBB_flush p))"
| "build_all p a [] = CBB_flush p"
| "build_all p a (x # xs) = c_seq (build p a x) (build_all p a xs)"

text \<open>Every block must have a length the \<open>Prefixed\<close> form supports and memory must be able to hold
  each piece; whether the lengths fit is checked by the code.\<close>

fun writable :: "item \<Rightarrow> bool" and writable_all :: "item list \<Rightarrow> bool" where
  "writable (Raw d) = (length d < size_mod)"
| "writable (Elem tag xs) = writable_all xs"
| "writable (Prefixed k xs) = (writable_all xs \<and> 0 < k \<and> k \<le> 3)"
| "writable_all [] = True"
| "writable_all (x # xs) = (writable x \<and> writable_all xs)"

lemma opens_prefixed:
  "0 < k \<Longrightarrow> k \<le> 3 \<Longrightarrow> opens (if k = 1 then CBB_add_u8_length_prefixed p a
     else if k = 2 then CBB_add_u16_length_prefixed p a else CBB_add_u24_length_prefixed p a) p a [] k False"
  using opens_length_prefixed [of k p a]
  by (auto simp: CBB_add_u8_length_prefixed_def CBB_add_u16_length_prefixed_def CBB_add_u24_length_prefixed_def
      le_Suc_eq numeral_3_eq_3 numeral_2_eq_2)

lemma cbb_at_resolves:
  assumes "cbb_at p outer s cbb"
  shows "split_chain p outer = Some (outer, [])"
proof -
  from assms obtain kids where "split_chain p (cbb_chain cbb) = Some (outer, kids)"
    by (auto simp: cbb_at_def)
  from split_chain_kids [OF this, of "[]"] show ?thesis by simp
qed

text \<open>What filling a child at address \<open>a\<close> does, and the two steps around it.\<close>

definition fills :: "nat \<Rightarrow> (cbb, 'a) cop \<Rightarrow> bytes \<Rightarrow> bool \<Rightarrow> bool" where
  "fills a body d ok \<longleftrightarrow>
     (\<forall>outer s cbb r cbb'. cbb_at (Sub a) outer s cbb \<longrightarrow> (\<forall>x\<in>addr ` set outer. x < Suc a) \<longrightarrow>
        body cbb = (Some r, cbb') \<longrightarrow> ok \<and> cbb_at (Sub a) outer (s @ d) cbb')"

definition fills_room :: "nat \<Rightarrow> (cbb, 'a) cop \<Rightarrow> bytes \<Rightarrow> bool" where
  "fills_room a body d \<longleftrightarrow>
     (\<forall>n outer s cbb. cbb_room n (Sub a) outer s cbb \<longrightarrow> (\<forall>x\<in>addr ` set outer. x < Suc a) \<longrightarrow>
        length d \<le> n \<longrightarrow> (\<exists>r cbb'. body cbb = (Some r, cbb') \<and> cbb_room (n - length d) (Sub a) outer (s @ d) cbb'))"

lemma child_at:
  assumes op: "opens op p a hdr k asn1" and body: "fills a body d ok"
    and at: "cbb_at p outer s cbb" and lt: "\<forall>x\<in>addr ` set outer. x < a"
    and run: "c_seq op (c_seq body (CBB_flush p)) cbb = (Some u, cbb')"
  shows "ok \<and> (\<exists>t. put_prefix \<lparr>addr = a, offset = length (s @ hdr), pending_len_len = k, pending_is_asn1 = asn1\<rparr>
      ((s @ hdr) @ replicate k 0 @ d) = Some t \<and> cbb_at p outer t cbb' \<and> cbb_chain cbb' = outer)"
proof -
  from run obtain x y cbb1 cbb2 where steps: "op cbb = (Some x, cbb1)" "body cbb1 = (Some y, cbb2)"
    "CBB_flush p cbb2 = (Some u, cbb')" by (auto simp: c_seq_eq_Some)
  let ?c = "\<lparr>addr = a, offset = length (s @ hdr), pending_len_len = k, pending_is_asn1 = asn1\<rparr>"
  have a: "a \<notin> addr ` set outer" using lt by auto
  have lt': "\<forall>x\<in>addr ` set (outer @ [?c]). x < Suc a" using lt by auto
  from body opens_at [OF op at a steps(1)] lt' steps(2)
  have "ok \<and> cbb_at (Sub a) (outer @ [?c]) ((s @ hdr @ replicate k 0) @ d) cbb2"
    unfolding fills_def by blast
  then have ok and "cbb_at (Sub a) (outer @ [?c]) ((s @ hdr @ replicate k 0) @ d) cbb2" by simp_all
  from flush_parent [OF this(2) cbb_at_resolves [OF at] steps(3)] \<open>ok\<close> show ?thesis by simp
qed

lemma child_room:
  assumes op: "opens op p a hdr k asn1" and body: "fills_room a body d"
    and r: "cbb_room n p outer s cbb" and lt: "\<forall>x\<in>addr ` set outer. x < a"
    and put: "put_prefix \<lparr>addr = a, offset = length (s @ hdr), pending_len_len = k, pending_is_asn1 = asn1\<rparr>
      ((s @ hdr) @ replicate k 0 @ d) = Some (s @ e)" and n: "length e \<le> n" "length hdr + k + length d \<le> length e"
  shows "\<exists>u cbb'. c_seq op (c_seq body (CBB_flush p)) cbb = (Some u, cbb') \<and>
    cbb_room (n - length e) p outer (s @ e) cbb'"
proof -
  let ?c = "\<lparr>addr = a, offset = length (s @ hdr), pending_len_len = k, pending_is_asn1 = asn1\<rparr>"
  have a: "a \<notin> addr ` set outer" using lt by auto
  have lt': "\<forall>x\<in>addr ` set (outer @ [?c]). x < Suc a" using lt by auto
  have at: "cbb_at p outer s cbb" using r by (simp add: cbb_room_def)
  have le: "length hdr + k \<le> n" "length d \<le> n - (length hdr + k)" using n by simp_all
  from opens_room [OF op r a le(1)] obtain x cbb1 where s1: "op cbb = (Some x, cbb1)"
    and r1: "cbb_room (n - (length hdr + k)) (Sub a) (outer @ [?c]) (s @ hdr @ replicate k 0) cbb1" by blast
  from body r1 lt' le(2) obtain y cbb2 where s2: "body cbb1 = (Some y, cbb2)"
    and r2: "cbb_room (n - (length hdr + k) - length d) (Sub a) (outer @ [?c]) ((s @ hdr @ replicate k 0) @ d) cbb2"
    unfolding fills_room_def by blast
  have put': "put_prefix ?c ((s @ hdr @ replicate k 0) @ d) = Some (s @ e)" using put by simp
  have "cbb_room (n - length e) p outer (s @ e) cbb2"
    using close_room [OF r2 cbb_at_resolves [OF at] put'] n by (simp add: add.assoc)
  from CBB_flush_room [OF this] s1 s2 show ?thesis by auto
qed

lemma build_at:
  "\<lbrakk>cbb_at p outer s cbb; \<forall>x\<in>addr ` set outer. x < a; writable x; build p a x cbb = (Some u, cbb')\<rbrakk>
     \<Longrightarrow> fits x \<and> cbb_at p outer (s @ encode x) cbb' \<and> cbb_chain cbb' = outer"
  "\<lbrakk>cbb_at p outer s cbb; \<forall>x\<in>addr ` set outer. x < a; writable_all xs; build_all p a xs cbb = (Some u, cbb')\<rbrakk>
     \<Longrightarrow> fits_all xs \<and> cbb_at p outer (s @ encode_all xs) cbb' \<and> cbb_chain cbb' = outer"
proof (induction p a x and p a xs arbitrary: outer s cbb u cbb' and outer s cbb u cbb' rule: build_build_all.induct)
  case (1 p a d)
  then have "length d < size_mod" by simp
  from appends_at [OF appends_bytes [OF this] "1.prems"(1)] "1.prems"(4) show ?case
    by (simp add: \<open>length d < size_mod\<close>)
next
  case (2 p a tag xs)
  have "fills a (build_all (Sub a) (Suc a) xs) (encode_all xs) (fits_all xs)"
    unfolding fills_def using "2.IH" "2.prems"(3) unfolding writable.simps by blast
  from child_at [OF opens_asn1 this "2.prems"(1,2) "2.prems"(4) [unfolded build.simps]] show ?case
    by (auto simp: put_prefix_def der_elem_def Let_def split: if_splits)
next
  case (3 p a k xs)
  have k: "0 < k" "k \<le> 3" using "3.prems"(3) by auto
  have "fills a (build_all (Sub a) (Suc a) xs) (encode_all xs) (fits_all xs)"
    unfolding fills_def using "3.IH" "3.prems"(3) unfolding writable.simps by blast
  from child_at [OF opens_prefixed [OF k] this "3.prems"(1,2) "3.prems"(4) [unfolded build.simps]] k show ?case
    by (auto simp: put_prefix_def Let_def split: if_splits)
next
  case (4 p a)
  from CBB_flush_at [OF "4.prems"(1)] "4.prems"(4) show ?case by simp
next
  case (5 p a x xs)
  from "5.prems"(4) obtain v cbb1 where s1: "build p a x cbb = (Some v, cbb1)"
    and s2: "build_all p a xs cbb1 = (Some u, cbb')"
    unfolding build_all.simps c_seq_eq_Some by blast
  from "5.prems"(3) have w: "writable x" "writable_all xs" by simp_all
  from "5.IH"(1) [OF "5.prems"(1,2) w(1) s1] have h: "fits x" "cbb_at p outer (s @ encode x) cbb1" by blast+
  from "5.IH"(2) [OF h(2) "5.prems"(2) w(2) s2] h(1) show ?case by simp
qed

lemma build_room:
  "\<lbrakk>cbb_room n p outer s cbb; \<forall>x\<in>addr ` set outer. x < a; fits x; length (encode x) \<le> n\<rbrakk>
     \<Longrightarrow> \<exists>u cbb'. build p a x cbb = (Some u, cbb') \<and> cbb_room (n - length (encode x)) p outer (s @ encode x) cbb'"
  "\<lbrakk>cbb_room n p outer s cbb; \<forall>x\<in>addr ` set outer. x < a; fits_all xs; length (encode_all xs) \<le> n\<rbrakk>
     \<Longrightarrow> \<exists>u cbb'. build_all p a xs cbb = (Some u, cbb') \<and>
           cbb_room (n - length (encode_all xs)) p outer (s @ encode_all xs) cbb'"
proof (induction p a x and p a xs arbitrary: n outer s cbb and n outer s cbb rule: build_build_all.induct)
  case (1 p a d)
  then have "length d < size_mod" by simp
  from appends_room [OF appends_bytes [OF this] "1.prems"(1)] "1.prems"(4) show ?case by simp
next
  case (2 p a tag xs)
  have f: "fills_room a (build_all (Sub a) (Suc a) xs) (encode_all xs)"
    unfolding fills_room_def using "2.IH" "2.prems"(3) unfolding fits.simps by blast
  have put: "put_prefix \<lparr>addr = a, offset = length (s @ der_tag tag), pending_len_len = 1, pending_is_asn1 = True\<rparr>
      ((s @ der_tag tag) @ replicate 1 0 @ encode_all xs) = Some (s @ der_elem tag (encode_all xs))"
    using put_prefix_asn1 [of "encode_all xs" a "s @ der_tag tag"] "2.prems"(3) by (simp add: der_elem_def)
  from child_room [OF opens_asn1 f "2.prems"(1,2) put] "2.prems"(4) show ?case
    by (auto simp: der_elem_def der_len_def)
next
  case (3 p a k xs)
  have k: "0 < k" "k \<le> 3" using "3.prems"(3) by auto
  have f: "fills_room a (build_all (Sub a) (Suc a) xs) (encode_all xs)"
    unfolding fills_room_def using "3.IH" "3.prems"(3) unfolding fits.simps by blast
  have put: "put_prefix \<lparr>addr = a, offset = length (s @ []), pending_len_len = k, pending_is_asn1 = False\<rparr>
      ((s @ []) @ replicate k 0 @ encode_all xs) = Some (s @ be_bytes k (length (encode_all xs)) @ encode_all xs)"
    using put_prefix_len [of "encode_all xs" k a s] "3.prems"(3) by simp
  from child_room [OF opens_prefixed [OF k] f "3.prems"(1,2) put] "3.prems"(4) show ?case by auto
next
  case (4 p a)
  from CBB_flush_room [OF "4.prems"(1)] show ?case by simp
next
  case (5 p a x xs)
  from "5.prems"(3,4) have le: "length (encode x) \<le> n" "length (encode_all xs) \<le> n - length (encode x)"
    and fx: "fits x" "fits_all xs" by simp_all
  from "5.IH"(1) [OF "5.prems"(1,2) fx(1) le(1)] obtain v cbb1 where s1: "build p a x cbb = (Some v, cbb1)"
    and r1: "cbb_room (n - length (encode x)) p outer (s @ encode x) cbb1" by blast
  from "5.IH"(2) [OF r1 "5.prems"(2) fx(2) le(2)] s1 show ?case by auto
qed

section \<open>From initialisation to the finished buffer\<close>

lemma CBB_init_at:
  assumes "allocator_ok al" "CBB_init al n = (True, cbb)" "n < size_mod"
  shows "cbb_at Top [] [] cbb \<and> (\<exists>b. cbb_base cbb = Some b \<and> can_resize b)"
  using assms
  by (auto simp: CBB_init_def cbb_init_def CBB_zero_def cbb_at_def buf_ok_def contents_def
      split: option.splits if_splits dest: allocator_okD)

lemma CBB_init_room:
  assumes "allocator_ok al" "\<And>k. al k \<noteq> None" "n < size_mod" "m < size_mod"
  shows "\<exists>cbb. CBB_init al n = (True, cbb) \<and> cbb_room m Top [] [] cbb"
proof -
  obtain blk st where "al n = Some blk" "al 32 = Some st" using assms(2) by (meson not_None_eq)
  then have run: "CBB_init al n = (True, \<lparr>cbb_base = Some \<lparr>cbb_buf = blk, cbb_len = 0, cbb_cap = n,
      can_resize = True, cbb_error = False, cbb_alloc = al\<rparr>, cbb_chain = []\<rparr>)"
    by (simp add: CBB_init_def cbb_init_def CBB_zero_def)
  from CBB_init_at [OF assms(1) run assms(3)] run assms(2,4) show ?thesis
    by (auto simp: cbb_room_def room_def)
qed

lemma CBB_init_fixed_room:
  assumes "allocator_ok al" "al 32 \<noteq> None" "length buf < size_mod"
  shows "\<exists>cbb. CBB_init_fixed al buf = (True, cbb) \<and> cbb_room (length buf) Top [] [] cbb"
  using assms by (auto simp: CBB_init_fixed_def cbb_init_def CBB_zero_def cbb_room_def cbb_at_def room_def
      buf_ok_def contents_def)

lemma CBB_finish_at:
  assumes at: "cbb_at Top [] s cbb" and run: "CBB_finish Top w cbb = (Some (out, len), cbb')"
  shows "len = length s \<and> take len out = s \<and> cbb_base cbb' = None"
proof -
  from run obtain u cbb1 where f: "CBB_flush Top cbb = (Some u, cbb1)"
    by (auto simp: CBB_finish_def split: prod.splits option.splits)
  from CBB_flush_at [OF at f] obtain b where b: "cbb_base cbb1 = Some b" "buf_ok b" "contents b = s" by blast
  with run f have "out = cbb_buf b" "len = cbb_len b" "cbb' = CBB_cleanup Top cbb1"
    by (auto simp: CBB_finish_def split: if_splits)
  with b length_contents [of b] show ?thesis by (auto simp: contents_def CBB_cleanup_def)
qed

lemma CBB_finish_room:
  assumes "cbb_room n Top [] s cbb"
  shows "\<exists>out len cbb'. CBB_finish Top True cbb = (Some (out, len), cbb')"
proof -
  from CBB_flush_room [OF assms] obtain cbb1 where f: "CBB_flush Top cbb = (Some (), cbb1)"
    and r: "cbb_room n Top [] s cbb1" by blast
  then show ?thesis by (auto simp: CBB_finish_def cbb_room_def)
qed

end
