(* ===== verification/CBB_Values.thy ===== *)
theory CBB_Values
  imports CBB_Build
begin

text \<open>
  The ASN.1 values a builder can add, \<open>CBB_add_asn1_uint64\<close> and its relatives at the end of
  \<open>crypto/bytestring/cbb.c\<close>. Each opens a child in a local variable, whose address is the extra
  argument \<open>child\<close>, fills it and closes it with \<open>CBB_flush\<close>. \<open>puts a op p d\<close> describes an operation
  that adds \<open>d\<close> using addresses from \<open>a\<close> on; the locale \<open>built_codec\<close> joins such an operation to the
  reader of the same values.
\<close>

section \<open>The operations\<close>

text \<open>The loop over the eight bytes, most significant first, with the flag \<open>started\<close>, and the byte
  written after it when nothing was started.\<close>

fun asn1_uint64_bytes :: "cbb_ref \<Rightarrow> bool \<Rightarrow> bytes \<Rightarrow> (cbb, unit) cop" where
  "asn1_uint64_bytes child started [] = (if \<not> started then CBB_add_u8 child 0 else c_ret ())"
| "asn1_uint64_bytes child started (byte # rest) =
     (if \<not> started
      then if byte = 0 then asn1_uint64_bytes child False rest
           else c_seq (if byte AND 0x80 \<noteq> 0 then CBB_add_u8 child 0 else c_ret ())
                  (c_seq (CBB_add_u8 child byte) (asn1_uint64_bytes child True rest))
      else c_seq (CBB_add_u8 child byte) (asn1_uint64_bytes child True rest))"

definition CBB_add_asn1_uint64 :: "cbb_ref \<Rightarrow> nat \<Rightarrow> u64 \<Rightarrow> (cbb, unit) cop" where
  "CBB_add_asn1_uint64 p child v =
     c_seq (CBB_add_asn1 p child CBS_ASN1_INTEGER)
       (c_seq (asn1_uint64_bytes (Sub child) False
                 (map (\<lambda>i. ucast (drop_bit (8 * (7 - i)) v AND 0xff)) [0..<8]))
          (CBB_flush p))"

text \<open>The union of \<open>int64_t\<close> with its bytes, the least significant first; the loop that skips leading
  sign-extension bytes.\<close>

definition int64_bytes :: "u64 \<Rightarrow> bytes" where
  "int64_bytes v = map (\<lambda>i. ucast (drop_bit (8 * i) v)) [0..<8]"

fun int64_start :: "bytes \<Rightarrow> nat \<Rightarrow> nat" where
  "int64_start bytes 0 = 0"
| "int64_start bytes (Suc s) =
     (if bytes ! Suc s = 0xff \<and> bytes ! s AND 0x80 \<noteq> 0 then int64_start bytes s else Suc s)"

definition CBB_add_asn1_int64 :: "cbb_ref \<Rightarrow> nat \<Rightarrow> u64 \<Rightarrow> (cbb, unit) cop" where
  "CBB_add_asn1_int64 p child v =
     (if sint v \<ge> 0 then CBB_add_asn1_uint64 p child v
      else let bytes = int64_bytes v; start = int64_start bytes 7
           in c_seq (CBB_add_asn1 p child CBS_ASN1_INTEGER)
                (c_seq (c_each (\<lambda>i. CBB_add_u8 (Sub child) (bytes ! i)) (rev [0..<Suc start]))
                   (CBB_flush p)))"

definition CBB_add_asn1_octet_string :: "cbb_ref \<Rightarrow> nat \<Rightarrow> bytes \<Rightarrow> (cbb, unit) cop" where
  "CBB_add_asn1_octet_string p child data =
     c_seq (CBB_add_asn1 p child CBS_ASN1_OCTETSTRING)
       (c_seq (CBB_add_bytes (Sub child) data) (CBB_flush p))"

definition CBB_add_asn1_bool :: "cbb_ref \<Rightarrow> nat \<Rightarrow> int \<Rightarrow> (cbb, unit) cop" where
  "CBB_add_asn1_bool p child v =
     c_seq (CBB_add_asn1 p child CBS_ASN1_BOOLEAN)
       (c_seq (CBB_add_u8 (Sub child) (if v \<noteq> 0 then 0xff else 0)) (CBB_flush p))"

section \<open>Adding bytes through children\<close>

definition puts :: "nat \<Rightarrow> (cbb, 'a) cop \<Rightarrow> cbb_ref \<Rightarrow> bytes \<Rightarrow> bool" where
  "puts a op p d \<longleftrightarrow>
     (\<forall>outer s cbb r cbb'. cbb_at p outer s cbb \<longrightarrow> (\<forall>x\<in>addr ` set outer. x < a) \<longrightarrow>
        op cbb = (Some r, cbb') \<longrightarrow> cbb_at p outer (s @ d) cbb') \<and>
     (\<forall>n outer s cbb. cbb_room n p outer s cbb \<longrightarrow> (\<forall>x\<in>addr ` set outer. x < a) \<longrightarrow> length d \<le> n \<longrightarrow>
        (\<exists>r cbb'. op cbb = (Some r, cbb') \<and> cbb_room (n - length d) p outer (s @ d) cbb'))"

lemma puts_at:
  "\<lbrakk>puts a op p d; cbb_at p outer s cbb; \<forall>x\<in>addr ` set outer. x < a; op cbb = (Some r, cbb')\<rbrakk>
     \<Longrightarrow> cbb_at p outer (s @ d) cbb'"
  unfolding puts_def by (drule conjunct1) blast

lemma puts_room:
  "\<lbrakk>puts a op p d; cbb_room n p outer s cbb; \<forall>x\<in>addr ` set outer. x < a; length d \<le> n\<rbrakk>
     \<Longrightarrow> \<exists>r cbb'. op cbb = (Some r, cbb') \<and> cbb_room (n - length d) p outer (s @ d) cbb'"
  unfolding puts_def by (drule conjunct2) blast

lemma puts_appends: "appends op p d \<Longrightarrow> puts a op p d"
  unfolding puts_def
  by (intro conjI allI impI; (drule (2) appends_at | drule (2) appends_room)) simp_all

lemma puts_ret: "puts a (c_ret x) p []"
  unfolding puts_def by auto

lemma puts_skip: "puts a (Pair (Some x)) p []"
  unfolding puts_def by auto

lemma puts_u8: "puts a (CBB_add_u8 p v) p [v]"
  by (rule puts_appends) (rule appends_u8)

lemma puts_bytes: "length d < size_mod \<Longrightarrow> puts a (CBB_add_bytes p d) p d"
  by (rule puts_appends) (rule appends_bytes)

lemma puts_seq:
  assumes m: "puts a m p d" and n: "puts a n p e"
  shows "puts a (c_seq m n) p (d @ e)"
proof -
  have "cbb_at p outer (s @ d @ e) cbb'"
    if "cbb_at p outer s cbb" "\<forall>x\<in>addr ` set outer. x < a" "c_seq m n cbb = (Some r, cbb')" for outer s cbb r cbb'
  proof -
    from that(3) obtain x cbb1 where m1: "m cbb = (Some x, cbb1)" and n1: "n cbb1 = (Some r, cbb')"
      by (auto simp: c_seq_eq_Some)
    from puts_at [OF n puts_at [OF m that(1,2) m1] that(2) n1] show ?thesis by simp
  qed
  moreover have "\<exists>r cbb'. c_seq m n cbb = (Some r, cbb') \<and> cbb_room (k - length (d @ e)) p outer (s @ d @ e) cbb'"
    if "cbb_room k p outer s cbb" "\<forall>x\<in>addr ` set outer. x < a" "length (d @ e) \<le> k" for k outer s cbb
  proof -
    from that(3) have le: "length d \<le> k" "length e \<le> k - length d" by simp_all
    from puts_room [OF m that(1,2) le(1)] obtain x cbb1 where
      m1: "m cbb = (Some x, cbb1)" and r1: "cbb_room (k - length d) p outer (s @ d) cbb1" by blast
    from puts_room [OF n r1 that(2) le(2)] m1 show ?thesis by auto
  qed
  ultimately show ?thesis unfolding puts_def by simp
qed

lemma puts_each: "(\<And>x. x \<in> set xs \<Longrightarrow> puts a (f x) p (g x)) \<Longrightarrow> puts a (c_each f xs) p (concat (map g xs))"
  by (induction xs) (auto intro: puts_ret puts_seq)

lemma puts_mono: "puts b op p d \<Longrightarrow> a \<le> b \<Longrightarrow> puts a op p d"
  unfolding puts_def by (meson less_le_trans)

text \<open>An element: a child opened at \<open>a\<close>, filled and closed.\<close>

lemma puts_elem:
  assumes body: "puts (Suc a) op (Sub a) d" and len: "length d \<le> 0xfffffffe"
  shows "puts a (c_seq (CBB_add_asn1 p a tag) (c_seq op (CBB_flush p))) p (der_elem tag d)"
proof -
  have f: "fills a op d True" and fr: "fills_room a op d"
    using puts_at [OF body] puts_room [OF body] unfolding fills_def fills_room_def by blast+
  have e: "put_prefix \<lparr>addr = a, offset = length (s @ der_tag tag), pending_len_len = 1, pending_is_asn1 = True\<rparr>
      ((s @ der_tag tag) @ replicate 1 0 @ d) = Some (s @ der_elem tag d)" for s
    using put_prefix_asn1 [OF len, of a "s @ der_tag tag"] by (simp add: der_elem_def)
  have l: "length (der_tag tag) + 1 + length d \<le> length (der_elem tag d)"
    by (auto simp: der_elem_def der_len_def)
  show ?thesis
    unfolding puts_def
  proof (intro conjI allI impI)
    fix outer s cbb r cbb'
    assume "cbb_at p outer s cbb" "\<forall>x\<in>addr ` set outer. x < a"
      "c_seq (CBB_add_asn1 p a tag) (c_seq op (CBB_flush p)) cbb = (Some r, cbb')"
    from child_at [OF opens_asn1 f this] e [of s] show "cbb_at p outer (s @ der_elem tag d) cbb'" by simp
  next
    fix n outer s cbb
    assume "cbb_room n p outer s cbb" "\<forall>x\<in>addr ` set outer. x < a" "length (der_elem tag d) \<le> n"
    from child_room [OF opens_asn1 fr this(1,2) e this(3) l]
    show "\<exists>r cbb'. c_seq (CBB_add_asn1 p a tag) (c_seq op (CBB_flush p)) cbb = (Some r, cbb') \<and>
        cbb_room (n - length (der_elem tag d)) p outer (s @ der_elem tag d) cbb'" .
  qed
qed

section \<open>A builder and a reader of the same values\<close>

text \<open>What the client of an adding operation and the reader that matches it may rely on: values added
  one after the other to a fresh builder are read back in order, and nothing is left over.\<close>

locale adder =
  fixes add :: "cbb_ref \<Rightarrow> nat \<Rightarrow> 'a \<Rightarrow> (cbb, unit) cop" and enc :: "'a \<Rightarrow> bytes" and valid :: "'a \<Rightarrow> bool"
  assumes add_puts: "valid x \<Longrightarrow> puts a (add p a x) p (enc x)"
begin

lemma puts_all: "list_all valid xs \<Longrightarrow> puts a (c_each (add p a) xs) p (concat (map enc xs))"
  by (rule puts_each) (auto simp: list_all_iff intro: add_puts)

lemma built_contents:
  assumes al: "allocator_ok al" "CBB_init al n = (True, cbb)" "n < size_mod" and v: "list_all valid xs"
    and run: "c_seq (c_each (add Top a) xs) (CBB_finish Top w) cbb = (Some (out, len), cbb')"
  shows "take len out = concat (map enc xs)"
proof -
  from CBB_init_at [OF al] have at: "cbb_at Top [] [] cbb" ..
  from run obtain u cbb1 where s: "c_each (add Top a) xs cbb = (Some u, cbb1)"
    "CBB_finish Top w cbb1 = (Some (out, len), cbb')" by (auto simp: c_seq_eq_Some)
  from puts_at [OF puts_all [OF v] at _ s(1)] have "cbb_at Top [] (concat (map enc xs)) cbb1" by simp
  from CBB_finish_at [OF this s(2)] show ?thesis by blast
qed

lemma building_all_succeeds:
  assumes "allocator_ok al" "\<And>k. al k \<noteq> None" "n < size_mod" and v: "list_all valid xs"
    and l: "length (concat (map enc xs)) < size_mod"
  shows "\<exists>cbb out len cbb'. CBB_init al n = (True, cbb) \<and>
    c_seq (c_each (add Top a) xs) (CBB_finish Top True) cbb = (Some (out, len), cbb')"
proof -
  from CBB_init_room [OF assms(1-3) l] obtain cbb where i: "CBB_init al n = (True, cbb)"
    and r: "cbb_room (length (concat (map enc xs))) Top [] [] cbb" by blast
  from puts_room [OF puts_all [OF v] r] obtain u cbb1 where s: "c_each (add Top a) xs cbb = (Some u, cbb1)"
    and r1: "cbb_room 0 Top [] (concat (map enc xs)) cbb1" by auto
  from CBB_finish_room [OF r1] i s show ?thesis by auto
qed

end

locale built_codec = seq_codec enc dec valid + adder add enc valid
  for enc :: "'a \<Rightarrow> bytes" and dec :: "(bytes, 'a) cop" and valid :: "'a \<Rightarrow> bool"
    and add :: "cbb_ref \<Rightarrow> nat \<Rightarrow> 'a \<Rightarrow> (cbb, unit) cop"
begin

lemma built_reads_back:
  assumes "allocator_ok al" "CBB_init al n = (True, cbb)" "n < size_mod" "list_all valid xs"
    "c_seq (c_each (add Top a) xs) (CBB_finish Top w) cbb = (Some (out, len), cbb')"
  shows "read_all dec (take len out) = Some xs"
  unfolding built_contents [OF assms] by (rule read_all_concat) (rule assms)

end

section \<open>INTEGER\<close>

text \<open>What the loop over the bytes writes.\<close>

fun uint_out :: "bool \<Rightarrow> bytes \<Rightarrow> bytes" where
  "uint_out started [] = (if started then [] else [0])"
| "uint_out started (b # bs) =
     (if started then b # uint_out True bs
      else if b = 0 then uint_out False bs
      else (if b AND 0x80 \<noteq> 0 then [0] else []) @ b # uint_out True bs)"

lemma puts_uint64_bytes: "puts a (asn1_uint64_bytes p started bs) p (uint_out started bs)"
proof (induction p started bs rule: asn1_uint64_bytes.induct)
  case (1 p started)
  show ?case using puts_u8 [of a p 0] by (simp add: puts_skip)
next
  case (2 p started b bs)
  have pad: "puts a (if b AND 0x80 \<noteq> 0 then CBB_add_u8 p 0 else c_ret ()) p (if b AND 0x80 \<noteq> 0 then [0] else [])"
    using puts_ret [of a "()" p] puts_u8 [of a p 0] by (cases "b AND 0x80 = 0") simp_all
  have step: "puts a (c_seq (CBB_add_u8 p b) (asn1_uint64_bytes p True bs)) p (b # uint_out True bs)"
    if "puts a (asn1_uint64_bytes p True bs) p (uint_out True bs)"
    using puts_seq [OF puts_u8 that] by simp
  show ?case
    using 2 step puts_seq [OF pad step] by (cases started; cases "b = 0") simp_all
qed

lemma uint_out_True: "uint_out True bs = bs"
  by (induction bs) simp_all

lemma uint_out_facts:
  "uint_out False bs \<noteq> []" "hd (uint_out False bs) AND 128 = 0" "be_nat (uint_out False bs) = be_nat bs"
  "\<not> (hd (uint_out False bs) = 0 \<and> 1 < length (uint_out False bs) \<and> uint_out False bs ! 1 AND 128 = 0)"
proof (induction bs)
  case (Cons b bs)
  { case 1 from Cons show ?case by simp next
    case 2 from Cons show ?case by simp next
    case 3 from Cons show ?case by (simp add: uint_out_True be_nat_Cons) next
    case 4 from Cons show ?case by (simp add: uint_out_True) }
qed (simp_all add: be_nat_Cons)

lemma uint_out_eq: "uint_out False bs = uint_body (be_nat bs)"
  using uint_body_be_nat [OF uint_out_facts(1,2,4)] by (simp add: uint_out_facts(3))

text \<open>The eight bytes, in either order.\<close>

lemma be_bytes_map: "be_bytes k n = map (\<lambda>i. word_of_nat (n div 256 ^ (k - Suc i))) [0..<k]"
proof (induction k arbitrary: n)
  case (Suc k)
  have "n div 256 div 256 ^ (k - Suc i) = n div 256 ^ (k - i)" if "i < k" for i
  proof -
    have "k - i = Suc (k - Suc i)" using that by simp
    then show ?thesis by (simp add: div_mult2_eq)
  qed
  with Suc [of "n div 256"] show ?case by simp
qed simp

lemma byte_of_u64: "(ucast (drop_bit (8 * i) v) :: byte) = word_of_nat (unat (v :: u64) div 256 ^ i)"
  by (simp add: word_unat_eq_iff unat_ucast_mod unat_byte_of_nat unat_drop_bit_div power_mult)

lemma ucast_and_255: "(ucast (w AND 255 :: u64) :: byte) = ucast w"
  by (simp add: word_unat_eq_iff unat_ucast_mod word_and_255 unat_and_mask)

lemma uint64_bytes_eq: "map (\<lambda>i. ucast (drop_bit (8 * (7 - i)) (v :: u64) AND 0xff)) [0..<8] = be_bytes 8 (unat v)"
  by (simp only: be_bytes_map ucast_and_255 byte_of_u64) (rule map_cong, simp_all)

lemma int64_bytes_eq: "int64_bytes v = rev (be_bytes 8 (unat v))"
proof -
  have "be_bytes 8 (unat v) = map (\<lambda>i. ucast (drop_bit (8 * (7 - i)) v)) [0..<8]"
    unfolding uint64_bytes_eq [symmetric] ucast_and_255 ..
  then show ?thesis by (simp add: int64_bytes_def upt_rec)
qed

interpretation uint64_built: built_codec "\<lambda>v. der_elem CBS_ASN1_INTEGER (uint_body (unat v))"
  CBS_get_asn1_uint64 "\<lambda>_ :: u64. True" CBB_add_asn1_uint64
proof unfold_locales
  show "puts a (CBB_add_asn1_uint64 p a x) p (der_elem CBS_ASN1_INTEGER (uint_body (unat x)))" for a p x
  proof -
    have "uint_out False (be_bytes 8 (unat x)) = uint_body (unat x)"
      using uint_out_eq [of "be_bytes 8 (unat x)"] unat_less_pow [of x] by simp
    moreover have "length (uint_body (unat x)) \<le> 0xfffffffe"
      using uint_body_length [of x] unat_less_pow [of x] by simp
    ultimately show ?thesis
      unfolding CBB_add_asn1_uint64_def uint64_bytes_eq by (metis puts_elem puts_uint64_bytes)
  qed
qed

text \<open>A negative number: the bytes from the start downwards are the stripped ones.\<close>

lemma strip_sign_start:
  assumes "i < length bs" "bs ! i AND 128 \<noteq> 0"
  shows "strip_sign (rev (take (Suc i) bs)) = rev (take (Suc (int64_start bs i)) bs)"
  using assms
proof (induction bs i rule: int64_start.induct)
  case (1 bs)
  then show ?case by (cases bs) simp_all
next
  case (2 bs s)
  have r: "rev (take (Suc (Suc s)) bs) = bs ! Suc s # bs ! s # rev (take s bs)"
    using 2 by (simp add: take_Suc_conv_app_nth)
  have r': "rev (take (Suc s) bs) = bs ! s # rev (take s bs)"
    using 2 by (simp add: take_Suc_conv_app_nth)
  show ?case
  proof (cases "redundant (bs ! Suc s) (bs ! s)")
    case True
    then have "bs ! Suc s = 0xff" "bs ! s AND 128 \<noteq> 0" using 2 by (auto simp: redundant_def)
    then show ?thesis using 2 True by (simp add: r r')
  next
    case False
    then have "\<not> (bs ! Suc s = 0xff \<and> bs ! s AND 128 \<noteq> 0)" by (auto simp: redundant_def)
    then have "int64_start bs (Suc s) = Suc s" unfolding int64_start.simps by (rule if_not_P)
    then show ?thesis using False by (simp add: r del: int64_start.simps)
  qed
qed

lemma take_eq_map: "n \<le> length xs \<Longrightarrow> take n xs = map ((!) xs) [0..<n]"
  by (rule nth_equalityI) simp_all

lemma int64_start_le: "int64_start bs i \<le> i"
  by (induction bs i rule: int64_start.induct) auto

lemma bit_top_iff: "0 \<le> u \<Longrightarrow> u < 2 * p \<Longrightarrow> p = 2 ^ n \<Longrightarrow> \<not> bit (u :: int) n \<longleftrightarrow> u < p"
proof -
  assume u: "0 \<le> u" "u < 2 * p" "p = 2 ^ n"
  show ?thesis
  proof (cases "u < p")
    case True
    then have "u div p = 0" using u by (intro div_pos_pos_trivial)
    with True u(3) show ?thesis by (simp add: bit_iff_odd)
  next
    case False
    then have "u div p = 1" using u(2) by (intro int_div_pos_eq [where r = "u - p"]) simp_all
    with False u(3) show ?thesis by (simp add: bit_iff_odd)
  qed
qed

lemma sint_nonneg_iff: "0 \<le> sint (v :: u64) \<longleftrightarrow> unat v < 2 ^ 63"
proof -
  have "uint v < 2 ^ 64" using unsigned_less [of v, where 'a = int] by simp
  then have lt: "uint v < 2 * 2 ^ 63" by simp
  have "0 \<le> sint v \<longleftrightarrow> \<not> bit (uint v) 63"
    by (simp add: sint_uint signed_take_bit_nonnegative_iff)
  also have "\<dots> \<longleftrightarrow> uint v < 2 ^ 63"
    by (rule bit_top_iff [OF _ lt refl]) simp
  also have "\<dots> \<longleftrightarrow> unat v < 2 ^ 63"
    unfolding unat_eq_nat_uint by (subst nat_less_iff) simp_all
  finally show ?thesis .
qed

lemma msb_of_bytes: "be_bytes 8 n ! 0 AND 128 \<noteq> 0 \<longleftrightarrow> 2 ^ 63 \<le> n mod 2 ^ 64"
proof -
  have "be_bytes 8 n ! 0 = word_of_nat (n div 256 ^ 7)" by (simp add: be_bytes_map)
  moreover have "128 \<le> n div 256 ^ 7 mod 256 \<longleftrightarrow> 2 ^ 63 \<le> n mod 2 ^ 64"
  proof -
    have "n mod (256 ^ 7 * 256) = 256 ^ 7 * (n div 256 ^ 7 mod 256) + n mod 256 ^ 7" by (rule mod_mult2_eq)
    moreover have "n mod 256 ^ 7 < 256 ^ 7" by simp
    ultimately show ?thesis by simp linarith
  qed
  ultimately show ?thesis by (simp add: byte_and_128 unat_byte_of_nat not_less)
qed

interpretation int64_built: built_codec "\<lambda>v. der_elem CBS_ASN1_INTEGER (int_body v)"
  CBS_get_asn1_int64 "\<lambda>_ :: u64. True" CBB_add_asn1_int64
proof unfold_locales
  show "puts a (CBB_add_asn1_int64 p a x) p (der_elem CBS_ASN1_INTEGER (int_body x))" for a p x
  proof (cases "0 \<le> sint x")
    case True
    then show ?thesis
      using uint64_built.add_puts [where x = x and a = a and p = p] int_body_nonneg [of x] by (simp add: CBB_add_asn1_int64_def sint_nonneg_iff)
  next
    case False
    define bs where "bs = int64_bytes x"
    have len: "length bs = 8" by (simp add: bs_def int64_bytes_eq)
    have "bs ! 7 = be_bytes 8 (unat x) ! 0" by (simp add: bs_def int64_bytes_eq rev_nth)
    then have neg: "bs ! 7 AND 128 \<noteq> 0"
      using False unat_less_pow [of x] msb_of_bytes [of "unat x"] by (simp add: sint_nonneg_iff)
    have "int_body x = strip_sign (rev (take (Suc 7) bs))"
      using len by (simp add: int_body_def bs_def int64_bytes_eq)
    also have "\<dots> = rev (take (Suc (int64_start bs 7)) bs)"
      using strip_sign_start [of 7 bs] neg len by simp
    also have "\<dots> = concat (map (\<lambda>i. [bs ! i]) (rev [0..<Suc (int64_start bs 7)]))"
      using int64_start_le [of bs 7] len by (simp only: concat_map_singleton rev_map take_eq_map)
    finally have b: "int_body x = concat (map (\<lambda>i. [bs ! i]) (rev [0..<Suc (int64_start bs 7)]))" .
    have "puts (Suc a) (c_each (\<lambda>i. CBB_add_u8 (Sub a) (bs ! i)) (rev [0..<Suc (int64_start bs 7)])) (Sub a) (int_body x)"
      unfolding b by (rule puts_each) (rule puts_u8)
    from puts_elem [OF this] int_body_length [of x] False show ?thesis
      by (simp add: CBB_add_asn1_int64_def bs_def Let_def del: upt_Suc)
  qed
qed

section \<open>BOOLEAN and OCTET STRING\<close>

lemma puts_asn1_bool: "puts a (CBB_add_asn1_bool p a v) p (der_elem CBS_ASN1_BOOLEAN (bool_body (v \<noteq> 0)))"
  using puts_elem [OF puts_u8 [of "Suc a" "Sub a" "if v \<noteq> 0 then 0xff else 0"], of p CBS_ASN1_BOOLEAN]
  by (simp add: CBB_add_asn1_bool_def bool_body_def)

lemma puts_asn1_octets:
  "length d \<le> 0xfffffffe \<Longrightarrow> puts a (CBB_add_asn1_octet_string p a d) p (der_elem CBS_ASN1_OCTETSTRING d)"
  using puts_elem [OF puts_bytes [of d "Suc a" "Sub a"], of p CBS_ASN1_OCTETSTRING]
  by (simp add: CBB_add_asn1_octet_string_def size_mod_def)

interpretation bool_built: built_codec "\<lambda>b. der_elem CBS_ASN1_BOOLEAN (bool_body b)" CBS_get_asn1_bool "\<lambda>_. True"
  "\<lambda>p a b. CBB_add_asn1_bool p a (of_bool b)"
proof unfold_locales
  show "puts a (CBB_add_asn1_bool p a (of_bool x)) p (der_elem CBS_ASN1_BOOLEAN (bool_body x))" for a p x
    using puts_asn1_bool [of a p "of_bool x"] by simp
qed

lemma length_der_elem_le: "length b < 2 ^ 32 \<Longrightarrow> length (der_elem t b) \<le> 2 ^ 29 + 6 + length b"
  using nbytes_le [of "length b" 4] length_der_tag [of t] by (auto simp: der_elem_def der_len_def)

section \<open>A message of mixed values\<close>

datatype asn1_item = Unsigned u64 | Signed u64 | Bool bool | Octets bytes

fun add_item :: "cbb_ref \<Rightarrow> nat \<Rightarrow> asn1_item \<Rightarrow> (cbb, unit) cop" where
  "add_item p a (Unsigned v) = CBB_add_asn1_uint64 p a v"
| "add_item p a (Signed v) = CBB_add_asn1_int64 p a v"
| "add_item p a (Bool b) = CBB_add_asn1_bool p a (of_bool b)"
| "add_item p a (Octets d) = CBB_add_asn1_octet_string p a d"

fun item_bytes :: "asn1_item \<Rightarrow> bytes" where
  "item_bytes (Unsigned v) = der_elem CBS_ASN1_INTEGER (uint_body (unat v))"
| "item_bytes (Signed v) = der_elem CBS_ASN1_INTEGER (int_body v)"
| "item_bytes (Bool b) = der_elem CBS_ASN1_BOOLEAN (bool_body b)"
| "item_bytes (Octets d) = der_elem CBS_ASN1_OCTETSTRING d"

fun item_ok :: "asn1_item \<Rightarrow> bool" where
  "item_ok (Octets d) \<longleftrightarrow> length d \<le> 0xfffffffe"
| "item_ok _ \<longleftrightarrow> True"

text \<open>Reading values of the same kinds in the same order.\<close>

fun get_like :: "asn1_item \<Rightarrow> (cbs, asn1_item) cop" where
  "get_like (Unsigned _) = c_bind CBS_get_asn1_uint64 (\<lambda>v. c_ret (Unsigned v))"
| "get_like (Signed _) = c_bind CBS_get_asn1_int64 (\<lambda>v. c_ret (Signed v))"
| "get_like (Bool _) = c_bind CBS_get_asn1_bool (\<lambda>b. c_ret (Bool b))"
| "get_like (Octets _) = c_bind (CBS_get_asn1 CBS_ASN1_OCTETSTRING) (\<lambda>d. c_ret (Octets d))"

fun get_all_like :: "asn1_item list \<Rightarrow> (cbs, asn1_item list) cop" where
  "get_all_like [] = c_ret []"
| "get_all_like (x # xs) = c_bind (get_like x) (\<lambda>y. c_bind (get_all_like xs) (\<lambda>ys. c_ret (y # ys)))"

interpretation item_adder: adder add_item item_bytes item_ok
proof unfold_locales
  show "puts a (add_item p a x) p (item_bytes x)" if "item_ok x" for a p x
    using that uint64_built.add_puts [where a = a and p = p] int64_built.add_puts [where a = a and p = p]
      bool_built.add_puts [where a = a and p = p] puts_asn1_octets [where a = a and p = p] by (cases x) simp_all
qed

lemma get_like_item: "item_ok x \<Longrightarrow> get_like x (item_bytes x @ rest) = (Some x, rest)"
  by (cases x) (simp_all add: uint64_codec.dec_enc int64_codec.dec_enc bool_codec.dec_enc CBS_get_asn1_der_elem
      c_bind_apply)

lemma get_all_like_items:
  "list_all item_ok xs \<Longrightarrow> get_all_like xs (concat (map item_bytes xs) @ rest) = (Some xs, rest)"
  by (induction xs) (simp_all add: get_like_item)

lemma der_elem_le_2_33: "length b \<le> 0xfffffffe \<Longrightarrow> length (der_elem t b) \<le> 2 ^ 33"
  using length_der_elem_le [of b t] by simp

lemma item_length: "item_ok x \<Longrightarrow> length (item_bytes x) \<le> 2 ^ 33"
proof (cases x)
  case (Unsigned v)
  have "length (uint_body (unat v)) \<le> 9" using unat_less_pow [of v] by (intro uint_body_length) simp
  then show ?thesis unfolding Unsigned item_bytes.simps by (intro der_elem_le_2_33) simp
next
  case (Signed v)
  have "length (int_body v) \<le> 0xfffffffe" using int_body_length [of v] by simp
  then show ?thesis unfolding Signed item_bytes.simps by (rule der_elem_le_2_33)
next
  case (Bool b)
  show ?thesis unfolding Bool item_bytes.simps by (rule der_elem_le_2_33) (simp add: bool_body_def)
next
  case (Octets d)
  moreover assume "item_ok x"
  ultimately show ?thesis by (simp only: item_bytes.simps item_ok.simps der_elem_le_2_33)
qed

lemma items_length: "list_all item_ok xs \<Longrightarrow> length (concat (map item_bytes xs)) \<le> length xs * 2 ^ 33"
proof (induction xs)
  case (Cons x xs)
  then show ?case using item_length [of x] by simp
qed simp

text \<open>C5: ASN.1 values of any kinds (unsigned and signed 64-bit INTEGER, BOOLEAN, OCTET STRING) added
  to a fresh builder with \<open>CBB_add_asn1_uint64\<close>, \<open>CBB_add_asn1_int64\<close>, \<open>CBB_add_asn1_bool\<close> and
  \<open>CBB_add_asn1_octet_string\<close> are read back, equal, in order and with nothing left over, by the
  functions of \<open>cbs.c\<close>, whenever the calls succeed; and they succeed when memory is available.\<close>

theorem added_values_are_read_back:
  assumes "allocator_ok al" "n < size_mod" "list_all item_ok xs"
  shows "(\<forall>cbb out len cbb'. CBB_init al n = (True, cbb) \<longrightarrow>
            c_seq (c_each (add_item Top 0) xs) (CBB_finish Top True) cbb = (Some (out, len), cbb') \<longrightarrow>
            get_all_like xs (CBS_init out len) = (Some xs, [])) \<and>
         ((\<forall>k. al k \<noteq> None) \<longrightarrow> length (concat (map item_bytes xs)) < size_mod \<longrightarrow>
            (\<exists>cbb out len cbb'. CBB_init al n = (True, cbb) \<and>
               c_seq (c_each (add_item Top 0) xs) (CBB_finish Top True) cbb = (Some (out, len), cbb')))"
proof (intro conjI allI impI)
  fix cbb out len cbb'
  assume "CBB_init al n = (True, cbb)"
    "c_seq (c_each (add_item Top 0) xs) (CBB_finish Top True) cbb = (Some (out, len), cbb')"
  then have "take len out = concat (map item_bytes xs)"
    using item_adder.built_contents [OF assms(1) _ assms(2,3)] by blast
  then show "get_all_like xs (CBS_init out len) = (Some xs, [])"
    using get_all_like_items [OF assms(3), of "[]"] by (simp add: CBS_init_def)
next
  assume "\<forall>k. al k \<noteq> None" "length (concat (map item_bytes xs)) < size_mod"
  then show "\<exists>cbb out len cbb'. CBB_init al n = (True, cbb) \<and>
      c_seq (c_each (add_item Top 0) xs) (CBB_finish Top True) cbb = (Some (out, len), cbb')"
    using item_adder.building_all_succeeds [OF assms(1) _ assms(2,3)] by blast
qed

theorem added_values_are_read_back_witness:
  "\<exists>cbb out len cbb'. CBB_init (\<lambda>k. Some (replicate k 0)) 4 = (True, cbb) \<and>
     c_seq (c_each (add_item Top 0) [Signed (- 129), Unsigned 200, Bool True, Octets [1, 2]])
       (CBB_finish Top True) cbb = (Some (out, len), cbb') \<and>
     get_all_like [Signed (- 129), Unsigned 200, Bool True, Octets [1, 2]] (CBS_init out len) =
       (Some [Signed (- 129), Unsigned 200, Bool True, Octets [1, 2]], [])"
proof -
  let ?al = "\<lambda>k. Some (replicate k 0) :: bytes option"
  let ?xs = "[Signed (- 129), Unsigned 200, Bool True, Octets [1, 2]]"
  have "length (concat (map item_bytes ?xs)) < size_mod"
    using items_length [of ?xs] by (simp add: size_mod_def del: item_bytes.simps)
  with added_values_are_read_back [of ?al 4 ?xs] show ?thesis
    by (simp add: allocator_ok_def size_mod_def) blast
qed

end
