(* ===== verification/OIDText.thy ===== *)
theory OIDText
  imports CBB_Values
begin

text \<open>
  Object identifiers as text: \<open>CBB_add_asn1_oid_from_text\<close> of \<open>crypto/bytestring/cbb.c\<close> and
  \<open>CBS_asn1_oid_to_text\<close> of \<open>cbs.c\<close>. The first turns \<open>1.2.840\<close> into the contents of an OBJECT
  IDENTIFIER, the second prints such contents; each is the inverse of the other, errors included.
\<close>

section \<open>The parser and the printer\<close>

text \<open>The loop of \<open>parse_dotted_decimal\<close>, with \<open>*out\<close> and \<open>seen_digit\<close>.\<close>

fun dotted_loop :: "u64 \<Rightarrow> bool \<Rightarrow> (cbs, u64) cop" where
  "dotted_loop out seen_digit [] = (if seen_digit then (Some out, []) else (None, []))"
| "dotted_loop out seen_digit (u # cbs) =
     (if u = 46 \<and> CBS_len cbs > 0
      then (if seen_digit then (Some out, cbs) else (None, cbs))
      else if u < 48 \<or> u > 57 \<or> (seen_digit \<and> out = 0) \<or> out > 0xffffffffffffffff div 10 \<or>
              out * 10 > 0xffffffffffffffff - (ucast u - 48)
      then (None, cbs)
      else dotted_loop (out * 10 + (ucast u - 48)) True cbs)"

definition parse_dotted_decimal :: "(cbs, u64) cop" where
  "parse_dotted_decimal = dotted_loop 0 False"

lemma dotted_loop_shrinks: "dotted_loop out seen s = (Some v, t) \<Longrightarrow> length t \<le> length s"
  by (induction out seen s rule: dotted_loop.induct) (auto split: if_splits)

lemma parse_dotted_decimal_shrinks:
  assumes "(Some v, t) = parse_dotted_decimal s"
  shows "length t < length s"
proof (cases s)
  case Nil
  with assms [symmetric] show ?thesis by (simp add: parse_dotted_decimal_def)
next
  case (Cons u cbs)
  with assms [symmetric] have "length t \<le> length cbs"
    by (auto simp: parse_dotted_decimal_def split: if_splits dest: dotted_loop_shrinks)
  with Cons show ?thesis by simp
qed

text \<open>The loop over the components after the second.\<close>

function oid_text_loop :: "cbb_ref \<Rightarrow> cbs \<Rightarrow> (cbb, unit) cop" where
  "oid_text_loop p cbs cbb =
     (if CBS_len cbs > 0
      then (case parse_dotted_decimal cbs of
              (None, _) \<Rightarrow> (None, cbb)
            | (Some a, cbs) \<Rightarrow>
                (case add_base128_integer p a cbb of
                   (None, cbb) \<Rightarrow> (None, cbb)
                 | (Some _, cbb) \<Rightarrow> oid_text_loop p cbs cbb))
      else (Some (), cbb))"
  by pat_completeness auto
termination
  by (relation "measure (\<lambda>(p, cbs, cbb). length cbs)")
    (simp_all add: parse_dotted_decimal_shrinks)

declare oid_text_loop.simps [simp del]

definition CBB_add_asn1_oid_from_text :: "cbb_ref \<Rightarrow> bytes \<Rightarrow> (cbb, unit) cop" where
  "CBB_add_asn1_oid_from_text p text = c_seq (CBB_flush p)
     (case parse_dotted_decimal (CBS_init text (length text)) of
        (None, _) \<Rightarrow> c_fail
      | (Some a, cbs) \<Rightarrow>
     (case parse_dotted_decimal cbs of
        (None, _) \<Rightarrow> c_fail
      | (Some b, cbs) \<Rightarrow>
          if a > 2 \<or> (a < 2 \<and> b > 39) \<or> b > 0xffffffffffffffff - 80 then c_fail
          else c_seq (add_base128_integer p (40 * a + b)) (oid_text_loop p cbs)))"

text \<open>\<open>BIO_snprintf\<close> with the format \<open>%llu\<close> into a buffer of \<open>n\<close> bytes, as C defines it; the buffer
  of \<open>add_decimal\<close> has \<open>DECIMAL_SIZE(uint64_t) + 1 = 24\<close> bytes.\<close>

fun decimal :: "nat \<Rightarrow> bytes" where
  "decimal n = (if n < 10 then [] else decimal (n div 10)) @ [word_of_nat (48 + n mod 10)]"

declare decimal.simps [simp del]

definition snprintf_u64 :: "nat \<Rightarrow> u64 \<Rightarrow> bytes" where
  "snprintf_u64 n v = take (n - 1) (decimal (unat v))"

definition add_decimal :: "cbb_ref \<Rightarrow> u64 \<Rightarrow> (cbb, unit) cop" where
  "add_decimal p v = CBB_add_bytes p (snprintf_u64 24 v)"

lemma base128_shrinks: "(Some v, t) = parse_base128_integer s \<Longrightarrow> length t < length s"
  by (rule base128_codec.progress) (rule sym)

function oid_print_loop :: "cbb_ref \<Rightarrow> cbs \<Rightarrow> (cbb, unit) cop" where
  "oid_print_loop p copy cbb =
     (if CBS_len copy \<noteq> 0
      then (case parse_base128_integer copy of
              (None, _) \<Rightarrow> (None, cbb)
            | (Some v, copy) \<Rightarrow>
                (case c_seq (CBB_add_u8 p 46) (add_decimal p v) cbb of
                   (None, cbb) \<Rightarrow> (None, cbb)
                 | (Some _, cbb) \<Rightarrow> oid_print_loop p copy cbb))
      else (Some (), cbb))"
  by pat_completeness auto
termination
  by (relation "measure (\<lambda>(p, cbs, cbb). length cbs)")
    (simp_all add: base128_shrinks)

declare oid_print_loop.simps [simp del]

text \<open>The result is the block \<open>txt\<close>, which holds a NUL-terminated string.\<close>

definition CBS_asn1_oid_to_text :: "allocator \<Rightarrow> cbs \<Rightarrow> bytes option" where
  "CBS_asn1_oid_to_text alloc cbs =
     (case CBB_init alloc 32 of
        (False, _) \<Rightarrow> None
      | (True, cbb) \<Rightarrow>
     (case parse_base128_integer cbs of
        (None, _) \<Rightarrow> None
      | (Some v, copy) \<Rightarrow>
     (case c_seq (if v \<ge> 80 then c_seq (CBB_add_bytes Top [50, 46]) (add_decimal Top (v - 80))
                  else c_seq (add_decimal Top (v div 40))
                         (c_seq (CBB_add_u8 Top 46) (add_decimal Top (v mod 40))))
             (c_seq (oid_print_loop Top copy)
                (c_seq (CBB_add_u8 Top 0) (CBB_finish Top True))) cbb of
        (None, _) \<Rightarrow> None
      | (Some (txt, txt_len), _) \<Rightarrow> Some txt)))"

section \<open>Decimal numbers\<close>

definition dec_val :: "nat \<Rightarrow> bytes \<Rightarrow> nat" where
  "dec_val = foldl (\<lambda>n u. 10 * n + (unat u - 48))"

lemma unat_digit: "d < 10 \<Longrightarrow> unat (word_of_nat (48 + d) :: byte) = 48 + d"
  by (simp add: unat_byte_of_nat del: of_nat_add)

lemma decimal_small: "n < 10 \<Longrightarrow> decimal n = [word_of_nat (48 + n)]"
  by (simp add: decimal.simps)

lemma decimal_snoc: "0 < m \<Longrightarrow> d < 10 \<Longrightarrow> decimal (10 * m + d) = decimal m @ [word_of_nat (48 + d)]"
  by (subst decimal.simps) simp

lemma decimal_nonempty [simp]: "decimal n \<noteq> []"
  by (subst decimal.simps) simp

lemma Nil_decimal [simp]: "[] \<noteq> decimal n"
  using decimal_nonempty by metis

lemma decimal_digits: "u \<in> set (decimal n) \<Longrightarrow> 48 \<le> unat u \<and> unat u \<le> 57"
proof (induction n rule: decimal.induct)
  case (1 n)
  have "unat (word_of_nat (48 + n mod 10) :: byte) = 48 + n mod 10" by (rule unat_digit) simp
  with 1 show ?case by (subst (asm) (2) decimal.simps) (auto split: if_splits)
qed

lemma dec_val_decimal: "dec_val 0 (decimal n) = n"
proof (induction n rule: decimal.induct)
  case (1 n)
  have d: "unat (word_of_nat (48 + n mod 10) :: byte) = 48 + n mod 10" by (rule unat_digit) simp
  show ?case
  proof (cases "n < 10")
    case True
    then show ?thesis using d by (simp add: decimal_small dec_val_def del: of_nat_add)
  next
    case False
    with 1 have "dec_val 0 (decimal (n div 10)) = n div 10" by simp
    then show ?thesis
      using False d by (subst decimal.simps) (simp add: dec_val_def del: of_nat_add)
  qed
qed

lemma decimal_inj: "decimal m = decimal n \<longleftrightarrow> m = n"
  by (metis dec_val_decimal)

lemma dec_val_ge: "m \<le> dec_val m ds"
  by (induction ds rule: rev_induct) (auto simp: dec_val_def)

lemma decimal_prefix: "decimal n = decimal m @ ds \<Longrightarrow> m \<le> n"
  using dec_val_ge [of m ds] dec_val_decimal [of n] dec_val_decimal [of m]
  by (simp add: dec_val_def)

lemma decimal_no_leading_zero: "decimal n \<noteq> 48 # d # ds"
proof
  assume n: "decimal n = 48 # d # ds"
  have "hd (decimal n) = 48 \<Longrightarrow> n = 0" for n
  proof (induction n rule: decimal.induct)
    case (1 n)
    show ?case
    proof (cases "n < 10")
      case True
      with 1(2) have "unat (word_of_nat (48 + n) :: byte) = 48" by (simp add: decimal_small)
      then show ?thesis using True by (simp only: unat_digit)
    next
      case False
      then have "hd (decimal n) = hd (decimal (n div 10))" by (subst decimal.simps) simp
      with 1 False show ?thesis by simp
    qed
  qed
  with n have "n = 0" by simp
  with n show False by (simp add: decimal_small)
qed

lemma length_decimal: "n < 10 ^ k \<Longrightarrow> 0 < k \<Longrightarrow> length (decimal n) \<le> k"
proof (induction k arbitrary: n)
  case (Suc k)
  show ?case
  proof (cases "n < 10")
    case False
    then have "n div 10 < 10 ^ k" "0 < k" using Suc.prems by (auto intro: ccontr)
    from Suc.IH [OF this] False show ?thesis by (subst decimal.simps) simp
  qed (simp add: decimal_small)
qed simp

lemma snprintf_u64_eq: "snprintf_u64 24 v = decimal (unat v)"
  using length_decimal [of "unat v" 20] unat_less_pow [of v] by (simp add: snprintf_u64_def)

section \<open>What one component parses\<close>

definition ends :: "cbs \<Rightarrow> bytes \<Rightarrow> cbs \<Rightarrow> bool" where
  "ends s ds t \<longleftrightarrow> (s = ds \<and> t = []) \<or> (t \<noteq> [] \<and> s = ds @ 46 # t)"

lemma ends_simps [simp]:
  "ends [] ds t \<longleftrightarrow> ds = [] \<and> t = []"
  "ends (u # s) [] t \<longleftrightarrow> u = 46 \<and> s \<noteq> [] \<and> t = s"
  "ends (u # s) (d # ds) t \<longleftrightarrow> d = u \<and> ends s ds t"
  by (auto simp: ends_def)

lemma digit_word:
  assumes "48 \<le> unat (u :: byte)" "unat u \<le> 57"
  shows "unat ((ucast u :: u64) - 48) = unat u - 48" "word_of_nat (48 + (unat u - 48)) = u"
proof -
  have "unat (ucast u :: u64) = unat u" by (rule unat_ucast_up) simp
  moreover from this have "(48 :: u64) \<le> ucast u" using assms by (simp add: word_le_nat_alt)
  ultimately show "unat ((ucast u :: u64) - 48) = unat u - 48" by (simp add: unat_sub)
  show "word_of_nat (48 + (unat u - 48)) = u" using assms by simp
qed

lemma unat_mult_10:
  assumes "out \<le> (0xffffffffffffffff div 10 :: u64)"
  shows "unat (out * 10) = unat out * 10"
proof -
  have "unat (0xffffffffffffffff div 10 :: u64) = 1844674407370955161" by (simp add: unat_div)
  with assms have "unat out \<le> 1844674407370955161" by (simp add: word_le_nat_alt)
  then show ?thesis by (simp add: unat_word_ariths)
qed

lemma dotted_overflow:
  fixes out d :: u64
  assumes "unat d < 10"
  shows "out > 0xffffffffffffffff div 10 \<or> out * 10 > 0xffffffffffffffff - d \<longleftrightarrow> 2 ^ 64 \<le> 10 * unat out + unat d"
proof (cases "out \<le> 0xffffffffffffffff div 10")
  case True
  have "d \<le> 0xffffffffffffffff" by (simp add: word_le_nat_alt) (use unat_less_pow [of d] in simp)
  then have "unat (0xffffffffffffffff - d) = 2 ^ 64 - 1 - unat d" by (simp add: unat_sub)
  with True unat_mult_10 [OF True] assms show ?thesis
    by (auto simp: word_less_nat_alt not_less [symmetric])
next
  case False
  have "unat (0xffffffffffffffff div 10 :: u64) = 1844674407370955161" by (simp add: unat_div)
  with False have "1844674407370955161 < unat out" by (simp add: word_le_nat_alt)
  with False show ?thesis by (simp add: not_le)
qed

lemma dotted_step:
  fixes out d :: u64
  assumes "unat d < 10" "10 * unat out + unat d < 2 ^ 64"
  shows "unat (out * 10 + d) = 10 * unat out + unat d"
  using assms by (simp add: unat_word_ariths)

lemma dotted_loop_eq_Some:
  "(seen \<or> out = 0) \<Longrightarrow> dotted_loop out seen s = (Some v, t) \<longleftrightarrow>
     (\<exists>ds. (if seen then decimal (unat out) else []) @ ds = decimal (unat v) \<and> ends s ds t)"
proof (induction out seen s rule: dotted_loop.induct)
  case (1 out seen)
  show ?case by (auto simp: decimal_inj word_unat_eq_iff)
next
  case (2 out seen u s)
  define pre where "pre = (if seen then decimal (unat out) else [])"
  define d where "d = (ucast u :: u64) - 48"
  show ?case
  proof (cases "u = 46 \<and> s \<noteq> []")
    case True
    have no: "pre @ 46 # ds \<noteq> decimal (unat v)" for ds
    proof
      assume "pre @ 46 # ds = decimal (unat v)"
      then have "(46 :: byte) \<in> set (decimal (unat v))" by (metis in_set_conv_decomp)
      from decimal_digits [OF this] show False by simp
    qed
    have "(\<exists>ds. pre @ ds = decimal (unat v) \<and> ends (u # s) ds t) \<longleftrightarrow> pre = decimal (unat v) \<and> t = s"
    proof (intro iffI; (elim exE conjE)?)
      fix ds assume "pre @ ds = decimal (unat v)" "ends (u # s) ds t"
      with no True show "pre = decimal (unat v) \<and> t = s" by (cases ds) auto
    next
      assume "pre = decimal (unat v)" "t = s"
      with True show "\<exists>ds. pre @ ds = decimal (unat v) \<and> ends (u # s) ds t" by (intro exI [of _ "[]"]) simp
    qed
    with True show ?thesis
      by (auto simp: pre_def CBS_len_def decimal_inj word_unat_eq_iff)
  next
    case False
    have rhs: "(\<exists>ds. pre @ ds = decimal (unat v) \<and> ends (u # s) ds t) \<longleftrightarrow>
        (\<exists>ds. pre @ u # ds = decimal (unat v) \<and> ends s ds t)"
    proof (intro iffI; (elim exE conjE)?)
      fix ds assume "pre @ ds = decimal (unat v)" "ends (u # s) ds t"
      with False show "\<exists>ds. pre @ u # ds = decimal (unat v) \<and> ends s ds t" by (cases ds) auto
    next
      fix ds assume "pre @ u # ds = decimal (unat v)" "ends s ds t"
      then show "\<exists>ds. pre @ ds = decimal (unat v) \<and> ends (u # s) ds t" by (intro exI [of _ "u # ds"]) simp
    qed
    show ?thesis
    proof (cases "48 \<le> unat u \<and> unat u \<le> 57 \<and> \<not> (seen \<and> out = 0)")
      case bad: False
      have "pre @ u # ds \<noteq> decimal (unat v)" for ds
      proof
        assume e: "pre @ u # ds = decimal (unat v)"
        then have "u \<in> set (decimal (unat v))" by (metis in_set_conv_decomp)
        from decimal_digits [OF this] bad have "seen" "out = 0" by blast+
        then have "decimal (unat v) = 48 # u # ds" using e by (simp add: pre_def decimal_small)
        then show False using decimal_no_leading_zero by blast
      qed
      moreover have "u < 48 \<or> u > 57 \<or> (seen \<and> out = 0)"
        using bad by (simp add: word_less_nat_alt not_le)
      then have "dotted_loop out seen (u # s) = (None, s)" using False by (auto simp: CBS_len_def)
      ultimately show ?thesis using rhs unfolding pre_def [symmetric] by simp
    next
      case good: True
      then have d: "unat d = unat u - 48" "unat d < 10" "word_of_nat (48 + unat d) = u"
        using digit_word [of u] unfolding d_def by auto
      have pre: "pre @ [u] = decimal (10 * unat out + unat d)"
      proof (cases "out = 0")
        case True
        then show ?thesis using good d by (simp add: pre_def decimal_small)
      next
        case False
        then show ?thesis using 2(2) d decimal_snoc [of "unat out" "unat d"] by (simp add: pre_def word_zero_iff)
      qed
      have cond: "dotted_loop out seen (u # s) =
          (if 2 ^ 64 \<le> 10 * unat out + unat d then (None, s) else dotted_loop (out * 10 + d) True s)"
      proof -
        have "\<not> (u < 48 \<or> u > 57 \<or> (seen \<and> out = 0))"
          using good by (auto simp: word_less_nat_alt)
        then have "(u < 48 \<or> u > 57 \<or> (seen \<and> out = 0) \<or> out > 0xffffffffffffffff div 10 \<or>
              out * 10 > 0xffffffffffffffff - (ucast u - 48)) \<longleftrightarrow> 2 ^ 64 \<le> 10 * unat out + unat d"
          using dotted_overflow [OF d(2), of out] unfolding d_def by blast
        moreover have "\<not> (u = 46 \<and> CBS_len s > 0)" using False by (simp add: CBS_len_def)
        ultimately show ?thesis unfolding dotted_loop.simps d_def by (simp only: if_False)
      qed
      show ?thesis
      proof (cases "2 ^ 64 \<le> 10 * unat out + unat d")
        case True
        have "pre @ u # ds \<noteq> decimal (unat v)" for ds
        proof
          assume "pre @ u # ds = decimal (unat v)"
          then have "decimal (unat v) = decimal (10 * unat out + unat d) @ ds" by (simp add: pre [symmetric])
          from decimal_prefix [OF this] True unat_less_pow [of v] show False by simp
        qed
        with cond True rhs show ?thesis unfolding pre_def [symmetric] by simp
      next
        case ok: False
        then have n: "unat (out * 10 + d) = 10 * unat out + unat d" using dotted_step [OF d(2)] by simp
        have g: "\<not> (u < 48 \<or> 57 < u \<or> seen \<and> out = 0 \<or> 0xffffffffffffffff div 10 < out \<or>
            0xffffffffffffffff - (ucast u - 48) < out * 10)"
          using good ok dotted_overflow [OF d(2), of out] unfolding d_def by (auto simp: word_less_nat_alt)
        have "\<not> (u = 46 \<and> 0 < CBS_len s)" using False by (simp add: CBS_len_def)
        from "2.IH" [OF this g] have "dotted_loop (out * 10 + d) True s = (Some v, t) \<longleftrightarrow>
            (\<exists>ds. decimal (unat (out * 10 + d)) @ ds = decimal (unat v) \<and> ends s ds t)" by (simp add: d_def)
        also have "\<dots> \<longleftrightarrow> (\<exists>ds. pre @ u # ds = decimal (unat v) \<and> ends s ds t)"
          unfolding n pre [symmetric] by simp
        finally show ?thesis using cond ok rhs unfolding pre_def [symmetric] by simp
      qed
    qed
  qed
qed

lemma parse_dotted_decimal_eq_Some:
  "parse_dotted_decimal s = (Some v, t) \<longleftrightarrow> ends s (decimal (unat v)) t"
  by (simp add: parse_dotted_decimal_def dotted_loop_eq_Some)

section \<open>Object identifiers\<close>

text \<open>The components, the text and the contents octets of X.690, 8.19.\<close>

fun oid_valid :: "u64 list \<Rightarrow> bool" where
  "oid_valid (a # b # rest) \<longleftrightarrow>
     unat a \<le> 2 \<and> (unat a < 2 \<longrightarrow> unat b < 40) \<and> unat b + 80 < 2 ^ 64"
| "oid_valid _ \<longleftrightarrow> False"

fun dotted :: "u64 list \<Rightarrow> bytes" where
  "dotted [] = []"
| "dotted (a # as) = decimal (unat a) @ (if as = [] then [] else 46 # dotted as)"

fun oid_body :: "u64 list \<Rightarrow> bytes" where
  "oid_body (a # b # rest) =
     base128 (40 * unat a + unat b) @ concat (map (\<lambda>v. base128 (unat v)) rest)"
| "oid_body _ = []"

lemma dotted_nonempty: "as \<noteq> [] \<Longrightarrow> dotted as \<noteq> []"
  by (cases as) auto

lemma ends_dotted:
  "ends s (decimal (unat a)) t \<Longrightarrow> t = dotted as \<Longrightarrow> s = dotted (a # as)"
  by (auto simp: ends_def dotted_nonempty split: if_splits)

lemma dotted_ends: "ends (dotted (a # as)) (decimal (unat a)) (dotted as)"
  by (simp add: ends_def dotted_nonempty)

lemma parse_dotted: "parse_dotted_decimal (dotted (a # as)) = (Some a, dotted as)"
  unfolding parse_dotted_decimal_eq_Some by (rule dotted_ends)

lemma parse_dotted_canonical:
  "parse_dotted_decimal s = (Some a, dotted as) \<Longrightarrow> s = dotted (a # as)"
  unfolding parse_dotted_decimal_eq_Some by (erule ends_dotted) (rule refl)

section \<open>From text\<close>

text \<open>The loop over the remaining components: it succeeds on dotted decimals only.\<close>

lemma oid_text_loop_dotted:
  "oid_text_loop p (dotted as) = c_each (add_base128_integer p) as"
proof (induction as)
  case Nil
  show ?case by (rule ext) (simp add: oid_text_loop.simps CBS_len_def)
next
  case (Cons a as)
  have "0 < CBS_len (dotted (a # as))" using dotted_nonempty [of "a # as"] by (simp add: CBS_len_def del: dotted.simps)
  then show ?case
    by (intro ext, subst oid_text_loop.simps)
      (simp add: parse_dotted Cons c_seq_apply del: dotted.simps split: prod.split option.split)
qed

lemma oid_text_loop_canonical:
  "oid_text_loop p s cbb = (Some u, cbb') \<Longrightarrow> \<exists>as. s = dotted as"
proof (induction p s cbb rule: oid_text_loop.induct)
  case (1 p s cbb)
  show ?case
  proof (cases "s = []")
    case True
    then show ?thesis by (intro exI [of _ "[]"]) simp
  next
    case False
    with "1.prems" obtain a t cbb1 x where parse: "parse_dotted_decimal s = (Some a, t)"
      and "add_base128_integer p a cbb = (Some x, cbb1)" "oid_text_loop p t cbb1 = (Some u, cbb')"
      by (subst (asm) oid_text_loop.simps) (auto simp: CBS_len_def split: prod.splits option.splits)
    with "1.IH" False have "\<exists>as. t = dotted as" by (auto simp: CBS_len_def)
    with parse parse_dotted_canonical show ?thesis by metis
  qed
qed

lemma first_component:
  fixes a b :: u64
  assumes "unat a \<le> 2" "unat b + 80 < 2 ^ 64"
  shows "unat (40 * a + b) = 40 * unat a + unat b"
  using assms by (simp add: unat_word_ariths)

lemma oid_guard:
  fixes a b :: u64
  shows "a > 2 \<or> (a < 2 \<and> b > 39) \<or> b > 0xffffffffffffffff - 80 \<longleftrightarrow>
    \<not> (unat a \<le> 2 \<and> (unat a < 2 \<longrightarrow> unat b < 40) \<and> unat b + 80 < 2 ^ 64)"
  by (auto simp: word_less_nat_alt)

lemma oid_from_dotted:
  assumes "oid_valid cs"
  shows "appends (CBB_add_asn1_oid_from_text p (dotted cs)) p (oid_body cs)"
proof -
  from assms obtain a b rest where cs: "cs = a # b # rest" by (cases cs rule: oid_valid.cases) auto
  with assms have v: "unat a \<le> 2" "unat a < 2 \<longrightarrow> unat b < 40" "unat b + 80 < 2 ^ 64" by simp_all
  have g: "\<not> (a > 2 \<or> (a < 2 \<and> b > 39) \<or> b > 0xffffffffffffffff - 80)"
    using v unfolding oid_guard by blast
  have ini: "CBS_init s (length s) = s" for s by (simp add: CBS_init_def)
  have "CBB_add_asn1_oid_from_text p (dotted cs) =
      c_seq (CBB_flush p) (c_seq (add_base128_integer p (40 * a + b)) (c_each (add_base128_integer p) rest))"
    unfolding CBB_add_asn1_oid_from_text_def ini cs parse_dotted oid_text_loop_dotted prod.case option.case
      if_not_P [OF g] ..
  also have "\<dots> = c_seq (CBB_flush p) (c_each (add_base128_integer p) ((40 * a + b) # rest))"
    by (simp only: c_each.simps)
  finally have e: "CBB_add_asn1_oid_from_text p (dotted cs) = \<dots>" .
  have "appends (c_each (add_base128_integer p) ((40 * a + b) # rest)) p
      (concat (map (\<lambda>v. base128 (unat v)) ((40 * a + b) # rest)))"
    by (rule appends_each) (simp_all add: appends_base128)
  from appends_seq [OF appends_flush this] show ?thesis
    unfolding e by (simp add: cs first_component [OF v(1,3)])
qed

lemma oid_from_text_canonical:
  assumes "CBB_add_asn1_oid_from_text p s cbb = (Some u, cbb')"
  shows "\<exists>cs. oid_valid cs \<and> s = dotted cs"
proof -
  from assms obtain a t b r cbb1 cbb2 x where p: "parse_dotted_decimal s = (Some a, t)"
      "parse_dotted_decimal t = (Some b, r)"
    and g: "\<not> (a > 2 \<or> (a < 2 \<and> b > 39) \<or> b > 0xffffffffffffffff - 80)"
    and l: "oid_text_loop p r cbb1 = (Some x, cbb2)"
    by (auto simp: CBB_add_asn1_oid_from_text_def CBS_init_def c_seq_eq_Some split: prod.splits option.splits if_splits)
  from oid_text_loop_canonical [OF l] obtain as where "r = dotted as" ..
  with p parse_dotted_canonical have "s = dotted (a # b # as)" by metis
  with g show ?thesis unfolding oid_guard by (intro exI [of _ "a # b # as"]) simp
qed

section \<open>To text\<close>

lemma dotted_Cons: "dotted (a # as) = decimal (unat a) @ concat (map (\<lambda>v. 46 # decimal (unat v)) as)"
  by (induction as arbitrary: a) simp_all

definition print_first :: "u64 \<Rightarrow> (cbb, unit) cop" where
  "print_first v = (if v \<ge> 80 then c_seq (CBB_add_bytes Top [50, 46]) (add_decimal Top (v - 80))
     else c_seq (add_decimal Top (v div 40)) (c_seq (CBB_add_u8 Top 46) (add_decimal Top (v mod 40))))"

definition print_rest :: "u64 list \<Rightarrow> (cbb, unit) cop" where
  "print_rest = c_each (\<lambda>v. c_seq (CBB_add_u8 Top 46) (add_decimal Top v))"

definition first_pair :: "u64 \<Rightarrow> u64 \<times> u64" where
  "first_pair v = (if v \<ge> 80 then (2, v - 80) else (v div 40, v mod 40))"

lemma first_pair_valid:
  "case first_pair v of (a, b) \<Rightarrow> unat a \<le> 2 \<and> (unat a < 2 \<longrightarrow> unat b < 40) \<and> unat b + 80 < 2 ^ 64 \<and>
     40 * unat a + unat b = unat v"
proof (cases "v \<ge> 80")
  case True
  then have "unat (v - 80) = unat v - 80" "80 \<le> unat v" by (simp_all add: unat_sub word_le_nat_alt)
  with True unat_less_pow [of v] show ?thesis by (simp add: first_pair_def)
next
  case False
  then have "unat v < 2 * 40" by (simp add: word_le_nat_alt)
  then have "unat v div 40 < 2" "unat v mod 40 < 40" by (simp_all add: less_mult_imp_div_less)
  with False show ?thesis by (simp add: first_pair_def unat_div unat_mod)
qed

lemma first_pair_of:
  assumes "unat a \<le> 2" "unat a < 2 \<longrightarrow> unat b < 40" "unat b + 80 < 2 ^ 64"
  shows "first_pair (40 * a + b) = (a, b)"
proof -
  note v = first_component [OF assms(1,3)]
  show ?thesis
  proof (cases "unat a = 2")
    case True
    then have "a = 2" by (simp add: word_unat_eq_iff)
    moreover have "(80 :: u64) \<le> 80 + b" using v True by (simp add: word_le_nat_alt \<open>a = 2\<close>)
    ultimately show ?thesis by (simp add: first_pair_def)
  next
    case False
    with assms have "unat a < 2" "unat b < 40" by simp_all
    with v have "unat (40 * a + b) div 40 = unat a" "unat (40 * a + b) mod 40 = unat b" "unat (40 * a + b) < 80"
      by simp_all
    then show ?thesis
      by (simp add: first_pair_def word_le_nat_alt word_unat_eq_iff unat_div unat_mod)
  qed
qed

lemma puts_decimal: "puts 0 (add_decimal Top v) Top (decimal (unat v))"
proof -
  have "length (decimal (unat v)) \<le> 20"
    using length_decimal [of "unat v" 20] unat_less_pow [of v] by simp
  then show ?thesis
    unfolding add_decimal_def snprintf_u64_eq by (intro puts_bytes) (simp add: size_mod_def)
qed

lemma puts_print_first:
  "puts 0 (print_first v) Top (case first_pair v of (a, b) \<Rightarrow> decimal (unat a) @ 46 # decimal (unat b))"
proof (cases "v \<ge> 80")
  case True
  have "puts 0 (CBB_add_bytes Top [50, 46]) Top [50, 46]" by (rule puts_bytes) (simp add: size_mod_def)
  from puts_seq [OF this puts_decimal] True show ?thesis
    by (simp add: print_first_def first_pair_def decimal_small)
next
  case False
  from puts_seq [OF puts_decimal puts_seq [OF puts_u8 puts_decimal]] False show ?thesis
    by (simp add: print_first_def first_pair_def)
qed

lemma puts_print_rest: "puts 0 (print_rest vs) Top (concat (map (\<lambda>v. 46 # decimal (unat v)) vs))"
  unfolding print_rest_def
  by (rule puts_each) (use puts_seq [OF puts_u8 puts_decimal] in simp)

lemma oid_print_loop_concat:
  "oid_print_loop Top (concat (map (\<lambda>v. base128 (unat v)) vs)) = print_rest vs"
proof (induction vs)
  case Nil
  show ?case by (rule ext) (simp add: oid_print_loop.simps CBS_len_def print_rest_def)
next
  case (Cons v vs)
  have "parse_base128_integer (concat (map (\<lambda>v. base128 (unat v)) (v # vs))) =
      (Some v, concat (map (\<lambda>v. base128 (unat v)) vs))"
    using base128_codec.dec_enc [of v] by simp
  then show ?case
    by (intro ext, subst oid_print_loop.simps)
      (simp add: Cons CBS_len_def print_rest_def c_seq_apply split: prod.split option.split)
qed

lemma oid_print_loop_canonical:
  "oid_print_loop p s cbb = (Some u, cbb') \<Longrightarrow> \<exists>vs. s = concat (map (\<lambda>v. base128 (unat (v :: u64))) vs)"
proof (induction p s cbb rule: oid_print_loop.induct)
  case (1 p s cbb)
  show ?case
  proof (cases "s = []")
    case True
    then show ?thesis by (intro exI [of _ "[]"]) simp
  next
    case False
    with "1.prems" obtain v t cbb1 x where parse: "parse_base128_integer s = (Some v, t)"
      and "c_seq (CBB_add_u8 p 46) (add_decimal p v) cbb = (Some x, cbb1)"
        "oid_print_loop p t cbb1 = (Some u, cbb')"
      by (subst (asm) oid_print_loop.simps) (auto simp: CBS_len_def split: prod.splits option.splits)
    with "1.IH" False have "\<exists>vs. t = concat (map (\<lambda>v. base128 (unat (v :: u64))) vs)" by (auto simp: CBS_len_def)
    then obtain vs where "t = concat (map (\<lambda>v. base128 (unat (v :: u64))) vs)" ..
    with base128_codec.canonical [OF parse] show ?thesis by (intro exI [of _ "v # vs"]) simp
  qed
qed

lemma oid_to_text_unfold:
  "CBS_asn1_oid_to_text al s =
     (case CBB_init al 32 of
        (False, _) \<Rightarrow> None
      | (True, cbb) \<Rightarrow>
     (case parse_base128_integer s of
        (None, _) \<Rightarrow> None
      | (Some v, copy) \<Rightarrow>
     (case c_seq (print_first v) (c_seq (oid_print_loop Top copy)
                (c_seq (CBB_add_u8 Top 0) (CBB_finish Top True))) cbb of
        (None, _) \<Rightarrow> None
      | (Some (out, len), _) \<Rightarrow> Some out)))"
  unfolding CBS_asn1_oid_to_text_def print_first_def ..

lemma oid_to_text_canonical:
  assumes "CBS_asn1_oid_to_text al s = Some out"
  shows "\<exists>cs. oid_valid cs \<and> s = oid_body cs"
proof -
  from assms obtain v t cbb1 cbb2 u where v: "parse_base128_integer s = (Some v, t)"
    and l: "oid_print_loop Top t cbb1 = (Some u, cbb2)"
    by (auto simp: oid_to_text_unfold c_seq_eq_Some split: prod.splits option.splits bool.splits)
  from oid_print_loop_canonical [OF l] obtain vs where t: "t = concat (map (\<lambda>v. base128 (unat (v :: u64))) vs)" ..
  obtain a b where ab: "first_pair v = (a, b)" by (cases "first_pair v")
  from base128_codec.canonical [OF v] t first_pair_valid [of v] ab
  show ?thesis by (intro exI [of _ "a # b # vs"]) simp
qed

lemma oid_to_text_body:
  assumes al: "allocator_ok al" and cs: "oid_valid cs"
  shows "CBS_asn1_oid_to_text al (oid_body cs) = Some out \<Longrightarrow>
           take (Suc (length (dotted cs))) out = dotted cs @ [0]"
    and "(\<And>k. al k \<noteq> None) \<Longrightarrow> Suc (length (dotted cs)) < size_mod \<Longrightarrow>
           CBS_asn1_oid_to_text al (oid_body cs) \<noteq> None"
proof -
  from cs obtain a b rest where c: "cs = a # b # rest" by (cases cs rule: oid_valid.cases) auto
  with cs have v: "unat a \<le> 2" "unat a < 2 \<longrightarrow> unat b < 40" "unat b + 80 < 2 ^ 64" by simp_all
  have body: "oid_body cs = base128 (unat (40 * a + b)) @ concat (map (\<lambda>v. base128 (unat v)) rest)"
    by (simp add: c first_component [OF v(1,3)])
  have parse: "parse_base128_integer (oid_body cs) = (Some (40 * a + b), concat (map (\<lambda>v. base128 (unat v)) rest))"
    unfolding body by (rule base128_codec.dec_enc) simp
  have shown: "dotted cs = (decimal (unat a) @ 46 # decimal (unat b)) @ concat (map (\<lambda>v. 46 # decimal (unat v)) rest)"
    unfolding c dotted_Cons by simp
  define op where "op = c_seq (print_first (40 * a + b)) (c_seq (print_rest rest) (CBB_add_u8 Top 0))"
  have assoc: "c_seq x (c_seq y (c_seq z w)) = c_seq (c_seq x (c_seq y z)) w" for x y z and w :: "(cbb, bytes \<times> nat) cop"
    by (rule ext) (auto simp: c_seq_apply split: prod.splits option.splits)
  have run: "CBS_asn1_oid_to_text al (oid_body cs) =
      (case CBB_init al 32 of (False, _) \<Rightarrow> None | (True, cbb) \<Rightarrow>
        (case c_seq op (CBB_finish Top True) cbb of (None, _) \<Rightarrow> None | (Some (out, len), _) \<Rightarrow> Some out))"
    unfolding oid_to_text_unfold parse oid_print_loop_concat prod.case option.case assoc op_def ..
  have puts: "puts 0 op Top (dotted cs @ [0])"
    using puts_seq [OF puts_print_first [of "40 * a + b"] puts_seq [OF puts_print_rest puts_u8]]
    unfolding op_def shown first_pair_of [OF v] prod.case append_assoc .
  { assume "CBS_asn1_oid_to_text al (oid_body cs) = Some out"
    then obtain cbb cbb1 cbb2 u len where i: "CBB_init al 32 = (True, cbb)"
      and s: "op cbb = (Some u, cbb1)" "CBB_finish Top True cbb1 = (Some (out, len), cbb2)"
      by (auto simp: run c_seq_eq_Some split: prod.splits option.splits bool.splits)
    have "cbb_at Top [] [] cbb" using CBB_init_at [OF al i] by (simp add: size_mod_def)
    from puts_at [OF puts this _ s(1)] have "cbb_at Top [] (dotted cs @ [0]) cbb1" by simp
    from CBB_finish_at [OF this s(2)] show "take (Suc (length (dotted cs))) out = dotted cs @ [0]" by auto }
  { assume mem: "\<And>k. al k \<noteq> None" "Suc (length (dotted cs)) < size_mod"
    have "32 < size_mod" by (simp add: size_mod_def)
    from CBB_init_room [OF al mem(1) this mem(2)] obtain cbb where i: "CBB_init al 32 = (True, cbb)"
      and r: "cbb_room (Suc (length (dotted cs))) Top [] [] cbb" by blast
    from puts_room [OF puts r] obtain u cbb1 where s: "op cbb = (Some u, cbb1)"
      and "cbb_room 0 Top [] (dotted cs @ [0]) cbb1" by auto
    from CBB_finish_room [OF this(2)] i s show "CBS_asn1_oid_to_text al (oid_body cs) \<noteq> None"
      by (auto simp: run) }
qed

section \<open>The round trip\<close>

text \<open>The calls a user makes: the contents octets of the identifier written as \<open>str\<close>, and the C string
  that prints contents octets.\<close>

definition oid_contents :: "allocator \<Rightarrow> bytes \<Rightarrow> bytes option" where
  "oid_contents al str =
     (case CBB_init al 0 of
        (False, _) \<Rightarrow> None
      | (True, cbb) \<Rightarrow>
          (case c_seq (CBB_add_asn1_oid_from_text Top str) (CBB_finish Top True) cbb of
             (None, _) \<Rightarrow> None
           | (Some (out, len), _) \<Rightarrow> Some (take len out)))"

definition oid_string :: "allocator \<Rightarrow> bytes \<Rightarrow> bytes option" where
  "oid_string al s = map_option (takeWhile (\<lambda>c. c \<noteq> 0)) (CBS_asn1_oid_to_text al s)"

lemma dotted_no_zero: "0 \<notin> set (dotted cs)"
  by (induction cs) (auto dest!: decimal_digits)

lemma takeWhile_string: "take (Suc (length d)) out = d @ [0] \<Longrightarrow> (0 :: byte) \<notin> set d \<Longrightarrow> takeWhile (\<lambda>c. c \<noteq> 0) out = d"
proof -
  assume t: "take (Suc (length d)) out = d @ [0]" and z: "(0 :: byte) \<notin> set d"
  have "out = d @ 0 # drop (Suc (length d)) out"
    using append_take_drop_id [of "Suc (length d)" out] unfolding t by simp
  then have "takeWhile (\<lambda>c. c \<noteq> 0) out = takeWhile (\<lambda>c. c \<noteq> 0) (d @ 0 # drop (Suc (length d)) out)" by simp
  also have "\<dots> = d" using z by (subst takeWhile_append2) auto
  finally show ?thesis .
qed

lemma oid_contents_eq_Some:
  assumes al: "allocator_ok al" and s: "oid_contents al str = Some s"
  shows "\<exists>cs. oid_valid cs \<and> str = dotted cs \<and> s = oid_body cs"
proof -
  from s obtain cbb cbb1 cbb2 u out len where i: "CBB_init al 0 = (True, cbb)"
    and r: "CBB_add_asn1_oid_from_text Top str cbb = (Some u, cbb1)" "CBB_finish Top True cbb1 = (Some (out, len), cbb2)"
    and o: "s = take len out"
    by (auto simp: oid_contents_def c_seq_eq_Some split: prod.splits option.splits bool.splits)
  from oid_from_text_canonical [OF r(1)] obtain cs where cs: "oid_valid cs" "str = dotted cs" by blast
  have "cbb_at Top [] [] cbb" using CBB_init_at [OF al i] by (simp add: size_mod_def)
  from appends_at [OF oid_from_dotted [OF cs(1)] this] r(1) cs(2) have "cbb_at Top [] (oid_body cs) cbb1" by simp
  from CBB_finish_at [OF this r(2)] cs o show ?thesis by auto
qed

lemma oid_contents_dotted:
  assumes al: "allocator_ok al" "\<And>k. al k \<noteq> None" and cs: "oid_valid cs" "length (oid_body cs) < size_mod"
  shows "oid_contents al (dotted cs) = Some (oid_body cs)"
proof -
  have "0 < size_mod" by (simp add: size_mod_def)
  from CBB_init_room [OF al(1,2) this cs(2)] obtain cbb where i: "CBB_init al 0 = (True, cbb)"
    and r: "cbb_room (length (oid_body cs)) Top [] [] cbb" by blast
  from appends_room [OF oid_from_dotted [OF cs(1)] r] obtain u cbb1 where
    s: "CBB_add_asn1_oid_from_text Top (dotted cs) cbb = (Some u, cbb1)"
    and r1: "cbb_room 0 Top [] (oid_body cs) cbb1" by auto
  from CBB_finish_room [OF r1] obtain out len cbb2 where f: "CBB_finish Top True cbb1 = (Some (out, len), cbb2)" by blast
  have "cbb_at Top [] (oid_body cs) cbb1" using r1 by (simp add: cbb_room_def)
  from CBB_finish_at [OF this f] have "take len out = oid_body cs" by blast
  with i s f show ?thesis by (simp add: oid_contents_def)
qed

text \<open>C6: Object identifiers as text and as contents octets correspond one to one: a string \<open>str\<close> is
  accepted by \<open>CBB_add_asn1_oid_from_text\<close> and yields the octets \<open>s\<close> exactly when
  \<open>CBS_asn1_oid_to_text\<close> accepts \<open>s\<close> and prints \<open>str\<close>. Leading zeros, empty components, overflow of
  64 bits, a first component above 2 and non-minimal base-128 digits are all rejected on their side.\<close>

theorem oid_text_roundtrip:
  assumes "allocator_ok al" "\<And>k. al k \<noteq> None" "length s < size_mod" "Suc (length str) < size_mod"
  shows "oid_contents al str = Some s \<longleftrightarrow> oid_string al s = Some str"
proof
  assume "oid_contents al str = Some s"
  from oid_contents_eq_Some [OF assms(1) this] obtain cs where
    cs: "oid_valid cs" "str = dotted cs" "s = oid_body cs" by blast
  with oid_to_text_body(2) [OF assms(1) cs(1) assms(2)] assms(4) obtain out where
    o: "CBS_asn1_oid_to_text al s = Some out" by blast
  with oid_to_text_body(1) [OF assms(1) cs(1), of out] cs show "oid_string al s = Some str"
    by (simp add: oid_string_def takeWhile_string dotted_no_zero)
next
  assume "oid_string al s = Some str"
  then obtain out where o: "CBS_asn1_oid_to_text al s = Some out" "str = takeWhile (\<lambda>c. c \<noteq> 0) out"
    by (auto simp: oid_string_def)
  from oid_to_text_canonical [OF o(1)] obtain cs where cs: "oid_valid cs" "s = oid_body cs" by blast
  with oid_to_text_body(1) [OF assms(1) cs(1), of out] o have "str = dotted cs"
    by (simp add: takeWhile_string dotted_no_zero)
  with oid_contents_dotted [OF assms(1,2) cs(1)] cs assms(3) show "oid_contents al str = Some s" by simp
qed

theorem oid_text_roundtrip_witness:
  "oid_contents (\<lambda>k. Some (replicate k 0)) [49, 46, 50, 46, 56, 52, 48] = Some [42, 134, 72] \<and>
   oid_string (\<lambda>k. Some (replicate k 0)) [42, 134, 72] = Some [49, 46, 50, 46, 56, 52, 48]"
proof -
  let ?al = "\<lambda>k. Some (replicate k 0) :: bytes option"
  have al: "allocator_ok ?al" "\<And>k. ?al k \<noteq> None" by (simp_all add: allocator_ok_def)
  have e: "dotted [1, 2, 840] = [49, 46, 50, 46, 56, 52, 48]" "oid_body [1, 2, 840] = [42, 134, 72]"
    by (simp_all add: decimal.simps base128_def b128_cont_pos)
  have "oid_contents ?al [49, 46, 50, 46, 56, 52, 48] = Some [42, 134, 72]"
    using oid_contents_dotted [OF al, of "[1, 2, 840]"] unfolding e by (simp add: size_mod_def)
  with oid_text_roundtrip [OF al, of "[42, 134, 72]" "[49, 46, 50, 46, 56, 52, 48]"] show ?thesis
    by (simp add: size_mod_def)
qed

end
