(* ===== verification/SetOf.thy ===== *)
theory SetOf
  imports CBB_Values "HOL-Library.List_Lexorder" "HOL-Library.Multiset"
  "HOL-Library.Code_Target_Nat"
begin

text \<open>
  \<open>CBB_flush_asn1_set_of\<close> of \<open>crypto/bytestring/cbb.c\<close>: the elements written to a SET OF are sorted
  by their encodings, as DER demands, in place. What a caller writes in any order is therefore
  encoded in one way.
\<close>

section \<open>The operation\<close>

text \<open>\<open>CBS_get_any_asn1_element(&cbs, &child, NULL, NULL)\<close>.\<close>

definition get_element :: "(cbs, cbs) cop" where
  "get_element = c_bind CBS_get_any_asn1_element (\<lambda>(out, tag, header_len). c_ret out)"

text \<open>The loop \<open>for (i = 0; i < num_children; i++)\<close> that fills the array.\<close>

primrec c_times :: "nat \<Rightarrow> ('s, 'a) cop \<Rightarrow> ('s, 'a list) cop" where
  "c_times 0 m = c_ret []"
| "c_times (Suc n) m = c_bind m (\<lambda>x. c_bind (c_times n m) (\<lambda>xs. c_ret (x # xs)))"

definition compare_set_of_element :: "cbs \<Rightarrow> cbs \<Rightarrow> int" where
  "compare_set_of_element a b =
     (let a_len = CBS_len a; b_len = CBS_len b; min_len = (if a_len < b_len then a_len else b_len);
          ret = OPENSSL_memcmp (CBS_data a) (CBS_data b) min_len
      in if ret \<noteq> 0 then ret
         else if a_len = b_len then 0
         else if a_len < b_len then - 1 else 1)"

text \<open>\<open>sizeof(CBS)\<close> is 16. \<open>None\<close> of the first reading is the early \<open>return 0\<close>.\<close>

definition CBB_flush_asn1_set_of :: "cbb_ref \<Rightarrow> (cbb, unit) cop" where
  "CBB_flush_asn1_set_of p cbb =
     (case CBB_flush p cbb of
        (None, cbb) \<Rightarrow> (None, cbb)
      | (Some _, cbb) \<Rightarrow>
     (let buf_len = CBB_len p cbb; contents = CBS_init (CBB_data p cbb) buf_len
      in case read_all get_element contents of
           None \<Rightarrow> (None, cbb)
         | Some elements \<Rightarrow>
     (let num_children = length elements
      in if num_children < 2 then (Some (), cbb)
         else if num_children > (size_mod - 1) div 16 then (None, cbb)
         else case cbb_base cbb of
                None \<Rightarrow> (None, cbb)
              | Some base \<Rightarrow>
     (case (OPENSSL_memdup (cbb_alloc base) contents, cbb_alloc base (num_children * 16)) of
        (Some buf, Some _) \<Rightarrow>
          (case c_times num_children get_element (CBS_init buf buf_len) of
             (None, _) \<Rightarrow> (None, cbb)
           | (Some children, _) \<Rightarrow>
               c_each (CBB_add_bytes p) (qsort compare_set_of_element children)
                 (cbb\<lparr>cbb_base := Some (base\<lparr>cbb_len := cbb_start p cbb\<rparr>)\<rparr>))
      | _ \<Rightarrow> (None, cbb)))))"

section \<open>Sorting\<close>

lemma memcmp_then_length:
  "(let r = OPENSSL_memcmp a b (min (length a) (length b))
    in r < 0 \<or> (r = 0 \<and> length a \<le> length b)) \<longleftrightarrow> a \<le> b"
proof (induction a arbitrary: b)
  case (Cons x a)
  show ?case
  proof (cases b)
    case (Cons y b')
    then show ?thesis
      using Cons.IH [of b'] by (auto simp: Let_def word_less_def word_uint_eq_iff)
  qed simp
qed simp

lemma compare_le: "compare_set_of_element a b \<le> 0 \<longleftrightarrow> a \<le> b"
  unfolding memcmp_then_length [symmetric, of a b]
  by (auto simp: compare_set_of_element_def Let_def CBS_len_def CBS_data_def min_def)

lemma qsort_insert_eq:
  "sorted xs \<Longrightarrow> qsort_insert compare_set_of_element x xs = insort x xs"
  by (induction xs) (simp_all add: compare_le)

lemma qsort_eq: "qsort compare_set_of_element xs = sort xs"
  by (induction xs) (simp_all add: qsort_def qsort_insert_eq)

section \<open>Elements\<close>

definition is_element :: "bytes \<Rightarrow> bool" where
  "is_element e \<longleftrightarrow> (\<exists>tag body. length body < 2 ^ 32 \<and> e = der_elem tag body)"

interpretation set_codec: seq_codec "\<lambda>e. e" get_element is_element
proof unfold_locales
  show "get_element (x @ rest) = (Some x, rest)" if "is_element x" for x rest
    using that by (auto simp: is_element_def get_element_def CBS_get_any_asn1_element_def cbs_element_der_elem)
  show "is_element x \<and> s = x @ t" if "get_element s = (Some x, t)" for s x t
  proof -
    from that obtain tag hl where "cbs_get_any_asn1_element False s = (Some (x, tag, hl), t)"
      by (auto simp: get_element_def CBS_get_any_asn1_element_def c_bind_eq_Some)
    from cbs_element_canonical [OF this] show ?thesis unfolding is_element_def by blast
  qed
qed (auto simp: is_element_def)

lemma read_elements: "read_all get_element s = Some es \<longleftrightarrow> list_all is_element es \<and> s = concat es"
  using set_codec.read_all_eq_Some [of s es] by simp

lemma c_times_elements:
  "list_all is_element es \<Longrightarrow> c_times (length es) get_element (concat es) = (Some es, [])"
  by (induction es) (simp_all add: set_codec.dec_enc)

lemma length_element: "is_element e \<Longrightarrow> length e < size_mod"
proof -
  assume "is_element e"
  then obtain tag body where "length body < 2 ^ 32" "e = der_elem tag body" by (auto simp: is_element_def)
  with length_der_elem_le [of body tag] show ?thesis by (simp add: size_mod_def)
qed

lemma concat_sort_length: "length (concat (sort es)) = length (concat (es :: bytes list))"
proof -
  have "length (concat xs) = sum_list (map length xs)" for xs :: "bytes list" by (simp add: length_concat)
  moreover have "sum_mset (image_mset length (mset (sort es))) = sum_mset (image_mset length (mset es))" by simp
  ultimately show ?thesis by (metis mset_map sum_mset_sum_list)
qed

section \<open>In the buffer\<close>

text \<open>Where the contents of the \<open>CBB\<close> at the end of a chain start.\<close>

definition chain_start :: "cbb_child list \<Rightarrow> nat" where
  "chain_start outer = (if outer = [] then 0 else offset (last outer) + pending_len_len (last outer))"

lemma flushed_view:
  assumes "cbb_at p outer (pre @ body) cbb" "cbb_chain cbb = outer" "length pre = chain_start outer"
    "cbb_base cbb = Some b" "buf_ok b" "contents b = pre @ body"
  shows "cbb_start p cbb = length pre" "CBB_len p cbb = length body"
    "CBS_init (CBB_data p cbb) (length body) = body"
proof -
  have sp: "split_chain p outer = Some (outer, [])" by (rule cbb_at_resolves [OF assms(1)])
  then show st: "cbb_start p cbb = length pre"
    using assms(2,3) by (simp add: cbb_start_def chain_start_def)
  have "cbb_len b = length pre + length body" using length_contents [OF assms(5)] assms(6) by simp
  then show l: "CBB_len p cbb = length body" using assms(4) st by (simp add: CBB_len_def)
  have "take (length body) (drop (length pre) (cbb_buf b)) = drop (length pre) (contents b)"
    using \<open>cbb_len b = _\<close> by (simp add: contents_def drop_take)
  then show "CBS_init (CBB_data p cbb) (length body) = body"
    using assms(4,6) st by (simp add: CBS_init_def CBB_data_def)
qed

text \<open>Rewinding to the start leaves what comes before the contents.\<close>

lemma rewind_at:
  assumes "cbb_at p outer (pre @ body) cbb" "cbb_chain cbb = outer"
    "cbb_base cbb = Some b" "buf_ok b" "contents b = pre @ body" "\<not> cbb_error b"
  shows "cbb_at p outer pre (cbb\<lparr>cbb_base := Some (b\<lparr>cbb_len := length pre\<rparr>)\<rparr>)"
proof -
  have l: "cbb_len b = length pre + length body" using length_contents [OF assms(4)] assms(5) by simp
  have "contents (b\<lparr>cbb_len := length pre\<rparr>) = take (length pre) (contents b)"
    using l by (simp add: contents_def)
  then have "contents (b\<lparr>cbb_len := length pre\<rparr>) = pre" using assms(5) by simp
  moreover have "buf_ok (b\<lparr>cbb_len := length pre\<rparr>)" using assms(4) l by (simp add: buf_ok_def)
  moreover have "split_chain p outer = Some (outer, [])" "list_all child_ok outer"
    using assms(1,2) cbb_at_resolves [OF assms(1)] by (auto simp: cbb_at_def)
  ultimately show ?thesis using assms by (simp add: cbb_at_def)
qed

lemma rewind_room:
  assumes "cbb_room n p outer (pre @ body) cbb" "cbb_chain cbb = outer"
    "cbb_base cbb = Some b" "buf_ok b" "contents b = pre @ body" "\<not> cbb_error b"
  shows "cbb_room (n + length body) p outer pre (cbb\<lparr>cbb_base := Some (b\<lparr>cbb_len := length pre\<rparr>)\<rparr>)"
proof -
  have l: "cbb_len b = length pre + length body" using length_contents [OF assms(4)] assms(5) by simp
  have "cbb_at p outer (pre @ body) cbb" using assms(1) by (simp add: cbb_room_def)
  from rewind_at [OF this assms(2-6)] assms(1,3) l show ?thesis
    by (auto simp: cbb_room_def room_def)
qed

lemma puts_elements:
  "list_all is_element es \<Longrightarrow> puts a (c_each (CBB_add_bytes p) es) p (concat es)"
proof -
  assume "list_all is_element es"
  then have "puts a (c_each (CBB_add_bytes p) es) p (concat (map (\<lambda>e. e) es))"
    by (intro puts_each puts_bytes length_element) (simp add: list_all_iff)
  then show ?thesis by simp
qed

text \<open>The operation after its flush, with the contents in view.\<close>

definition sort_elements :: "cbb_ref \<Rightarrow> bytes \<Rightarrow> nat \<Rightarrow> cbb_buffer \<Rightarrow> (cbb, unit) cop" where
  "sort_elements p body start b cbb =
     (case read_all get_element body of
        None \<Rightarrow> (None, cbb)
      | Some es \<Rightarrow>
          if length es < 2 then (Some (), cbb)
          else if length es > (size_mod - 1) div 16 then (None, cbb)
          else (case OPENSSL_memdup (cbb_alloc b) body of
                  None \<Rightarrow> (None, cbb)
                | Some buf \<Rightarrow>
                    (case cbb_alloc b (length es * 16) of
                       None \<Rightarrow> (None, cbb)
                     | Some _ \<Rightarrow>
                         (case c_times (length es) get_element (CBS_init buf (length body)) of
                            (None, _) \<Rightarrow> (None, cbb)
                          | (Some children, _) \<Rightarrow>
                              c_each (CBB_add_bytes p) (sort children)
                                (cbb\<lparr>cbb_base := Some (b\<lparr>cbb_len := start\<rparr>)\<rparr>)))))"

lemma flush_set_of_step:
  assumes at: "cbb_at p outer (pre @ body) cbb" and pre: "length pre = chain_start outer"
    and f: "CBB_flush p cbb = (Some (), cbb1)"
  shows "\<exists>b. cbb_at p outer (pre @ body) cbb1 \<and> cbb_chain cbb1 = outer \<and> cbb_base cbb1 = Some b \<and> buf_ok b \<and>
    contents b = pre @ body \<and> \<not> cbb_error b \<and>
    CBB_flush_asn1_set_of p cbb = sort_elements p body (length pre) b cbb1"
proof -
  from CBB_flush_at [OF at f] obtain b where at1: "cbb_at p outer (pre @ body) cbb1" "cbb_chain cbb1 = outer"
    "cbb_base cbb1 = Some b" "buf_ok b" "contents b = pre @ body" "\<not> cbb_error b" by blast
  note view = flushed_view [OF at1(1,2) pre at1(3-5)]
  have "CBB_flush_asn1_set_of p cbb = sort_elements p body (length pre) b cbb1"
    unfolding CBB_flush_asn1_set_of_def sort_elements_def f prod.case option.case Let_def view at1(3) qsort_eq
    by (simp split: option.split prod.split)
  with at1 show ?thesis by blast
qed

lemma sort_elements_many:
  assumes "list_all is_element es" "\<not> length es < 2" "length es \<le> (size_mod - 1) div 16"
    "OPENSSL_memdup (cbb_alloc b) (concat es) = Some buf" "cbb_alloc b (length es * 16) = Some blk" "buf_ok b"
  shows "sort_elements p (concat es) start b cbb =
    c_each (CBB_add_bytes p) (sort es) (cbb\<lparr>cbb_base := Some (b\<lparr>cbb_len := start\<rparr>)\<rparr>)"
proof -
  have "buf = concat es" using assms(4,6) by (auto simp: buf_ok_def dest: OPENSSL_memdup_eq)
  then have "c_times (length es) get_element (CBS_init buf (length (concat es))) = (Some es, [])"
    using c_times_elements [OF assms(1)] by (simp add: CBS_init_def)
  with assms(1-5) show ?thesis
    unfolding sort_elements_def by (simp add: read_elements [THEN iffD2])
qed

lemma sort_short: "length es < 2 \<Longrightarrow> sort es = (es :: bytes list)"
  by (cases es; cases "tl es") auto

lemma sort_elements_at:
  assumes at1: "cbb_at p outer (pre @ body) cbb" "cbb_chain cbb = outer"
    "cbb_base cbb = Some b" "buf_ok b" "contents b = pre @ body" "\<not> cbb_error b"
    and lt: "\<forall>x\<in>addr ` set outer. x < a" and run: "sort_elements p body (length pre) b cbb = (Some u, cbb')"
  shows "\<exists>es. list_all is_element es \<and> body = concat es \<and> cbb_at p outer (pre @ concat (sort es)) cbb'"
proof -
  from run obtain es where es: "read_all get_element body = Some es"
    by (auto simp: sort_elements_def split: option.splits)
  then have v: "list_all is_element es" "body = concat es" by (simp_all add: read_elements)
  show ?thesis
  proof (cases "length es < 2")
    case True
    then have "cbb' = cbb" using run es by (simp add: sort_elements_def)
    with sort_short [OF True] v at1(1) show ?thesis by auto
  next
    case False
    with run es obtain buf blk where d: "OPENSSL_memdup (cbb_alloc b) (concat es) = Some buf"
      "cbb_alloc b (length es * 16) = Some blk" "length es \<le> (size_mod - 1) div 16"
      by (auto simp: sort_elements_def v(2) split: option.splits if_splits)
    from run sort_elements_many [OF v(1) False d(3,1,2) at1(4)]
    have "c_each (CBB_add_bytes p) (sort es) (cbb\<lparr>cbb_base := Some (b\<lparr>cbb_len := length pre\<rparr>)\<rparr>) = (Some u, cbb')"
      by (simp add: v(2))
    moreover have "list_all is_element (sort es)" using v(1) by (simp add: list_all_iff)
    ultimately show ?thesis
      using puts_at [OF puts_elements rewind_at [OF at1] lt] v by blast
  qed
qed

text \<open>And it succeeds when the allocator does, in the space the contents had.\<close>

lemma sort_elements_room:
  assumes at1: "cbb_room n p outer (pre @ concat es) cbb" "cbb_chain cbb = outer"
    "cbb_base cbb = Some b" "buf_ok b" "contents b = pre @ concat es" "\<not> cbb_error b"
    and lt: "\<forall>x\<in>addr ` set outer. x < a" and mem: "\<And>k. cbb_alloc b k \<noteq> None"
    and es: "list_all is_element es" "length es \<le> (size_mod - 1) div 16"
  shows "\<exists>u cbb'. sort_elements p (concat es) (length pre) b cbb = (Some u, cbb') \<and>
    cbb_room n p outer (pre @ concat (sort es)) cbb'"
proof (cases "length es < 2")
  case True
  then show ?thesis
    using at1(1) es(1) sort_short [OF True] by (simp add: sort_elements_def read_elements [THEN iffD2])
next
  case False
  then obtain e es' where "es = e # es'" by (cases es) auto
  with es(1) have "concat es \<noteq> []" by (auto simp: is_element_def)
  moreover obtain ret blk where "cbb_alloc b (length (concat es)) = Some ret" and
    blk: "cbb_alloc b (length es * 16) = Some blk" using mem by (meson not_None_eq)
  ultimately obtain buf where d: "OPENSSL_memdup (cbb_alloc b) (concat es) = Some buf"
    unfolding OPENSSL_memdup_def by (simp del: concat_eq_Nil_conv)
  have v: "list_all is_element (sort es)" using es(1) by (simp add: list_all_iff)
  from puts_room [OF puts_elements [OF v] rewind_room [OF at1] lt]
  show ?thesis unfolding sort_elements_many [OF es(1) False es(2) d blk at1(4)] by (simp add: concat_sort_length)
qed

section \<open>The builder keeps its allocator\<close>

definition alloc_of :: "cbb \<Rightarrow> allocator option" where
  "alloc_of cbb = map_option cbb_alloc (cbb_base cbb)"

abbreviation keeps :: "(cbb, 'a) cop \<Rightarrow> bool" where
  "keeps \<equiv> c_preserves (\<lambda>c c'. alloc_of c' = alloc_of c)"

abbreviation keeps_buffer :: "(cbb_buffer, 'a) cop \<Rightarrow> bool" where
  "keeps_buffer \<equiv> c_preserves (\<lambda>b b'. cbb_alloc b' = cbb_alloc b)"

lemma keeps_seq: "keeps m \<Longrightarrow> keeps n \<Longrightarrow> keeps (c_seq m n)"
  unfolding c_seq_def by (rule c_preserves_bind) simp_all

lemma keeps_bind: "keeps m \<Longrightarrow> (\<And>x. keeps (f x)) \<Longrightarrow> keeps (c_bind m f)"
  by (rule c_preserves_bind) simp_all

lemma keeps_each: "(\<And>x. keeps (f x)) \<Longrightarrow> keeps (c_each f xs)"
proof (induction xs)
  case Nil
  show ?case by (rule c_preservesI) simp
next
  case (Cons x xs)
  then show ?case by (simp add: keeps_seq)
qed

lemma keeps_on_base: "keeps_buffer f \<Longrightarrow> keeps (on_base f)"
  by (rule c_preservesI) (auto simp: on_base_def alloc_of_def dest: c_preservesD split: option.splits prod.splits)

lemma keeps_reserve: "keeps_buffer (cbb_buffer_reserve n)"
  by (rule c_preservesI) (auto simp: cbb_buffer_reserve_def Let_def split: if_splits option.splits)

lemma keeps_add: "keeps_buffer (cbb_buffer_add n)"
  by (rule c_preservesI)
    (auto simp: cbb_buffer_add_def dest: c_preservesD [OF keeps_reserve] split: option.splits prod.splits)

lemma keeps_add_u: "keeps_buffer (cbb_buffer_add_u v n)"
  by (rule c_preservesI)
    (auto simp: cbb_buffer_add_u_def dest: c_preservesD [OF keeps_add] split: option.splits prod.splits if_splits)

lemma keeps_write_prefix: "keeps_buffer (write_prefix c st len)"
proof (rule c_preservesI)
  fix b r b'
  assume "write_prefix c st len b = (r, b')"
  then show "cbb_alloc b' = cbb_alloc b"
    by (auto simp: write_prefix_def Let_def c_bind_def dest: c_preservesD [OF keeps_add]
        split: option.splits prod.splits if_splits)
qed

lemma keeps_flush_chain: "flush_chain cs b = (ok, b', cs') \<Longrightarrow> cbb_alloc b' = cbb_alloc b"
proof (induction cs arbitrary: ok b' cs')
  case (Cons c cs)
  obtain ok1 b1 cs1 where rec: "flush_chain cs b = (ok1, b1, cs1)" by (cases "flush_chain cs b") auto
  from Cons.prems Cons.IH [OF rec] rec show ?case
    by (auto simp: Let_def dest: c_preservesD [OF keeps_write_prefix] split: prod.splits option.splits if_splits)
qed simp

lemma keeps_flush: "keeps (CBB_flush p)"
  by (rule c_preservesI)
    (auto simp: CBB_flush_def alloc_of_def dest: keeps_flush_chain split: option.splits prod.splits)

lemma keeps_add_bytes: "keeps (CBB_add_bytes p d)"
  unfolding CBB_add_bytes_def
  by (intro keeps_seq keeps_flush keeps_on_base c_preservesI)
    (auto dest: c_preservesD [OF keeps_add] split: option.splits prod.splits)

lemma keeps_add_u8: "keeps (CBB_add_u8 p v)"
  unfolding CBB_add_u8_def by (intro keeps_seq keeps_flush keeps_on_base keeps_add_u)

lemma keeps_push_child: "keeps (cbb_push_child a off k asn1)"
  by (rule c_preservesI) (auto simp: cbb_push_child_def alloc_of_def)

lemma keeps_base128: "keeps (add_base128_integer p v)"
  unfolding add_base128_integer_def Let_def by (rule keeps_each) (rule keeps_add_u8)

lemma keeps_add_asn1: "keeps (CBB_add_asn1 p a tag)"
proof -
  have open_child: "keeps (\<lambda>cbb. case cbb_base cbb of None \<Rightarrow> (None, cbb)
      | Some b \<Rightarrow> c_seq (CBB_add_u8 p 0) (cbb_push_child a (cbb_len b) 1 True) cbb)"
    by (rule c_preservesI)
      (auto dest: c_preservesD [OF keeps_seq [OF keeps_add_u8 keeps_push_child]] split: option.splits)
  show ?thesis
    unfolding CBB_add_asn1_def Let_def
    by (intro keeps_seq keeps_flush open_child) (simp add: keeps_seq keeps_add_u8 keeps_base128)
qed

section \<open>Building a SET OF\<close>

text \<open>The calls a user makes to encode a SET OF: open it, add the encoded elements, sort, finish.\<close>

definition build_set_of :: "allocator \<Rightarrow> bytes list \<Rightarrow> bytes option" where
  "build_set_of al es =
     (case CBB_init al 0 of
        (False, _) \<Rightarrow> None
      | (True, cbb) \<Rightarrow>
          (case c_seq (CBB_add_asn1 Top 0 CBS_ASN1_SET)
                  (c_seq (c_each (CBB_add_bytes (Sub 0)) es)
                    (c_seq (CBB_flush_asn1_set_of (Sub 0)) (CBB_finish Top True))) cbb of
             (None, _) \<Rightarrow> None
           | (Some (out, len), _) \<Rightarrow> Some (take len out)))"

lemma init_alloc: "CBB_init al n = (True, cbb) \<Longrightarrow> alloc_of cbb = Some al"
  by (auto simp: CBB_init_def cbb_init_def CBB_zero_def alloc_of_def split: option.splits if_splits)

lemma build_set_of_eq:
  assumes al: "allocator_ok al" "\<And>k. al k \<noteq> None" and es: "list_all is_element es"
    and len: "length (concat es) \<le> 0xfffffffe"
  shows "build_set_of al es = Some (der_elem CBS_ASN1_SET (concat (sort es)))"
proof -
  define tag where "tag = der_tag CBS_ASN1_SET"
  define c where "c = \<lparr>addr = 0, offset = length tag, pending_len_len = 1, pending_is_asn1 = True\<rparr>"
  define e where "e = der_elem CBS_ASN1_SET (concat (sort es))"
  have lens: "length (concat (sort es)) = length (concat es)" by (rule concat_sort_length)
  have le: "length e < size_mod" "length tag + 1 + length (concat es) \<le> length e"
    using length_der_elem_le [of "concat (sort es)" CBS_ASN1_SET] len lens
    by (auto simp: e_def size_mod_def tag_def der_elem_def der_len_def)
  have "0 < size_mod" by (simp add: size_mod_def)
  from CBB_init_room [OF al(1,2) this le(1)] obtain cbb where i: "CBB_init al 0 = (True, cbb)"
    and r: "cbb_room (length e) Top [] [] cbb" by blast
  from opens_room [OF opens_asn1 r, of 0 CBS_ASN1_SET] le(2) obtain x cbb1 where
    s1: "CBB_add_asn1 Top 0 CBS_ASN1_SET cbb = (Some x, cbb1)"
    and r1: "cbb_room (length e - (length tag + 1)) (Sub 0) [c] (tag @ [0]) cbb1"
    by (auto simp: c_def tag_def)
  have lt: "\<forall>x\<in>addr ` set [c]. x < 1" by (simp add: c_def)
  have "length (concat es) \<le> length e - (length tag + 1)" using le(2) by simp
  from puts_room [OF puts_elements [OF es] r1 lt this] obtain y cbb2 where
    s2: "c_each (CBB_add_bytes (Sub 0)) es cbb1 = (Some y, cbb2)"
    and r2: "cbb_room (length e - (length tag + 1) - length (concat es)) (Sub 0) [c] ((tag @ [0]) @ concat es) cbb2" by blast
  from CBB_flush_room [OF r2] obtain cbb3 where f: "CBB_flush (Sub 0) cbb2 = (Some (), cbb3)"
    and r3: "cbb_room (length e - (length tag + 1) - length (concat es)) (Sub 0) [c] ((tag @ [0]) @ concat es) cbb3" by blast
  have at2: "cbb_at (Sub 0) [c] ((tag @ [0]) @ concat es) cbb2" using r2 by (simp add: cbb_room_def)
  have st: "length (tag @ [0 :: byte]) = chain_start [c]" by (simp add: chain_start_def c_def)
  from flush_set_of_step [OF at2 st f] obtain b where b: "cbb_chain cbb3 = [c]" "cbb_base cbb3 = Some b" "buf_ok b"
      "contents b = (tag @ [0]) @ concat es" "\<not> cbb_error b"
    and so: "CBB_flush_asn1_set_of (Sub 0) cbb2 = sort_elements (Sub 0) (concat es) (length (tag @ [0 :: byte])) b cbb3" by blast
  have "alloc_of cbb3 = Some al"
    using init_alloc [OF i] c_preservesD [OF keeps_add_asn1 s1] c_preservesD [OF keeps_flush f]
      c_preservesD [OF keeps_each [OF keeps_add_bytes] s2] by simp
  then have mem: "\<And>k. cbb_alloc b k \<noteq> None" using b(2) al(2) by (simp add: alloc_of_def)
  have "length es \<le> length (concat es)"
    using es
  proof (induction es)
    case (Cons d ds)
    then have "d \<noteq> []" by (auto simp: is_element_def)
    with Cons show ?case by (cases d) simp_all
  qed simp
  then have nes: "length es \<le> (size_mod - 1) div 16" using len by (simp add: size_mod_def)
  from sort_elements_room [OF r3 b lt mem es nes] so obtain z cbb4 where
    s3: "CBB_flush_asn1_set_of (Sub 0) cbb2 = (Some z, cbb4)"
    and r4: "cbb_room (length e - (length tag + 1) - length (concat es)) (Sub 0) [c] ((tag @ [0]) @ concat (sort es)) cbb4"
    by auto
  have put: "put_prefix c ((tag @ [0]) @ concat (sort es)) = Some e"
    using put_prefix_asn1 [of "concat (sort es)" 0 tag] len lens by (simp add: c_def e_def tag_def der_elem_def)
  have "length e - length ((tag @ [0]) @ concat (sort es)) \<le> length e - (length tag + 1) - length (concat es)"
    using lens by simp
  moreover have "cbb_room (length e - (length tag + 1) - length (concat es)) (Sub 0) ([] @ [c]) ((tag @ [0]) @ concat (sort es)) cbb4"
    using r4 by simp
  moreover have "split_chain Top [] = Some ([], [])" by simp
  ultimately obtain m where r5: "cbb_room m Top [] e cbb4" using close_room put by blast
  from CBB_finish_room [OF r5] obtain out len cbb5 where fin: "CBB_finish Top True cbb4 = (Some (out, len), cbb5)" by blast
  have "cbb_at Top [] e cbb4" using r5 by (simp add: cbb_room_def)
  from CBB_finish_at [OF this fin] have "take len out = e" by blast
  then show ?thesis using i s1 s2 s3 fin by (simp add: build_set_of_def e_def)
qed

text \<open>C7: A SET OF is encoded in one way, whatever order its elements were added in: after
  \<open>CBB_flush_asn1_set_of\<close> the finished bytes are the SET with the elements' encodings in ascending
  order, and two lists of the same elements give the same bytes.\<close>

theorem set_of_is_canonical:
  assumes "allocator_ok al" "\<And>k. al k \<noteq> None" "list_all is_element es" "length (concat es) \<le> 0xfffffffe"
  shows "(\<exists>es'. mset es' = mset es \<and> sorted es' \<and>
            build_set_of al es = Some (der_elem CBS_ASN1_SET (concat es'))) \<and>
         (\<forall>es'. mset es' = mset es \<longrightarrow> build_set_of al es' = build_set_of al es)"
proof (intro conjI allI impI)
  show "\<exists>es'. mset es' = mset es \<and> sorted es' \<and> build_set_of al es = Some (der_elem CBS_ASN1_SET (concat es'))"
    by (intro exI [of _ "sort es"]) (simp add: build_set_of_eq [OF assms])
next
  fix es'
  assume m: "mset es' = mset es"
  then have s: "sort es' = sort es" by (metis mset_sort properties_for_sort sorted_sort)
  from m have "set es' = set es" by (rule mset_eq_setD)
  then have e: "list_all is_element es'" using assms(3) by (simp add: list_all_iff)
  have "length (concat es') \<le> 0xfffffffe" using assms(4) concat_sort_length [of es] concat_sort_length [of es'] s by simp
  from build_set_of_eq [OF assms(1,2) e this] build_set_of_eq [OF assms] s
  show "build_set_of al es' = build_set_of al es" by simp
qed

theorem set_of_is_canonical_witness:
  "\<exists>al. build_set_of al [[2, 1, 9], [2, 1, 4]] = build_set_of al [[2, 1, 4], [2, 1, 9]] \<and>
     build_set_of al [[2, 1, 4], [2, 1, 9]] \<noteq> None"
proof -
  define al :: allocator where "al = (\<lambda>k. Some (replicate k 0))"
  have al: "allocator_ok al" "\<And>k. al k \<noteq> None" by (simp_all add: al_def allocator_ok_def)
  have "der_elem CBS_ASN1_INTEGER [9] = [2, 1, 9]" "der_elem CBS_ASN1_INTEGER [4] = [2, 1, 4]"
    by (code_simp, code_simp)
  moreover have "is_element (der_elem CBS_ASN1_INTEGER [b])" for b
    unfolding is_element_def by (intro exI [of _ CBS_ASN1_INTEGER] exI [of _ "[b]"]) simp
  ultimately have "is_element [2, 1, 9]" "is_element [2, 1, 4]" by metis+
  then have e: "list_all is_element [[2, 1, 4], [2, 1, 9]]" by simp
  have l: "length (concat [[2, 1, 4], [2, 1, 9 :: byte]]) \<le> 0xfffffffe" by simp
  have "mset [[2, 1, 9], [2, 1, 4]] = mset [[2, 1, 4], [2, 1, 9 :: byte]]" by simp
  with set_of_is_canonical [OF al e l] show ?thesis by blast
qed

end
