(* ===== verification/Unicode.thy ===== *)
theory Unicode
  imports CBB_Values
begin

text \<open>
  The character encodings of ASN.1 strings, \<open>crypto/bytestring/unicode.c\<close>: UTF-8, Latin-1, UCS-2 and
  UTF-32, big-endian, each with its reader over a \<open>CBS\<close> and its writer into a \<open>CBB\<close>. Readers accept
  the shortest form of valid code points only, which makes each pair a strict codec.
\<close>

section \<open>The code\<close>

definition is_valid_code_point :: "u32 \<Rightarrow> bool" where
  "is_valid_code_point v =
     (if v > 0x10ffff \<or> v AND 0xfffe = 0xfffe \<or> (v \<ge> 0xfdd0 \<and> v \<le> 0xfdef) \<or>
         (v \<ge> 0xd800 \<and> v \<le> 0xdfff)
      then False else True)"

definition BOTTOM_BITS :: "nat \<Rightarrow> byte" where
  "BOTTOM_BITS n = ucast (push_bit n 1 - 1 :: u32)"

definition TOP_BITS :: "nat \<Rightarrow> byte" where
  "TOP_BITS n = NOT (BOTTOM_BITS (8 - n))"

text \<open>The loop over the \<open>len\<close> continuation bytes.\<close>

fun utf8_continuation :: "nat \<Rightarrow> u32 \<Rightarrow> (cbs, u32) cop" where
  "utf8_continuation 0 v = c_ret v"
| "utf8_continuation (Suc len) v = c_bind CBS_get_u8 (\<lambda>c.
     if c AND TOP_BITS 2 \<noteq> TOP_BITS 1 then c_fail
     else utf8_continuation len (push_bit 6 v OR ucast (c AND BOTTOM_BITS 6)))"

definition cbs_get_utf8 :: "(cbs, u32) cop" where
  "cbs_get_utf8 = c_bind CBS_get_u8 (\<lambda>c.
     let sequence = (\<lambda>v len lower_bound.
       c_bind (utf8_continuation len v) (\<lambda>v.
         if \<not> is_valid_code_point v \<or> v < lower_bound then c_fail else c_ret v))
     in if c \<le> 0x7f then c_ret (ucast c)
        else if c AND TOP_BITS 3 = TOP_BITS 2 then sequence (ucast (c AND BOTTOM_BITS 5)) 1 0x80
        else if c AND TOP_BITS 4 = TOP_BITS 3 then sequence (ucast (c AND BOTTOM_BITS 4)) 2 0x800
        else if c AND TOP_BITS 5 = TOP_BITS 4 then sequence (ucast (c AND BOTTOM_BITS 3)) 3 0x10000
        else c_fail)"

definition cbs_get_latin1 :: "(cbs, u32) cop" where
  "cbs_get_latin1 = c_bind CBS_get_u8 (\<lambda>c. c_ret (ucast c))"

definition cbs_get_ucs2_be :: "(cbs, u32) cop" where
  "cbs_get_ucs2_be = c_bind CBS_get_u16 (\<lambda>c.
     if \<not> is_valid_code_point (ucast c) then c_fail else c_ret (ucast c))"

definition cbs_get_utf32_be :: "(cbs, u32) cop" where
  "cbs_get_utf32_be = c_bind CBS_get_u32 (\<lambda>c. if is_valid_code_point c then c_ret c else c_fail)"

definition cbb_get_utf8_len :: "u32 \<Rightarrow> nat" where
  "cbb_get_utf8_len u = (if u \<le> 0x7f then 1 else if u \<le> 0x7ff then 2 else if u \<le> 0xffff then 3 else 4)"

definition cbb_add_utf8 :: "cbb_ref \<Rightarrow> u32 \<Rightarrow> (cbb, unit) cop" where
  "cbb_add_utf8 p u =
     (let low = (\<lambda>n. CBB_add_u8 p (TOP_BITS 1 OR ucast (drop_bit n u AND ucast (BOTTOM_BITS 6))))
      in if \<not> is_valid_code_point u then c_fail
         else if u \<le> 0x7f then CBB_add_u8 p (ucast u)
         else if u \<le> 0x7ff then
           c_seq (CBB_add_u8 p (ucast (ucast (TOP_BITS 2) OR drop_bit 6 u))) (low 0)
         else if u \<le> 0xffff then
           c_seq (CBB_add_u8 p (ucast (ucast (TOP_BITS 3) OR drop_bit 12 u))) (c_seq (low 6) (low 0))
         else if u \<le> 0x10ffff then
           c_seq (CBB_add_u8 p (ucast (ucast (TOP_BITS 4) OR drop_bit 18 u)))
             (c_seq (low 12) (c_seq (low 6) (low 0)))
         else c_fail)"

definition cbb_add_latin1 :: "cbb_ref \<Rightarrow> u32 \<Rightarrow> (cbb, unit) cop" where
  "cbb_add_latin1 p u = (if u \<le> 0xff then CBB_add_u8 p (ucast u) else c_fail)"

definition cbb_add_ucs2_be :: "cbb_ref \<Rightarrow> u32 \<Rightarrow> (cbb, unit) cop" where
  "cbb_add_ucs2_be p u = (if u \<le> 0xffff \<and> is_valid_code_point u then CBB_add_u16 p (ucast u) else c_fail)"

definition cbb_add_utf32_be :: "cbb_ref \<Rightarrow> u32 \<Rightarrow> (cbb, unit) cop" where
  "cbb_add_utf32_be p u = (if is_valid_code_point u then CBB_add_u32 p u else c_fail)"

section \<open>UTF-8\<close>

text \<open>RFC 3629: a leading byte with the length in its top bits, then six bits a byte.\<close>

fun tail64 :: "nat \<Rightarrow> nat \<Rightarrow> bytes" where
  "tail64 0 n = []"
| "tail64 (Suc k) n = tail64 k (n div 64) @ [word_of_nat (128 + n mod 64)]"

definition utf8 :: "nat \<Rightarrow> bytes" where
  "utf8 n =
     (if n < 0x80 then [word_of_nat n]
      else if n < 0x800 then word_of_nat (192 + n div 64) # tail64 1 n
      else if n < 0x10000 then word_of_nat (224 + n div 64 ^ 2) # tail64 2 n
      else word_of_nat (240 + n div 64 ^ 3) # tail64 3 n)"

lemma valid_code_point_le: "is_valid_code_point v \<Longrightarrow> unat v \<le> 0x10ffff"
  by (auto simp: is_valid_code_point_def word_less_nat_alt split: if_splits)

lemma bits_consts: "TOP_BITS (Suc 0) = 0x80" "BOTTOM_BITS 3 = 7" "BOTTOM_BITS 4 = 15" "BOTTOM_BITS 5 = 31" "BOTTOM_BITS 6 = 63"
  "TOP_BITS 1 = 0x80" "TOP_BITS 2 = 0xc0" "TOP_BITS 3 = 0xe0" "TOP_BITS 4 = 0xf0" "TOP_BITS 5 = 0xf8"
  by (simp_all add: BOTTOM_BITS_def TOP_BITS_def push_bit_eq_mult)

lemma and_top_bits: "n \<le> 8 \<Longrightarrow> unat ((c :: byte) AND NOT (mask n)) = unat c div 2 ^ n * 2 ^ n"
proof -
  assume n: "n \<le> 8"
  have e: "c AND NOT (mask n) = push_bit n (drop_bit n c)"
    by (rule bit_eqI) (auto simp: bit_simps not_le)
  have "unat (drop_bit n c) * 2 ^ n \<le> unat c" by (simp add: unat_drop_bit_div)
  then have "unat (drop_bit n c) * 2 ^ n < 256" using unat_byte_lt by (rule le_less_trans)
  then show ?thesis unfolding e by (subst unat_push_bit_small) (simp_all add: unat_drop_bit_div)
qed

lemma top_bits_eq_iff:
  "n \<le> 8 \<Longrightarrow> unat w = q * 2 ^ n \<Longrightarrow> (c :: byte) AND NOT (mask n) = w \<longleftrightarrow> unat c div 2 ^ n = q"
  by (simp add: word_unat_eq_iff and_top_bits)

lemma top_bits_iff:
  fixes c :: byte
  shows "c AND 0xc0 = 0x80 \<longleftrightarrow> unat c div 64 = 2" "c AND 0xe0 = 0xc0 \<longleftrightarrow> unat c div 32 = 6"
    "c AND 0xf0 = 0xe0 \<longleftrightarrow> unat c div 16 = 14" "c AND 0xf8 = 0xf0 \<longleftrightarrow> unat c div 8 = 30"
proof -
  have m: "(0xc0 :: byte) = NOT (mask 6)" "(0xe0 :: byte) = NOT (mask 5)" "(0xf0 :: byte) = NOT (mask 4)"
    "(0xf8 :: byte) = NOT (mask 3)" by code_simp+
  show "c AND 0xc0 = 0x80 \<longleftrightarrow> unat c div 64 = 2"
    unfolding m(1) using top_bits_eq_iff [of 6 "0x80" 2 c] by simp
  show "c AND 0xe0 = 0xc0 \<longleftrightarrow> unat c div 32 = 6"
    using top_bits_eq_iff [of 5 "0xc0" 6 c] by (subst m(2)) simp
  show "c AND 0xf0 = 0xe0 \<longleftrightarrow> unat c div 16 = 14"
    using top_bits_eq_iff [of 4 "0xe0" 14 c] by (subst m(3)) simp
  show "c AND 0xf8 = 0xf0 \<longleftrightarrow> unat c div 8 = 30"
    using top_bits_eq_iff [of 3 "0xf0" 30 c] by (subst m(4)) simp
qed

lemma length_tail64 [simp]: "length (tail64 k n) = k"
  by (induction k arbitrary: n) simp_all

definition value64 :: "nat \<Rightarrow> bytes \<Rightarrow> nat" where
  "value64 = foldl (\<lambda>v c. v * 64 + unat c mod 64)"

lemma multiple_add: "x < m \<Longrightarrow> (k * m + x) div m = k \<and> (k * m + x) mod m = (x :: nat)"
  by simp

lemma unat_tail_byte: "unat (word_of_nat (128 + n mod 64) :: byte) = 128 + n mod 64"
proof -
  have "128 + n mod 64 < 256" using mod_less_divisor [of 64 n] by linarith
  then show ?thesis by (simp only: unat_byte_of_nat mod_less)
qed

lemma value64_tail64: "value64 (n div 64 ^ k) (tail64 k n) = n"
proof (induction k arbitrary: n)
  case (Suc k)
  have "value64 (n div 64 div 64 ^ k) (tail64 k (n div 64)) = n div 64" by (rule Suc)
  then have "value64 (n div 64 ^ Suc k) (tail64 k (n div 64)) = n div 64" by (simp add: div_mult2_eq)
  moreover have "(128 + n mod 64) mod 64 = n mod 64" using multiple_add [of "n mod 64" 64 2] by simp
  ultimately show ?case by (simp add: value64_def unat_tail_byte del: of_nat_add)
qed (simp add: value64_def)

lemma tail64_top: "\<forall>c\<in>set (tail64 k n). unat c div 64 = 2"
  by (induction k arbitrary: n) (auto simp: unat_tail_byte simp del: of_nat_add)

lemma tail64_value64:
  "\<forall>c\<in>set bs. unat c div 64 = 2 \<Longrightarrow>
     value64 m bs div 64 ^ length bs = m \<and> tail64 (length bs) (value64 m bs) = bs"
proof (induction bs rule: rev_induct)
  case (snoc c bs)
  let ?v = "value64 m bs"
  have v: "value64 m (bs @ [c]) = ?v * 64 + unat c mod 64" by (simp add: value64_def)
  have "unat c = 128 + unat c mod 64" using snoc.prems div_mult_mod_eq [of "unat c" 64] by simp
  then have "word_of_nat (128 + (?v * 64 + unat c mod 64) mod 64) = c"
    by (metis mod_mult_self3 mod_mod_trivial word_of_nat_unat_eq)
  moreover have "(?v * 64 + unat c mod 64) div 64 = ?v" by simp
  ultimately show ?case using snoc by (simp add: v div_mult2_eq del: of_nat_add)
qed (simp add: value64_def)

lemma continuation_step:
  assumes "(unat (v :: u32) + 1) * 64 ^ Suc n \<le> 2 ^ 32"
  shows "unat (push_bit 6 v OR ucast (c AND 63 :: byte)) = unat v * 64 + unat c mod 64"
    "(unat (push_bit 6 v OR ucast (c AND 63 :: byte)) + 1) * 64 ^ n \<le> 2 ^ 32"
proof -
  have c: "unat (ucast (c AND 63 :: byte) :: u32) = unat c mod 64"
    by (simp add: unat_ucast_up word_and_63 unat_and_mask)
  have b: "(unat v + 1) * 64 * 64 ^ n \<le> 2 ^ 32" using assms by (simp add: algebra_simps)
  have "(unat v + 1) * 64 * 1 \<le> (unat v + 1) * 64 * 64 ^ n" by (intro mult_le_mono2) simp
  with b have "(unat v + 1) * 64 \<le> 2 ^ 32" by linarith
  then have "unat v * 2 ^ 6 < 2 ^ LENGTH(32)" by simp
  with c show e: "unat (push_bit 6 v OR ucast (c AND 63 :: byte)) = unat v * 64 + unat c mod 64"
    by (subst unat_push_or) simp_all
  have "(unat v * 64 + unat c mod 64 + 1) * 64 ^ n \<le> (unat v + 1) * 64 * 64 ^ n"
    using mod_less_divisor [of 64 "unat c"] by (intro mult_le_mono1) simp
  with b show "(unat (push_bit 6 v OR ucast (c AND 63 :: byte)) + 1) * 64 ^ n \<le> 2 ^ 32"
    unfolding e by linarith
qed

lemma utf8_continuation_eq_Some:
  "(unat v + 1) * 64 ^ n \<le> 2 ^ 32 \<Longrightarrow> utf8_continuation n v s = (Some w, t) \<longleftrightarrow>
     (\<exists>bs. length bs = n \<and> (\<forall>c\<in>set bs. unat c div 64 = 2) \<and> s = bs @ t \<and> unat w = value64 (unat v) bs)"
proof (induction n arbitrary: v s)
  case 0
  show ?case by (auto simp: value64_def word_unat_eq_iff)
next
  case (Suc n)
  show ?case
  proof (cases s)
    case Nil
    then show ?thesis by auto
  next
    case (Cons c s')
    let ?v = "push_bit 6 v OR ucast (c AND 63)"
    have top: "c AND 192 = 128 \<longleftrightarrow> unat c div 64 = 2" by (rule top_bits_iff)
    have step: "utf8_continuation (Suc n) v s =
        (if unat c div 64 = 2 then utf8_continuation n ?v s' else (None, s'))"
      using top by (simp add: Cons bits_consts)
    have IH: "utf8_continuation n ?v s' = (Some w, t) \<longleftrightarrow>
        (\<exists>bs. length bs = n \<and> (\<forall>c\<in>set bs. unat c div 64 = 2) \<and> s' = bs @ t \<and>
           unat w = value64 (unat v * 64 + unat c mod 64) bs)"
      using Suc.IH [OF continuation_step(2) [OF Suc.prems]] unfolding continuation_step(1) [OF Suc.prems] .
    show ?thesis
    proof
      assume "utf8_continuation (Suc n) v s = (Some w, t)"
      with step IH obtain bs where bs: "unat c div 64 = 2" "length bs = n" "\<forall>c\<in>set bs. unat c div 64 = 2"
        "s' = bs @ t" "unat w = value64 (unat v * 64 + unat c mod 64) bs" by (auto split: if_splits)
      then show "\<exists>bs. length bs = Suc n \<and> (\<forall>c\<in>set bs. unat c div 64 = 2) \<and> s = bs @ t \<and> unat w = value64 (unat v) bs"
        using Cons by (intro exI [of _ "c # bs"]) (simp add: value64_def)
    next
      assume "\<exists>bs. length bs = Suc n \<and> (\<forall>c\<in>set bs. unat c div 64 = 2) \<and> s = bs @ t \<and> unat w = value64 (unat v) bs"
      then obtain bs where bs: "length bs = Suc n" "\<forall>c\<in>set bs. unat c div 64 = 2" "s = bs @ t"
        "unat w = value64 (unat v) bs" by blast
      then obtain bs' where "bs = c # bs'" using Cons by (cases bs) auto
      with bs Cons step IH show "utf8_continuation (Suc n) v s = (Some w, t)"
        by (auto simp: value64_def)
    qed
  qed
qed

text \<open>One of the three long forms, read and checked against its lower bound.\<close>

lemma utf8_sequence_eq_Some:
  assumes "(unat v + 1) * 64 ^ k \<le> 2 ^ 32"
  shows "c_bind (utf8_continuation k v) (\<lambda>v. if \<not> is_valid_code_point v \<or> v < lo then c_fail else c_ret v) s =
       (Some w, t) \<longleftrightarrow>
     is_valid_code_point w \<and> unat lo \<le> unat w \<and> unat w div 64 ^ k = unat v \<and> s = tail64 k (unat w) @ t"
proof -
  have "c_bind (utf8_continuation k v) (\<lambda>v. if \<not> is_valid_code_point v \<or> v < lo then c_fail else c_ret v) s =
       (Some w, t) \<longleftrightarrow> is_valid_code_point w \<and> unat lo \<le> unat w \<and> utf8_continuation k v s = (Some w, t)"
    by (auto simp: c_bind_eq_Some word_less_nat_alt not_less split: if_splits)
  moreover have "utf8_continuation k v s = (Some w, t) \<longleftrightarrow> unat w div 64 ^ k = unat v \<and> s = tail64 k (unat w) @ t"
    unfolding utf8_continuation_eq_Some [OF assms]
  proof
    assume "\<exists>bs. length bs = k \<and> (\<forall>c\<in>set bs. unat c div 64 = 2) \<and> s = bs @ t \<and> unat w = value64 (unat v) bs"
    then show "unat w div 64 ^ k = unat v \<and> s = tail64 k (unat w) @ t"
      using tail64_value64 by auto
  next
    assume a: "unat w div 64 ^ k = unat v \<and> s = tail64 k (unat w) @ t"
    then show "\<exists>bs. length bs = k \<and> (\<forall>c\<in>set bs. unat c div 64 = 2) \<and> s = bs @ t \<and> unat w = value64 (unat v) bs"
      using tail64_top [of k "unat w"] value64_tail64 [of "unat w" k] by (intro exI [of _ "tail64 k (unat w)"]) simp
  qed
  ultimately show ?thesis by blast
qed

lemma small_code_point_valid:
  assumes "unat v < 2 ^ 15"
  shows "is_valid_code_point v"
proof -
  have "v AND 0xfffe \<noteq> 0xfffe"
  proof
    assume "v AND 0xfffe = 0xfffe"
    moreover have "bit (0xfffe :: u32) 15" by simp
    ultimately have "bit v 15" by (metis bit_and_iff)
    then have "bit (unat v) 15" by (simp add: bit_unsigned_iff)
    then have "odd (unat v div 2 ^ 15)" by (simp add: bit_iff_odd)
    with assms show False by simp
  qed
  then show ?thesis using assms by (simp add: is_valid_code_point_def word_less_nat_alt word_le_nat_alt)
qed

text \<open>The cases on the leading byte, in numbers.\<close>

definition long_form :: "u32 \<Rightarrow> nat \<Rightarrow> u32 \<Rightarrow> (cbs, u32) cop" where
  "long_form v len lo = c_bind (utf8_continuation len v) (\<lambda>v.
     if \<not> is_valid_code_point v \<or> v < lo then c_fail else c_ret v)"

lemma cbs_get_utf8_Cons:
  "cbs_get_utf8 (c # s) =
     (if unat c < 128 then (Some (ucast c), s)
      else if unat c div 32 = 6 then long_form (ucast (c AND 31)) 1 0x80 s
      else if unat c div 16 = 14 then long_form (ucast (c AND 15)) 2 0x800 s
      else if unat c div 8 = 30 then long_form (ucast (c AND 7)) 3 0x10000 s
      else (None, s))"
proof -
  have "c \<le> 127 \<longleftrightarrow> unat c < 128" by (auto simp: word_le_nat_alt)
  then show ?thesis
    unfolding cbs_get_utf8_def Let_def long_form_def [symmetric] bits_consts top_bits_iff by simp
qed

lemma unat_low_bits: "unat (ucast (c AND 31 :: byte) :: u32) = unat c mod 32"
  "unat (ucast (c AND 15 :: byte) :: u32) = unat c mod 16" "unat (ucast (c AND 7 :: byte) :: u32) = unat c mod 8"
proof -
  have m: "(15 :: byte) = mask 4" "(7 :: byte) = mask 3" by (simp_all add: mask_eq_exp_minus_1)
  show "unat (ucast (c AND 31 :: byte) :: u32) = unat c mod 32"
    by (simp add: unat_ucast_up word_and_31 unat_and_mask)
  show "unat (ucast (c AND 15 :: byte) :: u32) = unat c mod 16"
    unfolding m by (simp add: unat_ucast_up unat_and_mask)
  show "unat (ucast (c AND 7 :: byte) :: u32) = unat c mod 8"
    unfolding m by (simp add: unat_ucast_up unat_and_mask)
qed

lemma long_form_eq_Some:
  fixes c :: byte
  shows "long_form (ucast (c AND 31)) 1 0x80 s = (Some w, t) \<longleftrightarrow>
     is_valid_code_point w \<and> 0x80 \<le> unat w \<and> unat w div 64 = unat c mod 32 \<and> s = tail64 1 (unat w) @ t"
  "long_form (ucast (c AND 15)) 2 0x800 s = (Some w, t) \<longleftrightarrow>
     is_valid_code_point w \<and> 0x800 \<le> unat w \<and> unat w div 64 ^ 2 = unat c mod 16 \<and> s = tail64 2 (unat w) @ t"
  "long_form (ucast (c AND 7)) 3 0x10000 s = (Some w, t) \<longleftrightarrow>
     is_valid_code_point w \<and> 0x10000 \<le> unat w \<and> unat w div 64 ^ 3 = unat c mod 8 \<and> s = tail64 3 (unat w) @ t"
proof -
  have "unat c mod 32 < 32" "unat c mod 16 < 16" "unat c mod 8 < 8" by simp_all
  then have b: "(unat (ucast (c AND 31 :: byte) :: u32) + 1) * 64 ^ 1 \<le> 2 ^ 32"
    "(unat (ucast (c AND 15 :: byte) :: u32) + 1) * 64 ^ 2 \<le> 2 ^ 32"
    "(unat (ucast (c AND 7 :: byte) :: u32) + 1) * 64 ^ 3 \<le> 2 ^ 32" unfolding unat_low_bits by simp_all
  show "long_form (ucast (c AND 31)) 1 0x80 s = (Some w, t) \<longleftrightarrow>
     is_valid_code_point w \<and> 0x80 \<le> unat w \<and> unat w div 64 = unat c mod 32 \<and> s = tail64 1 (unat w) @ t"
    unfolding long_form_def utf8_sequence_eq_Some [OF b(1)] unat_low_bits by simp
  show "long_form (ucast (c AND 15)) 2 0x800 s = (Some w, t) \<longleftrightarrow>
     is_valid_code_point w \<and> 0x800 \<le> unat w \<and> unat w div 64 ^ 2 = unat c mod 16 \<and> s = tail64 2 (unat w) @ t"
    unfolding long_form_def utf8_sequence_eq_Some [OF b(2)] unat_low_bits by simp
  show "long_form (ucast (c AND 7)) 3 0x10000 s = (Some w, t) \<longleftrightarrow>
     is_valid_code_point w \<and> 0x10000 \<le> unat w \<and> unat w div 64 ^ 3 = unat c mod 8 \<and> s = tail64 3 (unat w) @ t"
    unfolding long_form_def utf8_sequence_eq_Some [OF b(3)] unat_low_bits by simp
qed

lemma lead_byte: "unat (c :: byte) div m = q \<Longrightarrow> c = word_of_nat (q * m + unat c mod m)"
  by (rule word_of_nat_unat_eq) (metis div_mult_mod_eq)

lemma cbs_get_utf8_sound:
  assumes "cbs_get_utf8 s = (Some w, t)"
  shows "is_valid_code_point w \<and> s = utf8 (unat w) @ t"
proof (cases s)
  case Nil
  with assms show ?thesis by (simp add: cbs_get_utf8_def)
next
  case (Cons c s')
  note run = assms [unfolded Cons cbs_get_utf8_Cons]
  consider "unat c < 128" | "\<not> unat c < 128" "unat c div 32 = 6"
    | "\<not> unat c < 128" "unat c div 32 \<noteq> 6" "unat c div 16 = 14"
    | "\<not> unat c < 128" "unat c div 32 \<noteq> 6" "unat c div 16 \<noteq> 14" "unat c div 8 = 30"
    using run by (auto split: if_splits)
  then show ?thesis
  proof cases
    case 1
    with run have w: "w = ucast c" "t = s'" by simp_all
    then have "unat w = unat c" by (simp add: unat_ucast_up)
    with 1 w Cons show ?thesis by (simp add: utf8_def small_code_point_valid)
  next
    case 2
    with run have e: "is_valid_code_point w" "0x80 \<le> unat w" "unat w div 64 = unat c mod 32" "s' = tail64 1 (unat w) @ t"
      by (simp_all add: long_form_eq_Some del: One_nat_def)
    have "unat c mod 32 < 32" by simp
    with e(2,3) lead_byte [OF 2(2)] have "\<not> unat w < 128" "unat w < 0x800" "c = word_of_nat (192 + unat w div 64)" by simp_all
    with e Cons show ?thesis by (simp add: utf8_def)
  next
    case 3
    with run have e: "is_valid_code_point w" "0x800 \<le> unat w" "unat w div 64 ^ 2 = unat c mod 16" "s' = tail64 2 (unat w) @ t"
      by (simp_all add: long_form_eq_Some)
    have "unat c mod 16 < 16" by simp
    with e(2,3) lead_byte [OF 3(3)] have "\<not> unat w < 128" "\<not> unat w < 0x800" "unat w < 0x10000"
      "c = word_of_nat (224 + unat w div 64 ^ 2)" by simp_all
    with e Cons show ?thesis by (simp add: utf8_def)
  next
    case 4
    with run have e: "is_valid_code_point w" "0x10000 \<le> unat w" "unat w div 64 ^ 3 = unat c mod 8" "s' = tail64 3 (unat w) @ t"
      by (simp_all add: long_form_eq_Some)
    with lead_byte [OF 4(4)] have "\<not> unat w < 128" "\<not> unat w < 0x800" "\<not> unat w < 0x10000"
      "c = word_of_nat (240 + unat w div 64 ^ 3)" by simp_all
    with e Cons show ?thesis by (simp add: utf8_def)
  qed
qed

lemma lead_arith:
  "x < 32 \<Longrightarrow> (192 + x) div 32 = (6 :: nat) \<and> (192 + x) mod 32 = x"
  "x < 16 \<Longrightarrow> (224 + x) div 32 \<noteq> (6 :: nat) \<and> (224 + x) div 16 = 14 \<and> (224 + x) mod 16 = x"
  "x < 8 \<Longrightarrow> (240 + x) div 32 \<noteq> (6 :: nat) \<and> (240 + x) div 16 \<noteq> 14 \<and> (240 + x) div 8 = 30 \<and> (240 + x) mod 8 = x"
  using multiple_add [of x 32 6] multiple_add [of x 32 7] multiple_add [of x 16 14] multiple_add [of x 16 15]
    multiple_add [of "16 + x" 32 7] multiple_add [of x 8 30]
  by simp_all

lemma unat_lead: "n < 256 \<Longrightarrow> unat (word_of_nat n :: byte) = n"
  by (simp add: unat_byte_of_nat)

lemma cbs_get_utf8_complete:
  assumes "is_valid_code_point w"
  shows "cbs_get_utf8 (utf8 (unat w) @ t) = (Some w, t)"
proof -
  have le: "unat w \<le> 0x10ffff" by (rule valid_code_point_le [OF assms])
  consider "unat w < 0x80" | "0x80 \<le> unat w" "unat w < 0x800" | "0x800 \<le> unat w" "unat w < 0x10000"
    | "0x10000 \<le> unat w" by linarith
  then show ?thesis
  proof cases
    case 1
    then have "(ucast (word_of_nat (unat w) :: byte) :: u32) = w"
      by (simp add: word_unat_eq_iff unat_ucast_mod)
    with 1 show ?thesis by (simp only: utf8_def if_True append.simps cbs_get_utf8_Cons unat_lead)
  next
    case 2
    define c :: byte where "c = word_of_nat (192 + unat w div 64)"
    have x: "unat w div 64 < 32" using 2 by simp
    then have c: "unat c = 192 + unat w div 64" unfolding c_def by (intro unat_lead) simp
    have u: "utf8 (unat w) @ t = c # tail64 1 (unat w) @ t"
      using 2 unfolding c_def utf8_def by (simp only: not_less [symmetric] if_False if_True append.simps)
    have f: "unat c div 32 = 6" "unat c mod 32 = unat w div 64" "\<not> unat c < 128"
      unfolding c using lead_arith(1) [OF x] by simp_all
    show ?thesis
      unfolding u cbs_get_utf8_Cons if_not_P [OF f(3)] if_P [OF f(1)] long_form_eq_Some
      using 2 assms f(2) by simp
  next
    case 3
    define c :: byte where "c = word_of_nat (224 + unat w div 64 ^ 2)"
    have x: "unat w div 64 ^ 2 < 16" using 3 by simp
    then have c: "unat c = 224 + unat w div 64 ^ 2" unfolding c_def by (intro unat_lead) simp
    have u: "utf8 (unat w) @ t = c # tail64 2 (unat w) @ t"
    proof -
      have "\<not> unat w < 0x80" "\<not> unat w < 0x800" "unat w < 0x10000" using 3 by simp_all
      then show ?thesis unfolding c_def utf8_def by (simp only: if_False if_True append.simps)
    qed
    have f: "unat c div 32 \<noteq> 6" "unat c div 16 = 14" "unat c mod 16 = unat w div 64 ^ 2" "\<not> unat c < 128"
      unfolding c using lead_arith(2) [OF x] by simp_all
    show ?thesis
      unfolding u cbs_get_utf8_Cons if_not_P [OF f(4)] if_not_P [OF f(1)] if_P [OF f(2)] long_form_eq_Some
      using 3 assms f(3) by simp
  next
    case 4
    define c :: byte where "c = word_of_nat (240 + unat w div 64 ^ 3)"
    have x: "unat w div 64 ^ 3 < 8" using le by simp
    then have c: "unat c = 240 + unat w div 64 ^ 3" unfolding c_def by (intro unat_lead) simp
    have u: "utf8 (unat w) @ t = c # tail64 3 (unat w) @ t"
    proof -
      have "\<not> unat w < 0x80" "\<not> unat w < 0x800" "\<not> unat w < 0x10000" using 4 by simp_all
      then show ?thesis unfolding c_def utf8_def by (simp only: if_False append.simps)
    qed
    have f: "unat c div 32 \<noteq> 6" "unat c div 16 \<noteq> 14" "unat c div 8 = 30" "unat c mod 8 = unat w div 64 ^ 3"
      "\<not> unat c < 128"
      unfolding c using lead_arith(3) [OF x] by simp_all
    show ?thesis
      unfolding u cbs_get_utf8_Cons if_not_P [OF f(5)] if_not_P [OF f(1)] if_not_P [OF f(2)] if_P [OF f(3)] long_form_eq_Some
      using 4 assms f(4) by simp
  qed
qed

interpretation utf8_codec: seq_codec "\<lambda>u. utf8 (unat u)" cbs_get_utf8 is_valid_code_point
proof unfold_locales
  show "cbs_get_utf8 (utf8 (unat x) @ rest) = (Some x, rest)" if "is_valid_code_point x" for x rest
    using that by (rule cbs_get_utf8_complete)
  show "is_valid_code_point x \<and> s = utf8 (unat x) @ t" if "cbs_get_utf8 s = (Some x, t)" for s x t
    using that by (rule cbs_get_utf8_sound)
  show "utf8 (unat x) \<noteq> []" for x by (simp add: utf8_def)
qed

section \<open>The fixed-width encodings\<close>

lemma unat_small_word:
  assumes "unat u < 2 ^ LENGTH('b)"
  shows "ucast (ucast (u :: 'a::len word) :: 'b::len word) = u"
  using assms unat_less_pow [of u] by (simp add: word_unat_eq_iff unat_ucast_mod)

interpretation latin1_codec: seq_codec "\<lambda>u. [ucast u]" cbs_get_latin1 "\<lambda>u. u \<le> 0xff"
proof unfold_locales
  show "cbs_get_latin1 ([ucast x] @ rest) = (Some x, rest)" if "x \<le> 0xff" for x rest
    using that unat_small_word [of x, where 'b = 8] by (simp add: cbs_get_latin1_def word_le_nat_alt)
  show "x \<le> 0xff \<and> s = [ucast x] @ t" if "cbs_get_latin1 s = (Some x, t)" for s x t
  proof (cases s)
    case (Cons c s')
    with that have x: "x = ucast c" "t = s'" by (simp_all add: cbs_get_latin1_def)
    then have "unat x = unat c" by (simp add: unat_ucast_up)
    with x Cons show ?thesis by (simp add: word_le_nat_alt word_unat_eq_iff unat_ucast_mod)
  qed (use that in \<open>simp add: cbs_get_latin1_def\<close>)
qed simp

interpretation ucs2_codec: seq_codec "\<lambda>u. be_bytes 2 (unat u)" cbs_get_ucs2_be
  "\<lambda>u. u \<le> 0xffff \<and> is_valid_code_point u"
proof unfold_locales
  fix x :: u32 and rest
  assume v: "x \<le> 0xffff \<and> is_valid_code_point x"
  then have lt: "unat x < 2 ^ LENGTH(16)" by (simp add: word_le_nat_alt)
  then have "unat (ucast x :: u16) = unat x" by (simp add: unat_ucast_mod)
  with u16_codec.dec_enc [of "ucast x" rest] have "CBS_get_u16 (be_bytes 2 (unat x) @ rest) = (Some (ucast x), rest)"
    by simp
  with v unat_small_word [OF lt] show "cbs_get_ucs2_be (be_bytes 2 (unat x) @ rest) = (Some x, rest)"
    by (simp add: cbs_get_ucs2_be_def)
next
  fix s t :: bytes and x :: u32
  assume "cbs_get_ucs2_be s = (Some x, t)"
  then obtain c where c: "CBS_get_u16 s = (Some c, t)" "x = ucast c" "is_valid_code_point x"
    by (auto simp: cbs_get_ucs2_be_def c_bind_eq_Some split: if_splits)
  then have "unat x = unat c" by (simp add: unat_ucast_up)
  with u16_codec.canonical [OF c(1)] c(3) unat_less_pow [of c]
  show "(x \<le> 0xffff \<and> is_valid_code_point x) \<and> s = be_bytes 2 (unat x) @ t" by (simp add: word_le_nat_alt)
qed (metis length_be_bytes list.size(3) zero_neq_numeral)

interpretation utf32_codec: seq_codec "\<lambda>u. be_bytes 4 (unat u)" cbs_get_utf32_be is_valid_code_point
proof unfold_locales
  show "cbs_get_utf32_be (be_bytes 4 (unat x) @ rest) = (Some x, rest)" if "is_valid_code_point x" for x rest
    using that u32_codec.dec_enc [of x rest] by (simp add: cbs_get_utf32_be_def)
  show "is_valid_code_point x \<and> s = be_bytes 4 (unat x) @ t" if "cbs_get_utf32_be s = (Some x, t)" for s x t
    using that by (auto simp: cbs_get_utf32_be_def c_bind_eq_Some dest: u32_codec.canonical split: if_splits)
qed (metis length_be_bytes list.size(3) zero_neq_numeral)

section \<open>Writing\<close>

lemma lead_or:
  assumes "unat (drop_bit m (u :: u32)) < 2 ^ k" "unat (v :: u32) * 2 ^ k + 2 ^ k \<le> 256"
  shows "ucast (push_bit k v OR drop_bit m u) = (word_of_nat (unat v * 2 ^ k + unat u div 2 ^ m) :: byte)"
proof (rule word_of_nat_unat_eq)
  have lt: "unat v * 2 ^ k + unat (drop_bit m u) < 256" using assms by linarith
  then have "unat (push_bit k v OR drop_bit m u) = unat v * 2 ^ k + unat (drop_bit m u)"
    using assms(1) by (intro unat_push_or) simp_all
  then show "unat (ucast (push_bit k v OR drop_bit m u) :: byte) = unat v * 2 ^ k + unat u div 2 ^ m"
    using lt by (simp add: unat_ucast_mod unat_drop_bit_div)
qed

lemma low_or: "TOP_BITS 1 OR ucast (drop_bit n (u :: u32) AND ucast (BOTTOM_BITS 6)) =
    word_of_nat (128 + unat u div 2 ^ n mod 64)"
proof (rule word_of_nat_unat_eq)
  have x: "unat (ucast (drop_bit n u AND 63) :: byte) = unat u div 2 ^ n mod 64"
    by (simp add: unat_ucast_mod word_and_63 unat_and_mask unat_drop_bit_div)
  have "unat (push_bit 6 2 OR ucast (drop_bit n u AND 63) :: byte) = unat (2 :: byte) * 2 ^ 6 + unat u div 2 ^ n mod 64"
    unfolding x [symmetric] by (rule unat_push_or) (simp_all add: x)
  then show "unat (TOP_BITS 1 OR ucast (drop_bit n u AND ucast (BOTTOM_BITS 6))) = 128 + unat u div 2 ^ n mod 64"
    by (simp add: bits_consts push_bit_eq_mult)
qed

lemma puts_low: "puts a (CBB_add_u8 p (TOP_BITS 1 OR ucast (drop_bit n u AND ucast (BOTTOM_BITS 6)))) p
    [word_of_nat (128 + unat (u :: u32) div 2 ^ n mod 64)]"
  unfolding low_or by (rule puts_u8)

lemma add_utf8_valid: "cbb_add_utf8 p u cbb = (Some x, cbb') \<Longrightarrow> is_valid_code_point u"
  by (auto simp: cbb_add_utf8_def split: if_splits)

lemma tail64_23: "tail64 2 n = [word_of_nat (128 + n div 64 mod 64), word_of_nat (128 + n mod 64)]"
  "tail64 3 n = [word_of_nat (128 + n div 4096 mod 64), word_of_nat (128 + n div 64 mod 64), word_of_nat (128 + n mod 64)]"
  by (simp_all add: numeral_2_eq_2 numeral_3_eq_3 div_mult2_eq [symmetric] del: of_nat_add)

lemma utf8_forms:
  "n < 0x80 \<Longrightarrow> utf8 n = [word_of_nat n]"
  "0x80 \<le> n \<Longrightarrow> n < 0x800 \<Longrightarrow> utf8 n = [word_of_nat (192 + n div 2 ^ 6), word_of_nat (128 + n div 2 ^ 0 mod 64)]"
  "0x800 \<le> n \<Longrightarrow> n < 0x10000 \<Longrightarrow> utf8 n =
     [word_of_nat (224 + n div 2 ^ 12), word_of_nat (128 + n div 2 ^ 6 mod 64), word_of_nat (128 + n div 2 ^ 0 mod 64)]"
  "0x10000 \<le> n \<Longrightarrow> utf8 n =
     [word_of_nat (240 + n div 2 ^ 18), word_of_nat (128 + n div 2 ^ 12 mod 64), word_of_nat (128 + n div 2 ^ 6 mod 64),
      word_of_nat (128 + n div 2 ^ 0 mod 64)]"
  by (simp_all add: utf8_def tail64_23 del: of_nat_add)

lemma utf8_guards: "u \<le> 0x7f \<longleftrightarrow> unat (u :: u32) < 0x80" "u \<le> 0x7ff \<longleftrightarrow> unat u < 0x800"
  "u \<le> 0xffff \<longleftrightarrow> unat u < 0x10000" "u \<le> 0x10ffff \<longleftrightarrow> unat u \<le> 0x10ffff"
  by (auto simp: word_le_nat_alt)

lemma puts_lead:
  assumes "unat (u :: u32) div 2 ^ m < 2 ^ k" "unat (v :: u32) * 2 ^ k + 2 ^ k \<le> 256" "ucast (TOP_BITS j) = push_bit k v"
  shows "puts a (CBB_add_u8 p (ucast (ucast (TOP_BITS j) OR drop_bit m u))) p
    [word_of_nat (unat v * 2 ^ k + unat u div 2 ^ m)]"
proof -
  have "ucast (push_bit k v OR drop_bit m u) = (word_of_nat (unat v * 2 ^ k + unat u div 2 ^ m) :: byte)"
    using assms(1,2) by (intro lead_or) (simp_all only: unat_drop_bit_div)
  then show ?thesis unfolding assms(3) by (simp only: puts_u8)
qed

lemma puts_utf8:
  assumes "is_valid_code_point u"
  shows "puts a (cbb_add_utf8 p u) p (utf8 (unat u))"
proof -
  have le: "unat u \<le> 0x10ffff" by (rule valid_code_point_le [OF assms])
  have v: "\<not> \<not> is_valid_code_point u" using assms by simp
  note add = cbb_add_utf8_def Let_def if_not_P [OF v]
  consider "unat u < 0x80" | "0x80 \<le> unat u" "unat u < 0x800" | "0x800 \<le> unat u" "unat u < 0x10000"
    | "0x10000 \<le> unat u" by linarith
  then show ?thesis
  proof cases
    case 1
    then have g: "u \<le> 0x7f" by (simp only: utf8_guards)
    have "puts a (CBB_add_u8 p (ucast u)) p [word_of_nat (unat u)]"
      using puts_u8 [of a p "ucast u"] by simp
    then show ?thesis unfolding add if_P [OF g] utf8_forms(1) [OF 1] .
  next
    case 2
    then have g: "\<not> u \<le> 0x7f" "u \<le> 0x7ff" unfolding utf8_guards by simp_all
    have "unat u div 2 ^ 6 < 2 ^ 5" using 2 by simp
    from puts_lead [OF this, of 6 2 a p] have
      "puts a (CBB_add_u8 p (ucast (ucast (TOP_BITS 2) OR drop_bit 6 u))) p [word_of_nat (192 + unat u div 2 ^ 6)]"
      by (simp add: bits_consts push_bit_eq_mult)
    from puts_seq [OF this puts_low [of a p 0 u]] show ?thesis
      unfolding add if_not_P [OF g(1)] if_P [OF g(2)] utf8_forms(2) [OF 2] by simp
  next
    case 3
    then have g: "\<not> u \<le> 0x7f" "\<not> u \<le> 0x7ff" "u \<le> 0xffff" unfolding utf8_guards by simp_all
    have "unat u div 2 ^ 12 < 2 ^ 4" using 3 by simp
    from puts_lead [OF this, of 14 3 a p] have
      "puts a (CBB_add_u8 p (ucast (ucast (TOP_BITS 3) OR drop_bit 12 u))) p [word_of_nat (224 + unat u div 2 ^ 12)]"
      by (simp add: bits_consts push_bit_eq_mult)
    from puts_seq [OF this puts_seq [OF puts_low [of a p 6 u] puts_low [of a p 0 u]]] show ?thesis
      unfolding add if_not_P [OF g(1)] if_not_P [OF g(2)] if_P [OF g(3)] utf8_forms(3) [OF 3] by simp
  next
    case 4
    then have g: "\<not> u \<le> 0x7f" "\<not> u \<le> 0x7ff" "\<not> u \<le> 0xffff" "u \<le> 0x10ffff"
      unfolding utf8_guards using le by simp_all
    have "unat u div 2 ^ 18 < 2 ^ 3" using le by simp
    from puts_lead [OF this, of 30 4 a p] have
      "puts a (CBB_add_u8 p (ucast (ucast (TOP_BITS 4) OR drop_bit 18 u))) p [word_of_nat (240 + unat u div 2 ^ 18)]"
      by (simp add: bits_consts push_bit_eq_mult)
    from puts_seq [OF this puts_seq [OF puts_low [of a p 12 u] puts_seq [OF puts_low [of a p 6 u] puts_low [of a p 0 u]]]]
    show ?thesis
      unfolding add if_not_P [OF g(1)] if_not_P [OF g(2)] if_not_P [OF g(3)] if_P [OF g(4)] utf8_forms(4) [OF 4] by simp
  qed
qed

lemma utf8_len: "is_valid_code_point u \<Longrightarrow> cbb_get_utf8_len u = length (utf8 (unat u))"
  by (auto simp: cbb_get_utf8_len_def utf8_def word_le_nat_alt)

lemma add_latin1_valid: "cbb_add_latin1 p u cbb = (Some x, cbb') \<Longrightarrow> u \<le> 0xff"
  by (auto simp: cbb_add_latin1_def split: if_splits)

lemma add_ucs2_valid: "cbb_add_ucs2_be p u cbb = (Some x, cbb') \<Longrightarrow> u \<le> 0xffff \<and> is_valid_code_point u"
  by (auto simp: cbb_add_ucs2_be_def split: if_splits)

lemma add_utf32_valid: "cbb_add_utf32_be p u cbb = (Some x, cbb') \<Longrightarrow> is_valid_code_point u"
  by (auto simp: cbb_add_utf32_be_def split: if_splits)

text \<open>Each of the four is a builder and a reader of the same characters.\<close>

interpretation utf8_built: built_codec "\<lambda>u. utf8 (unat u)" cbs_get_utf8 is_valid_code_point "\<lambda>p a. cbb_add_utf8 p"
  by unfold_locales (rule puts_utf8)

interpretation latin1_built: built_codec "\<lambda>u. [ucast u]" cbs_get_latin1 "\<lambda>u. u \<le> 0xff" "\<lambda>p a. cbb_add_latin1 p"
  by unfold_locales (simp add: cbb_add_latin1_def puts_u8)

interpretation ucs2_built: built_codec "\<lambda>u. be_bytes 2 (unat u)" cbs_get_ucs2_be
  "\<lambda>u. u \<le> 0xffff \<and> is_valid_code_point u" "\<lambda>p a. cbb_add_ucs2_be p"
proof unfold_locales
  show "puts a (cbb_add_ucs2_be p u) p (be_bytes 2 (unat u))" if "u \<le> 0xffff \<and> is_valid_code_point u" for a p u
  proof -
    have "unat (ucast u :: u16) = unat u" using that by (simp add: unat_ucast_mod word_le_nat_alt)
    with puts_appends [OF appends_u16 [of p "ucast u"], of a] that show ?thesis by (simp add: cbb_add_ucs2_be_def)
  qed
qed

interpretation utf32_built: built_codec "\<lambda>u. be_bytes 4 (unat u)" cbs_get_utf32_be is_valid_code_point
  "\<lambda>p a. cbb_add_utf32_be p"
  by unfold_locales (simp add: cbb_add_utf32_be_def puts_appends [OF appends_u32])

section \<open>Transcoding\<close>

text \<open>The loop of the string functions built on these: read a character, write it.\<close>

lemma each_valid:
  assumes "\<And>x cbb u cbb'. add x cbb = (Some (u :: unit), cbb') \<Longrightarrow> valid x" "c_each add xs cbb = (Some v, cbb')"
  shows "list_all valid xs"
  using assms(2) by (induction xs arbitrary: cbb) (auto simp: c_seq_eq_Some dest: assms(1))

text \<open>C8: UTF-8 text. Whatever characters were added to a fresh builder with \<open>cbb_add_utf8\<close>, if the
  calls succeeded then every character was a valid code point, the length is the sum of
  \<open>cbb_get_utf8_len\<close>, and reading with \<open>cbs_get_utf8\<close> gives exactly those characters. And a byte string
  that \<open>cbs_get_utf8\<close> reads to its end has no other reading and is the only encoding of what was read:
  overlong forms, surrogates and non-characters are rejected.\<close>

theorem utf8_text_roundtrip:
  assumes "allocator_ok al" "n < size_mod"
  shows "(\<forall>us cbb out len cbb'. CBB_init al n = (True, cbb) \<longrightarrow>
            c_seq (c_each (cbb_add_utf8 Top) us) (CBB_finish Top True) cbb = (Some (out, len), cbb') \<longrightarrow>
            list_all is_valid_code_point us \<and> len = sum_list (map cbb_get_utf8_len us) \<and>
            read_all cbs_get_utf8 (take len out) = Some us) \<and>
         (\<forall>s us. read_all cbs_get_utf8 s = Some us \<longleftrightarrow>
            list_all is_valid_code_point us \<and> s = concat (map (\<lambda>u. utf8 (unat u)) us))"
proof (intro conjI allI impI utf8_codec.read_all_eq_Some)
  fix us cbb out len cbb'
  assume i: "CBB_init al n = (True, cbb)"
    and r: "c_seq (c_each (cbb_add_utf8 Top) us) (CBB_finish Top True) cbb = (Some (out, len), cbb')"
  from r obtain u cbb1 where s: "c_each (cbb_add_utf8 Top) us cbb = (Some u, cbb1)"
    "CBB_finish Top True cbb1 = (Some (out, len), cbb')" by (auto simp: c_seq_eq_Some)
  show v: "list_all is_valid_code_point us" by (rule each_valid [OF add_utf8_valid s(1)])
  show "read_all cbs_get_utf8 (take len out) = Some us"
    by (rule utf8_built.built_reads_back [OF assms(1) i assms(2) v r])
  have "cbb_at Top [] [] cbb" using CBB_init_at [OF assms(1) i assms(2)] ..
  from puts_at [OF utf8_built.puts_all [OF v] this _ s(1)]
  have "cbb_at Top [] (concat (map (\<lambda>u. utf8 (unat u)) us)) cbb1" by simp
  from CBB_finish_at [OF this s(2)] have "len = length (concat (map (\<lambda>u. utf8 (unat u)) us))" by blast
  then show "len = sum_list (map cbb_get_utf8_len us)"
    using v by (induction us arbitrary: len) (simp_all add: utf8_len)
qed

theorem utf8_text_roundtrip_witness:
  "read_all cbs_get_utf8 [0x68, 0xc3, 0xa9, 0xe2, 0x82, 0xac, 0xf0, 0x9f, 0x93, 0xb7] =
     Some [0x68, 0xe9, 0x20ac, 0x1f4f7]"
proof -
  have "allocator_ok (\<lambda>k. Some (replicate k 0))" "8 < size_mod" by (simp_all add: allocator_ok_def size_mod_def)
  note t = utf8_text_roundtrip [OF this]
  have "list_all is_valid_code_point [0x68, 0xe9, 0x20ac, 0x1f4f7] \<and>
     [0x68, 0xc3, 0xa9, 0xe2, 0x82, 0xac, 0xf0, 0x9f, 0x93, 0xb7] =
       concat (map (\<lambda>u. utf8 (unat (u :: u32))) [0x68, 0xe9, 0x20ac, 0x1f4f7])"
    by (simp add: is_valid_code_point_def utf8_def tail64_23)
  with t show ?thesis by blast
qed

end
