(* ===== verification/BER.thy ===== *)
theory BER
  imports CBB_Values "HOL-Library.Code_Target_Nat"
begin

text \<open>
  BER to DER, \<open>crypto/bytestring/ber.c\<close>: a walk that looks for indefinite lengths and constructed
  strings, and a recursive conversion that rewrites them, reading through \<open>cbs.c\<close> and writing through
  \<open>cbb.c\<close>. Both recurse to a depth of \<open>kMaxDepth\<close>. The local variable \<open>out_contents_storage\<close> of the
  call at depth \<open>d\<close> has the address \<open>d\<close>.
\<close>

definition kMaxDepth :: nat where
  "kMaxDepth = 2048"

definition CBS_ASN1_BITSTRING :: u32 where "CBS_ASN1_BITSTRING = 0x3"
definition CBS_ASN1_UTF8STRING :: u32 where "CBS_ASN1_UTF8STRING = 0xc"
definition CBS_ASN1_NUMERICSTRING :: u32 where "CBS_ASN1_NUMERICSTRING = 0x12"
definition CBS_ASN1_PRINTABLESTRING :: u32 where "CBS_ASN1_PRINTABLESTRING = 0x13"
definition CBS_ASN1_T61STRING :: u32 where "CBS_ASN1_T61STRING = 0x14"
definition CBS_ASN1_VIDEOTEXSTRING :: u32 where "CBS_ASN1_VIDEOTEXSTRING = 0x15"
definition CBS_ASN1_IA5STRING :: u32 where "CBS_ASN1_IA5STRING = 0x16"
definition CBS_ASN1_GRAPHICSTRING :: u32 where "CBS_ASN1_GRAPHICSTRING = 0x19"
definition CBS_ASN1_VISIBLESTRING :: u32 where "CBS_ASN1_VISIBLESTRING = 0x1a"
definition CBS_ASN1_GENERALSTRING :: u32 where "CBS_ASN1_GENERALSTRING = 0x1b"
definition CBS_ASN1_UNIVERSALSTRING :: u32 where "CBS_ASN1_UNIVERSALSTRING = 0x1c"
definition CBS_ASN1_BMPSTRING :: u32 where "CBS_ASN1_BMPSTRING = 0x1e"

definition is_string_type :: "u32 \<Rightarrow> bool" where
  "is_string_type tag = (tag AND NOT CBS_ASN1_CONSTRUCTED \<in>
     {CBS_ASN1_BITSTRING, CBS_ASN1_OCTETSTRING, CBS_ASN1_UTF8STRING, CBS_ASN1_NUMERICSTRING,
      CBS_ASN1_PRINTABLESTRING, CBS_ASN1_T61STRING, CBS_ASN1_VIDEOTEXSTRING, CBS_ASN1_IA5STRING,
      CBS_ASN1_GRAPHICSTRING, CBS_ASN1_VISIBLESTRING, CBS_ASN1_GENERALSTRING,
      CBS_ASN1_UNIVERSALSTRING, CBS_ASN1_BMPSTRING})"

section \<open>The walk\<close>

lemma ber_element_parts:
  assumes "CBS_get_any_ber_asn1_element s = (Some (out, tag, hl), t)"
  shows "s = out @ t \<and> 0 < hl \<and> hl \<le> length out"
proof -
  from assms have e: "cbs_get_any_asn1_element True s = (Some (out, tag, hl), t)"
    by (simp add: CBS_get_any_ber_asn1_element_def)
  have "0 < der_hdr tag body \<and> der_hdr tag body \<le> length (der_elem tag body)" for body
    by (simp add: length_der_elem) (simp add: der_hdr_def)
  with cbs_element_canonical [OF e] show ?thesis by auto
qed

lemma ber_element_shrinks:
  "(Some e, t) = CBS_get_any_ber_asn1_element s \<Longrightarrow> length t < length s"
  "(Some e, t) = CBS_get_any_ber_asn1_element s \<Longrightarrow> (out, h) = e \<Longrightarrow> (tag, hl) = h \<Longrightarrow> length out - hl < length s"
  by (cases e; drule sym; auto dest!: ber_element_parts)+

text \<open>The loop of \<open>cbs_find_ber\<close> with the current \<open>*ber_found\<close>; a call at a greater depth starts by
  clearing it. The result is \<open>None\<close> for a return value of 0, else \<open>*ber_found\<close>.\<close>

function find_ber_loop :: "nat \<Rightarrow> bool \<Rightarrow> cbs \<Rightarrow> bool option" where
  "find_ber_loop depth ber_found s =
     (if CBS_len s > 0
      then (case CBS_get_any_ber_asn1_element s of
              (None, _) \<Rightarrow> None
            | (Some (element, tag, header_len), s) \<Rightarrow>
                if CBS_len element = header_len \<and> header_len > 0 \<and> CBS_data element ! (header_len - 1) = 0x80
                then Some True
                else if tag AND CBS_ASN1_CONSTRUCTED \<noteq> 0
                then (if is_string_type tag then Some True
                      else if header_len > CBS_len element \<or> depth + 1 > kMaxDepth then None
                      else (case find_ber_loop (depth + 1) False (drop header_len element) of
                              None \<Rightarrow> None
                            | Some found \<Rightarrow> find_ber_loop depth found s))
                else find_ber_loop depth ber_found s)
      else Some ber_found)"
  by pat_completeness auto
termination
  by (relation "measure (\<lambda>(depth, ber_found, s). length s)") (simp_all add: ber_element_shrinks)

declare find_ber_loop.simps [simp del]

definition cbs_find_ber :: "nat \<Rightarrow> cbs \<Rightarrow> bool option" where
  "cbs_find_ber depth orig_in =
     (if depth > kMaxDepth then None else find_ber_loop depth False (CBS_init (CBS_data orig_in) (CBS_len orig_in)))"

section \<open>The conversion\<close>

definition is_eoc :: "nat \<Rightarrow> cbs \<Rightarrow> bool" where
  "is_eoc header_len element \<longleftrightarrow>
     header_len = 2 \<and> CBS_len element = 2 \<and> OPENSSL_memcmp (CBS_data element) [0, 0] 2 = 0"

text \<open>The loop of \<open>cbs_convert_ber\<close>: an operation on the builder whose result is what is left of
  \<open>in\<close>. An indefinite-length element is read from \<open>in\<close> itself, a definite one from its contents.
  \<open>CBS_skip\<close> of a header that is longer than the element would be the failure of the last guard.\<close>

function convert_ber_loop :: "u32 \<Rightarrow> bool \<Rightarrow> nat \<Rightarrow> cbb_ref \<Rightarrow> cbs \<Rightarrow> (cbb, cbs) cop" where
  "convert_ber_loop string_tag looking_for_eoc depth p s cbb =
     (if CBS_len s > 0
      then (case CBS_get_any_ber_asn1_element s of
              (None, _) \<Rightarrow> (None, cbb)
            | (Some (element, tag, header_len), s) \<Rightarrow>
      if is_eoc header_len element then (if looking_for_eoc then Some s else None, cbb)
      else if string_tag \<noteq> 0 \<and> tag AND NOT CBS_ASN1_CONSTRUCTED \<noteq> string_tag then (None, cbb)
      else
        let is_string = (tag AND CBS_ASN1_CONSTRUCTED \<noteq> 0 \<and> is_string_type tag);
            out_tag = (if is_string then tag AND NOT CBS_ASN1_CONSTRUCTED else tag);
            child_string_tag = (if string_tag \<noteq> 0 then string_tag else if is_string then out_tag else 0);
            out_contents = (if string_tag \<noteq> 0 then p else Sub depth);
            indefinite = (CBS_len element = header_len \<and> header_len > 0 \<and> CBS_data element ! (header_len - 1) = 0x80)
        in case (if string_tag \<noteq> 0 then (Some (), cbb) else CBB_add_asn1 p depth out_tag cbb) of
             (None, cbb) \<Rightarrow> (None, cbb)
           | (Some _, cbb) \<Rightarrow>
          (case (if indefinite
                 then (if depth + 1 > kMaxDepth then (None, cbb)
                       else convert_ber_loop child_string_tag True (depth + 1) out_contents s cbb)
                 else if header_len > CBS_len element then (None, cbb)
                 else if tag AND CBS_ASN1_CONSTRUCTED \<noteq> 0
                 then (if depth + 1 > kMaxDepth then (None, cbb)
                       else case convert_ber_loop child_string_tag False (depth + 1) out_contents
                                   (drop header_len element) cbb of
                              (None, cbb) \<Rightarrow> (None, cbb)
                            | (Some _, cbb) \<Rightarrow> (Some s, cbb))
                 else (case CBB_add_bytes out_contents (drop header_len element) cbb of
                         (None, cbb) \<Rightarrow> (None, cbb)
                       | (Some _, cbb) \<Rightarrow> (Some s, cbb))) of
             (None, cbb) \<Rightarrow> (None, cbb)
           | (Some s, cbb) \<Rightarrow>
               (case CBB_flush p cbb of
                  (None, cbb) \<Rightarrow> (None, cbb)
                | (Some _, cbb) \<Rightarrow> convert_ber_loop string_tag looking_for_eoc depth p s cbb)))
      else (if looking_for_eoc then None else Some s, cbb))"
  by pat_completeness auto

lemma convert_ber_rest:
  "convert_ber_loop_dom (string_tag, eoc, depth, p, s, cbb) \<Longrightarrow>
   convert_ber_loop string_tag eoc depth p s cbb = (Some t, cbb') \<Longrightarrow> length t \<le> length s"
proof (induction string_tag eoc depth p s cbb arbitrary: t cbb' rule: convert_ber_loop.pinduct)
  case (1 string_tag eoc depth p s cbb)
  note run = "1.prems" [unfolded convert_ber_loop.psimps [OF "1.hyps"]]
  show ?case
  proof (cases "CBS_len s > 0")
    case False
    with run show ?thesis by (simp split: if_splits)
  next
    case True
    then obtain element tag hl s1 where e: "CBS_get_any_ber_asn1_element s = (Some (element, tag, hl), s1)"
      using run by (auto split: prod.splits option.splits)
    then have le: "length s1 < length s" using ber_element_shrinks(1) [OF sym] by blast
    show ?thesis
    proof (cases "is_eoc hl element")
      case True
      with run e \<open>CBS_len s > 0\<close> le show ?thesis by (simp split: if_splits)
    next
      case False
      define isstr where "isstr = (tag AND CBS_ASN1_CONSTRUCTED \<noteq> 0 \<and> is_string_type tag)"
      define otag where "otag = (if isstr then tag AND NOT CBS_ASN1_CONSTRUCTED else tag)"
      define child where "child = (if string_tag \<noteq> 0 then string_tag else if isstr then otag else 0)"
      define q where "q = (if string_tag \<noteq> 0 then p else Sub depth)"
      define indef where
        "indef = (CBS_len element = hl \<and> 0 < hl \<and> CBS_data element ! (hl - 1) = 128)"
      define inner where "inner cbb = (if indef
                 then (if kMaxDepth < depth + 1 then (None, cbb)
                       else convert_ber_loop child True (depth + 1) q s1 cbb)
                 else if CBS_len element < hl then (None, cbb)
                 else if tag AND CBS_ASN1_CONSTRUCTED \<noteq> 0
                 then (if kMaxDepth < depth + 1 then (None, cbb)
                       else case convert_ber_loop child False (depth + 1) q (drop hl element) cbb of
                              (None, cbb) \<Rightarrow> (None, cbb)
                            | (Some _, cbb) \<Rightarrow> (Some s1, cbb))
                 else (case CBB_add_bytes q (drop hl element) cbb of
                         (None, cbb) \<Rightarrow> (None, cbb)
                       | (Some _, cbb) \<Rightarrow> (Some s1, cbb)))" for cbb
      from run True e False have m: "\<not> (string_tag \<noteq> 0 \<and> tag AND NOT CBS_ASN1_CONSTRUCTED \<noteq> string_tag)"
        by (auto split: if_splits)
      from run [unfolded if_P [OF True] e prod.case option.case if_not_P [OF False] if_not_P [OF m] Let_def,
          folded isstr_def, folded otag_def, folded child_def, folded q_def, folded indef_def, folded inner_def]
      obtain u cbb1 s2 cbb2 v cbb3 where
        o: "(if string_tag \<noteq> 0 then (Some (), cbb) else CBB_add_asn1 p depth otag cbb) = (Some u, cbb1)"
        and i: "inner cbb1 = (Some s2, cbb2)" and f: "CBB_flush p cbb2 = (Some v, cbb3)"
        and l: "convert_ber_loop string_tag eoc depth p s2 cbb3 = (Some t, cbb')"
        by (auto split: prod.splits option.splits)
      note IH = "1.IH" [OF True e [symmetric] refl refl refl False m isstr_def otag_def child_def q_def
          indef_def o [symmetric] refl]
      have "length s2 \<le> length s1"
      proof (cases indef)
        case True
        with i have "\<not> kMaxDepth < depth + 1" "convert_ber_loop child True (depth + 1) q s1 cbb1 = (Some s2, cbb2)"
          by (auto simp: inner_def split: if_splits)
        with IH(1) True show ?thesis by blast
      next
        case False
        with i have "s2 = s1" by (auto simp: inner_def split: if_splits prod.splits option.splits)
        then show ?thesis by simp
      qed
      moreover have "length t \<le> length s2"
        by (rule IH(3) [OF i [unfolded inner_def, symmetric] refl f [symmetric] refl l])
      ultimately show ?thesis using le by linarith
    qed
  qed
qed

termination convert_ber_loop
proof (relation "measure (\<lambda>(string_tag, eoc, depth, p, s, cbb). length s)", goal_cases)
  case (4 string_tag eoc depth p s cbb x s1 x2 element ya tag hl isstr otag child q indef xh cbb1 x2a xi cbb2 s2 xj cbb3 x2c)
  have le: "length s1 < length s" using ber_element_shrinks(1) 4(2,3) by blast
  have "length s2 \<le> length s1"
  proof (cases indef)
    case True
    with 4 have "convert_ber_loop child True (depth + 1) q s1 cbb1 = (Some s2, cbb2)"
      "convert_ber_loop_dom (child, True, depth + 1, q, s1, cbb1)" by (auto split: if_splits)
    then show ?thesis using convert_ber_rest by blast
  next
    case False
    with 4 have "s2 = s1" by (auto split: if_splits prod.splits option.splits)
    then show ?thesis by simp
  qed
  with le show ?case by simp
qed (simp_all add: ber_element_shrinks)

declare convert_ber_loop.simps [simp del]

definition cbs_convert_ber :: "u32 \<Rightarrow> bool \<Rightarrow> nat \<Rightarrow> cbb_ref \<Rightarrow> cbs \<Rightarrow> (cbb, cbs) cop" where
  "cbs_convert_ber string_tag looking_for_eoc depth p s =
     (if depth > kMaxDepth then c_fail else convert_ber_loop string_tag looking_for_eoc depth p s)"

text \<open>The results of \<open>CBS_asn1_ber_to_der\<close> are \<open>out\<close> and \<open>*out_storage\<close> (\<open>None\<close>: NULL), and the advanced
  \<open>in\<close>. On failure \<open>in\<close> is left where the conversion stopped; no caller looks at it then.\<close>

definition CBS_asn1_ber_to_der :: "allocator \<Rightarrow> (cbs, cbs \<times> bytes option) cop" where
  "CBS_asn1_ber_to_der alloc s =
     (case cbs_find_ber 0 s of
        None \<Rightarrow> (None, s)
      | Some conversion_needed \<Rightarrow>
          if \<not> conversion_needed
          then c_bind CBS_get_any_asn1_element (\<lambda>(out, tag, header_len). c_ret (out, None)) s
          else (case CBB_init alloc (CBS_len s) of
                  (False, _) \<Rightarrow> (None, s)
                | (True, cbb) \<Rightarrow>
               (case cbs_convert_ber 0 False 0 Top s cbb of
                  (None, _) \<Rightarrow> (None, s)
                | (Some s', cbb) \<Rightarrow>
               (case CBB_finish Top True cbb of
                  (None, _) \<Rightarrow> (None, s')
                | (Some (out_storage, len), _) \<Rightarrow>
                    (Some (CBS_init out_storage len, Some out_storage), s')))))"

text \<open>The loop over the chunks of a constructed string.\<close>

function implicit_chunks :: "u32 \<Rightarrow> cbs \<Rightarrow> (cbb, unit) cop" where
  "implicit_chunks inner_tag child result =
     (if CBS_len child > 0
      then (case CBS_get_asn1 inner_tag child of
              (None, _) \<Rightarrow> (None, result)
            | (Some chunk, child) \<Rightarrow>
                (case CBB_add_bytes Top chunk result of
                   (None, result) \<Rightarrow> (None, result)
                 | (Some _, result) \<Rightarrow> implicit_chunks inner_tag child result))
      else (Some (), result))"
  by pat_completeness auto
termination
proof (relation "measure (\<lambda>(inner_tag, child, result). length child)", goal_cases)
  case (2 inner_tag child result x child1 chunk)
  then have "CBS_get_asn1 inner_tag child = (Some chunk, child1)" by simp
  then have "child = der_elem inner_tag chunk @ child1" by (simp add: CBS_get_asn1_eq_Some)
  then show ?case by (cases "der_elem inner_tag chunk") simp_all
qed simp

declare implicit_chunks.simps [simp del]

definition CBS_get_asn1_implicit_string :: "allocator \<Rightarrow> u32 \<Rightarrow> u32 \<Rightarrow> (cbs, cbs \<times> bytes option) cop" where
  "CBS_get_asn1_implicit_string alloc outer_tag inner_tag s =
     (if CBS_peek_asn1_tag s outer_tag
      then c_bind (CBS_get_asn1 outer_tag) (\<lambda>out. c_ret (out, None)) s
      else (case CBB_init alloc (CBS_len s) of
              (False, _) \<Rightarrow> (None, s)
            | (True, result) \<Rightarrow>
           (case CBS_get_asn1 (outer_tag OR CBS_ASN1_CONSTRUCTED) s of
              (None, s) \<Rightarrow> (None, s)
            | (Some child, s) \<Rightarrow>
           (case c_seq (implicit_chunks inner_tag child) (CBB_finish Top True) result of
              (None, _) \<Rightarrow> (None, s)
            | (Some (data, len), _) \<Rightarrow> (Some (CBS_init data len, Some data), s)))))"

section \<open>BER values\<close>

text \<open>The values the parser reads in BER mode: lengths are minimal or, for constructed elements,
  indefinite. The second argument of \<open>Cons\<close> tells which.\<close>

datatype ber = Prim u32 bytes | Cons u32 bool "ber list"

fun ber_bytes :: "ber \<Rightarrow> bytes" and ber_bytes_all :: "ber list \<Rightarrow> bytes" where
  "ber_bytes (Prim tag body) = der_elem tag body"
| "ber_bytes (Cons tag indefinite xs) =
     (if indefinite then der_tag tag @ [0x80] @ ber_bytes_all xs @ [0, 0] else der_elem tag (ber_bytes_all xs))"
| "ber_bytes_all [] = []"
| "ber_bytes_all (x # xs) = ber_bytes x @ ber_bytes_all xs"

fun ber_ok :: "ber \<Rightarrow> bool" and ber_ok_all :: "ber list \<Rightarrow> bool" where
  "ber_ok (Prim tag body) \<longleftrightarrow>
     tag AND CBS_ASN1_CONSTRUCTED = 0 \<and> length body < 2 ^ 32 \<and> \<not> (tag = 0 \<and> body = [])"
| "ber_ok (Cons tag indefinite xs) \<longleftrightarrow>
     tag AND CBS_ASN1_CONSTRUCTED \<noteq> 0 \<and> ber_ok_all xs \<and> (indefinite \<or> length (ber_bytes_all xs) < 2 ^ 32)"
| "ber_ok_all [] \<longleftrightarrow> True"
| "ber_ok_all (x # xs) \<longleftrightarrow> ber_ok x \<and> ber_ok_all xs"

fun ber_height :: "ber \<Rightarrow> nat" and ber_height_all :: "ber list \<Rightarrow> nat" where
  "ber_height (Prim tag body) = 0"
| "ber_height (Cons tag indefinite xs) = Suc (ber_height_all xs)"
| "ber_height_all [] = 0"
| "ber_height_all (x # xs) = max (ber_height x) (ber_height_all xs)"

definition string_cons :: "u32 \<Rightarrow> bool" where
  "string_cons tag \<longleftrightarrow> tag AND CBS_ASN1_CONSTRUCTED \<noteq> 0 \<and> is_string_type tag"

definition primitive_tag :: "u32 \<Rightarrow> u32" where
  "primitive_tag tag = tag AND NOT CBS_ASN1_CONSTRUCTED"

definition der_wrap :: "u32 \<Rightarrow> bytes option \<Rightarrow> bytes option" where
  "der_wrap tag body =
     (case body of None \<Rightarrow> None | Some d \<Rightarrow> if length d \<le> 0xfffffffe then Some (der_elem tag d) else None)"

section \<open>The DER form of a value\<close>

text \<open>What X.690 makes of a BER value in DER: definite minimal lengths, and every string primitive. It is
  stated without the code. The fragments of a constructed string, at any depth, are BIT STRINGs in a BIT
  STRING; in the other strings they are OCTET STRINGs (X.690, 8.23), and fragments with the string's own
  tag are read as well. \<open>None\<close>: a fragment of another type.\<close>

definition fragment_tag :: "u32 \<Rightarrow> u32 \<Rightarrow> bool" where
  "fragment_tag st tag \<longleftrightarrow> tag = st \<or> tag = CBS_ASN1_OCTETSTRING \<and> st \<noteq> CBS_ASN1_BITSTRING"

fun string_parts :: "u32 \<Rightarrow> ber \<Rightarrow> bytes list option" and string_parts_all :: "u32 \<Rightarrow> ber list \<Rightarrow> bytes list option" where
  "string_parts st (Prim tag body) = (if fragment_tag st tag then Some [body] else None)"
| "string_parts st (Cons tag indefinite xs) =
     (if fragment_tag st (primitive_tag tag) then string_parts_all st xs else None)"
| "string_parts_all st [] = Some []"
| "string_parts_all st (x # xs) =
     (case (string_parts st x, string_parts_all st xs) of (Some d, Some e) \<Rightarrow> Some (d @ e) | _ \<Rightarrow> None)"

text \<open>The fragments of a BIT STRING begin with their number of unused bits, which only the last may
  have (X.690, 8.6.4); the joined string has one such octet, that of the last fragment.\<close>

fun join_bits :: "bytes list \<Rightarrow> bytes option" where
  "join_bits [] = Some [0]"
| "join_bits [f] = (if f = [] then None else Some f)"
| "join_bits (f # g # fs) =
     (case (f, join_bits (g # fs)) of
        (unused # bits, Some (u # rest)) \<Rightarrow> if unused = 0 then Some (u # bits @ rest) else None
      | _ \<Rightarrow> None)"

definition join_parts :: "u32 \<Rightarrow> bytes list \<Rightarrow> bytes option" where
  "join_parts st ps = (if st = CBS_ASN1_BITSTRING then join_bits ps else Some (concat ps))"

fun ber_der :: "ber \<Rightarrow> bytes option" and ber_der_all :: "ber list \<Rightarrow> bytes option" where
  "ber_der (Prim tag body) = der_wrap tag (Some body)"
| "ber_der (Cons tag indefinite xs) =
     (if string_cons tag
      then der_wrap (primitive_tag tag) (Option.bind (string_parts_all (primitive_tag tag) xs) (join_parts (primitive_tag tag)))
      else der_wrap tag (ber_der_all xs))"
| "ber_der_all [] = Some []"
| "ber_der_all (x # xs) = (case (ber_der x, ber_der_all xs) of (Some d, Some e) \<Rightarrow> Some (d @ e) | _ \<Rightarrow> None)"



section \<open>What the conversion writes\<close>

text \<open>Inside a constructed string (\<open>st\<close> is its tag, else 0) the conversion keeps the bodies as they
  are; \<open>None\<close> when a fragment has another tag or a length does not fit.\<close>

fun conv_der :: "u32 \<Rightarrow> ber \<Rightarrow> bytes option" and conv_der_all :: "u32 \<Rightarrow> ber list \<Rightarrow> bytes option" where
  "conv_der st (Prim tag body) =
     (if st = 0 then der_wrap tag (Some body) else if tag = st then Some body else None)"
| "conv_der st (Cons tag indefinite xs) =
     (if st = 0
      then if string_cons tag then der_wrap (primitive_tag tag) (conv_der_all (primitive_tag tag) xs)
           else der_wrap tag (conv_der_all 0 xs)
      else if primitive_tag tag = st then conv_der_all st xs else None)"
| "conv_der_all st [] = Some []"
| "conv_der_all st (x # xs) =
     (case (conv_der st x, conv_der_all st xs) of (Some d, Some e) \<Rightarrow> Some (d @ e) | _ \<Rightarrow> None)"

lemmas string_tag_defs = CBS_ASN1_BITSTRING_def CBS_ASN1_OCTETSTRING_def
  CBS_ASN1_UTF8STRING_def CBS_ASN1_NUMERICSTRING_def CBS_ASN1_PRINTABLESTRING_def CBS_ASN1_T61STRING_def
  CBS_ASN1_VIDEOTEXSTRING_def CBS_ASN1_IA5STRING_def CBS_ASN1_GRAPHICSTRING_def CBS_ASN1_VISIBLESTRING_def
  CBS_ASN1_GENERALSTRING_def CBS_ASN1_UNIVERSALSTRING_def CBS_ASN1_BMPSTRING_def





text \<open>The calls the conversion makes on the builder, as a function of the value.\<close>

fun emit :: "u32 \<Rightarrow> nat \<Rightarrow> cbb_ref \<Rightarrow> ber \<Rightarrow> (cbb, unit) cop"
  and emit_all :: "u32 \<Rightarrow> nat \<Rightarrow> cbb_ref \<Rightarrow> ber list \<Rightarrow> (cbb, unit) cop" where
  "emit st d p (Prim tag body) =
     (if st = 0 then c_seq (CBB_add_asn1 p d tag) (c_seq (CBB_add_bytes (Sub d) body) (CBB_flush p))
      else if tag = st then c_seq (CBB_add_bytes p body) (CBB_flush p) else c_fail)"
| "emit st d p (Cons tag indefinite xs) =
     (if st = 0
      then if string_cons tag
           then c_seq (CBB_add_asn1 p d (primitive_tag tag))
                  (c_seq (emit_all (primitive_tag tag) (Suc d) (Sub d) xs) (CBB_flush p))
           else c_seq (CBB_add_asn1 p d tag) (c_seq (emit_all 0 (Suc d) (Sub d) xs) (CBB_flush p))
      else if primitive_tag tag = st then c_seq (emit_all st (Suc d) p xs) (CBB_flush p) else c_fail)"
| "emit_all st d p [] = c_ret ()"
| "emit_all st d p (x # xs) = c_seq (emit st d p x) (emit_all st d p xs)"

lemma puts_emit:
  "ber_ok x \<Longrightarrow> conv_der st x = Some b \<Longrightarrow> puts d (emit st d p x) p b"
  "ber_ok_all xs \<Longrightarrow> conv_der_all st xs = Some b \<Longrightarrow> puts d (emit_all st d p xs) p b"
proof (induction st d p x and st d p xs arbitrary: b and b rule: emit_emit_all.induct)
  case (1 st d p tag body)
  have l: "length body < size_mod" using "1.prems" by (simp add: size_mod_def)
  show ?case
  proof (cases "st = 0")
    case True
    with "1.prems" have "length body \<le> 0xfffffffe" "b = der_elem tag body"
      by (auto simp: der_wrap_def split: if_splits)
    with True puts_elem [OF puts_bytes [OF l]] show ?thesis by simp
  next
    case False
    with "1.prems" have "tag = st" "b = body" by (auto split: if_splits)
    moreover have "puts d (c_seq (CBB_add_bytes p body) (CBB_flush p)) p (body @ [])"
      by (rule puts_seq [OF puts_bytes [OF l] puts_appends [OF appends_flush]])
    ultimately show ?thesis using False by simp
  qed
next
  case (2 st d p tag indefinite xs)
  show ?case
  proof (cases "st = 0")
    case True
    show ?thesis
    proof (cases "string_cons tag")
      case str: True
      with True "2.prems" obtain c where c: "conv_der_all (primitive_tag tag) xs = Some c" "length c \<le> 0xfffffffe"
        "b = der_elem (primitive_tag tag) c" by (auto simp: der_wrap_def split: option.splits if_splits)
      from puts_elem [OF "2.IH"(1) [OF True str _ c(1)] c(2), of p] True str c "2.prems" show ?thesis by simp
    next
      case str: False
      with True "2.prems" obtain c where c: "conv_der_all 0 xs = Some c" "length c \<le> 0xfffffffe"
        "b = der_elem tag c" by (auto simp: der_wrap_def split: option.splits if_splits)
      from puts_elem [OF "2.IH"(2) [OF True str _ c(1)] c(2), of p] True str c "2.prems" show ?thesis by simp
    qed
  next
    case False
    with "2.prems" have t: "primitive_tag tag = st" "conv_der_all st xs = Some b" by (auto split: if_splits)
    have "puts d (emit_all st (Suc d) p xs) p b"
      by (rule puts_mono [OF "2.IH"(3) [OF False t(1) _ t(2)]]) (use "2.prems" in simp_all)
    from puts_seq [OF this puts_appends [OF appends_flush]] False t show ?thesis by simp
  qed
next
  case (3 st d p)
  then show ?case by (simp add: puts_skip)
next
  case (4 st d p x xs)
  from "4.prems" obtain e f where e: "conv_der st x = Some e" "conv_der_all st xs = Some f" "b = e @ f"
    by (auto split: option.splits)
  from puts_seq [OF "4.IH"(1) [OF _ e(1)] "4.IH"(2) [OF _ e(2)]] e(3) "4.prems" show ?case by simp
qed

section \<open>Converting a value\<close>

lemma get_der_elem:
  "length body < 2 ^ 32 \<Longrightarrow>
     CBS_get_any_ber_asn1_element (der_elem tag body @ s) = (Some (der_elem tag body, tag, der_hdr tag body), s)"
  by (simp add: CBS_get_any_ber_asn1_element_def cbs_element_der_elem)

lemma get_indefinite:
  assumes "tag AND CBS_ASN1_CONSTRUCTED \<noteq> 0"
  shows "CBS_get_any_ber_asn1_element (der_tag tag @ 0x80 # s) =
     (Some (der_tag tag @ [0x80], tag, Suc (length (der_tag tag))), s)"
proof -
  have "parse_asn1_tag (der_tag tag @ 0x80 # s) = (Some tag, 0x80 # s)" by (rule parse_der_tag)
  from cbs_element_step [OF this] assms show ?thesis
    by (simp add: CBS_get_any_ber_asn1_element_def elem_at_def)
qed

lemma der_tag_zero: "der_tag 0 = [0]"
  by (simp add: der_tag_def)

lemma get_eoc: "CBS_get_any_ber_asn1_element (0 # 0 # s) = (Some ([0, 0], 0, 2), s)"
  using get_der_elem [of "[]" 0 s] by (simp add: der_elem_def der_tag_zero der_len_def der_hdr_def)

lemma is_eoc_iff: "is_eoc hl e \<longleftrightarrow> hl = 2 \<and> e = [0, 0]"
proof (cases "length e = 2")
  case True
  then show ?thesis using OPENSSL_memcmp_eq_0 [of 2 e "[0, 0]"] by (simp add: is_eoc_def CBS_len_def CBS_data_def)
qed (auto simp: is_eoc_def CBS_len_def)

lemma not_eoc_der_elem: "\<not> (tag = 0 \<and> body = []) \<Longrightarrow> \<not> is_eoc (der_hdr tag body) (der_elem tag body)"
proof
  assume n: "\<not> (tag = 0 \<and> body = [])" and "is_eoc (der_hdr tag body) (der_elem tag body)"
  then have h: "der_hdr tag body = 2" "der_elem tag body = [0, 0]" by (simp_all add: is_eoc_iff)
  with length_der_elem [of tag body] have b: "body = []" by simp
  with h have "der_tag tag @ [0] = der_tag 0 @ [0]" by (simp add: der_elem_def der_len_def der_tag_zero)
  with tag_codec.enc_inj [of tag 0] b n show False by simp
qed

lemma not_indefinite_der_elem:
  "\<not> (CBS_len (der_elem tag body) = der_hdr tag body \<and> 0 < der_hdr tag body \<and>
       CBS_data (der_elem tag body) ! (der_hdr tag body - 1) = 0x80)"
proof
  assume a: "CBS_len (der_elem tag body) = der_hdr tag body \<and> 0 < der_hdr tag body \<and>
       CBS_data (der_elem tag body) ! (der_hdr tag body - 1) = 0x80"
  then have b: "body = []" by (simp add: CBS_len_def length_der_elem)
  with a show False by (simp add: CBS_data_def der_elem_def der_hdr_def der_len_def nth_append)
qed

text \<open>One round of the loop on a definite element, and on an indefinite one.\<close>

lemma not_constructed_id: "tag AND CBS_ASN1_CONSTRUCTED = 0 \<Longrightarrow> tag AND NOT CBS_ASN1_CONSTRUCTED = tag"
proof (rule bit_eqI)
  fix n
  assume "tag AND CBS_ASN1_CONSTRUCTED = 0" and n: "possible_bit TYPE(32 word) n"
  then have "\<not> bit (tag AND CBS_ASN1_CONSTRUCTED) n" by simp
  with n show "bit (tag AND NOT CBS_ASN1_CONSTRUCTED) n = bit tag n" by (simp add: bit_simps) blast
qed

lemma der_elem_nonempty_len: "0 < CBS_len (der_elem tag body @ s)"
  by (cases "der_elem tag body") (simp_all add: CBS_len_def)

lemma constructed_nonzero: "tag AND CBS_ASN1_CONSTRUCTED \<noteq> 0 \<Longrightarrow> tag \<noteq> 0"
  by auto

text \<open>How a constructed element is opened: the tag its children are read with, and where they go.\<close>

definition child_tag :: "u32 \<Rightarrow> u32 \<Rightarrow> u32" where
  "child_tag st tag = (if st \<noteq> 0 then st else if string_cons tag then primitive_tag tag else 0)"

definition child_ref :: "u32 \<Rightarrow> nat \<Rightarrow> cbb_ref \<Rightarrow> cbb_ref" where
  "child_ref st d p = (if st \<noteq> 0 then p else Sub d)"

definition open_child :: "u32 \<Rightarrow> nat \<Rightarrow> cbb_ref \<Rightarrow> u32 \<Rightarrow> (cbb, unit) cop" where
  "open_child st d p tag =
     (if st \<noteq> 0 then (if primitive_tag tag \<noteq> st then c_fail else c_ret ())
      else CBB_add_asn1 p d (if string_cons tag then primitive_tag tag else tag))"

lemma c_assoc: "c_seq m (c_seq n k) = c_seq (c_seq m n) k"
  by (rule ext) (simp add: c_seq_apply split: prod.split option.split)

lemma c_bind_seq_ret: "c_bind (c_seq m (c_ret t)) k = c_seq m (k t)"
  by (rule ext) (simp add: c_seq_apply c_bind_apply split: prod.split option.split)

lemma c_seq_drop_ret: "c_seq (c_seq m (c_ret t)) k = c_seq m k"
  by (rule ext) (simp add: c_seq_apply split: prod.split option.split)

lemma c_seq_fail: "c_seq c_fail m = c_fail"
  by (rule ext) (simp add: c_seq_apply)

lemma c_seq_ret: "c_seq (c_ret x) m = m"
  by (rule ext) (simp add: c_seq_apply)

lemma emit_Cons:
  "emit st d p (Cons tag indefinite xs) =
     c_seq (open_child st d p tag) (c_seq (emit_all (child_tag st tag) (Suc d) (child_ref st d p) xs) (CBB_flush p))"
  by (simp add: open_child_def child_tag_def child_ref_def c_seq_fail c_seq_ret)

text \<open>What is done with the element between opening its child and the flush.\<close>

definition convert_contents :: "u32 \<Rightarrow> nat \<Rightarrow> cbb_ref \<Rightarrow> cbs \<Rightarrow> bytes \<Rightarrow> u32 \<Rightarrow> nat \<Rightarrow> (cbb, cbs) cop" where
  "convert_contents child d q s element tag header_len =
     (if CBS_len element = header_len \<and> header_len > 0 \<and> CBS_data element ! (header_len - 1) = 0x80
      then (if d + 1 > kMaxDepth then c_fail else convert_ber_loop child True (d + 1) q s)
      else if header_len > CBS_len element then c_fail
      else if tag AND CBS_ASN1_CONSTRUCTED \<noteq> 0
      then (if d + 1 > kMaxDepth then c_fail
            else c_seq (convert_ber_loop child False (d + 1) q (drop header_len element)) (c_ret s))
      else c_seq (CBB_add_bytes q (drop header_len element)) (c_ret s))"

lemma convert_contents_apply:
  "convert_contents child d q s element tag header_len cbb =
     (if CBS_len element = header_len \<and> header_len > 0 \<and> CBS_data element ! (header_len - 1) = 0x80
                 then (if d + 1 > kMaxDepth then (None, cbb)
                       else convert_ber_loop child True (d + 1) q s cbb)
                 else if header_len > CBS_len element then (None, cbb)
                 else if tag AND CBS_ASN1_CONSTRUCTED \<noteq> 0
                 then (if d + 1 > kMaxDepth then (None, cbb)
                       else case convert_ber_loop child False (d + 1) q (drop header_len element) cbb of
                              (None, cbb) \<Rightarrow> (None, cbb)
                            | (Some _, cbb) \<Rightarrow> (Some s, cbb))
                 else (case CBB_add_bytes q (drop header_len element) cbb of
                         (None, cbb) \<Rightarrow> (None, cbb)
                       | (Some _, cbb) \<Rightarrow> (Some s, cbb)))"
  unfolding convert_contents_def by (simp only: if_distribR c_seq_apply c_fail_apply c_ret_apply)

lemma nested_if: "(if b then if b then x else y else z) = (if b then x else z)"
  by simp

lemma convert_step:
  assumes l: "CBS_len s > 0" and e: "CBS_get_any_ber_asn1_element s = (Some (element, tag, header_len), s1)"
    and n: "\<not> is_eoc header_len element"
  shows "convert_ber_loop st eoc d p s =
    c_seq (open_child st d p tag)
      (c_bind (convert_contents (child_tag st tag) d (child_ref st d p) s1 element tag header_len)
        (\<lambda>t. c_seq (CBB_flush p) (convert_ber_loop st eoc d p t)))"
proof (rule ext)
  fix cbb
  have run: "convert_ber_loop st eoc d p s cbb =
     (if st \<noteq> 0 \<and> primitive_tag tag \<noteq> st then (None, cbb)
      else case (if st \<noteq> 0 then (Some (), cbb)
                 else CBB_add_asn1 p d (if string_cons tag then primitive_tag tag else tag) cbb) of
             (None, cbb) \<Rightarrow> (None, cbb)
           | (Some _, cbb) \<Rightarrow>
          (case convert_contents (child_tag st tag) d (child_ref st d p) s1 element tag header_len cbb of
             (None, cbb) \<Rightarrow> (None, cbb)
           | (Some s, cbb) \<Rightarrow>
               (case CBB_flush p cbb of
                  (None, cbb) \<Rightarrow> (None, cbb)
                | (Some _, cbb) \<Rightarrow> convert_ber_loop st eoc d p s cbb)))"
    unfolding convert_ber_loop.simps [of st eoc d p s cbb] if_P [OF l] e prod.case option.case if_not_P [OF n]
      Let_def convert_contents_apply child_tag_def child_ref_def primitive_tag_def string_cons_def
      nested_if ..
  show "convert_ber_loop st eoc d p s cbb = c_seq (open_child st d p tag)
      (c_bind (convert_contents (child_tag st tag) d (child_ref st d p) s1 element tag header_len)
        (\<lambda>t. c_seq (CBB_flush p) (convert_ber_loop st eoc d p t))) cbb"
    unfolding run open_child_def c_seq_apply c_bind_apply
    by (cases "st = 0"; cases "primitive_tag tag = st") (simp_all add: c_seq_apply)
qed

lemma convert_primitive:
  assumes ok: "ber_ok (Prim tag body)"
  shows "convert_ber_loop st eoc d p (der_elem tag body @ s) =
    c_seq (emit st d p (Prim tag body)) (convert_ber_loop st eoc d p s)"
proof -
  from ok have c: "tag AND CBS_ASN1_CONSTRUCTED = 0" and g: "length body < 2 ^ 32" by simp_all
  have n: "\<not> is_eoc (der_hdr tag body) (der_elem tag body)" using ok not_eoc_der_elem [of tag body] by simp
  have p: "primitive_tag tag = tag" "\<not> string_cons tag"
    using not_constructed_id [OF c] c by (simp_all add: primitive_tag_def string_cons_def)
  have cc: "convert_contents ct d q s (der_elem tag body) tag (der_hdr tag body) = c_seq (CBB_add_bytes q body) (c_ret s)" for ct d q
    unfolding convert_contents_def if_not_P [OF not_indefinite_der_elem]
    using c by (simp add: CBS_len_def length_der_elem)
  have o: "open_child st d p tag = (if st = 0 then CBB_add_asn1 p d tag else if tag = st then c_ret () else c_fail)"
    by (simp add: open_child_def p)
  show ?thesis
    unfolding convert_step [OF der_elem_nonempty_len get_der_elem [OF g] n] cc c_bind_seq_ret o child_ref_def
    by (simp add: c_seq_fail c_seq_ret c_assoc)
qed

lemma convert_definite:
  assumes c: "tag AND CBS_ASN1_CONSTRUCTED \<noteq> 0" and g: "length body < 2 ^ 32" and d: "d < kMaxDepth"
  shows "convert_ber_loop st eoc d p (der_elem tag body @ s) =
    c_seq (open_child st d p tag)
      (c_seq (convert_ber_loop (child_tag st tag) False (Suc d) (child_ref st d p) body)
        (c_seq (CBB_flush p) (convert_ber_loop st eoc d p s)))"
proof -
  have n: "\<not> is_eoc (der_hdr tag body) (der_elem tag body)"
    using not_eoc_der_elem [of tag body] constructed_nonzero [OF c] by blast
  have cc: "convert_contents ct d q s (der_elem tag body) tag (der_hdr tag body) =
      c_seq (convert_ber_loop ct False (Suc d) q body) (c_ret s)" for ct q
    unfolding convert_contents_def if_not_P [OF not_indefinite_der_elem]
    using c d by (simp add: CBS_len_def length_der_elem)
  show ?thesis
    unfolding convert_step [OF der_elem_nonempty_len get_der_elem [OF g] n] cc c_bind_seq_ret ..
qed

lemma convert_indefinite:
  assumes c: "tag AND CBS_ASN1_CONSTRUCTED \<noteq> 0" and d: "d < kMaxDepth"
  shows "convert_ber_loop st eoc d p (der_tag tag @ 0x80 # s) =
    c_seq (open_child st d p tag)
      (c_bind (convert_ber_loop (child_tag st tag) True (Suc d) (child_ref st d p) s)
        (\<lambda>t. c_seq (CBB_flush p) (convert_ber_loop st eoc d p t)))"
proof -
  have n: "\<not> is_eoc (Suc (length (der_tag tag))) (der_tag tag @ [0x80])"
    by (auto simp: is_eoc_iff append_eq_Cons_conv)
  have l: "CBS_len (der_tag tag @ 0x80 # s) > 0" by (simp add: CBS_len_def)
  have cc: "convert_contents ct d q s (der_tag tag @ [0x80]) tag (Suc (length (der_tag tag))) =
      convert_ber_loop ct True (Suc d) q s" for ct q
    using d by (simp add: convert_contents_def CBS_len_def CBS_data_def)
  show ?thesis
    unfolding convert_step [OF l get_indefinite [OF c] n] cc ..
qed

lemma convert_eoc: "convert_ber_loop st eoc d p (0 # 0 # s) = (if eoc then c_ret s else c_fail)"
  by (rule ext, subst convert_ber_loop.simps) (simp add: get_eoc is_eoc_iff CBS_len_def)

lemma convert_Nil: "convert_ber_loop st eoc d p [] = (if eoc then c_fail else c_ret [])"
  by (rule ext, subst convert_ber_loop.simps) (simp add: CBS_len_def)

text \<open>The conversion of a sequence of values makes the calls of \<open>emit\<close>, and stops at the end of its
  input or after the end-of-contents it looks for.\<close>

lemma convert_ber_bytes:
  "ber_ok x \<Longrightarrow> d + ber_height x \<le> kMaxDepth \<Longrightarrow>
     convert_ber_loop st eoc d p (ber_bytes x @ s) = c_seq (emit st d p x) (convert_ber_loop st eoc d p s)"
  "ber_ok_all xs \<Longrightarrow> d + ber_height_all xs \<le> kMaxDepth \<Longrightarrow>
     convert_ber_loop st False d p (ber_bytes_all xs) = c_seq (emit_all st d p xs) (c_ret []) \<and>
     convert_ber_loop st True d p (ber_bytes_all xs @ 0 # 0 # s) = c_seq (emit_all st d p xs) (c_ret s)"
proof (induction x and xs arbitrary: st eoc d p s and st d p s rule: ber_bytes_ber_bytes_all.induct)
  case (1 tag body)
  then show ?case using convert_primitive by simp
next
  case (2 tag indefinite xs)
  then have c: "tag AND CBS_ASN1_CONSTRUCTED \<noteq> 0" "d < kMaxDepth" "ber_ok_all xs"
    "Suc d + ber_height_all xs \<le> kMaxDepth" by simp_all
  show ?case
  proof (cases indefinite)
    case True
    note IH = "2.IH"(1) [OF True c(3,4)]
    have "ber_bytes (Cons tag indefinite xs) @ s = der_tag tag @ 0x80 # (ber_bytes_all xs @ 0 # 0 # s)"
      using True by simp
    then show ?thesis
      by (simp only: convert_indefinite [OF c(1,2)] IH [THEN conjunct2] c_bind_seq_ret emit_Cons c_assoc)
  next
    case False
    note IH = "2.IH"(2) [OF False c(3,4)]
    have "length (ber_bytes_all xs) < 2 ^ 32" using 2 False by simp
    note def = convert_definite [OF c(1) this c(2)]
    have "ber_bytes (Cons tag indefinite xs) @ s = der_elem tag (ber_bytes_all xs) @ s"
      using False by simp
    then show ?thesis
      by (simp only: def IH [THEN conjunct1] c_seq_drop_ret emit_Cons c_assoc)
  qed
next
  case 3
  have "c_seq (c_ret ()) m = m" for m :: "(cbb, cbs) cop" by (rule ext) (simp add: c_seq_apply)
  then show ?case by (simp add: convert_Nil convert_eoc)
next
  case (4 x xs)
  then have h: "ber_ok x" "d + ber_height x \<le> kMaxDepth" "ber_ok_all xs" "d + ber_height_all xs \<le> kMaxDepth" by simp_all
  have e: "ber_bytes_all (x # xs) @ t = ber_bytes x @ (ber_bytes_all xs @ t)" for t by simp
  show ?case
    using "4.IH"(1) [OF h(1,2), of st False p "ber_bytes_all xs"]
      "4.IH"(1) [OF h(1,2), of st True p "ber_bytes_all xs @ 0 # 0 # s"] "4.IH"(2) [OF h(3,4), of st p s]
    by (simp only: e emit_all.simps ber_bytes_all.simps c_assoc append_assoc simp_thms)
qed

section \<open>What the walk reports\<close>

fun finds :: "bool \<Rightarrow> ber list \<Rightarrow> bool" where
  "finds found [] = found"
| "finds found (Prim tag body # xs) = finds found xs"
| "finds found (Cons tag indefinite ys # xs) =
     (if indefinite \<or> is_string_type tag then True else finds (finds False ys) xs)"




lemma find_step:
  assumes "CBS_get_any_ber_asn1_element s = (Some (element, tag, hl), s1)" "CBS_len s > 0"
  shows "find_ber_loop d f s =
    (if CBS_len element = hl \<and> hl > 0 \<and> CBS_data element ! (hl - 1) = 0x80 then Some True
     else if tag AND CBS_ASN1_CONSTRUCTED \<noteq> 0
     then (if is_string_type tag then Some True
           else if hl > CBS_len element \<or> d + 1 > kMaxDepth then None
           else (case find_ber_loop (d + 1) False (drop hl element) of
                   None \<Rightarrow> None
                 | Some found \<Rightarrow> find_ber_loop d found s1))
     else find_ber_loop d f s1)"
  using assms by (subst find_ber_loop.simps) simp

lemma find_ber_bytes:
  "ber_ok_all xs \<Longrightarrow> d + ber_height_all xs \<le> kMaxDepth \<Longrightarrow> find_ber_loop d f (ber_bytes_all xs) = Some (finds f xs)"
proof (induction f xs arbitrary: d rule: finds.induct)
  case (1 f)
  show ?case by (subst find_ber_loop.simps) (simp add: CBS_len_def)
next
  case (2 f tag body xs)
  then have c: "tag AND CBS_ASN1_CONSTRUCTED = 0" "length body < 2 ^ 32" by simp_all
  have "find_ber_loop d f (ber_bytes_all (Prim tag body # xs)) = find_ber_loop d f (ber_bytes_all xs)"
    unfolding ber_bytes_all.simps ber_bytes.simps
    unfolding find_step [OF get_der_elem [OF c(2)] der_elem_nonempty_len] if_not_P [OF not_indefinite_der_elem]
    using c(1) by simp
  with 2 show ?case by simp
next
  case (3 f tag indefinite ys xs)
  then have c: "tag AND CBS_ASN1_CONSTRUCTED \<noteq> 0" "Suc d + ber_height_all ys \<le> kMaxDepth" "ber_ok_all ys"
    "ber_ok_all xs" "d + ber_height_all xs \<le> kMaxDepth" by simp_all
  show ?case
  proof (cases indefinite)
    case True
    have l: "CBS_len (der_tag tag @ 0x80 # t) > 0" for t by (simp add: CBS_len_def)
    have e: "ber_bytes_all (Cons tag indefinite ys # xs) = der_tag tag @ 0x80 # (ber_bytes_all ys @ [0, 0] @ ber_bytes_all xs)"
      using True by simp
    show ?thesis
      unfolding e find_step [OF get_indefinite [OF c(1)] l] using True
      by (simp add: CBS_len_def CBS_data_def)
  next
    case False
    then have g: "length (ber_bytes_all ys) < 2 ^ 32" using 3 by simp
    have e: "ber_bytes_all (Cons tag indefinite ys # xs) = der_elem tag (ber_bytes_all ys) @ ber_bytes_all xs"
      using False by simp
    note step = find_step [OF get_der_elem [OF g] der_elem_nonempty_len, of d f tag "ber_bytes_all xs",
        unfolded if_not_P [OF not_indefinite_der_elem] drop_der_hdr]
    show ?thesis
    proof (cases "is_string_type tag")
      case True
      then show ?thesis unfolding e step using c(1) by simp
    next
      case str: False
      have "find_ber_loop (d + 1) False (ber_bytes_all ys) = Some (finds False ys)"
        using "3.IH"(1) [of "d + 1"] False str c by simp
      moreover have "find_ber_loop d (finds False ys) (ber_bytes_all xs) = Some (finds (finds False ys) xs)"
        using "3.IH"(2) [of d] False str c by simp
      ultimately show ?thesis
        unfolding e step using c False str by (simp add: CBS_len_def length_der_elem)
    qed
  qed
qed

lemma find_ber_value:
  "ber_ok x \<Longrightarrow> ber_height x \<le> kMaxDepth \<Longrightarrow> cbs_find_ber 0 (ber_bytes x) = Some (finds False [x])"
  using find_ber_bytes [of "[x]" 0 False] by (simp add: cbs_find_ber_def CBS_init_def CBS_data_def CBS_len_def)

section \<open>BER to DER\<close>

lemma ber_to_der_converts:
  assumes al: "allocator_ok al" "\<And>k. al k \<noteq> None" and ok: "ber_ok x" "ber_height x \<le> kMaxDepth"
    and d: "conv_der 0 x = Some d" "length d < size_mod" "length (ber_bytes x) < size_mod" and f: "finds False [x]"
  shows "\<exists>st. CBS_asn1_ber_to_der al (ber_bytes x) = (Some (d, Some st), [])"
proof -
  from CBB_init_room [OF al(1,2) d(3,2)] obtain cbb where i: "CBB_init al (length (ber_bytes x)) = (True, cbb)"
    and r: "cbb_room (length d) Top [] [] cbb" by blast
  from puts_room [OF puts_emit(1) [OF ok(1) d(1)] r] obtain u cbb1 where e: "emit 0 0 Top x cbb = (Some u, cbb1)"
    and r1: "cbb_room 0 Top [] d cbb1" by auto
  have "convert_ber_loop 0 False 0 Top (ber_bytes x) = c_seq (emit 0 0 Top x) (c_ret [])"
    using convert_ber_bytes(1) [OF ok(1), of 0 0 False Top "[]"] ok(2) by (simp add: convert_Nil)
  then have c: "cbs_convert_ber 0 False 0 Top (ber_bytes x) cbb = (Some [], cbb1)"
    using e by (simp add: cbs_convert_ber_def c_seq_apply)
  from CBB_finish_room [OF r1] obtain out len cbb2 where fin: "CBB_finish Top True cbb1 = (Some (out, len), cbb2)" by blast
  have "cbb_at Top [] d cbb1" using r1 by (simp add: cbb_room_def)
  from CBB_finish_at [OF this fin] have o: "take len out = d" by blast
  have fb: "cbs_find_ber 0 (ber_bytes x) = Some True" using find_ber_value [OF ok] f by simp
  show ?thesis
    unfolding CBS_asn1_ber_to_der_def fb using i c fin o by (simp add: CBS_len_def CBS_init_def)
qed

text \<open>When one of the calls on the builder fails, so does the conversion.\<close>

lemma ber_to_der_refuses:
  assumes ok: "ber_ok x" "ber_height x \<le> kMaxDepth" and f: "finds False [x]" and e: "\<And>cbb. fst (emit 0 0 Top x cbb) = None"
  shows "fst (CBS_asn1_ber_to_der al (ber_bytes x)) = None"
proof -
  have "convert_ber_loop 0 False 0 Top (ber_bytes x) = c_seq (emit 0 0 Top x) (c_ret [])"
    using convert_ber_bytes(1) [OF ok(1), of 0 0 False Top "[]"] ok(2) by (simp add: convert_Nil)
  then have c: "fst (cbs_convert_ber 0 False 0 Top (ber_bytes x) cbb) = None" for cbb
    using e [of cbb] by (cases "emit 0 0 Top x cbb") (simp add: cbs_convert_ber_def c_seq_apply)
  have fb: "cbs_find_ber 0 (ber_bytes x) = Some True" using find_ber_value [OF ok] f by simp
  show ?thesis
  proof (cases "CBB_init al (CBS_len (ber_bytes x))")
    case (Pair b cbb)
    obtain r cbb' where "cbs_convert_ber 0 False 0 Top (ber_bytes x) cbb = (r, cbb')" by fastforce
    with c [of cbb] Pair show ?thesis
      unfolding CBS_asn1_ber_to_der_def fb by (cases b) simp_all
  qed
qed

lemma ber_to_der_passes:
  assumes ok: "ber_ok x" "ber_height x \<le> kMaxDepth" and f: "\<not> finds False [x]"
  shows "CBS_asn1_ber_to_der al (ber_bytes x) = (Some (ber_bytes x, None), [])"
proof -
  have "\<exists>tag body. length body < 2 ^ 32 \<and> ber_bytes x = der_elem tag body"
    using ok(1) f by (cases x) auto
  then obtain tag body where b: "length body < 2 ^ 32" "ber_bytes x = der_elem tag body" by blast
  have "CBS_get_any_asn1_element (ber_bytes x) = (Some (ber_bytes x, tag, der_hdr tag body), [])"
    using cbs_element_der_elem [OF b(1), of False tag "[]"] b(2) by (simp add: CBS_get_any_asn1_element_def)
  then show ?thesis
    unfolding CBS_asn1_ber_to_der_def find_ber_value [OF ok] using f by simp
qed

text \<open>What the examples below are evaluated with.\<close>

lemma tag_values:
  "CBS_ASN1_CONSTRUCTED = 0x20000000" "CBS_ASN1_SEQUENCE = 0x20000010" "CBS_ASN1_INTEGER = 2"
  by (simp_all add: CBS_ASN1_CONSTRUCTED_def CBS_ASN1_SEQUENCE_def CBS_ASN1_INTEGER_def CBS_ASN1_TAG_SHIFT_def)

lemma tag_kinds:
  "is_string_type 0x20000003" "is_string_type 0x20000004" "is_string_type 0x2000001A" "\<not> is_string_type 0x20000010"
  "string_cons 0x20000003" "string_cons 0x20000004" "string_cons 0x2000001A" "\<not> string_cons 0x20000010"
  "primitive_tag 0x20000003 = 3" "primitive_tag 0x20000004 = 4" "primitive_tag 0x2000001A = 0x1A"
  by (simp_all add: string_cons_def primitive_tag_def is_string_type_def string_tag_defs tag_values)

lemmas ber_evals = tag_values tag_kinds CBS_ASN1_BITSTRING_def CBS_ASN1_OCTETSTRING_def kMaxDepth_def
  der_wrap_def fragment_tag_def join_parts_def der_elem_def der_tag_def der_len_def



definition two_fragments :: ber where
  "two_fragments = Cons 0x20000003 False [Prim CBS_ASN1_BITSTRING [0, 0xAA], Prim CBS_ASN1_BITSTRING [0, 0xBB]]"

definition octet_fragments :: ber where
  "octet_fragments = Cons 0x2000001A False [Prim CBS_ASN1_OCTETSTRING [0x4A, 0x6F, 0x6E], Prim CBS_ASN1_OCTETSTRING [0x65, 0x73]]"

lemma two_fragments_bytes: "ber_bytes two_fragments = [0x23, 8, 3, 2, 0, 0xAA, 3, 2, 0, 0xBB]"
  by (simp add: two_fragments_def ber_evals)

lemma two_fragments_written: "conv_der 0 two_fragments = Some [3, 4, 0, 0xAA, 0, 0xBB]"
  by (simp add: two_fragments_def ber_evals)

lemma two_fragments_der: "ber_der two_fragments = Some [3, 3, 0, 0xAA, 0xBB]"
  by (simp add: two_fragments_def ber_evals)

lemma two_fragments_ok: "ber_ok two_fragments \<and> ber_height two_fragments \<le> kMaxDepth \<and> finds False [two_fragments]"
  by (simp add: two_fragments_def ber_evals)

lemma octet_fragments_bytes: "ber_bytes octet_fragments = [0x3A, 9, 4, 3, 0x4A, 0x6F, 0x6E, 4, 2, 0x65, 0x73]"
  by (simp add: octet_fragments_def ber_evals)

lemma octet_fragments_der: "ber_der octet_fragments = Some [0x1A, 5, 0x4A, 0x6F, 0x6E, 0x65, 0x73]"
  by (simp add: octet_fragments_def ber_evals)

lemma octet_fragments_ok: "ber_ok octet_fragments \<and> ber_height octet_fragments \<le> kMaxDepth \<and> finds False [octet_fragments]"
  by (simp add: octet_fragments_def ber_evals)

lemma octet_fragments_emit: "fst (emit 0 0 Top octet_fragments cbb) = None"
  by (simp add: octet_fragments_def ber_evals c_seq_apply split: prod.split option.split)

text \<open>C40: Two forms of constructed strings that BER allows are not converted, although the header promises
  to process any valid BER input and to output DER. The fragments of a constructed BIT STRING are put
  one after the other with their unused-bits octets: from \<open>23 08 03 02 00 AA 03 02 00 BB\<close>, which is the
  16 bits AA BB, comes \<open>03 04 00 AA 00 BB\<close>, the 24 bits AA 00 BB, where the DER form of the value is
  \<open>03 03 00 AA BB\<close>. And a constructed string of any other type whose fragments are OCTET STRINGs, such as
  the VisibleString \<open>3A 09 04 03 4A 6F 6E 04 02 65 73\<close> (the example of X.690, 8.23), is refused.\<close>

theorem constructed_strings_not_converted:
  assumes "allocator_ok al" "\<And>k. al k \<noteq> None"
  shows "(\<exists>st. CBS_asn1_ber_to_der al (ber_bytes two_fragments) = (Some ([3, 4, 0, 0xAA, 0, 0xBB], Some st), [])) \<and>
    ber_bytes two_fragments = [0x23, 8, 3, 2, 0, 0xAA, 3, 2, 0, 0xBB] \<and> ber_der two_fragments = Some [3, 3, 0, 0xAA, 0xBB] \<and>
    fst (CBS_asn1_ber_to_der al (ber_bytes octet_fragments)) = None \<and>
    ber_bytes octet_fragments = [0x3A, 9, 4, 3, 0x4A, 0x6F, 0x6E, 4, 2, 0x65, 0x73] \<and>
    ber_der octet_fragments = Some [0x1A, 5, 0x4A, 0x6F, 0x6E, 0x65, 0x73]"
proof -
  have l: "length [3, 4, 0, 0xAA, 0, 0xBB :: byte] < size_mod" "length (ber_bytes two_fragments) < size_mod"
    by (simp_all add: two_fragments_bytes size_mod_def)
  note b = two_fragments_ok and o = octet_fragments_ok
  have "\<exists>st. CBS_asn1_ber_to_der al (ber_bytes two_fragments) = (Some ([3, 4, 0, 0xAA, 0, 0xBB], Some st), [])"
    by (rule ber_to_der_converts [OF assms b [THEN conjunct1] b [THEN conjunct2, THEN conjunct1] two_fragments_written l
          b [THEN conjunct2, THEN conjunct2]])
  moreover have "fst (CBS_asn1_ber_to_der al (ber_bytes octet_fragments)) = None"
    by (rule ber_to_der_refuses [OF o [THEN conjunct1] o [THEN conjunct2, THEN conjunct1] o [THEN conjunct2, THEN conjunct2]
          octet_fragments_emit])
  ultimately show ?thesis
    using two_fragments_bytes two_fragments_der octet_fragments_bytes octet_fragments_der by (intro conjI)
qed

theorem constructed_strings_not_converted_witness:
  "\<exists>al st. CBS_asn1_ber_to_der al (ber_bytes two_fragments) = (Some ([3, 4, 0, 0xAA, 0, 0xBB], Some st), [])"
proof -
  have "allocator_ok (\<lambda>k. Some (replicate k 0))" by (simp add: allocator_ok_def)
  from constructed_strings_not_converted [OF this, THEN conjunct1] show ?thesis by blast
qed

text \<open>C28: The walk forgets. A call of \<open>cbs_find_ber\<close> clears \<open>*ber_found\<close> and its caller goes on to the next
  element, so an indefinite length found inside one constructed element is forgotten when another
  follows it. The SEQUENCE below holds a SEQUENCE with an indefinite-length element, then an empty
  SEQUENCE: \<open>CBS_asn1_ber_to_der\<close> succeeds and returns the BER input unchanged, although the value has
  a DER encoding and that encoding is different.\<close>

theorem ber_found_is_forgotten:
  "CBS_asn1_ber_to_der al [0x30, 8, 0x30, 4, 0x30, 0x80, 0, 0, 0x30, 0] =
     (Some ([0x30, 8, 0x30, 4, 0x30, 0x80, 0, 0, 0x30, 0], None), []) \<and>
   [0x30, 8, 0x30, 4, 0x30, 0x80, 0, 0, 0x30, 0] =
     ber_bytes (Cons CBS_ASN1_SEQUENCE False [Cons CBS_ASN1_SEQUENCE False [Cons CBS_ASN1_SEQUENCE True []],
       Cons CBS_ASN1_SEQUENCE False []]) \<and>
   ber_der (Cons CBS_ASN1_SEQUENCE False [Cons CBS_ASN1_SEQUENCE False [Cons CBS_ASN1_SEQUENCE True []],
       Cons CBS_ASN1_SEQUENCE False []]) = Some [0x30, 6, 0x30, 2, 0x30, 0, 0x30, 0]"
proof -
  define x where "x = Cons CBS_ASN1_SEQUENCE False [Cons CBS_ASN1_SEQUENCE False [Cons CBS_ASN1_SEQUENCE True []],
    Cons CBS_ASN1_SEQUENCE False []]"
  have b: "ber_bytes x = [0x30, 8, 0x30, 4, 0x30, 0x80, 0, 0, 0x30, 0]" by (simp add: x_def ber_evals)
  have d: "ber_der x = Some [0x30, 6, 0x30, 2, 0x30, 0, 0x30, 0]"
    by (simp add: x_def ber_evals)
  have ok: "ber_ok x" by (simp add: x_def ber_evals)
  have h: "ber_height x \<le> kMaxDepth" by (simp add: x_def ber_evals)
  have f: "\<not> finds False [x]" by (simp add: x_def ber_evals)
  from ber_to_der_passes [OF ok h f, of al] have pass: "CBS_asn1_ber_to_der al [0x30, 8, 0x30, 4, 0x30, 0x80, 0, 0, 0x30, 0] =
     (Some ([0x30, 8, 0x30, 4, 0x30, 0x80, 0, 0, 0x30, 0], None), [])" unfolding b .
  show ?thesis using pass b [symmetric] d unfolding x_def by (intro conjI)
qed

section \<open>The old-style serializers\<close>

text \<open>\<open>CBB_finish_i2d\<close> of \<open>crypto/bytestring/asn1_compat.c\<close>. \<open>outp\<close> is \<open>None\<close> for NULL, else \<open>*outp\<close>: again
  \<open>None\<close> for NULL or the bytes it points at. The results are the return value and, when \<open>outp\<close> is given,
  the buffer with the bytes written and how far \<open>*outp\<close> moved.\<close>

definition CBB_finish_i2d :: "bytes option option \<Rightarrow> cbb \<Rightarrow> int \<times> (bytes \<times> nat) option" where
  "CBB_finish_i2d outp cbb =
     (case CBB_finish Top True cbb of
        (None, _) \<Rightarrow> (- 1, None)
      | (Some (der, n), _) \<Rightarrow>
          if n > 0x7fffffff then (- 1, None)
          else (int n,
             (case outp of
                None \<Rightarrow> None
              | Some None \<Rightarrow> Some (der, 0)
              | Some (Some buf) \<Rightarrow> Some (mem_write 0 (take n der) buf, n))))"

lemma finish_i2d_length:
  assumes "cbb_at Top [] s cbb" "CBB_finish_i2d outp cbb = (n, r)" "0 \<le> n"
  shows "n = int (length s) \<and> length s \<le> 0x7fffffff"
proof -
  from assms(2,3) obtain der len cbb' where f: "CBB_finish Top True cbb = (Some (der, len), cbb')"
    and n: "n = int len" "len \<le> 0x7fffffff"
    by (auto simp: CBB_finish_i2d_def split: prod.splits option.splits if_splits)
  from CBB_finish_at [OF assms(1) f] n show ?thesis by simp
qed

end
