(* ===== verification/BioPair.thy ===== *)
theory BioPair
  imports Mem
begin

text \<open>
  The in-memory transport of BoringSSL: a pair of connected \<open>BIO\<close>s, \<open>crypto/bio/pair.c\<close>, behind the
  generic entry points of \<open>crypto/bio/bio.c\<close>. Each side owns a ring buffer for what it writes; its
  peer reads from it. The \<open>BIO\<close>s point at each other, so the model keeps them in a heap from
  addresses to objects. The result \<open>None\<close> of an operation is a failed \<open>assert\<close>, a NULL
  dereference, or a copying loop that does not end.
\<close>

record bio_bio_st =
  bb_peer :: "nat option"
  bb_closed :: bool
  bb_len :: nat
  bb_offset :: nat
  bb_size :: nat
  bb_buf :: "bytes option"  \<comment> \<open>\<open>buf\<close>\<close>
  bb_request :: nat

record bio =
  bio_init :: bool
  bio_shutdown :: int
  bio_flags :: u32
  bio_retry_reason :: nat
  bio_references :: nat
  bio_ptr :: "bio_bio_st option"  \<comment> \<open>\<open>ptr\<close>\<close>
  bio_num_read :: nat
  bio_num_write :: nat

type_synonym bio_heap = "nat \<Rightarrow> bio option"

definition BIO_FLAGS_READ :: u32 where "BIO_FLAGS_READ = 0x01"
definition BIO_FLAGS_WRITE :: u32 where "BIO_FLAGS_WRITE = 0x02"
definition BIO_FLAGS_IO_SPECIAL :: u32 where "BIO_FLAGS_IO_SPECIAL = 0x04"
definition BIO_FLAGS_RWS :: u32 where
  "BIO_FLAGS_RWS = BIO_FLAGS_READ OR BIO_FLAGS_WRITE OR BIO_FLAGS_IO_SPECIAL"
definition BIO_FLAGS_SHOULD_RETRY :: u32 where "BIO_FLAGS_SHOULD_RETRY = 0x08"
definition kRetryFlags :: u32 where "kRetryFlags = BIO_FLAGS_RWS OR BIO_FLAGS_SHOULD_RETRY"

section \<open>Flags\<close>

definition BIO_set_flags :: "bio \<Rightarrow> u32 \<Rightarrow> bio" where
  "BIO_set_flags x fl = x\<lparr>bio_flags := bio_flags x OR fl\<rparr>"

definition BIO_test_flags :: "bio \<Rightarrow> u32 \<Rightarrow> u32" where
  "BIO_test_flags x fl = bio_flags x AND fl"

definition BIO_should_read :: "bio \<Rightarrow> u32" where
  "BIO_should_read x = BIO_test_flags x BIO_FLAGS_READ"

definition BIO_should_write :: "bio \<Rightarrow> u32" where
  "BIO_should_write x = BIO_test_flags x BIO_FLAGS_WRITE"

definition BIO_should_retry :: "bio \<Rightarrow> u32" where
  "BIO_should_retry x = BIO_test_flags x BIO_FLAGS_SHOULD_RETRY"

definition BIO_clear_flags :: "bio \<Rightarrow> u32 \<Rightarrow> bio" where
  "BIO_clear_flags x fl = x\<lparr>bio_flags := bio_flags x AND NOT fl\<rparr>"

definition BIO_set_retry_read :: "bio \<Rightarrow> bio" where
  "BIO_set_retry_read x = x\<lparr>bio_flags := bio_flags x OR (BIO_FLAGS_READ OR BIO_FLAGS_SHOULD_RETRY)\<rparr>"

definition BIO_set_retry_write :: "bio \<Rightarrow> bio" where
  "BIO_set_retry_write x = x\<lparr>bio_flags := bio_flags x OR (BIO_FLAGS_WRITE OR BIO_FLAGS_SHOULD_RETRY)\<rparr>"

definition BIO_get_retry_flags :: "bio \<Rightarrow> u32" where
  "BIO_get_retry_flags x = bio_flags x AND kRetryFlags"

definition BIO_clear_retry_flags :: "bio \<Rightarrow> bio" where
  "BIO_clear_retry_flags x = x\<lparr>bio_flags := bio_flags x AND NOT kRetryFlags, bio_retry_reason := 0\<rparr>"

section \<open>Construction\<close>

text \<open>\<open>BIO_new\<close> with the method of this file: \<open>sizes\<close> stands for the two \<open>sizeof\<close>s. The result is
  the new object, not yet at an address.\<close>

definition bio_new :: "allocator \<Rightarrow> nat \<Rightarrow> bio \<Rightarrow> bio option" where
  "bio_new alloc sizeof_b x =
     (case alloc sizeof_b of
        None \<Rightarrow> None
      | Some _ \<Rightarrow> Some (x\<lparr>bio_ptr := Some \<lparr>bb_peer = None, bb_closed = False, bb_len = 0, bb_offset = 0,
                      bb_size = 17 * 1024, bb_buf = None, bb_request = 0\<rparr>\<rparr>))"

definition BIO_new :: "allocator \<Rightarrow> nat \<Rightarrow> nat \<Rightarrow> bio option" where
  "BIO_new alloc sizeof_bio sizeof_b =
     (case alloc sizeof_bio of
        None \<Rightarrow> None
      | Some _ \<Rightarrow> bio_new alloc sizeof_b
          \<lparr>bio_init = False, bio_shutdown = 1, bio_flags = 0, bio_retry_reason = 0, bio_references = 1, bio_ptr = None,
           bio_num_read = 0, bio_num_write = 0\<rparr>)"

text \<open>The buffer of one side, unless it has one already.\<close>

definition pair_alloc :: "allocator \<Rightarrow> nat \<Rightarrow> bio_bio_st \<Rightarrow> bio_bio_st option \<times> bio_bio_st" where
  "pair_alloc alloc writebuf_len b =
     (if bb_buf b = None
      then let b = (if writebuf_len \<noteq> 0 then b\<lparr>bb_size := writebuf_len\<rparr> else b)
           in case alloc (bb_size b) of
                None \<Rightarrow> (None, b)
              | Some blk \<Rightarrow> (Some (b\<lparr>bb_buf := Some blk, bb_len := 0, bb_offset := 0\<rparr>), b)
      else (Some b, b))"

definition set_ptr :: "nat \<Rightarrow> bio_bio_st \<Rightarrow> bio_heap \<Rightarrow> bio_heap" where
  "set_ptr a b h = (case h a of None \<Rightarrow> h | Some x \<Rightarrow> h(a \<mapsto> x\<lparr>bio_ptr := Some b\<rparr>))"

definition set_init :: "nat \<Rightarrow> bool \<Rightarrow> bio_heap \<Rightarrow> bio_heap" where
  "set_init a i h = (case h a of None \<Rightarrow> h | Some x \<Rightarrow> h(a \<mapsto> x\<lparr>bio_init := i\<rparr>))"

definition get_ptr :: "nat \<Rightarrow> bio_heap \<Rightarrow> bio_bio_st option" where
  "get_ptr a h = (case h a of None \<Rightarrow> None | Some x \<Rightarrow> bio_ptr x)"

definition bio_make_pair :: "allocator \<Rightarrow> nat \<Rightarrow> nat \<Rightarrow> nat \<Rightarrow> nat \<Rightarrow> bio_heap \<Rightarrow> (bool \<times> bio_heap) option" where
  "bio_make_pair alloc bio1 bio2 writebuf1_len writebuf2_len h =
     (case (get_ptr bio1 h, get_ptr bio2 h) of
        (Some b1, Some b2) \<Rightarrow>
          if bb_peer b1 \<noteq> None \<or> bb_peer b2 \<noteq> None then Some (False, h)
          else (case pair_alloc alloc writebuf1_len b1 of
                  (None, b1) \<Rightarrow> Some (False, set_ptr bio1 b1 h)
                | (Some b1, _) \<Rightarrow>
                    (let h = set_ptr bio1 b1 h
                     in case pair_alloc alloc writebuf2_len b2 of
                          (None, b2) \<Rightarrow> Some (False, set_ptr bio2 b2 h)
                        | (Some b2, _) \<Rightarrow>
                            Some (True,
                              set_init bio2 True (set_init bio1 True
                                (set_ptr bio2 (b2\<lparr>bb_peer := Some bio1, bb_closed := False, bb_request := 0\<rparr>)
                                  (set_ptr bio1 (b1\<lparr>bb_peer := Some bio2, bb_closed := False, bb_request := 0\<rparr>) h))))))
      | _ \<Rightarrow> None)"

section \<open>Destruction\<close>

definition bio_destroy_pair :: "nat \<Rightarrow> bio_heap \<Rightarrow> bio_heap option" where
  "bio_destroy_pair bio h =
     (case get_ptr bio h of
        None \<Rightarrow> Some h
      | Some b \<Rightarrow>
          (case bb_peer b of
             None \<Rightarrow> Some h
           | Some peer_bio \<Rightarrow>
               (case get_ptr peer_bio h of
                  None \<Rightarrow> None
                | Some peer_b \<Rightarrow>
                    if bb_peer peer_b \<noteq> Some bio \<or> bb_buf peer_b = None \<or> bb_buf b = None then None
                    else Some (set_ptr bio (b\<lparr>bb_peer := None, bb_len := 0, bb_offset := 0\<rparr>)
                           (set_init bio False
                             (set_ptr peer_bio (peer_b\<lparr>bb_peer := None, bb_len := 0, bb_offset := 0\<rparr>)
                               (set_init peer_bio False h)))))))"

definition bio_free :: "nat option \<Rightarrow> bio_heap \<Rightarrow> (bool \<times> bio_heap) option" where
  "bio_free bio h =
     (case bio of
        None \<Rightarrow> Some (False, h)
      | Some a \<Rightarrow>
          (case get_ptr a h of
             None \<Rightarrow> None
           | Some b \<Rightarrow>
               (case (if bb_peer b \<noteq> None then bio_destroy_pair a h else Some h) of
                  None \<Rightarrow> None
                | Some h \<Rightarrow> Some (True, case h a of None \<Rightarrow> h | Some x \<Rightarrow> h(a \<mapsto> x\<lparr>bio_ptr := None\<rparr>)))))"

section \<open>Reading\<close>

text \<open>The copying loop of \<open>bio_read\<close>: \<open>out\<close> is what has been stored at the caller's buffer.\<close>

partial_function (option) bio_read_loop :: "bio_bio_st \<Rightarrow> nat \<Rightarrow> bytes \<Rightarrow> (bio_bio_st \<times> bytes) option" where
  "bio_read_loop peer_b rest out =
     (case bb_buf peer_b of
        None \<Rightarrow> None
      | Some buf \<Rightarrow>
     (if rest > bb_len peer_b then None
      else let chunk = (if size_add (bb_offset peer_b) rest \<le> bb_size peer_b then rest
                        else bb_size peer_b - bb_offset peer_b)
           in if bb_size peer_b < bb_offset peer_b + chunk then None
              else let out = out @ take chunk (drop (bb_offset peer_b) buf);
                       peer_b = peer_b\<lparr>bb_len := bb_len peer_b - chunk\<rparr>
                   in if bb_len peer_b \<noteq> 0
                      then let off = bb_offset peer_b + chunk
                           in if bb_size peer_b < off then None
                              else let peer_b = peer_b\<lparr>bb_offset := (if off = bb_size peer_b then 0 else off)\<rparr>;
                                       rest = rest - chunk
                                   in if rest \<noteq> 0 then bio_read_loop peer_b rest out else Some (peer_b, out)
                      else if chunk \<noteq> rest then None
                      else Some (peer_b\<lparr>bb_offset := 0\<rparr>, out)))"

text \<open>\<open>bio_read\<close> returns its result, the bytes stored at \<open>buf\<close>, and the heap. \<open>buf_null\<close>: \<open>buf == NULL\<close>.\<close>

definition bio_read :: "nat \<Rightarrow> bool \<Rightarrow> nat \<Rightarrow> bio_heap \<Rightarrow> (int \<times> bytes \<times> bio_heap) option" where
  "bio_read bio buf_null n h =
     (case h bio of
        None \<Rightarrow> None
      | Some x \<Rightarrow>
     (let x = BIO_clear_retry_flags x; h = h(bio \<mapsto> x)
      in if \<not> bio_init x then Some (0, [], h)
         else case bio_ptr x of
           None \<Rightarrow> None
         | Some b \<Rightarrow>
        (case bb_peer b of
           None \<Rightarrow> None
         | Some peer_bio \<Rightarrow>
        (case get_ptr peer_bio h of
           None \<Rightarrow> None
         | Some peer_b \<Rightarrow>
           if bb_buf peer_b = None then None
           else let peer_b = peer_b\<lparr>bb_request := 0\<rparr>; h = set_ptr peer_bio peer_b h
                in if buf_null \<or> n = 0 then Some (0, [], h)
                   else if bb_len peer_b = 0
                   then (if bb_closed peer_b then Some (0, [], h)
                         else Some (-1, [],
                           (let h = (case h bio of None \<Rightarrow> h | Some x \<Rightarrow> h(bio \<mapsto> BIO_set_retry_read x))
                            in set_ptr peer_bio
                                 (peer_b\<lparr>bb_request := (if n \<le> bb_size peer_b then n else bb_size peer_b)\<rparr>) h)))
                   else let n = (if bb_len peer_b < n then bb_len peer_b else n)
                        in if n = 0 then None
                           else case bio_read_loop peer_b n [] of
                             None \<Rightarrow> None
                           | Some (peer_b, out) \<Rightarrow> Some (int n, out, set_ptr peer_bio peer_b h)))))"

section \<open>Writing\<close>

partial_function (option) bio_write_loop :: "bio_bio_st \<Rightarrow> nat \<Rightarrow> bytes \<Rightarrow> bio_bio_st option" where
  "bio_write_loop b rest src =
     (case bb_buf b of
        None \<Rightarrow> None
      | Some buf \<Rightarrow>
     (if bb_size b < bb_len b + rest then None
      else let write_offset = size_add (bb_offset b) (bb_len b);
               write_offset = (if write_offset \<ge> bb_size b then write_offset - bb_size b else write_offset);
               chunk = (if size_add write_offset rest \<le> bb_size b then rest else bb_size b - write_offset);
               b = b\<lparr>bb_buf := Some (mem_write write_offset (take chunk src) buf), bb_len := bb_len b + chunk\<rparr>
           in if bb_size b < bb_len b then None
              else let rest = rest - chunk; src = drop chunk src
                   in if rest \<noteq> 0 then bio_write_loop b rest src else Some b))"

definition bio_write :: "nat \<Rightarrow> bool \<Rightarrow> bytes \<Rightarrow> bio_heap \<Rightarrow> (int \<times> bio_heap) option" where
  "bio_write bio buf_null buf h =
     (case h bio of
        None \<Rightarrow> None
      | Some x \<Rightarrow>
     (let x = BIO_clear_retry_flags x; h = h(bio \<mapsto> x); num = length buf
      in if \<not> bio_init x \<or> buf_null \<or> num = 0 then Some (0, h)
         else case bio_ptr x of
           None \<Rightarrow> None
         | Some b \<Rightarrow>
           if bb_peer b = None \<or> bb_buf b = None then None
           else let b = b\<lparr>bb_request := 0\<rparr>; h = set_ptr bio b h
                in if bb_closed b then Some (-1, h)
                   else if bb_size b < bb_len b then None
                   else if bb_len b = bb_size b
                   then Some (-1, case h bio of None \<Rightarrow> h | Some x \<Rightarrow> h(bio \<mapsto> BIO_set_retry_write x))
                   else let num = (if num > bb_size b - bb_len b then bb_size b - bb_len b else num)
                        in if num = 0 then None
                           else case bio_write_loop b num buf of
                             None \<Rightarrow> None
                           | Some b \<Rightarrow> Some (int num, set_ptr bio b h)))"

section \<open>Control\<close>

datatype bio_cmd = BIO_C_GET_WRITE_BUF_SIZE | BIO_C_GET_WRITE_GUARANTEE | BIO_C_GET_READ_REQUEST
  | BIO_C_RESET_READ_REQUEST | BIO_C_SHUTDOWN_WR | BIO_CTRL_GET_CLOSE | BIO_CTRL_SET_CLOSE
  | BIO_CTRL_PENDING | BIO_CTRL_WPENDING | BIO_CTRL_FLUSH | BIO_CTRL_EOF | BIO_CTRL_OTHER

definition bio_ctrl :: "nat \<Rightarrow> bio_cmd \<Rightarrow> int \<Rightarrow> nat option \<Rightarrow> bio_heap \<Rightarrow> (int \<times> bio_heap) option" where
  "bio_ctrl bio cmd num ptr h =
     (case (h bio, get_ptr bio h) of
        (Some x, Some b) \<Rightarrow>
          (case cmd of
             BIO_C_GET_WRITE_BUF_SIZE \<Rightarrow> Some (int (bb_size b), h)
           | BIO_C_GET_WRITE_GUARANTEE \<Rightarrow>
               Some (if bb_peer b = None \<or> bb_closed b then 0 else int (bb_size b) - int (bb_len b), h)
           | BIO_C_GET_READ_REQUEST \<Rightarrow> Some (int (bb_request b), h)
           | BIO_C_RESET_READ_REQUEST \<Rightarrow> Some (1, set_ptr bio (b\<lparr>bb_request := 0\<rparr>) h)
           | BIO_C_SHUTDOWN_WR \<Rightarrow> Some (1, set_ptr bio (b\<lparr>bb_closed := True\<rparr>) h)
           | BIO_CTRL_GET_CLOSE \<Rightarrow> Some (bio_shutdown x, h)
           | BIO_CTRL_SET_CLOSE \<Rightarrow> Some (1, h(bio \<mapsto> x\<lparr>bio_shutdown := num\<rparr>))
           | BIO_CTRL_PENDING \<Rightarrow>
               (case bb_peer b of
                  None \<Rightarrow> Some (0, h)
                | Some p \<Rightarrow> (case get_ptr p h of None \<Rightarrow> None | Some peer_b \<Rightarrow> Some (int (bb_len peer_b), h)))
           | BIO_CTRL_WPENDING \<Rightarrow> Some (if bb_buf b \<noteq> None then int (bb_len b) else 0, h)
           | BIO_CTRL_FLUSH \<Rightarrow> Some (1, h)
           | BIO_CTRL_EOF \<Rightarrow>
               (case ptr of
                  None \<Rightarrow> Some (1, h)
                | Some other \<Rightarrow>
                    (case get_ptr other h of
                       None \<Rightarrow> None
                     | Some other_b \<Rightarrow> Some (if bb_len other_b = 0 \<and> bb_closed other_b then 1 else 0, h)))
           | BIO_CTRL_OTHER \<Rightarrow> Some (0, h))
      | _ \<Rightarrow> None)"

section \<open>The generic entry points\<close>

text \<open>Dispatch through \<open>bio->method\<close>, which is the method of this file for every \<open>BIO\<close> here. A live
  \<open>BIO\<close> is required: \<open>BIO_read(NULL, ...)\<close> returns -2.\<close>

definition BIO_read :: "nat option \<Rightarrow> int \<Rightarrow> bio_heap \<Rightarrow> (int \<times> bytes \<times> bio_heap) option" where
  "BIO_read bio l h =
     (case bio of
        None \<Rightarrow> Some (-2, [], h)
      | Some a \<Rightarrow>
          (case h a of
             None \<Rightarrow> None
           | Some x \<Rightarrow>
               if \<not> bio_init x then Some (-2, [], h)
               else if l \<le> 0 then Some (0, [], h)
               else (case bio_read a False (nat l) h of
                       None \<Rightarrow> None
                     | Some (ret, out, h) \<Rightarrow>
                         Some (ret, out,
                           if ret > 0 then (case h a of None \<Rightarrow> h | Some x \<Rightarrow>
                             h(a \<mapsto> x\<lparr>bio_num_read := size_add (bio_num_read x) (nat ret)\<rparr>)) else h))))"

definition BIO_write :: "nat option \<Rightarrow> bytes \<Rightarrow> bio_heap \<Rightarrow> (int \<times> bio_heap) option" where
  "BIO_write bio inp h =
     (case bio of
        None \<Rightarrow> Some (-2, h)
      | Some a \<Rightarrow>
          (case h a of
             None \<Rightarrow> None
           | Some x \<Rightarrow>
               if \<not> bio_init x then Some (-2, h)
               else if inp = [] then Some (0, h)
               else (case bio_write a False inp h of
                       None \<Rightarrow> None
                     | Some (ret, h) \<Rightarrow>
                         Some (ret,
                           if ret > 0 then (case h a of None \<Rightarrow> h | Some x \<Rightarrow>
                             h(a \<mapsto> x\<lparr>bio_num_write := size_add (bio_num_write x) (nat ret)\<rparr>)) else h))))"

text \<open>The loop of \<open>BIO_write_all\<close>; at most \<open>INT_MAX\<close> bytes are offered at a time.\<close>

definition INT_MAX :: nat where "INT_MAX = 2 ^ 31 - 1"

partial_function (option) BIO_write_all :: "nat option \<Rightarrow> bytes \<Rightarrow> bio_heap \<Rightarrow> (bool \<times> bio_heap) option" where
  "BIO_write_all bio data h =
     (if data = [] then Some (True, h)
      else case BIO_write bio (take INT_MAX data) h of
             None \<Rightarrow> None
           | Some (ret, h) \<Rightarrow>
               if ret \<le> 0 then Some (False, h)
               else BIO_write_all bio (drop (nat ret) data) h)"

definition BIO_ctrl :: "nat option \<Rightarrow> bio_cmd \<Rightarrow> int \<Rightarrow> nat option \<Rightarrow> bio_heap \<Rightarrow> (int \<times> bio_heap) option" where
  "BIO_ctrl bio cmd larg parg h =
     (case bio of None \<Rightarrow> Some (0, h) | Some a \<Rightarrow> bio_ctrl a cmd larg parg h)"

definition BIO_pending :: "nat option \<Rightarrow> bio_heap \<Rightarrow> nat option" where
  "BIO_pending bio h =
     (case BIO_ctrl bio BIO_CTRL_PENDING 0 None h of
        None \<Rightarrow> None | Some (r, _) \<Rightarrow> if r < 0 then None else Some (nat r))"

definition BIO_wpending :: "nat option \<Rightarrow> bio_heap \<Rightarrow> nat option" where
  "BIO_wpending bio h =
     (case BIO_ctrl bio BIO_CTRL_WPENDING 0 None h of
        None \<Rightarrow> None | Some (r, _) \<Rightarrow> if r < 0 then None else Some (nat r))"

definition BIO_ctrl_get_read_request :: "nat option \<Rightarrow> bio_heap \<Rightarrow> (int \<times> bio_heap) option" where
  "BIO_ctrl_get_read_request bio h = BIO_ctrl bio BIO_C_GET_READ_REQUEST 0 None h"

definition BIO_ctrl_get_write_guarantee :: "nat option \<Rightarrow> bio_heap \<Rightarrow> (int \<times> bio_heap) option" where
  "BIO_ctrl_get_write_guarantee bio h = BIO_ctrl bio BIO_C_GET_WRITE_GUARANTEE 0 None h"

definition BIO_shutdown_wr :: "nat option \<Rightarrow> bio_heap \<Rightarrow> (int \<times> bio_heap) option" where
  "BIO_shutdown_wr bio h = BIO_ctrl bio BIO_C_SHUTDOWN_WR 0 None h"

text \<open>\<open>BIO_new_bio_pair\<close>; \<open>a1\<close> and \<open>a2\<close> are where the two objects end up. On failure what was
  allocated is freed: the heap is as it was.\<close>

definition BIO_new_bio_pair :: "allocator \<Rightarrow> nat \<Rightarrow> nat \<Rightarrow> nat \<Rightarrow> nat \<Rightarrow> nat \<Rightarrow> nat \<Rightarrow> bio_heap \<Rightarrow>
    (bool \<times> bio_heap) option" where
  "BIO_new_bio_pair alloc sizeof_bio sizeof_b a1 writebuf1_len a2 writebuf2_len h =
     (case (BIO_new alloc sizeof_bio sizeof_b, BIO_new alloc sizeof_bio sizeof_b) of
        (Some x1, Some x2) \<Rightarrow>
          (case bio_make_pair alloc a1 a2 writebuf1_len writebuf2_len (h(a1 \<mapsto> x1, a2 \<mapsto> x2)) of
             None \<Rightarrow> None
           | Some (ok, h') \<Rightarrow> Some (if ok then (True, h') else (False, h)))
      | _ \<Rightarrow> Some (False, h))"

text \<open>The loops by their equations, for evaluation.\<close>

declare bio_read_loop.simps [code] bio_write_loop.simps [code] BIO_write_all.simps [code]

end
