(* ===== verification/BioPair_Correct.thy ===== *)
theory BioPair_Correct
  imports BioPair "HOL-Library.Code_Target_Nat"
begin

text \<open>
  The ring buffers of a \<open>BIO\<close> pair are bounded FIFO queues. \<open>byte_queue\<close> is the contract, and the
  copying loops of \<open>bio_write\<close> and \<open>bio_read\<close> meet it. On top of it the pair is a state machine whose
  steps are the calls of the interface: in every reachable state no assertion can fail, no loop runs
  on, and in each direction what was received is a prefix of what was sent, the rest being in the
  ring.
\<close>

locale byte_queue =
  fixes ok :: "'s \<Rightarrow> bool" and content :: "'s \<Rightarrow> bytes" and free :: "'s \<Rightarrow> nat"
    and put :: "bytes \<Rightarrow> 's \<Rightarrow> 's option" and get :: "nat \<Rightarrow> 's \<Rightarrow> ('s \<times> bytes) option"
  assumes put_law: "\<lbrakk>ok s; d \<noteq> []; length d \<le> free s\<rbrakk> \<Longrightarrow>
      \<exists>s'. put d s = Some s' \<and> ok s' \<and> content s' = content s @ d \<and> free s' + length d = free s"
    and get_law: "\<lbrakk>ok s; 0 < n; n \<le> length (content s)\<rbrakk> \<Longrightarrow>
      \<exists>s'. get n s = Some (s', take n (content s)) \<and> ok s' \<and> content s' = drop n (content s) \<and>
        free s' = free s + n"
begin

lemma put_then_get:
  assumes "ok s" "content s = []" "d \<noteq> []" "length d \<le> free s"
  shows "\<exists>s1 s2. put d s = Some s1 \<and> get (length d) s1 = Some (s2, d) \<and> ok s2 \<and> content s2 = [] \<and>
    free s2 = free s"
proof -
  from put_law [OF assms(1,3,4)] assms(2) obtain s1 where
    s1: "put d s = Some s1" "ok s1" "content s1 = d" "free s1 + length d = free s" by auto
  from get_law [OF s1(2), of "length d"] s1 assms(3) show ?thesis by auto
qed

lemma get_twice:
  assumes "ok s" "0 < m" "0 < n" "m + n \<le> length (content s)"
  shows "\<exists>s1 s2 s2'. get m s = Some (s1, take m (content s)) \<and> get n s1 = Some (s2, take n (drop m (content s))) \<and>
    get (m + n) s = Some (s2', take m (content s) @ take n (drop m (content s))) \<and> content s2 = content s2'"
proof -
  from get_law [OF assms(1,2)] assms(4) obtain s1 where s1: "get m s = Some (s1, take m (content s))" "ok s1"
    "content s1 = drop m (content s)" by auto
  have "n \<le> length (content s1)" using s1(3) assms(4) by simp
  from get_law [OF s1(2) assms(3) this] s1(3) obtain s2 where
    s2: "get n s1 = Some (s2, take n (drop m (content s)))" "content s2 = drop n (drop m (content s))" by metis
  from get_law [OF assms(1), of "m + n"] assms(2,4) obtain s2' where
    "get (m + n) s = Some (s2', take (m + n) (content s))" "content s2' = drop (m + n) (content s)" by auto
  with s1 s2 show ?thesis by (auto simp: take_add add.commute)
qed

end

section \<open>The ring\<close>

definition ring_ok :: "bio_bio_st \<Rightarrow> bool" where
  "ring_ok b \<longleftrightarrow> (case bb_buf b of None \<Rightarrow> False | Some bf \<Rightarrow> length bf = bb_size b) \<and> 0 < bb_size b \<and>
     2 * bb_size b \<le> size_mod \<and> bb_len b \<le> bb_size b \<and> bb_offset b < bb_size b \<and>
     (bb_len b = 0 \<longrightarrow> bb_offset b = 0)"

definition ring_content :: "bio_bio_st \<Rightarrow> bytes" where
  "ring_content b = (case bb_buf b of None \<Rightarrow> []
     | Some bf \<Rightarrow> map (\<lambda>i. bf ! ((bb_offset b + i) mod bb_size b)) [0..<bb_len b])"

definition ring_free :: "bio_bio_st \<Rightarrow> nat" where
  "ring_free b = bb_size b - bb_len b"

lemma length_ring_content: "ring_ok b \<Longrightarrow> length (ring_content b) = bb_len b"
  by (auto simp: ring_ok_def ring_content_def split: option.splits)

lemma mod_wrap: "a < 2 * s \<Longrightarrow> a mod s = (if a < s then a else a - (s::nat))"
  by (simp add: mod_if)

text \<open>What a read does to everything in the ring but its position.\<close>

definition same_ring :: "bio_bio_st \<Rightarrow> bio_bio_st \<Rightarrow> bool" where
  "same_ring b b' \<longleftrightarrow> bb_peer b' = bb_peer b \<and> bb_closed b' = bb_closed b \<and> bb_size b' = bb_size b \<and>
     bb_request b' = bb_request b"

lemma read_loop_one:
  assumes ok: "ring_ok b" and n: "0 < n" "n \<le> bb_len b" and fit: "bb_offset b + n \<le> bb_size b"
  shows "\<exists>b'. bio_read_loop b n out = Some (b', out @ take n (ring_content b)) \<and> ring_ok b' \<and>
    ring_content b' = drop n (ring_content b) \<and> same_ring b b'"
proof -
  from ok obtain bf where bf: "bb_buf b = Some bf" "length bf = bb_size b"
    by (auto simp: ring_ok_def split: option.splits)
  have sum: "size_add (bb_offset b) n = bb_offset b + n"
    using ok fit by (simp add: ring_ok_def)
  have chunk: "take n (drop (bb_offset b) bf) = take n (ring_content b)"
    using ok n fit bf by (intro nth_equalityI) (auto simp: ring_content_def ring_ok_def)
  show ?thesis
  proof (cases "n = bb_len b")
    case True
    with ok n fit bf sum chunk show ?thesis
      by (subst bio_read_loop.simps) (auto simp: ring_ok_def ring_content_def same_ring_def Let_def)
  next
    case False
    define off where "off = (if bb_offset b + n = bb_size b then 0 else bb_offset b + n)"
    have "drop n (ring_content b) = map (\<lambda>i. bf ! ((off + i) mod bb_size b)) [0..<bb_len b - n]"
    proof (rule nth_equalityI)
      show "length (drop n (ring_content b)) = length (map (\<lambda>i. bf ! ((off + i) mod bb_size b)) [0..<bb_len b - n])"
        using bf by (simp add: ring_content_def)
      fix i assume "i < length (drop n (ring_content b))"
      then have i: "i < bb_len b - n" "n + i < bb_len b" using bf by (simp_all add: ring_content_def)
      have "(bb_offset b + (n + i)) mod bb_size b = (off + i) mod bb_size b"
        by (simp add: off_def add.assoc [symmetric])
      with i bf show "drop n (ring_content b) ! i = map (\<lambda>i. bf ! ((off + i) mod bb_size b)) [0..<bb_len b - n] ! i"
        by (simp add: ring_content_def)
    qed
    with False ok n fit bf sum chunk show ?thesis
      by (subst bio_read_loop.simps)
        (auto simp: ring_ok_def ring_content_def same_ring_def Let_def off_def)
  qed
qed

lemma read_loop:
  assumes ok: "ring_ok b" and n: "0 < n" "n \<le> bb_len b"
  shows "\<exists>b'. bio_read_loop b n [] = Some (b', take n (ring_content b)) \<and> ring_ok b' \<and>
    ring_content b' = drop n (ring_content b) \<and> same_ring b b'"
proof (cases "bb_offset b + n \<le> bb_size b")
  case True
  with read_loop_one [OF ok n True, of "[]"] show ?thesis by simp
next
  case False
  from ok obtain bf where bf: "bb_buf b = Some bf" "length bf = bb_size b"
    by (auto simp: ring_ok_def split: option.splits)
  define c where "c = bb_size b - bb_offset b"
  have c: "0 < c" "c < n" "bb_offset b + c = bb_size b" using ok False by (auto simp: c_def ring_ok_def)
  have sum: "size_add (bb_offset b) n = bb_offset b + n"
    using ok n by (simp add: ring_ok_def)
  define b1 where "b1 = b\<lparr>bb_len := bb_len b - c, bb_offset := 0\<rparr>"
  have ok1: "ring_ok b1" using ok bf c n by (auto simp: b1_def ring_ok_def)
  have cont: "ring_content b1 = drop c (ring_content b)"
  proof (rule nth_equalityI)
    show "length (ring_content b1) = length (drop c (ring_content b))"
      using bf by (simp add: ring_content_def b1_def)
    fix i assume "i < length (ring_content b1)"
    then have i: "i < bb_len b - c" "c + i < bb_len b" using bf by (simp_all add: ring_content_def b1_def)
    have "(bb_offset b + (c + i)) mod bb_size b = i mod bb_size b"
      using ok by (simp add: c_def ring_ok_def add.assoc [symmetric])
    with i bf show "ring_content b1 ! i = drop c (ring_content b) ! i"
      by (simp add: ring_content_def b1_def)
  qed
  have chunk: "take c (drop (bb_offset b) bf) = take c (ring_content b)"
    using ok c n bf by (intro nth_equalityI) (auto simp: ring_content_def ring_ok_def c_def)
  have step: "bio_read_loop b n [] = bio_read_loop b1 (n - c) (take c (ring_content b))"
    using False ok n c bf sum chunk
    by (subst bio_read_loop.simps) (auto simp: Let_def c_def [symmetric] b1_def ring_ok_def)
  have "bb_offset b1 + (n - c) \<le> bb_size b1" using ok n by (auto simp: b1_def ring_ok_def)
  moreover have "0 < n - c" "n - c \<le> bb_len b1" using c n by (simp_all add: b1_def)
  ultimately obtain b' where b': "bio_read_loop b1 (n - c) (take c (ring_content b)) =
      Some (b', take c (ring_content b) @ take (n - c) (ring_content b1))" "ring_ok b'"
    "ring_content b' = drop (n - c) (ring_content b1)" "same_ring b1 b'"
    using read_loop_one [OF ok1] by blast
  have "take c (ring_content b) @ take (n - c) (ring_content b1) = take n (ring_content b)"
    using c take_add [of c "n - c" "ring_content b"] by (simp add: cont)
  moreover have "drop (n - c) (ring_content b1) = drop n (ring_content b)"
    using c by (simp add: cont)
  ultimately show ?thesis using b' step by (auto simp: same_ring_def b1_def)
qed

text \<open>One iteration: the offset is taken modulo the size, and the chunk ends at the end of the buffer.\<close>

lemma write_loop_step:
  assumes ok: "ring_ok b" and bf: "bb_buf b = Some bf" and n: "bb_len b + n \<le> bb_size b"
    and w: "w = (bb_offset b + bb_len b) mod bb_size b" and c: "c = (if w + n \<le> bb_size b then n else bb_size b - w)"
    and b': "b' = b\<lparr>bb_buf := Some (mem_write w (take c src) bf), bb_len := bb_len b + c\<rparr>"
  shows "bio_write_loop b n src = (if n - c \<noteq> 0 then bio_write_loop b' (n - c) (drop c src) else Some b')"
proof -
  have w1: "(if bb_offset b + bb_len b \<ge> bb_size b then bb_offset b + bb_len b - bb_size b else bb_offset b + bb_len b) = w"
    using ok mod_wrap [of "bb_offset b + bb_len b" "bb_size b"] by (simp add: w ring_ok_def)
  have wlt: "w < bb_size b" using ok by (simp add: w ring_ok_def)
  have s1: "size_add (bb_offset b) (bb_len b) = bb_offset b + bb_len b"
    using ok by (intro size_add_small) (auto simp: ring_ok_def)
  have s2: "size_add w n = w + n" using ok wlt n by (intro size_add_small) (auto simp: ring_ok_def)
  have "\<not> bb_size b < bb_len b + n" "\<not> bb_size b' < bb_len b'" using n by (auto simp: c b')
  then show ?thesis
    by (subst bio_write_loop.simps) (simp only: bf option.case Let_def s1 w1 s2 c [symmetric] if_False
        bio_bio_st.simps b' [symmetric])
qed

lemma write_loop_one:
  assumes ok: "ring_ok b" and n: "0 < n" "bb_len b + n \<le> bb_size b" "n \<le> length src"
    and fit: "(bb_offset b + bb_len b) mod bb_size b + n \<le> bb_size b"
  shows "\<exists>b'. bio_write_loop b n src = Some b' \<and> ring_ok b' \<and> ring_content b' = ring_content b @ take n src \<and>
    bb_len b' = bb_len b + n \<and> same_ring b b'"
proof -
  from ok obtain bf where bf: "bb_buf b = Some bf" "length bf = bb_size b"
    by (auto simp: ring_ok_def split: option.splits)
  define w where "w = (bb_offset b + bb_len b) mod bb_size b"
  have w: "w = (if bb_offset b + bb_len b < bb_size b then bb_offset b + bb_len b else bb_offset b + bb_len b - bb_size b)"
    using ok mod_wrap [of "bb_offset b + bb_len b" "bb_size b"] by (simp add: w_def ring_ok_def)
  define b' where "b' = b\<lparr>bb_buf := Some (mem_write w (take n src) bf), bb_len := bb_len b + n\<rparr>"
  have run: "bio_write_loop b n src = Some b'"
    using write_loop_step [OF ok bf(1) n(2) w_def refl refl, of src] fit
    by (simp add: w_def [symmetric] b'_def)
  have ok': "ring_ok b'" using ok n bf fit by (auto simp: ring_ok_def b'_def w_def)
  have "ring_content b' = ring_content b @ take n src"
  proof (rule nth_equalityI)
    show "length (ring_content b') = length (ring_content b @ take n src)"
      using bf n by (simp add: ring_content_def b'_def)
    fix i assume "i < length (ring_content b')"
    then have i: "i < bb_len b + n" by (simp add: ring_content_def b'_def)
    let ?j = "(bb_offset b + i) mod bb_size b"
    have j: "?j = (if bb_offset b + i < bb_size b then bb_offset b + i else bb_offset b + i - bb_size b)"
      using ok i n mod_wrap [of "bb_offset b + i" "bb_size b"] by (simp add: ring_ok_def)
    have jl: "?j < length bf" using ok bf by (simp add: ring_ok_def)
    have wl: "w + length (take n src) \<le> length bf" using bf fit n by (simp add: w_def)
    have lhs: "ring_content b' ! i = mem_write w (take n src) bf ! ?j"
      using i by (simp add: ring_content_def b'_def del: upt_Suc)
    show "ring_content b' ! i = (ring_content b @ take n src) ! i"
    proof (cases "i < bb_len b")
      case True
      then have "\<not> (w \<le> ?j \<and> ?j < w + n)"
        using w j n ok by (auto simp: ring_ok_def split: if_splits)
      then have "mem_write w (take n src) bf ! ?j = bf ! ?j"
        using nth_mem_write [OF wl jl] n by auto
      with lhs True bf show ?thesis
        by (simp add: nth_append ring_content_def [of b])
    next
      case False
      then have "?j = w + (i - bb_len b)"
        using w j i fit ok by (auto simp: ring_ok_def w_def [symmetric] split: if_splits)
      then have "mem_write w (take n src) bf ! ?j = take n src ! (i - bb_len b)"
        using nth_mem_write [OF wl jl] n i by auto
      with lhs False bf i show ?thesis
        by (simp add: nth_append ring_content_def [of b])
    qed
  qed
  with run ok' show ?thesis by (auto simp: b'_def same_ring_def)
qed


lemma write_loop:
  assumes ok: "ring_ok b" and n: "0 < n" "bb_len b + n \<le> bb_size b" "n \<le> length src"
  shows "\<exists>b'. bio_write_loop b n src = Some b' \<and> ring_ok b' \<and> ring_content b' = ring_content b @ take n src \<and>
    bb_len b' = bb_len b + n \<and> same_ring b b'"
proof (cases "(bb_offset b + bb_len b) mod bb_size b + n \<le> bb_size b")
  case True
  show ?thesis by (rule write_loop_one [OF ok n True])
next
  case False
  from ok obtain bf where bf: "bb_buf b = Some bf" "length bf = bb_size b"
    by (auto simp: ring_ok_def split: option.splits)
  define w where "w = (bb_offset b + bb_len b) mod bb_size b"
  define c where "c = bb_size b - w"
  have wlt: "w < bb_size b" using ok by (simp add: w_def ring_ok_def)
  have c: "0 < c" "c < n" "w + c = bb_size b" using False wlt by (auto simp: c_def w_def)
  from write_loop_one [OF ok c(1), of src] n c obtain b1 where
    run1: "bio_write_loop b c src = Some b1" and b1: "ring_ok b1" "ring_content b1 = ring_content b @ take c src"
      "bb_len b1 = bb_len b + c" "same_ring b b1" by (auto simp: w_def)
  have b1eq: "b1 = b\<lparr>bb_buf := Some (mem_write w (take c src) bf), bb_len := bb_len b + c\<rparr>"
    using run1 write_loop_step [OF ok bf(1) _ w_def refl refl, of c src] n c by simp
  have step: "bio_write_loop b n src = bio_write_loop b1 (n - c) (drop c src)"
    using write_loop_step [OF ok bf(1) n(2) w_def refl refl, of src] c b1eq by (simp add: c_def [symmetric])
  have "bb_offset b + bb_len b = bb_size b - c \<or> bb_offset b + bb_len b = 2 * bb_size b - c"
    using ok c mod_wrap [of "bb_offset b + bb_len b" "bb_size b"]
    by (auto simp: w_def ring_ok_def split: if_splits)
  then have "bb_offset b1 + bb_len b1 = bb_size b \<or> bb_offset b1 + bb_len b1 = 2 * bb_size b"
    using c ok by (auto simp: b1eq ring_ok_def)
  then have "(bb_offset b1 + bb_len b1) mod bb_size b1 = 0" by (auto simp: b1eq)
  then have "(bb_offset b1 + bb_len b1) mod bb_size b1 + (n - c) \<le> bb_size b1"
    using n by (simp add: b1eq)
  moreover have "0 < n - c" "bb_len b1 + (n - c) \<le> bb_size b1" "n - c \<le> length (drop c src)"
    using c n by (simp_all add: b1eq)
  ultimately obtain b' where
    run2: "bio_write_loop b1 (n - c) (drop c src) = Some b'" and b': "ring_ok b'"
      "ring_content b' = ring_content b1 @ take (n - c) (drop c src)" "bb_len b' = bb_len b1 + (n - c)" "same_ring b1 b'"
    using write_loop_one [OF b1(1)] by blast
  have "take c src @ take (n - c) (drop c src) = take n src"
    using take_add [of c "n - c" src] c by simp
  with run2 b' b1 step c show ?thesis by (auto simp: same_ring_def)
qed

interpretation ring: byte_queue ring_ok ring_content ring_free
  "\<lambda>d b. bio_write_loop b (length d) d" "\<lambda>n b. bio_read_loop b n []"
proof unfold_locales
  fix b :: bio_bio_st and d :: bytes
  assume a: "ring_ok b" "d \<noteq> []" "length d \<le> ring_free b"
  then have le: "bb_len b + length d \<le> bb_size b" by (auto simp: ring_free_def ring_ok_def)
  from write_loop [OF a(1) _ le, of d] a(2) obtain b' where
    "bio_write_loop b (length d) d = Some b'" "ring_ok b'" "ring_content b' = ring_content b @ d"
    "bb_len b' = bb_len b + length d" "same_ring b b'" by auto
  with le show "\<exists>s'. bio_write_loop b (length d) d = Some s' \<and> ring_ok s' \<and> ring_content s' = ring_content b @ d \<and>
    ring_free s' + length d = ring_free b"
    by (simp add: ring_free_def same_ring_def)
next
  fix b n
  assume a: "ring_ok b" "0 < n" "n \<le> length (ring_content b)"
  then have n: "n \<le> bb_len b" by (simp add: length_ring_content)
  from read_loop [OF a(1,2) n] obtain b' where b': "bio_read_loop b n [] = Some (b', take n (ring_content b))"
    "ring_ok b'" "ring_content b' = drop n (ring_content b)" "same_ring b b'" by blast
  then have "bb_len b' = bb_len b - n" using length_ring_content a(1) by (metis length_drop)
  with b' n show "\<exists>s'. bio_read_loop b n [] = Some (s', take n (ring_content b)) \<and> ring_ok s' \<and>
    ring_content s' = drop n (ring_content b) \<and> ring_free s' = ring_free b + n"
    using a(1) by (auto simp: ring_free_def same_ring_def ring_ok_def)
qed


section \<open>A connected pair\<close>

text \<open>The invariant of one side: its ring is sound, and a pending read request only exists while the
  ring is empty and never exceeds what one write could deliver.\<close>

definition side_ok :: "nat \<Rightarrow> nat \<Rightarrow> bio_heap \<Rightarrow> bool" where
  "side_ok a c h \<longleftrightarrow>
     (case h a of None \<Rightarrow> False
      | Some x \<Rightarrow> bio_init x \<and>
          (case bio_ptr x of None \<Rightarrow> False
           | Some b \<Rightarrow> bb_peer b = Some c \<and> ring_ok b \<and> (bb_len b \<noteq> 0 \<longrightarrow> bb_request b = 0) \<and>
               bb_request b \<le> bb_size b - bb_len b))"

definition pair_ok :: "nat \<Rightarrow> nat \<Rightarrow> bio_heap \<Rightarrow> bool" where
  "pair_ok a c h \<longleftrightarrow> a \<noteq> c \<and> side_ok a c h \<and> side_ok c a h"

text \<open>What is in flight from \<open>a\<close> to its peer.\<close>

definition in_flight :: "nat \<Rightarrow> bio_heap \<Rightarrow> bytes" where
  "in_flight a h = (case get_ptr a h of None \<Rightarrow> [] | Some b \<Rightarrow> ring_content b)"

lemma pair_ok_sym: "pair_ok a c h \<longleftrightarrow> pair_ok c a h"
  by (auto simp: pair_ok_def)

lemma side_okE:
  assumes "side_ok a c h"
  obtains x b where "h a = Some x" "bio_init x" "bio_ptr x = Some b" "get_ptr a h = Some b" "bb_peer b = Some c"
    "ring_ok b" "bb_len b \<noteq> 0 \<Longrightarrow> bb_request b = 0" "bb_request b \<le> bb_size b - bb_len b" "bb_buf b \<noteq> None"
  using assms by (auto simp: side_ok_def get_ptr_def ring_ok_def split: option.splits)

lemma pair_okE:
  assumes "pair_ok a c h"
  obtains x b y d where "a \<noteq> c" "side_ok a c h" "side_ok c a h"
    "h a = Some x" "bio_init x" "bio_ptr x = Some b" "bb_peer b = Some c" "ring_ok b" "bb_buf b \<noteq> None"
    "h c = Some y" "bio_init y" "bio_ptr y = Some d" "bb_peer d = Some a" "ring_ok d" "bb_buf d \<noteq> None"
proof -
  from assms have s: "a \<noteq> c" "side_ok a c h" "side_ok c a h" by (simp_all add: pair_ok_def)
  obtain x b where "h a = Some x" "bio_init x" "bio_ptr x = Some b" "bb_peer b = Some c" "ring_ok b" "bb_buf b \<noteq> None"
    using s(2) by (rule side_okE) blast
  moreover obtain y d where "h c = Some y" "bio_init y" "bio_ptr y = Some d" "bb_peer d = Some a" "ring_ok d" "bb_buf d \<noteq> None"
    using s(3) by (rule side_okE) blast
  ultimately show thesis using that s by blast
qed

lemma heap_simps [simp]:
  "h a = Some x \<Longrightarrow> set_ptr a b h = h(a \<mapsto> x\<lparr>bio_ptr := Some b\<rparr>)"
  "h a = Some x \<Longrightarrow> get_ptr a h = bio_ptr x"
  by (simp_all add: set_ptr_def get_ptr_def)

lemma clear_retry_simps [simp]:
  "bio_init (BIO_clear_retry_flags x) = bio_init x" "bio_ptr (BIO_clear_retry_flags x) = bio_ptr x"
  "bio_init (BIO_set_retry_write x) = bio_init x" "bio_ptr (BIO_set_retry_write x) = bio_ptr x"
  "bio_init (BIO_set_retry_read x) = bio_init x" "bio_ptr (BIO_set_retry_read x) = bio_ptr x"
  by (simp_all add: BIO_clear_retry_flags_def BIO_set_retry_write_def BIO_set_retry_read_def)

text \<open>The value \<open>BIO_write\<close> returns: as much as fits, or -1 when the pipe is closed or full.\<close>

definition write_result :: "bio_bio_st \<Rightarrow> bytes \<Rightarrow> int" where
  "write_result b d =
     (if d = [] then 0 else if bb_closed b \<or> bb_len b = bb_size b then -1
      else int (min (length d) (bb_size b - bb_len b)))"

lemma BIO_write_ok:
  assumes ok: "pair_ok a c h" and b: "get_ptr a h = Some b"
  shows "\<exists>h' b'. BIO_write (Some a) d h = Some (write_result b d, h') \<and> pair_ok a c h' \<and>
    get_ptr a h' = Some b' \<and> ring_content b' = ring_content b @ take (nat (write_result b d)) d \<and>
    bb_closed b' = bb_closed b \<and> bb_size b' = bb_size b \<and> (d \<noteq> [] \<longrightarrow> bb_request b' = 0) \<and> h' c = h c"
proof -
  obtain x where x: "h a = Some x" "bio_init x" "bio_ptr x = Some b" "bb_peer b = Some c" "ring_ok b"
    "bb_buf b \<noteq> None" and ac: "a \<noteq> c" "c \<noteq> a"
    using ok b by (rule_tac pair_okE [OF ok]) simp
  let ?x = "BIO_clear_retry_flags x" and ?b = "b\<lparr>bb_request := 0\<rparr>"
  have rb: "ring_ok ?b" "ring_content ?b = ring_content b"
    using x by (auto simp: ring_ok_def ring_content_def)
  have len: "bb_len b \<le> bb_size b" using x by (simp add: ring_ok_def)
  have side: "side_ok c a h" using ok by (simp add: pair_ok_def)
  show ?thesis
  proof (cases "d = [] \<or> bb_closed b \<or> bb_len b = bb_size b")
    case True
    then show ?thesis
      using x rb side ac ok
      by (auto simp: BIO_write_def bio_write_def write_result_def pair_ok_def side_ok_def Let_def)
  next
    case False
    define n where "n = min (length d) (bb_size b - bb_len b)"
    have n: "0 < n" "bb_len ?b + n \<le> bb_size ?b" "n \<le> length d" "n \<noteq> 0"
      using False len by (auto simp: n_def)
    have num: "(if length d > bb_size b - bb_len b then bb_size ?b - bb_len ?b else length d) = n"
      by (auto simp: n_def)
    from write_loop [OF rb(1) n(1-3)] obtain b' where b': "bio_write_loop ?b n d = Some b'" "ring_ok b'"
      "ring_content b' = ring_content ?b @ take n d" "bb_len b' = bb_len b + n" "same_ring ?b b'" by auto
    have "write_result b d = int n" using False by (simp add: write_result_def n_def)
    moreover obtain bf where "bb_buf b = Some bf" using x by blast
    then have "bio_write a False d h = Some (int n, h(a \<mapsto> ?x\<lparr>bio_ptr := Some b'\<rparr>))"
      using False x len b'(1) num n(4) by (simp add: bio_write_def Let_def not_less split del: if_split)
    ultimately show ?thesis
      using False x rb side ac n len b'
      by (simp add: BIO_write_def pair_ok_def side_ok_def same_ring_def)
  qed
qed

text \<open>And \<open>BIO_read\<close>: what is there, up to the length asked for; 0 at the end; -1 when there is
  nothing yet.\<close>

definition read_result :: "bio_bio_st \<Rightarrow> int \<Rightarrow> int" where
  "read_result b l =
     (if l \<le> 0 then 0 else if bb_len b = 0 then (if bb_closed b then 0 else -1)
      else min l (int (bb_len b)))"

lemma BIO_read_ok:
  assumes ok: "pair_ok a c h" and b: "get_ptr c h = Some b"
  shows "\<exists>h' b'. BIO_read (Some a) l h = Some (read_result b l, take (nat (read_result b l)) (ring_content b), h') \<and>
    pair_ok a c h' \<and> get_ptr c h' = Some b' \<and> ring_content b' = drop (nat (read_result b l)) (ring_content b) \<and>
    bb_closed b' = bb_closed b \<and> get_ptr a h' = get_ptr a h"
proof -
  obtain x y ba where x: "h a = Some x" "bio_init x" "bio_ptr x = Some ba" "bb_peer ba = Some c"
    and y: "h c = Some y" "bio_init y" "bio_ptr y = Some b" "bb_peer b = Some a" "ring_ok b" "bb_buf b \<noteq> None"
    and ac: "a \<noteq> c" "c \<noteq> a"
    using ok b by (rule_tac pair_okE [OF ok]) simp
  let ?b = "b\<lparr>bb_request := 0\<rparr>"
  have rb: "ring_ok ?b" "ring_content ?b = ring_content b"
    using y by (auto simp: ring_ok_def ring_content_def)
  have len: "bb_len b \<le> bb_size b" "length (ring_content b) = bb_len b"
    using y length_ring_content by (simp_all add: ring_ok_def)
  have side: "side_ok a c h" using ok by (simp add: pair_ok_def)
  show ?thesis
  proof (cases "l \<le> 0 \<or> bb_len b = 0")
    case True
    have "ring_ok (b\<lparr>bb_request := k\<rparr>)" "ring_content (b\<lparr>bb_request := k\<rparr>) = ring_content b" for k
      using y by (auto simp: ring_ok_def ring_content_def)
    with True show ?thesis
      using x y side ac ok len
      by (auto simp: BIO_read_def bio_read_def read_result_def pair_ok_def side_ok_def Let_def)
  next
    case False
    define n where "n = (if bb_len b < nat l then bb_len b else nat l)"
    have n: "0 < n" "n \<le> bb_len ?b" using False by (auto simp: n_def)
    from read_loop [OF rb(1) n] obtain b' where b': "bio_read_loop ?b n [] = Some (b', take n (ring_content ?b))"
      "ring_ok b'" "ring_content b' = drop n (ring_content ?b)" "same_ring ?b b'" by blast
    have res: "read_result b l = int n" using False by (auto simp: read_result_def n_def)
    obtain bf where bf: "bb_buf b = Some bf" using y by blast
    have num: "(if bb_len b < nat l then bb_len ?b else nat l) = n" by (simp add: n_def)
    have l: "\<not> l \<le> 0" "bb_len b \<noteq> 0" "n \<noteq> 0" using False n by simp_all
    have "bio_read a False (nat l) h = Some (int n, take n (ring_content b),
        h(a \<mapsto> BIO_clear_retry_flags x, c \<mapsto> y\<lparr>bio_ptr := Some b'\<rparr>))"
      by (simp add: bio_read_def Let_def x y bf l ac b'(1) rb(2) num split del: if_split)
    then show ?thesis
      using False x y rb side ac n len b' res
      by (simp add: BIO_read_def pair_ok_def side_ok_def same_ring_def)
  qed
qed

lemma BIO_ctrl_ok:
  assumes ok: "pair_ok a c h" and ptr: "ptr \<in> {None, Some a, Some c}"
  shows "\<exists>ret h'. BIO_ctrl (Some a) cmd num ptr h = Some (ret, h') \<and> pair_ok a c h' \<and>
    in_flight a h' = in_flight a h \<and> in_flight c h' = in_flight c h"
proof -
  obtain x b y bc where x: "h a = Some x" "bio_init x" "bio_ptr x = Some b" "bb_peer b = Some c" "ring_ok b"
    "bb_buf b \<noteq> None" and y: "h c = Some y" "bio_ptr y = Some bc" and ac: "a \<noteq> c" "c \<noteq> a"
    by (rule pair_okE [OF ok]) simp
  have r: "ring_ok (b\<lparr>bb_request := 0\<rparr>)" "ring_content (b\<lparr>bb_request := 0\<rparr>) = ring_content b"
    "ring_ok (b\<lparr>bb_closed := True\<rparr>)" "ring_content (b\<lparr>bb_closed := True\<rparr>) = ring_content b"
    using x by (auto simp: ring_ok_def ring_content_def)
  show ?thesis
    using ok x y ac ptr r
    by (cases cmd) (auto simp: BIO_ctrl_def bio_ctrl_def pair_ok_def side_ok_def in_flight_def)
qed


section \<open>Creation\<close>

lemma pair_alloc_ok:
  assumes al: "allocator_ok al" and n: "2 * n \<le> size_mod" and run: "pair_alloc al n b = (Some b', b1)"
    and b: "bb_buf b = None" "bb_size b = 17 * 1024" "bb_request b = 0"
  shows "ring_ok b' \<and> ring_content b' = [] \<and> bb_len b' = 0 \<and> bb_request b' = 0 \<and> bb_closed b' = bb_closed b"
  using run b n
  by (auto simp: pair_alloc_def ring_ok_def ring_content_def Let_def size_mod_def allocator_okD [OF al]
      split: option.splits if_splits)

lemma ring_ok_update [simp]:
  "ring_ok (b\<lparr>bb_peer := p, bb_closed := c, bb_request := r\<rparr>) = ring_ok b"
  "ring_content (b\<lparr>bb_peer := p, bb_closed := c, bb_request := r\<rparr>) = ring_content b"
  by (auto simp: ring_ok_def ring_content_def split: option.splits)

lemma BIO_new_bio_pair_ok:
  assumes al: "allocator_ok al" and n: "2 * n1 \<le> size_mod" "2 * n2 \<le> size_mod" and ac: "a1 \<noteq> a2"
    and run: "BIO_new_bio_pair al s1 s2 a1 n1 a2 n2 h0 = Some (True, h)"
  shows "pair_ok a1 a2 h \<and> in_flight a1 h = [] \<and> in_flight a2 h = []"
proof -
  define b0 where "b0 = \<lparr>bb_peer = None, bb_closed = False, bb_len = 0, bb_offset = 0,
                      bb_size = 17 * 1024, bb_buf = None, bb_request = 0\<rparr>"
  define x0 where "x0 = \<lparr>bio_init = False, bio_shutdown = 1, bio_flags = 0, bio_retry_reason = 0,
     bio_references = 1, bio_ptr = Some b0, bio_num_read = 0, bio_num_write = 0\<rparr>"
  from run have new: "BIO_new al s1 s2 = Some x0"
    by (auto simp: BIO_new_bio_pair_def BIO_new_def bio_new_def x0_def b0_def split: option.splits)
  have ptrs: "get_ptr a1 (h0(a1 \<mapsto> x0, a2 \<mapsto> x0)) = Some b0" "get_ptr a2 (h0(a1 \<mapsto> x0, a2 \<mapsto> x0)) = Some b0"
    "bb_peer b0 = None" using ac by (simp_all add: get_ptr_def x0_def b0_def)
  from run new have mk: "bio_make_pair al a1 a2 n1 n2 (h0(a1 \<mapsto> x0, a2 \<mapsto> x0)) = Some (True, h)"
    by (auto simp: BIO_new_bio_pair_def split: option.splits prod.splits if_splits)
  with ptrs obtain b1 r1 b2 r2 where b1: "pair_alloc al n1 b0 = (Some b1, r1)" and b2: "pair_alloc al n2 b0 = (Some b2, r2)"
    by (auto simp: bio_make_pair_def Let_def split: option.splits prod.splits)
  have h: "h = h0(a1 \<mapsto> x0\<lparr>bio_ptr := Some (b1\<lparr>bb_peer := Some a2, bb_closed := False, bb_request := 0\<rparr>), bio_init := True\<rparr>,
      a2 \<mapsto> x0\<lparr>bio_ptr := Some (b2\<lparr>bb_peer := Some a1, bb_closed := False, bb_request := 0\<rparr>), bio_init := True\<rparr>)"
    using mk ptrs b1 b2 ac
    by (simp add: bio_make_pair_def Let_def set_init_def set_ptr_def fun_upd_twist)
  have f: "bb_buf b0 = None" "bb_size b0 = 17 * 1024" "bb_request b0 = 0" by (simp_all add: b0_def)
  from pair_alloc_ok [OF al n(1) b1 f] pair_alloc_ok [OF al n(2) b2 f] ac show ?thesis
    by (simp add: h pair_ok_def side_ok_def in_flight_def get_ptr_def)
qed

section \<open>The state machine\<close>

text \<open>The calls a program makes on a pair, with what they returned.\<close>

datatype pair_event = Wrote nat bytes int | Got nat bytes int | Controlled nat bio_cmd int

inductive pair_step :: "nat \<Rightarrow> nat \<Rightarrow> bio_heap \<Rightarrow> pair_event \<Rightarrow> bio_heap \<Rightarrow> bool" for a1 a2 where
  step_write: "a \<in> {a1, a2} \<Longrightarrow> BIO_write (Some a) d h = Some (r, h') \<Longrightarrow> pair_step a1 a2 h (Wrote a d r) h'"
| step_read: "a \<in> {a1, a2} \<Longrightarrow> BIO_read (Some a) l h = Some (r, out, h') \<Longrightarrow> pair_step a1 a2 h (Got a out r) h'"
| step_ctrl: "a \<in> {a1, a2} \<Longrightarrow> ptr \<in> {None, Some a1, Some a2} \<Longrightarrow>
    BIO_ctrl (Some a) cmd num ptr h = Some (r, h') \<Longrightarrow> pair_step a1 a2 h (Controlled a cmd r) h'"

inductive_cases pair_step_writeE: "pair_step a1 a2 h (Wrote a d r) h'"
inductive_cases pair_step_readE: "pair_step a1 a2 h (Got a out r) h'"
inductive_cases pair_step_ctrlE: "pair_step a1 a2 h (Controlled a cmd r) h'"

inductive pair_trace :: "nat \<Rightarrow> nat \<Rightarrow> bio_heap \<Rightarrow> pair_event list \<Rightarrow> bio_heap \<Rightarrow> bool" for a1 a2 h0 where
  trace_start: "pair_trace a1 a2 h0 [] h0"
| trace_step: "pair_trace a1 a2 h0 evs h \<Longrightarrow> pair_step a1 a2 h ev h' \<Longrightarrow> pair_trace a1 a2 h0 (evs @ [ev]) h'"

fun sent_by :: "nat \<Rightarrow> pair_event \<Rightarrow> bytes" where
  "sent_by a (Wrote c d r) = (if a = c then take (nat r) d else [])"
| "sent_by a _ = []"

fun got_by :: "nat \<Rightarrow> pair_event \<Rightarrow> bytes" where
  "got_by a (Got c out r) = (if a = c then out else [])"
| "got_by a _ = []"

definition all_sent :: "nat \<Rightarrow> pair_event list \<Rightarrow> bytes" where
  "all_sent a evs = concat (map (sent_by a) evs)"

definition all_got :: "nat \<Rightarrow> pair_event list \<Rightarrow> bytes" where
  "all_got a evs = concat (map (got_by a) evs)"

text \<open>One step keeps the invariant, and moves bytes only from the front of a ring to its reader and
  from a writer to the back of its ring.\<close>

definition moves :: "nat \<Rightarrow> nat \<Rightarrow> bio_heap \<Rightarrow> pair_event \<Rightarrow> bio_heap \<Rightarrow> bool" where
  "moves a c h ev h' \<longleftrightarrow> in_flight a h @ sent_by a ev = got_by c ev @ in_flight a h'"

lemma write_step:
  assumes ok: "pair_ok a c h" and run: "BIO_write (Some a) d h = Some (r, h')"
  shows "pair_ok a c h' \<and> moves a c h (Wrote a d r) h' \<and> moves c a h (Wrote a d r) h'"
proof -
  obtain b where b: "get_ptr a h = Some b" by (rule pair_okE [OF ok]) simp
  from BIO_write_ok [OF ok b, of d] run obtain b' where "pair_ok a c h'" "get_ptr a h' = Some b'"
    "ring_content b' = ring_content b @ take (nat r) d" "h' c = h c" by auto
  moreover have "a \<noteq> c" using ok by (simp add: pair_ok_def)
  ultimately show ?thesis using b by (auto simp: moves_def in_flight_def get_ptr_def)
qed

lemma read_step:
  assumes ok: "pair_ok a c h" and run: "BIO_read (Some a) l h = Some (r, out, h')"
  shows "pair_ok a c h' \<and> moves a c h (Got a out r) h' \<and> moves c a h (Got a out r) h'"
proof -
  obtain b where b: "get_ptr c h = Some b" by (rule pair_okE [OF ok]) simp
  from BIO_read_ok [OF ok b, of l] run obtain b' where "pair_ok a c h'" "get_ptr c h' = Some b'"
    "out = take (nat r) (ring_content b)" "ring_content b' = drop (nat r) (ring_content b)"
    "get_ptr a h' = get_ptr a h" by auto
  moreover have "a \<noteq> c" using ok by (simp add: pair_ok_def)
  ultimately show ?thesis using b by (auto simp: moves_def in_flight_def)
qed

lemma ctrl_step:
  assumes ok: "pair_ok a c h" and ptr: "ptr \<in> {None, Some a, Some c}"
    and run: "BIO_ctrl (Some a) cmd num ptr h = Some (r, h')"
  shows "pair_ok a c h' \<and> moves a c h (Controlled a cmd r) h' \<and> moves c a h (Controlled a cmd r) h'"
  using BIO_ctrl_ok [OF ok ptr, of cmd num] run by (auto simp: moves_def)

lemma pair_step_keeps:
  assumes ok: "pair_ok a1 a2 h" and step: "pair_step a1 a2 h ev h'"
  shows "pair_ok a1 a2 h' \<and> moves a1 a2 h ev h' \<and> moves a2 a1 h ev h'"
proof -
  have ok': "pair_ok a2 a1 h" using ok pair_ok_sym by blast
  show ?thesis
  proof (cases ev)
    case (Wrote a d r)
    from step [unfolded Wrote] show ?thesis
      using write_step [OF ok] write_step [OF ok'] pair_ok_sym Wrote
      by (elim pair_step_writeE) blast
  next
    case (Got a out r)
    from step [unfolded Got] show ?thesis
      using read_step [OF ok] read_step [OF ok'] pair_ok_sym Got
      by (elim pair_step_readE) blast
  next
    case (Controlled a cmd r)
    from step [unfolded Controlled] obtain ptr num where
      p: "a \<in> {a1, a2}" "ptr \<in> {None, Some a1, Some a2}" "BIO_ctrl (Some a) cmd num ptr h = Some (r, h')"
      by (elim pair_step_ctrlE) blast
    then show ?thesis
      using ctrl_step [OF ok p(2)] ctrl_step [OF ok', of ptr] pair_ok_sym Controlled by blast
  qed
qed

lemma pair_trace_invariant:
  assumes "pair_trace a1 a2 h0 evs h" "pair_ok a1 a2 h0" "in_flight a1 h0 = []" "in_flight a2 h0 = []"
  shows "pair_ok a1 a2 h \<and> all_sent a1 evs = all_got a2 evs @ in_flight a1 h \<and>
    all_sent a2 evs = all_got a1 evs @ in_flight a2 h"
  using assms
proof (induction rule: pair_trace.induct)
  case (trace_step evs h ev h')
  then have IH: "pair_ok a1 a2 h" "all_sent a1 evs = all_got a2 evs @ in_flight a1 h"
    "all_sent a2 evs = all_got a1 evs @ in_flight a2 h" by blast+
  from pair_step_keeps [OF IH(1) trace_step.hyps(2)] IH show ?case
    by (simp add: moves_def all_sent_def all_got_def)
qed (simp add: all_sent_def all_got_def)

text \<open>Nothing gets stuck: in a sound state every call returns.\<close>

lemma pair_calls_return:
  assumes ok: "pair_ok a1 a2 h" and a: "a \<in> {a1, a2}"
  shows "BIO_write (Some a) d h \<noteq> None" "BIO_read (Some a) l h \<noteq> None"
    "ptr \<in> {None, Some a1, Some a2} \<Longrightarrow> BIO_ctrl (Some a) cmd num ptr h \<noteq> None"
proof -
  define c where "c = (if a = a1 then a2 else a1)"
  have ok': "pair_ok a c h" using ok a pair_ok_sym by (auto simp: c_def)
  obtain b bc where b: "get_ptr a h = Some b" "get_ptr c h = Some bc" by (rule pair_okE [OF ok']) simp
  show "BIO_write (Some a) d h \<noteq> None" using BIO_write_ok [OF ok' b(1), of d] by auto
  show "BIO_read (Some a) l h \<noteq> None" using BIO_read_ok [OF ok' b(2), of l] by auto
  show "BIO_ctrl (Some a) cmd num ptr h \<noteq> None" if "ptr \<in> {None, Some a1, Some a2}"
  proof -
    have "ptr \<in> {None, Some a, Some c}" using that a by (auto simp: c_def)
    from BIO_ctrl_ok [OF ok' this, of cmd num] show ?thesis by auto
  qed
qed

text \<open>Freeing one side disconnects the other, which can then be freed too.\<close>

lemma bio_free_pair:
  assumes ok: "pair_ok a c h"
  shows "\<exists>h1 h2. bio_free (Some a) h = Some (True, h1) \<and> bio_free (Some c) h1 = Some (True, h2)"
proof -
  obtain x b y d where x: "h a = Some x" "bio_ptr x = Some b" "bb_peer b = Some c" "bb_buf b \<noteq> None"
    and y: "h c = Some y" "bio_ptr y = Some d" "bb_peer d = Some a" "bb_buf d \<noteq> None"
    and ac: "a \<noteq> c" "c \<noteq> a"
    by (rule pair_okE [OF ok]) simp
  define h1 where "h1 = h(c \<mapsto> y\<lparr>bio_init := False, bio_ptr := Some (d\<lparr>bb_peer := None, bb_len := 0, bb_offset := 0\<rparr>)\<rparr>,
    a \<mapsto> x\<lparr>bio_init := False, bio_ptr := None\<rparr>)"
  have "bio_free (Some a) h = Some (True, h1)"
    using x y ac by (simp add: bio_free_def bio_destroy_pair_def set_init_def h1_def fun_upd_twist)
  moreover have "\<exists>h2. bio_free (Some c) h1 = Some (True, h2)"
    using y ac by (simp add: bio_free_def h1_def)
  ultimately show ?thesis by blast
qed

text \<open>The two sizes are never negative, so \<open>BIO_pending\<close> and \<open>BIO_wpending\<close> have a value.\<close>

lemma pair_sizes_return:
  assumes ok: "pair_ok a c h"
  shows "BIO_pending (Some a) h \<noteq> None" "BIO_wpending (Some a) h \<noteq> None"
proof -
  obtain x b y d where x: "h a = Some x" "bio_ptr x = Some b" "bb_peer b = Some c" "bb_buf b \<noteq> None"
    and y: "h c = Some y" "bio_ptr y = Some d"
    by (rule pair_okE [OF ok]) simp
  then show "BIO_pending (Some a) h \<noteq> None" "BIO_wpending (Some a) h \<noteq> None"
    by (simp_all add: BIO_pending_def BIO_wpending_def BIO_ctrl_def bio_ctrl_def)
qed

section \<open>Writing everything\<close>

lemma BIO_write_all_ok:
  assumes "pair_ok a c h" "get_ptr a h = Some b"
  shows "\<exists>h' b'. BIO_write_all (Some a) d h = Some (d = [] \<or> \<not> bb_closed b \<and> length d \<le> ring_free b, h') \<and>
    pair_ok a c h' \<and> get_ptr a h' = Some b' \<and>
    ring_content b' = ring_content b @ take (if bb_closed b then 0 else ring_free b) d"
  using assms
proof (induction d arbitrary: h b rule: length_induct)
  case (1 d)
  have len: "bb_len b \<le> bb_size b" using 1(2,3)
    by (rule_tac pair_okE [OF 1(2)]) (simp add: ring_ok_def)
  show ?case
  proof (cases "d = []")
    case True
    then show ?thesis using 1(2,3) by (subst BIO_write_all.simps) simp
  next
    case False
    have im: "take INT_MAX d \<noteq> []" using False by (simp add: INT_MAX_def)
    define r where "r = write_result b (take INT_MAX d)"
    from BIO_write_ok [OF 1(2,3), of "take INT_MAX d", folded r_def] obtain h1 b1 where
      w: "BIO_write (Some a) (take INT_MAX d) h = Some (r, h1)" and h1: "pair_ok a c h1" "get_ptr a h1 = Some b1"
      "ring_content b1 = ring_content b @ take (nat r) (take INT_MAX d)" "bb_closed b1 = bb_closed b"
      "bb_size b1 = bb_size b" by auto
    have lens: "length (ring_content b) = bb_len b" "length (ring_content b1) = bb_len b1"
      using 1(2,3) h1(1,2) length_ring_content by (auto elim!: pair_okE)
    show ?thesis
    proof (cases "bb_closed b \<or> bb_len b = bb_size b")
      case True
      then have "r = -1" using im by (auto simp: r_def write_result_def)
      with w h1 True False len show ?thesis
        by (subst BIO_write_all.simps) (auto simp: ring_free_def)
    next
      case go: False
      define n where "n = min (min INT_MAX (length d)) (bb_size b - bb_len b)"
      have r: "r = int n" using go im by (simp add: r_def write_result_def n_def min.commute)
      have n: "0 < n" "n \<le> length d" "n \<le> INT_MAX" using go False len by (auto simp: n_def INT_MAX_def)
      have b1: "ring_content b1 = ring_content b @ take n d" using h1(3) n by (simp add: r min_def)
      then have "bb_len b1 = bb_len b + n" using lens n(2) by simp
      moreover have "n \<le> ring_free b" by (simp add: n_def ring_free_def)
      ultimately have free: "ring_free b1 + n = ring_free b" "n \<le> ring_free b"
        using h1(5) by (simp_all add: ring_free_def)
      have "length (drop n d) < length d" using n by simp
      from 1(1) [rule_format, OF this h1(1,2)] obtain h' b' where rec:
        "BIO_write_all (Some a) (drop n d) h1 =
           Some (drop n d = [] \<or> \<not> bb_closed b1 \<and> length (drop n d) \<le> ring_free b1, h')"
        "pair_ok a c h'" "get_ptr a h' = Some b'"
        "ring_content b' = ring_content b1 @ take (if bb_closed b1 then 0 else ring_free b1) (drop n d)" by blast
      have "BIO_write_all (Some a) d h = BIO_write_all (Some a) (drop n d) h1"
        using False w n by (subst BIO_write_all.simps) (simp add: r)
      moreover have "(drop n d = [] \<or> \<not> bb_closed b1 \<and> length (drop n d) \<le> ring_free b1) =
          (d = [] \<or> \<not> bb_closed b \<and> length d \<le> ring_free b)"
        using False go free h1(4) n by auto
      moreover have "take n d @ take (ring_free b1) (drop n d) = take (ring_free b) d"
        by (metis add.commute free(1) take_add)
      ultimately show ?thesis
        using rec b1 go h1(4) by auto
    qed
  qed
qed

section \<open>Properties\<close>

text \<open>C9: The pair is two lossless byte streams. After any sequence of reads, writes and control calls
  on a freshly made pair, in any interleaving, with any sizes and whatever each call returned: what one
  side reported as written is what the other side has read followed by what is still in the ring.\<close>

theorem pair_delivers_what_was_written:
  assumes "allocator_ok al" "2 * n1 \<le> size_mod" "2 * n2 \<le> size_mod" "a1 \<noteq> a2"
    and "BIO_new_bio_pair al s1 s2 a1 n1 a2 n2 h0 = Some (True, h)" "pair_trace a1 a2 h evs h'"
  shows "all_sent a1 evs = all_got a2 evs @ in_flight a1 h' \<and> all_sent a2 evs = all_got a1 evs @ in_flight a2 h'"
  using BIO_new_bio_pair_ok [OF assms(1-5)] pair_trace_invariant [OF assms(6)] by blast

definition demo_heap :: bio_heap where
  "demo_heap = (case BIO_new_bio_pair (\<lambda>n. Some (replicate n 0)) 8 8 0 3 1 5 (\<lambda>_. None) of Some (_, h) \<Rightarrow> h)"

lemma demo_heap_pair:
  "BIO_new_bio_pair (\<lambda>n. Some (replicate n 0)) 8 8 0 3 1 5 (\<lambda>_. None) = Some (True, demo_heap)"
proof -
  have "map_option fst (BIO_new_bio_pair (\<lambda>n. Some (replicate n 0)) 8 8 0 3 1 5 (\<lambda>_. None)) = Some True" by code_simp
  then show ?thesis by (auto simp: demo_heap_def)
qed

theorem pair_delivers_what_was_written_witness:
  "\<exists>h1 h2. BIO_write (Some 0) [1, 2, 3, 4] demo_heap = Some (3, h1) \<and> BIO_read (Some 1) 2 h1 = Some (2, [1, 2], h2) \<and>
     in_flight 0 h2 = [3]"
proof -
  have "map_option fst (BIO_write (Some 0) [1, 2, 3, 4] demo_heap) = Some 3" by code_simp
  then obtain h1 where w: "BIO_write (Some 0) [1, 2, 3, 4] demo_heap = Some (3, h1)" by auto
  have "map_option (\<lambda>(r, out, _). (r, out)) (BIO_read (Some 1) 2 (snd (the (BIO_write (Some 0) [1, 2, 3, 4] demo_heap)))) =
      Some (2, [1, 2])" by code_simp
  then obtain h2 where r: "BIO_read (Some 1) 2 h1 = Some (2, [1, 2], h2)" using w by auto
  have "pair_step 0 1 demo_heap (Wrote 0 [1, 2, 3, 4] 3) h1" by (rule step_write [OF _ w]) simp
  moreover have "pair_step 0 1 h1 (Got 1 [1, 2] 2) h2" by (rule step_read [OF _ r]) simp
  ultimately have "pair_trace 0 1 demo_heap (([] @ [Wrote 0 [1, 2, 3, 4] 3]) @ [Got 1 [1, 2] 2]) h2"
    by (rule trace_step [OF trace_step [OF trace_start]])
  from pair_delivers_what_was_written [OF _ _ _ _ demo_heap_pair this]
  have "in_flight 0 h2 = [3]" by (simp add: allocator_ok_def size_mod_def all_sent_def all_got_def)
  with w r show ?thesis by blast
qed

text \<open>C10: Nothing aborts. In any state that a sequence of reads, writes and control calls reaches from
  a new pair, none of the following, on either side, fails an \<open>assert\<close> of \<open>pair.c\<close>, follows a NULL
  pointer or loops forever: \<open>BIO_write\<close> and \<open>BIO_write_all\<close> of any bytes, \<open>BIO_read\<close> of any length,
  \<open>BIO_ctrl\<close> with any command, number and a pointer that is NULL or one of the two sides,
  \<open>BIO_pending\<close>, \<open>BIO_wpending\<close>, \<open>BIO_ctrl_get_read_request\<close>, \<open>BIO_ctrl_get_write_guarantee\<close>,
  \<open>BIO_shutdown_wr\<close>, and \<open>bio_free\<close> of this side and then of its peer.\<close>

theorem pair_never_stuck:
  assumes "allocator_ok al" "2 * n1 \<le> size_mod" "2 * n2 \<le> size_mod" "a1 \<noteq> a2"
    and "BIO_new_bio_pair al s1 s2 a1 n1 a2 n2 h0 = Some (True, h)" "pair_trace a1 a2 h evs h'"
    and "(a, c) \<in> {(a1, a2), (a2, a1)}" "ptr \<in> {None, Some a1, Some a2}"
  shows "BIO_write (Some a) d h' \<noteq> None \<and> BIO_write_all (Some a) d h' \<noteq> None \<and> BIO_read (Some a) l h' \<noteq> None \<and>
    BIO_ctrl (Some a) cmd num ptr h' \<noteq> None \<and> BIO_pending (Some a) h' \<noteq> None \<and> BIO_wpending (Some a) h' \<noteq> None \<and>
    BIO_ctrl_get_read_request (Some a) h' \<noteq> None \<and> BIO_ctrl_get_write_guarantee (Some a) h' \<noteq> None \<and>
    BIO_shutdown_wr (Some a) h' \<noteq> None \<and>
    (\<exists>h1 h2. bio_free (Some a) h' = Some (True, h1) \<and> bio_free (Some c) h1 = Some (True, h2))"
proof -
  have ok: "pair_ok a1 a2 h'"
    using BIO_new_bio_pair_ok [OF assms(1-5)] pair_trace_invariant [OF assms(6)] by blast
  then have ok': "pair_ok a c h'" using assms(7) pair_ok_sym by auto
  have a: "a \<in> {a1, a2}" using assms(7) by auto
  obtain b where "get_ptr a h' = Some b" by (rule pair_okE [OF ok']) simp
  from BIO_write_all_ok [OF ok' this, of d] have all: "BIO_write_all (Some a) d h' \<noteq> None" by auto
  have ctrl: "BIO_ctrl (Some a) cm nu None h' \<noteq> None" for cm nu
    using pair_calls_return(3) [OF ok a, of None] by simp
  show ?thesis
    using pair_calls_return(1) [OF ok a, of d] pair_calls_return(2) [OF ok a, of l]
      pair_calls_return(3) [OF ok a assms(8), of cmd num] all pair_sizes_return [OF ok'] ctrl
      bio_free_pair [OF ok']
    by (simp add: BIO_ctrl_get_read_request_def BIO_ctrl_get_write_guarantee_def BIO_shutdown_wr_def)
qed

theorem pair_never_stuck_witness:
  "BIO_write (Some 0) [1] demo_heap \<noteq> None \<and> BIO_write_all (Some 0) [1] demo_heap \<noteq> None \<and>
     BIO_read (Some 0) 5 demo_heap \<noteq> None \<and> BIO_ctrl (Some 0) BIO_CTRL_EOF 0 (Some 1) demo_heap \<noteq> None \<and>
     BIO_pending (Some 0) demo_heap \<noteq> None \<and> BIO_wpending (Some 0) demo_heap \<noteq> None \<and>
     BIO_ctrl_get_read_request (Some 0) demo_heap \<noteq> None \<and> BIO_ctrl_get_write_guarantee (Some 0) demo_heap \<noteq> None \<and>
     BIO_shutdown_wr (Some 0) demo_heap \<noteq> None \<and>
     (\<exists>h1 h2. bio_free (Some 0) demo_heap = Some (True, h1) \<and> bio_free (Some 1) h1 = Some (True, h2))"
  by (rule pair_never_stuck [OF _ _ _ _ demo_heap_pair trace_start])
    (simp_all add: allocator_ok_def size_mod_def)

text \<open>C11: \<open>BIO_write_all\<close> on a pair terminates, and succeeds exactly when there is nothing to write, or
  the side is not shut down and the ring has room for all of it; in any case it queues the prefix that
  fits, in order.\<close>

theorem write_all_on_pair:
  assumes "pair_ok a c h" "get_ptr a h = Some b"
  shows "\<exists>h' b'. BIO_write_all (Some a) d h = Some (d = [] \<or> \<not> bb_closed b \<and> length d \<le> bb_size b - bb_len b, h') \<and>
    get_ptr a h' = Some b' \<and> in_flight a h' = in_flight a h @ take (if bb_closed b then 0 else bb_size b - bb_len b) d"
proof -
  obtain h' b' where "BIO_write_all (Some a) d h = Some (d = [] \<or> \<not> bb_closed b \<and> length d \<le> ring_free b, h')"
    "get_ptr a h' = Some b'" "ring_content b' = ring_content b @ take (if bb_closed b then 0 else ring_free b) d"
    using BIO_write_all_ok [OF assms, of d] by blast
  then show ?thesis using assms(2) by (simp add: ring_free_def in_flight_def)
qed

theorem write_all_on_pair_witness:
  "\<exists>h'. BIO_write_all (Some 0) [5, 6, 7, 8] demo_heap = Some (False, h') \<and> in_flight 0 h' = [5, 6, 7]"
proof -
  have ok: "pair_ok 0 1 demo_heap" "in_flight 0 demo_heap = []"
    using BIO_new_bio_pair_ok [OF _ _ _ _ demo_heap_pair] by (simp_all add: allocator_ok_def size_mod_def)
  have "map_option (\<lambda>b. (bb_closed b, bb_size b, bb_len b)) (get_ptr 0 demo_heap) = Some (False, 3, 0)" by code_simp
  then obtain b where b: "get_ptr 0 demo_heap = Some b" "\<not> bb_closed b" "bb_size b = 3" "bb_len b = 0" by auto
  from write_all_on_pair [OF ok(1) b(1), of "[5, 6, 7, 8]"] b(2-) ok(2) show ?thesis by auto
qed

end
