(* ===== verification/LHash.thy ===== *)
theory LHash
  imports Mem "HOL-Library.Multiset"
begin

text \<open>
  The chained hash table of BoringSSL, \<open>crypto/lhash/lhash.c\<close>: buckets of linked items, the cached
  hash value in every item, growth and shrinkage by the average chain length, and iteration with a
  callback that may itself change the table. A chain is the list of its items; an item carries the
  address \<open>malloc\<close> returned for it. The allocator enters an operation as what the item's allocation
  returns (\<open>item_mem\<close>) and whether that of a bucket array succeeds (\<open>bucket_mem\<close>).
\<close>

record 'd lhash_item =
  it_addr :: nat
  it_data :: 'd
  it_hash :: u32

record 'd lhash =
  num_items :: nat
  buckets :: "'d lhash_item list list"
  num_buckets :: nat
  callback_depth :: nat
  lh_comp :: "'d \<Rightarrow> 'd \<Rightarrow> int"
  lh_hash :: "'d \<Rightarrow> u32"

definition kMinNumBuckets :: nat where "kMinNumBuckets = 16"
definition kMaxAverageChainLength :: nat where "kMaxAverageChainLength = 2"
definition kMinAverageChainLength :: nat where "kMinAverageChainLength = 1"
definition UINT_MAX :: nat where "UINT_MAX = 2 ^ 32 - 1"

text \<open>\<open>struct_mem\<close> and \<open>bucket_mem\<close>: whether the two allocations succeed.\<close>

definition lh_new :: "bool \<Rightarrow> bool \<Rightarrow> ('d \<Rightarrow> u32) \<Rightarrow> ('d \<Rightarrow> 'd \<Rightarrow> int) \<Rightarrow> 'd lhash option" where
  "lh_new struct_mem bucket_mem hash cmp =
     (if \<not> struct_mem then None
      else if \<not> bucket_mem then None
      else Some \<lparr>num_items = 0, buckets = replicate kMinNumBuckets [], num_buckets = kMinNumBuckets,
                 callback_depth = 0, lh_comp = cmp, lh_hash = hash\<rparr>)"

definition lh_num_items :: "'d lhash \<Rightarrow> nat" where
  "lh_num_items lh = num_items lh"

section \<open>Searching\<close>

text \<open>A pointer to a \<open>next\<close> field is the bucket and the position in its chain: at the first item the
  comparison accepts, or at the end of the chain.\<close>

fun chain_pos :: "('d \<Rightarrow> bool) \<Rightarrow> 'd lhash_item list \<Rightarrow> nat" where
  "chain_pos P [] = 0"
| "chain_pos P (cur # rest) = (if P (it_data cur) then 0 else Suc (chain_pos P rest))"

definition get_next_ptr_and_hash :: "'d lhash \<Rightarrow> 'd \<Rightarrow> u32 \<times> nat \<times> nat" where
  "get_next_ptr_and_hash lh d =
     (let hash = lh_hash lh d; i = unat hash mod num_buckets lh
      in (hash, i, chain_pos (\<lambda>x. lh_comp lh x d = 0) (buckets lh ! i)))"

definition get_next_ptr_by_key :: "'d lhash \<Rightarrow> 'k \<Rightarrow> u32 \<Rightarrow> ('k \<Rightarrow> 'd \<Rightarrow> int) \<Rightarrow> nat \<times> nat" where
  "get_next_ptr_by_key lh key key_hash cmp_key =
     (let i = unat key_hash mod num_buckets lh
      in (i, chain_pos (\<lambda>x. cmp_key key x = 0) (buckets lh ! i)))"

text \<open>What such a pointer points to; \<open>None\<close> is NULL.\<close>

definition deref :: "'d lhash \<Rightarrow> nat \<Rightarrow> nat \<Rightarrow> 'd lhash_item option" where
  "deref lh i k = (if k < length (buckets lh ! i) then Some (buckets lh ! i ! k) else None)"

definition lh_retrieve :: "'d lhash \<Rightarrow> 'd \<Rightarrow> 'd option" where
  "lh_retrieve lh d =
     (case get_next_ptr_and_hash lh d of (_, i, k) \<Rightarrow> map_option it_data (deref lh i k))"

definition lh_retrieve_key :: "'d lhash \<Rightarrow> 'k \<Rightarrow> u32 \<Rightarrow> ('k \<Rightarrow> 'd \<Rightarrow> int) \<Rightarrow> 'd option" where
  "lh_retrieve_key lh key key_hash cmp_key =
     (case get_next_ptr_by_key lh key key_hash cmp_key of (i, k) \<Rightarrow> map_option it_data (deref lh i k))"

section \<open>Resizing\<close>

definition push_item :: "nat \<Rightarrow> 'd lhash_item \<Rightarrow> 'd lhash_item list list \<Rightarrow> 'd lhash_item list list" where
  "push_item n cur new_buckets =
     (let new_bucket = unat (it_hash cur) mod n
      in new_buckets[new_bucket := cur # new_buckets ! new_bucket])"

definition lh_rebucket :: "bool \<Rightarrow> nat \<Rightarrow> 'd lhash \<Rightarrow> 'd lhash" where
  "lh_rebucket bucket_mem new_num_buckets lh =
     (let alloc_size = size_mult 8 new_num_buckets
      in if alloc_size div 8 \<noteq> new_num_buckets then lh
         else if \<not> bucket_mem then lh
         else lh\<lparr>num_buckets := new_num_buckets,
                 buckets := fold (\<lambda>chain nb. fold (push_item new_num_buckets) chain nb)
                    (buckets lh) (replicate new_num_buckets [])\<rparr>)"

definition lh_maybe_resize :: "bool \<Rightarrow> 'd lhash \<Rightarrow> 'd lhash" where
  "lh_maybe_resize bucket_mem lh =
     (if callback_depth lh > 0 then lh
      else let avg_chain_length = num_items lh div num_buckets lh
           in if avg_chain_length > kMaxAverageChainLength
              then let new_num_buckets = size_mult (num_buckets lh) 2
                   in if new_num_buckets > num_buckets lh then lh_rebucket bucket_mem new_num_buckets lh else lh
              else if avg_chain_length < kMinAverageChainLength \<and> num_buckets lh > kMinNumBuckets
              then let new_num_buckets = num_buckets lh div 2;
                       new_num_buckets = (if new_num_buckets < kMinNumBuckets then kMinNumBuckets
                                          else new_num_buckets)
                   in lh_rebucket bucket_mem new_num_buckets lh
              else lh)"

section \<open>Insertion and deletion\<close>

text \<open>The results are the return code, \<open>*old_data\<close> and the table.\<close>

definition lh_insert :: "nat option \<Rightarrow> bool \<Rightarrow> 'd \<Rightarrow> 'd lhash \<Rightarrow> bool \<times> 'd option \<times> 'd lhash" where
  "lh_insert item_mem bucket_mem d lh =
     (case get_next_ptr_and_hash lh d of
        (hash, i, k) \<Rightarrow>
          (case deref lh i k of
             Some it \<Rightarrow>
               (True, Some (it_data it),
                lh\<lparr>buckets := (buckets lh)[i := (buckets lh ! i)[k := it\<lparr>it_data := d\<rparr>]]\<rparr>)
           | None \<Rightarrow>
               (case item_mem of
                  None \<Rightarrow> (False, None, lh)
                | Some a \<Rightarrow>
                    (let item = \<lparr>it_addr = a, it_data = d, it_hash = hash\<rparr>;
                         lh = lh\<lparr>buckets := (buckets lh)[i := buckets lh ! i @ [item]],
                                 num_items := size_add (num_items lh) 1\<rparr>
                     in (True, None, lh_maybe_resize bucket_mem lh)))))"

definition lh_delete :: "bool \<Rightarrow> 'd \<Rightarrow> 'd lhash \<Rightarrow> 'd option \<times> 'd lhash" where
  "lh_delete bucket_mem d lh =
     (case get_next_ptr_and_hash lh d of
        (_, i, k) \<Rightarrow>
          (case deref lh i k of
             None \<Rightarrow> (None, lh)
           | Some item \<Rightarrow>
               (let chain = buckets lh ! i;
                    lh = lh\<lparr>buckets := (buckets lh)[i := take k chain @ drop (Suc k) chain],
                            num_items := num_items lh - 1\<rparr>
                in (Some (it_data item), lh_maybe_resize bucket_mem lh))))"

section \<open>Iteration\<close>

text \<open>The callback gets the item's data and may change the table and its own argument. The walk keeps
  the address of the next item; if that item has been freed meanwhile, following it is undefined:
  \<open>None\<close>, as is a walk that does not end.\<close>

fun chain_from :: "nat \<Rightarrow> 'd lhash_item list \<Rightarrow> 'd lhash_item list" where
  "chain_from a [] = []"
| "chain_from a (it # rest) = (if it_addr it = a then it # rest else chain_from a rest)"

definition first_addr :: "'d lhash_item list \<Rightarrow> nat option" where
  "first_addr chain = (case chain of [] \<Rightarrow> None | it # _ \<Rightarrow> Some (it_addr it))"

partial_function (option) doall_chain ::
    "('d \<Rightarrow> 'd lhash \<times> 'a \<Rightarrow> 'd lhash \<times> 'a) \<Rightarrow> nat \<Rightarrow> nat option \<Rightarrow> 'd lhash \<times> 'a \<Rightarrow> ('d lhash \<times> 'a) option" where
  "doall_chain func i cur s =
     (case cur of
        None \<Rightarrow> Some s
      | Some a \<Rightarrow>
          (case chain_from a (buckets (fst s) ! i) of
             [] \<Rightarrow> None
           | it # rest \<Rightarrow> doall_chain func i (first_addr rest) (func (it_data it) s)))"

partial_function (option) doall_buckets ::
    "('d \<Rightarrow> 'd lhash \<times> 'a \<Rightarrow> 'd lhash \<times> 'a) \<Rightarrow> nat \<Rightarrow> 'd lhash \<times> 'a \<Rightarrow> ('d lhash \<times> 'a) option" where
  "doall_buckets func i s =
     (if i < num_buckets (fst s)
      then (case doall_chain func i (first_addr (buckets (fst s) ! i)) s of
              None \<Rightarrow> None
            | Some s \<Rightarrow> doall_buckets func (Suc i) s)
      else Some s)"

definition lh_doall_arg ::
    "bool \<Rightarrow> ('d \<Rightarrow> 'd lhash \<times> 'a \<Rightarrow> 'd lhash \<times> 'a) \<Rightarrow> 'd lhash \<times> 'a \<Rightarrow> ('d lhash \<times> 'a) option" where
  "lh_doall_arg bucket_mem func s =
     (case s of (lh, arg) \<Rightarrow>
       (let lh = (if callback_depth lh < UINT_MAX then lh\<lparr>callback_depth := callback_depth lh + 1\<rparr> else lh)
        in case doall_buckets func 0 (lh, arg) of
             None \<Rightarrow> None
           | Some (lh, arg) \<Rightarrow>
               (let lh = (if callback_depth lh < UINT_MAX then lh\<lparr>callback_depth := callback_depth lh - 1\<rparr> else lh)
                in Some (lh_maybe_resize bucket_mem lh, arg))))"

definition lh_strhash :: "bytes option \<Rightarrow> u32" where
  "lh_strhash c = (case c of None \<Rightarrow> 0 | Some s \<Rightarrow> OPENSSL_hash32 s (c_strlen s))"

end
