(* ===== verification/LHash_Correct.thy ===== *)
theory LHash_Correct
  imports LHash "HOL-Library.Code_Target_Nat"
begin

text \<open>
  The hash table is a finite map up to the equality its comparison decides, for every hash function
  that respects it (\<open>hash_laws\<close>). \<open>lh_ok\<close> is the invariant: items sit in the bucket of their hash,
  no two are equal, the counts are right. Resizing keeps the items, so lookups do not see it.
\<close>

definition hash_laws :: "('d \<Rightarrow> u32) \<Rightarrow> ('d \<Rightarrow> 'd \<Rightarrow> int) \<Rightarrow> bool" where
  "hash_laws h c \<longleftrightarrow> (\<forall>x. c x x = 0) \<and> (\<forall>x y. c x y = 0 \<longrightarrow> c y x = 0) \<and>
     (\<forall>x y z. c x y = 0 \<longrightarrow> c y z = 0 \<longrightarrow> c x z = 0) \<and> (\<forall>x y. c x y = 0 \<longrightarrow> h x = h y)"

definition lh_items :: "'d lhash \<Rightarrow> 'd lhash_item list" where
  "lh_items lh = concat (buckets lh)"

definition placed :: "'d lhash \<Rightarrow> bool" where
  "placed lh \<longleftrightarrow> (\<forall>i<length (buckets lh). \<forall>x\<in>set (buckets lh ! i). unat (it_hash x) mod num_buckets lh = i)"

lemma lh_items_update [simp]:
  "lh_items (lh\<lparr>buckets := bs\<rparr>) = concat bs"
  "lh_items (lh\<lparr>buckets := bs, num_items := n\<rparr>) = concat bs"
  "lh_items (lh\<lparr>num_buckets := n, buckets := bs\<rparr>) = concat bs"
  by (simp_all add: lh_items_def)

text \<open>What is true of the items whatever buckets they are in.\<close>

definition items_ok :: "('d \<Rightarrow> u32) \<Rightarrow> ('d \<Rightarrow> 'd \<Rightarrow> int) \<Rightarrow> 'd lhash_item list \<Rightarrow> bool" where
  "items_ok h c its \<longleftrightarrow> (\<forall>x\<in>set its. it_hash x = h (it_data x)) \<and> distinct (map it_addr its) \<and>
     (\<forall>x\<in>set its. \<forall>y\<in>set its. c (it_data x) (it_data y) = 0 \<longrightarrow> x = y)"

definition lh_ok :: "'d lhash \<Rightarrow> bool" where
  "lh_ok lh \<longleftrightarrow> hash_laws (lh_hash lh) (lh_comp lh) \<and> length (buckets lh) = num_buckets lh \<and>
     kMinNumBuckets \<le> num_buckets lh \<and> num_items lh = length (lh_items lh) \<and> placed lh \<and>
     items_ok (lh_hash lh) (lh_comp lh) (lh_items lh)"

lemma hash_laws_simps:
  assumes "hash_laws h c"
  shows "c x x = 0" "c x y = 0 \<Longrightarrow> c y x = 0" "c x y = 0 \<Longrightarrow> c y z = 0 \<Longrightarrow> c x z = 0" "c x y = 0 \<Longrightarrow> h x = h y"
  using assms unfolding hash_laws_def by blast+

section \<open>Chains and buckets\<close>

lemma chain_pos_le: "chain_pos P ch \<le> length ch"
  by (induction ch) auto

lemma chain_pos_hit: "chain_pos P ch < length ch \<Longrightarrow> P (it_data (ch ! chain_pos P ch))"
  by (induction ch) auto

lemma chain_pos_miss: "chain_pos P ch < length ch \<longleftrightarrow> (\<exists>x\<in>set ch. P (it_data x))"
  by (induction ch) auto

lemma mset_concat_update:
  "i < length bs \<Longrightarrow> mset (concat (bs[i := ch])) = mset ch + mset (concat (bs[i := []]))"
proof (induction bs arbitrary: i)
  case (Cons b bs)
  then show ?case by (cases i) (auto simp: add.assoc add.left_commute)
qed simp

lemma mset_concat_bucket:
  "i < length bs \<Longrightarrow> mset (concat bs) = mset (bs ! i) + mset (concat (bs[i := []]))"
  using mset_concat_update [of i bs "bs ! i"] by simp

lemma items_ok_mset:
  assumes "mset xs = mset ys"
  shows "items_ok h c xs = items_ok h c ys"
proof -
  have "set xs = set ys" using assms by (rule mset_eq_setD)
  moreover have "distinct (map it_addr xs) = distinct (map it_addr ys)"
    using assms by (metis mset_eq_imp_distinct_iff mset_map)
  ultimately show ?thesis by (simp add: items_ok_def)
qed

lemma lh_items_mem: "x \<in> set (lh_items lh) \<longleftrightarrow> (\<exists>i<length (buckets lh). x \<in> set (buckets lh ! i))"
  by (auto simp: lh_items_def set_conv_nth [of "buckets lh"])

section \<open>Lookup\<close>

text \<open>The chain searched is the one every equal item is in.\<close>

lemma deref_iff:
  assumes ok: "lh_ok lh" and p: "get_next_ptr_and_hash lh d = (hash, i, k)"
  shows "deref lh i k = Some x \<longleftrightarrow> x \<in> set (lh_items lh) \<and> lh_comp lh (it_data x) d = 0"
    and "hash = lh_hash lh d" "i < length (buckets lh)" "i = unat hash mod num_buckets lh"
    and "k \<le> length (buckets lh ! i)" "deref lh i k = None \<longleftrightarrow> k = length (buckets lh ! i)"
    and "deref lh i k = Some x \<Longrightarrow> k < length (buckets lh ! i) \<and> buckets lh ! i ! k = x"
proof -
  let ?P = "\<lambda>x. lh_comp lh x d = 0" and ?ch = "buckets lh ! i"
  from p have h: "hash = lh_hash lh d" and i: "i = unat hash mod num_buckets lh" and k: "k = chain_pos ?P ?ch"
    by (auto simp: get_next_ptr_and_hash_def Let_def)
  then show "hash = lh_hash lh d" "i = unat hash mod num_buckets lh" by simp_all
  have "0 < num_buckets lh" using ok by (simp add: lh_ok_def kMinNumBuckets_def)
  then show il: "i < length (buckets lh)" using ok i by (simp add: lh_ok_def)
  show "k \<le> length ?ch" "deref lh i k = None \<longleftrightarrow> k = length ?ch"
    using chain_pos_le [of ?P ?ch] by (auto simp: k deref_def)
  show "deref lh i k = Some x \<Longrightarrow> k < length ?ch \<and> ?ch ! k = x"
    by (simp add: deref_def split: if_splits)
  have laws: "hash_laws (lh_hash lh) (lh_comp lh)" and iok: "items_ok (lh_hash lh) (lh_comp lh) (lh_items lh)"
    and pl: "placed lh" using ok by (simp_all add: lh_ok_def)
  show "deref lh i k = Some x \<longleftrightarrow> x \<in> set (lh_items lh) \<and> lh_comp lh (it_data x) d = 0"
  proof
    assume "deref lh i k = Some x"
    then have kl: "k < length ?ch" and x: "x = ?ch ! k" by (auto simp: deref_def split: if_splits)
    with chain_pos_hit [of ?P ?ch] k have "lh_comp lh (it_data x) d = 0" by simp
    moreover have "x \<in> set (lh_items lh)" using il kl x lh_items_mem by (metis nth_mem)
    ultimately show "x \<in> set (lh_items lh) \<and> lh_comp lh (it_data x) d = 0" by simp
  next
    assume x: "x \<in> set (lh_items lh) \<and> lh_comp lh (it_data x) d = 0"
    then obtain j where j: "j < length (buckets lh)" "x \<in> set (buckets lh ! j)" using lh_items_mem by metis
    have "it_hash x = hash" using iok x hash_laws_simps(4) [OF laws] h by (auto simp: items_ok_def)
    then have "j = i" using pl j i by (auto simp: placed_def)
    with j x have "\<exists>x\<in>set ?ch. ?P (it_data x)" by blast
    then have kl: "k < length ?ch" using chain_pos_miss [of ?P ?ch] k by simp
    with chain_pos_hit [of ?P ?ch] k have hit: "?P (it_data (?ch ! k))" by simp
    have "?ch ! k \<in> set (lh_items lh)" using il kl lh_items_mem by (metis nth_mem)
    moreover have "lh_comp lh (it_data (?ch ! k)) (it_data x) = 0"
      using hit x hash_laws_simps(2,3) [OF laws] by blast
    ultimately have "?ch ! k = x" using iok x by (auto simp: items_ok_def)
    with kl show "deref lh i k = Some x" by (simp add: deref_def)
  qed
qed

lemma lh_retrieve_iff:
  assumes "lh_ok lh"
  shows "lh_retrieve lh d = Some y \<longleftrightarrow> (\<exists>x\<in>set (lh_items lh). it_data x = y \<and> lh_comp lh y d = 0)"
proof -
  obtain hash i k where p: "get_next_ptr_and_hash lh d = (hash, i, k)" by (metis prod_cases3)
  have "lh_retrieve lh d = map_option it_data (deref lh i k)" by (simp add: lh_retrieve_def p)
  then show ?thesis using deref_iff(1) [OF assms p] by auto
qed

lemma lh_retrieve_cong:
  assumes "lh_ok lh" "lh_ok lh'" "set (lh_items lh') = set (lh_items lh)" "lh_comp lh' = lh_comp lh"
  shows "lh_retrieve lh' = lh_retrieve lh"
proof (rule ext)
  fix d
  have "lh_retrieve lh' d = Some y \<longleftrightarrow> lh_retrieve lh d = Some y" for y
    using lh_retrieve_iff [OF assms(1)] lh_retrieve_iff [OF assms(2)] assms(3,4) by simp
  then show "lh_retrieve lh' d = lh_retrieve lh d" by (metis not_None_eq)
qed

section \<open>Resizing keeps the items\<close>

lemma push_item_mset:
  "0 < n \<Longrightarrow> length nb = n \<Longrightarrow> mset (concat (push_item n x nb)) = add_mset x (mset (concat nb))"
  using mset_concat_update [of "unat (it_hash x) mod n" nb "x # nb ! (unat (it_hash x) mod n)"]
    mset_concat_bucket [of "unat (it_hash x) mod n" nb]
  by (simp add: push_item_def Let_def)

definition nb_placed :: "nat \<Rightarrow> 'd lhash_item list list \<Rightarrow> bool" where
  "nb_placed n nb \<longleftrightarrow> length nb = n \<and> (\<forall>i<n. \<forall>x\<in>set (nb ! i). unat (it_hash x) mod n = i)"

lemma push_item_placed: "0 < n \<Longrightarrow> nb_placed n nb \<Longrightarrow> nb_placed n (push_item n x nb)"
  by (auto simp: nb_placed_def push_item_def Let_def nth_list_update)

lemma fold_push:
  "0 < n \<Longrightarrow> nb_placed n nb \<Longrightarrow> nb_placed n (fold (push_item n) ch nb) \<and>
     mset (concat (fold (push_item n) ch nb)) = mset ch + mset (concat nb)"
proof (induction ch arbitrary: nb)
  case (Cons x ch)
  then have "length nb = n" by (simp add: nb_placed_def)
  with Cons push_item_placed [of n nb x] push_item_mset [of n nb x] show ?case by simp
qed simp

lemma fold_push_all:
  "0 < n \<Longrightarrow> nb_placed n nb \<Longrightarrow> nb_placed n (fold (\<lambda>chain nb. fold (push_item n) chain nb) bs nb) \<and>
     mset (concat (fold (\<lambda>chain nb. fold (push_item n) chain nb) bs nb)) = mset (concat bs) + mset (concat nb)"
proof (induction bs arbitrary: nb)
  case (Cons ch bs)
  from fold_push [OF Cons.prems, of ch] have "nb_placed n (fold (push_item n) ch nb)" by blast
  from Cons.IH [OF Cons.prems(1) this] fold_push [OF Cons.prems, of ch] show ?case
    by (simp add: add.assoc add.left_commute)
qed simp

text \<open>What a resize does: the same items, in as many buckets as asked for.\<close>

definition same_items :: "'d lhash \<Rightarrow> 'd lhash \<Rightarrow> bool" where
  "same_items lh lh' \<longleftrightarrow> mset (lh_items lh') = mset (lh_items lh) \<and> num_items lh' = num_items lh \<and>
     callback_depth lh' = callback_depth lh \<and> lh_comp lh' = lh_comp lh \<and> lh_hash lh' = lh_hash lh"

lemma same_items_refl [simp]: "same_items lh lh"
  by (simp add: same_items_def)

lemma lh_rebucket_ok:
  assumes ok: "lh_ok lh" and n: "kMinNumBuckets \<le> n"
  shows "lh_ok (lh_rebucket m n lh) \<and> same_items lh (lh_rebucket m n lh) \<and>
    (num_buckets (lh_rebucket m n lh) = n \<or> lh_rebucket m n lh = lh)"
proof (cases "size_mult 8 n div 8 \<noteq> n \<or> \<not> m")
  case True
  then show ?thesis using ok by (auto simp: lh_rebucket_def Let_def)
next
  case False
  have n0: "0 < n" using n by (simp add: kMinNumBuckets_def)
  define nb where "nb = fold (\<lambda>chain nb. fold (push_item n) chain nb) (buckets lh) (replicate n [])"
  have "nb_placed n (replicate n [] :: 'a lhash_item list list)" by (simp add: nb_placed_def)
  from fold_push_all [OF n0 this, of "buckets lh"]
  have nb: "nb_placed n nb" "mset (concat nb) = mset (lh_items lh)"
    by (simp_all add: nb_def lh_items_def)
  have eq: "lh_rebucket m n lh = lh\<lparr>num_buckets := n, buckets := nb\<rparr>"
    using False by (simp add: lh_rebucket_def Let_def nb_def)
  have "length (concat nb) = length (lh_items lh)" using nb(2) by (rule mset_eq_length)
  then have "lh_ok (lh_rebucket m n lh)"
    using ok n nb items_ok_mset [OF nb(2)] unfolding eq
    by (simp add: lh_ok_def placed_def nb_placed_def)
  then show ?thesis by (simp add: eq same_items_def nb(2))
qed

lemma lh_maybe_resize_ok:
  assumes "lh_ok lh"
  shows "lh_ok (lh_maybe_resize m lh) \<and> same_items lh (lh_maybe_resize m lh)"
proof -
  have k: "kMinNumBuckets \<le> num_buckets lh" using assms by (simp add: lh_ok_def)
  then show ?thesis
    using assms lh_rebucket_ok [OF assms] by (auto simp: lh_maybe_resize_def Let_def)
qed

lemma same_items_retrieve:
  assumes "lh_ok lh" "lh_ok lh'" "same_items lh lh'"
  shows "lh_retrieve lh' = lh_retrieve lh"
  using assms by (intro lh_retrieve_cong) (auto simp: same_items_def dest: mset_eq_setD)


section \<open>Insertion\<close>

lemma items_update:
  assumes "i < length (buckets lh)"
  shows "mset (lh_items (lh\<lparr>buckets := (buckets lh)[i := ch]\<rparr>)) + mset (buckets lh ! i) =
    mset (lh_items lh) + mset ch"
  using mset_concat_update [OF assms, of ch] mset_concat_bucket [OF assms]
  by (simp add: lh_items_def add.assoc add.left_commute add.commute)

lemma placed_update:
  assumes "placed lh" "i < length (buckets lh)" "length (buckets lh) = num_buckets lh"
    "\<forall>x\<in>set ch. unat (it_hash x) mod num_buckets lh = i"
  shows "placed (lh\<lparr>buckets := (buckets lh)[i := ch]\<rparr>)"
  using assms by (auto simp: placed_def nth_list_update)

text \<open>Replacing the data of the item found by equal data.\<close>

lemma insert_replaces:
  assumes ok: "lh_ok lh" and p: "get_next_ptr_and_hash lh d = (hash, i, k)" and x: "deref lh i k = Some x"
    and lh': "lh' = lh\<lparr>buckets := (buckets lh)[i := (buckets lh ! i)[k := x\<lparr>it_data := d\<rparr>]]\<rparr>"
  shows "lh_ok lh' \<and> (\<forall>e. lh_retrieve lh' e = (if lh_comp lh d e = 0 then Some d else lh_retrieve lh e))"
proof -
  note f = deref_iff [OF ok p]
  have laws: "hash_laws (lh_hash lh) (lh_comp lh)" and iok: "items_ok (lh_hash lh) (lh_comp lh) (lh_items lh)"
    using ok by (simp_all add: lh_ok_def)
  note L = hash_laws_simps [OF laws]
  from f(1) x have xin: "x \<in> set (lh_items lh)" and xd: "lh_comp lh (it_data x) d = 0" by auto
  from f(7) [OF x] have k: "k < length (buckets lh ! i)" "buckets lh ! i ! k = x" by auto
  let ?x = "x\<lparr>it_data := d\<rparr>"
  have "mset ((buckets lh ! i)[k := ?x]) + {#x#} = mset (buckets lh ! i) + {#?x#}"
    using k nth_mem [OF k(1)] by (simp add: mset_update insert_DiffM)
  with items_update [OF f(3), of "(buckets lh ! i)[k := ?x]"]
  have "mset (lh_items lh') + mset (buckets lh ! i) + {#x#} = mset (lh_items lh) + mset (buckets lh ! i) + {#?x#}"
    by (simp add: lh' ac_simps)
  then have ms: "add_mset x (mset (lh_items lh')) = add_mset ?x (mset (lh_items lh))"
    by (simp add: add.commute [of "mset (lh_items lh')"] add.commute [of "mset (lh_items lh)"]
        del: mset_append)
  obtain rest where rest: "mset (lh_items lh) = add_mset x (mset rest)"
    by (metis xin split_list mset_append mset.simps(2) union_mset_add_mset_right)
  with ms have new: "mset (lh_items lh') = mset (?x # rest)" by (simp add: add_mset_commute)
  have old: "mset (lh_items lh) = mset (x # rest)" using rest by simp
  have iok1: "items_ok (lh_hash lh) (lh_comp lh) (x # rest)" using iok items_ok_mset [OF old] by simp
  have cmp: "lh_comp lh d y = 0 \<longleftrightarrow> lh_comp lh (it_data x) y = 0" for y
    using xd L(2,3) by blast
  have cmp2: "lh_comp lh y d = 0 \<longleftrightarrow> lh_comp lh y (it_data x) = 0" for y
    using xd L(2,3) by blast
  have "items_ok (lh_hash lh) (lh_comp lh) (?x # rest)"
  proof -
    have "y \<noteq> x" if "y \<in> set rest" for y using that iok1 by (auto simp: items_ok_def)
    then have "lh_comp lh (it_data x) (it_data y) \<noteq> 0" "lh_comp lh (it_data y) (it_data x) \<noteq> 0" if "y \<in> set rest" for y
      using that iok1 L(2) unfolding items_ok_def by (metis list.set_intros)+
    moreover have "lh_hash lh d = lh_hash lh (it_data x)" using L(4) [OF xd] by simp
    ultimately show ?thesis using iok1 L(1) cmp cmp2 by (auto simp: items_ok_def)
  qed
  moreover have "length (lh_items lh') = length (lh_items lh)"
    using mset_eq_length [OF new] mset_eq_length [OF old] by simp
  moreover have "placed lh'"
    unfolding lh' using ok f(3) k
    by (intro placed_update) (auto simp: lh_ok_def placed_def dest: set_update_subset_insert [THEN subsetD])
  ultimately have ok': "lh_ok lh'"
    using ok items_ok_mset [OF new] by (simp add: lh_ok_def lh')
  have c': "lh_comp lh' = lh_comp lh" by (simp add: lh')
  have "lh_retrieve lh' e = Some y \<longleftrightarrow> (if lh_comp lh d e = 0 then Some d else lh_retrieve lh e) = Some y" for e y
  proof -
    have "lh_retrieve lh' e = Some y \<longleftrightarrow> (\<exists>z\<in>set (?x # rest). it_data z = y \<and> lh_comp lh y e = 0)"
      using lh_retrieve_iff [OF ok'] mset_eq_setD [OF new] c' by simp
    moreover have "lh_retrieve lh e = Some y \<longleftrightarrow> (\<exists>z\<in>set (x # rest). it_data z = y \<and> lh_comp lh y e = 0)"
      using lh_retrieve_iff [OF ok] mset_eq_setD [OF old] by simp
    moreover have "\<not> (lh_comp lh d e = 0 \<and> lh_comp lh (it_data z) e = 0)" if "z \<in> set rest" for z
    proof
      assume "lh_comp lh d e = 0 \<and> lh_comp lh (it_data z) e = 0"
      then have "lh_comp lh (it_data z) (it_data x) = 0" using cmp L(2,3) by blast
      then have "z = x" using iok1 that by (auto simp: items_ok_def)
      then show False using iok1 that by (auto simp: items_ok_def)
    qed
    ultimately show ?thesis using cmp [of e] by auto
  qed
  then have "lh_retrieve lh' e = (if lh_comp lh d e = 0 then Some d else lh_retrieve lh e)" for e
    by (metis not_None_eq)
  with ok' show ?thesis by blast
qed


text \<open>Adding an item that equals none.\<close>

lemma insert_adds:
  assumes ok: "lh_ok lh" and p: "get_next_ptr_and_hash lh d = (hash, i, k)" and x: "deref lh i k = None"
    and a: "a \<notin> it_addr ` set (lh_items lh)"
    and n: "Suc (num_items lh) < size_mod"
    and lh': "lh' = lh\<lparr>buckets := (buckets lh)[i := buckets lh ! i @ [\<lparr>it_addr = a, it_data = d, it_hash = hash\<rparr>]],
                   num_items := size_add (num_items lh) 1\<rparr>"
  shows "lh_ok lh' \<and> num_items lh' = Suc (num_items lh) \<and>
    mset (lh_items lh') = add_mset \<lparr>it_addr = a, it_data = d, it_hash = hash\<rparr> (mset (lh_items lh)) \<and>
    (\<forall>e. lh_retrieve lh' e = (if lh_comp lh d e = 0 then Some d else lh_retrieve lh e))"
proof -
  note f = deref_iff [OF ok p]
  have laws: "hash_laws (lh_hash lh) (lh_comp lh)" and iok: "items_ok (lh_hash lh) (lh_comp lh) (lh_items lh)"
    using ok by (simp_all add: lh_ok_def)
  note L = hash_laws_simps [OF laws]
  let ?x = "\<lparr>it_addr = a, it_data = d, it_hash = hash\<rparr>"
  have none: "lh_comp lh (it_data y) d \<noteq> 0" if "y \<in> set (lh_items lh)" for y using f(1) x that by auto
  have ms: "mset (lh_items lh') = add_mset ?x (mset (lh_items lh))"
    using items_update [OF f(3), of "buckets lh ! i @ [?x]"]
    by (simp add: lh')
  then have new: "mset (lh_items lh') = mset (?x # lh_items lh)" by simp
  have "items_ok (lh_hash lh) (lh_comp lh) (?x # lh_items lh)"
    using iok a f(2) L(2) none by (auto simp: items_ok_def)
  moreover have "num_items lh' = Suc (num_items lh)" using n by (simp add: lh')
  moreover have "placed (lh\<lparr>buckets := (buckets lh)[i := buckets lh ! i @ [?x]]\<rparr>)"
    using ok f(3,4) by (intro placed_update) (auto simp: lh_ok_def placed_def)
  then have "placed lh'" by (simp add: placed_def lh')
  moreover have "length (lh_items lh') = Suc (length (lh_items lh))" using mset_eq_length [OF new] by simp
  ultimately have ok': "lh_ok lh'"
    using ok items_ok_mset [OF new] by (simp add: lh_ok_def lh')
  have c': "lh_comp lh' = lh_comp lh" by (simp add: lh')
  have "lh_retrieve lh' e = Some y \<longleftrightarrow> (if lh_comp lh d e = 0 then Some d else lh_retrieve lh e) = Some y" for e y
  proof -
    have "lh_retrieve lh' e = Some y \<longleftrightarrow> (\<exists>z\<in>set (?x # lh_items lh). it_data z = y \<and> lh_comp lh y e = 0)"
      using lh_retrieve_iff [OF ok'] mset_eq_setD [OF new] c' by simp
    moreover have "\<not> (lh_comp lh d e = 0 \<and> lh_comp lh (it_data z) e = 0)" if "z \<in> set (lh_items lh)" for z
      using none [OF that] L(2,3) by blast
    ultimately show ?thesis using lh_retrieve_iff [OF ok, of e y] by auto
  qed
  then have "lh_retrieve lh' e = (if lh_comp lh d e = 0 then Some d else lh_retrieve lh e)" for e
    by (metis not_None_eq)
  with ok' ms \<open>num_items lh' = Suc (num_items lh)\<close> show ?thesis by blast
qed

text \<open>The specification of \<open>lh_insert\<close>: it fails only for want of memory, and then changes nothing.\<close>

lemma lh_insert_spec:
  assumes ok: "lh_ok lh" and a: "\<forall>a. item_mem = Some a \<longrightarrow> a \<notin> it_addr ` set (lh_items lh)"
    and n: "Suc (num_items lh) < size_mod" and run: "lh_insert item_mem m d lh = (r, old, lh')"
  shows "lh_ok lh' \<and> lh_comp lh' = lh_comp lh \<and> lh_hash lh' = lh_hash lh \<and> old = lh_retrieve lh d \<and>
    (r \<longleftrightarrow> item_mem \<noteq> None \<or> lh_retrieve lh d \<noteq> None) \<and>
    (if r then num_items lh' = num_items lh + (if lh_retrieve lh d = None then 1 else 0) \<and>
            (\<forall>e. lh_retrieve lh' e = (if lh_comp lh d e = 0 then Some d else lh_retrieve lh e))
     else lh' = lh)"
proof -
  obtain hash i k where p: "get_next_ptr_and_hash lh d = (hash, i, k)" by (metis prod_cases3)
  have ret: "lh_retrieve lh d = map_option it_data (deref lh i k)" by (simp add: lh_retrieve_def p)
  show ?thesis
  proof (cases "deref lh i k")
    case (Some x)
    with insert_replaces [OF ok p Some refl] run p ret show ?thesis by (auto simp: lh_insert_def)
  next
    case None
    show ?thesis
    proof (cases item_mem)
      case None
      with run p \<open>deref lh i k = None\<close> ret ok show ?thesis by (auto simp: lh_insert_def)
    next
      case (Some ad)
      define lh1 where "lh1 = lh\<lparr>buckets := (buckets lh)[i := buckets lh ! i @ [\<lparr>it_addr = ad, it_data = d, it_hash = hash\<rparr>]],
                   num_items := size_add (num_items lh) 1\<rparr>"
      from insert_adds [OF ok p \<open>deref lh i k = None\<close> _ n lh1_def] a Some
      have ok1: "lh_ok lh1" "num_items lh1 = Suc (num_items lh)"
        "\<forall>e. lh_retrieve lh1 e = (if lh_comp lh d e = 0 then Some d else lh_retrieve lh e)" by auto
      have lh': "lh' = lh_maybe_resize m lh1" "r" "old = None"
        using run p \<open>deref lh i k = None\<close> Some by (auto simp: lh_insert_def Let_def lh1_def)
      from lh_maybe_resize_ok [OF ok1(1), of m] have rs: "lh_ok lh'" "same_items lh1 lh'" by (simp_all add: lh')
      from same_items_retrieve [OF ok1(1) rs] ok1 rs ret \<open>deref lh i k = None\<close> lh' Some show ?thesis
        by (simp add: same_items_def lh1_def)
    qed
  qed
qed

section \<open>Deletion\<close>

lemma lh_delete_spec:
  assumes ok: "lh_ok lh" and run: "lh_delete m d lh = (r, lh')"
  shows "lh_ok lh' \<and> lh_comp lh' = lh_comp lh \<and> lh_hash lh' = lh_hash lh \<and> r = lh_retrieve lh d \<and>
    num_items lh' = num_items lh - (if r = None then 0 else 1) \<and>
    (\<forall>e. lh_retrieve lh' e = (if lh_comp lh d e = 0 then None else lh_retrieve lh e))"
proof -
  obtain hash i k where p: "get_next_ptr_and_hash lh d = (hash, i, k)" by (metis prod_cases3)
  note f = deref_iff [OF ok p]
  have ret: "lh_retrieve lh d = map_option it_data (deref lh i k)" by (simp add: lh_retrieve_def p)
  have laws: "hash_laws (lh_hash lh) (lh_comp lh)" and iok: "items_ok (lh_hash lh) (lh_comp lh) (lh_items lh)"
    using ok by (simp_all add: lh_ok_def)
  note L = hash_laws_simps [OF laws]
  show ?thesis
  proof (cases "deref lh i k")
    case None
    have "lh_retrieve lh e = None" if "lh_comp lh d e = 0" for e
    proof (rule ccontr)
      assume "lh_retrieve lh e \<noteq> None"
      then obtain y where "lh_retrieve lh e = Some y" by blast
      then obtain z where "z \<in> set (lh_items lh)" "lh_comp lh (it_data z) e = 0"
        using lh_retrieve_iff [OF ok] by auto
      moreover then have "lh_comp lh (it_data z) d = 0" using that L(2,3) by blast
      ultimately show False using f(1) None by auto
    qed
    with None run p ret ok show ?thesis by (auto simp: lh_delete_def)
  next
    case (Some x)
    from f(7) [OF Some] have k: "k < length (buckets lh ! i)" "buckets lh ! i ! k = x" by auto
    from f(1) Some have xin: "x \<in> set (lh_items lh)" and xd: "lh_comp lh (it_data x) d = 0" by auto
    define ch where "ch = take k (buckets lh ! i) @ drop (Suc k) (buckets lh ! i)"
    define lh1 where "lh1 = lh\<lparr>buckets := (buckets lh)[i := ch], num_items := num_items lh - 1\<rparr>"
    have "mset (buckets lh ! i) = add_mset x (mset ch)"
      using id_take_nth_drop [OF k(1)] k(2) unfolding ch_def
      by (metis mset.simps(2) mset_append union_mset_add_mset_right)
    with items_update [OF f(3), of ch] have old: "mset (lh_items lh) = mset (x # lh_items lh1)"
      by (simp add: lh1_def)
    have iok1: "items_ok (lh_hash lh) (lh_comp lh) (x # lh_items lh1)" using iok items_ok_mset [OF old] by simp
    have "placed (lh\<lparr>buckets := (buckets lh)[i := ch]\<rparr>)"
      using ok f(3) by (intro placed_update)
        (auto simp: lh_ok_def placed_def ch_def dest!: in_set_takeD in_set_dropD)
    then have "placed lh1" by (simp add: placed_def lh1_def)
    moreover have "length (lh_items lh) = Suc (length (lh_items lh1))" using mset_eq_length [OF old] by simp
    ultimately have ok1: "lh_ok lh1" using ok iok1 by (auto simp: lh_ok_def lh1_def items_ok_def)
    have lh': "lh' = lh_maybe_resize m lh1" "r = Some (it_data x)"
      using run p Some by (auto simp: lh_delete_def Let_def lh1_def ch_def)
    from lh_maybe_resize_ok [OF ok1, of m] have rs: "lh_ok lh'" "same_items lh1 lh'" by (simp_all add: lh')
    have c1: "lh_comp lh1 = lh_comp lh" by (simp add: lh1_def)
    have "lh_retrieve lh1 e = Some y \<longleftrightarrow> (if lh_comp lh d e = 0 then None else lh_retrieve lh e) = Some y" for e y
    proof -
      have "lh_retrieve lh1 e = Some y \<longleftrightarrow> (\<exists>z\<in>set (lh_items lh1). it_data z = y \<and> lh_comp lh y e = 0)"
        using lh_retrieve_iff [OF ok1] c1 by simp
      moreover have "lh_retrieve lh e = Some y \<longleftrightarrow> (\<exists>z\<in>set (x # lh_items lh1). it_data z = y \<and> lh_comp lh y e = 0)"
        using lh_retrieve_iff [OF ok] mset_eq_setD [OF old] by simp
      moreover have "\<not> (lh_comp lh d e = 0 \<and> lh_comp lh (it_data z) e = 0)" if z: "z \<in> set (lh_items lh1)" for z
      proof
        assume "lh_comp lh d e = 0 \<and> lh_comp lh (it_data z) e = 0"
        then have "lh_comp lh (it_data z) (it_data x) = 0" using xd L(2,3) by blast
        then have "z = x" using iok1 z by (auto simp: items_ok_def)
        then show False using iok1 z by (auto simp: items_ok_def)
      qed
      moreover have "lh_comp lh d e = 0" if "lh_comp lh (it_data x) e = 0" using that xd L(2,3) by blast
      ultimately show ?thesis by auto
    qed
    then have "lh_retrieve lh1 e = (if lh_comp lh d e = 0 then None else lh_retrieve lh e)" for e
      by (metis not_None_eq)
    with same_items_retrieve [OF ok1 rs] rs ret Some lh' show ?thesis
      by (simp add: same_items_def lh1_def)
  qed
qed

lemma lh_new_ok:
  "hash_laws h c \<Longrightarrow> lh_new s m h c = Some lh \<Longrightarrow> lh_ok lh \<and> (\<forall>e. lh_retrieve lh e = None) \<and> num_items lh = 0"
proof -
  assume laws: "hash_laws h c" and new: "lh_new s m h c = Some lh"
  have items: "lh_items lh = []" using new by (auto simp: lh_new_def lh_items_def split: if_splits)
  with laws new have ok: "lh_ok lh"
    by (auto simp: lh_new_def lh_ok_def placed_def items_ok_def split: if_splits)
  have "lh_retrieve lh e = None" for e
    using lh_retrieve_iff [OF ok, of e] items by (metis empty_iff list.set(1) not_None_eq)
  with ok new show ?thesis by (auto simp: lh_new_def split: if_splits)
qed


section \<open>The load stays bounded\<close>

definition load_ok :: "'d lhash \<Rightarrow> bool" where
  "load_ok lh \<longleftrightarrow> num_items lh div num_buckets lh \<le> kMaxAverageChainLength"

lemma load_ok_iff: "0 < num_buckets lh \<Longrightarrow> load_ok lh \<longleftrightarrow> num_items lh < 3 * num_buckets lh"
  by (auto simp: load_ok_def kMaxAverageChainLength_def div_le_mono less_mult_imp_div_less
      less_Suc_eq_le [symmetric] div_less_iff_less_mult numeral_3_eq_3)

lemma lh_maybe_resize_load:
  assumes ok: "lh_ok lh" and d: "callback_depth lh = 0" and n: "16 * num_buckets lh < size_mod"
    and l: "num_items lh \<le> 3 * num_buckets lh"
  shows "load_ok (lh_maybe_resize True lh)"
proof -
  have nb: "16 \<le> num_buckets lh" using ok by (simp add: lh_ok_def kMinNumBuckets_def)
  consider (grow) "num_items lh div num_buckets lh > 2"
    | (shrink) "num_items lh div num_buckets lh < 1" "num_buckets lh > 16"
    | (keep) "num_items lh div num_buckets lh \<le> 2" "\<not> (num_items lh div num_buckets lh < 1 \<and> num_buckets lh > 16)"
    by linarith
  then show ?thesis
  proof cases
    case grow
    have "size_mult (num_buckets lh) 2 = num_buckets lh * 2" "size_mult 8 (num_buckets lh * 2) = 8 * (num_buckets lh * 2)"
      using n by simp_all
    then have "lh_maybe_resize True lh = lh_rebucket True (num_buckets lh * 2) lh"
      "num_buckets (lh_rebucket True (num_buckets lh * 2) lh) = num_buckets lh * 2"
      using grow d nb by (simp_all add: lh_maybe_resize_def kMaxAverageChainLength_def lh_rebucket_def Let_def)
    moreover have "num_items (lh_rebucket True (num_buckets lh * 2) lh) = num_items lh"
      by (simp add: lh_rebucket_def Let_def)
    ultimately show ?thesis using nb l by (subst load_ok_iff) simp_all
  next
    case shrink
    define k where "k = (if num_buckets lh div 2 < 16 then 16 else num_buckets lh div 2)"
    have "k \<le> num_buckets lh" using nb by (auto simp: k_def)
    then have "size_mult 8 k = 8 * k" using n by simp
    then have "num_buckets (lh_rebucket True k lh) = k" by (simp add: lh_rebucket_def Let_def)
    moreover have "lh_maybe_resize True lh = lh_rebucket True k lh"
      using shrink d by (simp add: lh_maybe_resize_def kMaxAverageChainLength_def kMinAverageChainLength_def
          kMinNumBuckets_def Let_def k_def)
    moreover have "num_items (lh_rebucket True k lh) = num_items lh" by (simp add: lh_rebucket_def Let_def)
    moreover have "num_items lh < num_buckets lh" using shrink(1) nb by (auto simp: div_eq_0_iff)
    moreover have "num_buckets lh < 3 * k" "0 < k" using nb by (auto simp: k_def)
    ultimately show ?thesis by (subst load_ok_iff) simp_all
  next
    case keep
    then show ?thesis
      using d by (auto simp: lh_maybe_resize_def load_ok_def kMaxAverageChainLength_def kMinAverageChainLength_def
          kMinNumBuckets_def Let_def)
  qed
qed

section \<open>Iteration\<close>

lemma chain_from_append:
  "it_addr x \<notin> it_addr ` set pre \<Longrightarrow> chain_from (it_addr x) (pre @ x # rest) = x # rest"
  by (induction pre) auto

lemma first_addr_simps [simp]: "first_addr [] = None" "first_addr (x # xs) = Some (it_addr x)"
  by (simp_all add: first_addr_def)

lemma bucket_addrs_distinct:
  assumes "items_ok h c (lh_items lh)" "i < length (buckets lh)"
  shows "distinct (map it_addr (buckets lh ! i))"
proof -
  have "mset (map it_addr (lh_items lh)) = mset (map it_addr (buckets lh ! i @ concat ((buckets lh)[i := []])))"
    using mset_concat_bucket [OF assms(2)] by (simp add: lh_items_def)
  with assms(1) have "distinct (map it_addr (buckets lh ! i @ concat ((buckets lh)[i := []])))"
    by (metis items_ok_def mset_eq_imp_distinct_iff)
  then show ?thesis by simp
qed

text \<open>A callback that leaves the table alone sees every item once, bucket by bucket.\<close>

lemma doall_chain_pure:
  assumes pure: "\<And>x s. fst (func x s) = fst s"
    and "buckets lh ! i = pre @ rest" "distinct (map it_addr (buckets lh ! i))"
  shows "doall_chain func i (first_addr rest) (lh, arg) =
    Some (lh, fold (\<lambda>x a. snd (func (it_data x) (lh, a))) rest arg)"
  using assms(2,3)
proof (induction rest arbitrary: pre arg)
  case Nil
  then show ?case by (subst doall_chain.simps) simp
next
  case (Cons x rest)
  have "it_addr x \<notin> it_addr ` set pre" using Cons.prems by auto
  then have from_x: "chain_from (it_addr x) (buckets lh ! i) = x # rest"
    using chain_from_append Cons.prems(1) by metis
  obtain a where a: "func (it_data x) (lh, arg) = (lh, a)"
    using pure [of "it_data x" "(lh, arg)"] by (cases "func (it_data x) (lh, arg)") simp
  have "buckets lh ! i = (pre @ [x]) @ rest" using Cons.prems by simp
  from Cons.IH [OF this Cons.prems(2), of a] a from_x show ?case
    by (subst doall_chain.simps) simp
qed

lemma doall_buckets_pure:
  assumes pure: "\<And>x s. fst (func x s) = fst s" and ok: "lh_ok lh" and i: "i \<le> num_buckets lh"
  shows "doall_buckets func i (lh, arg) =
    Some (lh, fold (\<lambda>x a. snd (func (it_data x) (lh, a))) (concat (drop i (buckets lh))) arg)"
  using i
proof (induction "num_buckets lh - i" arbitrary: i arg)
  case 0
  with ok show ?case by (subst doall_buckets.simps) (simp add: lh_ok_def)
next
  case (Suc n)
  then have il: "i < num_buckets lh" "i < length (buckets lh)" using ok by (simp_all add: lh_ok_def)
  have "distinct (map it_addr (buckets lh ! i))"
    using bucket_addrs_distinct [OF _ il(2), of "lh_hash lh" "lh_comp lh"] ok by (simp add: lh_ok_def)
  then have "doall_chain func i (first_addr (buckets lh ! i)) (lh, arg) =
      Some (lh, fold (\<lambda>x a. snd (func (it_data x) (lh, a))) (buckets lh ! i) arg)"
    using doall_chain_pure [OF pure, where pre = "[]"] by simp
  moreover have "drop i (buckets lh) = buckets lh ! i # drop (Suc i) (buckets lh)"
    using il(2) by (rule Cons_nth_drop_Suc [symmetric])
  ultimately show ?case
    using Suc il by (subst doall_buckets.simps) simp
qed

lemma lh_ok_depth [simp]: "lh_ok (lh\<lparr>callback_depth := n\<rparr>) = lh_ok lh"
  by (simp add: lh_ok_def lh_items_def placed_def)

lemma lh_items_depth [simp]: "lh_items (lh\<lparr>callback_depth := n\<rparr>) = lh_items lh"
  by (simp add: lh_items_def)

lemma lh_doall_pure:
  assumes pure: "\<And>x s. fst (func x s) = fst s" and ok: "lh_ok lh" and d: "Suc (callback_depth lh) < UINT_MAX"
  shows "lh_doall_arg m func (lh, arg) = Some (lh_maybe_resize m lh,
    fold (\<lambda>x a. snd (func (it_data x) (lh\<lparr>callback_depth := Suc (callback_depth lh)\<rparr>, a))) (lh_items lh) arg)"
proof -
  let ?lh = "lh\<lparr>callback_depth := Suc (callback_depth lh)\<rparr>"
  have "lh_ok ?lh" using ok by simp
  from doall_buckets_pure [where func = func and i = 0 and arg = arg, OF pure this] d show ?thesis
    by (simp add: lh_doall_arg_def Let_def lh_items_def)
qed

text \<open>A callback that deletes the item it is given: the walk is safe, and empties the table.\<close>

lemma delete_head:
  assumes ok: "lh_ok lh" and d: "callback_depth lh \<noteq> 0" and i: "i < length (buckets lh)" and ch: "buckets lh ! i = x # rest"
  shows "lh_delete m (it_data x) lh =
    (Some (it_data x), lh\<lparr>buckets := (buckets lh)[i := rest], num_items := num_items lh - 1\<rparr>)"
proof -
  have "x \<in> set (lh_items lh)" using i ch lh_items_mem by (metis list.set_intros(1))
  moreover have laws: "hash_laws (lh_hash lh) (lh_comp lh)" and iok: "items_ok (lh_hash lh) (lh_comp lh) (lh_items lh)"
    using ok by (simp_all add: lh_ok_def)
  ultimately have "it_hash x = lh_hash lh (it_data x)" by (simp add: items_ok_def)
  moreover have "lh_comp lh (it_data x) (it_data x) = 0" using hash_laws_simps(1) [OF laws] .
  moreover have "unat (it_hash x) mod num_buckets lh = i"
    using ok i ch by (auto simp: lh_ok_def placed_def)
  ultimately show ?thesis
    using d ch by (simp add: lh_delete_def get_next_ptr_and_hash_def deref_def Let_def lh_maybe_resize_def)
qed

lemma delete_head_ok:
  assumes ok: "lh_ok lh" and i: "i < length (buckets lh)" and ch: "buckets lh ! i = x # rest"
  shows "lh_ok (lh\<lparr>buckets := (buckets lh)[i := rest], num_items := num_items lh - 1\<rparr>)"
proof -
  let ?lh = "lh\<lparr>buckets := (buckets lh)[i := rest], num_items := num_items lh - 1\<rparr>"
  have "add_mset x (mset (concat ((buckets lh)[i := rest]))) = mset (lh_items lh)"
    using items_update [OF i, of rest] ch by simp
  then have old: "mset (lh_items lh) = mset (x # lh_items ?lh)" by simp
  have "items_ok (lh_hash lh) (lh_comp lh) (x # lh_items ?lh)"
    using ok items_ok_mset [OF old] by (simp add: lh_ok_def)
  moreover have "length (lh_items lh) = Suc (length (lh_items ?lh))" using mset_eq_length [OF old] by simp
  moreover have "placed (lh\<lparr>buckets := (buckets lh)[i := rest]\<rparr>)"
    using ok i ch by (intro placed_update) (auto simp: lh_ok_def placed_def)
  then have "placed ?lh" by (simp add: placed_def)
  ultimately show ?thesis using ok by (auto simp: lh_ok_def items_ok_def)
qed

lemma doall_chain_delete:
  assumes func: "\<And>x lh a. func x (lh, a) = (snd (lh_delete m x lh), f x a)"
    and "lh_ok lh" "callback_depth lh \<noteq> 0" "i < length (buckets lh)" "buckets lh ! i = rest"
  shows "\<exists>lh'. doall_chain func i (first_addr rest) (lh, arg) = Some (lh', fold (\<lambda>x. f (it_data x)) rest arg) \<and>
    lh_ok lh' \<and> callback_depth lh' = callback_depth lh \<and> buckets lh' = (buckets lh)[i := []] \<and>
    num_buckets lh' = num_buckets lh"
  using assms(2-)
proof (induction rest arbitrary: lh arg)
  case Nil
  then have "buckets lh = (buckets lh)[i := []]" by (metis list_update_id)
  with Nil show ?case by (subst doall_chain.simps) simp
next
  case (Cons x rest)
  let ?lh = "lh\<lparr>buckets := (buckets lh)[i := rest], num_items := num_items lh - 1\<rparr>"
  have step: "func (it_data x) (lh, arg) = (?lh, f (it_data x) arg)"
    using delete_head [OF Cons.prems] by (simp add: func)
  have "chain_from (it_addr x) (buckets lh ! i) = x # rest" using Cons.prems(4) by simp
  then have "doall_chain func i (first_addr (x # rest)) (lh, arg) =
      doall_chain func i (first_addr rest) (?lh, f (it_data x) arg)"
    using step by (subst doall_chain.simps) simp
  moreover from Cons.IH [of ?lh "f (it_data x) arg"] delete_head_ok [OF Cons.prems(1,3,4)] Cons.prems
  obtain lh' where "doall_chain func i (first_addr rest) (?lh, f (it_data x) arg) =
      Some (lh', fold (\<lambda>x. f (it_data x)) rest (f (it_data x) arg))"
    "lh_ok lh'" "callback_depth lh' = callback_depth lh" "buckets lh' = (buckets lh)[i := []]"
    "num_buckets lh' = num_buckets lh" by auto
  ultimately show ?case by auto
qed

lemma doall_buckets_delete:
  assumes func: "\<And>x lh a. func x (lh, a) = (snd (lh_delete m x lh), f x a)"
    and "lh_ok lh" "callback_depth lh \<noteq> 0" "i \<le> num_buckets lh" "\<forall>j<i. buckets lh ! j = []"
  shows "\<exists>lh'. doall_buckets func i (lh, arg) =
      Some (lh', fold (\<lambda>x. f (it_data x)) (concat (drop i (buckets lh))) arg) \<and>
    lh_ok lh' \<and> callback_depth lh' = callback_depth lh \<and> lh_items lh' = []"
  using assms(2-)
proof (induction "num_buckets lh - i" arbitrary: i lh arg)
  case 0
  then have "i = length (buckets lh)" "\<not> i < num_buckets lh" by (simp_all add: lh_ok_def)
  moreover then have "lh_items lh = []" using 0 by (auto simp: lh_items_def in_set_conv_nth)
  ultimately show ?case using 0 by (subst doall_buckets.simps) auto
next
  case (Suc n)
  then have il: "i < num_buckets lh" "i < length (buckets lh)" by (simp_all add: lh_ok_def)
  from doall_chain_delete [OF func Suc.prems(1,2) il(2) refl, of arg] obtain lh1 where
    c: "doall_chain func i (first_addr (buckets lh ! i)) (lh, arg) = Some (lh1, fold (\<lambda>x. f (it_data x)) (buckets lh ! i) arg)"
    and lh1: "lh_ok lh1" "callback_depth lh1 = callback_depth lh" "buckets lh1 = (buckets lh)[i := []]"
      "num_buckets lh1 = num_buckets lh" by blast
  have "\<forall>j<Suc i. buckets lh1 ! j = []"
    using Suc.prems(4) il by (auto simp: lh1 nth_list_update less_Suc_eq)
  moreover have "n = num_buckets lh1 - Suc i" "Suc i \<le> num_buckets lh1" "callback_depth lh1 \<noteq> 0"
    using Suc.hyps(2) Suc.prems(2) lh1 il by simp_all
  moreover have "drop (Suc i) (buckets lh1) = drop (Suc i) (buckets lh)" by (simp add: lh1)
  ultimately obtain lh' where "doall_buckets func (Suc i) (lh1, fold (\<lambda>x. f (it_data x)) (buckets lh ! i) arg) =
      Some (lh', fold (\<lambda>x. f (it_data x)) (concat (drop (Suc i) (buckets lh))) (fold (\<lambda>x. f (it_data x)) (buckets lh ! i) arg))"
    "lh_ok lh'" "callback_depth lh' = callback_depth lh" "lh_items lh' = []"
    using Suc.hyps(1) [of lh1 "Suc i" "fold (\<lambda>x. f (it_data x)) (buckets lh ! i) arg"] lh1(1,2) by auto
  moreover have "drop i (buckets lh) = buckets lh ! i # drop (Suc i) (buckets lh)"
    using il(2) by (rule Cons_nth_drop_Suc [symmetric])
  ultimately show ?case
    using c il by (subst doall_buckets.simps) simp
qed


lemma lh_doall_delete:
  assumes func: "\<And>x lh a. func x (lh, a) = (snd (lh_delete m x lh), f x a)" and ok: "lh_ok lh"
    and d: "Suc (callback_depth lh) < UINT_MAX"
  shows "\<exists>lh'. lh_doall_arg m func (lh, arg) = Some (lh', fold (\<lambda>x. f (it_data x)) (lh_items lh) arg) \<and>
    lh_ok lh' \<and> lh_items lh' = [] \<and> num_items lh' = 0 \<and> callback_depth lh' = callback_depth lh"
proof -
  let ?lh = "lh\<lparr>callback_depth := Suc (callback_depth lh)\<rparr>"
  from doall_buckets_delete [where func = func and i = 0 and lh = ?lh, OF func] ok obtain lh1 where
    run: "doall_buckets func 0 (?lh, arg) = Some (lh1, fold (\<lambda>x. f (it_data x)) (lh_items lh) arg)"
    and lh1: "lh_ok lh1" "callback_depth lh1 = Suc (callback_depth lh)" "lh_items lh1 = []"
    by (auto simp: lh_items_def)
  let ?lh2 = "lh1\<lparr>callback_depth := callback_depth lh\<rparr>"
  have "lh_ok ?lh2" "lh_items ?lh2 = []" using lh1 by simp_all
  with lh_maybe_resize_ok [of ?lh2 m] have "lh_ok (lh_maybe_resize m ?lh2)" "lh_items (lh_maybe_resize m ?lh2) = []"
    "callback_depth (lh_maybe_resize m ?lh2) = callback_depth lh"
    by (auto simp: same_items_def)
  moreover then have "num_items (lh_maybe_resize m ?lh2) = 0" by (simp add: lh_ok_def)
  moreover have "lh_doall_arg m func (lh, arg) = Some (lh_maybe_resize m ?lh2, fold (\<lambda>x. f (it_data x)) (lh_items lh) arg)"
    using run d lh1(2) by (simp add: lh_doall_arg_def Let_def)
  ultimately show ?thesis by blast
qed


section \<open>The interface: a dictionary\<close>

text \<open>What the clients of a table rely on, whatever the table: \<open>put\<close> and \<open>del\<close> relate the state before
  and after a successful insertion and a deletion.\<close>

inductive run_all :: "('d \<Rightarrow> 's \<Rightarrow> 's \<Rightarrow> bool) \<Rightarrow> 'd list \<Rightarrow> 's \<Rightarrow> 's \<Rightarrow> bool" for step where
  run_Nil: "run_all step [] s s"
| run_Cons: "step d s s1 \<Longrightarrow> run_all step ds s1 s2 \<Longrightarrow> run_all step (d # ds) s s2"

locale dictionary =
  fixes ok :: "'s \<Rightarrow> bool" and lookup :: "'s \<Rightarrow> 'd \<Rightarrow> 'd option" and same :: "'d \<Rightarrow> 'd \<Rightarrow> bool"
    and put :: "'d \<Rightarrow> 's \<Rightarrow> 's \<Rightarrow> bool" and del :: "'d \<Rightarrow> 's \<Rightarrow> 's \<Rightarrow> bool"
  assumes same_refl: "same d d"
    and put_law: "ok s \<Longrightarrow> put d s s' \<Longrightarrow> ok s' \<and> lookup s' e = (if same d e then Some d else lookup s e)"
    and del_law: "ok s \<Longrightarrow> del d s s' \<Longrightarrow> ok s' \<and> lookup s' e = (if same d e then None else lookup s e)"
begin

lemma put_same: "ok s \<Longrightarrow> put d s s' \<Longrightarrow> lookup s' d = Some d"
  using put_law [of s d s' d] same_refl by simp

lemma put_other: "ok s \<Longrightarrow> put d s s' \<Longrightarrow> \<not> same d e \<Longrightarrow> lookup s' e = lookup s e"
  using put_law [of s d s' e] by simp

lemma put_del:
  "ok s \<Longrightarrow> put d s s1 \<Longrightarrow> del d s1 s2 \<Longrightarrow> lookup s2 e = (if same d e then None else lookup s e)"
  using put_law [of s d s1 e] del_law [of s1 d s2 e] by simp

text \<open>A run of insertions: the last equal one is found.\<close>

lemma lookup_puts:
  "run_all put ds s s' \<Longrightarrow> ok s \<Longrightarrow> ok s' \<and> lookup s' e =
     (case find (\<lambda>d. same d e) (rev ds) of Some d \<Rightarrow> Some d | None \<Rightarrow> lookup s e)"
proof (induction rule: run_all.induct)
  case (run_Cons d s s1 ds s2)
  then have "ok s1" "lookup s1 e = (if same d e then Some d else lookup s e)"
    using put_law by blast+
  moreover have "find P (xs @ [x]) = (case find P xs of Some y \<Rightarrow> Some y | None \<Rightarrow> if P x then Some x else None)"
    for P :: "'d \<Rightarrow> bool" and xs x
    by (induction xs) auto
  ultimately show ?case using run_Cons.IH by (auto split: option.splits)
qed simp

end

text \<open>The table of C strings that \<open>lh_strhash\<close> is for.\<close>

lemma string_hash_laws: "hash_laws (\<lambda>s. lh_strhash (Some s)) c_strcmp"
proof -
  have "take (c_strlen s) s = c_str s" for s
    by (simp add: c_strlen_def c_str_def takeWhile_eq_take [symmetric])
  then have "lh_strhash (Some s) = OPENSSL_hash32 (c_str s) (c_strlen s)" for s
    by (simp add: lh_strhash_def OPENSSL_hash32_def c_strlen_def)
  then show ?thesis by (simp add: hash_laws_def c_strcmp_eq_0 c_strlen_def)
qed

definition string_table :: "bytes lhash \<Rightarrow> bool" where
  "string_table lh \<longleftrightarrow> lh_ok lh \<and> lh_hash lh = (\<lambda>s. lh_strhash (Some s)) \<and> lh_comp lh = c_strcmp"

definition string_put :: "bytes \<Rightarrow> bytes lhash \<Rightarrow> bytes lhash \<Rightarrow> bool" where
  "string_put d lh lh' \<longleftrightarrow> (\<exists>a m old. a \<notin> it_addr ` set (lh_items lh) \<and> Suc (num_items lh) < size_mod \<and>
     lh_insert (Some a) m d lh = (True, old, lh'))"

definition string_del :: "bytes \<Rightarrow> bytes lhash \<Rightarrow> bytes lhash \<Rightarrow> bool" where
  "string_del d lh lh' \<longleftrightarrow> (\<exists>m r. lh_delete m d lh = (r, lh'))"

interpretation strings: dictionary string_table lh_retrieve "\<lambda>a b. c_str a = c_str b" string_put string_del
proof unfold_locales
  fix lh lh' :: "bytes lhash" and d e
  assume ok: "string_table lh" and put: "string_put d lh lh'"
  then obtain a m old where "a \<notin> it_addr ` set (lh_items lh)" "Suc (num_items lh) < size_mod"
    "lh_insert (Some a) m d lh = (True, old, lh')" by (auto simp: string_put_def)
  with lh_insert_spec [of lh "Some a" m d True old lh'] ok
  show "string_table lh' \<and> lh_retrieve lh' e = (if c_str d = c_str e then Some d else lh_retrieve lh e)"
    by (simp add: string_table_def c_strcmp_eq_0)
next
  fix lh lh' :: "bytes lhash" and d e
  assume ok: "string_table lh" and "string_del d lh lh'"
  then obtain m r where "lh_delete m d lh = (r, lh')" by (auto simp: string_del_def)
  with lh_delete_spec [of lh m d r lh'] ok
  show "string_table lh' \<and> lh_retrieve lh' e = (if c_str d = c_str e then None else lh_retrieve lh e)"
    by (simp add: string_table_def c_strcmp_eq_0)
qed simp

section \<open>Runs of operations\<close>

text \<open>What a program does with a table; the options and booleans are the allocator's answers. The
  reference implementation is a list without two equal elements.\<close>

datatype 'd lh_op = Insert "nat option" bool 'd | Delete bool 'd

fun lh_run :: "'d lh_op list \<Rightarrow> 'd lhash \<Rightarrow> 'd lhash" where
  "lh_run [] lh = lh"
| "lh_run (Insert im m d # ops) lh = lh_run ops (snd (snd (lh_insert im m d lh)))"
| "lh_run (Delete m d # ops) lh = lh_run ops (snd (lh_delete m d lh))"

text \<open>\<open>malloc\<close> never returns the address of a live item, and the count stays below \<open>SIZE_MAX\<close>.\<close>

fun fresh_run :: "'d lh_op list \<Rightarrow> 'd lhash \<Rightarrow> bool" where
  "fresh_run [] lh \<longleftrightarrow> True"
| "fresh_run (Insert im m d # ops) lh \<longleftrightarrow>
     (case im of None \<Rightarrow> True | Some a \<Rightarrow> a \<notin> it_addr ` set (lh_items lh)) \<and> Suc (num_items lh) < size_mod \<and>
     fresh_run ops (snd (snd (lh_insert im m d lh)))"
| "fresh_run (Delete m d # ops) lh \<longleftrightarrow> fresh_run ops (snd (lh_delete m d lh))"

definition dict_find :: "('d \<Rightarrow> 'd \<Rightarrow> int) \<Rightarrow> 'd list \<Rightarrow> 'd \<Rightarrow> 'd option" where
  "dict_find c xs e = find (\<lambda>x. c x e = 0) xs"

fun dict_run :: "('d \<Rightarrow> 'd \<Rightarrow> int) \<Rightarrow> 'd lh_op list \<Rightarrow> 'd list \<Rightarrow> 'd list" where
  "dict_run c [] xs = xs"
| "dict_run c (Insert im m d # ops) xs =
     dict_run c ops (if im = None \<and> dict_find c xs d = None then xs else d # filter (\<lambda>x. c x d \<noteq> 0) xs)"
| "dict_run c (Delete m d # ops) xs = dict_run c ops (filter (\<lambda>x. c x d \<noteq> 0) xs)"

lemma dict_find_filter:
  assumes "hash_laws h c"
  shows "dict_find c (filter (\<lambda>x. c x d \<noteq> 0) xs) e = (if c d e = 0 then None else dict_find c xs e)"
proof -
  have eq: "c x d = 0 \<longleftrightarrow> c x e = 0" if "c d e = 0" for x
    using that hash_laws_simps(2,3) [OF assms] by blast
  have ne: "c x d \<noteq> 0" if "c d e \<noteq> 0" "c x e = 0" for x
    using that hash_laws_simps(2,3) [OF assms] by blast
  show ?thesis
    by (induction xs) (use eq ne in \<open>auto simp: dict_find_def\<close>)
qed

lemma lh_run_refines:
  assumes "lh_ok lh" "fresh_run ops lh" "\<forall>e. lh_retrieve lh e = dict_find (lh_comp lh) xs e"
  shows "lh_ok (lh_run ops lh) \<and>
    (\<forall>e. lh_retrieve (lh_run ops lh) e = dict_find (lh_comp lh) (dict_run (lh_comp lh) ops xs) e)"
  using assms
proof (induction ops arbitrary: lh xs)
  case (Cons op ops)
  let ?c = "lh_comp lh"
  have laws: "hash_laws (lh_hash lh) ?c" using Cons.prems(1) by (simp add: lh_ok_def)
  note find_filter = dict_find_filter [OF laws]
  show ?case
  proof (cases op)
    case (Insert im m d)
    obtain r old lh1 where run: "lh_insert im m d lh = (r, old, lh1)" by (metis prod_cases3)
    define ys where "ys = (if im = None \<and> dict_find ?c xs d = None then xs else d # filter (\<lambda>x. ?c x d \<noteq> 0) xs)"
    from Cons.prems(2) Insert run have fresh: "\<forall>a. im = Some a \<longrightarrow> a \<notin> it_addr ` set (lh_items lh)"
      "Suc (num_items lh) < size_mod" "fresh_run ops lh1" by (auto split: option.splits)
    note spec = lh_insert_spec [OF Cons.prems(1) fresh(1,2) run]
    have "lh_retrieve lh1 e = dict_find ?c ys e" for e
    proof (cases r)
      case True
      then have "ys = d # filter (\<lambda>x. ?c x d \<noteq> 0) xs" using spec Cons.prems(3) by (auto simp: ys_def)
      moreover have "dict_find ?c (d # zs) e = (if ?c d e = 0 then Some d else dict_find ?c zs e)" for zs
        by (simp add: dict_find_def)
      ultimately show ?thesis using True spec find_filter Cons.prems(3) by simp
    next
      case False
      then have "im = None" "dict_find ?c xs d = None" "lh1 = lh" using spec Cons.prems(3) by auto
      then show ?thesis using Cons.prems(3) by (simp add: ys_def)
    qed
    with Cons.IH [of lh1 ys] spec fresh(3) have
      "lh_ok (lh_run ops lh1) \<and> (\<forall>e. lh_retrieve (lh_run ops lh1) e = dict_find ?c (dict_run ?c ops ys) e)" by simp
    then show ?thesis unfolding Insert by (simp add: run ys_def)
  next
    case (Delete m d)
    obtain r lh1 where run: "lh_delete m d lh = (r, lh1)" by fastforce
    define ys where "ys = filter (\<lambda>x. ?c x d \<noteq> 0) xs"
    from Cons.prems(2) Delete run have fresh: "fresh_run ops lh1" by simp
    note spec = lh_delete_spec [OF Cons.prems(1) run]
    have "\<forall>e. lh_retrieve lh1 e = dict_find ?c ys e"
      using spec find_filter Cons.prems(3) by (simp add: ys_def)
    with Cons.IH [of lh1 ys] spec fresh have
      "lh_ok (lh_run ops lh1) \<and> (\<forall>e. lh_retrieve (lh_run ops lh1) e = dict_find ?c (dict_run ?c ops ys) e)" by simp
    then show ?thesis unfolding Delete by (simp add: run ys_def)
  qed
qed simp

text \<open>Inserting does not add buckets while the quotient is at most two.\<close>

lemma maybe_resize_no_growth:
  assumes "num_items lh < 3 * num_buckets lh" "kMinNumBuckets \<le> num_buckets lh"
  shows "num_buckets (lh_maybe_resize m lh) \<le> num_buckets lh"
proof -
  have "num_items lh div num_buckets lh < 3" using assms(1) by (simp add: less_mult_imp_div_less)
  then have "\<not> num_items lh div num_buckets lh > kMaxAverageChainLength" by (simp add: kMaxAverageChainLength_def)
  moreover have "num_buckets (lh_rebucket m k lh) \<le> num_buckets lh" if "k \<le> num_buckets lh" for k
    using that by (simp add: lh_rebucket_def Let_def)
  ultimately show ?thesis using assms(2) by (auto simp: lh_maybe_resize_def Let_def)
qed

lemma lh_insert_no_growth:
  assumes ok: "lh_ok lh" and n: "Suc (num_items lh) < 3 * num_buckets lh" "3 * num_buckets lh < size_mod"
    and run: "lh_insert im m x lh = (r, old, lh')"
  shows "num_buckets lh' \<le> num_buckets lh"
proof -
  obtain hash i k where p: "get_next_ptr_and_hash lh x = (hash, i, k)" by (metis prod_cases3)
  show ?thesis
  proof (cases "deref lh i k = None \<and> im \<noteq> None")
    case True
    then obtain a where a: "im = Some a" by blast
    define lh1 where "lh1 = lh\<lparr>buckets := (buckets lh)[i := buckets lh ! i @ [\<lparr>it_addr = a, it_data = x, it_hash = hash\<rparr>]],
      num_items := size_add (num_items lh) 1\<rparr>"
    have "lh' = lh_maybe_resize m lh1" using run p True a by (simp add: lh_insert_def lh1_def Let_def)
    moreover have "num_items lh1 < 3 * num_buckets lh1" "kMinNumBuckets \<le> num_buckets lh1" "num_buckets lh1 = num_buckets lh"
      using n ok by (simp_all add: lh1_def lh_ok_def)
    ultimately show ?thesis using maybe_resize_no_growth [of lh1 m] by simp
  next
    case False
    with run p show ?thesis by (auto simp: lh_insert_def split: option.splits)
  qed
qed

lemma lh_insert_load_ok:
  assumes ok: "lh_ok lh" and a: "a \<notin> it_addr ` set (lh_items lh)" and d: "callback_depth lh = 0"
    and n: "16 * num_buckets lh < size_mod" and load: "load_ok lh" and run: "lh_insert (Some a) True x lh = (r, old, lh')"
  shows "load_ok lh'"
proof -
  have nb: "0 < num_buckets lh" using ok by (simp add: lh_ok_def kMinNumBuckets_def)
  then have items: "num_items lh < 3 * num_buckets lh" using load load_ok_iff by blast
  obtain hash i k where p: "get_next_ptr_and_hash lh x = (hash, i, k)" by (metis prod_cases3)
  show ?thesis
  proof (cases "deref lh i k")
    case (Some it)
    then have "num_items lh' = num_items lh" "num_buckets lh' = num_buckets lh"
      using run p by (auto simp: lh_insert_def)
    then show ?thesis using load by (simp add: load_ok_def)
  next
    case None
    define lh1 where "lh1 = lh\<lparr>buckets := (buckets lh)[i := buckets lh ! i @ [\<lparr>it_addr = a, it_data = x, it_hash = hash\<rparr>]],
      num_items := size_add (num_items lh) 1\<rparr>"
    have lh': "lh' = lh_maybe_resize True lh1" using run p None by (simp add: lh_insert_def lh1_def Let_def)
    have "size_add (num_items lh) 1 = Suc (num_items lh)" using items n by simp
    then have "num_items lh1 \<le> 3 * num_buckets lh1" "callback_depth lh1 = 0" "16 * num_buckets lh1 < size_mod"
      using items d n by (simp_all add: lh1_def)
    moreover have "Suc (num_items lh) < size_mod" using items n by simp
    from insert_adds [OF ok p None a this lh1_def] have "lh_ok lh1" by simp
    ultimately show ?thesis unfolding lh' by (intro lh_maybe_resize_load)
  qed
qed

section \<open>Properties\<close>

text \<open>C15: Whatever sequence of insertions and deletions a program performs on a new table, allocation
  failures included, and however often the table is rehashed on the way: it finds exactly what a list
  searched from the front would find.\<close>

theorem table_is_a_dictionary:
  assumes "hash_laws h c" "lh_new s m h c = Some lh" "fresh_run ops lh"
  shows "lh_retrieve (lh_run ops lh) e = dict_find c (dict_run c ops []) e"
proof -
  from lh_new_ok [OF assms(1,2)] have "lh_ok lh" "\<forall>e. lh_retrieve lh e = None" by simp_all
  moreover have "lh_comp lh = c" using assms(2) by (auto simp: lh_new_def split: if_splits)
  ultimately show ?thesis
    using lh_run_refines [OF _ assms(3), of "[]"] by (simp add: dict_find_def)
qed

definition demo_ops :: "bytes lh_op list" where
  "demo_ops = [Insert (Some 0) True [97, 0], Insert (Some 1) True [98], Insert None True [99], Insert (Some 2) True [97],
     Delete True [98, 0]]"

theorem table_is_a_dictionary_witness:
  "\<exists>lh. lh_new True True (\<lambda>s. lh_strhash (Some s)) c_strcmp = Some lh \<and> lh_retrieve (lh_run demo_ops lh) [97, 0, 1] = Some [97] \<and>
     lh_retrieve (lh_run demo_ops lh) [98] = None"
proof -
  obtain lh where new: "lh_new True True (\<lambda>s. lh_strhash (Some s)) c_strcmp = Some lh"
    by (simp add: lh_new_def)
  have "fresh_run demo_ops (the (lh_new True True (\<lambda>s. lh_strhash (Some s)) c_strcmp))" by code_simp
  then have "fresh_run demo_ops lh" by (simp add: new)
  note run = table_is_a_dictionary [OF string_hash_laws new this]
  have "dict_find c_strcmp (dict_run c_strcmp demo_ops []) [97, 0, 1] = Some [97]" by code_simp
  moreover have "dict_find c_strcmp (dict_run c_strcmp demo_ops []) [98] = None" by code_simp
  ultimately show ?thesis using run new by metis
qed

text \<open>C16: Chains stay short. When the memory is there, an insertion into a table that holds fewer than three
  items per bucket on average leaves such a table. The bound of the code is three, and not the two that
  \<open>kMaxAverageChainLength\<close> is documented to be: the average is compared after a division that rounds down, so
  no insertion adds buckets as long as the items it leaves are fewer than three per bucket.\<close>

theorem insertion_keeps_chains_short:
  assumes "lh_ok lh" "a \<notin> it_addr ` set (lh_items lh)" "callback_depth lh = 0" "16 * num_buckets lh < size_mod"
    and "length (lh_items lh) < 3 * num_buckets lh" "lh_insert (Some a) True x lh = (r, old, lh')"
  shows "length (lh_items lh') < 3 * num_buckets lh' \<and>
    (Suc (length (lh_items lh)) < 3 * num_buckets lh \<longrightarrow> num_buckets lh' \<le> num_buckets lh)"
proof -
  have nb: "0 < num_buckets lh" and n: "num_items lh = length (lh_items lh)"
    using assms(1) by (simp_all add: lh_ok_def kMinNumBuckets_def)
  have load: "load_ok lh" using assms(5) by (simp add: load_ok_iff [OF nb] n)
  have "load_ok lh'" by (rule lh_insert_load_ok [OF assms(1-4) load assms(6)])
  moreover have "lh_ok lh'" using lh_insert_spec [OF assms(1) _ _ assms(6)] assms(2,4,5) n by auto
  then have "0 < num_buckets lh'" "num_items lh' = length (lh_items lh')" by (simp_all add: lh_ok_def kMinNumBuckets_def)
  ultimately have "length (lh_items lh') < 3 * num_buckets lh'" using load_ok_iff by metis
  moreover have "num_buckets lh' \<le> num_buckets lh" if "Suc (length (lh_items lh)) < 3 * num_buckets lh"
    using lh_insert_no_growth [OF assms(1) _ _ assms(6)] that n assms(4) by simp
  ultimately show ?thesis by blast
qed

theorem insertion_keeps_chains_short_witness:
  "\<exists>lh r old lh'. lh_new True True (\<lambda>s. lh_strhash (Some s)) c_strcmp = Some lh \<and>
     lh_insert (Some 7) True [97] lh = (r, old, lh') \<and> length (lh_items lh') < 3 * num_buckets lh' \<and> num_buckets lh' \<le> 16"
proof -
  obtain lh where new: "lh_new True True (\<lambda>s. lh_strhash (Some s)) c_strcmp = Some lh"
    by (simp add: lh_new_def)
  obtain r old lh' where run: "lh_insert (Some 7) True [97] lh = (r, old, lh')" by (metis prod_cases3)
  have nb: "num_buckets lh = 16" and "callback_depth lh = 0" using new by (auto simp: lh_new_def kMinNumBuckets_def)
  moreover have "lh_items lh = []" using new by (auto simp: lh_new_def lh_items_def)
  moreover have "lh_ok lh" using lh_new_ok [OF string_hash_laws new] by simp
  ultimately have "length (lh_items lh') < 3 * num_buckets lh' \<and>
      (Suc (length (lh_items lh)) < 3 * num_buckets lh \<longrightarrow> num_buckets lh' \<le> num_buckets lh)"
    by (intro insertion_keeps_chains_short [OF _ _ _ _ _ run]) (simp_all add: size_mod_def)
  with new run nb \<open>lh_items lh = []\<close> show ?thesis by auto
qed

text \<open>C17: Deleting from inside an iteration is safe: a callback that deletes the item it is given is
  called on every item once, in bucket order, never follows a freed item, and leaves the table empty.\<close>

theorem deleting_while_iterating_is_safe:
  assumes "\<And>x lh a. func x (lh, a) = (snd (lh_delete m x lh), f x a)" "lh_ok lh" "Suc (callback_depth lh) < UINT_MAX"
  shows "\<exists>lh'. lh_doall_arg m func (lh, arg) = Some (lh', fold (\<lambda>x. f (it_data x)) (lh_items lh) arg) \<and>
    lh_ok lh' \<and> lh_num_items lh' = 0 \<and> callback_depth lh' = callback_depth lh"
  using lh_doall_delete [OF assms] by (auto simp: lh_num_items_def)

theorem deleting_while_iterating_is_safe_witness:
  "\<exists>lh lh'. lh_new True True (\<lambda>s. lh_strhash (Some s)) c_strcmp = Some lh \<and>
     lh_doall_arg True (\<lambda>x (t, n :: nat). (snd (lh_delete True x t), Suc n)) (lh_run demo_ops lh, 0) = Some (lh', 1) \<and>
     lh_num_items lh' = 0"
proof -
  obtain lh where new: "lh_new True True (\<lambda>s. lh_strhash (Some s)) c_strcmp = Some lh"
    by (simp add: lh_new_def)
  have lh: "lh_ok lh" "\<forall>e. lh_retrieve lh e = None" using lh_new_ok [OF string_hash_laws new] by simp_all
  have "fresh_run demo_ops (the (lh_new True True (\<lambda>s. lh_strhash (Some s)) c_strcmp))" by code_simp
  then have "fresh_run demo_ops lh" by (simp add: new)
  from lh_run_refines [OF lh(1) this, of "[]"] lh(2) have ok: "lh_ok (lh_run demo_ops lh)" by (simp add: dict_find_def)
  have "length (lh_items (lh_run demo_ops (the (lh_new True True (\<lambda>s. lh_strhash (Some s)) c_strcmp)))) = 1"
    "callback_depth (lh_run demo_ops (the (lh_new True True (\<lambda>s. lh_strhash (Some s)) c_strcmp))) = 0"
    by code_simp+
  then have one: "length (lh_items (lh_run demo_ops lh)) = 1" "callback_depth (lh_run demo_ops lh) = 0" by (simp_all add: new)
  then obtain it where "lh_items (lh_run demo_ops lh) = [it]" by (auto simp: length_Suc_conv)
  with deleting_while_iterating_is_safe [where func = "\<lambda>x (t, n :: nat). (snd (lh_delete True x t), Suc n)" and f = "\<lambda>_. Suc"
      and m = True and lh = "lh_run demo_ops lh" and arg = 0] ok one(2)
  show ?thesis using new by (auto simp: UINT_MAX_def)
qed

end
