(* ===== verification/Base64.thy ===== *)
theory Base64
  imports ConstTime Codec
begin

text \<open>
  Base64, \<open>crypto/base64/base64.c\<close>: one-shot encoding and decoding and the two streaming
  interfaces, whose context collects up to 48 bytes (encoding) or four characters (decoding).
  What a function stores at \<open>out\<close> is returned as a list; where the code ends it with a NUL, so
  does the list.
\<close>

definition constant_time_lt_args_8 :: "byte \<Rightarrow> byte \<Rightarrow> byte" where
  "constant_time_lt_args_8 a b = ucast (constant_time_msb_w (ucast a - ucast b))"

definition constant_time_in_range_8 :: "byte \<Rightarrow> byte \<Rightarrow> byte \<Rightarrow> byte" where
  "constant_time_in_range_8 a mn mx = (let a = a - mn in constant_time_lt_args_8 a (mx - mn + 1))"

definition conv_bin2ascii :: "byte \<Rightarrow> byte" where
  "conv_bin2ascii a =
     (let a = a AND 0x3f;
          ret = constant_time_select_8 (constant_time_eq_8 (ucast a) 62) 0x2b 0x2f;
          ret = constant_time_select_8 (constant_time_lt_args_8 a 62) (a - 52 + 0x30) ret;
          ret = constant_time_select_8 (constant_time_lt_args_8 a 52) (a - 26 + 0x61) ret
      in constant_time_select_8 (constant_time_lt_args_8 a 26) (a + 0x41) ret)"

definition EVP_EncodedLength :: "nat \<Rightarrow> nat option" where
  "EVP_EncodedLength len =
     (if size_add len 2 < len then None
      else let len = size_add len 2 div 3
           in if size_mult len 4 div 4 \<noteq> len then None
              else let len = size_mult len 4
                   in if size_add len 1 < len then None else Some (size_add len 1))"

section \<open>Encoding a block\<close>

definition quad_word :: "byte \<Rightarrow> byte \<Rightarrow> byte \<Rightarrow> u32" where
  "quad_word a b c = push_bit 16 (ucast a) OR push_bit 8 (ucast b) OR ucast c"

definition sextet :: "u32 \<Rightarrow> nat \<Rightarrow> byte" where
  "sextet l k = conv_bin2ascii (ucast (drop_bit k l))"

text \<open>The loop, with the count of characters.\<close>

fun encode_block_loop :: "bytes \<Rightarrow> nat \<Rightarrow> bytes \<times> nat" where
  "encode_block_loop [] ret = ([], ret)"
| "encode_block_loop [a] ret =
     (let l = push_bit 16 (ucast a)
      in ([sextet l 18, sextet l 12, 0x3d, 0x3d], size_add ret 4))"
| "encode_block_loop [a, b] ret =
     (let l = push_bit 16 (ucast a) OR push_bit 8 (ucast b)
      in ([sextet l 18, sextet l 12, sextet l 6, 0x3d], size_add ret 4))"
| "encode_block_loop (a # b # c # src) ret =
     (let l = quad_word a b c
      in case encode_block_loop src (size_add ret 4) of
           (dst, r) \<Rightarrow> ([sextet l 18, sextet l 12, sextet l 6, sextet l 0] @ dst, r))"

definition EVP_EncodeBlock :: "bytes \<Rightarrow> bytes \<times> nat" where
  "EVP_EncodeBlock src = (case encode_block_loop src 0 of (dst, ret) \<Rightarrow> (dst @ [0], ret))"

section \<open>Streaming encoder\<close>

record evp_encode_ctx =
  data_used :: nat
  ctx_data :: bytes  \<comment> \<open>\<open>data\<close>, 48 bytes\<close>
  eof_seen :: bool
  error_encountered :: bool

definition EVP_EncodeInit :: evp_encode_ctx where
  "EVP_EncodeInit = \<lparr>data_used = 0, ctx_data = replicate 48 0, eof_seen = False, error_encountered = False\<rparr>"

definition INT_MAX_64 :: nat where "INT_MAX_64 = 2 ^ 31 - 1"

text \<open>One encoded block with its newline at the write position: the NUL it leaves is overwritten by
  the next one. \<open>out\<close> is what has been written so far, with the trailing NUL if there is one.\<close>

definition put_line :: "bytes \<Rightarrow> bytes \<Rightarrow> bytes \<times> nat" where
  "put_line out blk =
     (case EVP_EncodeBlock blk of
        (dst, encoded) \<Rightarrow> ((if out = [] then [] else butlast out) @ take encoded dst @ [0x0a, 0], encoded))"

text \<open>The loop over whole blocks; \<open>None\<close> for \<open>total\<close> is the early return on overflow.\<close>

function encode_lines_loop :: "bytes \<Rightarrow> nat \<Rightarrow> bytes \<Rightarrow> bytes \<times> nat option \<times> bytes" where
  "encode_lines_loop inp tot out =
     (if length inp \<ge> 48
      then (case put_line out (take 48 inp) of
              (out, encoded) \<Rightarrow>
                if size_add (size_add tot encoded) 1 < tot then (out, None, drop 48 inp)
                else encode_lines_loop (drop 48 inp) (size_add (size_add tot encoded) 1) out)
      else (out, Some tot, inp))"
  by auto
termination by (relation "measure (\<lambda>(inp, _, _). length inp)") auto

declare encode_lines_loop.simps [simp del]

text \<open>Returns what was written, \<open>*out_len\<close>, and the context.\<close>

definition EVP_EncodeUpdate :: "evp_encode_ctx \<Rightarrow> bytes \<Rightarrow> bytes \<times> int \<times> evp_encode_ctx" where
  "EVP_EncodeUpdate ctx inp =
     (if inp = [] then ([], 0, ctx)
      else if 48 - data_used ctx > length inp
      then ([], 0, ctx\<lparr>ctx_data := mem_write (data_used ctx) inp (ctx_data ctx),
                       data_used := data_used ctx + length inp\<rparr>)
      else
        (let (out, tot, inp, ctx) =
           (if data_used ctx \<noteq> 0
            then (let todo = 48 - data_used ctx;
                      blk = mem_write (data_used ctx) (take todo inp) (ctx_data ctx)
                  in case put_line [] blk of
                       (out, encoded) \<Rightarrow> (out, encoded + 1, drop todo inp, ctx\<lparr>ctx_data := blk, data_used := 0\<rparr>))
            else ([], 0, inp, ctx))
         in case encode_lines_loop inp tot out of
              (out, None, _) \<Rightarrow> (out, 0, ctx)
            | (out, Some tot, inp) \<Rightarrow>
                (out, if tot > INT_MAX_64 then 0 else int tot,
                 ctx\<lparr>ctx_data := mem_write 0 inp (ctx_data ctx), data_used := length inp\<rparr>)))"

definition EVP_EncodeFinal :: "evp_encode_ctx \<Rightarrow> bytes \<times> int \<times> evp_encode_ctx" where
  "EVP_EncodeFinal ctx =
     (if data_used ctx = 0 then ([], 0, ctx)
      else case put_line [] (take (data_used ctx) (ctx_data ctx)) of
             (out, encoded) \<Rightarrow> (out, int (encoded + 1), ctx\<lparr>data_used := 0\<rparr>))"

section \<open>Decoding a quad\<close>

definition EVP_DecodedLength :: "nat \<Rightarrow> nat option" where
  "EVP_DecodedLength len = (if len mod 4 \<noteq> 0 then None else Some (len div 4 * 3))"

definition base64_ascii_to_bin :: "byte \<Rightarrow> byte" where
  "base64_ascii_to_bin a =
     (let is_upper = constant_time_in_range_8 a 0x41 0x5a;
          is_lower = constant_time_in_range_8 a 0x61 0x7a;
          is_digit = constant_time_in_range_8 a 0x30 0x39;
          is_plus = constant_time_eq_8 (ucast a) 0x2b;
          is_slash = constant_time_eq_8 (ucast a) 0x2f;
          is_equals = constant_time_eq_8 (ucast a) 0x3d;
          ret = 0xff;
          ret = constant_time_select_8 is_upper (a - 0x41) ret;
          ret = constant_time_select_8 is_lower (a - 0x61 + 26) ret;
          ret = constant_time_select_8 is_digit (a - 0x30 + 52) ret;
          ret = constant_time_select_8 is_plus 62 ret;
          ret = constant_time_select_8 is_slash 63 ret
      in constant_time_select_8 is_equals 0 ret)"

text \<open>The bytes written, as many as \<open>*out_num_bytes\<close>; \<open>None\<close> is failure.\<close>

definition base64_decode_quad :: "byte \<Rightarrow> byte \<Rightarrow> byte \<Rightarrow> byte \<Rightarrow> bytes option" where
  "base64_decode_quad i0 i1 i2 i3 =
     (let a = base64_ascii_to_bin i0; b = base64_ascii_to_bin i1;
          c = base64_ascii_to_bin i2; d = base64_ascii_to_bin i3
      in if a = 0xff \<or> b = 0xff \<or> c = 0xff \<or> d = 0xff then None
         else let v = push_bit 18 (ucast a) OR push_bit 12 (ucast b) OR push_bit 6 (ucast c) OR ucast d :: u32;
                  padding_pattern = (of_bool (i0 = 0x3d) * 8 + of_bool (i1 = 0x3d) * 4 +
                                     of_bool (i2 = 0x3d) * 2 + of_bool (i3 = 0x3d) :: nat)
              in if padding_pattern = 0
                 then Some [ucast (drop_bit 16 v), ucast (drop_bit 8 v), ucast v]
                 else if padding_pattern = 1 then Some [ucast (drop_bit 16 v), ucast (drop_bit 8 v)]
                 else if padding_pattern = 3 then Some [ucast (drop_bit 16 v)]
                 else None)"

section \<open>Streaming decoder\<close>

definition EVP_DecodeInit :: evp_encode_ctx where
  "EVP_DecodeInit = \<lparr>data_used = 0, ctx_data = replicate 48 0, eof_seen = False, error_encountered = False\<rparr>"

definition is_b64_space :: "byte \<Rightarrow> bool" where
  "is_b64_space c \<longleftrightarrow> c = 0x20 \<or> c = 0x09 \<or> c = 0x0d \<or> c = 0x0a"

text \<open>The loop over the input: what was written, and whether it ended without an error.\<close>

fun decode_loop :: "bytes \<Rightarrow> evp_encode_ctx \<Rightarrow> bytes \<Rightarrow> bytes \<times> bool \<times> evp_encode_ctx" where
  "decode_loop [] ctx out = (out, True, ctx)"
| "decode_loop (c # inp) ctx out =
     (if is_b64_space c then decode_loop inp ctx out
      else if eof_seen ctx then (out, False, ctx\<lparr>error_encountered := True\<rparr>)
      else let ctx = ctx\<lparr>ctx_data := (ctx_data ctx)[data_used ctx := c], data_used := data_used ctx + 1\<rparr>
           in if data_used ctx = 4
              then (case base64_decode_quad (ctx_data ctx ! 0) (ctx_data ctx ! 1) (ctx_data ctx ! 2) (ctx_data ctx ! 3) of
                      None \<Rightarrow> (out, False, ctx\<lparr>error_encountered := True\<rparr>)
                    | Some bs \<Rightarrow>
                        (let ctx = ctx\<lparr>data_used := 0\<rparr>;
                             ctx = (if length bs < 3 then ctx\<lparr>eof_seen := True\<rparr> else ctx)
                         in decode_loop inp ctx (out @ bs)))
              else decode_loop inp ctx out)"

text \<open>Returns the result, what was written, \<open>*out_len\<close>, and the context.\<close>

definition EVP_DecodeUpdate :: "evp_encode_ctx \<Rightarrow> bytes \<Rightarrow> int \<times> bytes \<times> nat \<times> evp_encode_ctx" where
  "EVP_DecodeUpdate ctx inp =
     (if error_encountered ctx then (-1, [], 0, ctx)
      else case decode_loop inp ctx [] of
             (out, ok, ctx) \<Rightarrow>
               if \<not> ok then (-1, out, 0, ctx)
               else if length out > INT_MAX_64 then (-1, out, 0, ctx\<lparr>error_encountered := True\<rparr>)
               else (if eof_seen ctx then 0 else 1, out, length out, ctx))"

definition EVP_DecodeFinal :: "evp_encode_ctx \<Rightarrow> int" where
  "EVP_DecodeFinal ctx = (if error_encountered ctx \<or> data_used ctx \<noteq> 0 then -1 else 1)"

section \<open>Decoding in one go\<close>

fun decode_base64_loop :: "bytes \<Rightarrow> bytes option" where
  "decode_base64_loop (a # b # c # d # inp) =
     (case base64_decode_quad a b c d of
        None \<Rightarrow> None
      | Some bs \<Rightarrow>
          if length bs \<noteq> 3 \<and> inp \<noteq> [] then None
          else map_option ((@) bs) (decode_base64_loop inp))"
| "decode_base64_loop _ = Some []"

definition EVP_DecodeBase64 :: "nat \<Rightarrow> bytes \<Rightarrow> bytes option" where
  "EVP_DecodeBase64 max_out inp =
     (if length inp mod 4 \<noteq> 0 then None
      else case EVP_DecodedLength (length inp) of
             None \<Rightarrow> None
           | Some max_len \<Rightarrow> if max_out < max_len then None else decode_base64_loop inp)"

definition EVP_DecodeBlock :: "bytes \<Rightarrow> (bytes \<times> int) option" where
  "EVP_DecodeBlock src =
     (let src = dropWhile (\<lambda>c. c = 0x20 \<or> c = 0x09) src;
          src = rev (dropWhile is_b64_space (rev src))
      in case EVP_DecodedLength (length src) of
           None \<Rightarrow> None
         | Some dst_len \<Rightarrow>
             if dst_len > INT_MAX_64 then None
             else (case EVP_DecodeBase64 dst_len src of
                     None \<Rightarrow> None
                   | Some dst \<Rightarrow>
                       (let dst = dst @ replicate ((3 - length dst mod 3) mod 3) 0
                        in Some (dst, int (length dst)))))"

end
