(* ===== verification/Base64_Correct.thy ===== *)
theory Base64_Correct
  imports Base64 "HOL-Library.Code_Target_Nat"
begin

text \<open>
  Base64 decoding inverts encoding, in one go and streamed, whatever the pieces the data arrives in.
  \<open>b64\<close> is the encoding of a byte string, \<open>b64_lines\<close> that of its whole 48-byte blocks with a newline
  after each.
\<close>

section \<open>The character maps\<close>

lemma constant_time_lt_args_8_eq: "constant_time_lt_args_8 a b = (if a < b then -1 else 0)"
proof -
  have u: "unat (ucast a :: crypto_word) = unat a" "unat (ucast b :: crypto_word) = unat b"
    by (simp_all add: unat_ucast_up)
  have "\<not> bit (ucast a :: crypto_word) 63" "\<not> bit (ucast b :: crypto_word) 63"
    using unat_byte_lt [of a] unat_byte_lt [of b] by (simp_all add: bit_63_iff u del: unat_byte_lt)
  then have "bit (ucast a - ucast b :: crypto_word) 63 \<longleftrightarrow> a < b"
    using bit_63_diff [of "ucast a" "ucast b"] by (simp add: word_less_nat_alt u)
  then show ?thesis by (simp add: constant_time_lt_args_8_def constant_time_msb_w_eq)
qed

lemmas ct_simps = constant_time_lt_args_8_eq constant_time_8_eq constant_time_select_8_if

text \<open>The 64 characters, read back; none of them is padding or a space.\<close>

lemma ucast_byte_inj: "(ucast a :: crypto_word) = ucast b \<longleftrightarrow> a = (b :: byte)"
  by (simp add: word_unat_eq_iff unat_ucast_up)

lemma conv_bin2ascii_eq:
  "conv_bin2ascii a =
     (let a = a AND 63
      in if a < 26 then a + 65 else if a < 52 then a + 71 else if a < 62 then a - 4 else if a = 62 then 43 else 47)"
proof -
  have "(ucast (a AND 63) :: crypto_word) = ucast (62 :: byte) \<longleftrightarrow> a AND 63 = 62"
    by (rule ucast_byte_inj)
  then show ?thesis
    by (simp add: conv_bin2ascii_def ct_simps Let_def)
qed

lemma in_range_eq:
  assumes "mn \<le> mx" "mx < 255"
  shows "constant_time_in_range_8 a mn mx = (if mn \<le> a \<and> a \<le> mx then -1 else 0)"
proof -
  have mx: "unat mn \<le> unat mx" "unat mx < 255" using assms by (simp_all add: word_le_nat_alt word_less_nat_alt)
  then have "unat (mx - mn) = unat mx - unat mn" by (simp add: unat_sub_if_size)
  moreover then have "unat (mx - mn + 1) = unat mx - unat mn + 1"
    using mx by (simp add: unat_word_ariths)
  moreover have "unat (a - mn) = (if unat mn \<le> unat a then unat a - unat mn else unat a + 256 - unat mn)"
    by (simp add: unat_sub_if_size word_le_nat_alt size_word.rep_eq)
  ultimately have "a - mn < mx - mn + 1 \<longleftrightarrow> mn \<le> a \<and> a \<le> mx"
    using mx unat_byte_lt [of a] by (auto simp: word_less_nat_alt word_le_nat_alt split: if_splits)
  then show ?thesis by (simp add: constant_time_in_range_8_def constant_time_lt_args_8_eq)
qed

lemma base64_ascii_to_bin_eq:
  "base64_ascii_to_bin a =
     (if a = 61 then 0 else if a = 47 then 63 else if a = 43 then 62
      else if 48 \<le> a \<and> a \<le> 57 then a + 4 else if 97 \<le> a \<and> a \<le> 122 then a - 71
      else if 65 \<le> a \<and> a \<le> 90 then a - 65 else 255)"
proof -
  have "(ucast a :: crypto_word) = ucast (43 :: byte) \<longleftrightarrow> a = 43" "(ucast a :: crypto_word) = ucast (47 :: byte) \<longleftrightarrow> a = 47"
    "(ucast a :: crypto_word) = ucast (61 :: byte) \<longleftrightarrow> a = 61"
    by (rule ucast_byte_inj)+
  then show ?thesis
    by (simp add: base64_ascii_to_bin_def in_range_eq ct_simps Let_def)
qed

lemma conv_bin2ascii_mask: "conv_bin2ascii (a AND 63) = conv_bin2ascii a"
  by (simp add: conv_bin2ascii_def and.assoc)

definition char_ok :: "byte \<Rightarrow> bool" where
  "char_ok m \<longleftrightarrow> base64_ascii_to_bin (conv_bin2ascii m) = m \<and> conv_bin2ascii m \<noteq> 0x3d \<and>
     \<not> is_b64_space (conv_bin2ascii m)"

lemma char_table: "list_all char_ok (map word_of_nat [0..<64])"
proof -
  have "[0..<64] = 0 # 1 # [2..<64]" 
    using upt_conv_Cons [of 0 64] upt_conv_Cons [of 1 64] by (simp del: upt_rec_numeral add: numeral_2_eq_2)
  then show ?thesis
    by (simp add: upt_rec_numeral char_ok_def conv_bin2ascii_eq base64_ascii_to_bin_eq is_b64_space_def Let_def)
qed

lemma base64_char:
  "base64_ascii_to_bin (conv_bin2ascii a) = a AND 63" "conv_bin2ascii a \<noteq> 0x3d" "\<not> is_b64_space (conv_bin2ascii a)"
proof -
  define m where "m = unat (a AND 63)"
  have "m < 64" by (simp add: m_def word_and_63 unat_and_mask)
  moreover have "a AND 63 = word_of_nat m" by (simp add: m_def)
  ultimately have "char_ok (a AND 63)" using char_table unfolding list_all_iff by auto
  then show "base64_ascii_to_bin (conv_bin2ascii a) = a AND 63" "conv_bin2ascii a \<noteq> 0x3d"
    "\<not> is_b64_space (conv_bin2ascii a)"
    by (simp_all add: char_ok_def conv_bin2ascii_mask)
qed

lemma base64_pad: "base64_ascii_to_bin 0x3d = 0"
  by (simp add: base64_ascii_to_bin_eq)

lemma mask6_not_ff: "(a :: byte) AND 63 \<noteq> 0xff"
proof
  assume "a AND 63 = 0xff"
  then have "unat (a AND 63) = 255" by simp
  moreover have "unat (a AND 63) < 64" by (simp add: word_and_63 unat_and_mask)
  ultimately show False by simp
qed

section \<open>Quads\<close>

lemma bit_byte_ge: "8 \<le> n \<Longrightarrow> \<not> bit (b :: byte) n"
  using bit_imp_le_length [of b n] by auto

lemma bit_byteD: "bit (b :: byte) n \<Longrightarrow> n < 8"
  using bit_imp_le_length [of b n] by simp

lemma quad_bits:
  fixes l :: u32
  assumes "l AND mask 24 = l"
  shows "(push_bit 18 (ucast (ucast (drop_bit 18 l) AND 63 :: byte)) OR push_bit 12 (ucast (ucast (drop_bit 12 l) AND 63 :: byte)) OR
    push_bit 6 (ucast (ucast (drop_bit 6 l) AND 63 :: byte)) OR ucast (ucast l AND 63 :: byte) :: u32) = l"
proof (rule bit_eqI)
  fix n
  assume "possible_bit TYPE(u32) n"
  have hi: "24 \<le> n \<Longrightarrow> \<not> bit l n"
    by (metis assms bit_and_iff bit_mask_iff leD)
  consider "n < 6" | "6 \<le> n" "n < 12" | "12 \<le> n" "n < 18" | "18 \<le> n" "n < 24" | "24 \<le> n" by linarith
  then show "bit (push_bit 18 (ucast (ucast (drop_bit 18 l) AND 63 :: byte)) OR push_bit 12 (ucast (ucast (drop_bit 12 l) AND 63 :: byte)) OR
    push_bit 6 (ucast (ucast (drop_bit 6 l) AND 63 :: byte)) OR ucast (ucast l AND 63 :: byte) :: u32) n = bit l n"
    unfolding word_and_63 by cases (use hi in \<open>auto simp: bit_simps\<close>)
qed

lemma quad_word_mask: "quad_word a b c AND mask 24 = quad_word a b c"
  by (rule bit_eqI) (auto simp: quad_word_def bit_simps dest: bit_byteD)

lemma quad_word_bytes:
  "ucast (drop_bit 16 (quad_word a b c)) = a" "ucast (drop_bit 8 (quad_word a b c)) = b" "ucast (quad_word a b c) = c"
proof -
  show "ucast (drop_bit 16 (quad_word a b c)) = a"
    by (rule bit_eqI) (auto simp: quad_word_def bit_simps bit_byte_ge)
  show "ucast (drop_bit 8 (quad_word a b c)) = b"
    by (rule bit_eqI) (auto simp: quad_word_def bit_simps bit_byte_ge)
  show "ucast (quad_word a b c) = c"
    by (rule bit_eqI) (auto simp: quad_word_def bit_simps bit_byte_ge)
qed

lemma sextet_simps [simp]:
  "base64_ascii_to_bin (sextet l k) = ucast (drop_bit k l) AND 63" "sextet l k \<noteq> 0x3d" "\<not> is_b64_space (sextet l k)"
  by (simp_all add: sextet_def base64_char)

lemma decode_quad_full:
  "base64_decode_quad (sextet (quad_word a b c) 18) (sextet (quad_word a b c) 12) (sextet (quad_word a b c) 6)
     (sextet (quad_word a b c) 0) = Some [a, b, c]"
  using quad_bits [OF quad_word_mask, of a b c]
  by (simp add: base64_decode_quad_def mask6_not_ff quad_word_bytes)

lemma quad_word_low:
  "(ucast (drop_bit 6 (quad_word a 0 0)) AND 63 :: byte) = 0" "(ucast (quad_word a b 0) AND 63 :: byte) = 0"
  unfolding word_and_63 by (rule bit_eqI; auto simp: quad_word_def bit_simps dest: bit_byteD)+

lemma decode_quad_2:
  "base64_decode_quad (sextet (quad_word a b 0) 18) (sextet (quad_word a b 0) 12) (sextet (quad_word a b 0) 6) 0x3d =
     Some [a, b]"
  using quad_bits [OF quad_word_mask, of a b 0]
  by (simp add: base64_decode_quad_def mask6_not_ff quad_word_bytes base64_pad quad_word_low)

lemma decode_quad_1:
  "base64_decode_quad (sextet (quad_word a 0 0) 18) (sextet (quad_word a 0 0) 12) 0x3d 0x3d = Some [a]"
  using quad_bits [OF quad_word_mask, of a 0 0]
  by (simp add: base64_decode_quad_def mask6_not_ff quad_word_bytes base64_pad quad_word_low)

lemma decode_quad_length: "base64_decode_quad a b c d = Some bs \<Longrightarrow> 1 \<le> length bs \<and> length bs \<le> 3"
  by (auto simp: base64_decode_quad_def Let_def split: if_splits)

section \<open>One-shot encoding\<close>

definition b64 :: "bytes \<Rightarrow> bytes" where
  "b64 src = fst (encode_block_loop src 0)"

lemma encode_block_loop_fst: "fst (encode_block_loop src r) = b64 src"
proof -
  have "fst (encode_block_loop src r) = fst (encode_block_loop src q)" for q
  proof (induction src r arbitrary: q rule: encode_block_loop.induct)
    case (4 a b c src r)
    have "fst (encode_block_loop src (size_add r 4)) = fst (encode_block_loop src (size_add q 4))"
      by (rule "4.IH") (rule refl)
    then show ?case by (simp add: Let_def case_prod_unfold)
  qed (simp_all add: Let_def)
  then show ?thesis by (simp add: b64_def)
qed

lemma b64_triple:
  "b64 (a # b # c # src) = [sextet (quad_word a b c) 18, sextet (quad_word a b c) 12, sextet (quad_word a b c) 6,
     sextet (quad_word a b c) 0] @ b64 src"
  using encode_block_loop_fst [of src "size_add 0 4"]
  by (simp add: b64_def Let_def case_prod_unfold)

lemma b64_simps [simp]:
  "b64 [] = []"
  "b64 [a] = [sextet (quad_word a 0 0) 18, sextet (quad_word a 0 0) 12, 0x3d, 0x3d]"
  "b64 [a, b] = [sextet (quad_word a b 0) 18, sextet (quad_word a b 0) 12, sextet (quad_word a b 0) 6, 0x3d]"
  by (simp_all add: b64_def Let_def quad_word_def)

declare b64_triple [simp]

text \<open>Induction on groups of three bytes.\<close>

lemma triples_induct:
  assumes "P []" "\<And>a. P [a]" "\<And>a b. P [a, b]" "\<And>a b c src. P src \<Longrightarrow> P (a # b # c # src)"
  shows "P (src :: bytes)"
  by (rule encode_block_loop.induct [of "\<lambda>src _. P src" src 0]) (auto intro: assms)

lemma groups_of_3: "(5 + n) div 3 = Suc (Suc (Suc n) div (3 :: nat))"
  by presburger

lemma length_b64: "length (b64 src) = 4 * ((length src + 2) div 3)"
  by (induction src rule: triples_induct) (simp_all add: groups_of_3)

lemma encode_block_loop_eq:
  "r + length (b64 src) < size_mod \<Longrightarrow> encode_block_loop src r = (b64 src, r + length (b64 src))"
proof (induction src arbitrary: r rule: triples_induct)
  case (4 a b c src)
  then show ?case by (simp add: Let_def quad_word_def)
qed (simp_all add: Let_def quad_word_def)

lemma EVP_EncodeBlock_eq:
  "length (b64 src) < size_mod \<Longrightarrow> EVP_EncodeBlock src = (b64 src @ [0], length (b64 src))"
  by (simp add: EVP_EncodeBlock_def encode_block_loop_eq)

lemma EVP_EncodedLength_eq:
  assumes "len < size_mod"
  shows "EVP_EncodedLength len =
    (if 4 * ((len + 2) div 3) + 1 < size_mod then Some (4 * ((len + 2) div 3) + 1) else None)"
proof (cases "len + 2 < size_mod")
  case False
  then have "size_add len 2 < len" using assms by (simp add: size_add_wraps_iff size_mod_def)
  moreover have "\<not> 4 * ((len + 2) div 3) + 1 < size_mod" using False by (simp add: size_mod_def)
  ultimately show ?thesis by (simp add: EVP_EncodedLength_def)
next
  case True
  define q where "q = (len + 2) div 3"
  have "4 * q < size_mod \<Longrightarrow> 4 * q + 1 < size_mod" by (simp add: size_mod_def)
  moreover have "q * 4 mod size_mod div 4 = q \<longleftrightarrow> 4 * q < size_mod"
  proof
    assume "q * 4 mod size_mod div 4 = q"
    moreover have "q * 4 mod size_mod < size_mod" by simp
    then have "q * 4 mod size_mod div 4 < 2 ^ 62" by (simp add: size_mod_def)
    ultimately show "4 * q < size_mod" by (simp add: size_mod_def)
  qed (simp add: mult.commute)
  moreover have "EVP_EncodedLength len =
    (if size_mult q 4 div 4 \<noteq> q then None
     else if size_add (size_mult q 4) 1 < size_mult q 4 then None else Some (size_add (size_mult q 4) 1))"
    using True by (simp add: EVP_EncodedLength_def Let_def q_def)
  ultimately have "EVP_EncodedLength len = (if 4 * q + 1 < size_mod then Some (4 * q + 1) else None)"
    by (auto simp: size_mult_def mult.commute)
  then show ?thesis by (simp only: q_def)
qed

section \<open>One-shot decoding\<close>

lemma decode_b64: "decode_base64_loop (b64 src) = Some src"
  by (induction src rule: triples_induct)
    (simp_all add: decode_quad_1 decode_quad_2 decode_quad_full)

lemma decode_base64_loop_length: "decode_base64_loop inp = Some bs \<Longrightarrow> length bs \<le> 3 * (length inp div 4)"
proof (induction inp arbitrary: bs rule: decode_base64_loop.induct)
  case (1 a b c d inp)
  then obtain q rest where "base64_decode_quad a b c d = Some q" "decode_base64_loop inp = Some rest" "bs = q @ rest"
    by (auto split: option.splits if_splits)
  moreover from this(1,2) "1.IH" [of q rest] "1.prems" have "length rest \<le> 3 * (length inp div 4)"
    by (auto split: if_splits)
  moreover have "(4 + length inp) div 4 = Suc (length inp div 4)" by simp
  ultimately show ?case using decode_quad_length [of a b c d q] by simp
qed simp_all

lemma EVP_DecodeBase64_b64:
  assumes "3 * ((length src + 2) div 3) \<le> max_out"
  shows "EVP_DecodeBase64 max_out (b64 src) = Some src"
  using assms by (simp add: EVP_DecodeBase64_def EVP_DecodedLength_def length_b64 decode_b64)

lemma EVP_DecodeBase64_bound: "EVP_DecodeBase64 max_out inp = Some bs \<Longrightarrow> length bs \<le> max_out"
  by (auto simp: EVP_DecodeBase64_def EVP_DecodedLength_def split: if_splits dest!: decode_base64_loop_length)

section \<open>Streaming encoder\<close>

definition ctx_ok :: "evp_encode_ctx \<Rightarrow> bool" where
  "ctx_ok ctx \<longleftrightarrow> data_used ctx < 48 \<and> length (ctx_data ctx) = 48"

definition pending :: "evp_encode_ctx \<Rightarrow> bytes" where
  "pending ctx = take (data_used ctx) (ctx_data ctx)"

definition leftover :: "bytes \<Rightarrow> bytes" where
  "leftover xs = drop (48 * (length xs div 48)) xs"

text \<open>One line of text, the whole lines of a byte string, and the text of a byte string.\<close>

definition b64_line :: "bytes \<Rightarrow> bytes" where
  "b64_line blk = b64 blk @ [0x0a]"

function b64_lines :: "bytes \<Rightarrow> bytes" where
  "b64_lines xs = (if length xs \<ge> 48 then b64_line (take 48 xs) @ b64_lines (drop 48 xs) else [])"
  by auto
termination by (relation "measure length") auto

declare b64_lines.simps [simp del]

definition b64_last :: "bytes \<Rightarrow> bytes" where
  "b64_last xs = (if xs = [] then [] else b64_line xs)"

definition b64_text :: "bytes \<Rightarrow> bytes" where
  "b64_text xs = b64_lines xs @ b64_last (leftover xs)"

lemma b64_lines_short: "length xs < 48 \<Longrightarrow> b64_lines xs = []"
  by (subst b64_lines.simps) simp

lemma b64_lines_long: "48 \<le> length xs \<Longrightarrow> b64_lines xs = b64_line (take 48 xs) @ b64_lines (drop 48 xs)"
  by (subst b64_lines.simps) simp

lemma leftover_short: "length xs < 48 \<Longrightarrow> leftover xs = xs"
  by (simp add: leftover_def)

lemma leftover_long:
  assumes "48 \<le> length xs"
  shows "leftover xs = leftover (drop 48 xs)"
proof -
  have "length xs div 48 = Suc ((length xs - 48) div 48)" using assms by (simp add: le_div_geq)
  then show ?thesis by (simp add: leftover_def add.commute)
qed

lemma lines_append: "b64_lines (xs @ ys) = b64_lines xs @ b64_lines (leftover xs @ ys)"
  "leftover (xs @ ys) = leftover (leftover xs @ ys)"
proof (induction xs rule: b64_lines.induct)
  case (1 xs)
  show "b64_lines (xs @ ys) = b64_lines xs @ b64_lines (leftover xs @ ys)"
    "leftover (xs @ ys) = leftover (leftover xs @ ys)"
    using 1 by (cases "48 \<le> length xs"; simp add: b64_lines_short leftover_short b64_lines_long leftover_long not_le)+
qed

lemma length_leftover: "length (leftover xs) < 48"
  by (simp add: leftover_def)

lemma length_b64_lines: "length (b64_lines xs) = 65 * (length xs div 48)"
proof (induction xs rule: b64_lines.induct)
  case (1 xs)
  then show ?case
    by (cases "48 \<le> length xs") (simp_all add: b64_lines_short b64_lines_long b64_line_def length_b64 le_div_geq)
qed

definition terminated :: "bytes \<Rightarrow> bytes" where
  "terminated out = (if out = [] then [] else out @ [0])"

lemma put_line_terminated:
  assumes "length blk < 2 ^ 60" "blk \<noteq> []"
  shows "put_line (terminated out) blk = (terminated (out @ b64_line blk), length (b64 blk))"
proof -
  have "length (b64 blk) < size_mod" using assms(1) by (simp add: length_b64 size_mod_def)
  then show ?thesis
    by (simp add: put_line_def EVP_EncodeBlock_eq terminated_def b64_line_def butlast_append)
qed

lemma encode_lines_loop_eq:
  assumes "length out + length (b64_lines inp) < size_mod"
  shows "encode_lines_loop inp (length out) (terminated out) =
    (terminated (out @ b64_lines inp), Some (length out + length (b64_lines inp)), leftover inp)"
  using assms
proof (induction inp arbitrary: out rule: b64_lines.induct)
  case (1 inp)
  show ?case
  proof (cases "48 \<le> length inp")
    case True
    let ?l = "b64_line (take 48 inp)"
    have put: "put_line (terminated out) (take 48 inp) = (terminated (out @ ?l), 64)"
      using True put_line_terminated [of "take 48 inp" out] by (cases "inp = []") (simp_all add: length_b64)
    have len: "length ?l = 65" using True by (simp add: b64_line_def length_b64)
    from 1(2) True len have small: "length out + 65 + length (b64_lines (drop 48 inp)) < size_mod"
      by (simp add: b64_lines_long)
    then have add: "size_add (size_add (length out) 64) 1 = length (out @ ?l)" using len by simp
    from 1(1) [OF True, of "out @ ?l"] small len
    have "encode_lines_loop (drop 48 inp) (length (out @ ?l)) (terminated (out @ ?l)) =
      (terminated ((out @ ?l) @ b64_lines (drop 48 inp)),
       Some (length (out @ ?l) + length (b64_lines (drop 48 inp))), leftover (drop 48 inp))" by simp
    then show ?thesis
      using True add put len by (subst encode_lines_loop.simps) (simp add: b64_lines_long leftover_long)
  qed (simp add: encode_lines_loop.simps b64_lines_short leftover_short)
qed

lemma EVP_EncodeInit_ok: "ctx_ok EVP_EncodeInit" "pending EVP_EncodeInit = []"
  by (simp_all add: EVP_EncodeInit_def ctx_ok_def pending_def)

lemma length_pending [simp]: "ctx_ok ctx \<Longrightarrow> length (pending ctx) = data_used ctx"
  by (simp add: ctx_ok_def pending_def)

lemma pending_write:
  "length d = 48 \<Longrightarrow> length p + length xs \<le> 48 \<Longrightarrow> p = take (length p) d \<Longrightarrow>
   take (length p + length xs) (mem_write (length p) xs d) = p @ xs"
  by (simp add: mem_write_def)

lemma EVP_EncodeUpdate_ok:
  assumes ctx: "ctx_ok ctx" and small: "length (b64_lines (pending ctx @ inp)) \<le> INT_MAX_64"
  obtains ctx' where
    "EVP_EncodeUpdate ctx inp =
      (terminated (b64_lines (pending ctx @ inp)), int (length (b64_lines (pending ctx @ inp))), ctx')"
    "ctx_ok ctx'" "pending ctx' = leftover (pending ctx @ inp)"
proof (cases "length (pending ctx @ inp) < 48")
  case True
  then have short: "b64_lines (pending ctx @ inp) = []" "leftover (pending ctx @ inp) = pending ctx @ inp"
    by (simp_all only: b64_lines_short leftover_short)
  show ?thesis
  proof (cases "inp = []")
    case True
    show ?thesis
      by (rule that [of ctx]) (use True short ctx in \<open>simp_all add: EVP_EncodeUpdate_def terminated_def\<close>)
  next
    case False
    let ?c = "ctx\<lparr>ctx_data := mem_write (data_used ctx) inp (ctx_data ctx), data_used := data_used ctx + length inp\<rparr>"
    have less: "length inp < 48 - data_used ctx" using True ctx by (simp add: ctx_ok_def)
    show ?thesis
    proof (rule that [of ?c])
      show "EVP_EncodeUpdate ctx inp = (terminated (b64_lines (pending ctx @ inp)),
          int (length (b64_lines (pending ctx @ inp))), ?c)"
        using less False ctx by (simp add: short EVP_EncodeUpdate_def terminated_def)
      show "ctx_ok ?c" using True ctx by (simp add: ctx_ok_def)
      show "pending ?c = leftover (pending ctx @ inp)"
        using True ctx pending_write [of "ctx_data ctx" "pending ctx" inp]
        by (simp add: short) (simp add: pending_def ctx_ok_def)
    qed
  qed
next
  case False
  define todo where "todo = (if data_used ctx = 0 then 0 else 48 - data_used ctx)"
  define blk where "blk = (if data_used ctx = 0 then [] else pending ctx @ take todo inp)"
  define o1 where "o1 = (if blk = [] then [] else b64_line blk)"
  define c1 where "c1 = (if data_used ctx = 0 then ctx else ctx\<lparr>ctx_data := blk, data_used := 0\<rparr>)"
  from False ctx have ne: "inp \<noteq> []" "\<not> length inp < 48 - data_used ctx" by (auto simp: ctx_ok_def)
  have blk48: "length blk = 48" if "data_used ctx \<noteq> 0"
    using that ne ctx by (simp add: blk_def todo_def ctx_ok_def)
  have blk0: "blk = []" if "data_used ctx = 0"
    using that by (simp add: blk_def)
  have split: "pending ctx @ inp = blk @ drop todo inp"
    by (simp add: blk_def todo_def pending_def)
  have lines: "b64_lines (pending ctx @ inp) = o1 @ b64_lines (drop todo inp)"
    and left: "leftover (pending ctx @ inp) = leftover (drop todo inp)"
    unfolding split using blk48 blk0
    by (cases "data_used ctx = 0"; auto simp: o1_def b64_lines_long leftover_long)+
  have first: "(if data_used ctx \<noteq> 0
            then (let todo = 48 - data_used ctx;
                      blk = mem_write (data_used ctx) (take todo inp) (ctx_data ctx)
                  in case put_line [] blk of
                       (out, encoded) \<Rightarrow> (out, encoded + 1, drop todo inp, ctx\<lparr>ctx_data := blk, data_used := 0\<rparr>))
            else ([], 0, inp, ctx)) = (terminated o1, length o1, drop todo inp, c1)"
  proof (cases "data_used ctx = 0")
    case False
    have "mem_write (data_used ctx) (take (48 - data_used ctx) inp) (ctx_data ctx) = blk"
      using False ne ctx by (simp add: mem_write_def blk_def todo_def pending_def ctx_ok_def)
    then show ?thesis
      using False blk48 put_line_terminated [of blk "[]"]
      by (auto simp: o1_def c1_def todo_def terminated_def b64_line_def length_b64)
  qed (simp add: o1_def blk_def c1_def todo_def terminated_def)
  have "length o1 + length (b64_lines (drop todo inp)) < size_mod"
    using small by (simp add: lines INT_MAX_64_def size_mod_def)
  from encode_lines_loop_eq [OF this] small
  have run: "EVP_EncodeUpdate ctx inp = (terminated (b64_lines (pending ctx @ inp)),
      int (length (b64_lines (pending ctx @ inp))),
      c1\<lparr>ctx_data := mem_write 0 (leftover (drop todo inp)) (ctx_data c1), data_used := length (leftover (drop todo inp))\<rparr>)"
    unfolding EVP_EncodeUpdate_def first using ne by (simp add: lines)
  have c1: "length (ctx_data c1) = 48" using blk48 ctx by (auto simp: c1_def ctx_ok_def)
  show ?thesis
    using length_leftover [of "drop todo inp"] c1
    by (intro that [OF run]) (simp_all add: left [unfolded pending_def] ctx_ok_def pending_def mem_write_def)
qed

lemma EVP_EncodeFinal_eq:
  assumes "ctx_ok ctx"
  shows "EVP_EncodeFinal ctx =
    (terminated (b64_last (pending ctx)), int (length (b64_last (pending ctx))), ctx\<lparr>data_used := 0\<rparr>)"
proof (cases "data_used ctx = 0")
  case True
  then have "ctx\<lparr>data_used := 0\<rparr> = ctx" by simp
  with True show ?thesis by (simp add: EVP_EncodeFinal_def pending_def b64_last_def terminated_def)
next
  case False
  have "length (pending ctx) < 48" using assms by (simp add: ctx_ok_def pending_def)
  then have "length (pending ctx) < 2 ^ 60" by simp
  moreover have "pending ctx \<noteq> []" using False length_pending [OF assms] by (metis list.size(3))
  ultimately show ?thesis
    using False put_line_terminated [of "pending ctx" "[]"]
    by (simp add: EVP_EncodeFinal_def pending_def [symmetric] b64_last_def b64_line_def terminated_def)
qed

lemma lines_bound: "n < 2 ^ 30 + 48 \<Longrightarrow> 65 * (n div 48) \<le> INT_MAX_64"
  unfolding INT_MAX_64_def by (simp add: div_le_mono less_mult_imp_div_less)

text \<open>A caller that encodes a sequence of pieces and keeps what each call reports.\<close>

fun encode_pieces :: "evp_encode_ctx \<Rightarrow> bytes list \<Rightarrow> bytes" where
  "encode_pieces ctx [] = (case EVP_EncodeFinal ctx of (out, n, _) \<Rightarrow> take (nat n) out)"
| "encode_pieces ctx (p # ps) =
     (case EVP_EncodeUpdate ctx p of (out, n, ctx) \<Rightarrow> take (nat n) out @ encode_pieces ctx ps)"

lemma take_terminated [simp]: "take (length out) (terminated out) = out"
  by (simp add: terminated_def)

lemma encode_pieces_eq:
  assumes "ctx_ok ctx" "\<And>p. p \<in> set ps \<Longrightarrow> length p < 2 ^ 30"
  shows "encode_pieces ctx ps = b64_text (pending ctx @ concat ps)"
  using assms
proof (induction ps arbitrary: ctx)
  case Nil
  then have "length (pending ctx) < 48" by (simp add: ctx_ok_def)
  then show ?case by (simp add: EVP_EncodeFinal_eq [OF Nil.prems(1)] b64_text_def b64_lines_short leftover_short)
next
  case (Cons p ps)
  have "length p < 2 ^ 30" using Cons.prems(2) by simp
  then have "length (b64_lines (pending ctx @ p)) \<le> INT_MAX_64"
    using Cons.prems(1) by (simp add: length_b64_lines ctx_ok_def lines_bound)
  then obtain ctx' where u: "EVP_EncodeUpdate ctx p =
      (terminated (b64_lines (pending ctx @ p)), int (length (b64_lines (pending ctx @ p))), ctx')"
    and c: "ctx_ok ctx'" "pending ctx' = leftover (pending ctx @ p)"
    using EVP_EncodeUpdate_ok [OF Cons.prems(1)] by blast
  have "encode_pieces ctx' ps = b64_text (pending ctx' @ concat ps)"
    using Cons.prems(2) by (intro Cons.IH c) simp
  then show ?case
    using lines_append [of "pending ctx @ p" "concat ps"] by (simp add: u c(2) b64_text_def)
qed

section \<open>Streaming decoder\<close>

lemma decode_loop_append:
  "decode_loop (xs @ ys) ctx out =
     (case decode_loop xs ctx out of
        (out, ok, ctx) \<Rightarrow> if ok then decode_loop ys ctx out else (out, False, ctx))"
  by (induction xs ctx out rule: decode_loop.induct) (auto simp: Let_def split: option.splits)

lemma decode_loop_out:
  "decode_loop xs ctx out = (case decode_loop xs ctx [] of (o', r) \<Rightarrow> (out @ o', r))"
proof -
  have "decode_loop xs ctx (out @ o') = (case decode_loop xs ctx o' of (o'', r) \<Rightarrow> (out @ o'', r))" for o'
    by (induction xs ctx o' rule: decode_loop.induct) (auto simp: Let_def split: option.splits)
  from this [of "[]"] show ?thesis by simp
qed

lemma decode_loop_error:
  "decode_loop xs ctx out = (out', ok, ctx') \<Longrightarrow> \<not> error_encountered ctx \<Longrightarrow> error_encountered ctx' \<longleftrightarrow> \<not> ok"
  by (induction xs ctx out rule: decode_loop.induct) (auto simp: Let_def split: option.splits if_splits)

lemma decode_loop_out_length:
  "decode_loop xs ctx out = (out', ok, ctx') \<Longrightarrow> length out' \<le> length out + 3 * length xs"
proof (induction xs ctx out rule: decode_loop.induct)
  case (2 c inp ctx out)
  then show ?case
    by (auto simp: Let_def split: option.splits if_splits dest!: decode_quad_length) fastforce+
qed simp

text \<open>A caller that decodes a sequence of pieces and keeps what each call reports; \<open>None\<close> when a call
  reports an error.\<close>

fun decode_pieces :: "evp_encode_ctx \<Rightarrow> bytes list \<Rightarrow> bytes option" where
  "decode_pieces ctx [] = (if EVP_DecodeFinal ctx = 1 then Some [] else None)"
| "decode_pieces ctx (p # ps) =
     (case EVP_DecodeUpdate ctx p of
        (r, out, n, ctx) \<Rightarrow> if r < 0 then None else map_option ((@) (take n out)) (decode_pieces ctx ps))"

lemma decode_pieces_eq:
  assumes "\<not> error_encountered ctx" "\<And>p. p \<in> set ps \<Longrightarrow> length p < 2 ^ 29"
  shows "decode_pieces ctx ps =
    (case decode_loop (concat ps) ctx [] of
       (out, ok, ctx') \<Rightarrow> if ok \<and> data_used ctx' = 0 then Some out else None)"
  using assms
proof (induction ps arbitrary: ctx)
  case Nil
  then show ?case by (simp add: EVP_DecodeFinal_def)
next
  case (Cons p ps)
  obtain out ok ctx1 where d: "decode_loop p ctx [] = (out, ok, ctx1)" by (cases "decode_loop p ctx []")
  have e: "error_encountered ctx1 \<longleftrightarrow> \<not> ok" using decode_loop_error [OF d] Cons.prems(1) by simp
  have "length p < 2 ^ 29" using Cons.prems(2) by simp
  with decode_loop_out_length [OF d] have small: "length out \<le> INT_MAX_64" by (simp add: INT_MAX_64_def)
  show ?case
  proof (cases ok)
    case False
    then show ?thesis using Cons.prems(1) d by (simp add: EVP_DecodeUpdate_def decode_loop_append)
  next
    case True
    have "decode_pieces ctx1 ps = (case decode_loop (concat ps) ctx1 [] of
       (out, ok, ctx') \<Rightarrow> if ok \<and> data_used ctx' = 0 then Some out else None)"
      using Cons.prems(2) e True by (intro Cons.IH) simp_all
    moreover have "decode_loop (concat (p # ps)) ctx [] =
      (case decode_loop (concat ps) ctx1 [] of (o', r) \<Rightarrow> (out @ o', r))"
      using d True decode_loop_out [of "concat ps" ctx1 out] by (simp add: decode_loop_append)
    ultimately show ?thesis
      using Cons.prems(1) d True small by (auto simp: EVP_DecodeUpdate_def split: prod.splits)
  qed
qed

subsection \<open>The text of a byte string\<close>

definition dec_ctx :: "bool \<Rightarrow> evp_encode_ctx \<Rightarrow> bool" where
  "dec_ctx eof ctx \<longleftrightarrow> data_used ctx = 0 \<and> length (ctx_data ctx) = 48 \<and> (eof_seen ctx \<longleftrightarrow> eof) \<and> \<not> error_encountered ctx"

lemma decode_loop_quad:
  assumes "dec_ctx False ctx" "base64_decode_quad c0 c1 c2 c3 = Some bs"
    and "\<not> is_b64_space c0" "\<not> is_b64_space c1" "\<not> is_b64_space c2" "\<not> is_b64_space c3"
  obtains ctx' where "\<And>rest. decode_loop (c0 # c1 # c2 # c3 # rest) ctx out = decode_loop rest ctx' (out @ bs)"
    "dec_ctx (length bs < 3) ctx'"
proof -
  define d where "d = (ctx_data ctx)[0 := c0, 1 := c1, 2 := c2, 3 := c3]"
  have d: "d ! 0 = c0" "d ! 1 = c1" "d ! 2 = c2" "d ! 3 = c3" "length d = 48"
    using assms(1) by (simp_all add: d_def dec_ctx_def)
  define c where "c = ctx\<lparr>ctx_data := d, data_used := 0\<rparr>"
  define ctx' where "ctx' = (if length bs < 3 then c\<lparr>eof_seen := True\<rparr> else c)"
  have "decode_loop (c0 # c1 # c2 # c3 # rest) ctx out = decode_loop rest ctx' (out @ bs)" for rest
    using assms d
    by (simp add: dec_ctx_def Let_def ctx'_def c_def d_def numeral_2_eq_2 [symmetric] numeral_3_eq_3 [symmetric])
  moreover have "dec_ctx (length bs < 3) ctx'"
    using assms(1) d(5) by (simp add: dec_ctx_def ctx'_def c_def)
  ultimately show thesis by (rule that)
qed

lemma not_space_pad [simp]: "\<not> is_b64_space 0x3d"
  by (simp add: is_b64_space_def)

lemma decode_loop_b64:
  assumes "dec_ctx False ctx"
  obtains ctx' where "\<And>rest. decode_loop (b64 src @ rest) ctx out = decode_loop rest ctx' (out @ src)"
    "dec_ctx (length src mod 3 \<noteq> 0) ctx'"
  using assms
proof (induction src arbitrary: ctx out thesis rule: triples_induct)
  case 1
  then show ?case by simp
next
  case (2 a)
  from decode_loop_quad [OF 2(2) decode_quad_1, of a out]
  obtain ctx' where "\<And>rest. decode_loop (b64 [a] @ rest) ctx out = decode_loop rest ctx' (out @ [a])" "dec_ctx True ctx'"
    by auto
  then show ?case using 2(1) by simp
next
  case (3 a b)
  from decode_loop_quad [OF 3(2) decode_quad_2, of a b out]
  obtain ctx' where "\<And>rest. decode_loop (b64 [a, b] @ rest) ctx out = decode_loop rest ctx' (out @ [a, b])" "dec_ctx True ctx'"
    by auto
  then show ?case using 3(1) by simp
next
  case (4 a b c src)
  from decode_loop_quad [OF 4(3) decode_quad_full, of a b c out]
  obtain c1 where c1: "\<And>rest. decode_loop (b64 [a, b, c] @ rest) ctx out = decode_loop rest c1 (out @ [a, b, c])"
    "dec_ctx False c1"
    by auto
  from 4(1) [OF _ c1(2)] obtain ctx' where
    "\<And>rest. decode_loop (b64 src @ rest) c1 (out @ [a, b, c]) = decode_loop rest ctx' ((out @ [a, b, c]) @ src)"
    "dec_ctx (length src mod 3 \<noteq> 0) ctx'" by blast
  moreover have "b64 (a # b # c # src) = b64 [a, b, c] @ b64 src" by simp
  moreover have "Suc (Suc (Suc (length src))) mod 3 = length src mod 3" by presburger
  ultimately show ?case using 4(2) [of ctx'] c1(1) by simp
qed

lemma space_newline [simp]: "is_b64_space 0x0a"
  by (simp add: is_b64_space_def)

lemma decode_loop_newline: "decode_loop (0x0a # rest) ctx out = decode_loop rest ctx out"
  by simp

lemma decode_loop_lines:
  assumes "dec_ctx False ctx"
  obtains ctx' where
    "\<And>rest. decode_loop (b64_lines xs @ rest) ctx out = decode_loop rest ctx' (out @ take (48 * (length xs div 48)) xs)"
    "dec_ctx False ctx'"
  using assms
proof (induction xs arbitrary: ctx out thesis rule: b64_lines.induct)
  case (1 xs)
  show ?case
  proof (cases "48 \<le> length xs")
    case False
    with 1(2) [of ctx] 1(3) show ?thesis by (simp add: b64_lines_short)
  next
    case True
    then have "length (take 48 xs) mod 3 = 0" by simp
    with decode_loop_b64 [OF 1(3), of "take 48 xs" out] obtain c1 where
      c1: "\<And>rest. decode_loop (b64 (take 48 xs) @ rest) ctx out = decode_loop rest c1 (out @ take 48 xs)" "dec_ctx False c1"
      by auto
    from 1(1) [OF True _ c1(2)] obtain ctx' where
      "\<And>rest. decode_loop (b64_lines (drop 48 xs) @ rest) c1 (out @ take 48 xs) =
        decode_loop rest ctx' ((out @ take 48 xs) @ take (48 * (length (drop 48 xs) div 48)) (drop 48 xs))"
      "dec_ctx False ctx'" by blast
    moreover have "take 48 xs @ take (48 * (length (drop 48 xs) div 48)) (drop 48 xs) = take (48 * (length xs div 48)) xs"
      using True by (simp add: le_div_geq take_add)
    ultimately show ?thesis
      using 1(2) [of ctx'] c1(1) True by (simp add: b64_lines_long b64_line_def decode_loop_newline)
  qed
qed

lemma decode_loop_text:
  assumes "dec_ctx False ctx"
  obtains ctx' where "decode_loop (b64_text xs) ctx [] = (xs, True, ctx')" "data_used ctx' = 0"
proof -
  obtain c1 where c1: "\<And>rest. decode_loop (b64_lines xs @ rest) ctx [] =
      decode_loop rest c1 (take (48 * (length xs div 48)) xs)" "dec_ctx False c1"
    using decode_loop_lines [OF assms, of xs "[]"] by auto
  obtain c2 where c2: "\<And>rest. decode_loop (b64 (leftover xs) @ rest) c1 (take (48 * (length xs div 48)) xs) =
      decode_loop rest c2 (take (48 * (length xs div 48)) xs @ leftover xs)" "data_used c2 = 0"
    using decode_loop_b64 [OF c1(2), of "leftover xs"] by (metis dec_ctx_def)
  have all: "take (48 * (length xs div 48)) xs @ leftover xs = xs" by (simp add: leftover_def)
  show thesis
  proof (cases "leftover xs = []")
    case True
    then show ?thesis
      using that [of c1] c1(1) [of "[]"] c1(2) all by (simp add: b64_text_def b64_last_def dec_ctx_def)
  next
    case False
    then show ?thesis
      using that [of c2] c1(1) c2 all
      by (simp add: b64_text_def b64_last_def b64_line_def decode_loop_newline)
  qed
qed

lemma EVP_DecodeInit_ok: "dec_ctx False EVP_DecodeInit" "\<not> error_encountered EVP_DecodeInit"
  by (simp_all add: dec_ctx_def EVP_DecodeInit_def)

lemma decode_pieces_text:
  assumes "concat ps = b64_text xs" "\<And>p. p \<in> set ps \<Longrightarrow> length p < 2 ^ 29"
  shows "decode_pieces EVP_DecodeInit ps = Some xs"
proof -
  obtain ctx' where "decode_loop (b64_text xs) EVP_DecodeInit [] = (xs, True, ctx')" "data_used ctx' = 0"
    using decode_loop_text [OF EVP_DecodeInit_ok(1)] by blast
  then show ?thesis using decode_pieces_eq [OF EVP_DecodeInit_ok(2) assms(2)] assms(1) by simp
qed

section \<open>Properties\<close>

text \<open>C12: Encoding a byte string in pieces and decoding the text in other pieces gives the byte string
  back, wherever the cuts are: the two streaming interfaces, with their partial blocks, line breaks and
  final padding, are inverse. The pieces are below 512 MB, so that no call's output count exceeds
  \<open>INT_MAX\<close>; the total is not bounded.\<close>

theorem base64_stream_roundtrip:
  assumes "\<And>p. p \<in> set ps \<Longrightarrow> length p < 2 ^ 29" "\<And>q. q \<in> set qs \<Longrightarrow> length q < 2 ^ 29"
    and "concat qs = encode_pieces EVP_EncodeInit ps"
  shows "decode_pieces EVP_DecodeInit qs = Some (concat ps)"
proof -
  have "encode_pieces EVP_EncodeInit ps = b64_text (concat ps)"
    using encode_pieces_eq [OF EVP_EncodeInit_ok(1), of ps] assms(1) EVP_EncodeInit_ok(2) by fastforce
  with assms decode_pieces_text show ?thesis by metis
qed

theorem base64_stream_roundtrip_witness:
  "decode_pieces EVP_DecodeInit [[0x41], [0x51, 0x49, 0x3d, 0x0a]] = Some (concat [[1], [], [2]])"
proof (rule base64_stream_roundtrip)
  show "concat [[0x41], [0x51, 0x49, 0x3d, 0x0a]] = encode_pieces EVP_EncodeInit [[1], [], [2]]" by code_simp
qed auto

text \<open>C13: How the input is cut does not matter: encoding in pieces and decoding in pieces depend on the
  concatenation of the pieces only, also when the decoder rejects.\<close>

theorem base64_cuts_do_not_matter:
  assumes "\<And>p. p \<in> set ps \<union> set qs \<Longrightarrow> length p < 2 ^ 29" "concat ps = concat qs"
  shows "encode_pieces EVP_EncodeInit ps = encode_pieces EVP_EncodeInit qs \<and>
    decode_pieces EVP_DecodeInit ps = decode_pieces EVP_DecodeInit qs"
proof -
  have "encode_pieces EVP_EncodeInit xs = b64_text (concat xs)" if "\<And>p. p \<in> set xs \<Longrightarrow> length p < 2 ^ 29" for xs
    using encode_pieces_eq [OF EVP_EncodeInit_ok(1), of xs] that EVP_EncodeInit_ok(2) by fastforce
  moreover have "decode_pieces EVP_DecodeInit xs = (case decode_loop (concat xs) EVP_DecodeInit [] of
       (out, ok, ctx') \<Rightarrow> if ok \<and> data_used ctx' = 0 then Some out else None)"
    if "\<And>p. p \<in> set xs \<Longrightarrow> length p < 2 ^ 29" for xs
    using decode_pieces_eq [OF EVP_DecodeInit_ok(2) that] .
  ultimately show ?thesis using assms by simp
qed

theorem base64_cuts_do_not_matter_witness:
  "decode_pieces EVP_DecodeInit [[0x41, 0x20], [0x42]] = decode_pieces EVP_DecodeInit [[0x41], [0x20, 0x42]] \<and>
   decode_pieces EVP_DecodeInit [[0x41, 0x20], [0x42]] = None"
proof
  show "decode_pieces EVP_DecodeInit [[0x41, 0x20], [0x42]] = decode_pieces EVP_DecodeInit [[0x41], [0x20, 0x42]]"
    by (rule base64_cuts_do_not_matter [THEN conjunct2]) auto
  show "decode_pieces EVP_DecodeInit [[0x41, 0x20], [0x42]] = None" by code_simp
qed

text \<open>C14: The one-shot functions: the buffer size \<open>EVP_EncodedLength\<close> announces is exactly what
  \<open>EVP_EncodeBlock\<close> writes, terminating NUL included; \<open>EVP_DecodeBase64\<close> gives the bytes back when the
  buffer holds three bytes for every four characters, and nothing it returns is longer than the buffer.\<close>

theorem base64_oneshot:
  assumes "EVP_EncodedLength (length src) = Some n" "length src < size_mod"
  shows "\<exists>enc. EVP_EncodeBlock src = (enc @ [0], n - 1) \<and> length (enc @ [0]) = n \<and>
    (\<forall>mx. 3 * (length enc div 4) \<le> mx \<longrightarrow> EVP_DecodeBase64 mx enc = Some src) \<and>
    (\<forall>mx inp bs. EVP_DecodeBase64 mx inp = Some bs \<longrightarrow> length bs \<le> mx)"
proof -
  have "EVP_EncodedLength (length src) =
      (if length (b64 src) + 1 < size_mod then Some (length (b64 src) + 1) else None)"
    unfolding length_b64 by (rule EVP_EncodedLength_eq [OF assms(2)])
  with assms(1) have n: "n = length (b64 src) + 1" "length (b64 src) < size_mod"
    by (simp_all split: if_split_asm)
  have len: "length (b64 src) div 4 = (length src + 2) div 3" by (simp add: length_b64)
  show ?thesis
  proof (intro exI [of _ "b64 src"] conjI allI impI)
    show "EVP_EncodeBlock src = (b64 src @ [0], n - 1)" "length (b64 src @ [0]) = n"
      using n by (simp_all add: EVP_EncodeBlock_eq)
    show "EVP_DecodeBase64 mx (b64 src) = Some src" if "3 * (length (b64 src) div 4) \<le> mx" for mx
      by (rule EVP_DecodeBase64_b64) (rule that [unfolded len])
    show "length bs \<le> mx" if "EVP_DecodeBase64 mx inp = Some bs" for mx inp bs
      using that by (rule EVP_DecodeBase64_bound)
  qed
qed

theorem base64_oneshot_witness:
  "EVP_EncodedLength (length [77 :: byte]) = Some 5 \<and> EVP_EncodeBlock [77] = ([0x54, 0x51, 0x3d, 0x3d, 0], 4) \<and>
     EVP_DecodeBase64 3 [0x54, 0x51, 0x3d, 0x3d] = Some [77]"
proof -
  have n: "EVP_EncodedLength (length [77 :: byte]) = Some 5" by code_simp
  have e: "EVP_EncodeBlock [77] = ([0x54, 0x51, 0x3d, 0x3d, 0], 4)" by code_simp
  from base64_oneshot [OF n] obtain enc where t: "EVP_EncodeBlock [77] = (enc @ [0], 4)" "length (enc @ [0]) = 5"
    "3 * (length enc div 4) \<le> 3 \<longrightarrow> EVP_DecodeBase64 3 enc = Some [77]"
    by (auto simp: size_mod_def)
  moreover from t(1) e have "enc = [0x54, 0x51, 0x3d, 0x3d]" by auto
  ultimately show ?thesis using n e by simp
qed

text \<open>C18: The branch-free primitives compute what their names say: on all 64-bit words, the masks are
  all ones exactly when the comparison holds, and the selection follows the mask.\<close>

theorem constant_time_primitives_correct:
  "constant_time_lt_w a b = (if a < b then -1 else 0) \<and> constant_time_ge_w a b = (if b \<le> a then -1 else 0) \<and>
   constant_time_is_zero_w a = (if a = 0 then -1 else 0) \<and> constant_time_eq_w a b = (if a = b then -1 else 0) \<and>
   constant_time_eq_8 a b = (if a = b then -1 else 0) \<and> constant_time_lt_8 a b = (if a < b then -1 else 0) \<and>
   constant_time_select_w (constant_time_lt_w a b) u v = (if a < b then u else v) \<and>
   constant_time_select_8 (constant_time_eq_8 a b) x y = (if a = b then x else y)"
  by (simp add: constant_time_lt_w_eq constant_time_ge_w_def constant_time_is_zero_w_eq constant_time_eq_w_eq
      constant_time_8_eq constant_time_select_8_if constant_time_select_w_def not_le [symmetric])

end
