(* ===== verification/PbStream.thy ===== *)
theory PbStream
  imports Mem
begin

text \<open>
  The streams and wire primitives of nanopb (\<open>pb_decode.c\<close>, \<open>pb_encode.c\<close>, \<open>pb.h\<close>), the protocol
  buffer library under Firestore: input streams with a read callback, length-limited substreams,
  varints, tags and skipping; output streams with a write callback or none (a sizing stream).
  An operation takes the stream and returns its result, \<open>None\<close> being \<open>false\<close>, and the stream.
  \<open>uint_fast8_t\<close> is 8 bits wide, as in the platform's \<open>stdint.h\<close>; \<open>pb_size_t\<close> 32 bits
  (\<open>PB_FIELD_32BIT\<close>).
\<close>

definition size_sub :: "nat \<Rightarrow> nat \<Rightarrow> nat" where
  "size_sub a b = (a + size_mod - b mod size_mod) mod size_mod"

definition PB_SIZE_MAX :: nat where "PB_SIZE_MAX = 2 ^ 32 - 1"

text \<open>Subtraction on \<open>size_t\<close> as the decoder does it, around zero.\<close>

definition size_down :: "nat \<Rightarrow> nat \<Rightarrow> nat" where
  "size_down a b = (if b \<le> a then a - b else a + size_mod - b)"

lemma size_down_le [simp]: "b \<le> a \<Longrightarrow> size_down a b = a - b"
  by (simp add: size_down_def)

section \<open>Input streams\<close>

text \<open>A read callback gets its state and a count, and returns the bytes or, on failure, whether it set
  \<open>bytes_left\<close> to 0 to signal the end of the data. \<open>is_callback = None\<close> is \<open>buf_read\<close>; then
  \<open>is_source\<close> is what \<open>state\<close> points to, and \<open>is_overrun\<close>, which is not in the program, records that
  \<open>buf_read\<close> was made to read behind the end of it, which is undefined in C.\<close>

type_synonym 's read_fun = "'s \<Rightarrow> nat \<Rightarrow> (bytes + bool) \<times> 's"

record 's pb_istream =
  is_callback :: "'s read_fun option"
  is_source :: bytes
  is_state :: 's
  is_bytes_left :: nat
  is_errmsg :: "string option"
  is_overrun :: bool

type_synonym ('s, 'a) pbi = "'s pb_istream \<Rightarrow> 'a option \<times> 's pb_istream"

definition pb_error :: "string \<Rightarrow> ('s, 'a) pbi" where
  "pb_error msg s = (None, s\<lparr>is_errmsg := (case is_errmsg s of None \<Rightarrow> Some msg | Some m \<Rightarrow> Some m)\<rparr>)"

definition buf_read :: "nat \<Rightarrow> 's pb_istream \<Rightarrow> bytes \<times> 's pb_istream" where
  "buf_read count s =
     (take count (is_source s),
      if count \<le> length (is_source s) then s\<lparr>is_source := drop count (is_source s)\<rparr>
      else s\<lparr>is_source := [], is_overrun := True\<rparr>)"

text \<open>\<open>stream->callback(stream, buf, count)\<close>.\<close>

definition is_call :: "nat \<Rightarrow> ('s, bytes) pbi" where
  "is_call count s =
     (case is_callback s of
        None \<Rightarrow> (case buf_read count s of (bs, s) \<Rightarrow> (Some bs, s))
      | Some f \<Rightarrow>
          (case f (is_state s) count of
             (Inl bs, st) \<Rightarrow> (Some bs, s\<lparr>is_state := st\<rparr>)
           | (Inr eof, st) \<Rightarrow> (None, s\<lparr>is_state := st, is_bytes_left := (if eof then 0 else is_bytes_left s)\<rparr>)))"

text \<open>\<open>pb_read\<close>, from the check of \<open>bytes_left\<close> on, and its loop that skips through a callback
  stream 16 bytes at a time.\<close>

definition pb_read_checked :: "nat \<Rightarrow> ('s, bytes) pbi" where
  "pb_read_checked count s =
     (if is_bytes_left s < count then pb_error ''end-of-stream'' s
      else case is_call count s of
             (None, s) \<Rightarrow> pb_error ''io error'' s
           | (Some bs, s) \<Rightarrow> (Some bs, s\<lparr>is_bytes_left := size_down (is_bytes_left s) count\<rparr>))"

definition pb_read_into :: "nat \<Rightarrow> ('s, bytes) pbi" where
  "pb_read_into count s = (if count = 0 then (Some [], s) else pb_read_checked count s)"

function pb_read_skip :: "nat \<Rightarrow> ('s, unit) pbi" where
  "pb_read_skip count s =
     (if count > 16
      then (case pb_read_into 16 s of (None, s) \<Rightarrow> (None, s) | (Some _, s) \<Rightarrow> pb_read_skip (count - 16) s)
      else case pb_read_into count s of (None, s) \<Rightarrow> (None, s) | (Some _, s) \<Rightarrow> (Some (), s))"
  by auto
termination by (relation "measure fst") auto

declare pb_read_skip.simps [simp del]

text \<open>\<open>pb_read(stream, NULL, count)\<close>.\<close>

definition pb_read_null :: "nat \<Rightarrow> ('s, unit) pbi" where
  "pb_read_null count s =
     (if count = 0 then (Some (), s)
      else if \<not> Option.is_none (is_callback s) then pb_read_skip count s
      else case pb_read_checked count s of (None, s) \<Rightarrow> (None, s) | (Some _, s) \<Rightarrow> (Some (), s))"

definition pb_readbyte :: "('s, byte) pbi" where
  "pb_readbyte s =
     (if is_bytes_left s = 0 then pb_error ''end-of-stream'' s
      else case is_call 1 s of
             (None, s) \<Rightarrow> pb_error ''io error'' s
           | (Some bs, s) \<Rightarrow> (Some (case bs of b # _ \<Rightarrow> b | [] \<Rightarrow> 0), s\<lparr>is_bytes_left := size_down (is_bytes_left s) 1\<rparr>))"

definition pb_istream_from_buffer :: "'s \<Rightarrow> bytes \<Rightarrow> nat \<Rightarrow> 's pb_istream" where
  "pb_istream_from_buffer st buf bufsize =
     \<lparr>is_callback = None, is_source = buf, is_state = st, is_bytes_left = bufsize, is_errmsg = None,
      is_overrun = False\<rparr>"

lemma is_call_bytes_left: "is_call n s = (Some bs, s') \<Longrightarrow> is_bytes_left s' = is_bytes_left s"
  by (auto simp: is_call_def buf_read_def split: option.splits sum.splits prod.splits)

lemma pb_readbyte_less: "pb_readbyte s = (Some b, s') \<Longrightarrow> is_bytes_left s' < is_bytes_left s"
  by (auto simp: pb_readbyte_def pb_error_def dest: is_call_bytes_left split: if_splits prod.splits option.splits)

section \<open>Varints\<close>

text \<open>The \<open>do\<close> loop of \<open>pb_decode_varint32_eof\<close> with the check behind it; \<open>bitpos\<close> is 8 bits wide.\<close>

function varint32_loop :: "u32 \<Rightarrow> nat \<Rightarrow> ('s, u32) pbi" where
  "varint32_loop result bitpos s =
     (case pb_readbyte s of
        (None, s) \<Rightarrow> (None, s)
      | (Some b, s) \<Rightarrow>
          (let sign_extension = (if bitpos < 63 then 0xff else 0x01)
           in if bitpos \<ge> 32 \<and> b AND 0x7f \<noteq> 0 \<and> (drop_bit 31 result = 0 \<or> b \<noteq> sign_extension)
              then pb_error ''varint overflow'' s
              else let result = (if bitpos \<ge> 32 then result else result OR push_bit bitpos (ucast (b AND 0x7f)));
                       bitpos = (bitpos + 7) mod 256
                   in if b AND 0x80 \<noteq> 0 then varint32_loop result bitpos s
                      else if bitpos = 35 \<and> b AND 0x70 \<noteq> 0 then pb_error ''varint overflow'' s
                      else (Some result, s)))"
  by auto
termination by (relation "measure (\<lambda>(_, _, s). is_bytes_left s)") (auto dest: pb_readbyte_less [OF sym])

declare varint32_loop.simps [simp del]

text \<open>The result, whether \<open>*eof\<close> was set, and the stream.\<close>

definition pb_decode_varint32_eof :: "'s pb_istream \<Rightarrow> u32 option \<times> bool \<times> 's pb_istream" where
  "pb_decode_varint32_eof s =
     (case pb_readbyte s of
        (None, s) \<Rightarrow> (None, is_bytes_left s = 0, s)
      | (Some b, s) \<Rightarrow>
          if b AND 0x80 = 0 then (Some (ucast b), False, s)
          else (case varint32_loop (ucast (b AND 0x7f)) 7 s of (r, s) \<Rightarrow> (r, False, s)))"

definition pb_decode_varint32 :: "('s, u32) pbi" where
  "pb_decode_varint32 s = (case pb_decode_varint32_eof s of (r, _, s) \<Rightarrow> (r, s))"

function varint_loop :: "u64 \<Rightarrow> nat \<Rightarrow> ('s, u64) pbi" where
  "varint_loop result bitpos s =
     (if bitpos \<ge> 64 then pb_error ''varint overflow'' s
      else case pb_readbyte s of
             (None, s) \<Rightarrow> (None, s)
           | (Some b, s) \<Rightarrow>
               (let result = result OR push_bit bitpos (ucast (b AND 0x7f));
                    bitpos = (bitpos + 7) mod 256
                in if b AND 0x80 \<noteq> 0 then varint_loop result bitpos s else (Some result, s)))"
  by auto
termination by (relation "measure (\<lambda>(_, _, s). is_bytes_left s)") (auto dest: pb_readbyte_less [OF sym])

declare varint_loop.simps [simp del]

definition pb_decode_varint :: "('s, u64) pbi" where
  "pb_decode_varint s = varint_loop 0 0 s"

lemma pb_read_into_1_less: "pb_read_into 1 s = (Some bs, s') \<Longrightarrow> is_bytes_left s' < is_bytes_left s"
  by (auto simp: pb_read_into_def pb_read_checked_def pb_error_def dest!: is_call_bytes_left
      split: if_splits prod.splits option.splits)

lemmas pb_read_into_Suc_less = pb_read_into_1_less [unfolded One_nat_def, OF sym]

function pb_skip_varint :: "('s, unit) pbi" where
  "pb_skip_varint s =
     (case pb_read_into 1 s of
        (None, s) \<Rightarrow> (None, s)
      | (Some bs, s) \<Rightarrow> if (case bs of b # _ \<Rightarrow> b | [] \<Rightarrow> 0) AND 0x80 \<noteq> 0 then pb_skip_varint s else (Some (), s))"
  by auto
termination by (relation "measure is_bytes_left") (auto dest: pb_read_into_Suc_less)

declare pb_skip_varint.simps [simp del]

definition pb_skip_string :: "('s, unit) pbi" where
  "pb_skip_string s =
     (case pb_decode_varint32 s of
        (None, s) \<Rightarrow> (None, s)
      | (Some len, s) \<Rightarrow> pb_read_null (unat len) s)"

section \<open>Tags and fields\<close>

text \<open>Wire types are the three low bits of a tag, the four named ones and the others.\<close>

definition PB_WT_VARINT :: u32 where "PB_WT_VARINT = 0"
definition PB_WT_64BIT :: u32 where "PB_WT_64BIT = 1"
definition PB_WT_STRING :: u32 where "PB_WT_STRING = 2"
definition PB_WT_32BIT :: u32 where "PB_WT_32BIT = 5"

text \<open>The wire type and the tag; \<open>*eof\<close>; the stream.\<close>

definition pb_decode_tag :: "'s pb_istream \<Rightarrow> (u32 \<times> u32) option \<times> bool \<times> 's pb_istream" where
  "pb_decode_tag s =
     (case pb_decode_varint32_eof s of
        (None, eof, s) \<Rightarrow> (None, eof, s)
      | (Some temp, _, s) \<Rightarrow>
          if temp = 0 then (None, True, s) else (Some (temp AND 7, drop_bit 3 temp), False, s))"

definition pb_skip_field :: "u32 \<Rightarrow> ('s, unit) pbi" where
  "pb_skip_field wire_type s =
     (if wire_type = PB_WT_VARINT then pb_skip_varint s
      else if wire_type = PB_WT_64BIT then pb_read_null 8 s
      else if wire_type = PB_WT_STRING then pb_skip_string s
      else if wire_type = PB_WT_32BIT then pb_read_null 4 s
      else pb_error ''invalid wire_type'' s)"

text \<open>A value as it is on the wire, at most \<open>max_size\<close> bytes.\<close>

function raw_varint_loop :: "nat \<Rightarrow> bytes \<Rightarrow> ('s, bytes) pbi" where
  "raw_varint_loop max_size buf s =
     (if length buf + 1 > max_size then (None, s)
      else case pb_read_into 1 s of
             (None, s) \<Rightarrow> (None, s)
           | (Some bs, s) \<Rightarrow>
               (let b = (case bs of b # _ \<Rightarrow> b | [] \<Rightarrow> 0)
                in if b AND 0x80 \<noteq> 0 then raw_varint_loop max_size (buf @ [b]) s else (Some (buf @ [b]), s)))"
  by auto
termination by (relation "measure (\<lambda>(_, _, s). is_bytes_left s)") (auto dest: pb_read_into_Suc_less)

declare raw_varint_loop.simps [simp del]

definition read_raw_value :: "u32 \<Rightarrow> nat \<Rightarrow> ('s, bytes) pbi" where
  "read_raw_value wire_type max_size s =
     (if wire_type = PB_WT_VARINT then raw_varint_loop max_size [] s
      else if wire_type = PB_WT_64BIT then pb_read_into 8 s
      else if wire_type = PB_WT_32BIT then pb_read_into 4 s
      else pb_error ''invalid wire_type'' s)"

section \<open>Substreams\<close>

definition pb_make_string_substream :: "('s, 's pb_istream) pbi" where
  "pb_make_string_substream s =
     (case pb_decode_varint32 s of
        (None, s) \<Rightarrow> (None, s)
      | (Some sz, s) \<Rightarrow>
          if is_bytes_left s < unat sz then pb_error ''parent stream too short'' s
          else (Some (s\<lparr>is_bytes_left := unat sz\<rparr>), s\<lparr>is_bytes_left := size_down (is_bytes_left s) (unat sz)\<rparr>))"

text \<open>A substream that is given up takes its overrun with it to the parent.\<close>

definition overrun_of :: "'s pb_istream \<Rightarrow> 's pb_istream \<Rightarrow> 's pb_istream" where
  "overrun_of substream s = s\<lparr>is_overrun := is_overrun substream\<rparr>"

definition pb_close_string_substream :: "'s pb_istream \<Rightarrow> ('s, unit) pbi" where
  "pb_close_string_substream substream s =
     (case (if is_bytes_left substream \<noteq> 0 then pb_read_null (is_bytes_left substream) substream else (Some (), substream)) of
        (None, substream) \<Rightarrow> (None, overrun_of substream s)
      | (Some _, substream) \<Rightarrow>
          (Some (), (overrun_of substream s)
             \<lparr>is_source := is_source substream, is_state := is_state substream, is_errmsg := is_errmsg substream\<rparr>))"

section \<open>Fixed-width and zigzag values\<close>

definition pb_decode_svarint :: "('s, 64 word) pbi" where
  "pb_decode_svarint s =
     (case pb_decode_varint s of
        (None, s) \<Rightarrow> (None, s)
      | (Some v, s) \<Rightarrow> (Some (if v AND 1 \<noteq> 0 then NOT (drop_bit 1 v) else drop_bit 1 v), s))"

definition pb_decode_fixed32 :: "('s, u32) pbi" where
  "pb_decode_fixed32 s =
     (case pb_read_into 4 s of
        (None, s) \<Rightarrow> (None, s)
      | (Some bs, s) \<Rightarrow>
          (Some (push_bit 0 (ucast (bs ! 0)) OR push_bit 8 (ucast (bs ! 1)) OR
                 push_bit 16 (ucast (bs ! 2)) OR push_bit 24 (ucast (bs ! 3))), s))"

definition pb_decode_fixed64 :: "('s, u64) pbi" where
  "pb_decode_fixed64 s =
     (case pb_read_into 8 s of
        (None, s) \<Rightarrow> (None, s)
      | (Some bs, s) \<Rightarrow>
          (Some (push_bit 0 (ucast (bs ! 0)) OR push_bit 8 (ucast (bs ! 1)) OR
                 push_bit 16 (ucast (bs ! 2)) OR push_bit 24 (ucast (bs ! 3)) OR
                 push_bit 32 (ucast (bs ! 4)) OR push_bit 40 (ucast (bs ! 5)) OR
                 push_bit 48 (ucast (bs ! 6)) OR push_bit 56 (ucast (bs ! 7))), s))"

definition pb_decode_bool :: "('s, bool) pbi" where
  "pb_decode_bool s =
     (case pb_decode_varint32 s of (None, s) \<Rightarrow> (None, s) | (Some v, s) \<Rightarrow> (Some (v \<noteq> 0), s))"

section \<open>Output streams\<close>

text \<open>\<open>Sizing\<close> is the NULL callback; for \<open>BufWrite\<close> (\<open>buf_write\<close>) \<open>os_dest\<close> is what lies in front of
  the pointer \<open>state\<close> in the buffer. \<open>os_state = None\<close> is a \<open>state\<close> of NULL.\<close>

datatype 's os_callback = Sizing | BufWrite | CustomWrite "'s option \<Rightarrow> bytes \<Rightarrow> bool \<times> 's option"

record 's pb_ostream =
  os_callback :: "'s os_callback"
  os_dest :: bytes
  os_state :: "'s option"
  os_max_size :: nat
  os_bytes_written :: nat
  os_errmsg :: "string option"

type_synonym ('s, 'a) pbo = "'s pb_ostream \<Rightarrow> 'a option \<times> 's pb_ostream"

definition pbo_error :: "string \<Rightarrow> ('s, 'a) pbo" where
  "pbo_error msg s = (None, s\<lparr>os_errmsg := (case os_errmsg s of None \<Rightarrow> Some msg | Some m \<Rightarrow> Some m)\<rparr>)"

definition pb_ostream_from_buffer :: "'s \<Rightarrow> nat \<Rightarrow> 's pb_ostream" where
  "pb_ostream_from_buffer st bufsize =
     \<lparr>os_callback = BufWrite, os_dest = [], os_state = Some st, os_max_size = bufsize, os_bytes_written = 0, os_errmsg = None\<rparr>"

definition PB_OSTREAM_SIZING :: "'s pb_ostream" where
  "PB_OSTREAM_SIZING =
     \<lparr>os_callback = Sizing, os_dest = [], os_state = None, os_max_size = 0, os_bytes_written = 0, os_errmsg = None\<rparr>"

definition is_sizing :: "'s pb_ostream \<Rightarrow> bool" where
  "is_sizing s = (case os_callback s of Sizing \<Rightarrow> True | _ \<Rightarrow> False)"

definition buf_write :: "bytes \<Rightarrow> 's pb_ostream \<Rightarrow> 's pb_ostream" where
  "buf_write buf s = s\<lparr>os_dest := os_dest s @ buf\<rparr>"

definition os_call :: "bytes \<Rightarrow> 's pb_ostream \<Rightarrow> bool \<times> 's pb_ostream" where
  "os_call buf s =
     (case os_callback s of
        Sizing \<Rightarrow> (False, s)
      | BufWrite \<Rightarrow> (True, buf_write buf s)
      | CustomWrite f \<Rightarrow> (case f (os_state s) buf of (ok, st) \<Rightarrow> (ok, s\<lparr>os_state := st\<rparr>)))"

definition pb_write :: "bytes \<Rightarrow> ('s, unit) pbo" where
  "pb_write buf s =
     (let count = length buf;
          written = (\<lambda>s. (Some (), s\<lparr>os_bytes_written := size_add (os_bytes_written s) count\<rparr>))
      in if count > 0 \<and> \<not> is_sizing s
         then (if size_add (os_bytes_written s) count < os_bytes_written s \<or>
                  size_add (os_bytes_written s) count > os_max_size s
               then pbo_error ''stream full'' s
               else case os_call buf s of (ok, s) \<Rightarrow> if ok then written s else pbo_error ''io error'' s)
         else written s)"

text \<open>\<open>pb_write(stream, NULL, count)\<close> on a sizing stream, the only use of a NULL buffer.\<close>

definition pb_write_sizing :: "nat \<Rightarrow> ('s, unit) pbo" where
  "pb_write_sizing count s = (Some (), s\<lparr>os_bytes_written := size_add (os_bytes_written s) count\<rparr>)"

function varint_buffer :: "u64 \<Rightarrow> bytes" where
  "varint_buffer v = (if v = 0 then [] else (ucast (v AND 0x7f) OR 0x80) # varint_buffer (drop_bit 7 v))"
  by auto
termination
proof (relation "measure unat")
  fix v :: u64
  assume "v \<noteq> 0"
  then have "0 < unat v" by (simp add: unat_gt_0)
  then have "unat v div 2 ^ 7 < unat v" by simp
  then show "(drop_bit 7 v, v) \<in> measure unat" by (simp add: unat_drop_bit_div)
qed simp

declare varint_buffer.simps [simp del]

definition pb_encode_varint :: "u64 \<Rightarrow> ('s, unit) pbo" where
  "pb_encode_varint v s =
     (if v \<le> 0x7f then pb_write [ucast v] s
      else let buffer = varint_buffer v in pb_write (butlast buffer @ [last buffer AND 0x7f]) s)"

definition pb_encode_svarint :: "64 word \<Rightarrow> ('s, unit) pbo" where
  "pb_encode_svarint v s =
     (let zigzagged = (if v <s 0 then NOT (push_bit 1 v) else push_bit 1 v) in pb_encode_varint zigzagged s)"

definition pb_encode_fixed32 :: "u32 \<Rightarrow> ('s, unit) pbo" where
  "pb_encode_fixed32 v s =
     pb_write [ucast (v AND 0xff), ucast (drop_bit 8 v AND 0xff), ucast (drop_bit 16 v AND 0xff),
               ucast (drop_bit 24 v AND 0xff)] s"

definition pb_encode_fixed64 :: "u64 \<Rightarrow> ('s, unit) pbo" where
  "pb_encode_fixed64 v s =
     pb_write [ucast (v AND 0xff), ucast (drop_bit 8 v AND 0xff), ucast (drop_bit 16 v AND 0xff),
               ucast (drop_bit 24 v AND 0xff), ucast (drop_bit 32 v AND 0xff), ucast (drop_bit 40 v AND 0xff),
               ucast (drop_bit 48 v AND 0xff), ucast (drop_bit 56 v AND 0xff)] s"

definition pb_encode_tag :: "u32 \<Rightarrow> u32 \<Rightarrow> ('s, unit) pbo" where
  "pb_encode_tag wiretype field_number s =
     pb_encode_varint (push_bit 3 (ucast field_number) OR ucast wiretype) s"

definition pb_encode_string :: "bytes \<Rightarrow> ('s, unit) pbo" where
  "pb_encode_string buffer s =
     (case pb_encode_varint (word_of_nat (length buffer)) s of
        (None, s) \<Rightarrow> (None, s)
      | (Some _, s) \<Rightarrow> pb_write buffer s)"

text \<open>An integer in memory, low byte first.\<close>

primrec le_bytes :: "nat \<Rightarrow> nat \<Rightarrow> bytes" where
  "le_bytes 0 v = []"
| "le_bytes (Suc n) v = word_of_nat v # le_bytes n (v div 256)"

lemma length_le_bytes [simp]: "length (le_bytes n v) = n"
  by (induction n arbitrary: v) auto

end
