(* ===== verification/PbFields.thy ===== *)
theory PbFields
  imports PbStream
begin

text \<open>
  Message descriptors and message structs of nanopb, \<open>pb.h\<close> and \<open>pb_common.c\<close>. A struct lies in a flat
  memory of bytes; a field is found by the same address arithmetic as in the code. Pointers are
  8 bytes, integers little-endian, \<open>bool\<close> one byte, \<open>pb_size_t\<close> four. The descriptor arrays are
  constant data of generated files: a table \<open>desc\<close> from their addresses to their contents, the
  terminator included.
\<close>

type_synonym pb_mem = "nat \<Rightarrow> byte"

definition load :: "pb_mem \<Rightarrow> nat \<Rightarrow> nat \<Rightarrow> bytes" where
  "load m a n = map (\<lambda>i. m (a + i)) [0..<n]"

definition le_nat :: "bytes \<Rightarrow> nat" where
  "le_nat bs = foldr (\<lambda>b acc. unat b + 256 * acc) bs 0"

definition load_nat :: "pb_mem \<Rightarrow> nat \<Rightarrow> nat \<Rightarrow> nat" where
  "load_nat m a n = le_nat (load m a n)"

abbreviation load_ptr :: "pb_mem \<Rightarrow> nat \<Rightarrow> nat" where
  "load_ptr m a \<equiv> load_nat m a 8"

abbreviation load_size :: "pb_mem \<Rightarrow> nat \<Rightarrow> nat" where
  "load_size m a \<equiv> load_nat m a 4"

section \<open>Field types\<close>

definition PB_LTYPE_BOOL :: byte where "PB_LTYPE_BOOL = 0x00"
definition PB_LTYPE_VARINT :: byte where "PB_LTYPE_VARINT = 0x01"
definition PB_LTYPE_UVARINT :: byte where "PB_LTYPE_UVARINT = 0x02"
definition PB_LTYPE_SVARINT :: byte where "PB_LTYPE_SVARINT = 0x03"
definition PB_LTYPE_FIXED32 :: byte where "PB_LTYPE_FIXED32 = 0x04"
definition PB_LTYPE_FIXED64 :: byte where "PB_LTYPE_FIXED64 = 0x05"
definition PB_LTYPE_LAST_PACKABLE :: byte where "PB_LTYPE_LAST_PACKABLE = 0x05"
definition PB_LTYPE_BYTES :: byte where "PB_LTYPE_BYTES = 0x06"
definition PB_LTYPE_STRING :: byte where "PB_LTYPE_STRING = 0x07"
definition PB_LTYPE_SUBMESSAGE :: byte where "PB_LTYPE_SUBMESSAGE = 0x08"
definition PB_LTYPE_EXTENSION :: byte where "PB_LTYPE_EXTENSION = 0x09"
definition PB_LTYPE_FIXED_LENGTH_BYTES :: byte where "PB_LTYPE_FIXED_LENGTH_BYTES = 0x0A"
definition PB_LTYPE_MASK :: byte where "PB_LTYPE_MASK = 0x0F"
definition PB_HTYPE_REQUIRED :: byte where "PB_HTYPE_REQUIRED = 0x00"
definition PB_HTYPE_OPTIONAL :: byte where "PB_HTYPE_OPTIONAL = 0x10"
definition PB_HTYPE_REPEATED :: byte where "PB_HTYPE_REPEATED = 0x20"
definition PB_HTYPE_ONEOF :: byte where "PB_HTYPE_ONEOF = 0x30"
definition PB_HTYPE_MASK :: byte where "PB_HTYPE_MASK = 0x30"
definition PB_ATYPE_STATIC :: byte where "PB_ATYPE_STATIC = 0x00"
definition PB_ATYPE_POINTER :: byte where "PB_ATYPE_POINTER = 0x80"
definition PB_ATYPE_CALLBACK :: byte where "PB_ATYPE_CALLBACK = 0x40"
definition PB_ATYPE_MASK :: byte where "PB_ATYPE_MASK = 0xC0"

definition PB_ATYPE :: "byte \<Rightarrow> byte" where "PB_ATYPE x = x AND PB_ATYPE_MASK"
definition PB_HTYPE :: "byte \<Rightarrow> byte" where "PB_HTYPE x = x AND PB_HTYPE_MASK"
definition PB_LTYPE :: "byte \<Rightarrow> byte" where "PB_LTYPE x = x AND PB_LTYPE_MASK"

named_theorems pb_types

lemmas [pb_types] = PB_LTYPE_BOOL_def PB_LTYPE_VARINT_def PB_LTYPE_UVARINT_def PB_LTYPE_SVARINT_def
  PB_LTYPE_FIXED32_def PB_LTYPE_FIXED64_def PB_LTYPE_LAST_PACKABLE_def PB_LTYPE_BYTES_def PB_LTYPE_STRING_def
  PB_LTYPE_SUBMESSAGE_def PB_LTYPE_EXTENSION_def PB_LTYPE_FIXED_LENGTH_BYTES_def PB_LTYPE_MASK_def
  PB_HTYPE_REQUIRED_def PB_HTYPE_OPTIONAL_def PB_HTYPE_REPEATED_def PB_HTYPE_ONEOF_def PB_HTYPE_MASK_def
  PB_ATYPE_STATIC_def PB_ATYPE_POINTER_def PB_ATYPE_CALLBACK_def PB_ATYPE_MASK_def
  PB_ATYPE_def PB_HTYPE_def PB_LTYPE_def

record pb_field =
  pf_tag :: nat
  pf_type :: byte
  pf_data_offset :: nat
  pf_size_offset :: int
  pf_data_size :: nat
  pf_array_size :: nat
  pf_ptr :: nat

definition PB_LAST_FIELD :: pb_field where
  "PB_LAST_FIELD = \<lparr>pf_tag = 0, pf_type = 0, pf_data_offset = 0, pf_size_offset = 0, pf_data_size = 0,
     pf_array_size = 0, pf_ptr = 0\<rparr>"

abbreviation atype :: "pb_field \<Rightarrow> byte" where "atype f \<equiv> PB_ATYPE (pf_type f)"
abbreviation htype :: "pb_field \<Rightarrow> byte" where "htype f \<equiv> PB_HTYPE (pf_type f)"
abbreviation ltype :: "pb_field \<Rightarrow> byte" where "ltype f \<equiv> PB_LTYPE (pf_type f)"

section \<open>The field iterator\<close>

text \<open>\<open>pos\<close> is an index into the array at \<open>start\<close>; what lies behind the array counts as a terminator.\<close>

record pb_field_iter =
  it_start :: "pb_field list"
  it_pos :: nat
  it_required_field_index :: nat
  it_dest_struct :: nat
  it_pData :: nat
  it_pSize :: nat

definition field_at :: "pb_field list \<Rightarrow> nat \<Rightarrow> pb_field" where
  "field_at fs i = (if i < length fs then fs ! i else PB_LAST_FIELD)"

abbreviation it_field :: "pb_field_iter \<Rightarrow> pb_field" where
  "it_field it \<equiv> field_at (it_start it) (it_pos it)"

definition size_addr :: "nat \<Rightarrow> pb_field \<Rightarrow> nat" where
  "size_addr pData f = nat (int pData + pf_size_offset f)"

definition pb_field_iter_begin :: "pb_field list \<Rightarrow> nat \<Rightarrow> bool \<times> pb_field_iter" where
  "pb_field_iter_begin fds dest_struct =
     (let f = field_at fds 0; pData = dest_struct + pf_data_offset f
      in (pf_tag f \<noteq> 0,
          \<lparr>it_start = fds, it_pos = 0, it_required_field_index = 0, it_dest_struct = dest_struct,
           it_pData = pData, it_pSize = size_addr pData f\<rparr>))"

definition pb_field_iter_next :: "pb_field_iter \<Rightarrow> bool \<times> pb_field_iter" where
  "pb_field_iter_next iter =
     (let prev_field = it_field iter
      in if pf_tag prev_field = 0 then (False, iter)
         else let iter = iter\<lparr>it_pos := it_pos iter + 1\<rparr>; f = it_field iter
              in if pf_tag f = 0
                 then (False, snd (pb_field_iter_begin (it_start iter) (it_dest_struct iter)))
                 else if htype prev_field = PB_HTYPE_ONEOF \<and> htype f = PB_HTYPE_ONEOF \<and>
                         pf_data_offset f = PB_SIZE_MAX
                 then (True, iter)
                 else let prev_size =
                            (if atype prev_field = PB_ATYPE_STATIC \<and> htype prev_field = PB_HTYPE_REPEATED
                             then pf_data_size prev_field * pf_array_size prev_field
                             else if atype prev_field = PB_ATYPE_POINTER then 8
                             else pf_data_size prev_field);
                          req = (if htype prev_field = PB_HTYPE_REQUIRED then it_required_field_index iter + 1
                                 else it_required_field_index iter);
                          pData = it_pData iter + prev_size + pf_data_offset f
                      in (True, iter\<lparr>it_required_field_index := req, it_pData := pData, it_pSize := size_addr pData f\<rparr>))"

text \<open>The search loop. It comes back to where it started after at most as many steps as there are
  fields: that is the fuel.\<close>

fun iter_find_loop :: "nat \<Rightarrow> nat \<Rightarrow> nat \<Rightarrow> pb_field_iter \<Rightarrow> bool \<times> pb_field_iter" where
  "iter_find_loop 0 start tag iter = (False, iter)"
| "iter_find_loop (Suc fuel) start tag iter =
     (if pf_tag (it_field iter) = tag \<and> ltype (it_field iter) \<noteq> PB_LTYPE_EXTENSION then (True, iter)
      else let iter = snd (pb_field_iter_next iter)
           in if it_pos iter \<noteq> start then iter_find_loop fuel start tag iter else (False, iter))"

definition pb_field_iter_find :: "pb_field_iter \<Rightarrow> nat \<Rightarrow> bool \<times> pb_field_iter" where
  "pb_field_iter_find iter tag = iter_find_loop (length (it_start iter) + 1) (it_pos iter) tag iter"

lemma iter_next_advances:
  "pb_field_iter_next it = (True, it') \<Longrightarrow>
     it_start it' = it_start it \<and> it_pos it' = Suc (it_pos it) \<and> it_pos it' < length (it_start it)"
  by (auto simp: pb_field_iter_next_def Let_def field_at_def PB_LAST_FIELD_def split: if_splits)

end
