(* ===== verification/PbEncode.thy ===== *)
theory PbEncode
  imports PbFields
begin

text \<open>
  Encoding of messages, \<open>pb_encode.c\<close>. The encoders read the struct at an address of a memory that
  does not change. Function pointers to user code (callback fds, extension handlers) are looked
  up in the environment. Messages may be nested through pointers without bound, so the recursion
  takes fuel, one unit for each level of nesting: the result is \<open>None\<close> when it is used up.
\<close>

section \<open>Operations with fuel\<close>

type_synonym ('s, 'a) fop = "'s \<Rightarrow> ('a option \<times> 's) option"

definition f_op :: "('s, 'a) cop \<Rightarrow> ('s, 'a) fop" where
  "f_op m = (\<lambda>s. Some (m s))"

definition f_seq :: "('s, 'a) fop \<Rightarrow> ('s, 'b) fop \<Rightarrow> ('s, 'b) fop" where
  "f_seq m n = (\<lambda>s. case m s of
      None \<Rightarrow> None
    | Some (None, t) \<Rightarrow> Some (None, t)
    | Some (Some _, t) \<Rightarrow> n t)"

definition f_ret :: "('s, unit) fop" where
  "f_ret = (\<lambda>s. Some (Some (), s))"

lemma f_seq_assoc: "f_seq (f_seq a b) c = f_seq a (f_seq b c)"
  by (auto simp: f_seq_def fun_eq_iff split: option.splits prod.splits)

type_synonym 's enc = "('s pb_ostream, unit) fop"

record 's enc_env =
  e_desc :: "nat \<Rightarrow> pb_field list"
  e_encode :: "nat \<Rightarrow> pb_field \<Rightarrow> nat \<Rightarrow> pb_mem \<Rightarrow> ('s, unit) pbo"  \<comment> \<open>callback, field, address of \<open>arg\<close>\<close>
  e_ext_encode :: "nat \<Rightarrow> nat \<Rightarrow> pb_mem \<Rightarrow> ('s, unit) pbo"        \<comment> \<open>handler, address of the extension\<close>
  e_ext_field :: "nat \<Rightarrow> pb_field"                                 \<comment> \<open>\<open>extension->type->arg\<close>\<close>

section \<open>Scalars, strings, bytes\<close>

definition safe_read_bool :: "pb_mem \<Rightarrow> nat \<Rightarrow> bool" where
  "safe_read_bool m p \<longleftrightarrow> m p \<noteq> 0"

definition pb_enc_bool :: "pb_mem \<Rightarrow> nat \<Rightarrow> ('s, unit) pbo" where
  "pb_enc_bool m src = pb_encode_varint (if safe_read_bool m src then 1 else 0)"

text \<open>The value of a signed or unsigned integer field, by its \<open>data_size\<close>.\<close>

definition load_signed :: "pb_mem \<Rightarrow> nat \<Rightarrow> nat \<Rightarrow> (64 word) option" where
  "load_signed m src data_size =
     (if data_size = 1 then Some (scast (word_of_nat (load_nat m src 1) :: 8 word))
      else if data_size = 2 then Some (scast (word_of_nat (load_nat m src 2) :: 16 word))
      else if data_size = 4 then Some (scast (word_of_nat (load_nat m src 4) :: 32 word))
      else if data_size = 8 then Some (word_of_nat (load_nat m src 8))
      else None)"

definition load_unsigned :: "pb_mem \<Rightarrow> nat \<Rightarrow> nat \<Rightarrow> u64 option" where
  "load_unsigned m src data_size =
     (if data_size = 1 \<or> data_size = 2 \<or> data_size = 4 \<or> data_size = 8
      then Some (word_of_nat (load_nat m src data_size)) else None)"

definition pb_enc_varint :: "pb_mem \<Rightarrow> pb_field \<Rightarrow> nat \<Rightarrow> ('s, unit) pbo" where
  "pb_enc_varint m field src =
     (case load_signed m src (pf_data_size field) of
        None \<Rightarrow> pbo_error ''invalid data_size''
      | Some v \<Rightarrow> pb_encode_varint v)"

definition pb_enc_uvarint :: "pb_mem \<Rightarrow> pb_field \<Rightarrow> nat \<Rightarrow> ('s, unit) pbo" where
  "pb_enc_uvarint m field src =
     (case load_unsigned m src (pf_data_size field) of
        None \<Rightarrow> pbo_error ''invalid data_size''
      | Some v \<Rightarrow> pb_encode_varint v)"

definition pb_enc_svarint :: "pb_mem \<Rightarrow> pb_field \<Rightarrow> nat \<Rightarrow> ('s, unit) pbo" where
  "pb_enc_svarint m field src =
     (case load_signed m src (pf_data_size field) of
        None \<Rightarrow> pbo_error ''invalid data_size''
      | Some v \<Rightarrow> pb_encode_svarint v)"

definition pb_enc_fixed32 :: "pb_mem \<Rightarrow> nat \<Rightarrow> ('s, unit) pbo" where
  "pb_enc_fixed32 m src = pb_encode_fixed32 (word_of_nat (load_nat m src 4))"

definition pb_enc_fixed64 :: "pb_mem \<Rightarrow> nat \<Rightarrow> ('s, unit) pbo" where
  "pb_enc_fixed64 m src = pb_encode_fixed64 (word_of_nat (load_nat m src 8))"

definition PB_BYTES_ARRAY_T_ALLOCSIZE :: "nat \<Rightarrow> nat" where
  "PB_BYTES_ARRAY_T_ALLOCSIZE n = size_add n 4"

definition pb_enc_bytes :: "pb_mem \<Rightarrow> pb_field \<Rightarrow> nat \<Rightarrow> ('s, unit) pbo" where
  "pb_enc_bytes m field src =
     (if src = 0 then pb_encode_string []
      else let sz = load_size m src; allocsize = PB_BYTES_ARRAY_T_ALLOCSIZE sz
           in if allocsize < sz \<or> (atype field = PB_ATYPE_STATIC \<and> allocsize > pf_data_size field)
              then pbo_error ''bytes size exceeded''
              else pb_encode_string (load m (src + 4) sz))"

function string_size :: "pb_mem \<Rightarrow> nat \<Rightarrow> nat \<Rightarrow> nat" where
  "string_size m p max_size = (if 0 < max_size \<and> m p \<noteq> 0 then Suc (string_size m (p + 1) (max_size - 1)) else 0)"
  by auto
termination by (relation "measure (\<lambda>(_, _, k). k)") auto

declare string_size.simps [simp del]

definition pb_enc_string :: "pb_mem \<Rightarrow> pb_field \<Rightarrow> nat \<Rightarrow> ('s, unit) pbo" where
  "pb_enc_string m field src =
     (let max_size = (if atype field = PB_ATYPE_POINTER then size_mod - 1 else pf_data_size field);
          sz = (if src = 0 then 0 else string_size m src max_size)
      in pb_encode_string (load m src sz))"

definition pb_enc_fixed_length_bytes :: "pb_mem \<Rightarrow> pb_field \<Rightarrow> nat \<Rightarrow> ('s, unit) pbo" where
  "pb_enc_fixed_length_bytes m field src = pb_encode_string (load m src (pf_data_size field))"

definition pb_encode_tag_for_field :: "pb_field \<Rightarrow> ('s, unit) pbo" where
  "pb_encode_tag_for_field field =
     (let t = ltype field
      in if t = PB_LTYPE_BOOL \<or> t = PB_LTYPE_VARINT \<or> t = PB_LTYPE_UVARINT \<or> t = PB_LTYPE_SVARINT
         then pb_encode_tag PB_WT_VARINT (word_of_nat (pf_tag field))
         else if t = PB_LTYPE_FIXED32 then pb_encode_tag PB_WT_32BIT (word_of_nat (pf_tag field))
         else if t = PB_LTYPE_FIXED64 then pb_encode_tag PB_WT_64BIT (word_of_nat (pf_tag field))
         else if t = PB_LTYPE_BYTES \<or> t = PB_LTYPE_STRING \<or> t = PB_LTYPE_SUBMESSAGE \<or> t = PB_LTYPE_FIXED_LENGTH_BYTES
         then pb_encode_tag PB_WT_STRING (word_of_nat (pf_tag field))
         else pbo_error ''invalid field type'')"

section \<open>Submessages\<close>

text \<open>\<open>sub fds src\<close> is \<open>pb_encode\<close> one level further down. The size is computed first, by encoding into
  a sizing stream.\<close>

definition pb_encode_submessage :: "(nat \<Rightarrow> nat \<Rightarrow> 's enc) \<Rightarrow> nat \<Rightarrow> nat \<Rightarrow> 's enc" where
  "pb_encode_submessage sub fds src s =
     (case sub fds src PB_OSTREAM_SIZING of
        None \<Rightarrow> None
      | Some (None, substream) \<Rightarrow> Some (None, s\<lparr>os_errmsg := os_errmsg substream\<rparr>)
      | Some (Some _, substream) \<Rightarrow>
          (let sz = os_bytes_written substream
           in case pb_encode_varint (word_of_nat sz) s of
                (None, s) \<Rightarrow> Some (None, s)
              | (Some _, s) \<Rightarrow>
                  if is_sizing s then Some (pb_write_sizing sz s)
                  else if size_add (os_bytes_written s) sz > os_max_size s then Some (pbo_error ''stream full'' s)
                  else (case sub fds src (s\<lparr>os_max_size := sz, os_bytes_written := 0, os_errmsg := None\<rparr>) of
                          None \<Rightarrow> None
                        | Some (status, substream) \<Rightarrow>
                            (let s = s\<lparr>os_bytes_written := size_add (os_bytes_written s) (os_bytes_written substream),
                                       os_dest := os_dest substream, os_state := os_state substream,
                                       os_errmsg := os_errmsg substream\<rparr>
                             in if os_bytes_written substream \<noteq> sz then Some (pbo_error ''submsg size changed'' s)
                                else Some (status, s)))))"

definition pb_enc_submessage :: "(nat \<Rightarrow> nat \<Rightarrow> 's enc) \<Rightarrow> pb_field \<Rightarrow> nat \<Rightarrow> 's enc" where
  "pb_enc_submessage sub field src =
     (if pf_ptr field = 0 then f_op (pbo_error ''invalid field descriptor'')
      else pb_encode_submessage sub (pf_ptr field) src)"

text \<open>\<open>PB_ENCODERS\<close>: the entry for extensions is NULL, and calling it is undefined.\<close>

definition pb_encoder :: "(nat \<Rightarrow> nat \<Rightarrow> 's enc) \<Rightarrow> pb_mem \<Rightarrow> pb_field \<Rightarrow> nat \<Rightarrow> 's enc" where
  "pb_encoder sub m field src =
     (let t = ltype field
      in if t = PB_LTYPE_BOOL then f_op (pb_enc_bool m src)
         else if t = PB_LTYPE_VARINT then f_op (pb_enc_varint m field src)
         else if t = PB_LTYPE_UVARINT then f_op (pb_enc_uvarint m field src)
         else if t = PB_LTYPE_SVARINT then f_op (pb_enc_svarint m field src)
         else if t = PB_LTYPE_FIXED32 then f_op (pb_enc_fixed32 m src)
         else if t = PB_LTYPE_FIXED64 then f_op (pb_enc_fixed64 m src)
         else if t = PB_LTYPE_BYTES then f_op (pb_enc_bytes m field src)
         else if t = PB_LTYPE_STRING then f_op (pb_enc_string m field src)
         else if t = PB_LTYPE_SUBMESSAGE then pb_enc_submessage sub field src
         else if t = PB_LTYPE_FIXED_LENGTH_BYTES then f_op (pb_enc_fixed_length_bytes m field src)
         else (\<lambda>s. None))"

section \<open>Arrays\<close>

text \<open>The loop over the entries; \<open>each\<close> is what is done with the entry at an address.\<close>

fun entries_loop :: "(nat \<Rightarrow> 's enc) \<Rightarrow> nat \<Rightarrow> nat \<Rightarrow> nat \<Rightarrow> 's enc" where
  "entries_loop each data_size p 0 = f_ret"
| "entries_loop each data_size p (Suc count) =
     f_seq (each p) (entries_loop each data_size (p + data_size) count)"

definition packed_size :: "(nat \<Rightarrow> nat \<Rightarrow> 's enc) \<Rightarrow> pb_mem \<Rightarrow> pb_field \<Rightarrow> nat \<Rightarrow> nat \<Rightarrow> nat option option" where
  "packed_size sub m field pData count =
     (if ltype field = PB_LTYPE_FIXED32 then Some (Some (size_mult 4 count))
      else if ltype field = PB_LTYPE_FIXED64 then Some (Some (size_mult 8 count))
      else case entries_loop (pb_encoder sub m field) (pf_data_size field) pData count PB_OSTREAM_SIZING of
             None \<Rightarrow> None
           | Some (None, _) \<Rightarrow> Some None
           | Some (Some _, sizestream) \<Rightarrow> Some (Some (os_bytes_written sizestream)))"

definition encode_array :: "(nat \<Rightarrow> nat \<Rightarrow> 's enc) \<Rightarrow> pb_mem \<Rightarrow> pb_field \<Rightarrow> nat \<Rightarrow> nat \<Rightarrow> 's enc" where
  "encode_array sub m field pData count s =
     (if count = 0 then Some (Some (), s)
      else if atype field \<noteq> PB_ATYPE_POINTER \<and> count > pf_array_size field
      then Some (pbo_error ''array max size exceeded'' s)
      else if ltype field \<le> PB_LTYPE_LAST_PACKABLE
      then (case pb_encode_tag PB_WT_STRING (word_of_nat (pf_tag field)) s of
              (None, s) \<Rightarrow> Some (None, s)
            | (Some _, s) \<Rightarrow>
                (case packed_size sub m field pData count of
                   None \<Rightarrow> None
                 | Some None \<Rightarrow> Some (None, s)
                 | Some (Some sz) \<Rightarrow>
                     (case pb_encode_varint (word_of_nat sz) s of
                        (None, s) \<Rightarrow> Some (None, s)
                      | (Some _, s) \<Rightarrow>
                          if is_sizing s then Some (pb_write_sizing sz s)
                          else entries_loop (pb_encoder sub m field) (pf_data_size field) pData count s)))
      else entries_loop
             (\<lambda>p. f_seq (f_op (pb_encode_tag_for_field field))
                (if atype field = PB_ATYPE_POINTER \<and> (ltype field = PB_LTYPE_STRING \<or> ltype field = PB_LTYPE_BYTES)
                 then pb_encoder sub m field (load_ptr m p) else pb_encoder sub m field p))
             (pf_data_size field) pData count s)"

section \<open>Default values of proto3\<close>

text \<open>\<open>sub fds pData\<close> is the loop over a submessage one level further down; \<open>None\<close> is out of fuel.\<close>

definition check_default_body :: "(nat \<Rightarrow> nat \<Rightarrow> bool option) \<Rightarrow> pb_mem \<Rightarrow> pb_field \<Rightarrow> nat \<Rightarrow> bool option" where
  "check_default_body sub m field pData =
     (let t = pf_type field; pSize = size_addr pData field;
          rest =
            (if atype field = PB_ATYPE_STATIC \<and> ltype field = PB_LTYPE_BYTES then Some (load_size m pData = 0)
             else if atype field = PB_ATYPE_STATIC \<and> ltype field = PB_LTYPE_STRING then Some (m pData = 0)
             else if atype field = PB_ATYPE_STATIC \<and> ltype field = PB_LTYPE_FIXED_LENGTH_BYTES
             then Some (pf_data_size field = 0)
             else if atype field = PB_ATYPE_STATIC \<and> ltype field = PB_LTYPE_SUBMESSAGE
             then sub (pf_ptr field) pData
             else if atype field = PB_ATYPE_POINTER \<and> ltype field > PB_LTYPE_LAST_PACKABLE
             then Some (load_ptr m pData = 0)
             else Some (list_all (\<lambda>b. b = 0) (load m pData (pf_data_size field))))
      in if htype field = PB_HTYPE_REQUIRED then Some False
         else if htype field = PB_HTYPE_REPEATED
         then (if pf_size_offset field \<noteq> 0 then Some (load_size m pSize = 0)
               else if atype field = PB_ATYPE_STATIC then Some False else rest)
         else if htype field = PB_HTYPE_ONEOF then Some (load_size m pSize = 0)
         else if htype field = PB_HTYPE_OPTIONAL \<and> pf_size_offset field \<noteq> 0
         then Some (\<not> safe_read_bool m pSize)
         else rest)"

function check_fields :: "(pb_field \<Rightarrow> nat \<Rightarrow> bool option) \<Rightarrow> pb_field_iter \<Rightarrow> bool option" where
  "check_fields chk iter =
     (case chk (it_field iter) (it_pData iter) of
        None \<Rightarrow> None
      | Some b \<Rightarrow>
          if \<not> b then Some False
          else (case pb_field_iter_next iter of (go_on, iter') \<Rightarrow> if go_on then check_fields chk iter' else Some True))"
  by auto
termination
  by (relation "measure (\<lambda>(_, it). length (it_start it) - it_pos it)") (auto dest: iter_next_advances [OF sym])

declare check_fields.simps [simp del]

fun pb_check_proto3_default_value :: "nat \<Rightarrow> (nat \<Rightarrow> pb_field list) \<Rightarrow> pb_mem \<Rightarrow> pb_field \<Rightarrow> nat \<Rightarrow> bool option" where
  "pb_check_proto3_default_value 0 desc m field pData = None"
| "pb_check_proto3_default_value (Suc n) desc m field pData =
     check_default_body
       (\<lambda>fds p. case pb_field_iter_begin (desc fds) p of
          (ok, iter) \<Rightarrow> if ok then check_fields (pb_check_proto3_default_value n desc m) iter else Some True)
       m field pData"

section \<open>Fields\<close>

definition encode_basic_field :: "nat \<Rightarrow> 's enc_env \<Rightarrow> (nat \<Rightarrow> nat \<Rightarrow> 's enc) \<Rightarrow> pb_mem \<Rightarrow> pb_field \<Rightarrow> nat \<Rightarrow> 's enc" where
  "encode_basic_field n env sub m field pData s =
     (let pSize = size_addr pData field;
          isptr = (atype field = PB_ATYPE_POINTER)
      in case (if pf_size_offset field \<noteq> 0 then Some True
               else if htype field = PB_HTYPE_OPTIONAL
               then map_option Not (pb_check_proto3_default_value n (e_desc env) m field pData)
               else Some True) of
           None \<Rightarrow> None
         | Some has \<Rightarrow>
             (let data = (if isptr then load_ptr m pData else pData);
                  implicit_has = (if isptr then data \<noteq> 0 else has);
                  put_it = f_seq (f_op (pb_encode_tag_for_field field)) (pb_encoder sub m field data)
              in if htype field = PB_HTYPE_REQUIRED
                 then (if data = 0 then Some (pbo_error ''missing required field'' s) else put_it s)
                 else if htype field = PB_HTYPE_OPTIONAL
                 then (if (if pf_size_offset field \<noteq> 0 then safe_read_bool m pSize else implicit_has)
                       then put_it s else Some (Some (), s))
                 else if htype field = PB_HTYPE_REPEATED
                 then encode_array sub m field data
                        (if pf_size_offset field \<noteq> 0 then load_size m pSize else pf_array_size field) s
                 else if load_size m pSize = pf_tag field then put_it s else Some (Some (), s)))"

definition encode_callback_field :: "'s enc_env \<Rightarrow> pb_mem \<Rightarrow> pb_field \<Rightarrow> nat \<Rightarrow> ('s, unit) pbo" where
  "encode_callback_field env m field pData s =
     (let func = load_ptr m pData
      in if func \<noteq> 0
         then (case e_encode env func field (pData + 8) m s of
                 (None, s) \<Rightarrow> pbo_error ''callback error'' s
               | (Some _, s) \<Rightarrow> (Some (), s))
         else (Some (), s))"

definition encode_field :: "nat \<Rightarrow> 's enc_env \<Rightarrow> (nat \<Rightarrow> nat \<Rightarrow> 's enc) \<Rightarrow> pb_mem \<Rightarrow> pb_field \<Rightarrow> nat \<Rightarrow> 's enc" where
  "encode_field n env sub m field pData =
     (if atype field = PB_ATYPE_STATIC \<or> atype field = PB_ATYPE_POINTER
      then encode_basic_field n env sub m field pData
      else if atype field = PB_ATYPE_CALLBACK then f_op (encode_callback_field env m field pData)
      else f_op (pbo_error ''invalid field type''))"

text \<open>A \<open>pb_extension_t\<close> holds \<open>type\<close>, \<open>dest\<close>, \<open>next\<close> and \<open>found\<close>; its type \<open>decode\<close>, \<open>encode\<close> and \<open>arg\<close>.\<close>

definition default_extension_encoder ::
    "nat \<Rightarrow> 's enc_env \<Rightarrow> (nat \<Rightarrow> nat \<Rightarrow> 's enc) \<Rightarrow> pb_mem \<Rightarrow> nat \<Rightarrow> 's enc" where
  "default_extension_encoder n env sub m extension =
     (let field = e_ext_field env (load_ptr m (load_ptr m extension + 16))
      in if atype field = PB_ATYPE_POINTER
         then encode_field n env sub m field (extension + 8)
         else encode_field n env sub m field (load_ptr m (extension + 8)))"

fun encode_extensions :: "nat \<Rightarrow> nat \<Rightarrow> 's enc_env \<Rightarrow> (nat \<Rightarrow> nat \<Rightarrow> 's enc) \<Rightarrow> pb_mem \<Rightarrow> nat \<Rightarrow> 's enc" where
  "encode_extensions 0 n env sub m extension = (\<lambda>s. None)"
| "encode_extensions (Suc k) n env sub m extension =
     (if extension = 0 then f_ret
      else let handler = load_ptr m (load_ptr m extension + 8)
           in f_seq (if handler \<noteq> 0 then f_op (e_ext_encode env handler extension m)
                     else default_extension_encoder n env sub m extension)
                (encode_extensions k n env sub m (load_ptr m (extension + 16))))"

definition encode_extension_field :: "nat \<Rightarrow> 's enc_env \<Rightarrow> (nat \<Rightarrow> nat \<Rightarrow> 's enc) \<Rightarrow> pb_mem \<Rightarrow> nat \<Rightarrow> 's enc" where
  "encode_extension_field n env sub m pData = encode_extensions n n env sub m (load_ptr m pData)"

section \<open>Messages\<close>

function encode_fields :: "(pb_field \<Rightarrow> nat \<Rightarrow> 's enc) \<Rightarrow> pb_field_iter \<Rightarrow> 's enc" where
  "encode_fields enc iter =
     f_seq (enc (it_field iter) (it_pData iter))
       (case pb_field_iter_next iter of (go_on, iter') \<Rightarrow> if go_on then encode_fields enc iter' else f_ret)"
  by auto
termination
  by (relation "measure (\<lambda>(_, it). length (it_start it) - it_pos it)") (auto dest: iter_next_advances [OF sym])

declare encode_fields.simps [simp del]

fun pb_encode :: "nat \<Rightarrow> 's enc_env \<Rightarrow> pb_mem \<Rightarrow> nat \<Rightarrow> nat \<Rightarrow> 's enc" where
  "pb_encode 0 env m fds src = (\<lambda>s. None)"
| "pb_encode (Suc n) env m fds src =
     (case pb_field_iter_begin (e_desc env fds) src of
        (ok, iter) \<Rightarrow>
          if \<not> ok then f_ret
          else encode_fields
                 (\<lambda>field pData. if ltype field = PB_LTYPE_EXTENSION
                    then encode_extension_field n env (pb_encode n env m) m pData
                    else encode_field n env (pb_encode n env m) m field pData)
                 iter)"

definition pb_encode_delimited :: "nat \<Rightarrow> 's enc_env \<Rightarrow> pb_mem \<Rightarrow> nat \<Rightarrow> nat \<Rightarrow> 's enc" where
  "pb_encode_delimited n env m fds src = pb_encode_submessage (pb_encode n env m) fds src"

definition pb_encode_nullterminated :: "nat \<Rightarrow> 's enc_env \<Rightarrow> pb_mem \<Rightarrow> nat \<Rightarrow> nat \<Rightarrow> 's enc" where
  "pb_encode_nullterminated n env m fds src = f_seq (pb_encode n env m fds src) (f_op (pb_write [0]))"

definition pb_get_encoded_size :: "nat \<Rightarrow> 's enc_env \<Rightarrow> pb_mem \<Rightarrow> nat \<Rightarrow> nat \<Rightarrow> nat option option" where
  "pb_get_encoded_size n env m fds src =
     (case pb_encode n env m fds src PB_OSTREAM_SIZING of
        None \<Rightarrow> None
      | Some (None, _) \<Rightarrow> Some None
      | Some (Some _, stream) \<Rightarrow> Some (Some (os_bytes_written stream)))"

end
