(* ===== verification/PbStream_Correct.thy ===== *)
theory PbStream_Correct
  imports PbStream Codec "HOL-Library.Code_Target_Nat"
begin

text \<open>
  The wire primitives of nanopb on buffer streams: reading never leaves the buffer, the decoders invert
  the encoders, and a sizing stream counts what a writing stream writes.
\<close>

section \<open>Buffer streams\<close>

text \<open>\<open>avail\<close> is what can still be read; \<open>adv n\<close> is the stream \<open>n\<close> bytes further on.\<close>

definition buf_ok :: "'s pb_istream \<Rightarrow> bool" where
  "buf_ok s \<longleftrightarrow> is_callback s = None \<and> is_bytes_left s \<le> length (is_source s) \<and> \<not> is_overrun s"

definition avail :: "'s pb_istream \<Rightarrow> bytes" where
  "avail s = take (is_bytes_left s) (is_source s)"

definition adv :: "nat \<Rightarrow> 's pb_istream \<Rightarrow> 's pb_istream" where
  "adv n s = s\<lparr>is_source := drop n (is_source s), is_bytes_left := is_bytes_left s - n\<rparr>"

lemma length_avail [simp]: "buf_ok s \<Longrightarrow> length (avail s) = is_bytes_left s"
  by (simp add: buf_ok_def avail_def)

lemma adv_simps [simp]:
  "is_callback (adv n s) = is_callback s" "is_bytes_left (adv n s) = is_bytes_left s - n"
  "is_errmsg (adv n s) = is_errmsg s" "is_state (adv n s) = is_state s" "is_overrun (adv n s) = is_overrun s"
  "avail (adv n s) = drop n (avail s)" "adv m (adv n s) = adv (n + m) s" "adv 0 s = s"
  by (simp_all add: adv_def avail_def drop_take add.commute)

lemma buf_ok_adv [simp, intro]: "buf_ok s \<Longrightarrow> buf_ok (adv n s)"
  by (auto simp: buf_ok_def adv_def)

lemma is_call_buf: "is_callback s = None \<Longrightarrow> n \<le> length (is_source s) \<Longrightarrow> is_call n s = (Some (take n (is_source s)), s\<lparr>is_source := drop n (is_source s)\<rparr>)"
  by (simp add: is_call_def buf_read_def)

lemma pb_readbyte_buf:
  assumes "buf_ok s"
  shows "pb_readbyte s = (case avail s of [] \<Rightarrow> pb_error ''end-of-stream'' s | b # _ \<Rightarrow> (Some b, adv 1 s))"
  using assms
  by (cases "is_source s")
    (auto simp: pb_readbyte_def is_call_buf buf_ok_def avail_def adv_def take_Cons split: nat.splits)

lemma pb_readbyte_Cons: "buf_ok s \<Longrightarrow> avail s = b # bs \<Longrightarrow> pb_readbyte s = (Some b, adv 1 s)"
  by (simp add: pb_readbyte_buf)

lemma pb_read_into_buf:
  assumes "buf_ok s"
  shows "pb_read_into n s =
    (if n \<le> is_bytes_left s then (Some (take n (avail s)), adv n s) else pb_error ''end-of-stream'' s)"
  using assms
  by (auto simp: pb_read_into_def pb_read_checked_def is_call_buf buf_ok_def avail_def adv_def min_def)

lemma pb_read_null_buf:
  assumes "buf_ok s"
  shows "pb_read_null n s =
    (if n \<le> is_bytes_left s then (Some (), adv n s) else pb_error ''end-of-stream'' s)"
  using assms
  by (auto simp: pb_read_null_def pb_read_checked_def is_call_buf buf_ok_def avail_def adv_def pb_error_def)

text \<open>Moving forward only: the state after an operation is further on in the same buffer.\<close>

definition fwd :: "'s pb_istream \<Rightarrow> 's pb_istream \<Rightarrow> bool" where
  "fwd s t \<longleftrightarrow> (buf_ok s \<longrightarrow> (\<exists>n\<le>is_bytes_left s. is_callback t = None \<and> is_source t = drop n (is_source s) \<and>
     is_bytes_left t = is_bytes_left s - n \<and> \<not> is_overrun t))"

lemma fwd_buf_ok: "fwd s t \<Longrightarrow> buf_ok s \<Longrightarrow> buf_ok t"
  by (auto simp: fwd_def buf_ok_def)

lemma fwd_refl [simp, intro]: "fwd s s"
  by (auto simp: fwd_def buf_ok_def intro!: exI [of _ 0])

lemma fwd_trans:
  assumes "fwd a b" "fwd b c"
  shows "fwd a c"
  unfolding fwd_def
proof
  assume a: "buf_ok a"
  with assms(1) obtain n where n: "n \<le> is_bytes_left a" "is_source b = drop n (is_source a)" "is_bytes_left b = is_bytes_left a - n"
    by (auto simp: fwd_def)
  from fwd_buf_ok [OF assms(1) a] assms(2) obtain m where "m \<le> is_bytes_left b" "is_callback c = None"
    "is_source c = drop m (is_source b)" "is_bytes_left c = is_bytes_left b - m" "\<not> is_overrun c"
    by (auto simp: fwd_def)
  with n show "\<exists>n\<le>is_bytes_left a. is_callback c = None \<and> is_source c = drop n (is_source a) \<and> is_bytes_left c = is_bytes_left a - n \<and>
     \<not> is_overrun c"
    by (intro exI [of _ "n + m"]) (simp add: add.commute)
qed

lemma fwd_error [simp]: "fwd s (s\<lparr>is_errmsg := e\<rparr>)"
  by (auto simp: fwd_def buf_ok_def intro!: exI [of _ 0])

lemma fwd_adv: "n \<le> is_bytes_left s \<Longrightarrow> fwd s (adv n s)"
  by (auto simp: fwd_def adv_def buf_ok_def intro!: exI [of _ n])

abbreviation forward :: "('s, 'a) pbi \<Rightarrow> bool" where
  "forward \<equiv> c_preserves fwd"

lemma forward_error [intro]: "forward (pb_error m)"
  by (rule c_preservesI) (auto simp: pb_error_def)

lemma forwardD: "forward m \<Longrightarrow> m s = (r, t) \<Longrightarrow> fwd s t"
  by (rule c_preservesD)

lemma fwd_errorD: "pb_error m s = (r, t) \<Longrightarrow> fwd s t"
  by (auto simp: pb_error_def)

lemma not_buf_fwd: "\<not> buf_ok s \<Longrightarrow> fwd s t"
  by (simp add: fwd_def)

lemma forward_readbyte: "forward pb_readbyte"
proof (rule c_preservesI)
  fix s t :: "'s pb_istream" and r
  assume run: "pb_readbyte s = (r, t)"
  show "fwd s t"
  proof (cases "buf_ok s")
    case True
    then have "avail s \<noteq> [] \<Longrightarrow> Suc 0 \<le> is_bytes_left s" using length_avail [OF True] by (cases "avail s") auto
    with True run show ?thesis by (auto simp: pb_readbyte_buf split: list.splits intro!: fwd_adv dest: fwd_errorD)
  qed (rule not_buf_fwd)
qed

lemma forward_read_into: "forward (pb_read_into n)"
proof (rule c_preservesI)
  fix s t :: "'s pb_istream" and r
  assume run: "pb_read_into n s = (r, t)"
  show "fwd s t"
    using run by (cases "buf_ok s") (auto simp: pb_read_into_buf split: if_splits intro: fwd_adv not_buf_fwd dest: fwd_errorD)
qed

lemma forward_read_null: "forward (pb_read_null n)"
proof (rule c_preservesI)
  fix s t :: "'s pb_istream" and r
  assume run: "pb_read_null n s = (r, t)"
  show "fwd s t"
    using run by (cases "buf_ok s") (auto simp: pb_read_null_buf split: if_splits intro: fwd_adv not_buf_fwd dest: fwd_errorD)
qed

lemma fwd_readbyteD: "pb_readbyte s = (r, t) \<Longrightarrow> fwd s t"
  by (rule forwardD [OF forward_readbyte])

lemma fwd_read_intoD: "pb_read_into n s = (r, t) \<Longrightarrow> fwd s t"
  by (rule forwardD [OF forward_read_into])

lemma fwd_read_nullD: "pb_read_null n s = (r, t) \<Longrightarrow> fwd s t"
  by (rule forwardD [OF forward_read_null])

text \<open>Induction along the bytes of a stream.\<close>

lemma stream_induct [case_names Step]:
  assumes "\<And>s. (\<And>b t. pb_readbyte s = (Some b, t) \<Longrightarrow> P t) \<Longrightarrow> P s"
  shows "P (s :: 's pb_istream)"
  by (induction s rule: measure_induct_rule [of is_bytes_left]) (rule assms, blast dest: pb_readbyte_less)

lemma fwd_varint32_loop: "varint32_loop result bitpos s = (r, t) \<Longrightarrow> fwd s t"
proof (induction s arbitrary: result bitpos rule: stream_induct)
  case (Step s)
  obtain o1 s1 where rb: "pb_readbyte s = (o1, s1)" by fastforce
  from Step.prems rb show ?case
    by (subst (asm) varint32_loop.simps)
      (auto simp: Let_def split: option.splits if_splits dest: fwd_readbyteD fwd_errorD Step.IH intro: fwd_trans)
qed

lemma fwd_varint_loop: "varint_loop result bitpos s = (r, t) \<Longrightarrow> fwd s t"
proof (induction s arbitrary: result bitpos rule: stream_induct)
  case (Step s)
  obtain o1 s1 where rb: "pb_readbyte s = (o1, s1)" by fastforce
  from Step.prems rb show ?case
    by (subst (asm) varint_loop.simps)
      (auto simp: Let_def split: option.splits if_splits dest: fwd_readbyteD fwd_errorD Step.IH intro: fwd_trans)
qed

lemma fwd_varint32_eof: "pb_decode_varint32_eof s = (r, e, t) \<Longrightarrow> fwd s t"
  by (auto simp: pb_decode_varint32_eof_def split: prod.splits option.splits if_splits
      dest: fwd_readbyteD fwd_varint32_loop intro: fwd_trans)

lemma fwd_varint32: "pb_decode_varint32 s = (r, t) \<Longrightarrow> fwd s t"
  by (auto simp: pb_decode_varint32_def split: prod.splits dest: fwd_varint32_eof)

lemma fwd_varint: "pb_decode_varint s = (r, t) \<Longrightarrow> fwd s t"
  by (auto simp: pb_decode_varint_def dest: fwd_varint_loop)

lemma fwd_tag: "pb_decode_tag s = (r, e, t) \<Longrightarrow> fwd s t"
  by (auto simp: pb_decode_tag_def split: prod.splits option.splits if_splits dest: fwd_varint32_eof)

text \<open>Reading one byte with \<open>pb_read\<close> and with \<open>pb_readbyte\<close> is the same on a buffer.\<close>

lemma pb_read_into_1_buf:
  assumes "buf_ok s"
  shows "pb_read_into (Suc 0) s =
    (case avail s of [] \<Rightarrow> pb_error ''end-of-stream'' s | b # _ \<Rightarrow> (Some [b], adv 1 s))"
  by (cases "avail s") (use assms length_avail [OF assms] in \<open>simp_all add: pb_read_into_buf del: length_avail\<close>)

lemma fwd_skip_varint: "pb_skip_varint s = (r, t) \<Longrightarrow> fwd s t"
proof (induction s rule: measure_induct_rule [of is_bytes_left])
  case (less s)
  obtain o1 s1 where rb: "pb_read_into (Suc 0) s = (o1, s1)" by fastforce
  then have IH: "o1 = Some bs \<Longrightarrow> pb_skip_varint s1 = (r, t) \<Longrightarrow> fwd s1 t" for bs
    using less.IH pb_read_into_Suc_less [OF sym] by metis
  from less.prems rb show ?case
    by (subst (asm) pb_skip_varint.simps)
      (auto split: option.splits if_splits dest: fwd_read_intoD IH intro: fwd_trans)
qed

lemma fwd_skip_string: "pb_skip_string s = (r, t) \<Longrightarrow> fwd s t"
  by (auto simp: pb_skip_string_def split: prod.splits option.splits
      dest: fwd_varint32 fwd_read_nullD intro: fwd_trans)

lemma fwd_skip_field: "pb_skip_field w s = (r, t) \<Longrightarrow> fwd s t"
  by (auto simp: pb_skip_field_def split: if_splits
      dest: fwd_skip_varint fwd_skip_string fwd_read_nullD fwd_errorD)

lemma fwd_raw_varint_loop: "raw_varint_loop m buf s = (r, t) \<Longrightarrow> fwd s t"
proof (induction s arbitrary: buf rule: measure_induct_rule [of is_bytes_left])
  case (less s)
  obtain o1 s1 where rb: "pb_read_into (Suc 0) s = (o1, s1)" by fastforce
  then have IH: "o1 = Some bs \<Longrightarrow> raw_varint_loop m buf' s1 = (r, t) \<Longrightarrow> fwd s1 t" for bs buf'
    using less.IH pb_read_into_Suc_less [OF sym] by metis
  from less.prems rb show ?case
    by (subst (asm) raw_varint_loop.simps)
      (auto simp: Let_def split: option.splits if_splits dest: fwd_read_intoD IH intro: fwd_trans)
qed

lemma fwd_raw_value: "read_raw_value w m s = (r, t) \<Longrightarrow> fwd s t"
  by (auto simp: read_raw_value_def split: if_splits dest: fwd_raw_varint_loop fwd_read_intoD fwd_errorD)

section \<open>Varints\<close>

text \<open>The encoding of a number, seven bits at a time, low bits first.\<close>

function varint :: "nat \<Rightarrow> bytes" where
  "varint n = (if n < 128 then [word_of_nat n] else word_of_nat (n mod 128 + 128) # varint (n div 128))"
  by auto
termination by (relation "measure id") auto

declare varint.simps [simp del]

lemma varint_small: "n < 128 \<Longrightarrow> varint n = [word_of_nat n]"
  by (subst varint.simps) simp

lemma varint_big: "128 \<le> n \<Longrightarrow> varint n = word_of_nat (n mod 128 + 128) # varint (n div 128)"
  by (subst varint.simps) simp

lemma varint_nonempty [simp]: "varint n \<noteq> []" "0 < length (varint n)"
  by (subst varint.simps, simp)+

lemma unat_and_127: "unat ((b :: byte) AND 127) = unat b mod 128"
  by (simp add: word_and_127 unat_and_mask)

lemma byte_and_128_neq: "(b :: byte) AND 128 \<noteq> 0 \<longleftrightarrow> 128 \<le> unat b"
  using byte_and_128 [of b] by auto

lemma low_byte:
  assumes "n < 128"
  shows "(word_of_nat n :: byte) AND 127 = word_of_nat n" "(word_of_nat n :: byte) AND 128 = 0"
    "unat (word_of_nat n :: byte) = n"
proof -
  show u: "unat (word_of_nat n :: byte) = n" using assms by (simp add: unat_byte_of_nat)
  show "(word_of_nat n :: byte) AND 127 = word_of_nat n"
    using assms by (simp add: word_unat_eq_iff unat_and_127 unat_byte_of_nat)
  show "(word_of_nat n :: byte) AND 128 = 0" using assms u by (simp add: byte_and_128)
qed

lemma high_byte:
  assumes "n < 128"
  shows "(word_of_nat (n + 128) :: byte) AND 127 = word_of_nat n" "(word_of_nat (n + 128) :: byte) AND 128 \<noteq> 0"
proof -
  have u: "unat (word_of_nat (n + 128) :: byte) = n + 128"
    using assms by (simp add: unat_byte_of_nat del: of_nat_add)
  show "(word_of_nat (n + 128) :: byte) AND 127 = word_of_nat n"
    using assms by (simp add: word_unat_eq_iff unat_and_127 u unat_byte_of_nat del: of_nat_add)
  show "(word_of_nat (n + 128) :: byte) AND 128 \<noteq> 0" using u by (simp add: byte_and_128_neq del: of_nat_add)
qed

text \<open>One step of accumulation.\<close>

lemma unat_accumulate:
  fixes v :: "'a::len word"
  assumes "unat v < 2 ^ k" "n < 128" "unat v + n * 2 ^ k < 2 ^ LENGTH('a)" "7 \<le> LENGTH('a)"
  shows "unat (v OR push_bit k (ucast (word_of_nat n :: byte))) = unat v + n * 2 ^ k"
proof -
  have "unat (ucast (word_of_nat n :: byte) :: 'a word) = n mod 2 ^ LENGTH('a)"
    using assms(2) by (simp add: unat_ucast_mod low_byte)
  moreover have "n < 2 ^ LENGTH('a)"
  proof -
    have "(2 :: nat) ^ 7 \<le> 2 ^ LENGTH('a)" using assms(4) by (intro power_increasing) simp_all
    with assms(2) show ?thesis by simp
  qed
  ultimately have "unat (ucast (word_of_nat n :: byte) :: 'a word) = n" by simp
  with assms unat_push_or [of "ucast (word_of_nat n :: byte)" k v] show ?thesis
    by (simp add: or.commute add.commute)
qed

lemma seven_more:
  assumes "(v :: nat) < 2 ^ k"
  shows "v + n mod 128 * 2 ^ k < 2 ^ (k + 7)"
proof -
  have "n mod 128 * 2 ^ k \<le> 127 * 2 ^ k" by (intro mult_le_mono1) (simp add: less_Suc_eq_le [symmetric])
  with assms have "v + n mod 128 * 2 ^ k < 128 * 2 ^ k" by linarith
  then show ?thesis by (simp add: power_add)
qed

lemma seven_split: "(v :: nat) + n mod 128 * 2 ^ k + n div 128 * 2 ^ (k + 7) = v + n * 2 ^ k"
proof -
  define q r where "q = n div 128" and "r = n mod 128"
  have n: "n = 128 * q + r" by (simp add: q_def r_def)
  have "v + r * 2 ^ k + q * 2 ^ (k + 7) = v + (128 * q + r) * 2 ^ k" by (simp add: power_add algebra_simps)
  then show ?thesis unfolding n [symmetric] unfolding q_def r_def .
qed

lemma varint_loop_eq:
  assumes "buf_ok s" "avail s = varint n @ rest" "unat v < 2 ^ k" "unat v + n * 2 ^ k < 2 ^ 64" "k < 64" "n = 0 \<longrightarrow> k = 0"
  shows "varint_loop v k s = (Some (word_of_nat (unat v + n * 2 ^ k)), adv (length (varint n)) s)"
  using assms
proof (induction n arbitrary: s v k rule: varint.induct)
  case (1 n)
  have m: "unat v + (n mod 128) * 2 ^ k < 2 ^ 64"
  proof -
    have "n mod 128 * 2 ^ k \<le> n * 2 ^ k" by (intro mult_le_mono1) simp
    with 1(5) show ?thesis by linarith
  qed
  let ?v = "v OR push_bit k (ucast (word_of_nat (n mod 128) :: byte))"
  have acc: "unat ?v = unat v + (n mod 128) * 2 ^ k"
    using 1(4) m by (intro unat_accumulate) simp_all
  show ?case
  proof (cases "n < 128")
    case True
    then have "avail s = word_of_nat n # rest" using 1(3) by (simp add: varint_small)
    then have "varint_loop v k s = (Some ?v, adv 1 s)"
      using True 1(2,6) by (subst varint_loop.simps) (simp add: pb_readbyte_Cons low_byte Let_def)
    moreover have "?v = word_of_nat (unat ?v)" by simp
    then have "?v = word_of_nat (unat v + n * 2 ^ k)" unfolding acc using True by simp
    ultimately show ?thesis using True by (simp only: varint_small) simp
  next
    case False
    then have av: "avail s = word_of_nat (n mod 128 + 128) # varint (n div 128) @ rest" using 1(3) by (simp add: varint_big)
    then have "avail (adv 1 s) = varint (n div 128) @ rest" by simp
    moreover have k: "k + 7 < 64"
    proof -
      have "(2 :: nat) ^ (k + 7) \<le> n * 2 ^ k" using False by (simp add: power_add)
      also have "\<dots> < 2 ^ 64" using 1(5) by linarith
      finally show ?thesis by (rule power_less_imp_less_exp [rotated]) simp
    qed
    moreover have "unat ?v < 2 ^ (k + 7)"
      unfolding acc using 1(4) by (rule seven_more)
    moreover have sum: "unat ?v + n div 128 * 2 ^ (k + 7) = unat v + n * 2 ^ k"
      unfolding acc by (rule seven_split)
    ultimately have IH: "varint_loop ?v (k + 7) (adv 1 s) =
        (Some (word_of_nat (unat v + n * 2 ^ k)), adv (length (varint (n div 128))) (adv 1 s))"
      using "1.IH" [of "adv 1 s" ?v "k + 7"] False 1(2,5) by (simp add: div_greater_zero_iff)
    have "varint_loop v k s = varint_loop ?v (k + 7) (adv 1 s)"
      using 1(2,6) k av by (subst varint_loop.simps)
        (simp add: pb_readbyte_Cons high_byte Let_def del: of_nat_add)
    with IH False show ?thesis by (simp add: varint_big)
  qed
qed

lemma pb_decode_varint_eq:
  assumes "buf_ok s" "avail s = varint n @ rest" "n < 2 ^ 64"
  shows "pb_decode_varint s = (Some (word_of_nat n), adv (length (varint n)) s)"
  using varint_loop_eq [OF assms(1,2), of 0 0] assms(3) by (simp add: pb_decode_varint_def)

lemma length_varint: "n < 128 ^ Suc k \<Longrightarrow> length (varint n) \<le> Suc k"
proof (induction k arbitrary: n)
  case (Suc k)
  show ?case
  proof (cases "n < 128")
    case False
    have "n div 128 < 128 ^ Suc k" using Suc.prems by (simp add: less_mult_imp_div_less mult.commute)
    with Suc.IH [OF this] False show ?thesis by (simp add: varint_big)
  qed (simp add: varint_small)
qed (simp add: varint_small)

lemma varint_nth_le: "n < 128 ^ 10 \<Longrightarrow> length (varint n) \<le> 10"
  using length_varint [of n 9] by simp

text \<open>The encoder produces it.\<close>

lemma varint_buffer_eq:
  "v \<noteq> 0 \<Longrightarrow> butlast (varint_buffer v) @ [last (varint_buffer v) AND 0x7f] = varint (unat v)"
proof (induction v rule: varint_buffer.induct)
  case (1 v)
  have u: "unat (v AND 0x7f) = unat v mod 128" by (simp add: word_and_127 unat_and_mask)
  have b: "ucast (v AND 0x7f) OR (0x80 :: byte) = word_of_nat (unat v mod 128 + 128)"
  proof -
    have "unat (ucast (v AND 0x7f) :: byte) = unat v mod 128" by (simp add: unat_ucast_mod u)
    moreover have "(0x80 :: byte) = push_bit 7 1" by simp
    ultimately have "unat (ucast (v AND 0x7f) OR (0x80 :: byte)) = unat v mod 128 + 128"
      using unat_push_or [of "1 :: byte" 7 "ucast (v AND 0x7f)"] by (simp add: or.commute)
    then show ?thesis by (simp add: word_unat_eq_iff unat_byte_of_nat del: of_nat_add)
  qed
  have d: "unat (drop_bit 7 v) = unat v div 128" by (simp add: unat_drop_bit_div)
  show ?case
  proof (cases "drop_bit 7 v = 0")
    case True
    then have "unat v < 128" using d by (simp add: div_eq_0_iff)
    moreover have "varint_buffer v = [word_of_nat (unat v mod 128 + 128)]"
      using 1(2) True b by (subst varint_buffer.simps) (simp add: varint_buffer.simps [of 0])
    ultimately show ?thesis
      using high_byte(1) [of "unat v mod 128"] by (simp add: varint_small del: of_nat_add)
  next
    case False
    then have "128 \<le> unat v" using d by (metis div_less not_le unat_0_iff word_unat_eq_iff unsigned_0)
    moreover have "varint_buffer (drop_bit 7 v) \<noteq> []" using False by (subst varint_buffer.simps) simp
    moreover have "varint_buffer v = word_of_nat (unat v mod 128 + 128) # varint_buffer (drop_bit 7 v)"
      using 1(2) b by (subst varint_buffer.simps) simp
    ultimately show ?thesis
      using 1(1) [OF 1(2) False] d by (simp add: varint_big del: of_nat_add)
  qed
qed

lemma pb_encode_varint_eq: "pb_encode_varint v s = pb_write (varint (unat v)) s"
proof (cases "v \<le> 0x7f")
  case True
  then have "unat v < 128" by (simp add: word_le_nat_alt)
  moreover then have "(ucast v :: byte) = word_of_nat (unat v)"
    by (simp add: word_unat_eq_iff unat_byte_of_nat unat_ucast_mod)
  ultimately show ?thesis using True by (simp add: pb_encode_varint_def varint_small)
next
  case False
  then have "v \<noteq> 0" by auto
  with False varint_buffer_eq [OF this] show ?thesis by (simp add: pb_encode_varint_def Let_def)
qed

section \<open>Varints read into 32 bits\<close>

lemma varint32_loop_eq:
  assumes "buf_ok s" "avail s = varint n @ rest" "unat v < 2 ^ k" "unat v + n * 2 ^ k < 2 ^ 32" "k \<in> {7, 14, 21, 28}" "0 < n"
  shows "varint32_loop v k s = (Some (word_of_nat (unat v + n * 2 ^ k)), adv (length (varint n)) s)"
  using assms
proof (induction n arbitrary: s v k rule: varint.induct)
  case (1 n)
  have k32: "k < 32" "k + 7 \<le> 35" using 1(6) by auto
  have m: "unat v + (n mod 128) * 2 ^ k < 2 ^ 32"
  proof -
    have "n mod 128 * 2 ^ k \<le> n * 2 ^ k" by (intro mult_le_mono1) simp
    with 1(5) show ?thesis by linarith
  qed
  let ?v = "v OR push_bit k (ucast (word_of_nat (n mod 128) :: byte))"
  have acc: "unat ?v = unat v + (n mod 128) * 2 ^ k"
    using 1(4) m by (intro unat_accumulate) simp_all
  show ?case
  proof (cases "n < 128")
    case True
    then have "avail s = word_of_nat n # rest" using 1(3) by (simp add: varint_small)
    moreover have "\<not> (k + 7 = 35 \<and> (word_of_nat n :: byte) AND 0x70 \<noteq> 0)"
    proof
      assume a: "k + 7 = 35 \<and> (word_of_nat n :: byte) AND 0x70 \<noteq> 0"
      with 1(5) have "n < 16" by simp
      then have "n \<in> set [0..<16]" by simp
      then have "(word_of_nat n :: byte) AND 0x70 = 0"
        by (simp add: upt_rec_numeral upt_conv_Cons del: set_upt) auto
      with a show False by simp
    qed
    ultimately have "varint32_loop v k s = (Some ?v, adv 1 s)"
      using True 1(2) k32 by (subst varint32_loop.simps) (auto simp: pb_readbyte_Cons low_byte Let_def)
    moreover have "?v = word_of_nat (unat ?v)" by simp
    then have "?v = word_of_nat (unat v + n * 2 ^ k)" unfolding acc using True by simp
    ultimately show ?thesis using True by (simp only: varint_small) simp
  next
    case False
    then have av: "avail s = word_of_nat (n mod 128 + 128) # varint (n div 128) @ rest" using 1(3) by (simp add: varint_big)
    have k: "k + 7 \<in> {7, 14, 21, 28}"
    proof -
      have "(2 :: nat) ^ (k + 7) \<le> n * 2 ^ k" using False by (simp add: power_add)
      also have "\<dots> < 2 ^ 32" using 1(5) by linarith
      finally have "k + 7 < 32" by (rule power_less_imp_less_exp [rotated]) simp
      with 1(6) show ?thesis by auto
    qed
    have "unat ?v < 2 ^ (k + 7)"
      unfolding acc using 1(4) by (rule seven_more)
    moreover have sum: "unat ?v + n div 128 * 2 ^ (k + 7) = unat v + n * 2 ^ k"
      unfolding acc by (rule seven_split)
    ultimately have IH: "varint32_loop ?v (k + 7) (adv 1 s) =
        (Some (word_of_nat (unat v + n * 2 ^ k)), adv (length (varint (n div 128))) (adv 1 s))"
      using "1.IH" [of "adv 1 s" ?v "k + 7"] av False k 1(2,5) by (simp add: div_greater_zero_iff)
    have "varint32_loop v k s = varint32_loop ?v (k + 7) (adv 1 s)"
      using 1(2) k32 av by (subst varint32_loop.simps)
        (auto simp: pb_readbyte_Cons high_byte Let_def simp del: of_nat_add)
    with IH False show ?thesis by (simp add: varint_big)
  qed
qed

lemma pb_decode_varint32_eof_eq:
  assumes "buf_ok s" "avail s = varint n @ rest" "n < 2 ^ 32"
  shows "pb_decode_varint32_eof s = (Some (word_of_nat n), False, adv (length (varint n)) s)"
proof (cases "n < 128")
  case True
  then have "avail s = word_of_nat n # rest" using assms(2) by (simp add: varint_small)
  moreover have "(ucast (word_of_nat n :: byte) :: u32) = word_of_nat n"
    using True by (simp add: word_unat_eq_iff unat_ucast_up low_byte unsigned_of_nat take_bit_nat_eq_self)
  ultimately show ?thesis
    using assms(1) True by (simp add: pb_decode_varint32_eof_def pb_readbyte_Cons low_byte varint_small)
next
  case False
  then have av: "avail s = word_of_nat (n mod 128 + 128) # varint (n div 128) @ rest"
    using assms(2) by (simp add: varint_big)
  let ?v = "ucast (word_of_nat (n mod 128) :: byte) :: u32"
  have v: "unat ?v = n mod 128" by (simp add: unat_ucast_up low_byte)
  have "varint32_loop ?v 7 (adv 1 s) =
    (Some (word_of_nat (unat ?v + n div 128 * 2 ^ 7)), adv (length (varint (n div 128))) (adv 1 s))"
    by (rule varint32_loop_eq) (use assms av False v in \<open>simp_all add: div_greater_zero_iff\<close>)
  then have "varint32_loop ?v 7 (adv 1 s) = (Some (word_of_nat n), adv (length (varint n)) s)"
    using False by (simp add: v varint_big del: of_nat_add of_nat_mult)
  then show ?thesis
    using assms(1) av by (simp add: pb_decode_varint32_eof_def pb_readbyte_Cons high_byte del: of_nat_add)
qed

lemma pb_decode_varint32_eq:
  "buf_ok s \<Longrightarrow> avail s = varint n @ rest \<Longrightarrow> n < 2 ^ 32 \<Longrightarrow>
   pb_decode_varint32 s = (Some (word_of_nat n), adv (length (varint n)) s)"
  by (simp add: pb_decode_varint32_def pb_decode_varint32_eof_eq)

section \<open>Strings, fixed-width and zigzag values\<close>

lemma and_ff_byte: "(ucast ((w :: 'a::len word) AND 0xff) :: byte) = ucast w" if "8 \<le> LENGTH('a)"
  using that by (auto simp: word_and_255 bit_eq_iff bit_simps)

lemma le_bytes_u32:
  "le_bytes 4 (unat (v :: u32)) = [ucast v, ucast (drop_bit 8 v), ucast (drop_bit 16 v), ucast (drop_bit 24 v)]"
proof -
  have "(ucast (drop_bit k v) :: byte) = word_of_nat (unat v div 2 ^ k)" for k
    by (simp add: word_unat_eq_iff unat_byte_of_nat unat_ucast_mod unat_drop_bit_div)
  moreover have "(4 :: nat) = Suc (Suc (Suc (Suc 0)))" by simp
  ultimately show ?thesis
    unfolding \<open>4 = _\<close> le_bytes.simps by (simp add: div_mult2_eq [symmetric])
qed

lemma le_bytes_u64:
  "le_bytes 8 (unat (v :: u64)) = [ucast v, ucast (drop_bit 8 v), ucast (drop_bit 16 v), ucast (drop_bit 24 v),
     ucast (drop_bit 32 v), ucast (drop_bit 40 v), ucast (drop_bit 48 v), ucast (drop_bit 56 v)]"
proof -
  have "(ucast (drop_bit k v) :: byte) = word_of_nat (unat v div 2 ^ k)" for k
    by (simp add: word_unat_eq_iff unat_byte_of_nat unat_ucast_mod unat_drop_bit_div)
  moreover have "(8 :: nat) = Suc (Suc (Suc (Suc (Suc (Suc (Suc (Suc 0)))))))" by simp
  ultimately show ?thesis
    unfolding \<open>8 = _\<close> le_bytes.simps by (simp add: div_mult2_eq [symmetric])
qed

lemma pb_encode_fixed_eq:
  "pb_encode_fixed32 v s = pb_write (le_bytes 4 (unat v)) s"
  "pb_encode_fixed64 w s = pb_write (le_bytes 8 (unat w)) s"
  by (simp_all add: pb_encode_fixed32_def pb_encode_fixed64_def le_bytes_u32 le_bytes_u64 and_ff_byte)

lemma byte_of_u32_ge: "8 \<le> n \<Longrightarrow> \<not> bit (b :: byte) n"
  using bit_imp_le_length [of b n] by auto

lemma fixed32_join:
  "push_bit 0 (ucast (ucast v :: byte)) OR push_bit 8 (ucast (ucast (drop_bit 8 v) :: byte)) OR
   push_bit 16 (ucast (ucast (drop_bit 16 v) :: byte)) OR push_bit 24 (ucast (ucast (drop_bit 24 v) :: byte)) = (v :: u32)"
proof (rule bit_eqI)
  fix n
  assume "possible_bit TYPE(u32) n"
  then have "n < 32" by simp
  then consider "n < 8" | "8 \<le> n" "n < 16" | "16 \<le> n" "n < 24" | "24 \<le> n" "n < 32" by linarith
  then show "bit (push_bit 0 (ucast (ucast v :: byte)) OR push_bit 8 (ucast (ucast (drop_bit 8 v) :: byte)) OR
   push_bit 16 (ucast (ucast (drop_bit 16 v) :: byte)) OR push_bit 24 (ucast (ucast (drop_bit 24 v) :: byte)) :: u32) n = bit v n"
    by cases (auto simp: bit_simps)
qed

lemma fixed64_join:
  "push_bit 0 (ucast (ucast v :: byte)) OR push_bit 8 (ucast (ucast (drop_bit 8 v) :: byte)) OR
   push_bit 16 (ucast (ucast (drop_bit 16 v) :: byte)) OR push_bit 24 (ucast (ucast (drop_bit 24 v) :: byte)) OR
   push_bit 32 (ucast (ucast (drop_bit 32 v) :: byte)) OR push_bit 40 (ucast (ucast (drop_bit 40 v) :: byte)) OR
   push_bit 48 (ucast (ucast (drop_bit 48 v) :: byte)) OR push_bit 56 (ucast (ucast (drop_bit 56 v) :: byte)) = (v :: u64)"
  (is "?l = v")
proof (rule bit_eqI)
  fix n
  assume "possible_bit TYPE(u64) n"
  then have "n < 64" by simp
  then consider "n < 8" | "8 \<le> n" "n < 16" | "16 \<le> n" "n < 24" | "24 \<le> n" "n < 32"
    | "32 \<le> n" "n < 40" | "40 \<le> n" "n < 48" | "48 \<le> n" "n < 56" | "56 \<le> n" "n < 64" by linarith
  then show "bit ?l n = bit v n"
    by cases (auto simp: bit_simps)
qed

lemma pb_decode_fixed32_eq:
  assumes "buf_ok s" "avail s = le_bytes 4 (unat v) @ rest"
  shows "pb_decode_fixed32 s = (Some v, adv 4 s)"
proof -
  have "4 \<le> is_bytes_left s" using assms(2) length_avail [OF assms(1)] by simp
  then show ?thesis
    using fixed32_join [of v] assms by (simp add: pb_decode_fixed32_def pb_read_into_buf le_bytes_u32)
qed

lemma pb_decode_fixed64_eq:
  assumes "buf_ok s" "avail s = le_bytes 8 (unat v) @ rest"
  shows "pb_decode_fixed64 s = (Some v, adv 8 s)"
proof -
  have "8 \<le> is_bytes_left s" using assms(2) length_avail [OF assms(1)] by simp
  then show ?thesis
    using fixed64_join [of v] assms by (simp add: pb_decode_fixed64_def pb_read_into_buf le_bytes_u64)
qed

text \<open>Zigzag: the sign in the lowest bit.\<close>

definition zigzag :: "64 word \<Rightarrow> u64" where
  "zigzag v = (if v <s 0 then NOT (push_bit 1 v) else push_bit 1 v)"

definition unzigzag :: "u64 \<Rightarrow> 64 word" where
  "unzigzag v = (if v AND 1 \<noteq> 0 then NOT (drop_bit 1 v) else drop_bit 1 v)"

lemma signed_negative_bit: "(v :: 64 word) <s 0 \<longleftrightarrow> bit v 63"
  using bit_last_iff [of v] by (simp add: word_sless_alt)

lemma unzigzag_zigzag: "unzigzag (zigzag v) = v"
proof (cases "bit v 63")
  case True
  have "bit (NOT (push_bit 1 v) AND 1) 0"
    by (simp only: bit_and_iff bit_not_iff bit_push_bit_iff) simp
  then have "NOT (push_bit 1 v) AND 1 \<noteq> 0" by (rule contrapos_pn) (simp only: bit_0_eq bot_apply bot_bool_def simp_thms)
  moreover have "NOT (drop_bit 1 (NOT (push_bit 1 v))) = v"
  proof (rule bit_eqI)
    fix n assume "possible_bit TYPE(64 word) n"
    then have "n < 64" by simp
    then show "bit (NOT (drop_bit 1 (NOT (push_bit 1 v)))) n = bit v n"
      using True by (cases "n = 63") (auto simp: bit_simps simp del: push_bit_Suc drop_bit_Suc)
  qed
  ultimately show ?thesis using True by (simp add: unzigzag_def zigzag_def signed_negative_bit)
next
  case False
  have "push_bit 1 v AND 1 = 0" by (rule bit_eqI) (auto simp: bit_simps simp del: push_bit_Suc)
  moreover have "drop_bit 1 (push_bit 1 v) = v"
  proof (rule bit_eqI)
    fix n assume "possible_bit TYPE(64 word) n"
    then have "n < 64" by simp
    then show "bit (drop_bit 1 (push_bit 1 v)) n = bit v n"
      using False by (cases "n = 63") (auto simp: bit_simps simp del: push_bit_Suc drop_bit_Suc)
  qed
  ultimately show ?thesis using False by (simp add: unzigzag_def zigzag_def signed_negative_bit)
qed

lemma pb_encode_svarint_eq: "pb_encode_svarint v s = pb_write (varint (unat (zigzag v))) s"
  by (simp add: pb_encode_svarint_def zigzag_def pb_encode_varint_eq)

lemma unat_u64_lt [simp]: "unat (v :: u64) < 2 ^ 64"
  using unsigned_less [of v] by simp

lemma unat_u32_lt [simp]: "unat (v :: u32) < 2 ^ 32"
  using unsigned_less [of v] by simp

lemma pb_decode_svarint_eq:
  assumes "buf_ok s" "avail s = varint (unat (zigzag v)) @ rest"
  shows "pb_decode_svarint s = (Some v, adv (length (varint (unat (zigzag v)))) s)"
  using pb_decode_varint_eq [OF assms unat_u64_lt] unzigzag_zigzag [of v]
  by (simp add: pb_decode_svarint_def unzigzag_def)

section \<open>What an encoder emits\<close>

text \<open>An operation emits \<open>bs\<close>: a sizing stream counts its length; a buffer stream gets exactly it if it
  fits, and otherwise the operation fails and what was written is within the limit. Sizes are below
  \<open>2 ^ 63\<close>, as those of objects are, so that their sums do not wrap around.\<close>

definition out_ok :: "'s pb_ostream \<Rightarrow> bool" where
  "out_ok s \<longleftrightarrow> os_callback s = BufWrite \<and> os_bytes_written s \<le> os_max_size s \<and> os_max_size s < 2 ^ 63 \<and> os_errmsg s = None"

definition sizing_ok :: "'s pb_ostream \<Rightarrow> bool" where
  "sizing_ok s \<longleftrightarrow> os_callback s = Sizing \<and> os_bytes_written s < size_mod"

definition counted :: "nat \<Rightarrow> 's pb_ostream \<Rightarrow> 's pb_ostream" where
  "counted n s = s\<lparr>os_bytes_written := size_add (os_bytes_written s) n\<rparr>"

definition put_out :: "bytes \<Rightarrow> 's pb_ostream \<Rightarrow> 's pb_ostream" where
  "put_out bs s = s\<lparr>os_dest := os_dest s @ bs, os_bytes_written := os_bytes_written s + length bs\<rparr>"

definition within :: "'s pb_ostream \<Rightarrow> 's pb_ostream \<Rightarrow> bool" where
  "within s t \<longleftrightarrow> (\<exists>p. os_dest t = os_dest s @ p \<and> os_bytes_written t = os_bytes_written s + length p \<and>
     os_bytes_written t \<le> os_max_size s)"

definition emits :: "('s, unit) pbo \<Rightarrow> bytes \<Rightarrow> bool" where
  "emits m bs \<longleftrightarrow>
     (\<forall>s. sizing_ok s \<longrightarrow> m s = (Some (), counted (length bs) s)) \<and>
     (\<forall>s. length bs < 2 ^ 63 \<longrightarrow> out_ok s \<longrightarrow>
       (if os_bytes_written s + length bs \<le> os_max_size s then m s = (Some (), put_out bs s)
        else \<exists>t. m s = (None, t) \<and> within s t))"

lemma emitsD:
  assumes "emits m bs"
  shows "sizing_ok s \<Longrightarrow> m s = (Some (), counted (length bs) s)"
    and "length bs < 2 ^ 63 \<Longrightarrow> out_ok s \<Longrightarrow> os_bytes_written s + length bs \<le> os_max_size s \<Longrightarrow> m s = (Some (), put_out bs s)"
    and "length bs < 2 ^ 63 \<Longrightarrow> out_ok s \<Longrightarrow> \<not> os_bytes_written s + length bs \<le> os_max_size s \<Longrightarrow>
      \<exists>t. m s = (None, t) \<and> within s t"
  using assms unfolding emits_def by metis+

lemma emitsI:
  assumes "\<And>s. sizing_ok s \<Longrightarrow> m s = (Some (), counted (length bs) s)"
    and "\<And>s. length bs < 2 ^ 63 \<Longrightarrow> out_ok s \<Longrightarrow> os_bytes_written s + length bs \<le> os_max_size s \<Longrightarrow>
      m s = (Some (), put_out bs s)"
    and "\<And>s. length bs < 2 ^ 63 \<Longrightarrow> out_ok s \<Longrightarrow> \<not> os_bytes_written s + length bs \<le> os_max_size s \<Longrightarrow>
      \<exists>t. m s = (None, t) \<and> within s t"
  shows "emits m bs"
  using assms unfolding emits_def by simp

lemma put_out_simps [simp]:
  "os_callback (put_out bs s) = os_callback s" "os_bytes_written (put_out bs s) = os_bytes_written s + length bs"
  "os_max_size (put_out bs s) = os_max_size s" "os_dest (put_out bs s) = os_dest s @ bs"
  "os_state (put_out bs s) = os_state s" "os_errmsg (put_out bs s) = os_errmsg s"
  "put_out b (put_out a s) = put_out (a @ b) s" "put_out [] s = s"
  by (simp_all add: put_out_def)

lemma counted_simps [simp]:
  "os_callback (counted n s) = os_callback s" "os_bytes_written (counted n s) = size_add (os_bytes_written s) n"
  "os_errmsg (counted n s) = os_errmsg s"
  "counted n (counted m s) = counted (m + n) s"
  by (simp_all add: counted_def size_add_def mod_add_left_eq add.assoc)

lemma out_ok_put_out: "out_ok s \<Longrightarrow> os_bytes_written s + length bs \<le> os_max_size s \<Longrightarrow> out_ok (put_out bs s)"
  by (simp add: out_ok_def)

lemma within_put_out: "within (put_out bs s) t \<Longrightarrow> within s t"
  by (auto simp: within_def)

lemma sizing_ok_counted [simp]: "sizing_ok s \<Longrightarrow> sizing_ok (counted n s)"
  by (simp add: sizing_ok_def)

lemma emits_write: "emits (pb_write buf) buf"
proof (rule emitsI)
  fix s :: "'s pb_ostream"
  show "pb_write buf s = (Some (), counted (length buf) s)" if "sizing_ok s"
    using that by (simp add: sizing_ok_def pb_write_def is_sizing_def counted_def)
  assume s: "out_ok s" and len: "length buf < 2 ^ 63"
  then have add: "size_add (os_bytes_written s) (length buf) = os_bytes_written s + length buf"
    by (intro size_add_small) (simp add: out_ok_def size_mod_def)
  show "pb_write buf s = (Some (), put_out buf s)" if "os_bytes_written s + length buf \<le> os_max_size s"
    using that s add by (cases "buf = []")
      (simp_all add: pb_write_def is_sizing_def os_call_def buf_write_def put_out_def out_ok_def)
  show "\<exists>t. pb_write buf s = (None, t) \<and> within s t" if full: "\<not> os_bytes_written s + length buf \<le> os_max_size s"
  proof -
    have "buf \<noteq> []" using full s by (auto simp: out_ok_def)
    then have "pb_write buf s = pbo_error ''stream full'' s"
      using s add full by (simp add: pb_write_def is_sizing_def out_ok_def)
    then show ?thesis using s by (simp add: pbo_error_def within_def out_ok_def)
  qed
qed

lemma emits_seq:
  assumes "emits m a" "emits n b"
  shows "emits (c_seq m n) (a @ b)"
proof (rule emitsI)
  fix s
  note A = emitsD [OF assms(1)] and B = emitsD [OF assms(2)]
  show "c_seq m n s = (Some (), counted (length (a @ b)) s)" if "sizing_ok s"
    using A(1) [OF that] B(1) [of "counted (length a) s"] that by simp
  assume s: "out_ok s" and len: "length (a @ b) < 2 ^ 63"
  then have la: "length a < 2 ^ 63" and lb: "length b < 2 ^ 63" by simp_all
  have next_step: "out_ok (put_out a s)" "m s = (Some (), put_out a s)"
    if "os_bytes_written s + length a \<le> os_max_size s"
    using that s out_ok_put_out [OF s that] A(2) [OF la s that] by simp_all
  show "c_seq m n s = (Some (), put_out (a @ b) s)" if "os_bytes_written s + length (a @ b) \<le> os_max_size s"
    using next_step B(2) [of "put_out a s"] lb that by simp
  show "\<exists>t. c_seq m n s = (None, t) \<and> within s t" if full: "\<not> os_bytes_written s + length (a @ b) \<le> os_max_size s"
  proof (cases "os_bytes_written s + length a \<le> os_max_size s")
    case False
    with A(3) [OF la s] show ?thesis by auto
  next
    case True
    from B(3) [OF lb next_step(1) [OF True]] full next_step(2) [OF True] within_put_out show ?thesis by auto
  qed
qed

lemma emits_nothing: "emits (c_ret ()) []"
  by (rule emitsI) (auto simp: counted_def out_ok_def sizing_ok_def)

lemma emits_cong: "(\<And>s. m s = m' s) \<Longrightarrow> emits m bs = emits m' bs"
  by (simp add: emits_def)

lemma emits_varint: "emits (pb_encode_varint v) (varint (unat v))"
  using emits_write [of "varint (unat v)"] by (subst emits_cong [OF pb_encode_varint_eq])

lemma emits_svarint: "emits (pb_encode_svarint v) (varint (unat (zigzag v)))"
  using emits_write [of "varint (unat (zigzag v))"] by (subst emits_cong [OF pb_encode_svarint_eq])

lemma emits_fixed: "emits (pb_encode_fixed32 v) (le_bytes 4 (unat v))" "emits (pb_encode_fixed64 w) (le_bytes 8 (unat w))"
  using emits_write by (subst emits_cong [OF pb_encode_fixed_eq(1)] emits_cong [OF pb_encode_fixed_eq(2)], blast)+

lemma pb_encode_string_seq:
  "pb_encode_string buf s = c_seq (pb_encode_varint (word_of_nat (length buf))) (pb_write buf) s"
  by (auto simp: pb_encode_string_def c_seq_apply split: option.splits prod.splits)

lemma emits_string:
  assumes "length buf < 2 ^ 64"
  shows "emits (pb_encode_string buf) (varint (length buf) @ buf)"
proof -
  have "unat (word_of_nat (length buf) :: u64) = length buf"
    using assms by (simp add: unsigned_of_nat take_bit_nat_eq_self)
  then have "emits (pb_encode_varint (word_of_nat (length buf))) (varint (length buf))"
    using emits_varint [of "word_of_nat (length buf)"] by simp
  then show ?thesis
    using emits_seq emits_write by (subst emits_cong [OF pb_encode_string_seq]) blast
qed

lemma unat_tag:
  assumes "unat w < 8"
  shows "unat (push_bit 3 (ucast (n :: u32)) OR ucast (w :: u32) :: u64) = unat n * 8 + unat w"
proof -
  have "unat (ucast n :: u64) = unat n" "unat (ucast w :: u64) = unat w" by (simp_all add: unat_ucast_up)
  moreover have "unat n * 8 + unat w < 2 ^ 64" using unat_u32_lt [of n] assms by (simp del: unat_u32_lt)
  ultimately show ?thesis using unat_push_or [of "ucast n :: u64" 3 "ucast w"] assms by simp
qed

lemma emits_tag: "unat w < 8 \<Longrightarrow> emits (pb_encode_tag w n) (varint (unat n * 8 + unat w))"
  using emits_varint [of "push_bit 3 (ucast n) OR ucast w"]
  by (subst emits_cong [OF pb_encode_tag_def]) (simp add: unat_tag)

text \<open>A tag below \<open>2 ^ 29\<close> comes back with its wire type.\<close>

lemma pb_decode_tag_eq:
  assumes "buf_ok s" "avail s = varint (n * 8 + unat w) @ rest" "n < 2 ^ 29" "unat (w :: u32) < 8" "0 < n"
  shows "pb_decode_tag s = (Some (w, word_of_nat n), False, adv (length (varint (n * 8 + unat w))) s)"
proof -
  let ?t = "word_of_nat (n * 8 + unat w) :: u32"
  have lt: "n * 8 + unat w < 2 ^ 32" using assms(3,4) by simp
  then have u: "unat ?t = n * 8 + unat w"
    by (simp add: unsigned_of_nat take_bit_nat_eq_self del: of_nat_add of_nat_mult)
  have "?t AND 7 = w"
  proof -
    have "?t AND 7 = ?t AND mask 3" by (simp add: mask_eq_exp_minus_1)
    moreover have "unat (?t AND mask 3) = unat w" using assms(4) unfolding unat_and_mask u by simp
    ultimately show ?thesis by (simp only: word_unat_eq_iff)
  qed
  moreover have "drop_bit 3 ?t = word_of_nat n"
  proof -
    have "unat (drop_bit 3 ?t) = n" unfolding unat_drop_bit_div u using assms(4) by simp
    moreover have "unat (word_of_nat n :: u32) = n" using assms(3) by (simp add: unsigned_of_nat take_bit_nat_eq_self)
    ultimately show ?thesis by (simp only: word_unat_eq_iff)
  qed
  moreover have "?t \<noteq> 0" using u assms(5) by (metis add_is_0 less_numeral_extra(3) mult_is_0 unsigned_0 zero_neq_numeral)
  ultimately show ?thesis
    using pb_decode_varint32_eof_eq [OF assms(1,2) lt] by (simp add: pb_decode_tag_def del: of_nat_add of_nat_mult)
qed

section \<open>Readers and writers of whole buffers\<close>

text \<open>Running a decoder on a buffer: its result and what is left.\<close>

definition on_buffer :: "(unit, 'a) pbi \<Rightarrow> (bytes, 'a) cop" where
  "on_buffer m bs = (case m (pb_istream_from_buffer () bs (length bs)) of (r, s) \<Rightarrow> (r, avail s))"

lemma from_buffer_ok [simp]: "buf_ok (pb_istream_from_buffer st bs (length bs))"
  by (simp add: buf_ok_def pb_istream_from_buffer_def)

lemma avail_from_buffer [simp]: "avail (pb_istream_from_buffer st bs (length bs)) = bs"
  by (simp add: avail_def pb_istream_from_buffer_def)

lemma fwd_avail: "fwd s t \<Longrightarrow> buf_ok s \<Longrightarrow> is_suffix (avail s) (avail t)"
  by (auto simp: fwd_def avail_def drop_take [symmetric])

lemma reads_on_buffer:
  assumes "\<And>s r t. m s = (r, t) \<Longrightarrow> fwd s t"
  shows "reads (on_buffer m)"
  using fwd_avail [OF assms from_buffer_ok]
  by (intro c_preservesI) (auto simp: on_buffer_def split: prod.splits)

lemma on_bufferI:
  assumes "\<And>s. buf_ok s \<Longrightarrow> avail s = bs @ rest \<Longrightarrow> m s = (Some v, adv (length bs) s)"
  shows "on_buffer m (bs @ rest) = (Some v, rest)"
proof -
  let ?s = "pb_istream_from_buffer () (bs @ rest) (length (bs @ rest))"
  have "m ?s = (Some v, adv (length bs) ?s)" by (rule assms) (rule from_buffer_ok avail_from_buffer)+
  then show ?thesis unfolding on_buffer_def by (simp del: length_append)
qed

lemma fwd_svarint: "pb_decode_svarint s = (r, t) \<Longrightarrow> fwd s t"
  by (auto simp: pb_decode_svarint_def split: prod.splits option.splits dest: fwd_varint)

lemma fwd_fixed32: "pb_decode_fixed32 s = (r, t) \<Longrightarrow> fwd s t"
  by (auto simp: pb_decode_fixed32_def split: prod.splits option.splits dest: fwd_read_intoD)

lemma fwd_fixed64: "pb_decode_fixed64 s = (r, t) \<Longrightarrow> fwd s t"
  by (auto simp: pb_decode_fixed64_def split: prod.splits option.splits dest: fwd_read_intoD)

interpretation pb_varint_reader: reader "on_buffer pb_decode_varint"
  by unfold_locales (rule reads_on_buffer [OF fwd_varint])

interpretation pb_varint32_reader: reader "on_buffer pb_decode_varint32"
  by unfold_locales (rule reads_on_buffer [OF fwd_varint32])

interpretation pb_skip_reader: reader "on_buffer (pb_skip_field w)"
  by unfold_locales (rule reads_on_buffer [OF fwd_skip_field])

interpretation pb_varint: codec "\<lambda>v :: u64. varint (unat v)" "on_buffer pb_decode_varint" "\<lambda>_. True"
  by unfold_locales (rule on_bufferI, use pb_decode_varint_eq [OF _ _ unat_u64_lt] in fastforce)

interpretation pb_varint32: codec "\<lambda>v :: u32. varint (unat v)" "on_buffer pb_decode_varint32" "\<lambda>_. True"
  by unfold_locales (rule on_bufferI, use pb_decode_varint32_eq [OF _ _ unat_u32_lt] in fastforce)

interpretation pb_svarint: codec "\<lambda>v. varint (unat (zigzag v))" "on_buffer pb_decode_svarint" "\<lambda>_. True"
  by unfold_locales (rule on_bufferI, simp add: pb_decode_svarint_eq)

interpretation pb_fixed32: codec "\<lambda>v. le_bytes 4 (unat v)" "on_buffer pb_decode_fixed32" "\<lambda>_. True"
  by unfold_locales (rule on_bufferI, simp add: pb_decode_fixed32_eq)

interpretation pb_fixed64: codec "\<lambda>v. le_bytes 8 (unat v)" "on_buffer pb_decode_fixed64" "\<lambda>_. True"
  by unfold_locales (rule on_bufferI, simp add: pb_decode_fixed64_eq)

text \<open>What an encoder puts into a buffer of \<open>n\<close> bytes.\<close>

definition out_buffer :: "(unit, unit) pbo \<Rightarrow> nat \<Rightarrow> bytes option" where
  "out_buffer m n = (case m (pb_ostream_from_buffer () n) of (Some _, s) \<Rightarrow> Some (os_dest s) | (None, _) \<Rightarrow> None)"

lemma out_buffer_emits: "emits m bs \<Longrightarrow> length bs \<le> n \<Longrightarrow> n < 2 ^ 63 \<Longrightarrow> out_buffer m n = Some bs"
  using emitsD(2) [of m bs "pb_ostream_from_buffer () n"]
  by (simp add: out_buffer_def pb_ostream_from_buffer_def out_ok_def put_out_def)

lemma length_varint_u64: "length (varint (unat (v :: u64))) \<le> 10"
  using varint_nth_le [of "unat v"] unat_u64_lt [of v] by simp

lemma length_varint_u32: "length (varint (unat (v :: u32))) \<le> 5"
  using length_varint [of "unat v" 4] unat_u32_lt [of v] by simp

lemma varint_of_u32: "varint (unat (ucast (v :: u32) :: u64)) = varint (unat v)"
  by (simp add: unat_ucast_up)

text \<open>Skipping a value skips what was written.\<close>

lemma pb_skip_varint_eq:
  "buf_ok s \<Longrightarrow> avail s = varint n @ rest \<Longrightarrow> pb_skip_varint s = (Some (), adv (length (varint n)) s)"
proof (induction n arbitrary: s rule: varint.induct)
  case (1 n)
  show ?case
  proof (cases "n < 128")
    case True
    with 1(3) have "avail s = word_of_nat n # rest" by (simp add: varint_small)
    with True 1(2) show ?thesis
      by (subst pb_skip_varint.simps) (simp add: pb_read_into_1_buf low_byte varint_small)
  next
    case False
    with 1(3) have "avail s = word_of_nat (n mod 128 + 128) # varint (n div 128) @ rest" by (simp add: varint_big)
    with "1.IH" [OF False, of "adv 1 s"] False 1(2) show ?thesis
      by (subst pb_skip_varint.simps)
        (simp add: pb_read_into_1_buf high_byte varint_big del: of_nat_add)
  qed
qed

lemma pb_skip_string_eq:
  assumes "buf_ok s" "avail s = varint (length bs) @ bs @ rest" "length bs < 2 ^ 32"
  shows "pb_skip_string s = (Some (), adv (length (varint (length bs)) + length bs) s)"
proof -
  have "unat (word_of_nat (length bs) :: u32) = length bs"
    using assms(3) by (simp add: unsigned_of_nat take_bit_nat_eq_self)
  moreover have "length (varint (length bs)) + length bs \<le> is_bytes_left s"
    using assms(2) length_avail [OF assms(1)] by simp
  ultimately show ?thesis
    using pb_decode_varint32_eq [OF assms] assms(1) by (simp add: pb_skip_string_def pb_read_null_buf le_diff_conv2)
qed

lemma skip_fixed:
  "buf_ok s \<Longrightarrow> avail s = bs @ rest \<Longrightarrow> pb_read_null (length bs) s = (Some (), adv (length bs) s)"
  using length_avail [of s] by (simp add: pb_read_null_buf)

section \<open>Properties\<close>

text \<open>C21: The wire primitives round-trip: what the encoder of a varint, a zigzag integer, a fixed-width integer
  puts into a buffer of ten (four, eight) bytes, which is always large enough, the decoder reads back,
  leaving the bytes behind it.\<close>

theorem wire_values_roundtrip:
  "\<exists>a b c d.
     out_buffer (pb_encode_varint v) 10 = Some a \<and> on_buffer pb_decode_varint (a @ rest) = (Some v, rest) \<and>
     out_buffer (pb_encode_svarint i) 10 = Some b \<and> on_buffer pb_decode_svarint (b @ rest) = (Some i, rest) \<and>
     out_buffer (pb_encode_fixed32 x) 4 = Some c \<and> on_buffer pb_decode_fixed32 (c @ rest) = (Some x, rest) \<and>
     out_buffer (pb_encode_fixed64 y) 8 = Some d \<and> on_buffer pb_decode_fixed64 (d @ rest) = (Some y, rest)"
proof (intro exI conjI)
  show "out_buffer (pb_encode_varint v) 10 = Some (varint (unat v))"
    by (intro out_buffer_emits emits_varint) (simp_all add: length_varint_u64)
  show "out_buffer (pb_encode_svarint i) 10 = Some (varint (unat (zigzag i)))"
    by (intro out_buffer_emits emits_svarint) (simp_all add: length_varint_u64)
  show "out_buffer (pb_encode_fixed32 x) 4 = Some (le_bytes 4 (unat x))"
    "out_buffer (pb_encode_fixed64 y) 8 = Some (le_bytes 8 (unat y))"
    by (intro out_buffer_emits emits_fixed; simp)+
qed (simp_all add: pb_varint.dec_enc pb_svarint.dec_enc pb_fixed32.dec_enc pb_fixed64.dec_enc)

text \<open>A varint that is cut off consists of continuation bytes, and is read to the end of the stream.\<close>

definition unended :: "bytes \<Rightarrow> bool" where
  "unended bs \<longleftrightarrow> (\<forall>b\<in>set bs. b AND 0x80 \<noteq> 0)"

lemma unended_simps [simp]: "unended []" "unended (b # bs) \<longleftrightarrow> b AND 0x80 \<noteq> 0 \<and> unended bs"
  by (simp_all add: unended_def)

lemma unended_varint: "k < length (varint n) \<Longrightarrow> unended (take k (varint n))"
proof (induction n arbitrary: k rule: varint.induct)
  case (1 n)
  show ?case
  proof (cases "n < 128")
    case True
    with 1(2) show ?thesis by (simp add: varint_small)
  next
    case False
    then have v: "varint n = word_of_nat (n mod 128 + 128) # varint (n div 128)" by (simp add: varint_big)
    show ?thesis
    proof (cases k)
      case (Suc j)
      with "1.IH" [OF False, of j] 1(2) v show ?thesis by (simp add: high_byte del: of_nat_add)
    qed simp
  qed
qed

lemma skip_unended:
  "buf_ok s \<Longrightarrow> unended (avail s) \<Longrightarrow> fst (pb_skip_varint s) = None"
proof (induction "avail s" arbitrary: s)
  case Nil
  from Nil.hyps [symmetric] Nil.prems show ?case
    by (subst pb_skip_varint.simps) (simp add: pb_read_into_1_buf pb_error_def)
next
  case (Cons b bs)
  from Cons.hyps(1) [of "adv 1 s"] Cons.hyps(2) [symmetric] Cons.prems show ?case
    by (subst pb_skip_varint.simps) (simp add: pb_read_into_1_buf)
qed

lemma varint32_loop_unended:
  "buf_ok s \<Longrightarrow> unended (avail s) \<Longrightarrow> fst (varint32_loop v k s) = None"
proof (induction "avail s" arbitrary: s v k)
  case Nil
  from Nil.hyps [symmetric] Nil.prems show ?case
    by (subst varint32_loop.simps) (simp add: pb_readbyte_buf pb_error_def)
next
  case (Cons b bs)
  from Cons.hyps(1) [of "adv 1 s"] Cons.hyps(2) [symmetric] Cons.prems show ?case
    by (subst varint32_loop.simps) (simp add: pb_readbyte_buf Let_def pb_error_def)
qed

lemma decode_varint32_unended:
  assumes "buf_ok s" "unended (avail s)"
  shows "fst (pb_decode_varint32 s) = None"
proof (cases "avail s")
  case Nil
  with assms show ?thesis
    by (simp add: pb_decode_varint32_def pb_decode_varint32_eof_def pb_readbyte_buf pb_error_def)
next
  case (Cons b bs)
  with assms have "fst (varint32_loop (ucast (b AND 0x7f)) 7 (adv 1 s)) = None" "b AND 0x80 \<noteq> 0"
    by (auto intro: varint32_loop_unended)
  with assms Cons show ?thesis
    by (cases "varint32_loop (ucast (b AND 0x7f)) 7 (adv 1 s)")
      (simp add: pb_decode_varint32_def pb_decode_varint32_eof_def pb_readbyte_buf)
qed

text \<open>What skipping does to a field \<open>e\<close> at the front of a buffer of which \<open>n\<close> bytes belong to the stream.\<close>

definition skips :: "u32 \<Rightarrow> bytes \<Rightarrow> bytes \<Rightarrow> nat \<Rightarrow> bool" where
  "skips w e rest n \<longleftrightarrow>
     (let s = pb_istream_from_buffer () (e @ rest) n
      in if length e \<le> n
         then pb_skip_field w s = (Some (), s\<lparr>is_source := rest, is_bytes_left := n - length e\<rparr>)
         else fst (pb_skip_field w s) = None \<and> \<not> is_overrun (snd (pb_skip_field w s)))"

lemma skipsI:
  assumes n: "n \<le> length (e @ rest)"
    and whole: "\<And>(s :: unit pb_istream) r. buf_ok s \<Longrightarrow> avail s = e @ r \<Longrightarrow> pb_skip_field w s = (Some (), adv (length e) s)"
    and cut: "\<And>s :: unit pb_istream. buf_ok s \<Longrightarrow> n < length e \<Longrightarrow> avail s = take n e \<Longrightarrow> fst (pb_skip_field w s) = None"
  shows "skips w e rest n"
proof -
  define s where "s = pb_istream_from_buffer () (e @ rest) n"
  have ok: "buf_ok s" using n by (simp add: s_def pb_istream_from_buffer_def buf_ok_def)
  have a: "avail s = take n (e @ rest)" by (simp add: s_def pb_istream_from_buffer_def avail_def)
  show ?thesis
  proof (cases "length e \<le> n")
    case True
    then have "avail s = e @ take (n - length e) rest" using a by simp
    with whole [OF ok] have "pb_skip_field w s = (Some (), adv (length e) s)" .
    moreover have "adv (length e) s = s\<lparr>is_source := rest, is_bytes_left := n - length e\<rparr>"
      by (simp add: adv_def s_def pb_istream_from_buffer_def)
    ultimately show ?thesis using True by (simp add: skips_def Let_def s_def)
  next
    case False
    then have "avail s = take n e" using a by simp
    with cut [OF ok] False have "fst (pb_skip_field w s) = None" by simp
    moreover have "buf_ok (snd (pb_skip_field w s))"
      by (rule fwd_buf_ok [OF fwd_skip_field ok]) (rule prod.collapse [symmetric])
    ultimately show ?thesis using False by (simp add: skips_def Let_def s_def buf_ok_def)
  qed
qed

lemma skips_varint:
  assumes "n \<le> length (varint k @ rest)"
  shows "skips PB_WT_VARINT (varint k) rest n"
proof (rule skipsI [OF assms])
  fix s :: "unit pb_istream" and r
  have w: "pb_skip_field PB_WT_VARINT s = pb_skip_varint s" by (simp add: pb_skip_field_def)
  show "pb_skip_field PB_WT_VARINT s = (Some (), adv (length (varint k)) s)" if "buf_ok s" "avail s = varint k @ r"
    unfolding w by (rule pb_skip_varint_eq [OF that])
  show "fst (pb_skip_field PB_WT_VARINT s) = None" if "buf_ok s" "n < length (varint k)" "avail s = take n (varint k)"
    unfolding w using that(3) unended_varint [OF that(2)] by (intro skip_unended [OF that(1)]) simp
qed

lemma skips_fixed:
  assumes "n \<le> length (bs @ rest)" "(w, length bs) \<in> {(PB_WT_32BIT, 4), (PB_WT_64BIT, 8)}"
  shows "skips w bs rest n"
proof -
  have w: "pb_skip_field w = pb_read_null (length bs)"
    using assms(2) by (auto simp: pb_skip_field_def PB_WT_VARINT_def PB_WT_64BIT_def PB_WT_STRING_def PB_WT_32BIT_def fun_eq_iff)
  show ?thesis
  proof (rule skipsI [OF assms(1)])
    fix s :: "unit pb_istream"
    assume "buf_ok s" "n < length bs" "avail s = take n bs"
    moreover from this have "is_bytes_left s = n" using length_avail [of s] by simp
    ultimately show "fst (pb_skip_field w s) = None" by (simp add: w pb_read_null_buf pb_error_def)
  qed (simp add: w skip_fixed)
qed

lemma skips_string:
  assumes "n \<le> length ((varint (length bs) @ bs) @ rest)" "length bs < 2 ^ 32"
  shows "skips PB_WT_STRING (varint (length bs) @ bs) rest n"
proof (rule skipsI [OF assms(1)])
  fix s :: "unit pb_istream" and r
  assume "buf_ok s" "avail s = (varint (length bs) @ bs) @ r"
  with assms(2) show "pb_skip_field PB_WT_STRING s = (Some (), adv (length (varint (length bs) @ bs)) s)"
    by (simp add: pb_skip_field_def PB_WT_VARINT_def PB_WT_64BIT_def PB_WT_STRING_def pb_skip_string_eq)
next
  fix s :: "unit pb_istream"
  let ?v = "varint (length bs)"
  assume ok: "buf_ok s" and n: "n < length (?v @ bs)" and a: "avail s = take n (?v @ bs)"
  have w: "pb_skip_field PB_WT_STRING s = pb_skip_string s"
    by (simp add: pb_skip_field_def PB_WT_VARINT_def PB_WT_64BIT_def PB_WT_STRING_def)
  show "fst (pb_skip_field PB_WT_STRING s) = None"
  proof (cases "n < length ?v")
    case True
    then have "unended (avail s)" using a unended_varint [of n "length bs"] by simp
    from decode_varint32_unended [OF ok this] show ?thesis
      by (auto simp: w pb_skip_string_def split: prod.split)
  next
    case False
    have "unat (word_of_nat (length bs) :: u32) = length bs"
      using assms(2) by (simp add: unsigned_of_nat take_bit_nat_eq_self)
    moreover have "avail s = ?v @ take (n - length ?v) bs" using a False by simp
    moreover from length_avail [OF ok] a n have "is_bytes_left s = n" by simp
    ultimately show ?thesis
      using pb_decode_varint32_eq [OF ok _ assms(2)] ok n False
      by (simp add: w pb_skip_string_def pb_read_null_buf pb_error_def)
  qed
qed

text \<open>C22: An unknown field is skipped exactly. Let the encoder write a varint, a fixed-width value or a string
  at the front of a buffer, and let the stream end after \<open>n\<close> bytes of the buffer. If the field is complete,
  \<open>pb_skip_field\<close> for its wire type succeeds, the stream then stands at the byte behind the field, and
  \<open>bytes_left\<close> has gone down by the length of the field; if the stream ends inside the field, it fails without
  reading behind the end of the buffer.\<close>

theorem unknown_fields_are_skipped:
  assumes "length str < 2 ^ 32"
  shows "\<exists>a b c d.
     out_buffer (pb_encode_varint v) 10 = Some a \<and> (\<forall>n\<le>length (a @ rest). skips PB_WT_VARINT a rest n) \<and>
     out_buffer (pb_encode_fixed32 x) 4 = Some b \<and> (\<forall>n\<le>length (b @ rest). skips PB_WT_32BIT b rest n) \<and>
     out_buffer (pb_encode_fixed64 y) 8 = Some c \<and> (\<forall>n\<le>length (c @ rest). skips PB_WT_64BIT c rest n) \<and>
     out_buffer (pb_encode_string str) (5 + length str) = Some d \<and> (\<forall>n\<le>length (d @ rest). skips PB_WT_STRING d rest n)"
proof (intro exI conjI allI impI)
  show "out_buffer (pb_encode_varint v) 10 = Some (varint (unat v))"
    by (intro out_buffer_emits emits_varint) (simp_all add: length_varint_u64)
  show "out_buffer (pb_encode_fixed32 x) 4 = Some (le_bytes 4 (unat x))"
    "out_buffer (pb_encode_fixed64 y) 8 = Some (le_bytes 8 (unat y))"
    by (intro out_buffer_emits emits_fixed; simp)+
  have "length (varint (length str)) \<le> 5" using length_varint [of "length str" 4] assms by simp
  then show "out_buffer (pb_encode_string str) (5 + length str) = Some (varint (length str) @ str)"
    using assms by (intro out_buffer_emits emits_string) simp_all
qed (use assms in \<open>auto intro: skips_varint skips_fixed skips_string\<close>)

theorem unknown_fields_are_skipped_witness:
  "\<exists>d. out_buffer (pb_encode_string [1, 2, 3]) 8 = Some d \<and>
     on_buffer (pb_skip_field PB_WT_STRING) (d @ [9]) = (Some (), [9]) \<and>
     fst (pb_skip_field PB_WT_STRING (pb_istream_from_buffer () (d @ [9]) 3)) = None"
proof -
  obtain d where o: "out_buffer (pb_encode_string [1, 2, 3]) 8 = Some d"
    and s: "\<forall>n\<le>length (d @ [9]). skips PB_WT_STRING d [9] n"
    using unknown_fields_are_skipped [of "[1, 2, 3]" 0 "[9]" 0 0] by auto
  have "map_option length (out_buffer (pb_encode_string [1, 2, 3]) 8) = Some 4" by code_simp
  then have l: "length d = 4" using o by simp
  with s have "skips PB_WT_STRING d [9] 5" "skips PB_WT_STRING d [9] 3" by simp_all
  with l o show ?thesis
    by (auto simp: skips_def Let_def on_buffer_def pb_istream_from_buffer_def avail_def)
qed

text \<open>The byte 0x80 only moves \<open>bitpos\<close>, around the eight bits it has.\<close>

lemma varint32_loop_80:
  "buf_ok s \<Longrightarrow> avail s = replicate n 0x80 @ rest \<Longrightarrow> k < 256 \<Longrightarrow>
   varint32_loop v k s = varint32_loop v ((k + 7 * n) mod 256) (adv n s)"
proof (induction n arbitrary: s k)
  case (Suc n)
  have "varint32_loop v k s = varint32_loop v ((k + 7) mod 256) (adv 1 s)"
    using Suc.prems by (subst varint32_loop.simps) (simp add: pb_readbyte_Cons Let_def)
  also have "\<dots> = varint32_loop v (((k + 7) mod 256 + 7 * n) mod 256) (adv n (adv 1 s))"
    using Suc.prems by (intro Suc.IH) simp_all
  also have "((k + 7) mod 256 + 7 * n) mod 256 = (k + 7 * Suc n) mod 256"
    by (simp only: mod_simps mult_Suc_right add.assoc)
  finally show ?case by simp
qed simp

text \<open>C23: A 32-bit varint is not always canonical: \<open>bitpos\<close> is eight bits wide and wraps, so that a varint of
  38 bytes, far beyond 32 bits, is accepted and decoded as 8; and a six-byte one whose bit 32 is
  set is accepted as 0.\<close>

theorem overlong_varint32_accepted:
  "on_buffer pb_decode_varint32 (replicate 37 0x80 @ [1]) = (Some 8, []) \<and>
   on_buffer pb_decode_varint32 (replicate 4 0x80 @ [0x90, 0]) = (Some 0, [])"
proof -
  have start: "pb_decode_varint32 s = varint32_loop 0 ((7 + 7 * n) mod 256) (adv (Suc n) s)"
    if ok: "buf_ok s" and av: "avail s = replicate (Suc n) 0x80 @ rest" for s :: "unit pb_istream" and n rest
  proof -
    have "varint32_loop 0 7 (adv 1 s) = varint32_loop 0 ((7 + 7 * n) mod 256) (adv n (adv 1 s))"
      by (rule varint32_loop_80 [where rest = rest]) (use that in simp_all)
    with that show ?thesis
      by (simp add: pb_decode_varint32_def pb_decode_varint32_eof_def pb_readbyte_Cons split: prod.split)
  qed
  have "pb_decode_varint32 s = (Some 8, adv (length (replicate 37 (0x80 :: byte) @ [1])) s)"
    if "buf_ok s" "avail s = (replicate 37 0x80 @ [1]) @ []" for s :: "unit pb_istream"
  proof -
    have "avail s = replicate (Suc 36) 0x80 @ [1]" using that(2) by simp
    from start [OF that(1) this] that show ?thesis
      by (subst (asm) varint32_loop.simps) (simp add: pb_readbyte_Cons Let_def)
  qed
  from on_bufferI [where m = pb_decode_varint32, OF this]
  have long: "on_buffer pb_decode_varint32 (replicate 37 0x80 @ [1]) = (Some 8, [])" by simp
  have "pb_decode_varint32 s = (Some 0, adv (length (replicate 4 (0x80 :: byte) @ [0x90, 0])) s)"
    if "buf_ok s" "avail s = (replicate 4 0x80 @ [0x90, 0]) @ []" for s :: "unit pb_istream"
  proof -
    have z: "(4294967296 :: u32) = 0" by simp
    have "avail s = replicate (Suc 3) 0x80 @ [0x90, 0]" using that(2) by simp
    from start [OF that(1) this] have "pb_decode_varint32 s = varint32_loop 0 28 (adv 4 s)" by simp
    also have "\<dots> = varint32_loop 0 35 (adv 5 s)"
      using that by (subst varint32_loop.simps) (simp add: pb_readbyte_Cons Let_def z)
    also have "\<dots> = (Some 0, adv 6 s)"
      using that by (subst varint32_loop.simps) (simp add: pb_readbyte_Cons Let_def)
    finally show ?thesis by simp
  qed
  from on_bufferI [where m = pb_decode_varint32, OF this] long show ?thesis by simp
qed

end
