(* ===== verification/PbWire.thy ===== *)
theory PbWire
  imports PbEncode PbStream_Correct
begin

text \<open>
  What the encoder of nanopb is meant to produce: the bytes of a message in memory, as a function
  without streams, sizes computed beforehand or a second pass. \<open>None\<close> is a message that cannot be encoded
  (or a nesting deeper than the fuel). User callbacks are given by the bytes they write.
\<close>

record wire_env =
  w_desc :: "nat \<Rightarrow> pb_field list"
  w_encode :: "nat \<Rightarrow> pb_field \<Rightarrow> nat \<Rightarrow> pb_mem \<Rightarrow> bytes option"
  w_ext_encode :: "nat \<Rightarrow> nat \<Rightarrow> pb_mem \<Rightarrow> bytes option"
  w_ext_field :: "nat \<Rightarrow> pb_field"

section \<open>Concatenation and framing\<close>

definition w_seq :: "bytes option \<Rightarrow> bytes option \<Rightarrow> bytes option" where
  "w_seq v w = (case v of None \<Rightarrow> None | Some a \<Rightarrow> map_option ((@) a) w)"

lemma w_seq_simps [simp]:
  "w_seq (Some a) (Some b) = Some (a @ b)" "w_seq None w = None" "w_seq v None = None"
  by (simp_all add: w_seq_def split: option.split)

definition delimited :: "bytes \<Rightarrow> bytes" where
  "delimited bs = varint (length bs mod size_mod) @ bs"

definition wire_key :: "nat \<Rightarrow> u32 \<Rightarrow> bytes" where
  "wire_key tag wire_type = varint (tag mod 2 ^ 32 * 8 + unat wire_type)"

definition wire_tag :: "pb_field \<Rightarrow> bytes option" where
  "wire_tag f =
     (let t = ltype f
      in if t = PB_LTYPE_BOOL \<or> t = PB_LTYPE_VARINT \<or> t = PB_LTYPE_UVARINT \<or> t = PB_LTYPE_SVARINT
         then Some (wire_key (pf_tag f) PB_WT_VARINT)
         else if t = PB_LTYPE_FIXED32 then Some (wire_key (pf_tag f) PB_WT_32BIT)
         else if t = PB_LTYPE_FIXED64 then Some (wire_key (pf_tag f) PB_WT_64BIT)
         else if t = PB_LTYPE_BYTES \<or> t = PB_LTYPE_STRING \<or> t = PB_LTYPE_SUBMESSAGE \<or> t = PB_LTYPE_FIXED_LENGTH_BYTES
         then Some (wire_key (pf_tag f) PB_WT_STRING)
         else None)"

section \<open>Single values\<close>

definition wire_bytes :: "pb_mem \<Rightarrow> pb_field \<Rightarrow> nat \<Rightarrow> bytes option" where
  "wire_bytes m f src =
     (if src = 0 then Some (delimited [])
      else if atype f = PB_ATYPE_STATIC \<and> load_size m src + 4 > pf_data_size f then None
      else Some (delimited (load m (src + 4) (load_size m src))))"

definition wire_string :: "pb_mem \<Rightarrow> pb_field \<Rightarrow> nat \<Rightarrow> bytes" where
  "wire_string m f src =
     (let max_size = (if atype f = PB_ATYPE_POINTER then size_mod - 1 else pf_data_size f)
      in delimited (load m src (if src = 0 then 0 else string_size m src max_size)))"

definition wire_value :: "(nat \<Rightarrow> nat \<Rightarrow> bytes option) \<Rightarrow> pb_mem \<Rightarrow> pb_field \<Rightarrow> nat \<Rightarrow> bytes option" where
  "wire_value sub m f src =
     (let t = ltype f
      in if t = PB_LTYPE_BOOL then Some [if m src \<noteq> 0 then 1 else 0]
         else if t = PB_LTYPE_VARINT then map_option (\<lambda>v. varint (unat v)) (load_signed m src (pf_data_size f))
         else if t = PB_LTYPE_UVARINT then map_option (\<lambda>v. varint (unat v)) (load_unsigned m src (pf_data_size f))
         else if t = PB_LTYPE_SVARINT then map_option (\<lambda>v. varint (unat (zigzag v))) (load_signed m src (pf_data_size f))
         else if t = PB_LTYPE_FIXED32 then Some (load m src 4)
         else if t = PB_LTYPE_FIXED64 then Some (load m src 8)
         else if t = PB_LTYPE_BYTES then wire_bytes m f src
         else if t = PB_LTYPE_STRING then Some (wire_string m f src)
         else if t = PB_LTYPE_SUBMESSAGE then (if pf_ptr f = 0 then None else map_option delimited (sub (pf_ptr f) src))
         else if t = PB_LTYPE_FIXED_LENGTH_BYTES then Some (delimited (load m src (pf_data_size f)))
         else None)"

section \<open>Arrays, fields, messages\<close>

fun wire_entries :: "(nat \<Rightarrow> bytes option) \<Rightarrow> nat \<Rightarrow> nat \<Rightarrow> nat \<Rightarrow> bytes option" where
  "wire_entries each data_size p 0 = Some []"
| "wire_entries each data_size p (Suc count) = w_seq (each p) (wire_entries each data_size (p + data_size) count)"

definition wire_array :: "(nat \<Rightarrow> nat \<Rightarrow> bytes option) \<Rightarrow> pb_mem \<Rightarrow> pb_field \<Rightarrow> nat \<Rightarrow> nat \<Rightarrow> bytes option" where
  "wire_array sub m f p count =
     (if count = 0 then Some []
      else if atype f \<noteq> PB_ATYPE_POINTER \<and> count > pf_array_size f then None
      else if ltype f \<le> PB_LTYPE_LAST_PACKABLE
      then w_seq (Some (wire_key (pf_tag f) PB_WT_STRING))
             (map_option delimited (wire_entries (wire_value sub m f) (pf_data_size f) p count))
      else wire_entries
             (\<lambda>p. w_seq (wire_tag f)
                (if atype f = PB_ATYPE_POINTER \<and> (ltype f = PB_LTYPE_STRING \<or> ltype f = PB_LTYPE_BYTES)
                 then wire_value sub m f (load_ptr m p) else wire_value sub m f p))
             (pf_data_size f) p count)"

text \<open>\<open>has\<close> is whether an optional field without a \<open>has_\<close> flag is there.\<close>

definition wire_basic :: "(nat \<Rightarrow> nat \<Rightarrow> bytes option) \<Rightarrow> pb_mem \<Rightarrow> pb_field \<Rightarrow> nat \<Rightarrow> bool \<Rightarrow> bytes option" where
  "wire_basic sub m f pData has =
     (let data = (if atype f = PB_ATYPE_POINTER then load_ptr m pData else pData);
          pSize = size_addr pData f;
          one = w_seq (wire_tag f) (wire_value sub m f data)
      in if htype f = PB_HTYPE_REQUIRED then (if data = 0 then None else one)
         else if htype f = PB_HTYPE_OPTIONAL
         then (if (if pf_size_offset f \<noteq> 0 then safe_read_bool m pSize
                   else if atype f = PB_ATYPE_POINTER then data \<noteq> 0 else has)
               then one else Some [])
         else if htype f = PB_HTYPE_REPEATED
         then wire_array sub m f data (if pf_size_offset f \<noteq> 0 then load_size m pSize else pf_array_size f)
         else if load_size m pSize = pf_tag f then one else Some [])"

definition wire_field :: "nat \<Rightarrow> wire_env \<Rightarrow> (nat \<Rightarrow> nat \<Rightarrow> bytes option) \<Rightarrow> pb_mem \<Rightarrow> pb_field \<Rightarrow> nat \<Rightarrow> bytes option" where
  "wire_field n env sub m f pData =
     (if atype f = PB_ATYPE_STATIC \<or> atype f = PB_ATYPE_POINTER
      then (case (if pf_size_offset f = 0 \<and> htype f = PB_HTYPE_OPTIONAL
                  then pb_check_proto3_default_value n (w_desc env) m f pData else Some False) of
              None \<Rightarrow> None
            | Some is_default \<Rightarrow> wire_basic sub m f pData (\<not> is_default))
      else if atype f = PB_ATYPE_CALLBACK
      then (if load_ptr m pData = 0 then Some [] else w_encode env (load_ptr m pData) f (pData + 8) m)
      else None)"

fun wire_extensions :: "nat \<Rightarrow> nat \<Rightarrow> wire_env \<Rightarrow> (nat \<Rightarrow> nat \<Rightarrow> bytes option) \<Rightarrow> pb_mem \<Rightarrow> nat \<Rightarrow> bytes option" where
  "wire_extensions 0 n env sub m ext = None"
| "wire_extensions (Suc k) n env sub m ext =
     (if ext = 0 then Some []
      else w_seq
        (let handler = load_ptr m (load_ptr m ext + 8); f = w_ext_field env (load_ptr m (load_ptr m ext + 16))
         in if handler \<noteq> 0 then w_ext_encode env handler ext m
            else wire_field n env sub m f (if atype f = PB_ATYPE_POINTER then ext + 8 else load_ptr m (ext + 8)))
        (wire_extensions k n env sub m (load_ptr m (ext + 16))))"

function wire_fields :: "(pb_field \<Rightarrow> nat \<Rightarrow> bytes option) \<Rightarrow> pb_field_iter \<Rightarrow> bytes option" where
  "wire_fields enc iter =
     w_seq (enc (it_field iter) (it_pData iter))
       (case pb_field_iter_next iter of (go_on, iter') \<Rightarrow> if go_on then wire_fields enc iter' else Some [])"
  by auto
termination
  by (relation "measure (\<lambda>(_, it). length (it_start it) - it_pos it)") (auto dest: iter_next_advances [OF sym])

declare wire_fields.simps [simp del]

fun wire_message :: "nat \<Rightarrow> wire_env \<Rightarrow> pb_mem \<Rightarrow> nat \<Rightarrow> nat \<Rightarrow> bytes option" where
  "wire_message 0 env m fds src = None"
| "wire_message (Suc n) env m fds src =
     (case pb_field_iter_begin (w_desc env fds) src of
        (ok, iter) \<Rightarrow>
          if \<not> ok then Some []
          else wire_fields
                 (\<lambda>f pData. if ltype f = PB_LTYPE_EXTENSION
                    then wire_extensions n n env (wire_message n env m) m (load_ptr m pData)
                    else wire_field n env (wire_message n env m) m f pData)
                 iter)"

end
