(* ===== verification/PbEncode_Correct.thy ===== *)
theory PbEncode_Correct
  imports PbWire
begin

text \<open>
  The encoder computes the size of every submessage by encoding it into a sizing stream, then encodes
  it again into a substream of that size. It implements \<open>wire_message\<close>: where that is defined, every
  pass over the message emits its bytes; where it is not, no sizing pass succeeds.
\<close>

section \<open>Emission, with fuel\<close>

definition femits :: "'s enc \<Rightarrow> bytes \<Rightarrow> bool" where
  "femits m bs \<longleftrightarrow> (\<forall>s. sizing_ok s \<or> out_ok s \<and> length bs < 2 ^ 63 \<longrightarrow> m s \<noteq> None) \<and> emits (\<lambda>s. the (m s)) bs"

text \<open>What an encoder writes: the bytes, or that it does not succeed.\<close>

definition wires :: "'s enc \<Rightarrow> bytes option \<Rightarrow> bool" where
  "wires m w \<longleftrightarrow> (case w of Some bs \<Rightarrow> femits m bs | None \<Rightarrow> (\<forall>s t. sizing_ok s \<longrightarrow> m s \<noteq> Some (Some (), t)))"

lemma wires_Some [simp]: "wires m (Some bs) = femits m bs"
  by (simp add: wires_def)

lemma wires_NoneI: "(\<And>s t. sizing_ok s \<Longrightarrow> m s \<noteq> Some (Some (), t)) \<Longrightarrow> wires m None"
  by (simp add: wires_def)

lemma wires_NoneD: "wires m None \<Longrightarrow> sizing_ok s \<Longrightarrow> m s \<noteq> Some (Some (), t)"
  by (simp add: wires_def)

lemma femits_sizing: "femits m bs \<Longrightarrow> sizing_ok s \<Longrightarrow> m s = Some (Some (), counted (length bs) s)"
  unfolding femits_def using emitsD(1) [of "\<lambda>s. the (m s)" bs s] by auto

lemma femits_fits:
  "femits m bs \<Longrightarrow> length bs < 2 ^ 63 \<Longrightarrow> out_ok s \<Longrightarrow> os_bytes_written s + length bs \<le> os_max_size s \<Longrightarrow>
     m s = Some (Some (), put_out bs s)"
  unfolding femits_def using emitsD(2) [of "\<lambda>s. the (m s)" bs s] by auto

lemma femits_full:
  "femits m bs \<Longrightarrow> length bs < 2 ^ 63 \<Longrightarrow> out_ok s \<Longrightarrow> \<not> os_bytes_written s + length bs \<le> os_max_size s \<Longrightarrow>
     \<exists>t. m s = Some (None, t) \<and> within s t"
  unfolding femits_def using emitsD(3) [of "\<lambda>s. the (m s)" bs s] by auto

lemma femitsI:
  assumes "\<And>s. sizing_ok s \<Longrightarrow> m s = Some (Some (), counted (length bs) s)"
    and "\<And>s. length bs < 2 ^ 63 \<Longrightarrow> out_ok s \<Longrightarrow> os_bytes_written s + length bs \<le> os_max_size s \<Longrightarrow>
      m s = Some (Some (), put_out bs s)"
    and "\<And>s. length bs < 2 ^ 63 \<Longrightarrow> out_ok s \<Longrightarrow> \<not> os_bytes_written s + length bs \<le> os_max_size s \<Longrightarrow>
      \<exists>t. m s = Some (None, t) \<and> within s t"
  shows "femits m bs"
  unfolding femits_def
proof (intro conjI emitsI allI impI)
  fix s
  show "m s \<noteq> None" if "sizing_ok s \<or> out_ok s \<and> length bs < 2 ^ 63"
    using that assms by (cases "os_bytes_written s + length bs \<le> os_max_size s") fastforce+
  show "the (m s) = (Some (), counted (length bs) s)" if "sizing_ok s" using assms(1) that by simp
  show "the (m s) = (Some (), put_out bs s)"
    if "length bs < 2 ^ 63" "out_ok s" "os_bytes_written s + length bs \<le> os_max_size s"
    using assms(2) [OF that] by simp
  show "\<exists>t. the (m s) = (None, t) \<and> within s t"
    if "length bs < 2 ^ 63" "out_ok s" "\<not> os_bytes_written s + length bs \<le> os_max_size s"
    using assms(3) [OF that] by auto
qed
lemma femits_op: "emits m bs \<Longrightarrow> femits (f_op m) bs"
  by (simp add: femits_def f_op_def)

lemma femits_ret: "femits f_ret []"
  by (rule femitsI) (auto simp: f_ret_def counted_def out_ok_def sizing_ok_def)

lemma femits_seq:
  assumes "femits m a" "femits n b"
  shows "femits (f_seq m n) (a @ b)"
proof (rule femitsI)
  fix s
  show "f_seq m n s = Some (Some (), counted (length (a @ b)) s)" if "sizing_ok s"
    using femits_sizing [OF assms(1) that] femits_sizing [OF assms(2), of "counted (length a) s"] that
    by (simp add: f_seq_def)
  assume s: "out_ok s" and len: "length (a @ b) < 2 ^ 63"
  then have la: "length a < 2 ^ 63" and lb: "length b < 2 ^ 63" by simp_all
  have next_step: "out_ok (put_out a s)" "m s = Some (Some (), put_out a s)"
    if "os_bytes_written s + length a \<le> os_max_size s"
    using that s out_ok_put_out [OF s that] femits_fits [OF assms(1) la s that] by simp_all
  show "f_seq m n s = Some (Some (), put_out (a @ b) s)" if "os_bytes_written s + length (a @ b) \<le> os_max_size s"
    using next_step femits_fits [OF assms(2) lb, of "put_out a s"] that by (simp add: f_seq_def)
  show "\<exists>t. f_seq m n s = Some (None, t) \<and> within s t" if full: "\<not> os_bytes_written s + length (a @ b) \<le> os_max_size s"
  proof (cases "os_bytes_written s + length a \<le> os_max_size s")
    case False
    with femits_full [OF assms(1) la s] show ?thesis by (auto simp: f_seq_def)
  next
    case True
    from femits_full [OF assms(2) lb next_step(1) [OF True]] full obtain t where
      "n (put_out a s) = Some (None, t)" "within (put_out a s) t" by auto
    with next_step(2) [OF True] within_put_out show ?thesis by (auto simp: f_seq_def)
  qed
qed
lemma wires_seq:
  assumes m: "wires m v" and n: "wires n w"
  shows "wires (f_seq m n) (w_seq v w)"
proof (cases v)
  case None
  have "f_seq m n s \<noteq> Some (Some (), t)" if "sizing_ok s" for s t
    using wires_NoneD [OF m [unfolded None] that] by (auto simp: f_seq_def split: option.splits prod.splits)
  with None show ?thesis by (simp add: wires_NoneI)
next
  case (Some a)
  show ?thesis
  proof (cases w)
    case None
    have "f_seq m n s \<noteq> Some (Some (), t)" if "sizing_ok s" for s t
      using femits_sizing [OF m [unfolded Some wires_Some] that] that wires_NoneD [OF n [unfolded None]]
      by (simp add: f_seq_def)
    with None show ?thesis by (simp add: wires_NoneI)
  qed (use assms Some femits_seq in auto)
qed

lemma wires_error: "wires (f_op (pbo_error msg)) None"
  by (auto simp: f_op_def pbo_error_def intro: wires_NoneI)

lemma wires_stuck: "wires (\<lambda>s. None) None"
  by (auto intro: wires_NoneI)

lemma wires_op: "emits m bs \<Longrightarrow> wires (f_op m) (Some bs)"
  by (simp add: femits_op)

lemma wires_ret: "wires f_ret (Some [])"
  by (simp add: femits_ret)

lemma wires_if: "(b \<Longrightarrow> wires m v) \<Longrightarrow> (\<not> b \<Longrightarrow> wires n w) \<Longrightarrow> wires (if b then m else n) (if b then v else w)"
  by simp

section \<open>Scalars\<close>

lemma wire_types_small [simp]:
  "unat PB_WT_VARINT < 8" "unat PB_WT_64BIT < 8" "unat PB_WT_STRING < 8" "unat PB_WT_32BIT < 8"
  by (simp_all add: PB_WT_VARINT_def PB_WT_64BIT_def PB_WT_STRING_def PB_WT_32BIT_def)

lemma emits_key: "unat w < 8 \<Longrightarrow> emits (pb_encode_tag w (word_of_nat tag)) (wire_key tag w)"
  using emits_tag [of w "word_of_nat tag"] by (simp add: wire_key_def unsigned_of_nat take_bit_eq_mod)

lemma wires_tag: "wires (f_op (pb_encode_tag_for_field f)) (wire_tag f)"
  unfolding pb_encode_tag_for_field_def wire_tag_def Let_def
  by (auto intro!: femits_op [OF emits_key] wires_error)

text \<open>The lengths of strings are those of objects in memory.\<close>

lemma emits_delimited: "emits (pb_encode_string buf) (delimited buf)"
proof -
  have "unat (word_of_nat (length buf) :: u64) = length buf mod size_mod"
    by (simp add: unsigned_of_nat take_bit_eq_mod size_mod_def)
  then have "emits (pb_encode_varint (word_of_nat (length buf))) (varint (length buf mod size_mod))"
    using emits_varint [of "word_of_nat (length buf)"] by simp
  then show ?thesis
    unfolding delimited_def using emits_seq emits_write by (subst emits_cong [OF pb_encode_string_seq]) blast
qed

lemma le_bytes_le_nat: "le_bytes (length bs) (le_nat bs) = bs"
proof (induction bs)
  case (Cons b bs)
  have z: "(256 :: byte) = 0" by simp
  from Cons show ?case by (simp add: le_nat_def unat_byte_lt z)
qed (simp add: le_nat_def)

lemma le_nat_bound: "le_nat bs < 256 ^ length bs"
proof (induction bs)
  case (Cons b bs)
  then have "unat b + 256 * le_nat bs < 256 * 256 ^ length bs"
    using unat_byte_lt [of b] by linarith
  then show ?case by (simp add: le_nat_def)
qed (simp add: le_nat_def)

lemma length_load [simp]: "length (load m a n) = n"
  by (simp add: load_def)

lemma le_bytes_load: "le_bytes n (load_nat m a n) = load m a n"
  using le_bytes_le_nat [of "load m a n"] by (simp add: load_nat_def)

lemma load_nat_lt: "load_nat m a n < 256 ^ n"
  using le_nat_bound [of "load m a n"] by (simp add: load_nat_def)

lemma load_size_lt: "load_size m a < 2 ^ 32"
  using load_nat_lt [of m a 4] by simp

lemma emits_fixed_load:
  "emits (pb_enc_fixed32 m src) (load m src 4)" "emits (pb_enc_fixed64 m src) (load m src 8)"
proof -
  have "unat (word_of_nat (load_nat m src 4) :: u32) = load_nat m src 4"
    "unat (word_of_nat (load_nat m src 8) :: u64) = load_nat m src 8"
    using load_nat_lt [of m src 4] load_nat_lt [of m src 8] by (simp_all add: unsigned_of_nat take_bit_nat_eq_self)
  then show "emits (pb_enc_fixed32 m src) (load m src 4)" "emits (pb_enc_fixed64 m src) (load m src 8)"
    using emits_fixed [of "word_of_nat (load_nat m src 4)"] emits_fixed(2) [of "word_of_nat (load_nat m src 8)"]
    by (simp_all add: pb_enc_fixed32_def pb_enc_fixed64_def le_bytes_load)
qed

lemma wires_bytes: "wires (f_op (pb_enc_bytes m f src)) (wire_bytes m f src)"
proof -
  have "PB_BYTES_ARRAY_T_ALLOCSIZE (load_size m src) = load_size m src + 4"
    using load_size_lt [of m src] by (simp add: PB_BYTES_ARRAY_T_ALLOCSIZE_def size_add_small size_mod_def)
  then show ?thesis
    by (auto simp: pb_enc_bytes_def wire_bytes_def Let_def intro!: femits_op [OF emits_delimited] wires_error)
qed

lemma emits_bool:
  "m src \<noteq> 0 \<Longrightarrow> emits (pb_enc_bool m src) [1]" "m src = 0 \<Longrightarrow> emits (pb_enc_bool m src) [0]"
  using emits_varint [of 1] emits_varint [of 0] by (simp_all add: pb_enc_bool_def safe_read_bool_def varint_small)

lemma wires_varints:
  "wires (f_op (pb_enc_varint m f src)) (map_option (\<lambda>v. varint (unat v)) (load_signed m src (pf_data_size f)))"
  "wires (f_op (pb_enc_uvarint m f src)) (map_option (\<lambda>v. varint (unat v)) (load_unsigned m src (pf_data_size f)))"
  "wires (f_op (pb_enc_svarint m f src)) (map_option (\<lambda>v. varint (unat (zigzag v))) (load_signed m src (pf_data_size f)))"
  unfolding pb_enc_varint_def pb_enc_uvarint_def pb_enc_svarint_def
  by (auto split: option.split intro!: wires_error femits_op [OF emits_varint] femits_op [OF emits_svarint])

section \<open>Submessages\<close>

lemma sizing_stream_ok: "sizing_ok PB_OSTREAM_SIZING"
  by (simp add: sizing_ok_def PB_OSTREAM_SIZING_def)

lemma unat_size: "unat (word_of_nat (n mod size_mod) :: u64) = n mod size_mod"
  by (simp add: unsigned_of_nat take_bit_nat_eq_self size_mod_def)

lemma size_of_sizing: "size_add (os_bytes_written PB_OSTREAM_SIZING) n = n mod size_mod"
  by (simp add: size_add_def PB_OSTREAM_SIZING_def)

text \<open>After the size: a sizing stream adds it, a buffer stream gets the real thing.\<close>

lemma femits_sized_body:
  assumes "femits m bs"
  shows "femits (\<lambda>s. if is_sizing s then Some (pb_write_sizing (length bs mod size_mod) s) else m s) bs"
proof (rule femitsI)
  fix s
  show "(if is_sizing s then Some (pb_write_sizing (length bs mod size_mod) s) else m s) =
      Some (Some (), counted (length bs) s)" if "sizing_ok s"
    using that by (simp add: sizing_ok_def is_sizing_def pb_write_sizing_def counted_def size_add_def mod_add_right_eq)
  assume s: "length bs < 2 ^ 63" "out_ok s"
  then have ns: "\<not> is_sizing s" by (simp add: out_ok_def is_sizing_def)
  show "(if is_sizing s then Some (pb_write_sizing (length bs mod size_mod) s) else m s) = Some (Some (), put_out bs s)"
    if "os_bytes_written s + length bs \<le> os_max_size s"
    using femits_fits [OF assms s that] ns by simp
  show "\<exists>t. (if is_sizing s then Some (pb_write_sizing (length bs mod size_mod) s) else m s) = Some (None, t) \<and> within s t"
    if "\<not> os_bytes_written s + length bs \<le> os_max_size s"
    using femits_full [OF assms s that] ns by simp
qed

text \<open>The second pass of a submessage, in a substream limited to the size found.\<close>

definition submessage_body :: "(nat \<Rightarrow> nat \<Rightarrow> 's enc) \<Rightarrow> nat \<Rightarrow> nat \<Rightarrow> nat \<Rightarrow> 's enc" where
  "submessage_body sub fds src sz s =
     (if size_add (os_bytes_written s) sz > os_max_size s then Some (pbo_error ''stream full'' s)
      else (case sub fds src (s\<lparr>os_max_size := sz, os_bytes_written := 0, os_errmsg := None\<rparr>) of
              None \<Rightarrow> None
            | Some (status, substream) \<Rightarrow>
                (let s = s\<lparr>os_bytes_written := size_add (os_bytes_written s) (os_bytes_written substream),
                           os_dest := os_dest substream, os_state := os_state substream,
                           os_errmsg := os_errmsg substream\<rparr>
                 in if os_bytes_written substream \<noteq> sz then Some (pbo_error ''submsg size changed'' s)
                    else Some (status, s))))"

lemma femits_submessage_body:
  assumes "femits (sub fds src) bs"
  shows "femits (\<lambda>s. if is_sizing s then Some (pb_write_sizing (length bs mod size_mod) s)
    else submessage_body sub fds src (length bs mod size_mod) s) bs"
proof (rule femitsI)
  fix s
  show "(if is_sizing s then Some (pb_write_sizing (length bs mod size_mod) s)
      else submessage_body sub fds src (length bs mod size_mod) s) = Some (Some (), counted (length bs) s)" if "sizing_ok s"
    using that by (simp add: sizing_ok_def is_sizing_def pb_write_sizing_def counted_def size_add_def mod_add_right_eq)
  assume s: "length bs < 2 ^ 63" "out_ok s"
  then have ns: "\<not> is_sizing s" and sz: "length bs mod size_mod = length bs"
    by (simp_all add: out_ok_def is_sizing_def size_mod_def)
  have add: "size_add (os_bytes_written s) (length bs) = os_bytes_written s + length bs"
    using s by (intro size_add_small) (simp add: out_ok_def size_mod_def)
  let ?sub = "s\<lparr>os_max_size := length bs, os_bytes_written := 0, os_errmsg := None\<rparr>"
  have "out_ok ?sub" using s by (simp add: out_ok_def)
  then have run: "sub fds src ?sub = Some (Some (), put_out bs ?sub)"
    using femits_fits [OF assms s(1)] by simp
  show "(if is_sizing s then Some (pb_write_sizing (length bs mod size_mod) s)
      else submessage_body sub fds src (length bs mod size_mod) s) = Some (Some (), put_out bs s)"
    if "os_bytes_written s + length bs \<le> os_max_size s"
    using that ns s by (simp add: submessage_body_def sz add run put_out_def out_ok_def)
  show "\<exists>t. (if is_sizing s then Some (pb_write_sizing (length bs mod size_mod) s)
      else submessage_body sub fds src (length bs mod size_mod) s) = Some (None, t) \<and> within s t"
    if "\<not> os_bytes_written s + length bs \<le> os_max_size s"
    using that ns s by (simp add: submessage_body_def sz add pbo_error_def within_def out_ok_def)
qed

lemma pb_encode_submessage_split:
  assumes "femits (sub fds src) bs"
  shows "pb_encode_submessage sub fds src s =
    f_seq (f_op (pb_encode_varint (word_of_nat (length bs mod size_mod))))
      (\<lambda>s. if is_sizing s then Some (pb_write_sizing (length bs mod size_mod) s)
        else submessage_body sub fds src (length bs mod size_mod) s) s"
proof -
  have e: "os_bytes_written (counted (length bs) PB_OSTREAM_SIZING) = length bs mod size_mod"
    by (simp add: size_of_sizing)
  show ?thesis
    by (simp only: pb_encode_submessage_def Let_def femits_sizing [OF assms sizing_stream_ok]
        option.case prod.case e submessage_body_def f_seq_def f_op_def)
qed

lemma femits_submessage:
  assumes "femits (sub fds src) bs"
  shows "femits (pb_encode_submessage sub fds src) (varint (length bs mod size_mod) @ bs)"
proof -
  have "femits (f_op (pb_encode_varint (word_of_nat (length bs mod size_mod)))) (varint (length bs mod size_mod))"
    using femits_op [OF emits_varint] unat_size by metis
  note femits_seq [OF this femits_submessage_body [where sub = sub and fds = fds and src = src, OF assms]]
  then show ?thesis
    using pb_encode_submessage_split [where sub = sub and fds = fds and src = src, OF assms] by presburger
qed
lemma wires_submessage:
  assumes "wires (sub fds src) w"
  shows "wires (pb_encode_submessage sub fds src) (map_option delimited w)"
proof (cases w)
  case None
  have "pb_encode_submessage sub fds src s \<noteq> Some (Some (), t)" for s t
    using wires_NoneD [OF assms [unfolded None] sizing_stream_ok]
    by (auto simp: pb_encode_submessage_def split: option.splits prod.splits)
  with None show ?thesis by (simp add: wires_NoneI)
qed (use assms femits_submessage in \<open>auto simp: delimited_def\<close>)

lemma wires_value:
  assumes "\<And>fds src. wires (sub fds src) (wsub fds src)"
  shows "wires (pb_encoder sub m f src) (wire_value wsub m f src)"
  unfolding pb_encoder_def wire_value_def Let_def
  by (intro wires_if wires_varints wires_bytes wires_error wires_stuck)
    (auto simp: pb_enc_submessage_def pb_enc_string_def wire_string_def Let_def pb_enc_fixed_length_bytes_def
      intro!: femits_op emits_bool emits_fixed_load emits_delimited wires_error wires_submessage assms)

section \<open>Arrays\<close>

lemma wires_entries:
  assumes "\<And>p. wires (each p) (weach p)"
  shows "wires (entries_loop each sz p count) (wire_entries weach sz p count)"
  by (induction count arbitrary: p) (simp_all add: wires_seq assms femits_ret)

lemma wire_entries_length:
  assumes "\<And>p. \<exists>bs. each p = Some bs \<and> length bs = k"
  shows "\<exists>bs. wire_entries each sz p count = Some bs \<and> length bs = count * k"
proof (induction count arbitrary: p)
  case (Suc count)
  obtain a b where "each p = Some a" "length a = k" "wire_entries each sz (p + sz) count = Some b" "length b = count * k"
    using assms Suc by metis
  then show ?case by simp
qed simp

text \<open>The size computed for a packed array is the one of its entries.\<close>

lemma packed_size_eq:
  assumes sub: "\<And>fds src. wires (sub fds src) (wsub fds src)"
    and w: "wire_entries (wire_value wsub m f) (pf_data_size f) p count = Some bs"
  shows "packed_size sub m f p count = Some (Some (length bs mod size_mod))"
proof -
  have fixed: "length bs = count * k" if "\<And>p. \<exists>bs. wire_value wsub m f p = Some bs \<and> length bs = k" for k
    using wire_entries_length [of "wire_value wsub m f", OF that, of "pf_data_size f" p count] w by auto
  consider (f32) "ltype f = PB_LTYPE_FIXED32" | (f64) "ltype f = PB_LTYPE_FIXED64"
    | (other) "ltype f \<noteq> PB_LTYPE_FIXED32" "ltype f \<noteq> PB_LTYPE_FIXED64" by blast
  then show ?thesis
  proof cases
    case f32
    then have "length bs = count * 4" by (intro fixed) (simp add: wire_value_def pb_types)
    with f32 show ?thesis by (simp add: packed_size_def size_mult_def mult.commute)
  next
    case f64
    then have "length bs = count * 8" by (intro fixed) (simp add: wire_value_def pb_types)
    with f64 show ?thesis by (simp add: packed_size_def size_mult_def mult.commute pb_types)
  next
    case other
    have "femits (entries_loop (pb_encoder sub m f) (pf_data_size f) p count) bs"
      using wires_entries [where each = "pb_encoder sub m f", OF wires_value [OF sub]] w by (metis wires_Some)
    from femits_sizing [OF this sizing_stream_ok] other show ?thesis
      by (simp add: packed_size_def size_of_sizing)
  qed
qed

lemma packed_size_None:
  assumes sub: "\<And>fds src. wires (sub fds src) (wsub fds src)"
    and w: "wire_entries (wire_value wsub m f) (pf_data_size f) p count = None"
  shows "packed_size sub m f p count \<noteq> Some (Some sz)"
proof -
  have fixed: False if "\<And>p. \<exists>bs. wire_value wsub m f p = Some bs \<and> length bs = k" for k
    using wire_entries_length [of "wire_value wsub m f", OF that, of "pf_data_size f" p count] w by auto
  have "ltype f \<noteq> PB_LTYPE_FIXED32" using fixed [of 4] by (auto simp: wire_value_def pb_types)
  moreover have "ltype f \<noteq> PB_LTYPE_FIXED64" using fixed [of 8] by (auto simp: wire_value_def pb_types)
  moreover have "wires (entries_loop (pb_encoder sub m f) (pf_data_size f) p count) None"
    using wires_entries [where each = "pb_encoder sub m f", OF wires_value [OF sub]] w by metis
  from wires_NoneD [OF this sizing_stream_ok]
  have "entries_loop (pb_encoder sub m f) (pf_data_size f) p count PB_OSTREAM_SIZING \<noteq> Some (Some u, t)" for u t
    by (metis old.unit.exhaust)
  ultimately show ?thesis by (auto simp: packed_size_def split: option.splits prod.splits)
qed

lemma encode_array_split:
  assumes "packed_size sub m f pData count = Some (Some sz)" "count \<noteq> 0"
    "\<not> (atype f \<noteq> PB_ATYPE_POINTER \<and> count > pf_array_size f)" "ltype f \<le> PB_LTYPE_LAST_PACKABLE"
  shows "encode_array sub m f pData count s =
    f_seq (f_op (pb_encode_tag PB_WT_STRING (word_of_nat (pf_tag f))))
      (f_seq (f_op (pb_encode_varint (word_of_nat sz)))
        (\<lambda>s. if is_sizing s then Some (pb_write_sizing sz s)
             else entries_loop (pb_encoder sub m f) (pf_data_size f) pData count s)) s"
proof (cases "pb_encode_tag PB_WT_STRING (word_of_nat (pf_tag f)) s")
  case (Pair r t)
  show ?thesis
  proof (cases r)
    case None
    with Pair assms(2,4) show ?thesis by (simp add: encode_array_def f_seq_def f_op_def if_not_P [OF assms(3)])
  next
    case (Some u)
    with Pair assms(1,2,4) show ?thesis
      by (cases "pb_encode_varint (word_of_nat sz) t"; cases "fst (pb_encode_varint (word_of_nat sz) t)")
        (simp_all add: encode_array_def f_seq_def f_op_def if_not_P [OF assms(3)])
  qed
qed
lemma packed_array:
  assumes sub: "\<And>fds src. wires (sub fds src) (wsub fds src)"
    and c: "count \<noteq> 0" "\<not> (atype f \<noteq> PB_ATYPE_POINTER \<and> count > pf_array_size f)" "ltype f \<le> PB_LTYPE_LAST_PACKABLE"
    and w: "wire_entries (wire_value wsub m f) (pf_data_size f) p count = Some bs"
  shows "femits (encode_array sub m f p count) (wire_key (pf_tag f) PB_WT_STRING @ delimited bs)"
proof -
  let ?tag = "pb_encode_tag PB_WT_STRING (word_of_nat (pf_tag f))" and ?key = "wire_key (pf_tag f) PB_WT_STRING"
  let ?loop = "entries_loop (pb_encoder sub m f) (pf_data_size f) p count" and ?sz = "length bs mod size_mod"
  have tag: "emits ?tag ?key" by (rule emits_key) simp
  note t1 = emitsD [OF tag]
  have loop: "femits ?loop bs"
    using wires_entries [where each = "pb_encoder sub m f", OF wires_value [OF sub]] w by (metis wires_Some)
  define whole where "whole = f_seq (f_op ?tag) (f_seq (f_op (pb_encode_varint (word_of_nat ?sz)))
    (\<lambda>s. if is_sizing s then Some (pb_write_sizing ?sz s) else ?loop s))"
  have "femits (f_op (pb_encode_varint (word_of_nat ?sz))) (varint ?sz)"
    using femits_op [OF emits_varint] unat_size by metis
  from femits_seq [OF femits_op [OF tag] femits_seq [OF this femits_sized_body [OF loop]]]
  have ws: "femits whole (?key @ delimited bs)" by (simp add: whole_def delimited_def)
  have eq: "encode_array sub m f p count x = whole x" for x
    using encode_array_split [OF packed_size_eq [OF sub w] c] by (simp add: whole_def)
  show ?thesis
    by (rule femitsI) (use eq femits_sizing [OF ws] femits_fits [OF ws] femits_full [OF ws] in \<open>simp_all\<close>)
qed

lemma wires_array:
  assumes sub: "\<And>fds src. wires (sub fds src) (wsub fds src)"
  shows "wires (encode_array sub m f p count) (wire_array wsub m f p count)"
proof -
  consider (empty) "count = 0" | (big) "count \<noteq> 0" "atype f \<noteq> PB_ATYPE_POINTER \<and> count > pf_array_size f"
    | (packed) "count \<noteq> 0" "\<not> (atype f \<noteq> PB_ATYPE_POINTER \<and> count > pf_array_size f)" "ltype f \<le> PB_LTYPE_LAST_PACKABLE"
    | (unpacked) "count \<noteq> 0" "\<not> (atype f \<noteq> PB_ATYPE_POINTER \<and> count > pf_array_size f)" "\<not> ltype f \<le> PB_LTYPE_LAST_PACKABLE"
    by blast
  then show ?thesis
  proof cases
    case empty
    then have "encode_array sub m f p count = f_ret" by (simp add: encode_array_def f_ret_def fun_eq_iff)
    with empty wires_ret show ?thesis by (simp add: wire_array_def)
  next
    case big
    then have "encode_array sub m f p count = f_op (pbo_error ''array max size exceeded'')"
      by (simp add: encode_array_def f_op_def fun_eq_iff)
    with big wires_error show ?thesis by (simp add: wire_array_def)
  next
    case packed
    show ?thesis
    proof (cases "wire_entries (wire_value wsub m f) (pf_data_size f) p count")
      case None
      have "encode_array sub m f p count s \<noteq> Some (Some (), t)" for s t
        using packed_size_None [OF sub None] packed(1,3)
        by (auto simp: encode_array_def if_not_P [OF packed(2)] split: option.splits prod.splits)
      moreover have "wire_array wsub m f p count = None"
        using None packed(1,3) by (simp add: wire_array_def if_not_P [OF packed(2)])
      ultimately show ?thesis by (simp add: wires_NoneI)
    next
      case (Some bs)
      with packed_array [OF sub packed Some] packed(1,3) show ?thesis
        by (simp add: wire_array_def if_not_P [OF packed(2)])
    qed
  next
    case unpacked
    let ?str = "atype f = PB_ATYPE_POINTER \<and> (ltype f = PB_LTYPE_STRING \<or> ltype f = PB_LTYPE_BYTES)"
    let ?each = "\<lambda>p. f_seq (f_op (pb_encode_tag_for_field f))
      (if ?str then pb_encoder sub m f (load_ptr m p) else pb_encoder sub m f p)"
    let ?weach = "\<lambda>p. w_seq (wire_tag f) (if ?str then wire_value wsub m f (load_ptr m p) else wire_value wsub m f p)"
    have "wires (entries_loop ?each (pf_data_size f) p count) (wire_entries ?weach (pf_data_size f) p count)"
      by (intro wires_entries wires_seq wires_tag wires_if wires_value sub)
    moreover have "encode_array sub m f p count = entries_loop ?each (pf_data_size f) p count"
      using unpacked(1,3) by (simp add: encode_array_def fun_eq_iff if_not_P [OF unpacked(2)])
    moreover have "wire_array wsub m f p count = wire_entries ?weach (pf_data_size f) p count"
      using unpacked(1,3) by (simp add: wire_array_def if_not_P [OF unpacked(2)])
    ultimately show ?thesis by simp
  qed
qed

section \<open>Fields and messages\<close>

text \<open>What is required of user code: a callback writes the same bytes on every pass, as \<open>pb_encode.h\<close>
  asks for, or it never succeeds.\<close>

definition env_writes :: "'s enc_env \<Rightarrow> wire_env \<Rightarrow> bool" where
  "env_writes env we \<longleftrightarrow> w_desc we = e_desc env \<and> w_ext_field we = e_ext_field env \<and>
     (\<forall>func f arg m. wires (f_op (e_encode env func f arg m)) (w_encode we func f arg m)) \<and>
     (\<forall>func ext m. wires (f_op (e_ext_encode env func ext m)) (w_ext_encode we func ext m))"

lemma wires_basic:
  assumes sub: "\<And>fds src. wires (sub fds src) (wsub fds src)"
    and has: "(if pf_size_offset f = 0 \<and> htype f = PB_HTYPE_OPTIONAL
      then pb_check_proto3_default_value n (e_desc env) m f pData else Some False) = Some d"
  shows "wires (encode_basic_field n env sub m f pData) (wire_basic wsub m f pData (\<not> d))"
proof -
  define data where "data = (if atype f = PB_ATYPE_POINTER then load_ptr m pData else pData)"
  have one: "wires (f_seq (f_op (pb_encode_tag_for_field f)) (pb_encoder sub m f data))
      (w_seq (wire_tag f) (wire_value wsub m f data))"
    by (intro wires_seq wires_tag wires_value sub)
  have "encode_basic_field n env sub m f pData =
    (if htype f = PB_HTYPE_REQUIRED
     then (if data = 0 then f_op (pbo_error ''missing required field'')
           else f_seq (f_op (pb_encode_tag_for_field f)) (pb_encoder sub m f data))
     else if htype f = PB_HTYPE_OPTIONAL
     then (if (if pf_size_offset f \<noteq> 0 then safe_read_bool m (size_addr pData f)
               else if atype f = PB_ATYPE_POINTER then data \<noteq> 0 else \<not> d)
           then f_seq (f_op (pb_encode_tag_for_field f)) (pb_encoder sub m f data) else f_ret)
     else if htype f = PB_HTYPE_REPEATED
     then encode_array sub m f data (if pf_size_offset f \<noteq> 0 then load_size m (size_addr pData f) else pf_array_size f)
     else if load_size m (size_addr pData f) = pf_tag f
     then f_seq (f_op (pb_encode_tag_for_field f)) (pb_encoder sub m f data) else f_ret)"
    using has unfolding encode_basic_field_def Let_def data_def [symmetric]
    by (cases "pf_size_offset f = 0 \<and> htype f = PB_HTYPE_OPTIONAL")
      (auto simp: fun_eq_iff f_op_def f_ret_def data_def split: if_splits)
  then show ?thesis
    unfolding wire_basic_def Let_def data_def [symmetric]
    by (simp only:) (intro wires_if wires_error one wires_array sub wires_ret)
qed

lemma basic_out_of_fuel:
  assumes "(if pf_size_offset f = 0 \<and> htype f = PB_HTYPE_OPTIONAL
      then pb_check_proto3_default_value n (e_desc env) m f pData else Some False) = None"
  shows "encode_basic_field n env sub m f pData = (\<lambda>s. None)"
  using assms by (simp add: encode_basic_field_def Let_def fun_eq_iff split: if_splits)

lemma wires_callback:
  assumes cb: "wires (f_op (e_encode env (load_ptr m pData) f (pData + 8) m)) w"
  shows "wires (f_op (encode_callback_field env m f pData)) (if load_ptr m pData = 0 then Some [] else w)"
proof (cases "load_ptr m pData = 0")
  case True
  then have "f_op (encode_callback_field env m f pData) = f_ret"
    by (auto simp: encode_callback_field_def f_op_def f_ret_def fun_eq_iff)
  with True wires_ret show ?thesis by simp
next
  case False
  let ?cb = "e_encode env (load_ptr m pData) f (pData + 8) m"
  have eq: "encode_callback_field env m f pData s =
      (case ?cb s of (None, s) \<Rightarrow> pbo_error ''callback error'' s | (Some _, s) \<Rightarrow> (Some (), s))" for s
    using False by (simp add: encode_callback_field_def)
  show ?thesis
  proof (cases w)
    case None
    have "f_op (encode_callback_field env m f pData) s \<noteq> Some (Some (), t)" if "sizing_ok s" for s t
      using wires_NoneD [OF cb [unfolded None] that]
      by (auto simp: f_op_def eq pbo_error_def split: option.splits prod.splits)
    with None False show ?thesis by (simp add: wires_NoneI)
  next
    case (Some bs)
    with cb have bs: "femits (f_op ?cb) bs" by simp
    have "femits (f_op (encode_callback_field env m f pData)) bs"
    proof (rule femitsI)
      fix x
      show "f_op (encode_callback_field env m f pData) x = Some (Some (), counted (length bs) x)" if "sizing_ok x"
        using femits_sizing [OF bs that] by (simp add: f_op_def eq)
      show "f_op (encode_callback_field env m f pData) x = Some (Some (), put_out bs x)"
        if "length bs < 2 ^ 63" "out_ok x" "os_bytes_written x + length bs \<le> os_max_size x"
        using femits_fits [OF bs that] by (simp add: f_op_def eq)
      show "\<exists>t. f_op (encode_callback_field env m f pData) x = Some (None, t) \<and> within x t"
        if "length bs < 2 ^ 63" "out_ok x" "\<not> os_bytes_written x + length bs \<le> os_max_size x"
        using femits_full [OF bs that] by (auto simp: f_op_def eq pbo_error_def within_def)
    qed
    with Some False show ?thesis by simp
  qed
qed

lemma wires_field:
  assumes sub: "\<And>fds src. wires (sub fds src) (wsub fds src)" and env: "env_writes env we"
  shows "wires (encode_field n env sub m f pData) (wire_field n we wsub m f pData)"
proof -
  let ?has = "if pf_size_offset f = 0 \<and> htype f = PB_HTYPE_OPTIONAL
      then pb_check_proto3_default_value n (e_desc env) m f pData else Some False"
  have basic: "wires (encode_basic_field n env sub m f pData)
      (case ?has of None \<Rightarrow> None | Some d \<Rightarrow> wire_basic wsub m f pData (\<not> d))"
  proof (cases ?has)
    case None
    with basic_out_of_fuel [OF None, of sub] wires_stuck show ?thesis by simp
  next
    case (Some d)
    with wires_basic [OF sub Some] show ?thesis by simp
  qed
  have cb: "wires (f_op (encode_callback_field env m f pData))
      (if load_ptr m pData = 0 then Some [] else w_encode we (load_ptr m pData) f (pData + 8) m)"
    using env by (intro wires_callback) (simp add: env_writes_def)
  have desc: "w_desc we = e_desc env" using env by (simp add: env_writes_def)
  show ?thesis
    unfolding encode_field_def wire_field_def desc by (intro wires_if basic cb wires_error)
qed

lemma wires_extensions:
  assumes sub: "\<And>fds src. wires (sub fds src) (wsub fds src)" and env: "env_writes env we"
  shows "wires (encode_extensions k n env sub m ext) (wire_extensions k n we wsub m ext)"
proof (induction k arbitrary: ext)
  case 0
  then show ?case by (simp add: wires_stuck)
next
  case (Suc k)
  have "wires (f_op (e_ext_encode env h ext m)) (w_ext_encode we h ext m)" for h
    using env by (simp add: env_writes_def)
  moreover have "default_extension_encoder n env sub m ext =
      (let f = w_ext_field we (load_ptr m (load_ptr m ext + 16))
       in encode_field n env sub m f (if atype f = PB_ATYPE_POINTER then ext + 8 else load_ptr m (ext + 8)))"
    using env by (simp add: default_extension_encoder_def Let_def env_writes_def)
  ultimately show ?case
    unfolding encode_extensions.simps wire_extensions.simps Let_def
    by (simp only:) (intro wires_if wires_seq wires_ret wires_field sub env Suc)
qed

lemma wires_fields:
  assumes "\<And>f p. wires (enc f p) (wenc f p)"
  shows "wires (encode_fields enc iter) (wire_fields wenc iter)"
proof (induction "length (it_start iter) - it_pos iter" arbitrary: iter rule: less_induct)
  case less
  obtain go_on iter' where nxt: "pb_field_iter_next iter = (go_on, iter')" by fastforce
  have "wires (if go_on then encode_fields enc iter' else f_ret) (if go_on then wire_fields wenc iter' else Some [])"
  proof (rule wires_if)
    assume go_on
    then have "length (it_start iter') - it_pos iter' < length (it_start iter) - it_pos iter"
      using iter_next_advances [of iter iter'] nxt by auto
    with less show "wires (encode_fields enc iter') (wire_fields wenc iter')" by simp
  qed (rule wires_ret)
  then show ?case
    by (subst encode_fields.simps, subst wire_fields.simps) (simp add: nxt wires_seq assms)
qed

theorem wires_encode: "env_writes env we \<Longrightarrow> wires (pb_encode n env m fds src) (wire_message n we m fds src)"
proof (induction n arbitrary: fds src)
  case 0
  then show ?case by (simp add: wires_stuck)
next
  case (Suc n)
  have "wires (encode_fields
     (\<lambda>field pData. if ltype field = PB_LTYPE_EXTENSION
        then encode_extension_field n env (pb_encode n env m) m pData
        else encode_field n env (pb_encode n env m) m field pData) iter)
     (wire_fields (\<lambda>f pData. if ltype f = PB_LTYPE_EXTENSION
        then wire_extensions n n we (wire_message n we m) m (load_ptr m pData)
        else wire_field n we (wire_message n we m) m f pData) iter)" for iter
    unfolding encode_extension_field_def
    by (intro wires_fields wires_if wires_field wires_extensions Suc)
  moreover have "w_desc we = e_desc env" using Suc.prems by (simp add: env_writes_def)
  ultimately show ?case by (auto split: prod.split simp: femits_ret)
qed

section \<open>Buffers\<close>

lemma buffer_stream_ok: "max_size < 2 ^ 63 \<Longrightarrow> out_ok (pb_ostream_from_buffer st max_size)"
  by (simp add: out_ok_def pb_ostream_from_buffer_def)

text \<open>Into a buffer of \<open>max_size\<close> bytes goes all of it, or the operation fails inside the buffer.\<close>

definition fills_buffer :: "('s pb_ostream \<Rightarrow> (unit option \<times> 's pb_ostream) option) \<Rightarrow> 's \<Rightarrow> nat \<Rightarrow> bytes \<Rightarrow> bool" where
  "fills_buffer m st max_size bs \<longleftrightarrow>
     (case m (pb_ostream_from_buffer st max_size) of
        None \<Rightarrow> False
      | Some (Some _, t) \<Rightarrow> length bs \<le> max_size \<and> os_dest t = bs \<and> os_bytes_written t = length bs
      | Some (None, t) \<Rightarrow> \<not> length bs \<le> max_size \<and> length (os_dest t) \<le> max_size)"

lemma femits_fills_buffer:
  assumes m: "femits m bs" and len: "length bs < 2 ^ 63" and mx: "max_size < 2 ^ 63"
  shows "fills_buffer m st max_size bs"
proof (cases "length bs \<le> max_size")
  case True
  then show ?thesis
    using femits_fits [OF m len buffer_stream_ok [OF mx]]
    by (simp add: fills_buffer_def pb_ostream_from_buffer_def put_out_def)
next
  case False
  then obtain t where "m (pb_ostream_from_buffer st max_size) = Some (None, t)"
    "within (pb_ostream_from_buffer st max_size) t"
    using femits_full [OF m len buffer_stream_ok [OF mx]] by (auto simp: pb_ostream_from_buffer_def)
  with False show ?thesis by (auto simp: fills_buffer_def within_def pb_ostream_from_buffer_def)
qed

lemma femits_zero_byte: "femits (f_op (pb_write [0])) [0]"
  by (rule femits_op) (rule emits_write)

lemma encoded_size:
  assumes "env_writes env we"
  shows "pb_get_encoded_size n env m fds src = Some (Some k) \<longleftrightarrow>
    (\<exists>bs. wire_message n we m fds src = Some bs \<and> k = length bs mod size_mod)"
proof (cases "wire_message n we m fds src")
  case None
  with wires_encode [OF assms, of n m fds src] wires_NoneD [OF _ sizing_stream_ok, of "pb_encode n env m fds src"]
  show ?thesis by (auto simp: pb_get_encoded_size_def split: option.splits prod.splits)
next
  case (Some bs)
  with wires_encode [OF assms, of n m fds src] have "femits (pb_encode n env m fds src) bs" by simp
  from femits_sizing [OF this sizing_stream_ok] Some show ?thesis
    by (auto simp: pb_get_encoded_size_def size_of_sizing)
qed

text \<open>A message with an integer, a submessage with a zigzag integer, and a string of at most 8 bytes.\<close>

definition demo_fields :: "nat \<Rightarrow> pb_field list" where
  "demo_fields a =
     (if a = 1 then
        [\<lparr>pf_tag = 1, pf_type = 0x02, pf_data_offset = 0, pf_size_offset = 0, pf_data_size = 4, pf_array_size = 0, pf_ptr = 0\<rparr>,
         \<lparr>pf_tag = 2, pf_type = 0x08, pf_data_offset = 0, pf_size_offset = 0, pf_data_size = 4, pf_array_size = 0, pf_ptr = 2\<rparr>,
         \<lparr>pf_tag = 3, pf_type = 0x17, pf_data_offset = 0, pf_size_offset = 0, pf_data_size = 8, pf_array_size = 0, pf_ptr = 0\<rparr>,
         PB_LAST_FIELD]
      else
        [\<lparr>pf_tag = 1, pf_type = 0x03, pf_data_offset = 0, pf_size_offset = 0, pf_data_size = 4, pf_array_size = 0, pf_ptr = 0\<rparr>,
         PB_LAST_FIELD])"

definition demo_mem :: pb_mem where
  "demo_mem a = (let bs = [0x96, 0, 0, 0, 0xff, 0xff, 0xff, 0xff, 0x61, 0x62, 0, 0, 0, 0, 0, 0]
     in if 64 \<le> a \<and> a < 80 then bs ! (a - 64) else 0)"

definition demo_env :: "unit enc_env" where
  "demo_env = \<lparr>e_desc = demo_fields, e_encode = (\<lambda>_ _ _ _. pbo_error ''none''), e_ext_encode = (\<lambda>_ _ _. pbo_error ''none''),
     e_ext_field = (\<lambda>_. PB_LAST_FIELD)\<rparr>"

definition demo_wire :: wire_env where
  "demo_wire = \<lparr>w_desc = demo_fields, w_encode = (\<lambda>_ _ _ _. None), w_ext_encode = (\<lambda>_ _ _. None),
     w_ext_field = (\<lambda>_. PB_LAST_FIELD)\<rparr>"

lemma demo_env_writes: "env_writes demo_env demo_wire"
  by (simp add: env_writes_def demo_env_def demo_wire_def wires_error)

section \<open>Properties\<close>

text \<open>C19: \<open>pb_encode\<close>, with its sizing passes and its limited substreams, is the plain function from
  messages to bytes: \<open>pb_get_encoded_size\<close> is the length of that byte string; into a buffer at least as
  large exactly these bytes are put, and into a smaller one the operation fails inside the buffer; the
  delimited form is framed with the varint of the size, the null-terminated one with a zero byte.\<close>

theorem encoder_refines_wire_format:
  assumes "env_writes env we" "wire_message n we m fds src = Some bs" "length bs < 2 ^ 62" "max_size < 2 ^ 63"
  shows "pb_get_encoded_size n env m fds src = Some (Some (length bs)) \<and>
    fills_buffer (pb_encode n env m fds src) st max_size bs \<and>
    fills_buffer (pb_encode_delimited n env m fds src) st max_size (varint (length bs) @ bs) \<and>
    fills_buffer (pb_encode_nullterminated n env m fds src) st max_size (bs @ [0])"
proof -
  from assms wires_encode [OF assms(1), of n m fds src] have bs: "femits (pb_encode n env m fds src) bs" by simp
  have sz: "length bs mod size_mod = length bs" using assms(3) by (simp add: size_mod_def)
  show ?thesis
  proof (intro conjI femits_fills_buffer assms(4) bs)
    show "pb_get_encoded_size n env m fds src = Some (Some (length bs))"
      using assms(2) sz by (simp add: encoded_size [OF assms(1)])
    show "length bs < 2 ^ 63" "length (varint (length bs) @ bs) < 2 ^ 63" "length (bs @ [0]) < 2 ^ 63"
      using assms(3) varint_nth_le [of "length bs"] by simp_all
    show "femits (pb_encode_delimited n env m fds src) (varint (length bs) @ bs)"
      using femits_submessage [where sub = "pb_encode n env m", OF bs] sz by (simp add: pb_encode_delimited_def [abs_def])
    show "femits (pb_encode_nullterminated n env m fds src) (bs @ [0])"
      unfolding pb_encode_nullterminated_def [abs_def] by (rule femits_seq [OF bs femits_zero_byte])
  qed
qed

theorem encoder_refines_wire_format_witness:
  "wire_message 3 demo_wire demo_mem 1 64 = Some [8, 150, 1, 18, 2, 8, 1, 26, 2, 0x61, 0x62] \<and>
   pb_get_encoded_size 3 demo_env demo_mem 1 64 = Some (Some 11) \<and>
   fills_buffer (pb_encode 3 demo_env demo_mem 1 64) () 11 [8, 150, 1, 18, 2, 8, 1, 26, 2, 0x61, 0x62]"
proof -
  have w: "wire_message 3 demo_wire demo_mem 1 64 = Some [8, 150, 1, 18, 2, 8, 1, 26, 2, 0x61, 0x62]" by code_simp
  have len: "length [8, 150, 1, 18, 2, 8, 1, 26, 2, 0x61, 0x62 :: byte] = 11" by simp
  note run = encoder_refines_wire_format [OF demo_env_writes w, of 11 "()", unfolded len]
  have "(11 :: nat) < 2 ^ 62" "(11 :: nat) < 2 ^ 63" by simp_all
  from run [OF this] w show ?thesis by blast
qed

text \<open>C20: The size computation is complete as well: it succeeds exactly on the messages that have an
  encoding.\<close>

theorem size_defined_iff_encodable:
  assumes "env_writes env we"
  shows "(\<exists>k. pb_get_encoded_size n env m fds src = Some (Some k)) \<longleftrightarrow> wire_message n we m fds src \<noteq> None"
  using encoded_size [OF assms, of n m fds src] by auto

theorem size_defined_iff_encodable_witness:
  "(\<exists>k. pb_get_encoded_size 3 demo_env demo_mem 1 64 = Some (Some k)) \<longleftrightarrow> wire_message 3 demo_wire demo_mem 1 64 \<noteq> None"
  by (rule size_defined_iff_encodable [OF demo_env_writes])

lemma le_nat_eq_0: "le_nat bs = 0 \<longleftrightarrow> list_all (\<lambda>b. b = 0) bs"
  by (induction bs) (auto simp: le_nat_def unat_eq_zero)

text \<open>C24: For an optional pointer field of a packable type without a \<open>has_\<close> flag, the proto3 default check
  looks at the first \<open>data_size\<close> bytes of the pointer, not at all of it: a pointer to a \<open>bool\<close> whose low byte
  is zero counts as unset, and the submessage that holds it as empty.\<close>

theorem default_check_reads_part_of_a_pointer:
  assumes "htype f = PB_HTYPE_OPTIONAL" "pf_size_offset f = 0" "atype f = PB_ATYPE_POINTER"
    "ltype f \<le> PB_LTYPE_LAST_PACKABLE"
  shows "pb_check_proto3_default_value (Suc n) desc m f p = Some (load_nat m p (pf_data_size f) = 0)"
  using assms
  by (simp add: check_default_body_def Let_def load_nat_def le_nat_eq_0)
    (auto simp: pb_types)

text \<open>A \<open>bool\<close> pointer to address 0x100, at address 64.\<close>

definition demo_pointer_field :: pb_field where
  "demo_pointer_field = \<lparr>pf_tag = 1, pf_type = 0x90, pf_data_offset = 0, pf_size_offset = 0, pf_data_size = 1,
     pf_array_size = 0, pf_ptr = 0\<rparr>"

theorem default_check_reads_part_of_a_pointer_witness:
  "let m = (\<lambda>a. if a = 65 then 1 else 0) in
   load_ptr m 64 = 0x100 \<and> pb_check_proto3_default_value (Suc 0) (\<lambda>_. []) m demo_pointer_field 64 = Some True"
proof -
  let ?m = "\<lambda>a. if a = 65 then 1 else 0 :: byte"
  have "htype demo_pointer_field = PB_HTYPE_OPTIONAL" "pf_size_offset demo_pointer_field = 0"
    "atype demo_pointer_field = PB_ATYPE_POINTER" "ltype demo_pointer_field \<le> PB_LTYPE_LAST_PACKABLE"
    by (simp_all add: demo_pointer_field_def pb_types)
  from default_check_reads_part_of_a_pointer [OF this, of 0 "\<lambda>_. []" ?m 64]
  have "pb_check_proto3_default_value (Suc 0) (\<lambda>_. []) ?m demo_pointer_field 64 = Some (load_nat ?m 64 1 = 0)"
    by (simp add: demo_pointer_field_def)
  moreover have "load_ptr ?m 64 = 0x100" "load_nat ?m 64 1 = 0" by code_simp+
  ultimately show ?thesis by (simp add: Let_def)
qed

end
