(* ===== verification/PbDecode.thy ===== *)
theory PbDecode
  imports PbEncode
begin

text \<open>
  Decoding of messages, \<open>pb_decode.c\<close>. The state is the input stream with the memory the message struct
  lies in; \<open>pb_realloc\<close> and \<open>pb_free\<close> are the environment's, with the allocator's own state in
  \<open>st_heap\<close>. User callbacks and extension handlers are looked up by their address. Fuel bounds the
  nesting of messages and the number of rounds of each loop; \<open>None\<close> is running out of it, or calling a
  NULL entry of \<open>PB_DECODERS\<close>.
\<close>

record 'h store =
  st_mem :: pb_mem
  st_heap :: 'h

type_synonym ('s, 'h) dst = "'s pb_istream \<times> 'h store"
type_synonym ('s, 'h) dec = "(('s, 'h) dst, unit) fop"

record ('s, 'h) dec_env =
  d_desc :: "nat \<Rightarrow> pb_field list"
  d_decode :: "nat \<Rightarrow> pb_field \<Rightarrow> nat \<Rightarrow> (('s, 'h) dst, unit) cop"  \<comment> \<open>callback, field, address of \<open>arg\<close>\<close>
  d_ext_decode :: "nat \<Rightarrow> nat \<Rightarrow> u32 \<Rightarrow> u32 \<Rightarrow> (('s, 'h) dst, unit) cop"  \<comment> \<open>handler, extension, tag, wire type\<close>
  d_realloc :: "nat \<Rightarrow> nat \<Rightarrow> 'h store \<Rightarrow> nat \<times> 'h store"
  d_free :: "nat \<Rightarrow> 'h store \<Rightarrow> 'h store"
  d_slot :: "nat \<Rightarrow> nat"  \<comment> \<open>address of \<open>fixed_count_size\<close> of the activation at that level\<close>

section \<open>Memory\<close>

definition st_write :: "nat \<Rightarrow> bytes \<Rightarrow> 'h store \<Rightarrow> 'h store" where
  "st_write a bs st =
     st\<lparr>st_mem := (\<lambda>i. if a \<le> i \<and> i < a + length bs then bs ! (i - a) else st_mem st i)\<rparr>"

abbreviation st_put :: "nat \<Rightarrow> nat \<Rightarrow> nat \<Rightarrow> 'h store \<Rightarrow> 'h store" where
  "st_put a n v \<equiv> st_write a (le_bytes n v)"

definition on_stream :: "('s, 'a) pbi \<Rightarrow> (('s, 'h) dst, 'a) cop" where
  "on_stream m = (\<lambda>(s, st). case m s of (r, s) \<Rightarrow> (r, (s, st)))"

definition d_error :: "string \<Rightarrow> (('s, 'h) dst, 'a) cop" where
  "d_error msg = on_stream (pb_error msg)"

definition d_store :: "('h store \<Rightarrow> 'h store) \<Rightarrow> (('s, 'h) dst, unit) cop" where
  "d_store f = (\<lambda>(s, st). (Some (), (s, f st)))"

definition read_to :: "nat \<Rightarrow> nat \<Rightarrow> (('s, 'h) dst, unit) cop" where
  "read_to a count =
     c_bind (on_stream (pb_read_into count)) (\<lambda>bs. d_store (st_write a bs))"

definition allocate_field :: "('s, 'h) dec_env \<Rightarrow> nat \<Rightarrow> nat \<Rightarrow> nat \<Rightarrow> (('s, 'h) dst, unit) cop" where
  "allocate_field env pData data_size array_size =
     (\<lambda>(s, st).
        if data_size = 0 \<or> array_size = 0 then d_error ''invalid size'' (s, st)
        else let check_limit = 2 ^ 32
             in if (data_size \<ge> check_limit \<or> array_size \<ge> check_limit) \<and> (size_mod - 1) div array_size < data_size
                then d_error ''size too large'' (s, st)
                else (case d_realloc env (load_ptr (st_mem st) pData) (size_mult array_size data_size) st of
                        (ptr, st) \<Rightarrow>
                          if ptr = 0 then d_error ''realloc failed'' (s, st)
                          else (Some (), (s, st_put pData 8 ptr st))))"

section \<open>Scalars, strings, bytes\<close>

definition pb_dec_bool :: "nat \<Rightarrow> (('s, 'h) dst, unit) cop" where
  "pb_dec_bool dest =
     c_bind (on_stream pb_decode_varint32) (\<lambda>v. d_store (st_write dest [if v \<noteq> 0 then 1 else 0]))"

definition sign_trunc :: "nat \<Rightarrow> 64 word \<Rightarrow> 64 word" where
  "sign_trunc n v =
     (if n = 1 then scast (ucast v :: 8 word) else if n = 2 then scast (ucast v :: 16 word)
      else if n = 4 then scast (ucast v :: 32 word) else v)"

text \<open>Storing an integer of \<open>data_size\<close> bytes, with the check that it is what was read.\<close>

definition put_signed :: "nat \<Rightarrow> nat \<Rightarrow> 64 word \<Rightarrow> (('s, 'h) dst, unit) cop" where
  "put_signed data_size dest v =
     (if data_size = 8 \<or> data_size = 4 \<or> data_size = 2 \<or> data_size = 1
      then c_seq (d_store (st_put dest data_size (unat v)))
             (if sign_trunc data_size v \<noteq> v then d_error ''integer too large'' else c_ret ())
      else d_error ''invalid data_size'')"

definition put_unsigned :: "nat \<Rightarrow> nat \<Rightarrow> u64 \<Rightarrow> (('s, 'h) dst, unit) cop" where
  "put_unsigned data_size dest v =
     (if data_size = 8 \<or> data_size = 4 \<or> data_size = 2 \<or> data_size = 1
      then c_seq (d_store (st_put dest data_size (unat v)))
             (if take_bit (8 * data_size) v \<noteq> v then d_error ''integer too large'' else c_ret ())
      else d_error ''invalid data_size'')"

definition pb_dec_varint :: "pb_field \<Rightarrow> nat \<Rightarrow> (('s, 'h) dst, unit) cop" where
  "pb_dec_varint field dest =
     c_bind (on_stream pb_decode_varint)
       (\<lambda>v. put_signed (pf_data_size field) dest (if pf_data_size field = 8 then v else scast (ucast v :: 32 word)))"

definition pb_dec_uvarint :: "pb_field \<Rightarrow> nat \<Rightarrow> (('s, 'h) dst, unit) cop" where
  "pb_dec_uvarint field dest = c_bind (on_stream pb_decode_varint) (put_unsigned (pf_data_size field) dest)"

definition pb_dec_svarint :: "pb_field \<Rightarrow> nat \<Rightarrow> (('s, 'h) dst, unit) cop" where
  "pb_dec_svarint field dest = c_bind (on_stream pb_decode_svarint) (put_signed (pf_data_size field) dest)"

definition pb_dec_fixed32 :: "nat \<Rightarrow> (('s, 'h) dst, unit) cop" where
  "pb_dec_fixed32 dest = c_bind (on_stream pb_decode_fixed32) (\<lambda>v. d_store (st_put dest 4 (unat v)))"

definition pb_dec_fixed64 :: "nat \<Rightarrow> (('s, 'h) dst, unit) cop" where
  "pb_dec_fixed64 dest = c_bind (on_stream pb_decode_fixed64) (\<lambda>v. d_store (st_put dest 8 (unat v)))"

text \<open>Where the data of a bytes or string field of \<open>alloc_size\<close> bytes goes.\<close>

definition place_for :: "('s, 'h) dec_env \<Rightarrow> string \<Rightarrow> pb_field \<Rightarrow> nat \<Rightarrow> nat \<Rightarrow> nat \<Rightarrow> (('s, 'h) dst, nat) cop" where
  "place_for env msg field dest sz alloc_size =
     (if atype field = PB_ATYPE_POINTER
      then (\<lambda>(s, st). if is_bytes_left s < sz then d_error ''end-of-stream'' (s, st)
              else c_seq (allocate_field env dest alloc_size 1) (\<lambda>(s, st). (Some (load_ptr (st_mem st) dest), (s, st))) (s, st))
      else if alloc_size > pf_data_size field then d_error msg
      else c_ret dest)"

definition pb_dec_bytes :: "('s, 'h) dec_env \<Rightarrow> pb_field \<Rightarrow> nat \<Rightarrow> (('s, 'h) dst, unit) cop" where
  "pb_dec_bytes env field dest =
     c_bind (on_stream pb_decode_varint32) (\<lambda>sz.
       let sz = unat sz; alloc_size = PB_BYTES_ARRAY_T_ALLOCSIZE sz
       in if sz > PB_SIZE_MAX then d_error ''bytes overflow''
          else if sz > alloc_size then d_error ''size too large''
          else c_bind (place_for env ''bytes overflow'' field dest sz alloc_size) (\<lambda>bdest.
                 c_seq (d_store (st_put bdest 4 sz)) (read_to (bdest + 4) sz)))"

text \<open>\<open>size + 1\<close> is computed in 32 bits. The terminator is written whether or not the read succeeded.\<close>

definition pb_dec_string :: "('s, 'h) dec_env \<Rightarrow> pb_field \<Rightarrow> nat \<Rightarrow> (('s, 'h) dst, unit) cop" where
  "pb_dec_string env field dest =
     c_bind (on_stream pb_decode_varint32) (\<lambda>sz.
       let alloc_size = unat (sz + 1); sz = unat sz
       in if alloc_size < sz then d_error ''size too large''
          else c_bind (place_for env ''string overflow'' field dest sz alloc_size) (\<lambda>dest x.
                 case read_to dest sz x of (status, (s, st)) \<Rightarrow> (status, (s, st_write (dest + sz) [0] st))))"

definition pb_dec_fixed_length_bytes :: "pb_field \<Rightarrow> nat \<Rightarrow> (('s, 'h) dst, unit) cop" where
  "pb_dec_fixed_length_bytes field dest =
     c_bind (on_stream pb_decode_varint32) (\<lambda>sz.
       if unat sz > PB_SIZE_MAX then d_error ''bytes overflow''
       else if sz = 0 then d_store (st_write dest (replicate (pf_data_size field) 0))
       else if unat sz \<noteq> pf_data_size field then d_error ''incorrect fixed length bytes size''
       else read_to dest (pf_data_size field))"

text \<open>\<open>sub init fields dest\<close> is \<open>pb_decode\<close> or \<open>pb_decode_noinit\<close> one level further down.\<close>

definition pb_dec_submessage :: "(bool \<Rightarrow> nat \<Rightarrow> nat \<Rightarrow> ('s, 'h) dec) \<Rightarrow> pb_field \<Rightarrow> nat \<Rightarrow> ('s, 'h) dec" where
  "pb_dec_submessage sub field dest =
     (\<lambda>(s, st). case pb_make_string_substream s of
        (None, s) \<Rightarrow> Some (None, (s, st))
      | (Some substream, s) \<Rightarrow>
          if pf_ptr field = 0 then Some (d_error ''invalid field descriptor'' (s, st))
          else (case sub (htype field = PB_HTYPE_REPEATED) (pf_ptr field) dest (substream, st) of
                  None \<Rightarrow> None
                | Some (status, (substream, st)) \<Rightarrow>
                    (case pb_close_string_substream substream s of
                       (None, s) \<Rightarrow> Some (None, (s, st))
                     | (Some _, s) \<Rightarrow> Some (status, (s, st)))))"

definition pb_decoder ::
    "(bool \<Rightarrow> nat \<Rightarrow> nat \<Rightarrow> ('s, 'h) dec) \<Rightarrow> ('s, 'h) dec_env \<Rightarrow> pb_field \<Rightarrow> nat \<Rightarrow> ('s, 'h) dec" where
  "pb_decoder sub env field dest =
     (let t = ltype field
      in if t = PB_LTYPE_BOOL then f_op (pb_dec_bool dest)
         else if t = PB_LTYPE_VARINT then f_op (pb_dec_varint field dest)
         else if t = PB_LTYPE_UVARINT then f_op (pb_dec_uvarint field dest)
         else if t = PB_LTYPE_SVARINT then f_op (pb_dec_svarint field dest)
         else if t = PB_LTYPE_FIXED32 then f_op (pb_dec_fixed32 dest)
         else if t = PB_LTYPE_FIXED64 then f_op (pb_dec_fixed64 dest)
         else if t = PB_LTYPE_BYTES then f_op (pb_dec_bytes env field dest)
         else if t = PB_LTYPE_STRING then f_op (pb_dec_string env field dest)
         else if t = PB_LTYPE_SUBMESSAGE then pb_dec_submessage sub field dest
         else if t = PB_LTYPE_FIXED_LENGTH_BYTES then f_op (pb_dec_fixed_length_bytes field dest)
         else (\<lambda>x. None))"

section \<open>Walking over the fields of a message\<close>

text \<open>\<open>do { each(&iter); } while (pb_field_iter_next(&iter));\<close>\<close>

function iter_fold :: "(pb_field_iter \<Rightarrow> 'h store \<Rightarrow> 'h store option) \<Rightarrow> pb_field_iter \<Rightarrow> 'h store \<Rightarrow> 'h store option" where
  "iter_fold each iter st =
     (case each iter st of
        None \<Rightarrow> None
      | Some st \<Rightarrow> (case pb_field_iter_next iter of (go_on, iter') \<Rightarrow> if go_on then iter_fold each iter' st else Some st))"
  by auto
termination
  by (relation "measure (\<lambda>(_, it, _). length (it_start it) - it_pos it)") (auto dest: iter_next_advances [OF sym])

declare iter_fold.simps [simp del]

text \<open>The fake iterator of an extension at address \<open>ext\<close>.\<close>

definition iter_from_extension :: "('s, 'h) dec_env \<Rightarrow> pb_mem \<Rightarrow> nat \<Rightarrow> pb_field_iter" where
  "iter_from_extension env m ext =
     (let fds = d_desc env (load_ptr m (load_ptr m ext + 16)); dest = load_ptr m (ext + 8);
          iter = snd (pb_field_iter_begin fds dest)
      in iter\<lparr>it_pData := (if atype (field_at fds 0) = PB_ATYPE_POINTER then ext + 8 else dest), it_pSize := ext + 24\<rparr>)"

fun extension_loop :: "nat \<Rightarrow> (nat \<Rightarrow> 'h store \<Rightarrow> 'h store option) \<Rightarrow> nat \<Rightarrow> 'h store \<Rightarrow> 'h store option" where
  "extension_loop 0 each ext st = None"
| "extension_loop (Suc k) each ext st =
     (if ext = 0 then Some st
      else case each ext st of
             None \<Rightarrow> None
           | Some st \<Rightarrow> extension_loop k each (load_ptr (st_mem st) (ext + 16)) st)"

section \<open>Default values\<close>

definition set_default_body ::
    "nat \<Rightarrow> ('s, 'h) dec_env \<Rightarrow> (pb_field_iter \<Rightarrow> 'h store \<Rightarrow> 'h store option) \<Rightarrow> pb_field_iter \<Rightarrow> 'h store \<Rightarrow> 'h store option" where
  "set_default_body n env sub iter st =
     (let field = it_field iter
      in if ltype field = PB_LTYPE_EXTENSION
         then extension_loop n
                (\<lambda>ext st. let st = st_write (ext + 24) [0] st in sub (iter_from_extension env (st_mem st) ext) st)
                (load_ptr (st_mem st) (it_pData iter)) st
         else if atype field = PB_ATYPE_STATIC
         then (let opt = (htype field = PB_HTYPE_OPTIONAL \<and> it_pSize iter \<noteq> it_pData iter);
                   counted = (htype field = PB_HTYPE_REPEATED \<or> htype field = PB_HTYPE_ONEOF);
                   st = (if opt then st_write (it_pSize iter) [0] st
                         else if counted then st_put (it_pSize iter) 4 0 st else st)
               in if \<not> opt \<and> counted then Some st
                  else if ltype field = PB_LTYPE_SUBMESSAGE
                  then (case pb_field_iter_begin (d_desc env (pf_ptr field)) (it_pData iter) of
                          (ok, it) \<Rightarrow> if ok then iter_fold sub it st else Some st)
                  else if pf_ptr field \<noteq> 0
                  then Some (st_write (it_pData iter) (load (st_mem st) (pf_ptr field) (pf_data_size field)) st)
                  else Some (st_write (it_pData iter) (replicate (pf_data_size field) 0) st))
         else if atype field = PB_ATYPE_POINTER
         then (let st = st_put (it_pData iter) 8 0 st
               in Some (if htype field = PB_HTYPE_REPEATED \<or> htype field = PB_HTYPE_ONEOF
                        then st_put (it_pSize iter) 4 0 st else st))
         else Some st)"

fun pb_field_set_to_default :: "nat \<Rightarrow> ('s, 'h) dec_env \<Rightarrow> pb_field_iter \<Rightarrow> 'h store \<Rightarrow> 'h store option" where
  "pb_field_set_to_default 0 env iter st = None"
| "pb_field_set_to_default (Suc n) env iter st = set_default_body n env (pb_field_set_to_default n env) iter st"

definition pb_message_set_to_defaults :: "nat \<Rightarrow> ('s, 'h) dec_env \<Rightarrow> nat \<Rightarrow> nat \<Rightarrow> 'h store \<Rightarrow> 'h store option" where
  "pb_message_set_to_defaults n env fds dest_struct st =
     (case pb_field_iter_begin (d_desc env fds) dest_struct of
        (ok, iter) \<Rightarrow> if \<not> ok then Some st else iter_fold (pb_field_set_to_default n env) iter st)"

section \<open>Releasing memory\<close>

text \<open>\<open>while (count--)\<close> over the items of an array of submessages or of pointers.\<close>

fun release_items :: "(nat \<Rightarrow> 'h store \<Rightarrow> 'h store option) \<Rightarrow> nat \<Rightarrow> nat \<Rightarrow> nat \<Rightarrow> 'h store \<Rightarrow> 'h store option" where
  "release_items each sz pItem 0 st = Some st"
| "release_items each sz pItem (Suc count) st =
     (case each pItem st of None \<Rightarrow> None | Some st \<Rightarrow> release_items each sz (pItem + sz) count st)"

definition release_message ::
    "('s, 'h) dec_env \<Rightarrow> (pb_field_iter \<Rightarrow> 'h store \<Rightarrow> 'h store option) \<Rightarrow> nat \<Rightarrow> nat \<Rightarrow> 'h store \<Rightarrow> 'h store option" where
  "release_message env sub fds dest_struct st =
     (if dest_struct = 0 then Some st
      else case pb_field_iter_begin (d_desc env fds) dest_struct of
             (ok, iter) \<Rightarrow> if \<not> ok then Some st else iter_fold sub iter st)"

definition release_body ::
    "nat \<Rightarrow> ('s, 'h) dec_env \<Rightarrow> (pb_field_iter \<Rightarrow> 'h store \<Rightarrow> 'h store option) \<Rightarrow> pb_field_iter \<Rightarrow> 'h store \<Rightarrow> 'h store option" where
  "release_body n env sub iter st =
     (let field = it_field iter; pData = it_pData iter; pSize = it_pSize iter
      in if htype field = PB_HTYPE_ONEOF \<and> load_size (st_mem st) pSize \<noteq> pf_tag field then Some st
         else case
           (if ltype field = PB_LTYPE_EXTENSION
            then extension_loop n (\<lambda>ext st. sub (iter_from_extension env (st_mem st) ext) st) (load_ptr (st_mem st) pData) st
            else if ltype field = PB_LTYPE_SUBMESSAGE \<and> atype field \<noteq> PB_ATYPE_CALLBACK
            then (let pItem = (if atype field = PB_ATYPE_POINTER then load_ptr (st_mem st) pData else pData);
                      count = (if htype field = PB_HTYPE_REPEATED
                               then (let count = (if atype field = PB_ATYPE_STATIC \<and> pSize = pData then pf_array_size field
                                                  else load_size (st_mem st) pSize)
                                     in if atype field = PB_ATYPE_STATIC \<and> count > pf_array_size field
                                        then pf_array_size field else count)
                               else 1)
                  in if pItem \<noteq> 0
                     then release_items (release_message env sub (pf_ptr field)) (pf_data_size field) pItem count st
                     else Some st)
            else Some st) of
             None \<Rightarrow> None
           | Some st \<Rightarrow>
               if atype field = PB_ATYPE_POINTER
               then (case
                       (if htype field = PB_HTYPE_REPEATED \<and> (ltype field = PB_LTYPE_STRING \<or> ltype field = PB_LTYPE_BYTES)
                        then release_items
                               (\<lambda>p st. Some (st_put p 8 0 (d_free env (load_ptr (st_mem st) p) st)))
                               8 (load_ptr (st_mem st) pData) (load_size (st_mem st) pSize) st
                        else Some st) of
                       None \<Rightarrow> None
                     | Some st \<Rightarrow>
                         (let st = (if htype field = PB_HTYPE_REPEATED then st_put pSize 4 0 st else st)
                          in Some (st_put pData 8 0 (d_free env (load_ptr (st_mem st) pData) st))))
               else Some st)"

fun pb_release_single_field :: "nat \<Rightarrow> ('s, 'h) dec_env \<Rightarrow> pb_field_iter \<Rightarrow> 'h store \<Rightarrow> 'h store option" where
  "pb_release_single_field 0 env iter st = None"
| "pb_release_single_field (Suc n) env iter st = release_body n env (pb_release_single_field n env) iter st"

definition pb_release :: "nat \<Rightarrow> ('s, 'h) dec_env \<Rightarrow> nat \<Rightarrow> nat \<Rightarrow> 'h store \<Rightarrow> 'h store option" where
  "pb_release n env = release_message env (pb_release_single_field n env)"

text \<open>The iterator comes back at the field of the new tag.\<close>

definition pb_release_union_field ::
    "nat \<Rightarrow> ('s, 'h) dec_env \<Rightarrow> pb_field_iter \<Rightarrow> (('s, 'h) dst, pb_field_iter) fop" where
  "pb_release_union_field n env iter =
     (\<lambda>(s, st).
        let old_tag = load_size (st_mem st) (it_pSize iter); new_tag = pf_tag (it_field iter)
        in if old_tag = 0 \<or> old_tag = new_tag then Some (Some iter, (s, st))
           else case pb_field_iter_find iter old_tag of
             (False, _) \<Rightarrow> Some (d_error ''invalid union tag'' (s, st))
           | (True, iter) \<Rightarrow>
               (case pb_release_single_field n env iter st of
                  None \<Rightarrow> None
                | Some st \<Rightarrow>
                    (case pb_field_iter_find iter new_tag of
                       (False, _) \<Rightarrow> Some (d_error ''iterator error'' (s, st))
                     | (True, iter) \<Rightarrow>
                         Some (Some iter, (s, if atype (it_field iter) = PB_ATYPE_POINTER
                                              then st_put (it_pData iter) 8 0 st else st)))))"

section \<open>One field\<close>

type_synonym ('s, 'h) sub_dec = "bool \<Rightarrow> nat \<Rightarrow> nat \<Rightarrow> ('s, 'h) dec"

definition f_store :: "('h store \<Rightarrow> 'h store option) \<Rightarrow> ('s, 'h) dec" where
  "f_store f = (\<lambda>(s, st). case f st of None \<Rightarrow> None | Some st \<Rightarrow> Some (Some (), (s, st)))"

text \<open>Setting the parent stream back when the substream is closed.\<close>

definition close_after :: "'s pb_istream \<Rightarrow> unit option \<Rightarrow> ('s, 'h) dst \<Rightarrow> unit option \<times> ('s, 'h) dst" where
  "close_after parent status = (\<lambda>(substream, st).
     case pb_close_string_substream substream parent of
       (None, s) \<Rightarrow> (None, (s, st))
     | (Some _, s) \<Rightarrow> (status, (s, st)))"

text \<open>Packed arrays of packable items, each of which reads at least one byte: the fuel of the loop is the
  length of the substream and one more.\<close>

fun static_packed_loop :: "nat \<Rightarrow> (nat \<Rightarrow> ('s, 'h) dec) \<Rightarrow> pb_field_iter \<Rightarrow> ('s, 'h) dec" where
  "static_packed_loop 0 func iter x = None"
| "static_packed_loop (Suc k) func iter x =
     (case x of (sub, st) \<Rightarrow>
     (let sz = load_size (st_mem st) (it_pSize iter)
      in if is_bytes_left sub > 0 \<and> sz < pf_array_size (it_field iter)
         then (case func (it_pData iter + pf_data_size (it_field iter) * sz) (sub, st) of
                 None \<Rightarrow> None
               | Some (None, x) \<Rightarrow> Some (None, x)
               | Some (Some _, (sub, st)) \<Rightarrow>
                   static_packed_loop k func iter
                     (sub, st_put (it_pSize iter) 4 (load_size (st_mem st) (it_pSize iter) + 1) st))
         else Some (Some (), (sub, st))))"

definition decode_static_field ::
    "nat \<Rightarrow> ('s, 'h) sub_dec \<Rightarrow> ('s, 'h) dec_env \<Rightarrow> u32 \<Rightarrow> pb_field_iter \<Rightarrow> ('s, 'h) dec" where
  "decode_static_field n sub env wire_type iter =
     (let field = it_field iter; func = pb_decoder sub env field
      in if htype field = PB_HTYPE_REQUIRED then func (it_pData iter)
         else if htype field = PB_HTYPE_OPTIONAL
         then f_seq (f_op (d_store (\<lambda>st. if it_pSize iter \<noteq> it_pData iter then st_write (it_pSize iter) [1] st else st)))
                (func (it_pData iter))
         else if htype field = PB_HTYPE_REPEATED
         then (if wire_type = PB_WT_STRING \<and> ltype field \<le> PB_LTYPE_LAST_PACKABLE
               then (\<lambda>(s, st). case pb_make_string_substream s of
                       (None, s) \<Rightarrow> Some (None, (s, st))
                     | (Some substream, s) \<Rightarrow>
                         (case static_packed_loop (is_bytes_left substream + 1) func iter (substream, st) of
                            None \<Rightarrow> None
                          | Some (status, (substream, st)) \<Rightarrow>
                              if is_bytes_left substream \<noteq> 0 then Some (d_error ''array overflow'' (overrun_of substream s, st))
                              else Some (close_after s status (substream, st))))
               else (\<lambda>(s, st).
                       let sz = load_size (st_mem st) (it_pSize iter); st = st_put (it_pSize iter) 4 (sz + 1) st
                       in if sz \<ge> pf_array_size field then Some (d_error ''array overflow'' (s, st))
                          else func (it_pData iter + pf_data_size field * sz) (s, st)))
         else f_seq
                (f_store (\<lambda>st.
                   if ltype field = PB_LTYPE_SUBMESSAGE \<and> load_size (st_mem st) (it_pSize iter) \<noteq> pf_tag field
                   then pb_message_set_to_defaults n env (pf_ptr field) (it_pData iter)
                          (st_write (it_pData iter) (replicate (pf_data_size field) 0) st)
                   else Some st))
                (f_seq (f_op (d_store (st_put (it_pSize iter) 4 (pf_tag field)))) (func (it_pData iter))))"

definition initialize_pointer_field :: "nat \<Rightarrow> ('s, 'h) dec_env \<Rightarrow> nat \<Rightarrow> pb_field_iter \<Rightarrow> 'h store \<Rightarrow> 'h store option" where
  "initialize_pointer_field n env pItem iter st =
     (let field = it_field iter
      in if ltype field = PB_LTYPE_STRING \<or> ltype field = PB_LTYPE_BYTES then Some (st_put pItem 8 0 st)
         else if ltype field = PB_LTYPE_SUBMESSAGE
         then pb_message_set_to_defaults n env (pf_ptr field) pItem
                (st_write pItem (replicate (pf_data_size field) 0) st)
         else Some st)"

text \<open>The loop of a packed array of allocated items. It ends with the status and whether the error text
  \<open>too many array entries\<close> was put on the parent stream. Dividing by a \<open>data_size\<close> of 0 is undefined.\<close>

fun pointer_packed_loop ::
    "nat \<Rightarrow> nat \<Rightarrow> ('s, 'h) dec_env \<Rightarrow> (nat \<Rightarrow> ('s, 'h) dec) \<Rightarrow> pb_field_iter \<Rightarrow> nat \<Rightarrow> ('s, 'h) dst \<Rightarrow>
     (unit option \<times> bool \<times> ('s, 'h) dst) option" where
  "pointer_packed_loop 0 n env func iter allocated_size x = None"
| "pointer_packed_loop (Suc k) n env func iter allocated_size x =
     (case x of (sub, st) \<Rightarrow>
     (let sz = load_size (st_mem st) (it_pSize iter); data_size = pf_data_size (it_field iter)
      in if is_bytes_left sub = 0 then Some (Some (), False, (sub, st))
         else if sz = PB_SIZE_MAX then Some (None, True, (sub, st))
         else if data_size = 0 then None
         else let grow = (sz + 1 > allocated_size);
                  remain = (is_bytes_left sub - 1) div data_size + 1;
                  allocated_size =
                    (if grow
                     then (if remain < size_sub PB_SIZE_MAX allocated_size then size_add allocated_size remain
                           else size_add allocated_size 1)
                     else allocated_size)
              in case (if grow then allocate_field env (it_pData iter) data_size allocated_size (sub, st)
                       else (Some (), (sub, st))) of
                   (None, x) \<Rightarrow> Some (None, False, x)
                 | (Some _, (sub, st)) \<Rightarrow>
                     (let pItem = load_ptr (st_mem st) (it_pData iter) + data_size * load_size (st_mem st) (it_pSize iter)
                      in case f_seq (f_store (initialize_pointer_field n env pItem iter)) (func pItem) (sub, st) of
                           None \<Rightarrow> None
                         | Some (None, x) \<Rightarrow> Some (None, False, x)
                         | Some (Some _, (sub, st)) \<Rightarrow>
                             pointer_packed_loop k n env func iter allocated_size
                               (sub, st_put (it_pSize iter) 4 (load_size (st_mem st) (it_pSize iter) + 1) st))))"

definition decode_pointer_field ::
    "nat \<Rightarrow> ('s, 'h) sub_dec \<Rightarrow> ('s, 'h) dec_env \<Rightarrow> u32 \<Rightarrow> pb_field_iter \<Rightarrow> ('s, 'h) dec" where
  "decode_pointer_field n sub env wire_type iter =
     (let field = it_field iter; func = pb_decoder sub env field; pData = it_pData iter; pSize = it_pSize iter
      in if htype field \<noteq> PB_HTYPE_REPEATED
         then f_seq
                (f_store (\<lambda>st.
                   if ltype field = PB_LTYPE_SUBMESSAGE \<and> load_ptr (st_mem st) pData \<noteq> 0
                   then pb_release_single_field n env iter st else Some st))
              (f_seq
                (f_op (d_store (\<lambda>st. if htype field = PB_HTYPE_ONEOF then st_put pSize 4 (pf_tag field) st else st)))
                (if ltype field = PB_LTYPE_STRING \<or> ltype field = PB_LTYPE_BYTES then func pData
                 else f_seq (f_op (allocate_field env pData (pf_data_size field) 1))
                     (f_seq (f_store (\<lambda>st. initialize_pointer_field n env (load_ptr (st_mem st) pData) iter st))
                            (\<lambda>(s, st). func (load_ptr (st_mem st) pData) (s, st)))))
         else if wire_type = PB_WT_STRING \<and> ltype field \<le> PB_LTYPE_LAST_PACKABLE
         then (\<lambda>(s, st). case pb_make_string_substream s of
                 (None, s) \<Rightarrow> Some (None, (s, st))
               | (Some substream, s) \<Rightarrow>
                   (case pointer_packed_loop (is_bytes_left substream + 1) n env func iter
                           (load_size (st_mem st) pSize) (substream, st) of
                      None \<Rightarrow> None
                    | Some (status, too_many, x) \<Rightarrow>
                        Some (close_after (if too_many then s\<lparr>is_errmsg := Some ''too many array entries''\<rparr> else s)
                                status x)))
         else (\<lambda>(s, st).
                 let sz = load_size (st_mem st) pSize
                 in if sz = PB_SIZE_MAX then Some (d_error ''too many array entries'' (s, st))
                    else f_seq (f_op (allocate_field env pData (pf_data_size field) (sz + 1)))
                           (\<lambda>(s, st).
                              let sz = load_size (st_mem st) pSize;
                                  pItem = load_ptr (st_mem st) pData + pf_data_size field * sz
                              in f_seq (f_store (\<lambda>st. initialize_pointer_field n env pItem iter (st_put pSize 4 (sz + 1) st)))
                                   (func pItem) (s, st)) (s, st)))"

text \<open>\<open>do { decode(&substream, field, arg) } while (substream.bytes_left)\<close>: nothing bounds its rounds.\<close>

fun callback_loop :: "nat \<Rightarrow> (('s, 'h) dst, unit) cop \<Rightarrow> ('s, 'h) dec" where
  "callback_loop 0 f x = None"
| "callback_loop (Suc k) f x =
     (case f x of
        (None, x) \<Rightarrow> Some (None, x)
      | (Some _, (sub, st)) \<Rightarrow>
          if is_bytes_left sub \<noteq> 0 then callback_loop k f (sub, st) else Some (Some (), (sub, st)))"

definition decode_callback_field ::
    "nat \<Rightarrow> ('s, 'h) dec_env \<Rightarrow> u32 \<Rightarrow> pb_field_iter \<Rightarrow> ('s, 'h) dec" where
  "decode_callback_field n env wire_type iter = (\<lambda>(s, st).
     let pCallback = it_pData iter; decode = load_ptr (st_mem st) pCallback;
         call = d_decode env decode (it_field iter) (pCallback + 8)
     in if pCallback = 0 \<or> decode = 0 then f_op (on_stream (pb_skip_field wire_type)) (s, st)
        else if wire_type = PB_WT_STRING
        then (case pb_make_string_substream s of
                (None, s) \<Rightarrow> Some (None, (s, st))
              | (Some substream, s) \<Rightarrow>
                  (case callback_loop n call (substream, st) of
                     None \<Rightarrow> None
                   | Some (None, (substream, st)) \<Rightarrow> Some (d_error ''callback failed'' (overrun_of substream s, st))
                   | Some (Some _, x) \<Rightarrow> Some (close_after s (Some ()) x)))
        else (case read_raw_value wire_type 10 s of
                (None, s) \<Rightarrow> Some (None, (s, st))
              | (Some buffer, s) \<Rightarrow>
                  (case call (pb_istream_from_buffer (is_state s) buffer (length buffer), st) of
                     (status, (copy, st)) \<Rightarrow> Some (status, (s\<lparr>is_overrun := is_overrun s \<or> is_overrun copy\<rparr>, st)))))"

text \<open>Releasing the old member of a oneof may move the iterator, so it is a result.\<close>

definition decode_field ::
    "nat \<Rightarrow> ('s, 'h) sub_dec \<Rightarrow> ('s, 'h) dec_env \<Rightarrow> u32 \<Rightarrow> pb_field_iter \<Rightarrow> (('s, 'h) dst, pb_field_iter) fop" where
  "decode_field n sub env wire_type iter = (\<lambda>x.
     case (if htype (it_field iter) = PB_HTYPE_ONEOF then pb_release_union_field n env iter x
           else Some (Some iter, x)) of
       None \<Rightarrow> None
     | Some (None, x) \<Rightarrow> Some (None, x)
     | Some (Some iter, x) \<Rightarrow>
         (case (if atype (it_field iter) = PB_ATYPE_STATIC then decode_static_field n sub env wire_type iter
                else if atype (it_field iter) = PB_ATYPE_POINTER then decode_pointer_field n sub env wire_type iter
                else if atype (it_field iter) = PB_ATYPE_CALLBACK then decode_callback_field n env wire_type iter
                else f_op (d_error ''invalid field type'')) x of
            None \<Rightarrow> None
          | Some (status, x) \<Rightarrow> Some (map_option (\<lambda>_. iter) status, x)))"

section \<open>Extensions\<close>

definition default_extension_decoder ::
    "nat \<Rightarrow> ('s, 'h) sub_dec \<Rightarrow> ('s, 'h) dec_env \<Rightarrow> nat \<Rightarrow> u32 \<Rightarrow> u32 \<Rightarrow> ('s, 'h) dec" where
  "default_extension_decoder n sub env extension tag wire_type = (\<lambda>(s, st).
     let field = field_at (d_desc env (load_ptr (st_mem st) (load_ptr (st_mem st) extension + 16))) 0
     in if pf_tag field \<noteq> unat tag then f_ret (s, st)
        else let iter = iter_from_extension env (st_mem st) extension
             in case decode_field n sub env wire_type iter (s, st_write (extension + 24) [1] st) of
                  None \<Rightarrow> None
                | Some (status, x) \<Rightarrow> Some (map_option (\<lambda>_. ()) status, x))"

fun decode_extension_loop ::
    "nat \<Rightarrow> (nat \<Rightarrow> ('s, 'h) dec) \<Rightarrow> nat \<Rightarrow> nat \<Rightarrow> ('s, 'h) dec" where
  "decode_extension_loop 0 handle pos extension x = None"
| "decode_extension_loop (Suc k) handle pos extension x =
     (case x of (s, st) \<Rightarrow>
     (if extension \<noteq> 0 \<and> pos = is_bytes_left s
      then (case handle extension (s, st) of
              None \<Rightarrow> None
            | Some (None, x) \<Rightarrow> Some (None, x)
            | Some (Some _, (s, st)) \<Rightarrow>
                decode_extension_loop k handle pos (load_ptr (st_mem st) (extension + 16)) (s, st))
      else f_ret (s, st)))"

definition decode_extension ::
    "nat \<Rightarrow> ('s, 'h) sub_dec \<Rightarrow> ('s, 'h) dec_env \<Rightarrow> u32 \<Rightarrow> u32 \<Rightarrow> pb_field_iter \<Rightarrow> ('s, 'h) dec" where
  "decode_extension n sub env tag wire_type iter = (\<lambda>(s, st).
     decode_extension_loop n
       (\<lambda>extension (s, st).
          let decode = load_ptr (st_mem st) (load_ptr (st_mem st) extension)
          in if decode \<noteq> 0 then f_op (d_ext_decode env decode extension tag wire_type) (s, st)
             else default_extension_decoder n sub env extension tag wire_type (s, st))
       (is_bytes_left s) (load_ptr (st_mem st) (it_pData iter)) (s, st))"

fun find_extension_loop :: "nat \<Rightarrow> nat \<Rightarrow> pb_field_iter \<Rightarrow> bool \<times> pb_field_iter" where
  "find_extension_loop 0 start iter = (False, iter)"
| "find_extension_loop (Suc k) start iter =
     (if ltype (it_field iter) = PB_LTYPE_EXTENSION then (True, iter)
      else let iter = snd (pb_field_iter_next iter)
           in if it_pos iter \<noteq> start then find_extension_loop k start iter else (False, iter))"

definition find_extension_field :: "pb_field_iter \<Rightarrow> bool \<times> pb_field_iter" where
  "find_extension_field iter = find_extension_loop (length (it_start iter) + 1) (it_pos iter) iter"

section \<open>Messages\<close>

definition PB_MAX_REQUIRED_FIELDS :: nat where "PB_MAX_REQUIRED_FIELDS = 64"

text \<open>The local variables of \<open>pb_decode_noinit\<close>. \<open>fixed_count_field\<close> is kept as an index,
  \<open>fixed_count_size\<close> lies in memory, because the iterator is made to point to it.\<close>

record noinit =
  ni_iter :: pb_field_iter
  ni_fields_seen :: "u32 list"
  ni_extension_range_start :: u32
  ni_fixed_count_field :: "nat option"

datatype ('s, 'h) round =
    Stop "('s, 'h) dst"                \<comment> \<open>\<open>break\<close>\<close>
  | Fail "('s, 'h) dst"                \<comment> \<open>\<open>return false\<close>\<close>
  | Go_on noinit "('s, 'h) dst"

definition skip_unknown :: "noinit \<Rightarrow> u32 \<Rightarrow> ('s, 'h) dst \<Rightarrow> ('s, 'h) round" where
  "skip_unknown l wire_type x =
     (case on_stream (pb_skip_field wire_type) x of (None, x) \<Rightarrow> Fail x | (Some _, x) \<Rightarrow> Go_on l x)"

definition unknown_field ::
    "nat \<Rightarrow> ('s, 'h) sub_dec \<Rightarrow> ('s, 'h) dec_env \<Rightarrow> u32 \<Rightarrow> u32 \<Rightarrow> noinit \<Rightarrow> ('s, 'h) dst \<Rightarrow> ('s, 'h) round option" where
  "unknown_field n sub env tag wire_type l = (\<lambda>(s, st).
     if tag \<ge> ni_extension_range_start l
     then (case find_extension_field (ni_iter l) of
             (found, iter) \<Rightarrow>
               (let l = l\<lparr>ni_iter := iter,
                          ni_extension_range_start := (if found then word_of_nat (pf_tag (it_field iter)) else - 1)\<rparr>
                in if tag \<ge> ni_extension_range_start l
                   then (case decode_extension n sub env tag wire_type iter (s, st) of
                           None \<Rightarrow> None
                         | Some (None, x) \<Rightarrow> Some (Fail x)
                         | Some (Some _, (s', st)) \<Rightarrow>
                             Some (if is_bytes_left s \<noteq> is_bytes_left s' then Go_on l (s', st)
                                   else skip_unknown l wire_type (s', st)))
                   else Some (skip_unknown l wire_type (s, st))))
     else Some (skip_unknown l wire_type (s, st)))"

text \<open>The size of the last fixed count field is wrong.\<close>

definition wrong_fixed_count :: "nat \<Rightarrow> noinit \<Rightarrow> 'h store \<Rightarrow> bool" where
  "wrong_fixed_count slot l st =
     (case ni_fixed_count_field l of
        None \<Rightarrow> False
      | Some i \<Rightarrow> load_size (st_mem st) slot \<noteq> pf_array_size (field_at (it_start (ni_iter l)) i))"

definition fixed_count :: "nat \<Rightarrow> noinit \<Rightarrow> (('s, 'h) dst, noinit) cop" where
  "fixed_count slot l = (\<lambda>(s, st).
     let iter = ni_iter l
     in if htype (it_field iter) = PB_HTYPE_REPEATED \<and> it_pSize iter = it_pData iter
        then (if ni_fixed_count_field l \<noteq> Some (it_pos iter)
              then (if wrong_fixed_count slot l st then d_error ''wrong size for fixed count field'' (s, st)
                    else (Some (l\<lparr>ni_fixed_count_field := Some (it_pos iter), ni_iter := iter\<lparr>it_pSize := slot\<rparr>\<rparr>),
                          (s, st_put slot 4 0 st)))
              else (Some (l\<lparr>ni_iter := iter\<lparr>it_pSize := slot\<rparr>\<rparr>), (s, st)))
        else (Some l, (s, st)))"

definition mark_seen :: "noinit \<Rightarrow> noinit" where
  "mark_seen l =
     (let i = it_required_field_index (ni_iter l)
      in if htype (it_field (ni_iter l)) = PB_HTYPE_REQUIRED \<and> i < PB_MAX_REQUIRED_FIELDS
         then l\<lparr>ni_fields_seen := (ni_fields_seen l)[i div 32 := ni_fields_seen l ! (i div 32) OR push_bit (i mod 32) 1]\<rparr>
         else l)"

definition known_field ::
    "nat \<Rightarrow> ('s, 'h) sub_dec \<Rightarrow> ('s, 'h) dec_env \<Rightarrow> u32 \<Rightarrow> noinit \<Rightarrow> ('s, 'h) dst \<Rightarrow> ('s, 'h) round option" where
  "known_field n sub env wire_type l x =
     (case fixed_count (d_slot env n) l x of
        (None, x) \<Rightarrow> Some (Fail x)
      | (Some l, x) \<Rightarrow>
          (let l = mark_seen l
           in case decode_field n sub env wire_type (ni_iter l) x of
                None \<Rightarrow> None
              | Some (None, x) \<Rightarrow> Some (Fail x)
              | Some (Some iter, x) \<Rightarrow> Some (Go_on (l\<lparr>ni_iter := iter\<rparr>) x)))"

definition noinit_round ::
    "nat \<Rightarrow> ('s, 'h) sub_dec \<Rightarrow> ('s, 'h) dec_env \<Rightarrow> noinit \<Rightarrow> ('s, 'h) dst \<Rightarrow> ('s, 'h) round option" where
  "noinit_round n sub env l = (\<lambda>(s, st).
     case pb_decode_tag s of
       (None, eof, s) \<Rightarrow> Some (if eof then Stop (s, st) else Fail (s, st))
     | (Some (wire_type, tag), _, s) \<Rightarrow>
         (case pb_field_iter_find (ni_iter l) (unat tag) of
            (found, iter) \<Rightarrow>
              if found then known_field n sub env wire_type (l\<lparr>ni_iter := iter\<rparr>) (s, st)
              else unknown_field n sub env tag wire_type (l\<lparr>ni_iter := iter\<rparr>) (s, st)))"

text \<open>Each round reads at least the byte of a tag: the fuel is the number of bytes and one more.\<close>

fun noinit_loop ::
    "nat \<Rightarrow> (noinit \<Rightarrow> ('s, 'h) dst \<Rightarrow> ('s, 'h) round option) \<Rightarrow> noinit \<Rightarrow> (('s, 'h) dst, noinit) fop" where
  "noinit_loop 0 step l x = None"
| "noinit_loop (Suc k) step l x =
     (case x of (s, st) \<Rightarrow>
     (if is_bytes_left s = 0 then Some (Some l, (s, st))
      else case step l (s, st) of
             None \<Rightarrow> None
           | Some (Stop x) \<Rightarrow> Some (Some l, x)
           | Some (Fail x) \<Rightarrow> Some (None, x)
           | Some (Go_on l x) \<Rightarrow> noinit_loop k step l x))"

text \<open>Seeking to the end of the fields: \<open>req_field_count\<close>, \<open>last_type\<close> and the iterator.\<close>

function seek_end :: "pb_field_iter \<Rightarrow> nat \<times> byte \<times> pb_field_iter" where
  "seek_end iter =
     (case pb_field_iter_next iter of
        (go_on, iter') \<Rightarrow>
          if go_on then seek_end iter' else (it_required_field_index iter, pf_type (it_field iter), iter'))"
  by auto
termination
  by (relation "measure (\<lambda>it. length (it_start it) - it_pos it)") (auto dest: iter_next_advances [OF sym])

declare seek_end.simps [simp del]

definition req_field_count :: "pb_field_iter \<Rightarrow> nat" where
  "req_field_count iter =
     (case seek_end iter of
        (req, last_type, iter) \<Rightarrow>
          min PB_MAX_REQUIRED_FIELDS
            (if PB_HTYPE last_type = PB_HTYPE_REQUIRED \<and> pf_tag (it_field iter) \<noteq> 0 then req + 1 else req))"

definition all_seen :: "nat \<Rightarrow> u32 list \<Rightarrow> bool" where
  "all_seen req seen \<longleftrightarrow>
     list_all (\<lambda>w. w = - 1) (take (req div 32) seen) \<and>
     (req mod 32 \<noteq> 0 \<longrightarrow> seen ! (req div 32) = drop_bit (32 - req mod 32) (- 1))"

definition noinit_body :: "nat \<Rightarrow> ('s, 'h) sub_dec \<Rightarrow> ('s, 'h) dec_env \<Rightarrow> nat \<Rightarrow> nat \<Rightarrow> ('s, 'h) dec" where
  "noinit_body n sub env fds dest_struct = (\<lambda>(s, st).
     let l = \<lparr>ni_iter = snd (pb_field_iter_begin (d_desc env fds) dest_struct), ni_fields_seen = [0, 0],
              ni_extension_range_start = 0, ni_fixed_count_field = None\<rparr>
     in case noinit_loop (is_bytes_left s + 1) (noinit_round n sub env) l (s, st_put (d_slot env n) 4 0 st) of
          None \<Rightarrow> None
        | Some (None, x) \<Rightarrow> Some (None, x)
        | Some (Some l, (s, st)) \<Rightarrow>
            Some (if wrong_fixed_count (d_slot env n) l st then d_error ''wrong size for fixed count field'' (s, st)
                  else if \<not> all_seen (req_field_count (ni_iter l)) (ni_fields_seen l)
                  then d_error ''missing required field'' (s, st)
                  else (Some (), (s, st))))"

definition decode_init :: "nat \<Rightarrow> (nat \<Rightarrow> nat \<Rightarrow> ('s, 'h) dec) \<Rightarrow> ('s, 'h) dec_env \<Rightarrow> nat \<Rightarrow> nat \<Rightarrow> ('s, 'h) dec" where
  "decode_init n noinit env fds dest_struct = (\<lambda>(s, st).
     case pb_message_set_to_defaults n env fds dest_struct st of
       None \<Rightarrow> None
     | Some st \<Rightarrow>
         (case noinit fds dest_struct (s, st) of
            None \<Rightarrow> None
          | Some (Some _, x) \<Rightarrow> Some (Some (), x)
          | Some (None, (s, st)) \<Rightarrow> map_option (\<lambda>st. (None, (s, st))) (pb_release n env fds dest_struct st)))"

fun pb_decode_noinit :: "nat \<Rightarrow> ('s, 'h) dec_env \<Rightarrow> nat \<Rightarrow> nat \<Rightarrow> ('s, 'h) dec" where
  "pb_decode_noinit 0 env fds dest_struct = (\<lambda>x. None)"
| "pb_decode_noinit (Suc n) env fds dest_struct =
     noinit_body n
       (\<lambda>init. if init then decode_init n (pb_decode_noinit n env) env else pb_decode_noinit n env) env fds dest_struct"

definition pb_decode :: "nat \<Rightarrow> ('s, 'h) dec_env \<Rightarrow> nat \<Rightarrow> nat \<Rightarrow> ('s, 'h) dec" where
  "pb_decode n env = decode_init n (pb_decode_noinit n env) env"

definition decode_delimited :: "('s, 'h) dec \<Rightarrow> ('s, 'h) dec" where
  "decode_delimited decode = (\<lambda>(s, st).
     case pb_make_string_substream s of
       (None, s) \<Rightarrow> Some (None, (s, st))
     | (Some substream, s) \<Rightarrow>
         (case decode (substream, st) of None \<Rightarrow> None | Some (status, x) \<Rightarrow> Some (close_after s status x)))"

definition pb_decode_delimited_noinit :: "nat \<Rightarrow> ('s, 'h) dec_env \<Rightarrow> nat \<Rightarrow> nat \<Rightarrow> ('s, 'h) dec" where
  "pb_decode_delimited_noinit n env fds dest_struct = decode_delimited (pb_decode_noinit n env fds dest_struct)"

definition pb_decode_delimited :: "nat \<Rightarrow> ('s, 'h) dec_env \<Rightarrow> nat \<Rightarrow> nat \<Rightarrow> ('s, 'h) dec" where
  "pb_decode_delimited n env fds dest_struct = decode_delimited (pb_decode n env fds dest_struct)"

definition pb_decode_nullterminated :: "nat \<Rightarrow> ('s, 'h) dec_env \<Rightarrow> nat \<Rightarrow> nat \<Rightarrow> ('s, 'h) dec" where
  "pb_decode_nullterminated n env = pb_decode n env"

end
