(* ===== verification/PbDecode_Correct.thy ===== *)
theory PbDecode_Correct
  imports PbDecode PbStream_Correct
begin

text \<open>
  Decoding messages of static fields from a buffer: whatever the bytes are, the decoder returns, stays
  inside the buffer and writes only inside the struct it decodes into.
\<close>

section \<open>Staying inside the buffer\<close>

text \<open>After a failure inside a packed array the parent has given up the bytes of the substream without
  having moved, so that the condition is weaker than \<open>fwd\<close>.\<close>

definition inside :: "'s pb_istream \<Rightarrow> 's pb_istream \<Rightarrow> bool" where
  "inside s t \<longleftrightarrow> is_callback t = None \<and> \<not> is_overrun t \<and>
     (\<exists>n. n + is_bytes_left t \<le> is_bytes_left s \<and> is_source t = drop n (is_source s))"

lemma insideI:
  "is_callback t = None \<Longrightarrow> \<not> is_overrun t \<Longrightarrow> n + is_bytes_left t \<le> is_bytes_left s \<Longrightarrow> is_source t = drop n (is_source s) \<Longrightarrow> inside s t"
  by (auto simp: inside_def)

lemma fwd_inside: "fwd s t \<Longrightarrow> buf_ok s \<Longrightarrow> inside s t"
  by (auto simp: fwd_def inside_def intro!: exI)

lemma inside_refl: "buf_ok s \<Longrightarrow> inside s s"
  by (auto simp: inside_def buf_ok_def intro!: exI [of _ 0])

lemma inside_buf_ok: "inside s t \<Longrightarrow> buf_ok s \<Longrightarrow> buf_ok t"
  by (auto simp: inside_def buf_ok_def)

lemma inside_trans:
  assumes "inside a b" "inside b c"
  shows "inside a c"
proof -
  from assms obtain n m where n: "n + is_bytes_left b \<le> is_bytes_left a" "is_source b = drop n (is_source a)"
    and m: "m + is_bytes_left c \<le> is_bytes_left b" "is_source c = drop m (is_source b)" "is_callback c = None" "\<not> is_overrun c"
    by (auto simp: inside_def)
  show ?thesis
    by (rule insideI [of _ "m + n"]) (use n m in simp_all)
qed

lemma inside_le: "inside s t \<Longrightarrow> is_bytes_left t \<le> is_bytes_left s"
  by (auto simp: inside_def)

lemma inside_error: "pb_error m s = (r, t) \<Longrightarrow> buf_ok s \<Longrightarrow> inside s t"
  by (intro fwd_inside fwd_errorD)

section \<open>Writing inside a set of addresses\<close>

definition frame :: "nat set \<Rightarrow> 'h store \<Rightarrow> 'h store \<Rightarrow> bool" where
  "frame W st st' \<longleftrightarrow> (\<forall>a. a \<notin> W \<longrightarrow> st_mem st' a = st_mem st a)"

lemma frame_refl [simp, intro]: "frame W st st"
  by (simp add: frame_def)

lemma frame_trans: "frame W a b \<Longrightarrow> frame W b c \<Longrightarrow> frame W a c"
  by (simp add: frame_def)

lemma frame_mono: "frame V a b \<Longrightarrow> V \<subseteq> W \<Longrightarrow> frame W a b"
  by (auto simp: frame_def)

lemma frame_write: "{a..<a + length bs} \<subseteq> W \<Longrightarrow> frame W st (st_write a bs st)"
  by (auto simp: frame_def st_write_def)

definition safe :: "nat set \<Rightarrow> (('s, 'h) dst, 'a) fop \<Rightarrow> bool" where
  "safe W m \<longleftrightarrow> (\<forall>s st. buf_ok s \<longrightarrow>
     (\<exists>r t st'. m (s, st) = Some (r, (t, st')) \<and> inside s t \<and> frame W st st'))"

definition c_safe :: "nat set \<Rightarrow> (('s, 'h) dst, 'a) cop \<Rightarrow> bool" where
  "c_safe W m \<longleftrightarrow> (\<forall>s st r t st'. buf_ok s \<longrightarrow> m (s, st) = (r, (t, st')) \<longrightarrow> inside s t \<and> frame W st st')"

lemma safeI:
  "(\<And>s st. buf_ok s \<Longrightarrow> \<exists>r t st'. m (s, st) = Some (r, (t, st')) \<and> inside s t \<and> frame W st st') \<Longrightarrow> safe W m"
  by (simp add: safe_def)

lemma safeE:
  assumes "safe W m" "buf_ok s"
  obtains r t st' where "m (s, st) = Some (r, (t, st'))" "inside s t" "frame W st st'" "buf_ok t"
proof -
  from assms obtain r t st' where "m (s, st) = Some (r, (t, st'))" "inside s t" "frame W st st'"
    unfolding safe_def by blast
  with that inside_buf_ok assms(2) show ?thesis by blast
qed

lemma c_safeI:
  "(\<And>s st r t st'. buf_ok s \<Longrightarrow> m (s, st) = (r, (t, st')) \<Longrightarrow> inside s t \<and> frame W st st') \<Longrightarrow> c_safe W m"
  by (simp add: c_safe_def)

lemma c_safeD: "c_safe W m \<Longrightarrow> buf_ok s \<Longrightarrow> m (s, st) = (r, (t, st')) \<Longrightarrow> inside s t \<and> frame W st st'"
  by (simp add: c_safe_def)

lemma safe_op: "c_safe W m \<Longrightarrow> safe W (f_op m)"
  unfolding safe_def c_safe_def f_op_def by (metis prod.collapse)

lemma safe_mono: "safe V m \<Longrightarrow> V \<subseteq> W \<Longrightarrow> safe W m"
  unfolding safe_def using frame_mono by blast

lemma c_safe_stream: "(\<And>s r t. m s = (r, t) \<Longrightarrow> fwd s t) \<Longrightarrow> c_safe W (on_stream m)"
  by (rule c_safeI) (auto simp: on_stream_def split: prod.splits intro: fwd_inside)

lemma c_safe_error: "c_safe W (d_error msg)"
  unfolding d_error_def by (rule c_safe_stream) (rule fwd_errorD)

lemma c_safe_store: "(\<And>st. frame W st (f st)) \<Longrightarrow> c_safe W (d_store f)"
  by (rule c_safeI) (auto simp: d_store_def intro: inside_refl)

lemma c_safe_ret: "c_safe W (c_ret x)"
  by (rule c_safeI) (auto intro: inside_refl)

lemma c_safe_bind:
  assumes m: "c_safe W m" and f: "\<And>x. c_safe W (f x)"
  shows "c_safe W (c_bind m f)"
proof (rule c_safeI)
  fix s st r t st'
  assume s: "buf_ok s" and run: "c_bind m f (s, st) = (r, (t, st'))"
  obtain r1 s1 st1 where m1: "m (s, st) = (r1, (s1, st1))" by (metis prod.collapse)
  from c_safeD [OF m s m1] have i: "inside s s1" "frame W st st1" by simp_all
  show "inside s t \<and> frame W st st'"
  proof (cases r1)
    case None
    with run m1 i show ?thesis by (simp add: c_bind_def)
  next
    case (Some x)
    with run m1 have "f x (s1, st1) = (r, (t, st'))" by (simp add: c_bind_def)
    from c_safeD [OF f inside_buf_ok [OF i(1) s] this] i show ?thesis
      using inside_trans frame_trans by blast
  qed
qed

lemma c_safe_seq: "c_safe W m \<Longrightarrow> c_safe W n \<Longrightarrow> c_safe W (c_seq m n)"
  unfolding c_seq_def by (rule c_safe_bind)

lemma c_safe_if: "(b \<Longrightarrow> c_safe W m) \<Longrightarrow> (\<not> b \<Longrightarrow> c_safe W n) \<Longrightarrow> c_safe W (if b then m else n)"
  by simp

lemma safe_seq:
  fixes m :: "(('s, 'h) dst, 'a) fop" and n :: "(('s, 'h) dst, 'b) fop"
  assumes m: "safe W m" and n: "safe W n"
  shows "safe W (f_seq m n)"
proof (rule safeI)
  fix s :: "'s pb_istream" and st :: "'h store"
  assume s: "buf_ok s"
  obtain r1 s1 st1 where m1: "m (s, st) = Some (r1, (s1, st1))" "inside s s1" "frame W st st1" "buf_ok s1"
    using safeE [OF m s] by metis
  show "\<exists>r t st'. f_seq m n (s, st) = Some (r, (t, st')) \<and> inside s t \<and> frame W st st'"
  proof (cases r1)
    case None
    with m1 show ?thesis by (auto simp: f_seq_def)
  next
    case (Some x)
    obtain r t st' where "n (s1, st1) = Some (r, (t, st'))" "inside s1 t" "frame W st1 st'"
      using safeE [OF n m1(4)] by metis
    with m1 Some inside_trans frame_trans show ?thesis by (auto simp: f_seq_def) blast
  qed
qed

lemma safe_if: "(b \<Longrightarrow> safe W m) \<Longrightarrow> (\<not> b \<Longrightarrow> safe W n) \<Longrightarrow> safe W (if b then m else n)"
  by simp

lemma safe_ret: "safe W f_ret"
  by (rule safeI) (auto simp: f_ret_def intro: inside_refl)

lemmas safe_intros = safe_seq safe_if safe_ret safe_op
lemmas c_safe_intros = c_safe_bind c_safe_seq c_safe_if c_safe_ret c_safe_error

section \<open>Single values\<close>

lemma c_safe_read_to:
  assumes "{a..<a + count} \<subseteq> W"
  shows "c_safe W (read_to a count)"
proof (rule c_safeI)
  fix s :: "'s pb_istream" and st :: "'h store" and r t st'
  assume s: "buf_ok s" and run: "read_to a count (s, st) = (r, (t, st'))"
  show "inside s t \<and> frame W st st'"
  proof (cases "count \<le> is_bytes_left s")
    case True
    then have "t = adv count s" "st' = st_write a (take count (avail s)) st"
      using run s by (simp_all add: read_to_def c_bind_def on_stream_def pb_read_into_buf d_store_def)
    moreover have W: "{a..<a + length (take count (avail s))} \<subseteq> W" using True assms s by simp
    ultimately show ?thesis using frame_write [OF W] fwd_inside [OF fwd_adv [OF True] s] by simp
  next
    case False
    then have "t = snd (pb_error ''end-of-stream'' s :: bytes option \<times> _)" "st' = st"
      using run s by (auto simp: read_to_def c_bind_def on_stream_def pb_read_into_buf pb_error_def)
    with s show ?thesis by (auto intro: inside_error simp: pb_error_def)
  qed
qed

lemma c_safe_put: "{a..<a + n} \<subseteq> W \<Longrightarrow> c_safe W (d_store (st_put a n v))"
  by (rule c_safe_store) (rule frame_write, simp)

lemma c_safe_put_signed: "{a..<a + n} \<subseteq> W \<Longrightarrow> c_safe W (put_signed n a v)"
  unfolding put_signed_def by (intro c_safe_intros c_safe_put)

lemma c_safe_put_unsigned: "{a..<a + n} \<subseteq> W \<Longrightarrow> c_safe W (put_unsigned n a v)"
  unfolding put_unsigned_def by (intro c_safe_intros c_safe_put)

lemmas c_safe_wire = c_safe_stream [OF fwd_varint32] c_safe_stream [OF fwd_varint] c_safe_stream [OF fwd_svarint]
  c_safe_stream [OF fwd_fixed32] c_safe_stream [OF fwd_fixed64]

lemma c_safe_scalars:
  assumes "{a..<a + pf_data_size f} \<subseteq> W"
  shows "0 < pf_data_size f \<Longrightarrow> c_safe W (pb_dec_bool a)" "c_safe W (pb_dec_varint f a)" "c_safe W (pb_dec_uvarint f a)"
    "c_safe W (pb_dec_svarint f a)" "4 \<le> pf_data_size f \<Longrightarrow> c_safe W (pb_dec_fixed32 a)"
    "8 \<le> pf_data_size f \<Longrightarrow> c_safe W (pb_dec_fixed64 a)"
  unfolding pb_dec_bool_def pb_dec_varint_def pb_dec_uvarint_def pb_dec_svarint_def pb_dec_fixed32_def pb_dec_fixed64_def
  by (intro c_safe_bind c_safe_wire c_safe_put_signed c_safe_put_unsigned assms c_safe_put
      c_safe_store [where f = "st_write a _"] frame_write; use assms in force)+

lemma static_not_pointer: "atype f = PB_ATYPE_STATIC \<Longrightarrow> atype f \<noteq> PB_ATYPE_POINTER"
  by (auto simp: PB_ATYPE_STATIC_def PB_ATYPE_POINTER_def)

lemma c_safe_bytes:
  assumes W: "{a..<a + pf_data_size f} \<subseteq> W" and static: "atype f = PB_ATYPE_STATIC"
  shows "c_safe W (pb_dec_bytes env f a)"
proof -
  have small: "PB_BYTES_ARRAY_T_ALLOCSIZE (unat sz) = unat sz + 4" for sz :: u32
    using unat_u32_lt [of sz] by (simp add: PB_BYTES_ARRAY_T_ALLOCSIZE_def size_add_small size_mod_def)
  have body: "c_safe W (c_bind (place_for env ''bytes overflow'' f a n (n + 4))
      (\<lambda>bdest. c_seq (d_store (st_put bdest 4 n)) (read_to (bdest + 4) n)))" for n
  proof (cases "n + 4 > pf_data_size f")
    case True
    then show ?thesis
      using c_safe_error static_not_pointer [OF static]
      by (simp add: place_for_def) (rule c_safeI, auto simp: c_bind_def d_error_def on_stream_def pb_error_def
          intro: inside_refl inside_error)
  next
    case False
    have "c_safe W (c_seq (d_store (st_put a 4 n)) (read_to (a + 4) n))"
      using False W by (intro c_safe_seq c_safe_put c_safe_read_to) auto
    with False static_not_pointer [OF static] show ?thesis
      by (simp add: place_for_def c_bind_def c_ret_def)
  qed
  show ?thesis
    unfolding pb_dec_bytes_def Let_def small by (intro c_safe_intros c_safe_wire body)
qed

lemma c_safe_string:
  assumes W: "{a..<a + pf_data_size f} \<subseteq> W" and static: "atype f = PB_ATYPE_STATIC"
  shows "c_safe W (pb_dec_string env f a)"
proof -
  have body: "c_safe W (c_bind (place_for env ''string overflow'' f a n m)
      (\<lambda>dest x. case read_to dest n x of (status, (s, st)) \<Rightarrow> (status, (s, st_write (dest + n) [0] st))))"
    if "m = n + 1" for n m
  proof (cases "m > pf_data_size f")
    case True
    then show ?thesis
      using static_not_pointer [OF static]
      by (simp add: place_for_def) (rule c_safeI, auto simp: c_bind_def d_error_def on_stream_def pb_error_def
          intro: inside_refl inside_error)
  next
    case False
    have r: "c_safe W (read_to a n)" using False W that by (intro c_safe_read_to) auto
    have w: "frame W st (st_write (a + n) [0] st)" for st :: "'h store"
      using False W that by (intro frame_write) auto
    have "c_safe W (\<lambda>x. case read_to a n x of (status, (s, st)) \<Rightarrow> (status, (s, st_write (a + n) [0] st)))"
    proof (rule c_safeI)
      fix s :: "'s pb_istream" and st :: "'h store" and res t st'
      assume s: "buf_ok s" and run: "(case read_to a n (s, st) of (status, (s, st)) \<Rightarrow>
        (status, (s, st_write (a + n) [0] st))) = (res, (t, st'))"
      obtain r1 s1 st1 where r1: "read_to a n (s, st) = (r1, (s1, st1))" by (metis prod.collapse)
      with run c_safeD [OF r s r1] frame_trans [OF _ w] show "inside s t \<and> frame W st st'" by auto
    qed
    with False static_not_pointer [OF static] show ?thesis
      by (simp add: place_for_def c_bind_def c_ret_def)
  qed
  have next_size: "unat (sz + 1) = unat sz + 1" if "\<not> unat (sz + 1) < unat sz" for sz :: u32
  proof (cases "unat sz + 1 < 2 ^ 32")
    case False
    then have full: "unat sz + 1 = 2 ^ 32" using unat_u32_lt [of sz] by linarith
    then have "unat (sz + 1) = 0" by (simp add: unat_word_ariths(1))
    with that full show ?thesis by simp
  qed (simp add: unat_word_ariths(1))
  show ?thesis
    unfolding pb_dec_string_def Let_def by (intro c_safe_intros c_safe_wire body next_size)
qed

lemma c_safe_fixed_length:
  assumes W: "{a..<a + pf_data_size f} \<subseteq> W"
  shows "c_safe W (pb_dec_fixed_length_bytes f a)"
  unfolding pb_dec_fixed_length_bytes_def Let_def
  by (intro c_safe_intros c_safe_wire c_safe_read_to W c_safe_store frame_write) (simp_all add: W)

section \<open>Substreams\<close>

text \<open>A value that was read was at least a byte long.\<close>

lemma fwd_le: "fwd s t \<Longrightarrow> buf_ok s \<Longrightarrow> is_bytes_left t \<le> is_bytes_left s"
  by (rule inside_le) (rule fwd_inside)

lemma varint32_eof_less:
  assumes "buf_ok s" "pb_decode_varint32_eof s = (Some x, e, t)"
  shows "is_bytes_left t < is_bytes_left s"
proof -
  obtain r1 s1 where rb: "pb_readbyte s = (r1, s1)" by fastforce
  with assms(2) obtain b where b: "pb_readbyte s = (Some b, s1)"
    by (cases r1) (auto simp: pb_decode_varint32_eof_def)
  from pb_readbyte_less [OF b] have "is_bytes_left s1 < is_bytes_left s" .
  moreover have "buf_ok s1" by (rule fwd_buf_ok [OF fwd_readbyteD [OF b] assms(1)])
  then have "is_bytes_left t \<le> is_bytes_left s1"
    using assms(2) b fwd_le [OF fwd_varint32_loop]
    by (auto simp: pb_decode_varint32_eof_def split: if_splits prod.splits)
  ultimately show ?thesis by simp
qed

lemma varint32_less: "buf_ok s \<Longrightarrow> pb_decode_varint32 s = (Some x, t) \<Longrightarrow> is_bytes_left t < is_bytes_left s"
  by (auto simp: pb_decode_varint32_def split: prod.splits dest: varint32_eof_less)

lemma tag_less: "buf_ok s \<Longrightarrow> pb_decode_tag s = (Some x, e, t) \<Longrightarrow> is_bytes_left t < is_bytes_left s"
  by (auto simp: pb_decode_tag_def split: prod.splits option.splits if_splits dest: varint32_eof_less)

lemma varint_less:
  assumes "buf_ok s" "pb_decode_varint s = (Some x, t)"
  shows "is_bytes_left t < is_bytes_left s"
proof -
  obtain r1 s1 where rb: "pb_readbyte s = (r1, s1)" by fastforce
  with assms(2) obtain b where b: "pb_readbyte s = (Some b, s1)"
    by (cases r1) (auto simp: pb_decode_varint_def varint_loop.simps [of 0 0])
  from pb_readbyte_less [OF b] have "is_bytes_left s1 < is_bytes_left s" .
  moreover have "buf_ok s1" by (rule fwd_buf_ok [OF fwd_readbyteD [OF b] assms(1)])
  then have "is_bytes_left t \<le> is_bytes_left s1"
    using assms(2) b fwd_le [OF fwd_varint_loop]
    by (auto simp: pb_decode_varint_def varint_loop.simps [of 0 0] Let_def split: if_splits)
  ultimately show ?thesis by simp
qed

lemma read_into_less:
  "buf_ok s \<Longrightarrow> 0 < n \<Longrightarrow> pb_read_into n s = (Some x, t) \<Longrightarrow> is_bytes_left t < is_bytes_left s"
  by (auto simp: pb_read_into_buf pb_error_def split: if_splits)

lemma make_substream:
  assumes "buf_ok s" "pb_make_string_substream s = (r, s1)"
  shows "inside s s1" "r = Some sub \<Longrightarrow> buf_ok sub \<and> is_bytes_left s1 < is_bytes_left s"
proof -
  obtain r0 s0 where v: "pb_decode_varint32 s = (r0, s0)" by fastforce
  have i: "inside s s0" by (rule fwd_inside [OF fwd_varint32 [OF v] assms(1)])
  have ok: "buf_ok s0" by (rule inside_buf_ok [OF i assms(1)])
  have less: "r0 = Some x \<Longrightarrow> is_bytes_left s0 < is_bytes_left s" for x
    using varint32_less [OF assms(1)] v by simp
  have shrink: "k \<le> is_bytes_left s0 \<Longrightarrow> inside s0 (s0\<lparr>is_bytes_left := is_bytes_left s0 - k\<rparr>)" for k
    using ok by (intro insideI [of _ 0]) (simp_all add: buf_ok_def)
  show "inside s s1"
    using assms(2) v i inside_trans [OF i shrink] inside_trans [OF i inside_error [OF _ ok]]
    by (auto simp: pb_make_string_substream_def split: option.splits if_splits)
  show "buf_ok sub \<and> is_bytes_left s1 < is_bytes_left s" if "r = Some sub"
    using assms(2) v ok less that
    by (auto simp: pb_make_string_substream_def buf_ok_def pb_error_def split: option.splits if_splits)
qed

lemma close_substream:
  assumes s: "buf_ok s" and mk: "pb_make_string_substream s = (Some sub, s1)" and t: "inside sub t"
  shows "\<exists>s2. close_after s1 status (t, st) = (status, (s2, st)) \<and> inside s s2 \<and> is_bytes_left s2 < is_bytes_left s"
proof -
  obtain r0 s0 where v: "pb_decode_varint32 s = (r0, s0)" by fastforce
  with mk obtain sz where r0: "r0 = Some sz" and sz: "unat sz \<le> is_bytes_left s0"
    and sub: "sub = s0\<lparr>is_bytes_left := unat sz\<rparr>" and s1: "s1 = s0\<lparr>is_bytes_left := is_bytes_left s0 - unat sz\<rparr>"
    by (auto simp: pb_make_string_substream_def pb_error_def split: option.splits if_splits)
  have i: "inside s s0" by (rule fwd_inside [OF fwd_varint32 [OF v] s])
  have ok0: "buf_ok s0" by (rule inside_buf_ok [OF i s])
  have "buf_ok sub" using make_substream(2) [OF s mk] by simp
  then have okt: "buf_ok t" by (rule inside_buf_ok [OF t])
  from t sub obtain n where n: "n + is_bytes_left t \<le> unat sz" "is_source t = drop n (is_source s0)"
    by (auto simp: inside_def)
  define s2 where "s2 = (overrun_of t s1)
    \<lparr>is_source := is_source (adv (is_bytes_left t) t), is_state := is_state t, is_errmsg := is_errmsg t\<rparr>"
  have close: "close_after s1 status (t, st) = (status, (s2, st))"
    using okt by (auto simp: close_after_def pb_close_string_substream_def pb_read_null_buf s2_def adv_def overrun_of_def)
  have "inside s0 s2"
    by (rule insideI [of _ "is_bytes_left t + n"])
      (use n sz s1 ok0 okt in \<open>simp_all add: s2_def adv_def buf_ok_def overrun_of_def add.commute\<close>)
  moreover have "is_bytes_left s2 \<le> is_bytes_left s0" by (simp add: s2_def s1 overrun_of_def)
  moreover have "is_bytes_left s0 < is_bytes_left s" using varint32_less [OF s] v r0 by simp
  ultimately show ?thesis using close inside_trans [OF i] by (intro exI [of _ s2]) simp
qed

text \<open>An operation on a substream, and a value that reads at least one byte when it succeeds.\<close>

definition on_substream :: "('s, 'h) dec \<Rightarrow> ('s, 'h) dec" where
  "on_substream m = (\<lambda>(s, st). case pb_make_string_substream s of
     (None, s) \<Rightarrow> Some (None, (s, st))
   | (Some sub, s) \<Rightarrow> (case m (sub, st) of None \<Rightarrow> None | Some (status, x) \<Rightarrow> Some (close_after s status x)))"

lemma safe_substream:
  fixes m :: "('s, 'h) dec"
  assumes "safe W m"
  shows "safe W (on_substream m)"
proof (rule safeI)
  fix s :: "'s pb_istream" and st :: "'h store"
  assume s: "buf_ok s"
  obtain r s1 where mk: "pb_make_string_substream s = (r, s1)" by fastforce
  show "\<exists>r t st'. on_substream m (s, st) = Some (r, (t, st')) \<and> inside s t \<and> frame W st st'"
  proof (cases r)
    case None
    with mk make_substream(1) [OF s mk] show ?thesis by (auto simp: on_substream_def)
  next
    case (Some sub)
    with mk have mk: "pb_make_string_substream s = (Some sub, s1)" by simp
    from make_substream(2) [OF s mk] have "buf_ok sub" by simp
    from safeE [OF assms this] obtain status t st' where
      run: "m (sub, st) = Some (status, (t, st'))" "inside sub t" "frame W st st'" by metis
    from close_substream [OF s mk run(2)] obtain s2 where
      "close_after s1 status (t, st') = (status, (s2, st'))" "inside s s2" by blast
    with mk run show ?thesis by (auto simp: on_substream_def)
  qed
qed

definition reads_some :: "(('s, 'h) dst, 'a) cop \<Rightarrow> bool" where
  "reads_some m \<longleftrightarrow> (\<forall>s st x t st'. buf_ok s \<longrightarrow> m (s, st) = (Some x, (t, st')) \<longrightarrow> is_bytes_left t < is_bytes_left s)"

lemma reads_someD: "reads_some m \<Longrightarrow> buf_ok s \<Longrightarrow> m (s, st) = (Some x, (t, st')) \<Longrightarrow> is_bytes_left t < is_bytes_left s"
  unfolding reads_some_def by blast

lemma reads_some_bind:
  assumes m: "\<And>s x t. buf_ok s \<Longrightarrow> m s = (Some x, t) \<Longrightarrow> is_bytes_left t < is_bytes_left s"
    and f: "\<And>x. c_safe UNIV (f x)" and fwd: "\<And>s r t. m s = (r, t) \<Longrightarrow> fwd s t"
  shows "reads_some (c_bind (on_stream m) f)"
  unfolding reads_some_def
proof (intro allI impI)
  fix s st x t st'
  assume s: "buf_ok s" and run: "c_bind (on_stream m) f (s, st) = (Some x, (t, st'))"
  obtain r1 s1 where m1: "m s = (r1, s1)" by fastforce
  with run obtain y where y: "m s = (Some y, s1)" "f y (s1, st) = (Some x, (t, st'))"
    by (cases r1) (auto simp: c_bind_def on_stream_def)
  from c_safeD [OF f fwd_buf_ok [OF fwd [OF y(1)] s] y(2)] have "inside s1 t" by simp
  with m [OF s y(1)] inside_le show "is_bytes_left t < is_bytes_left s" by fastforce
qed

lemma svarint_less: "buf_ok s \<Longrightarrow> pb_decode_svarint s = (Some x, t) \<Longrightarrow> is_bytes_left t < is_bytes_left s"
  by (auto simp: pb_decode_svarint_def split: prod.splits option.splits dest: varint_less)

lemma fixed_less:
  "buf_ok s \<Longrightarrow> pb_decode_fixed32 s = (Some x, t) \<Longrightarrow> is_bytes_left t < is_bytes_left s"
  "buf_ok s \<Longrightarrow> pb_decode_fixed64 s = (Some y, u) \<Longrightarrow> is_bytes_left u < is_bytes_left s"
  by (auto simp: pb_decode_fixed32_def pb_decode_fixed64_def split: prod.splits option.splits
      dest: read_into_less [of s 4] read_into_less [of s 8])

lemma reads_some_scalars:
  "reads_some (pb_dec_bool a)" "reads_some (pb_dec_varint f a)" "reads_some (pb_dec_uvarint f a)"
  "reads_some (pb_dec_svarint f a)" "reads_some (pb_dec_fixed32 a)" "reads_some (pb_dec_fixed64 a)"
  unfolding pb_dec_bool_def pb_dec_varint_def pb_dec_uvarint_def pb_dec_svarint_def pb_dec_fixed32_def pb_dec_fixed64_def
  by (rule reads_some_bind; (rule fwd_varint32 fwd_varint fwd_svarint fwd_fixed32 fwd_fixed64
        varint32_less varint_less svarint_less fixed_less c_safe_store c_safe_put_signed c_safe_put_unsigned; assumption?)?;
      auto simp: frame_def)+

section \<open>Schemas of static fields\<close>

text \<open>A field whose decoder keeps to its \<open>data_size\<close> bytes: \<open>ssize\<close> is the size of the struct of a message type.\<close>

definition value_fits :: "(nat \<Rightarrow> nat) \<Rightarrow> pb_field \<Rightarrow> bool" where
  "value_fits ssize f \<longleftrightarrow> atype f = PB_ATYPE_STATIC \<and>
     (ltype f = PB_LTYPE_BOOL \<and> 0 < pf_data_size f \<or>
      ltype f \<in> {PB_LTYPE_VARINT, PB_LTYPE_UVARINT, PB_LTYPE_SVARINT} \<or>
      ltype f = PB_LTYPE_FIXED32 \<and> 4 \<le> pf_data_size f \<or>
      ltype f = PB_LTYPE_FIXED64 \<and> 8 \<le> pf_data_size f \<or>
      ltype f \<in> {PB_LTYPE_BYTES, PB_LTYPE_STRING, PB_LTYPE_FIXED_LENGTH_BYTES} \<or>
      ltype f = PB_LTYPE_SUBMESSAGE \<and> pf_ptr f \<noteq> 0 \<and> ssize (pf_ptr f) \<le> pf_data_size f)"

lemma pb_dec_submessage_eq:
  "pf_ptr f \<noteq> 0 \<Longrightarrow> pb_dec_submessage sub f a = on_substream (sub (htype f = PB_HTYPE_REPEATED) (pf_ptr f) a)"
  by (auto simp: pb_dec_submessage_def on_substream_def close_after_def fun_eq_iff split: option.splits prod.splits)

lemma safe_decoder:
  assumes fits: "value_fits ssize f" and W: "{a..<a + pf_data_size f} \<subseteq> W"
    and sub: "\<And>init. ltype f = PB_LTYPE_SUBMESSAGE \<Longrightarrow> safe W (sub init (pf_ptr f) a)"
  shows "safe W (pb_decoder sub env f a)"
proof -
  from fits have static: "atype f = PB_ATYPE_STATIC" by (simp add: value_fits_def)
  show ?thesis
    using fits unfolding value_fits_def pb_decoder_def Let_def
    by (elim conjE disjE)
      (auto simp: pb_dec_submessage_eq PB_LTYPE_BOOL_def PB_LTYPE_VARINT_def PB_LTYPE_UVARINT_def PB_LTYPE_SVARINT_def
        PB_LTYPE_FIXED32_def PB_LTYPE_FIXED64_def PB_LTYPE_BYTES_def PB_LTYPE_STRING_def PB_LTYPE_SUBMESSAGE_def
        PB_LTYPE_FIXED_LENGTH_BYTES_def
        intro!: safe_op c_safe_scalars [OF W] c_safe_bytes [OF W static] c_safe_string [OF W static]
          c_safe_fixed_length [OF W] safe_substream sub)
qed

lemma packable_reads_some:
  assumes "value_fits ssize f" "ltype f \<le> PB_LTYPE_LAST_PACKABLE"
  obtains m where "pb_decoder sub env f a = f_op m" "reads_some m"
proof -
  have "\<exists>m. pb_decoder sub env f a = f_op m \<and> reads_some m"
    using assms
    by (auto intro!: exI conjI [OF refl] reads_some_scalars simp: value_fits_def pb_decoder_def Let_def PB_LTYPE_BOOL_def PB_LTYPE_VARINT_def PB_LTYPE_UVARINT_def
        PB_LTYPE_SVARINT_def PB_LTYPE_FIXED32_def PB_LTYPE_FIXED64_def PB_LTYPE_BYTES_def PB_LTYPE_STRING_def
        PB_LTYPE_SUBMESSAGE_def PB_LTYPE_FIXED_LENGTH_BYTES_def PB_LTYPE_LAST_PACKABLE_def)
  with that show ?thesis by blast
qed

text \<open>The positions an iterator takes in a message at \<open>dest\<close>.\<close>

inductive it_reach :: "pb_field list \<Rightarrow> nat \<Rightarrow> pb_field_iter \<Rightarrow> bool" for fds dest where
  first: "it_reach fds dest (snd (pb_field_iter_begin fds dest))"
| step: "it_reach fds dest it \<Longrightarrow> it_reach fds dest (snd (pb_field_iter_next it))"

definition item_count :: "pb_field \<Rightarrow> nat" where
  "item_count f = (if htype f = PB_HTYPE_REPEATED then pf_array_size f else 1)"

text \<open>The data and the counter of the field an iterator stands at lie in \<open>W\<close>.\<close>

definition it_fits :: "nat set \<Rightarrow> (nat \<Rightarrow> nat) \<Rightarrow> pb_field_iter \<Rightarrow> bool" where
  "it_fits W ssize it \<longleftrightarrow> (let f = it_field it in
     value_fits ssize f \<and> {it_pData it..<it_pData it + pf_data_size f * item_count f} \<subseteq> W \<and>
     (htype f = PB_HTYPE_OPTIONAL \<longrightarrow> it_pSize it = it_pData it \<or> it_pSize it \<in> W) \<and>
     (htype f = PB_HTYPE_REPEATED \<or> htype f = PB_HTYPE_ONEOF \<longrightarrow> {it_pSize it..<it_pSize it + 4} \<subseteq> W))"

text \<open>A set \<open>T\<close> of message types, none empty, whose fields are static and lie in their structs, and whose
  submessages are of types of \<open>T\<close> of smaller rank.\<close>

definition schema_ok :: "(nat \<Rightarrow> pb_field list) \<Rightarrow> nat set \<Rightarrow> (nat \<Rightarrow> nat) \<Rightarrow> (nat \<Rightarrow> nat) \<Rightarrow> bool" where
  "schema_ok desc T ssize rank \<longleftrightarrow> (\<forall>a\<in>T. pf_tag (field_at (desc a) 0) \<noteq> 0 \<and>
     (\<forall>dest it. it_reach (desc a) dest it \<longrightarrow>
        it_fits {dest..<dest + ssize a} ssize it \<and>
        (ltype (it_field it) = PB_LTYPE_SUBMESSAGE \<longrightarrow>
           pf_ptr (it_field it) \<in> T \<and> rank (pf_ptr (it_field it)) < rank a)))"

lemma it_fits_mono: "it_fits V ssize it \<Longrightarrow> V \<subseteq> W \<Longrightarrow> it_fits W ssize it"
  unfolding it_fits_def Let_def by blast

lemma it_reach_start: "it_reach fds dest it \<Longrightarrow> it_start it = fds \<and> it_dest_struct it = dest"
  by (induction rule: it_reach.induct)
    (auto simp: pb_field_iter_begin_def pb_field_iter_next_def Let_def)

lemma it_reach_tag:
  assumes "pf_tag (field_at fds 0) \<noteq> 0" "it_reach fds dest it"
  shows "pf_tag (it_field it) \<noteq> 0"
  using assms(2)
proof induction
  case first
  with assms(1) show ?case by (simp add: pb_field_iter_begin_def Let_def)
next
  case (step it)
  from it_reach_start [OF step(1)] step(2) assms(1) show ?case
    by (auto simp: pb_field_iter_next_def pb_field_iter_begin_def Let_def)
qed

section \<open>Default values and release\<close>

definition s_safe :: "nat set \<Rightarrow> ('h store \<Rightarrow> 'h store option) \<Rightarrow> bool" where
  "s_safe W f \<longleftrightarrow> (\<forall>st. \<exists>st'. f st = Some st' \<and> frame W st st')"

lemma s_safeI: "(\<And>st. \<exists>st'. f st = Some st' \<and> frame W st st') \<Longrightarrow> s_safe W f"
  by (simp add: s_safe_def)

lemma s_safeD: "s_safe W f \<Longrightarrow> \<exists>st'. f st = Some st' \<and> frame W st st'"
  by (simp add: s_safe_def)

lemma safe_store:
  fixes f :: "'h store \<Rightarrow> 'h store option"
  assumes "s_safe W f"
  shows "safe W (f_store f)"
proof (rule safeI)
  fix s :: "'s pb_istream" and st :: "'h store"
  assume "buf_ok s"
  with assms s_safeD [of W f st] inside_refl [of s] show "\<exists>r t st'. f_store f (s, st) = Some (r, (t, st')) \<and> inside s t \<and> frame W st st'"
    by (auto simp: f_store_def)
qed

lemma iter_fold_safe:
  assumes each: "\<And>it. it_reach fds dest it \<Longrightarrow> s_safe W (each it)" and it: "it_reach fds dest it"
  shows "s_safe W (iter_fold each it)"
  using it
proof (induction "length (it_start it) - it_pos it" arbitrary: it rule: less_induct)
  case less
  show ?case
  proof (rule s_safeI)
    fix st
    from s_safeD [OF each [OF less.prems]] obtain st1 where st1: "each it st = Some st1" "frame W st st1" by blast
    obtain go_on it' where nxt: "pb_field_iter_next it = (go_on, it')" by fastforce
    show "\<exists>st'. iter_fold each it st = Some st' \<and> frame W st st'"
    proof (cases go_on)
      case True
      then have "length (it_start it') - it_pos it' < length (it_start it) - it_pos it"
        using iter_next_advances [of it it'] nxt by auto
      moreover have "it_reach fds dest it'" using it_reach.step [OF less.prems] nxt by simp
      ultimately have "s_safe W (iter_fold each it')" by (rule less.hyps)
      from s_safeD [OF this, of st1] obtain st2 where "iter_fold each it' st1 = Some st2" "frame W st1 st2" by blast
      with True nxt st1 show ?thesis by (subst iter_fold.simps) (auto intro: frame_trans)
    next
      case False
      with nxt st1 show ?thesis by (subst iter_fold.simps) simp
    qed
  qed
qed

text \<open>\<open>each\<close> and what it does to the struct of a submessage.\<close>

definition over_message ::
    "('s, 'h) dec_env \<Rightarrow> (pb_field_iter \<Rightarrow> 'h store \<Rightarrow> 'h store option) \<Rightarrow> nat \<Rightarrow> nat \<Rightarrow> 'h store \<Rightarrow> 'h store option" where
  "over_message env each a dest st =
     (case pb_field_iter_begin (d_desc env a) dest of (ok, it) \<Rightarrow> if ok then iter_fold each it st else Some st)"

lemma over_message_safe:
  assumes "\<And>it. it_reach (d_desc env a) dest it \<Longrightarrow> s_safe W (each it)"
  shows "s_safe W (over_message env each a dest)"
proof (rule s_safeI)
  fix st
  obtain ok it where b: "pb_field_iter_begin (d_desc env a) dest = (ok, it)" by fastforce
  then have r: "it_reach (d_desc env a) dest it" using it_reach.first by (metis snd_conv)
  have "s_safe W (iter_fold each it)" by (rule iter_fold_safe [OF _ r]) (rule assms)
  from s_safeD [OF this, of st] b
  show "\<exists>st'. over_message env each a dest st = Some st' \<and> frame W st st'"
    by (auto simp: over_message_def)
qed

lemma set_defaults_eq: "pb_message_set_to_defaults n env a dest = over_message env (pb_field_set_to_default n env) a dest"
  by (auto simp: pb_message_set_to_defaults_def over_message_def fun_eq_iff split: prod.split)

lemma release_message_eq:
  "release_message env each a dest st = (if dest = 0 then Some st else over_message env each a dest st)"
  by (auto simp: release_message_def over_message_def split: prod.split)

lemma static_kinds:
  assumes "value_fits ssize f"
  shows "ltype f \<noteq> PB_LTYPE_EXTENSION" "atype f \<noteq> PB_ATYPE_POINTER" "atype f \<noteq> PB_ATYPE_CALLBACK" "atype f = PB_ATYPE_STATIC"
proof -
  have "x \<noteq> PB_LTYPE_EXTENSION" if "x \<in> {PB_LTYPE_BOOL, PB_LTYPE_VARINT, PB_LTYPE_UVARINT, PB_LTYPE_SVARINT,
    PB_LTYPE_FIXED32, PB_LTYPE_FIXED64, PB_LTYPE_BYTES, PB_LTYPE_STRING, PB_LTYPE_FIXED_LENGTH_BYTES, PB_LTYPE_SUBMESSAGE}" for x
    using that by (auto simp: PB_LTYPE_BOOL_def PB_LTYPE_VARINT_def PB_LTYPE_UVARINT_def PB_LTYPE_SVARINT_def
        PB_LTYPE_FIXED32_def PB_LTYPE_FIXED64_def PB_LTYPE_BYTES_def PB_LTYPE_STRING_def PB_LTYPE_SUBMESSAGE_def
        PB_LTYPE_FIXED_LENGTH_BYTES_def PB_LTYPE_EXTENSION_def)
  with assms show "ltype f \<noteq> PB_LTYPE_EXTENSION" unfolding value_fits_def by fastforce
  from assms show a: "atype f = PB_ATYPE_STATIC" by (simp add: value_fits_def)
  show "atype f \<noteq> PB_ATYPE_POINTER" "atype f \<noteq> PB_ATYPE_CALLBACK"
    unfolding a by (simp_all add: PB_ATYPE_STATIC_def PB_ATYPE_POINTER_def PB_ATYPE_CALLBACK_def)
qed

lemma one_item: "htype f \<noteq> PB_HTYPE_REPEATED \<Longrightarrow> item_count f = 1"
  by (simp add: item_count_def)

lemma htypes_distinct:
  "PB_HTYPE_OPTIONAL \<noteq> PB_HTYPE_REPEATED" "PB_HTYPE_OPTIONAL \<noteq> PB_HTYPE_ONEOF" "PB_HTYPE_REPEATED \<noteq> PB_HTYPE_ONEOF"
  "PB_HTYPE_REQUIRED \<noteq> PB_HTYPE_REPEATED" "PB_HTYPE_REQUIRED \<noteq> PB_HTYPE_ONEOF" "PB_HTYPE_REQUIRED \<noteq> PB_HTYPE_OPTIONAL"
  by (simp_all add: PB_HTYPE_OPTIONAL_def PB_HTYPE_REPEATED_def PB_HTYPE_ONEOF_def PB_HTYPE_REQUIRED_def)

text \<open>The body of the loop over the fields, given what happens one level down.\<close>

lemma set_default_body_safe:
  fixes each :: "pb_field_iter \<Rightarrow> 'h store \<Rightarrow> 'h store option"
  assumes fits: "it_fits W ssize it"
    and sub: "ltype (it_field it) = PB_LTYPE_SUBMESSAGE \<Longrightarrow> htype (it_field it) \<noteq> PB_HTYPE_REPEATED \<Longrightarrow>
      s_safe W (over_message env each (pf_ptr (it_field it)) (it_pData it))"
  shows "s_safe W (set_default_body n env each it)"
proof (rule s_safeI)
  fix st :: "'h store"
  let ?f = "it_field it"
  from fits have vf: "value_fits ssize ?f" by (simp add: it_fits_def Let_def)
  note kinds = static_kinds [OF vf]
  let ?opt = "htype ?f = PB_HTYPE_OPTIONAL \<and> it_pSize it \<noteq> it_pData it"
  let ?counted = "htype ?f = PB_HTYPE_REPEATED \<or> htype ?f = PB_HTYPE_ONEOF"
  let ?st = "if ?opt then st_write (it_pSize it) [0] st else if ?counted then st_put (it_pSize it) 4 0 st else st"
  have st: "frame W st ?st"
    using fits by (auto simp: it_fits_def Let_def intro!: frame_write)
  have data: "{it_pData it..<it_pData it + pf_data_size ?f} \<subseteq> W" if "\<not> (\<not> ?opt \<and> ?counted)"
    using that fits one_item [of ?f] htypes_distinct by (auto simp: it_fits_def Let_def)
  show "\<exists>st'. set_default_body n env each it st = Some st' \<and> frame W st st'"
  proof (cases "\<not> ?opt \<and> ?counted")
    case True
    with kinds st show ?thesis by (auto simp: set_default_body_def Let_def)
  next
    case no: False
    show ?thesis
    proof (cases "ltype ?f = PB_LTYPE_SUBMESSAGE")
      case True
      have "htype ?f \<noteq> PB_HTYPE_REPEATED" using no htypes_distinct by auto
      from s_safeD [OF sub [OF True this], of ?st] obtain st' where
        "over_message env each (pf_ptr ?f) (it_pData it) ?st = Some st'" "frame W ?st st'" by blast
      moreover have "set_default_body n env each it st = over_message env each (pf_ptr ?f) (it_pData it) ?st"
        unfolding set_default_body_def Let_def over_message_def
        using no True kinds by (simp only: if_False if_True simp_thms)
      ultimately show ?thesis using frame_trans [OF st] by auto
    next
      case False
      let ?bs = "if pf_ptr ?f \<noteq> 0 then load (st_mem ?st) (pf_ptr ?f) (pf_data_size ?f) else replicate (pf_data_size ?f) 0"
      have "set_default_body n env each it st = Some (st_write (it_pData it) ?bs ?st)"
        unfolding set_default_body_def Let_def
        using no False kinds by (simp only: if_False if_True simp_thms split: if_split) simp
      moreover have "frame W ?st (st_write (it_pData it) ?bs ?st)"
        using data [OF no] by (intro frame_write) (simp add: load_def)
      ultimately show ?thesis using frame_trans [OF st] by auto
    qed
  qed
qed

lemma htype_cases:
  "htype f = PB_HTYPE_REQUIRED \<or> htype f = PB_HTYPE_OPTIONAL \<or> htype f = PB_HTYPE_REPEATED \<or> htype f = PB_HTYPE_ONEOF"
proof -
  have mask: "PB_HTYPE_MASK = push_bit 4 (mask 2)" by (simp add: PB_HTYPE_MASK_def mask_eq_exp_minus_1)
  define k where "k = drop_bit 4 (pf_type f) AND mask 2"
  have "htype f = push_bit 4 k"
    unfolding PB_HTYPE_def mask k_def by (rule bit_eqI) (auto simp: bit_simps)
  moreover have "unat k < 4" unfolding k_def unat_and_mask by simp
  then have "unat k \<in> {0, 1, 2, 3}" by auto
  then have "k \<in> {0, 1, 2, 3}" by (auto simp: word_unat_eq_iff)
  ultimately show ?thesis
    by (auto simp: PB_HTYPE_REQUIRED_def PB_HTYPE_OPTIONAL_def PB_HTYPE_REPEATED_def PB_HTYPE_ONEOF_def)
qed

text \<open>What \<open>schema_ok\<close> says of a position.\<close>

lemma schema_at:
  assumes "schema_ok desc T ssize rank" "a \<in> T" "it_reach (desc a) dest it" "{dest..<dest + ssize a} \<subseteq> W"
  shows "it_fits W ssize it" "pf_tag (it_field it) \<noteq> 0"
    "ltype (it_field it) = PB_LTYPE_SUBMESSAGE \<Longrightarrow> pf_ptr (it_field it) \<in> T \<and> rank (pf_ptr (it_field it)) < rank a"
proof -
  from assms show "it_fits W ssize it" "ltype (it_field it) = PB_LTYPE_SUBMESSAGE \<Longrightarrow>
    pf_ptr (it_field it) \<in> T \<and> rank (pf_ptr (it_field it)) < rank a"
    unfolding schema_ok_def by (blast intro: it_fits_mono)+
  from assms have "pf_tag (field_at (desc a) 0) \<noteq> 0" unfolding schema_ok_def by blast
  from it_reach_tag [OF this assms(3)] show "pf_tag (it_field it) \<noteq> 0" .
qed

lemma submessage_region:
  assumes "it_fits W ssize it" "ltype (it_field it) = PB_LTYPE_SUBMESSAGE" "htype (it_field it) \<noteq> PB_HTYPE_REPEATED"
  shows "{it_pData it..<it_pData it + ssize (pf_ptr (it_field it))} \<subseteq> W" "pf_ptr (it_field it) \<noteq> 0"
proof -
  have "PB_LTYPE_SUBMESSAGE \<notin> {PB_LTYPE_VARINT, PB_LTYPE_UVARINT, PB_LTYPE_SVARINT, PB_LTYPE_BYTES, PB_LTYPE_STRING,
    PB_LTYPE_FIXED_LENGTH_BYTES, PB_LTYPE_BOOL, PB_LTYPE_FIXED32, PB_LTYPE_FIXED64}"
    by (simp add: PB_LTYPE_BOOL_def PB_LTYPE_VARINT_def PB_LTYPE_UVARINT_def PB_LTYPE_SVARINT_def
        PB_LTYPE_FIXED32_def PB_LTYPE_FIXED64_def PB_LTYPE_BYTES_def PB_LTYPE_STRING_def PB_LTYPE_SUBMESSAGE_def
        PB_LTYPE_FIXED_LENGTH_BYTES_def)
  with assms have "pf_ptr (it_field it) \<noteq> 0 \<and> ssize (pf_ptr (it_field it)) \<le> pf_data_size (it_field it)"
    by (auto simp: it_fits_def Let_def value_fits_def)
  moreover have "{it_pData it..<it_pData it + pf_data_size (it_field it)} \<subseteq> W"
    using assms one_item by (auto simp: it_fits_def Let_def)
  ultimately show "{it_pData it..<it_pData it + ssize (pf_ptr (it_field it))} \<subseteq> W" "pf_ptr (it_field it) \<noteq> 0" by auto
qed

lemma set_defaults_safe:
  assumes schema: "schema_ok (d_desc env) T ssize rank"
  shows "a \<in> T \<Longrightarrow> rank a < n \<Longrightarrow> {dest..<dest + ssize a} \<subseteq> W \<Longrightarrow> s_safe W (pb_message_set_to_defaults n env a dest)"
proof (induction n arbitrary: a dest)
  case (Suc n)
  have "s_safe W (pb_field_set_to_default (Suc n) env it)" if it: "it_reach (d_desc env a) dest it" for it
  proof -
    note at = schema_at [OF schema Suc.prems(1) it Suc.prems(3)]
    have "s_safe W (over_message env (pb_field_set_to_default n env) (pf_ptr (it_field it)) (it_pData it))"
      if sub: "ltype (it_field it) = PB_LTYPE_SUBMESSAGE" "htype (it_field it) \<noteq> PB_HTYPE_REPEATED"
      unfolding set_defaults_eq [symmetric]
      using at(3) [OF sub(1)] Suc.prems(2) submessage_region [OF at(1) sub] by (intro Suc.IH) simp_all
    from set_default_body_safe [OF at(1) this] have "s_safe W (set_default_body n env (pb_field_set_to_default n env) it)" .
    moreover have "pb_field_set_to_default (Suc n) env it = set_default_body n env (pb_field_set_to_default n env) it"
      by (rule ext) simp
    ultimately show ?thesis by simp
  qed
  then show ?case unfolding set_defaults_eq by (rule over_message_safe)
qed simp

lemma release_items_safe:
  assumes "\<And>p. s_safe W (each p)"
  shows "s_safe W (release_items each sz p count)"
proof (induction count arbitrary: p)
  case 0
  show ?case by (rule s_safeI) simp
next
  case (Suc count)
  show ?case
  proof (rule s_safeI)
    fix st
    from s_safeD [OF assms] obtain st1 where "each p st = Some st1" "frame W st st1" by blast
    with s_safeD [OF Suc] show "\<exists>st'. release_items each sz p (Suc count) st = Some st' \<and> frame W st st'"
      by (auto intro: frame_trans) (meson frame_trans)
  qed
qed

lemma option_case_Some: "(case x of None \<Rightarrow> None | Some y \<Rightarrow> Some y) = x"
  by (cases x) simp_all

lemma release_body_safe:
  fixes each :: "pb_field_iter \<Rightarrow> 'h store \<Rightarrow> 'h store option"
  assumes fits: "value_fits ssize (it_field it)"
    and sub: "\<And>p. ltype (it_field it) = PB_LTYPE_SUBMESSAGE \<Longrightarrow> s_safe W (release_message env each (pf_ptr (it_field it)) p)"
  shows "s_safe W (release_body n env each it)"
proof (rule s_safeI)
  fix st :: "'h store"
  let ?f = "it_field it"
  note kinds = static_kinds [OF fits]
  show "\<exists>st'. release_body n env each it st = Some st' \<and> frame W st st'"
  proof (cases "ltype ?f = PB_LTYPE_SUBMESSAGE")
    case True
    have "\<exists>st'. release_items (release_message env each (pf_ptr ?f)) (pf_data_size ?f) p count st = Some st' \<and> frame W st st'"
      for p count using s_safeD [OF release_items_safe [OF sub [OF True]]] .
    moreover have "\<exists>count. release_body n env each it st =
      (if htype ?f = PB_HTYPE_ONEOF \<and> load_size (st_mem st) (it_pSize it) \<noteq> pf_tag ?f then Some st
       else if it_pData it \<noteq> 0
       then release_items (release_message env each (pf_ptr ?f)) (pf_data_size ?f) (it_pData it) count st
       else Some st)"
      unfolding release_body_def Let_def option_case_Some
      by (simp only: True kinds(4) kinds(1) [unfolded True] kinds(2,3) [unfolded kinds(4)] if_False if_True simp_thms
          option_case_Some) (rule exI, rule refl)
    ultimately show ?thesis by auto
  next
    case False
    with kinds show ?thesis by (simp add: release_body_def Let_def)
  qed
qed

lemma release_safe:
  assumes schema: "schema_ok (d_desc env) T ssize rank"
  shows "a \<in> T \<Longrightarrow> rank a < n \<Longrightarrow> s_safe W (pb_release n env a dest)"
proof (induction n arbitrary: a dest)
  case (Suc n)
  have "s_safe W (pb_release_single_field (Suc n) env it)" if it: "it_reach (d_desc env a) dest it" for it
  proof -
    note at = schema_at [OF schema Suc.prems(1) it order_refl]
    have "s_safe W (release_message env (pb_release_single_field n env) (pf_ptr (it_field it)) p)"
      if "ltype (it_field it) = PB_LTYPE_SUBMESSAGE" for p
      using Suc.IH [of "pf_ptr (it_field it)" p] at(3) [OF that] Suc.prems(2) by (simp add: pb_release_def)
    moreover have "value_fits ssize (it_field it)" using at(1) by (simp add: it_fits_def Let_def)
    ultimately have "s_safe W (release_body n env (pb_release_single_field n env) it)" by (intro release_body_safe)
    moreover have "pb_release_single_field (Suc n) env it = release_body n env (pb_release_single_field n env) it"
      by (rule ext) simp
    ultimately show ?thesis by simp
  qed
  from over_message_safe [of env a dest W, OF this] have o: "s_safe W (over_message env (pb_release_single_field (Suc n) env) a dest)" .
  show ?case
  proof (rule s_safeI)
    fix st
    from s_safeD [OF o, of st] show "\<exists>st'. pb_release (Suc n) env a dest st = Some st' \<and> frame W st st'"
      unfolding pb_release_def release_message_eq by (cases "dest = 0") auto
  qed
qed simp

section \<open>Static fields\<close>

lemma item_region:
  assumes "it_fits W ssize it" "htype (it_field it) = PB_HTYPE_REPEATED" "i < pf_array_size (it_field it)"
  shows "{it_pData it + pf_data_size (it_field it) * i..<it_pData it + pf_data_size (it_field it) * i + pf_data_size (it_field it)} \<subseteq> W"
proof -
  let ?d = "pf_data_size (it_field it)"
  have "?d * i + ?d = ?d * Suc i" by simp
  also have "\<dots> \<le> ?d * pf_array_size (it_field it)" using assms(3) by (intro mult_le_mono2) simp
  finally have "{it_pData it + ?d * i..<it_pData it + ?d * i + ?d} \<subseteq> {it_pData it..<it_pData it + ?d * pf_array_size (it_field it)}"
    by auto
  moreover have "{it_pData it..<it_pData it + ?d * pf_array_size (it_field it)} \<subseteq> W"
    using assms(1,2) by (simp add: it_fits_def Let_def item_count_def)
  ultimately show ?thesis by (rule subset_trans)
qed

lemma count_region:
  assumes "it_fits W ssize it" "htype (it_field it) = PB_HTYPE_REPEATED \<or> htype (it_field it) = PB_HTYPE_ONEOF"
  shows "{it_pSize it..<it_pSize it + 4} \<subseteq> W"
  using assms by (auto simp: it_fits_def Let_def)

lemma packed_loop_safe:
  fixes func :: "nat \<Rightarrow> ('s, 'h) dec"
  assumes fits: "it_fits W ssize it" "htype (it_field it) = PB_HTYPE_REPEATED"
    and func: "\<And>p. {p..<p + pf_data_size (it_field it)} \<subseteq> W \<Longrightarrow> safe W (func p)"
      "\<And>p. \<exists>m. func p = f_op m \<and> reads_some m"
  shows "buf_ok sub \<Longrightarrow> is_bytes_left sub < k \<Longrightarrow>
    \<exists>r t st'. static_packed_loop k func it (sub, st) = Some (r, (t, st')) \<and> inside sub t \<and> frame W st st'"
proof (induction k arbitrary: sub st)
  case (Suc k)
  let ?sz = "load_size (st_mem st) (it_pSize it)"
  show ?case
  proof (cases "is_bytes_left sub > 0 \<and> ?sz < pf_array_size (it_field it)")
    case True
    let ?p = "it_pData it + pf_data_size (it_field it) * ?sz"
    have "safe W (func ?p)" using True by (intro func(1) item_region [OF fits]) simp
    from safeE [OF this Suc.prems(1)] obtain r t st1 where
      run: "func ?p (sub, st) = Some (r, (t, st1))" "inside sub t" "frame W st st1" "buf_ok t" by metis
    show ?thesis
    proof (cases r)
      case None
      with True run show ?thesis by (auto simp: Let_def)
    next
      case (Some u)
      let ?st = "st_put (it_pSize it) 4 (load_size (st_mem st1) (it_pSize it) + 1) st1"
      from func(2) [of ?p] obtain m where m: "func ?p = f_op m" "reads_some m" by blast
      with run(1) Some Suc.prems(1) have "is_bytes_left t < is_bytes_left sub"
        by (intro reads_someD [OF m(2) Suc.prems(1)]) (simp add: f_op_def)
      with Suc.prems have "is_bytes_left t < k" by simp
      from Suc.IH [OF run(4) this, of ?st] obtain r2 t2 st2 where
        r2: "static_packed_loop k func it (t, ?st) = Some (r2, (t2, st2))" "inside t t2" "frame W ?st st2" by blast
      have "frame W st1 ?st" using count_region [OF fits(1)] fits(2) by (intro frame_write) simp
      with r2 run have "frame W st st2" "inside sub t2" using frame_trans inside_trans by blast+
      with True run Some r2 show ?thesis by (auto simp: Let_def)
    qed
  next
    case False
    with inside_refl [OF Suc.prems(1)] show ?thesis by (auto simp: Let_def)
  qed
qed simp

lemma safe_packed:
  fixes func :: "nat \<Rightarrow> ('s, 'h) dec"
  assumes fits: "it_fits W ssize it" "htype (it_field it) = PB_HTYPE_REPEATED"
    and func: "\<And>p. {p..<p + pf_data_size (it_field it)} \<subseteq> W \<Longrightarrow> safe W (func p)"
      "\<And>p. \<exists>m. func p = f_op m \<and> reads_some m"
  shows "safe W (\<lambda>(s, st). case pb_make_string_substream s of
      (None, s) \<Rightarrow> Some (None, (s, st))
    | (Some substream, s) \<Rightarrow>
        (case static_packed_loop (is_bytes_left substream + 1) func it (substream, st) of
           None \<Rightarrow> None
         | Some (status, (substream, st)) \<Rightarrow>
             if is_bytes_left substream \<noteq> 0 then Some (d_error ''array overflow'' (overrun_of substream s, st))
             else Some (close_after s status (substream, st))))"
    (is "safe W ?m")
proof (rule safeI)
  fix s :: "'s pb_istream" and st :: "'h store"
  assume s: "buf_ok s"
  obtain r s1 where mk: "pb_make_string_substream s = (r, s1)" by fastforce
  note i1 = make_substream(1) [OF s mk]
  show "\<exists>r t st'. ?m (s, st) = Some (r, (t, st')) \<and> inside s t \<and> frame W st st'"
  proof (cases r)
    case None
    with mk i1 show ?thesis by auto
  next
    case (Some sub)
    with mk have mk: "pb_make_string_substream s = (Some sub, s1)" by simp
    from make_substream(2) [OF s mk] have ok: "buf_ok sub" by simp
    obtain status t st' where
      run: "static_packed_loop (is_bytes_left sub + 1) func it (sub, st) = Some (status, (t, st'))" "inside sub t" "frame W st st'"
      using packed_loop_safe [where func = func and k = "is_bytes_left sub + 1" and st = st, OF fits func ok] less_add_one
      by blast
    show ?thesis
    proof (cases "is_bytes_left t = 0")
      case True
      from close_substream [OF s mk run(2)] obtain s2 where
        "close_after s1 status (t, st') = (status, (s2, st'))" "inside s s2" by blast
      with mk run True show ?thesis by auto
    next
      case False
      have "buf_ok t" by (rule inside_buf_ok [OF run(2) ok])
      then have "inside s1 ((overrun_of t s1)\<lparr>is_errmsg := e\<rparr>)" for e
        using inside_refl [OF inside_buf_ok [OF i1 s]] by (simp add: inside_def overrun_of_def buf_ok_def)
      with mk run False inside_trans [OF i1] show ?thesis
        by (auto simp: d_error_def on_stream_def pb_error_def overrun_of_def)
    qed
  qed
qed

lemma safe_static_field:
  fixes sub :: "('s, 'h) sub_dec"
  assumes fits: "it_fits W ssize it"
    and sub: "\<And>init p. ltype (it_field it) = PB_LTYPE_SUBMESSAGE \<Longrightarrow>
      {p..<p + pf_data_size (it_field it)} \<subseteq> W \<Longrightarrow> safe W (sub init (pf_ptr (it_field it)) p)"
    and dflt: "ltype (it_field it) = PB_LTYPE_SUBMESSAGE \<Longrightarrow> htype (it_field it) \<noteq> PB_HTYPE_REPEATED \<Longrightarrow>
      s_safe W (pb_message_set_to_defaults n env (pf_ptr (it_field it)) (it_pData it))"
  shows "safe W (decode_static_field n sub env wt it)"
proof -
  let ?f = "it_field it"
  let ?func = "pb_decoder sub env ?f"
  from fits have vf: "value_fits ssize ?f" by (simp add: it_fits_def Let_def)
  have func: "safe W (?func p)" if "{p..<p + pf_data_size ?f} \<subseteq> W" for p
    by (rule safe_decoder [OF vf that]) (rule sub [OF _ that])
  have data: "{it_pData it..<it_pData it + pf_data_size ?f} \<subseteq> W" if "htype ?f \<noteq> PB_HTYPE_REPEATED"
    using fits one_item [OF that] by (simp add: it_fits_def Let_def)
  consider (req) "htype ?f = PB_HTYPE_REQUIRED" | (opt) "htype ?f = PB_HTYPE_OPTIONAL"
    | (packed) "htype ?f = PB_HTYPE_REPEATED" "wt = PB_WT_STRING \<and> ltype ?f \<le> PB_LTYPE_LAST_PACKABLE"
    | (rep) "htype ?f = PB_HTYPE_REPEATED" "\<not> (wt = PB_WT_STRING \<and> ltype ?f \<le> PB_LTYPE_LAST_PACKABLE)"
    | (oneof) "htype ?f \<noteq> PB_HTYPE_REQUIRED" "htype ?f \<noteq> PB_HTYPE_OPTIONAL" "htype ?f \<noteq> PB_HTYPE_REPEATED" by blast
  then show ?thesis
  proof cases
    case req
    then show ?thesis using func data htypes_distinct by (simp add: decode_static_field_def Let_def)
  next
    case opt
    have "safe W (f_op (d_store (\<lambda>st. if it_pSize it \<noteq> it_pData it then st_write (it_pSize it) [1] st else st)))"
      using fits opt by (intro safe_op c_safe_store) (auto simp: it_fits_def Let_def intro!: frame_write)
    from safe_seq [OF this func [OF data]] opt htypes_distinct show ?thesis
      by (simp add: decode_static_field_def Let_def)
  next
    case packed
    have "\<exists>m. ?func p = f_op m \<and> reads_some m" for p
      using packable_reads_some [OF vf] packed(2) by metis
    from safe_packed [OF fits packed(1) func this] packed htypes_distinct show ?thesis
      by (simp add: decode_static_field_def Let_def)
  next
    case rep
    have "safe W (\<lambda>(s, st).
       let sz = load_size (st_mem st) (it_pSize it); st = st_put (it_pSize it) 4 (sz + 1) st
       in if sz \<ge> pf_array_size ?f then Some (d_error ''array overflow'' (s, st))
          else ?func (it_pData it + pf_data_size ?f * sz) (s, st))" (is "safe W ?m")
    proof (rule safeI)
      fix s :: "'s pb_istream" and st :: "'h store"
      assume s: "buf_ok s"
      let ?sz = "load_size (st_mem st) (it_pSize it)"
      let ?st = "st_put (it_pSize it) 4 (?sz + 1) st"
      have fr: "frame W st ?st" using count_region [OF fits] rep(1) by (intro frame_write) simp
      show "\<exists>r t st'. ?m (s, st) = Some (r, (t, st')) \<and> inside s t \<and> frame W st st'"
      proof (cases "?sz \<ge> pf_array_size ?f")
        case True
        with fr inside_refl [OF s] show ?thesis
          by (auto simp: Let_def d_error_def on_stream_def pb_error_def inside_def)
      next
        case False
        then have "safe W (?func (it_pData it + pf_data_size ?f * ?sz))"
          by (intro func item_region [OF fits rep(1)]) simp
        from safeE [OF this s] obtain r t st' where
          "?func (it_pData it + pf_data_size ?f * ?sz) (s, ?st) = Some (r, (t, st'))" "inside s t" "frame W ?st st'" by metis
        with False frame_trans [OF fr] show ?thesis by (auto simp: Let_def)
      qed
    qed
    with rep(1) htypes_distinct show ?thesis by (simp add: decode_static_field_def Let_def if_not_P [OF rep(2)])
  next
    case oneof
    have "safe W (decode_static_field n sub env wt it)" if one: "{it_pSize it..<it_pSize it + 4} \<subseteq> W"
    proof -
      let ?store = "\<lambda>st. if ltype ?f = PB_LTYPE_SUBMESSAGE \<and> load_size (st_mem st) (it_pSize it) \<noteq> pf_tag ?f
        then pb_message_set_to_defaults n env (pf_ptr ?f) (it_pData it)
               (st_write (it_pData it) (replicate (pf_data_size ?f) 0) st)
        else Some st"
      have "s_safe W ?store"
      proof (rule s_safeI)
        fix st :: "'h store"
        let ?st = "st_write (it_pData it) (replicate (pf_data_size ?f) 0) st"
        have fr: "frame W st ?st" using data [OF oneof(3)] by (intro frame_write) simp
        show "\<exists>st'. ?store st = Some st' \<and> frame W st st'"
        proof (cases "ltype ?f = PB_LTYPE_SUBMESSAGE \<and> load_size (st_mem st) (it_pSize it) \<noteq> pf_tag ?f")
          case True
          then have "s_safe W (pb_message_set_to_defaults n env (pf_ptr ?f) (it_pData it))"
            using dflt oneof(3) by blast
          from s_safeD [OF this, of ?st] frame_trans [OF fr] True show ?thesis by auto
        qed auto
      qed
      from safe_seq [OF safe_store [OF this] safe_seq [OF safe_op [OF c_safe_put [OF one]] func [OF data [OF oneof(3)]]]] oneof
      show ?thesis by (simp add: decode_static_field_def Let_def)
    qed
    moreover have "htype ?f = PB_HTYPE_ONEOF" using htype_cases oneof by blast
    ultimately show ?thesis using count_region [OF fits] by blast
  qed
qed

section \<open>Iterators\<close>

text \<open>Inside \<open>pb_decode_noinit\<close> the iterator may have been made to count in \<open>fixed_count_size\<close>.\<close>

definition it_at :: "nat \<Rightarrow> pb_field list \<Rightarrow> nat \<Rightarrow> pb_field_iter \<Rightarrow> bool" where
  "it_at slot fds dest it \<longleftrightarrow> (\<exists>it0. it_reach fds dest it0 \<and>
     (it = it0 \<or> htype (it_field it0) = PB_HTYPE_REPEATED \<and> it = it0\<lparr>it_pSize := slot\<rparr>))"

lemma reach_at: "it_reach fds dest it \<Longrightarrow> it_at slot fds dest it"
  by (auto simp: it_at_def)

lemma next_at:
  assumes "pf_tag (field_at fds 0) \<noteq> 0" "it_at slot fds dest it"
  shows "it_reach fds dest (snd (pb_field_iter_next it))"
proof -
  from assms(2) obtain it0 where it0: "it_reach fds dest it0"
    "it = it0 \<or> htype (it_field it0) = PB_HTYPE_REPEATED \<and> it = it0\<lparr>it_pSize := slot\<rparr>" by (auto simp: it_at_def)
  from it_reach_tag [OF assms(1) it0(1)] have tag: "pf_tag (it_field it0) \<noteq> 0" .
  have "snd (pb_field_iter_next (it0\<lparr>it_pSize := slot\<rparr>)) = snd (pb_field_iter_next it0)"
    if "htype (it_field it0) = PB_HTYPE_REPEATED"
    using tag that htypes_distinct by (simp add: pb_field_iter_next_def Let_def)
  with it0 it_reach.step [OF it0(1)] show ?thesis by auto
qed

lemma find_at:
  assumes "pf_tag (field_at fds 0) \<noteq> 0" "it_at slot fds dest it" "pb_field_iter_find it tag = (found, it')"
  shows "it_at slot fds dest it'" "found \<Longrightarrow> pf_tag (it_field it') = tag"
proof -
  have "it_at slot fds dest it' \<and> (found \<longrightarrow> pf_tag (it_field it') = tag)"
    if "iter_find_loop k start tag it = (found, it')" "it_at slot fds dest it" for k start it
    using that
  proof (induction k arbitrary: it)
    case (Suc k)
    from Suc.IH [of "snd (pb_field_iter_next it)"] reach_at [OF next_at [OF assms(1) Suc.prems(2)]] Suc.prems
    show ?case by (auto simp: Let_def split: if_splits)
  qed simp
  with assms(2,3) show "it_at slot fds dest it'" "found \<Longrightarrow> pf_tag (it_field it') = tag"
    unfolding pb_field_iter_find_def by blast+
qed

lemma find_reach:
  assumes "pf_tag (field_at fds 0) \<noteq> 0" "it_reach fds dest it" "pb_field_iter_find it tag = (found, it')"
  shows "it_reach fds dest it'"
proof -
  have "it_reach fds dest it'"
    if "iter_find_loop k start tag it = (found, it')" "it_reach fds dest it" for k start it
    using that
  proof (induction k arbitrary: it)
    case (Suc k)
    from Suc.IH [of "snd (pb_field_iter_next it)"] it_reach.step [OF Suc.prems(2)] Suc.prems
    show ?case by (auto simp: Let_def split: if_splits)
  qed simp
  with assms(2,3) show ?thesis unfolding pb_field_iter_find_def by blast
qed

lemma find_no_extension:
  assumes "pf_tag (field_at fds 0) \<noteq> 0" "it_at slot fds dest it"
    and no: "\<And>it. it_at slot fds dest it \<Longrightarrow> ltype (it_field it) \<noteq> PB_LTYPE_EXTENSION"
  obtains it' where "find_extension_field it = (False, it')" "it_at slot fds dest it'"
proof -
  have "\<exists>it'. find_extension_loop k start it = (False, it') \<and> it_at slot fds dest it'" if "it_at slot fds dest it" for k start it
    using that
  proof (induction k arbitrary: it)
    case (Suc k)
    from reach_at [OF next_at [OF assms(1) Suc.prems]] have "it_at slot fds dest (snd (pb_field_iter_next it))" .
    with Suc.IH [OF this] no [OF Suc.prems] show ?case by (auto simp: Let_def)
  qed simp
  with that assms(2) show ?thesis unfolding find_extension_field_def by blast
qed

section \<open>One message\<close>

text \<open>What a message of type \<open>a\<close> at \<open>dest\<close> is decoded under.\<close>

definition message_ok ::
    "('s, 'h) dec_env \<Rightarrow> nat set \<Rightarrow> (nat \<Rightarrow> nat) \<Rightarrow> (nat \<Rightarrow> nat) \<Rightarrow> nat \<Rightarrow> ('s, 'h) sub_dec \<Rightarrow> nat \<Rightarrow> nat \<Rightarrow> nat set \<Rightarrow> bool" where
  "message_ok env T ssize rank n sub a dest W \<longleftrightarrow>
     schema_ok (d_desc env) T ssize rank \<and> a \<in> T \<and> rank a < n \<and>
     {dest..<dest + ssize a} \<subseteq> W \<and> {d_slot env n..<d_slot env n + 4} \<subseteq> W \<and>
     (\<forall>b\<in>T. rank b < rank a \<longrightarrow> (\<forall>init p. {p..<p + ssize b} \<subseteq> W \<longrightarrow> safe W (sub init b p)))"

abbreviation at_message :: "('s, 'h) dec_env \<Rightarrow> nat \<Rightarrow> nat \<Rightarrow> nat \<Rightarrow> pb_field_iter \<Rightarrow> bool" where
  "at_message env n a dest \<equiv> it_at (d_slot env n) (d_desc env a) dest"

lemma at_message_facts:
  assumes m: "message_ok env T ssize rank n sub a dest W" and it: "at_message env n a dest it"
  shows "it_fits W ssize it" "value_fits ssize (it_field it)" "pf_tag (it_field it) \<noteq> 0"
    "ltype (it_field it) = PB_LTYPE_SUBMESSAGE \<Longrightarrow> pf_ptr (it_field it) \<in> T \<and> rank (pf_ptr (it_field it)) < rank a"
proof -
  from it obtain it0 where it0: "it_reach (d_desc env a) dest it0"
    "it = it0 \<or> htype (it_field it0) = PB_HTYPE_REPEATED \<and> it = it0\<lparr>it_pSize := d_slot env n\<rparr>" by (auto simp: it_at_def)
  from m have sch: "schema_ok (d_desc env) T ssize rank" "a \<in> T" "{dest..<dest + ssize a} \<subseteq> W"
    and slot: "{d_slot env n..<d_slot env n + 4} \<subseteq> W" by (simp_all add: message_ok_def)
  note at = schema_at [OF sch(1,2) it0(1) sch(3)]
  from it0(2) have f: "it_field it = it_field it0" by auto
  show "it_fits W ssize it"
    using it0(2) at(1) slot htypes_distinct by (auto simp: it_fits_def Let_def)
  then show "value_fits ssize (it_field it)" by (simp add: it_fits_def Let_def)
  show "pf_tag (it_field it) \<noteq> 0" using at(2) f by simp
  show "pf_ptr (it_field it) \<in> T \<and> rank (pf_ptr (it_field it)) < rank a" if "ltype (it_field it) = PB_LTYPE_SUBMESSAGE"
    using at(3) f that by simp
qed

lemma release_single_safe:
  assumes schema: "schema_ok (d_desc env) T ssize rank" "a \<in> T" "rank a < n" and it: "it_reach (d_desc env a) dest it"
  shows "s_safe W (pb_release_single_field n env it)"
proof -
  from assms(3) obtain n' where n: "n = Suc n'" by (cases n) auto
  note at = schema_at [OF schema(1,2) it order_refl]
  have "s_safe W (release_message env (pb_release_single_field n' env) (pf_ptr (it_field it)) p)"
    if "ltype (it_field it) = PB_LTYPE_SUBMESSAGE" for p
    using release_safe [OF schema(1), of "pf_ptr (it_field it)" n' W p] at(3) [OF that] assms(3) n
    by (simp add: pb_release_def)
  moreover have "value_fits ssize (it_field it)" using at(1) by (simp add: it_fits_def Let_def)
  ultimately have "s_safe W (release_body n' env (pb_release_single_field n' env) it)" by (intro release_body_safe)
  moreover have "pb_release_single_field n env it = release_body n' env (pb_release_single_field n' env) it"
    by (rule ext) (simp add: n)
  ultimately show ?thesis by simp
qed

text \<open>An operation that may move the iterator.\<close>

definition it_safe :: "nat set \<Rightarrow> (pb_field_iter \<Rightarrow> bool) \<Rightarrow> (('s, 'h) dst, pb_field_iter) fop \<Rightarrow> bool" where
  "it_safe W P m \<longleftrightarrow> (\<forall>s st. buf_ok s \<longrightarrow> (\<exists>r t st'. m (s, st) = Some (r, (t, st')) \<and> inside s t \<and> frame W st st' \<and>
     (\<forall>it. r = Some it \<longrightarrow> P it)))"

lemma release_union_safe:
  fixes env :: "('s, 'h) dec_env"
  assumes m: "message_ok env T ssize rank n sub a dest W" and it: "it_reach (d_desc env a) dest it"
  shows "it_safe W (it_reach (d_desc env a) dest) (pb_release_union_field n env it)"
  unfolding it_safe_def
proof (intro allI impI)
  fix s :: "'s pb_istream" and st :: "'h store"
  assume s: "buf_ok s"
  from m have sch: "schema_ok (d_desc env) T ssize rank" "a \<in> T" "rank a < n" by (simp_all add: message_ok_def)
  then have tag: "pf_tag (field_at (d_desc env a) 0) \<noteq> 0" by (simp add: schema_ok_def)
  let ?old = "load_size (st_mem st) (it_pSize it)" and ?new = "pf_tag (it_field it)"
  have err: "\<exists>t. d_error msg (s, x) = (None, (t, x)) \<and> inside s t" for msg and x :: "'h store"
    using inside_refl [OF s] by (simp add: d_error_def on_stream_def pb_error_def inside_def)
  show "\<exists>r t st'. pb_release_union_field n env it (s, st) = Some (r, (t, st')) \<and> inside s t \<and> frame W st st' \<and>
      (\<forall>it. r = Some it \<longrightarrow> it_reach (d_desc env a) dest it)"
  proof (cases "?old = 0 \<or> ?old = ?new")
    case True
    with it inside_refl [OF s] show ?thesis by (auto simp: pb_release_union_field_def Let_def)
  next
    case False
    obtain b1 it1 where f1: "pb_field_iter_find it ?old = (b1, it1)" by fastforce
    from find_reach [OF tag it f1] have r1: "it_reach (d_desc env a) dest it1" .
    from s_safeD [OF release_single_safe [OF sch r1], of st] obtain st1 where
      st1: "pb_release_single_field n env it1 st = Some st1" "frame W st st1" by blast
    obtain b2 it2 where f2: "pb_field_iter_find it1 ?new = (b2, it2)" by fastforce
    from find_reach [OF tag r1 f2] have r2: "it_reach (d_desc env a) dest it2" .
    have "atype (it_field it2) \<noteq> PB_ATYPE_POINTER"
      using at_message_facts(2) [OF m reach_at [OF r2]] static_kinds by blast
    with False f1 f2 st1 r2 err [of "''invalid union tag''" st] err [of "''iterator error''" st1] inside_refl [OF s] show ?thesis
      by (cases b1; cases b2) (fastforce simp: pb_release_union_field_def Let_def)+
  qed
qed

lemma static_field_safe:
  assumes m: "message_ok env T ssize rank n sub a dest W" and it: "at_message env n a dest it"
  shows "safe W (decode_static_field n sub env wt it)"
proof -
  note at = at_message_facts [OF m it]
  from m have sch: "schema_ok (d_desc env) T ssize rank" "rank a < n" by (simp_all add: message_ok_def)
  show ?thesis
  proof (rule safe_static_field [OF at(1)])
    assume sub: "ltype (it_field it) = PB_LTYPE_SUBMESSAGE"
    have "ssize (pf_ptr (it_field it)) \<le> pf_data_size (it_field it)"
      using at(2) sub by (auto simp: value_fits_def PB_LTYPE_BOOL_def PB_LTYPE_VARINT_def PB_LTYPE_UVARINT_def
          PB_LTYPE_SVARINT_def PB_LTYPE_FIXED32_def PB_LTYPE_FIXED64_def PB_LTYPE_BYTES_def PB_LTYPE_STRING_def
          PB_LTYPE_SUBMESSAGE_def PB_LTYPE_FIXED_LENGTH_BYTES_def)
    then have small: "{p..<p + ssize (pf_ptr (it_field it))} \<subseteq> {p..<p + pf_data_size (it_field it)}" for p by auto
    show "safe W (sub init (pf_ptr (it_field it)) p)" if "{p..<p + pf_data_size (it_field it)} \<subseteq> W" for init p
      using m at(4) [OF sub] subset_trans [OF small that] by (simp add: message_ok_def)
    show "s_safe W (pb_message_set_to_defaults n env (pf_ptr (it_field it)) (it_pData it))"
      if rep: "htype (it_field it) \<noteq> PB_HTYPE_REPEATED"
      by (rule set_defaults_safe [OF sch(1)])
        (use at(4) [OF sub] sch(2) submessage_region(1) [OF at(1) sub rep] in auto)
  qed
qed

lemma decode_field_safe:
  fixes env :: "('s, 'h) dec_env"
  assumes m: "message_ok env T ssize rank n sub a dest W" and it: "at_message env n a dest it"
  shows "it_safe W (at_message env n a dest) (decode_field n sub env wt it)"
  unfolding it_safe_def
proof (intro allI impI)
  fix s :: "'s pb_istream" and st :: "'h store"
  assume s: "buf_ok s"
  let ?rel = "if htype (it_field it) = PB_HTYPE_ONEOF then pb_release_union_field n env it (s, st) else Some (Some it, (s, st))"
  have "\<exists>r t st'. ?rel = Some (r, (t, st')) \<and> inside s t \<and> frame W st st' \<and>
      (\<forall>it. r = Some it \<longrightarrow> at_message env n a dest it)"
  proof (cases "htype (it_field it) = PB_HTYPE_ONEOF")
    case True
    with it htypes_distinct have "it_reach (d_desc env a) dest it" by (auto simp: it_at_def)
    with release_union_safe [OF m this] s True reach_at show ?thesis unfolding it_safe_def by fastforce
  next
    case False
    with it inside_refl [OF s] show ?thesis by auto
  qed
  then obtain r t st1 where r: "?rel = Some (r, (t, st1))" "inside s t" "frame W st st1"
    "\<And>it. r = Some it \<Longrightarrow> at_message env n a dest it" by blast
  show "\<exists>r t st'. decode_field n sub env wt it (s, st) = Some (r, (t, st')) \<and> inside s t \<and> frame W st st' \<and>
      (\<forall>it. r = Some it \<longrightarrow> at_message env n a dest it)"
  proof (cases r)
    case None
    with r show ?thesis by (auto simp: decode_field_def)
  next
    case (Some it1)
    with r(4) have it1: "at_message env n a dest it1" by simp
    have "atype (it_field it1) = PB_ATYPE_STATIC" using static_kinds(4) [OF at_message_facts(2) [OF m it1]] .
    moreover from safeE [OF static_field_safe [OF m it1, of wt] inside_buf_ok [OF r(2) s]] obtain r2 t2 st2 where
      r2: "decode_static_field n sub env wt it1 (t, st1) = Some (r2, (t2, st2))" "inside t t2" "frame W st1 st2" by metis
    ultimately show ?thesis
      using r Some it1 inside_trans [OF r(2) r2(2)] frame_trans [OF r(3) r2(3)] by (auto simp: decode_field_def)
  qed
qed

section \<open>The loop over the fields of a message\<close>

text \<open>A round stays inside, and what it hands to the next round is a position of the message.\<close>

definition round_ok :: "nat set \<Rightarrow> (pb_field_iter \<Rightarrow> bool) \<Rightarrow> ('s, 'h) dst \<Rightarrow> ('s, 'h) round \<Rightarrow> bool" where
  "round_ok W P x r \<longleftrightarrow> (\<exists>t st'. (r = Stop (t, st') \<or> r = Fail (t, st') \<or> (\<exists>l. r = Go_on l (t, st') \<and> P (ni_iter l))) \<and>
     inside (fst x) t \<and> frame W (snd x) st')"

lemma skip_unknown_ok:
  assumes "buf_ok s" "P (ni_iter l)"
  shows "round_ok W P (s, st) (skip_unknown l wt (s, st))"
proof -
  obtain r t where run: "pb_skip_field wt s = (r, t)" by fastforce
  from fwd_inside [OF fwd_skip_field [OF run] assms(1)] run assms(2) show ?thesis
    by (cases r) (auto simp: round_ok_def skip_unknown_def on_stream_def)
qed

text \<open>A tag has at most 29 bits, so that without extensions no field is tried as one.\<close>

lemma tag_bound:
  assumes "pb_decode_tag s = (Some (wt, tag), e, t)"
  shows "\<not> tag \<ge> (- 1 :: u32)"
proof -
  from assms obtain temp where "tag = drop_bit 3 temp"
    by (auto simp: pb_decode_tag_def split: prod.splits option.splits if_splits)
  then have "unat tag \<le> 2 ^ 29"
    using unat_u32_lt [of temp] by (simp add: unat_drop_bit_div)
  moreover have "unat (- 1 :: u32) = 2 ^ 32 - 1" by (simp add: unsigned_minus_1_eq_mask mask_eq_exp_minus_1)
  ultimately show ?thesis by (simp add: word_le_nat_alt)
qed

lemma unknown_field_ok:
  assumes m: "message_ok env T ssize rank n sub a dest W" and it: "at_message env n a dest (ni_iter l)"
    and tag: "\<not> tag \<ge> (- 1 :: u32)" and s: "buf_ok s"
  shows "\<exists>r. unknown_field n sub env tag wt l (s, st) = Some r \<and> round_ok W (at_message env n a dest) (s, st) r"
proof (cases "tag \<ge> ni_extension_range_start l")
  case True
  from m have ne: "pf_tag (field_at (d_desc env a) 0) \<noteq> 0" by (simp add: message_ok_def schema_ok_def)
  have no: "ltype (it_field i) \<noteq> PB_LTYPE_EXTENSION" if "at_message env n a dest i" for i
    using static_kinds(1) [OF at_message_facts(2) [OF m that]] .
  obtain it' where f: "find_extension_field (ni_iter l) = (False, it')" "at_message env n a dest it'"
    using find_no_extension [OF ne it no] by blast
  let ?l = "l\<lparr>ni_iter := it', ni_extension_range_start := - 1\<rparr>"
  have "unknown_field n sub env tag wt l (s, st) = Some (skip_unknown ?l wt (s, st))"
    using True tag f by (simp add: unknown_field_def Let_def)
  with skip_unknown_ok [OF s, of "at_message env n a dest" ?l W st wt] f(2) show ?thesis by simp
next
  case False
  then have "unknown_field n sub env tag wt l (s, st) = Some (skip_unknown l wt (s, st))"
    by (simp add: unknown_field_def)
  with skip_unknown_ok [OF s, of "at_message env n a dest" l W st wt, OF it] show ?thesis by simp
qed

lemma it_at_slot:
  assumes "it_at slot fds dest it" "htype (it_field it) = PB_HTYPE_REPEATED"
  shows "it_at slot fds dest (it\<lparr>it_pSize := slot\<rparr>)"
  using assms by (auto simp: it_at_def)

lemma fixed_count_ok:
  assumes it: "it_at slot fds dest (ni_iter l)" and W: "{slot..<slot + 4} \<subseteq> W" and s: "buf_ok s"
  obtains r t st' where "fixed_count slot l (s, st) = (r, (t, st'))" "inside s t" "frame W st st'"
    "\<And>l'. r = Some l' \<Longrightarrow> it_at slot fds dest (ni_iter l')"
proof -
  let ?it = "ni_iter l"
  have "\<exists>r t st'. fixed_count slot l (s, st) = (r, (t, st')) \<and> inside s t \<and> frame W st st' \<and>
      (\<forall>l'. r = Some l' \<longrightarrow> it_at slot fds dest (ni_iter l'))"
  proof (cases "htype (it_field ?it) = PB_HTYPE_REPEATED \<and> it_pSize ?it = it_pData ?it")
    case True
    then have slot: "it_at slot fds dest (?it\<lparr>it_pSize := slot\<rparr>)" using it_at_slot [OF it] by simp
    have "frame W st (st_put slot 4 0 st)" using W by (intro frame_write) simp
    moreover obtain t where "d_error ''wrong size for fixed count field'' (s, st) = (None :: noinit option, (t, st))" "inside s t"
      using inside_refl [OF s] by (simp add: d_error_def on_stream_def pb_error_def inside_def)
    ultimately show ?thesis
      using True slot inside_refl [OF s] by (auto simp: fixed_count_def Let_def split: if_splits)
  next
    case False
    with it inside_refl [OF s] show ?thesis by (simp add: fixed_count_def Let_def if_not_P [OF False])
  qed
  with that show ?thesis by blast
qed

lemma ni_iter_mark_seen [simp]: "ni_iter (mark_seen l) = ni_iter l"
  by (simp add: mark_seen_def Let_def)

lemma known_field_ok:
  assumes m: "message_ok env T ssize rank n sub a dest W" and it: "at_message env n a dest (ni_iter l)" and s: "buf_ok s"
  shows "\<exists>r. known_field n sub env wt l (s, st) = Some r \<and> round_ok W (at_message env n a dest) (s, st) r"
proof -
  from m have W: "{d_slot env n..<d_slot env n + 4} \<subseteq> W" by (simp add: message_ok_def)
  obtain r t st1 where fc: "fixed_count (d_slot env n) l (s, st) = (r, (t, st1))" "inside s t" "frame W st st1"
    "\<And>l'. r = Some l' \<Longrightarrow> at_message env n a dest (ni_iter l')" using fixed_count_ok [OF it W s] by metis
  show ?thesis
  proof (cases r)
    case None
    with fc show ?thesis by (auto simp: known_field_def round_ok_def)
  next
    case (Some l')
    with fc(4) have "at_message env n a dest (ni_iter (mark_seen l'))" by simp
    from decode_field_safe [OF m this, of wt] inside_buf_ok [OF fc(2) s] obtain r2 t2 st2 where
      r2: "decode_field n sub env wt (ni_iter (mark_seen l')) (t, st1) = Some (r2, (t2, st2))" "inside t t2" "frame W st1 st2"
        "\<And>i. r2 = Some i \<Longrightarrow> at_message env n a dest i"
      unfolding it_safe_def by blast
    note i = inside_trans [OF fc(2) r2(2)] frame_trans [OF fc(3) r2(3)]
    from r2(4) show ?thesis
      using fc(1) Some r2(1) i by (cases r2) (auto simp: known_field_def Let_def round_ok_def)
  qed
qed

lemma noinit_round_ok:
  fixes env :: "('s, 'h) dec_env"
  assumes m: "message_ok env T ssize rank n sub a dest W" and it: "at_message env n a dest (ni_iter l)" and s: "buf_ok s"
  shows "\<exists>r. noinit_round n sub env l (s, st) = Some r \<and> round_ok W (at_message env n a dest) (s, st) r \<and>
    (\<forall>l' t st'. r = Go_on l' (t, st') \<longrightarrow> is_bytes_left t < is_bytes_left s)"
proof -
  obtain r e s1 where tag: "pb_decode_tag s = (r, e, s1)" by (metis prod.collapse)
  have i1: "inside s s1" by (rule fwd_inside [OF fwd_tag [OF tag] s])
  show ?thesis
  proof (cases r)
    case None
    with tag i1 show ?thesis by (auto simp: noinit_round_def round_ok_def)
  next
    case (Some p)
    obtain wt t where p: "p = (wt, t)" by fastforce
    from tag Some p have tag: "pb_decode_tag s = (Some (wt, t), e, s1)" by simp
    from m have ne: "pf_tag (field_at (d_desc env a) 0) \<noteq> 0" by (simp add: message_ok_def schema_ok_def)
    obtain found it1 where f: "pb_field_iter_find (ni_iter l) (unat t) = (found, it1)" by fastforce
    from find_at [OF ne it f] have it1: "at_message env n a dest (ni_iter (l\<lparr>ni_iter := it1\<rparr>))" by simp
    have ok1: "buf_ok s1" by (rule inside_buf_ok [OF i1 s])
    have "\<exists>r. noinit_round n sub env l (s, st) = Some r \<and> round_ok W (at_message env n a dest) (s1, st) r"
      using known_field_ok [OF m it1 ok1, of wt st] unknown_field_ok [OF m it1 tag_bound [OF tag] ok1, of wt st] tag f
      by (cases found) (simp_all add: noinit_round_def)
    then obtain r where r: "noinit_round n sub env l (s, st) = Some r" "round_ok W (at_message env n a dest) (s1, st) r" by blast
    moreover have "is_bytes_left s1 < is_bytes_left s" by (rule tag_less [OF s tag])
    ultimately show ?thesis
      using inside_trans [OF i1] inside_le by (fastforce simp: round_ok_def)
  qed
qed

lemma noinit_loop_ok:
  fixes env :: "('s, 'h) dec_env"
  assumes m: "message_ok env T ssize rank n sub a dest W"
  shows "buf_ok s \<Longrightarrow> is_bytes_left s < k \<Longrightarrow> at_message env n a dest (ni_iter l) \<Longrightarrow>
    \<exists>r t st'. noinit_loop k (noinit_round n sub env) l (s, st) = Some (r, (t, st')) \<and> inside s t \<and> frame W st st'"
proof (induction k arbitrary: s st l)
  case (Suc k)
  show ?case
  proof (cases "is_bytes_left s = 0")
    case True
    with inside_refl [OF Suc.prems(1)] show ?thesis by auto
  next
    case False
    from noinit_round_ok [OF m Suc.prems(3,1), of st] obtain r where
      r: "noinit_round n sub env l (s, st) = Some r" "round_ok W (at_message env n a dest) (s, st) r"
        "\<And>l' t st'. r = Go_on l' (t, st') \<Longrightarrow> is_bytes_left t < is_bytes_left s" by blast
    from r(2) obtain t st1 where ri: "inside s t" "frame W st st1"
      "r = Stop (t, st1) \<or> r = Fail (t, st1) \<or> (\<exists>l'. r = Go_on l' (t, st1) \<and> at_message env n a dest (ni_iter l'))"
      by (auto simp: round_ok_def)
    then consider "r = Stop (t, st1)" | "r = Fail (t, st1)"
      | l' where "r = Go_on l' (t, st1)" "at_message env n a dest (ni_iter l')" by blast
    then show ?thesis
    proof cases
      case 3
      have "is_bytes_left t < k" using r(3) [OF 3(1)] Suc.prems(2) by simp
      from Suc.IH [OF inside_buf_ok [OF ri(1) Suc.prems(1)] this 3(2), of st1] obtain r2 t2 st2 where
        r2: "noinit_loop k (noinit_round n sub env) l' (t, st1) = Some (r2, (t2, st2))" "inside t t2" "frame W st1 st2" by blast
      with False r(1) 3 inside_trans [OF ri(1) r2(2)] frame_trans [OF ri(2) r2(3)] show ?thesis by simp
    qed (use False r(1) ri in auto)
  qed
qed simp

lemma noinit_body_safe:
  fixes env :: "('s, 'h) dec_env"
  assumes m: "message_ok env T ssize rank n sub a dest W"
  shows "safe W (noinit_body n sub env a dest)"
proof (rule safeI)
  fix s :: "'s pb_istream" and st :: "'h store"
  assume s: "buf_ok s"
  let ?l = "\<lparr>ni_iter = snd (pb_field_iter_begin (d_desc env a) dest), ni_fields_seen = [0, 0],
              ni_extension_range_start = 0, ni_fixed_count_field = None\<rparr>"
  let ?st = "st_put (d_slot env n) 4 0 st"
  from m have fr: "frame W st ?st" by (intro frame_write) (simp add: message_ok_def)
  have "at_message env n a dest (ni_iter ?l)" by (simp add: reach_at it_reach.first)
  from noinit_loop_ok [OF m s less_add_one this, of ?st] obtain r t st1 where
    r: "noinit_loop (is_bytes_left s + 1) (noinit_round n sub env) ?l (s, ?st) = Some (r, (t, st1))" "inside s t" "frame W ?st st1"
    by blast
  have err: "\<exists>u. d_error msg (t, st1) = (None, (u, st1)) \<and> inside s u" for msg
    using r(2) by (auto simp: d_error_def on_stream_def pb_error_def inside_def)
  note f = frame_trans [OF fr r(3)]
  show "\<exists>r t st'. noinit_body n sub env a dest (s, st) = Some (r, (t, st')) \<and> inside s t \<and> frame W st st'"
  proof (cases r)
    case None
    with r f show ?thesis by (auto simp: noinit_body_def Let_def)
  next
    case (Some l)
    then have "noinit_body n sub env a dest (s, st) =
      Some (if wrong_fixed_count (d_slot env n) l st1 then d_error ''wrong size for fixed count field'' (t, st1)
            else if \<not> all_seen (req_field_count (ni_iter l)) (ni_fields_seen l)
            then d_error ''missing required field'' (t, st1) else (Some (), (t, st1)))"
      using r(1) by (simp add: noinit_body_def Let_def)
    with err [of "''wrong size for fixed count field''"] err [of "''missing required field''"] f r(2) show ?thesis by auto
  qed
qed

lemma decode_init_safe:
  fixes env :: "('s, 'h) dec_env"
  assumes schema: "schema_ok (d_desc env) T ssize rank" "a \<in> T" "rank a < n"
    and W: "{dest..<dest + ssize a} \<subseteq> W" and noinit: "safe W (noinit a dest)"
  shows "safe W (decode_init n noinit env a dest)"
proof (rule safeI)
  fix s :: "'s pb_istream" and st :: "'h store"
  assume s: "buf_ok s"
  from s_safeD [OF set_defaults_safe [OF schema W], of st] obtain st1 where
    st1: "pb_message_set_to_defaults n env a dest st = Some st1" "frame W st st1" by blast
  obtain r t st2 where r: "noinit a dest (s, st1) = Some (r, (t, st2))" "inside s t" "frame W st1 st2"
    using safeE [OF noinit s] by metis
  from s_safeD [OF release_safe [OF schema, where W = W and dest = dest], of st2] obtain st3 where
    st3: "pb_release n env a dest st2 = Some st3" "frame W st2 st3" by blast
  show "\<exists>r t st'. decode_init n noinit env a dest (s, st) = Some (r, (t, st')) \<and> inside s t \<and> frame W st st'"
    using st1 r st3 frame_trans [OF st1(2) r(3)] frame_trans [OF frame_trans [OF st1(2) r(3)] st3(2)]
    by (cases r) (auto simp: decode_init_def)
qed

theorem decode_noinit_safe:
  fixes env :: "('s, 'h) dec_env"
  assumes schema: "schema_ok (d_desc env) T ssize rank" and slots: "\<And>k. {d_slot env k..<d_slot env k + 4} \<subseteq> W"
  shows "a \<in> T \<Longrightarrow> rank a < n \<Longrightarrow> {dest..<dest + ssize a} \<subseteq> W \<Longrightarrow> safe W (pb_decode_noinit (Suc n) env a dest)"
proof (induction n arbitrary: a dest)
  case (Suc n)
  have "safe W ((if init then decode_init (Suc n) (pb_decode_noinit (Suc n) env) env else pb_decode_noinit (Suc n) env) b p)"
    if b: "b \<in> T" "rank b < rank a" and p: "{p..<p + ssize b} \<subseteq> W" for b init p
  proof -
    have "rank b < n" using Suc.prems(2) b(2) by simp
    from Suc.IH [OF b(1) this p] decode_init_safe [OF schema b(1) less_SucI [OF this] p] show ?thesis by simp
  qed
  then have "message_ok env T ssize rank (Suc n)
      (\<lambda>init. if init then decode_init (Suc n) (pb_decode_noinit (Suc n) env) env else pb_decode_noinit (Suc n) env) a dest W"
    unfolding message_ok_def using schema slots Suc.prems by blast
  from noinit_body_safe [OF this] show ?case by simp
qed simp

section \<open>A schema for the examples\<close>

text \<open>Type 1 has a required 4-byte integer, a required submessage of type 2, an array of at most two 4-byte
  integers and a string of at most 8 bytes; type 2 a required 4-byte zigzag integer.\<close>

definition demo_schema :: "nat \<Rightarrow> pb_field list" where
  "demo_schema a =
     (if a = 1 then
        [\<lparr>pf_tag = 1, pf_type = 0x02, pf_data_offset = 0, pf_size_offset = 0, pf_data_size = 4, pf_array_size = 0, pf_ptr = 0\<rparr>,
         \<lparr>pf_tag = 2, pf_type = 0x08, pf_data_offset = 0, pf_size_offset = 0, pf_data_size = 4, pf_array_size = 0, pf_ptr = 2\<rparr>,
         \<lparr>pf_tag = 3, pf_type = 0x22, pf_data_offset = 4, pf_size_offset = - 4, pf_data_size = 4, pf_array_size = 2, pf_ptr = 0\<rparr>,
         \<lparr>pf_tag = 4, pf_type = 0x17, pf_data_offset = 0, pf_size_offset = 0, pf_data_size = 8, pf_array_size = 0, pf_ptr = 0\<rparr>,
         PB_LAST_FIELD]
      else
        [\<lparr>pf_tag = 1, pf_type = 0x03, pf_data_offset = 0, pf_size_offset = 0, pf_data_size = 4, pf_array_size = 0, pf_ptr = 0\<rparr>,
         PB_LAST_FIELD])"

definition demo_size :: "nat \<Rightarrow> nat" where "demo_size a = (if a = 1 then 28 else 4)"
definition demo_rank :: "nat \<Rightarrow> nat" where "demo_rank a = (if a = 1 then 1 else 0)"

definition demo_env :: "(unit, unit) dec_env" where
  "demo_env = \<lparr>d_desc = demo_schema, d_decode = (\<lambda>_ _ _ x. (None, x)), d_ext_decode = (\<lambda>_ _ _ _ x. (None, x)),
     d_realloc = (\<lambda>_ _ st. (0, st)), d_free = (\<lambda>_ st. st), d_slot = (\<lambda>k. 1000 + 16 * k)\<rparr>"

definition demo_it :: "nat \<Rightarrow> nat \<Rightarrow> nat \<Rightarrow> nat \<Rightarrow> nat \<Rightarrow> nat \<Rightarrow> pb_field_iter" where
  "demo_it a dest pos req data sz = \<lparr>it_start = demo_schema a, it_pos = pos, it_required_field_index = req,
     it_dest_struct = dest, it_pData = data, it_pSize = sz\<rparr>"

lemma demo_first:
  "snd (pb_field_iter_begin (demo_schema 1) dest) = demo_it 1 dest 0 0 dest dest"
  "snd (pb_field_iter_begin (demo_schema 2) dest) = demo_it 2 dest 0 0 dest dest"
  by (simp_all add: pb_field_iter_begin_def Let_def demo_it_def demo_schema_def field_at_def size_addr_def)

lemma demo_next:
  "snd (pb_field_iter_next (demo_it 1 dest 0 0 dest dest)) = demo_it 1 dest 1 1 (dest + 4) (dest + 4)"
  "snd (pb_field_iter_next (demo_it 1 dest 1 1 (dest + 4) (dest + 4))) = demo_it 1 dest 2 2 (dest + 12) (dest + 8)"
  "snd (pb_field_iter_next (demo_it 1 dest 2 2 (dest + 12) (dest + 8))) = demo_it 1 dest 3 2 (dest + 20) (dest + 20)"
  "snd (pb_field_iter_next (demo_it 1 dest 3 2 (dest + 20) (dest + 20))) = demo_it 1 dest 0 0 dest dest"
  "snd (pb_field_iter_next (demo_it 2 dest 0 0 dest dest)) = demo_it 2 dest 0 0 dest dest"
proof -
  have z: "nat (int dest + 12 - 4) = dest + 8" by simp
  show "snd (pb_field_iter_next (demo_it 1 dest 0 0 dest dest)) = demo_it 1 dest 1 1 (dest + 4) (dest + 4)"
    by (simp add: pb_field_iter_next_def Let_def demo_it_def demo_schema_def field_at_def size_addr_def pb_types)
  show "snd (pb_field_iter_next (demo_it 1 dest 1 1 (dest + 4) (dest + 4))) = demo_it 1 dest 2 2 (dest + 12) (dest + 8)"
    by (simp add: pb_field_iter_next_def Let_def demo_it_def demo_schema_def field_at_def size_addr_def pb_types z)
  show "snd (pb_field_iter_next (demo_it 1 dest 2 2 (dest + 12) (dest + 8))) = demo_it 1 dest 3 2 (dest + 20) (dest + 20)"
    by (simp add: pb_field_iter_next_def Let_def demo_it_def demo_schema_def field_at_def size_addr_def pb_types)
  show "snd (pb_field_iter_next (demo_it 1 dest 3 2 (dest + 20) (dest + 20))) = demo_it 1 dest 0 0 dest dest"
    "snd (pb_field_iter_next (demo_it 2 dest 0 0 dest dest)) = demo_it 2 dest 0 0 dest dest"
    by (simp_all add: pb_field_iter_next_def pb_field_iter_begin_def Let_def demo_it_def demo_schema_def field_at_def
        size_addr_def PB_LAST_FIELD_def)
qed

lemma demo_reach:
  "it_reach (demo_schema 1) dest it \<Longrightarrow>
     it = demo_it 1 dest 0 0 dest dest \<or> it = demo_it 1 dest 1 1 (dest + 4) (dest + 4) \<or>
     it = demo_it 1 dest 2 2 (dest + 12) (dest + 8) \<or> it = demo_it 1 dest 3 2 (dest + 20) (dest + 20)"
  "it_reach (demo_schema 2) dest it \<Longrightarrow> it = demo_it 2 dest 0 0 dest dest"
proof -
  show "it = demo_it 1 dest 0 0 dest dest \<or> it = demo_it 1 dest 1 1 (dest + 4) (dest + 4) \<or>
     it = demo_it 1 dest 2 2 (dest + 12) (dest + 8) \<or> it = demo_it 1 dest 3 2 (dest + 20) (dest + 20)"
    if "it_reach (demo_schema 1) dest it"
    using that by induction (metis demo_first(1), metis demo_next(1-4))
  show "it = demo_it 2 dest 0 0 dest dest" if "it_reach (demo_schema 2) dest it"
    using that by induction (metis demo_first(2), metis demo_next(5))
qed

lemma demo_fits:
  "it_fits {dest..<dest + 28} demo_size (demo_it 1 dest 0 0 dest dest)"
  "it_fits {dest..<dest + 28} demo_size (demo_it 1 dest 1 1 (dest + 4) (dest + 4))"
  "it_fits {dest..<dest + 28} demo_size (demo_it 1 dest 2 2 (dest + 12) (dest + 8))"
  "it_fits {dest..<dest + 28} demo_size (demo_it 1 dest 3 2 (dest + 20) (dest + 20))"
  "it_fits {dest..<dest + 4} demo_size (demo_it 2 dest 0 0 dest dest)"
  by (simp_all add: it_fits_def Let_def demo_it_def demo_schema_def field_at_def value_fits_def item_count_def
      demo_size_def pb_types)

lemma demo_submessages:
  "ltype (it_field (demo_it 1 dest 0 0 x y)) \<noteq> PB_LTYPE_SUBMESSAGE" "ltype (it_field (demo_it 1 dest 2 2 x y)) \<noteq> PB_LTYPE_SUBMESSAGE"
  "ltype (it_field (demo_it 1 dest 3 2 x y)) \<noteq> PB_LTYPE_SUBMESSAGE" "ltype (it_field (demo_it 2 dest 0 0 x y)) \<noteq> PB_LTYPE_SUBMESSAGE"
  "pf_ptr (it_field (demo_it 1 dest 1 1 x y)) = 2"
  by (simp_all add: demo_it_def demo_schema_def field_at_def pb_types)

lemma demo_schema_ok: "schema_ok demo_schema {1, 2} demo_size demo_rank"
  unfolding schema_ok_def
proof (intro ballI conjI allI impI)
  fix a assume a: "a \<in> {1, 2 :: nat}"
  then show "pf_tag (field_at (demo_schema a) 0) \<noteq> 0" by (auto simp: demo_schema_def field_at_def)
  fix dest it
  assume it: "it_reach (demo_schema a) dest it"
  from a consider "a = 1" | "a = 2" by blast
  then have "it_fits {dest..<dest + demo_size a} demo_size it \<and> (ltype (it_field it) = PB_LTYPE_SUBMESSAGE \<longrightarrow>
      pf_ptr (it_field it) = 2 \<and> a = 1)"
  proof cases
    case 1
    have "demo_size a = 28" by (simp add: 1 demo_size_def)
    with 1 demo_reach(1) [OF it [unfolded 1]] demo_fits demo_submessages show ?thesis by metis
  next
    case 2
    have "demo_size a = 4" by (simp add: 2 demo_size_def)
    with demo_reach(2) [OF it [unfolded 2]] demo_fits demo_submessages show ?thesis by metis
  qed
  then show "it_fits {dest..<dest + demo_size a} demo_size it"
    "ltype (it_field it) = PB_LTYPE_SUBMESSAGE \<Longrightarrow> pf_ptr (it_field it) \<in> {1, 2}"
    "ltype (it_field it) = PB_LTYPE_SUBMESSAGE \<Longrightarrow> demo_rank (pf_ptr (it_field it)) < demo_rank a"
    by (auto simp: demo_rank_def)
qed

section \<open>Properties\<close>

text \<open>C25: Decoding untrusted bytes into a struct whose message types have static fields only is safe: whatever
  the bytes are, \<open>pb_decode\<close> returns (fuel two above the nesting depth of the types is enough), reads
  inside the buffer, and changes no memory but the struct and its own local counters; the defaults it sets
  beforehand and the release after a failure included.\<close>

theorem decoding_untrusted_bytes_is_safe:
  fixes env :: "('s, 'h) dec_env"
  assumes "schema_ok (d_desc env) T ssize rank" "a \<in> T" "rank a + 1 < n"
  shows "\<exists>r t st'. pb_decode n env a dest (pb_istream_from_buffer s0 bs (length bs), st) = Some (r, (t, st')) \<and>
    \<not> is_overrun t \<and> is_bytes_left t \<le> length (is_source t) \<and> is_suffix bs (is_source t) \<and>
    (\<forall>p. p \<notin> {dest..<dest + ssize a} \<and> (\<forall>k. p \<notin> {d_slot env k..<d_slot env k + 4}) \<longrightarrow> st_mem st' p = st_mem st p)"
proof -
  from assms(3) obtain k where n: "n = Suc k" and k: "rank a < k" by (cases n) auto
  define W where "W = {dest..<dest + ssize a} \<union> (\<Union>k. {d_slot env k..<d_slot env k + 4})"
  have "safe W (pb_decode_noinit (Suc k) env a dest)"
    by (rule decode_noinit_safe [OF assms(1) _ assms(2) k]) (auto simp: W_def)
  then have "safe W (pb_decode n env a dest)"
    unfolding pb_decode_def n using k by (intro decode_init_safe [OF assms(1,2)]) (auto simp: W_def)
  from safeE [OF this from_buffer_ok] obtain r t st' where
    "pb_decode n env a dest (pb_istream_from_buffer s0 bs (length bs), st) = Some (r, (t, st'))"
    "inside (pb_istream_from_buffer s0 bs (length bs)) t" "frame W st st'" "buf_ok t" by metis
  then show ?thesis
    by (auto simp: inside_def frame_def W_def buf_ok_def pb_istream_from_buffer_def)
qed

theorem decoding_untrusted_bytes_is_safe_witness:
  "\<exists>r t st'. pb_decode 3 demo_env 1 100
      (pb_istream_from_buffer () [8, 5, 18, 2, 8, 1, 26, 3, 1, 2, 3] 11, \<lparr>st_mem = (\<lambda>_. 7), st_heap = ()\<rparr>) = Some (r, (t, st')) \<and>
    st_mem st' 128 = 7"
proof -
  let ?bs = "[8, 5, 18, 2, 8, 1, 26, 3, 1, 2, 3] :: bytes"
  have sch: "schema_ok (d_desc demo_env) {1, 2} demo_size demo_rank"
    using demo_schema_ok by (simp only: demo_env_def dec_env.simps)
  have "1 \<in> {1, 2 :: nat}" "demo_rank 1 + 1 < 3" by (simp_all add: demo_rank_def)
  from decoding_untrusted_bytes_is_safe [OF sch this, of 100 "()" ?bs "\<lparr>st_mem = (\<lambda>_. 7), st_heap = ()\<rparr>"]
  obtain r t st' where run: "pb_decode 3 demo_env 1 100 (pb_istream_from_buffer () ?bs (length ?bs),
      \<lparr>st_mem = (\<lambda>_. 7), st_heap = ()\<rparr>) = Some (r, (t, st'))"
    and out: "\<And>p. p \<notin> {100..<100 + demo_size 1} \<Longrightarrow> (\<And>k. p \<notin> {d_slot demo_env k..<d_slot demo_env k + 4}) \<Longrightarrow> st_mem st' p = 7"
    by auto
  have "st_mem st' 128 = 7" by (rule out) (simp_all add: demo_size_def demo_env_def)
  moreover have "length ?bs = 11" by simp
  ultimately show ?thesis using run by metis
qed

text \<open>C26: Setting a repeated fixed-count field to its default writes a four-byte zero count over its data, where
  no count is: an array of fewer than four bytes is overrun.\<close>

theorem fixed_count_default_overruns:
  assumes "atype (it_field it) = PB_ATYPE_STATIC" "ltype (it_field it) \<noteq> PB_LTYPE_EXTENSION"
    "htype (it_field it) = PB_HTYPE_REPEATED" "it_pSize it = it_pData it"
    "pf_data_size (it_field it) * pf_array_size (it_field it) \<le> i" "i < 4"
  shows "\<exists>st'. pb_field_set_to_default (Suc n) env it st = Some st' \<and> st_mem st' (it_pData it + i) = 0"
proof -
  have "le_bytes k 0 = replicate k 0" for k by (induction k) simp_all
  with assms htypes_distinct show ?thesis
    by (simp add: set_default_body_def Let_def st_write_def)
qed

text \<open>Three \<open>bool\<close>s at address 100, in a memory of sevens: the byte behind them is cleared.\<close>

definition demo_bools :: pb_field_iter where
  "demo_bools = \<lparr>it_start = [\<lparr>pf_tag = 1, pf_type = 0x20, pf_data_offset = 0, pf_size_offset = 0, pf_data_size = 1,
     pf_array_size = 3, pf_ptr = 0\<rparr>, PB_LAST_FIELD], it_pos = 0, it_required_field_index = 0, it_dest_struct = 100,
     it_pData = 100, it_pSize = 100\<rparr>"

theorem fixed_count_default_overruns_witness:
  "\<exists>st'. pb_field_set_to_default (Suc 0) demo_env demo_bools \<lparr>st_mem = (\<lambda>_. 7), st_heap = ()\<rparr> = Some st' \<and> st_mem st' 103 = 0"
proof -
  have "atype (it_field demo_bools) = PB_ATYPE_STATIC" "ltype (it_field demo_bools) \<noteq> PB_LTYPE_EXTENSION"
    "htype (it_field demo_bools) = PB_HTYPE_REPEATED" "it_pSize demo_bools = it_pData demo_bools"
    "pf_data_size (it_field demo_bools) * pf_array_size (it_field demo_bools) \<le> 3" "(3 :: nat) < 4"
    by (simp_all add: demo_bools_def field_at_def pb_types)
  from fixed_count_default_overruns [OF this] show ?thesis by (simp add: demo_bools_def)
qed

text \<open>C27: In an empty message the terminator of the field list matches field number 0: the bytes 2, 1 (field 0,
  wire type 2) are decoded as a required \<open>bool\<close> into the struct, and \<open>pb_decode\<close> succeeds.\<close>

theorem empty_message_takes_field_zero:
  "\<exists>t st'. pb_decode 2 (demo_env\<lparr>d_desc := (\<lambda>_. [PB_LAST_FIELD])\<rparr>) 1 100
      (pb_istream_from_buffer () [2, 1] 2, \<lparr>st_mem = (\<lambda>_. 7), st_heap = ()\<rparr>) = Some (Some (), (t, st')) \<and>
    st_mem st' 100 = 1"
proof -
  have "(case pb_decode 2 (demo_env\<lparr>d_desc := (\<lambda>_. [PB_LAST_FIELD])\<rparr>) 1 100
      (pb_istream_from_buffer () [2, 1] 2, \<lparr>st_mem = (\<lambda>_. 7), st_heap = ()\<rparr>) of
      Some (Some _, (t, st')) \<Rightarrow> st_mem st' 100 = 1 | _ \<Rightarrow> False)" by code_simp
  then show ?thesis by (auto split: option.splits prod.splits)
qed

end
