(* ===== verification/Spec2Isabelle.thy ===== *)
theory Spec2Isabelle
  imports Stack CBC BN_Bytes OIDText SetOf Unicode BER BioPair_Correct LHash_Correct Base64_Correct PbEncode_Correct PbDecode_Correct "HOL-Library.Code_Target_Nat"
begin

text \<open>
  The C core under the Firebase backend of Smart Photo Kit, an iOS photo editor. The Swift application
  keeps its pictures and accounts in Firebase; what carries their bytes is C: the protocol buffer
  library nanopb, in which Firestore encodes and decodes every message, and BoringSSL, which parses the
  certificates, carries the transport and holds the buffers under gRPC. This library models the
  byte-handling parts of both. Paths are those under \<open>Smart Photo Kit/Pods/\<close>.

  \<^bold>\<open>Conventions.\<close> A C function that can fail and works on one object is a function from the object to an
  optional result and the object (\<open>cop\<close> in \<open>Prelude\<close>), \<open>None\<close> being the return value 0 or \<open>false\<close>; a function
  with fuel or undefined behaviour has one \<open>option\<close> more around it. \<open>size_t\<close> is 64 bits: where the code checks
  for wrap-around, sums are \<open>size_add\<close> and \<open>size_mult\<close>, the decoder counts down with \<open>size_down\<close>, elsewhere \<open>nat\<close>. Bytes are \<open>8 word\<close>, the other
  integers words of their width.

  \<^bold>\<open>Theories.\<close>
  \<^item> \<open>Prelude\<close>, \<open>Codec\<close>: operations, words and bytes; the interfaces \<open>reader\<close>, \<open>codec\<close>, \<open>strict_codec\<close> and
    \<open>seq_codec\<close> with what follows from their laws. The readers and writers of ASN.1 and protocol buffers
    are interpretations of them.
  \<^item> \<open>Mem\<close> (\<open>crypto/mem.c\<close>): the size-prefixed allocator over an abstract malloc, constant-time comparison,
    string functions.
  \<^item> \<open>CBS\<close>, \<open>DER\<close>, \<open>CBS_Values\<close> (\<open>crypto/bytestring/cbs.c\<close>): reading byte strings and ASN.1. A \<open>CBS\<close> is the list of
    bytes it points to. \<open>DER\<close> defines the encoding of tags, lengths and elements and shows that the
    parser accepts it and nothing else; \<open>CBS_Values\<close> does so for integers, booleans, bit strings and
    optional elements.
  \<^item> \<open>CBB\<close>, \<open>CBB_Correct\<close>, \<open>CBB_Build\<close> (\<open>crypto/bytestring/cbb.c\<close>): building byte strings. The buffer with its capacity
    is kept, the chain of open children is a list. \<open>CBB_Correct\<close> treats growing, writing and flushing,
    \<open>CBB_Build\<close> whole trees of elements.
  \<^item> \<open>CBB_Values\<close>, \<open>OIDText\<close>, \<open>SetOf\<close> (the rest of \<open>cbb.c\<close>): integers, booleans and octet strings as sequences of values
    that are read back, object identifiers as dotted text, and the canonical order of \<open>SET OF\<close>.
  \<^item> \<open>Unicode\<close> (\<open>crypto/bytestring/unicode.c\<close>): four character encodings, each a strict codec.
  \<^item> \<open>BER\<close> (\<open>crypto/bytestring/ber.c\<close>): the conversion of BER to DER, against a grammar of BER values and the DER form
    X.690 gives them (\<open>ber_der\<close>), which is stated without the code; \<open>joinable\<close> are the values on which the two agree.
  \<^item> \<open>Stack\<close> (\<open>crypto/stack/stack.c\<close>): arrays of pointers, refined to lists; the search by bisection finds what a
    scan would.
  \<^item> \<open>BioPair\<close>, \<open>BioPair_Correct\<close> (\<open>crypto/bio/pair.c\<close>, \<open>bio.c\<close>): two connected endpoints over ring buffers, in a heap of
    addresses; loops that need not end are partial functions. The invariant \<open>pair_ok\<close> is kept by every call.
  \<^item> \<open>LHash\<close>, \<open>LHash_Correct\<close> (\<open>crypto/lhash/lhash.c\<close>): the hash table, refined to a dictionary; the invariant is
    \<open>lh_ok\<close>. Items have addresses, because iteration follows them while the callback may delete.
  \<^item> \<open>ConstTime\<close>, \<open>Base64\<close>, \<open>Base64_Correct\<close> (\<open>crypto/internal.h\<close>, \<open>crypto/base64/base64.c\<close>): the branch-free primitives and
    base64 on them, one-shot and streaming.
  \<^item> \<open>Modes\<close>, \<open>CBC\<close> (\<open>crypto/fipsmodule/modes/\<close>): the modes of operation over an arbitrary block cipher. Counter mode, OFB and
    CFB have one loop and interpret the interfaces \<open>stream_mode\<close> and \<open>inverse_modes\<close>; CBC decryption runs in a flat
    memory, because it is used in place.
  \<^item> \<open>BNWords\<close>, \<open>BN\<close>, \<open>BN_Correct\<close>, \<open>BN_Ops\<close>, \<open>BN_Bytes\<close> (\<open>crypto/fipsmodule/bn/\<close>): arrays of words with their carries and the numbers they
    stand for; signed big numbers with their storage, then what addition, subtraction, comparison, shifts, bits and bytes
    compute, as integers.
  \<^item> \<open>PbStream\<close>, \<open>PbFields\<close>, \<open>PbEncode\<close>, \<open>PbDecode\<close> (\<open>nanopb/pb_common.c\<close>, \<open>pb_encode.c\<close>, \<open>pb_decode.c\<close>): streams and wire values;
    descriptors and iterators over structs in a flat memory; the encoder; the decoder with its allocation,
    callbacks, oneofs, extensions, defaults and release. \<open>PbStream_Correct\<close> shows that the wire values round-trip,
    \<open>PbWire\<close> and \<open>PbEncode_Correct\<close> that the encoder refines a plain function from messages to bytes,
    \<open>PbDecode_Correct\<close> that decoding untrusted bytes is memory-safe and returns.
  This theory holds the properties in which the parser and the builder meet.

  \<^bold>\<open>Fuel.\<close> The nesting of protocol messages is not bounded by the code; \<open>pb_encode\<close> and \<open>pb_decode\<close> take a unit of fuel
  for each level, and \<open>None\<close> is running out of it. For message types of static fields the depth of the types is
  enough (\<open>decoding_untrusted_bytes_is_safe\<close>). The loops over the bytes of a message have the number of
  bytes and one more, of which each round takes at least one. \<open>read_all\<close> has the length of its input.

  \<^bold>\<open>Parameters.\<close> What the C library provides (malloc, realloc, free) and what the user provides (hash and comparison
  functions, stream and field callbacks, message descriptors) are arguments; \<open>allocator_ok\<close>, \<open>hash_laws\<close>,
  \<open>env_writes\<close> and \<open>schema_ok\<close> say what is relied on.

  \<^bold>\<open>Not modelled.\<close> The Swift and Objective-C code of the application and of its user-interface pods, whose logic is in
  closed frameworks (UIKit, CoreML, Metal); gRPC, Abseil, Firestore and LevelDB, which are C++ around
  threads, callbacks and the network; of BoringSSL the block ciphers and hash functions, GCM, elliptic curves, RSA, TLS and X.509, and of its
  big numbers multiplication, Montgomery form and what is built on them; generated data (object identifiers,
  root certificates, curve tables). Where the big-number code has assembly, the portable C is modelled.
\<close>

text \<open>C1: Whatever tree of bytes, ASN.1 elements and length-prefixed blocks a caller writes through
  \<open>CBB_add_asn1\<close>, \<open>CBB_add_u8/u16/u24_length_prefixed\<close> and \<open>CBB_add_bytes\<close>, with any initial capacity
  and whatever the allocator does: if every call and \<open>CBB_finish\<close> report success, the finished buffer
  holds exactly the encoding of the tree, and every length fitted its prefix.\<close>

theorem built_bytes_are_the_encoding:
  assumes "allocator_ok al" "n < size_mod" "writable x"
    and "CBB_init al n = (True, cbb)"
    and "build Top 0 x cbb = (Some u, cbb1)"
    and "CBB_finish Top w cbb1 = (Some (out, len), cbb2)"
  shows "fits x \<and> take len out = encode x \<and> cbb_base cbb2 = None"
proof -
  have at: "cbb_at Top [] [] cbb" using CBB_init_at [OF assms(1,4,2)] by blast
  from build_at(1) [OF at _ assms(3,5)] have "fits x" "cbb_at Top [] (encode x) cbb1" by simp_all
  with CBB_finish_at [OF _ assms(6)] show ?thesis by blast
qed

theorem built_bytes_are_the_encoding_witness:
  "fits (Elem CBS_ASN1_SEQUENCE [Prefixed 2 [Raw [1, 2, 3]]]) \<and>
   (case CBB_init (\<lambda>n. Some (replicate n 0)) 0 of (_, cbb) \<Rightarrow>
    case build Top 0 (Elem CBS_ASN1_SEQUENCE [Prefixed 2 [Raw [1, 2, 3]]]) cbb of (_, cbb1) \<Rightarrow>
    case CBB_finish Top True cbb1 of
      (Some (out, len), cbb2) \<Rightarrow> take len out = [0x30, 5, 0, 3, 1, 2, 3]
    | _ \<Rightarrow> False)"
proof -
  define al :: allocator where "al = (\<lambda>n. Some (replicate n 0))"
  define x where "x = Elem CBS_ASN1_SEQUENCE [Prefixed 2 [Raw [1, 2, 3]]]"
  have al: "allocator_ok al" by (simp add: al_def allocator_ok_def)
  have "fst (CBB_init al 0)" unfolding al_def by code_simp
  then obtain cbb where i: "CBB_init al 0 = (True, cbb)" by (cases "CBB_init al 0") auto
  have "fst (build Top 0 x (snd (CBB_init al 0))) \<noteq> None" unfolding al_def x_def by code_simp
  then obtain u cbb1 where b: "build Top 0 x cbb = (Some u, cbb1)" using i
    by (cases "build Top 0 x cbb") auto
  have "fst (CBB_finish Top True (snd (build Top 0 x (snd (CBB_init al 0))))) \<noteq> None"
    unfolding al_def x_def by code_simp
  then obtain out len cbb2 where f: "CBB_finish Top True cbb1 = (Some (out, len), cbb2)" using i b
    by (cases "CBB_finish Top True cbb1") auto
  have w: "writable x" by (simp add: x_def size_mod_def)
  from built_bytes_are_the_encoding [OF al _ w i b f] have "fits x" "take len out = encode x" by simp_all
  moreover have "encode x = [0x30, 5, 0, 3, 1, 2, 3]" unfolding x_def by code_simp
  ultimately show ?thesis using i b f by (simp add: al_def x_def)
qed


text \<open>C2: And the calls do succeed: with an allocator that does not fail, any tree whose lengths fit
  their prefixes and whose encoding is shorter than \<open>SIZE_MAX\<close> is written and handed over.\<close>

theorem building_succeeds:
  assumes al: "allocator_ok al" and mem: "\<And>k. al k \<noteq> None" and n: "n < size_mod"
    and x: "fits x" "length (encode x) < size_mod"
  shows "\<exists>cbb u cbb1 out len cbb2. CBB_init al n = (True, cbb) \<and> build Top 0 x cbb = (Some u, cbb1) \<and>
    CBB_finish Top True cbb1 = (Some (out, len), cbb2) \<and> take len out = encode x"
proof -
  from CBB_init_room [OF al mem n x(2)] obtain cbb where i: "CBB_init al n = (True, cbb)"
    and r: "cbb_room (length (encode x)) Top [] [] cbb" by blast
  from build_room(1) [OF r _ x(1)] obtain u cbb1 where b: "build Top 0 x cbb = (Some u, cbb1)"
    and r1: "cbb_room 0 Top [] (encode x) cbb1" by auto
  from CBB_finish_room [OF r1] obtain out len cbb2 where
    f: "CBB_finish Top True cbb1 = (Some (out, len), cbb2)" by blast
  from r1 have "cbb_at Top [] (encode x) cbb1" by (simp add: cbb_room_def)
  from CBB_finish_at [OF this f] i b f show ?thesis by blast
qed

theorem building_succeeds_witness:
  "\<exists>cbb u cbb1 out len cbb2. CBB_init (\<lambda>n. Some (replicate n 0)) 4 = (True, cbb) \<and>
     build Top 0 (Elem CBS_ASN1_INTEGER [Raw (replicate 200 7)]) cbb = (Some u, cbb1) \<and>
     CBB_finish Top True cbb1 = (Some (out, len), cbb2) \<and> take len out = [2, 0x81, 200] @ replicate 200 7"
proof -
  have "encode (Elem CBS_ASN1_INTEGER [Raw (replicate 200 7)]) = [2, 0x81, 200] @ replicate 200 7"
    by code_simp
  moreover have "length (encode (Elem CBS_ASN1_INTEGER [Raw (replicate 200 7)])) < size_mod"
    unfolding calculation by (simp add: size_mod_def)
  ultimately show ?thesis
    using building_succeeds [of "\<lambda>n. Some (replicate n 0)" 4 "Elem CBS_ASN1_INTEGER [Raw (replicate 200 7)]"]
    by (simp add: allocator_ok_def size_mod_def)
qed

text \<open>C3: The DER parser accepts exactly the DER encodings. \<open>CBS_get_any_asn1\<close> returns a tag and a
  body if and only if the input starts with their encoding (minimal tag, minimal length, at most
  \<open>2 ^ 32 - 1\<close> bytes of body), and then it leaves precisely what follows.\<close>

theorem parser_accepts_exactly_DER:
  "CBS_get_any_asn1 s = (Some (body, tag), t) \<longleftrightarrow> length body < 2 ^ 32 \<and> s = der_elem tag body @ t"
  using element_codec.accepts_iff [of s "(body, tag)" t] by simp

end
